(* ===== verification/Prelude.thy ===== *)
theory Prelude
  imports Main "HOL-Library.Word"
begin

text \<open>
  The material every component of the development shares: names for the C
  integer types, the state-and-fault computations the bare-metal libc is
  translated into (\<open>sret\<close>, \<open>sbind\<close>), the reading of 32-bit little-endian
  words in a byte memory, and generic lemmas on words and lists.
\<close>

unbundle bit_operations_syntax

section \<open>C integer types\<close>

type_synonym u8 = "8 word"
type_synonym u16 = "16 word"
type_synonym u32 = "32 word"
type_synonym u64 = "64 word"

text \<open>Signed C integers are \<open>int\<close> values reduced to their width on assignment.\<close>

definition s8 :: "int \<Rightarrow> int" where
  "s8 x = signed_take_bit 7 x"

definition s32 :: "int \<Rightarrow> int" where
  "s32 x = signed_take_bit 31 x"

named_theorems exec_simps \<open>equations that execute the state-and-fault computations\<close>
named_theorems word_nat_simps \<open>reading words as natural numbers\<close>

lemma s32_id: "- (2 ^ 31) \<le> x \<Longrightarrow> x < 2 ^ 31 \<Longrightarrow> s32 x = x"
  by (simp add: s32_def signed_take_bit_int_eq_self)

lemma s8_id: "- 128 \<le> x \<Longrightarrow> x < 128 \<Longrightarrow> s8 x = x"
  by (simp add: s8_def signed_take_bit_int_eq_self)

text \<open>Error numbers, as \<^verbatim>\<open>errno.h\<close> has them.\<close>

definition ENOMEM :: int where "ENOMEM = 12"
definition EAGAIN :: int where "EAGAIN = 11"
definition EBUSY :: int where "EBUSY = 16"
definition EINVAL :: int where "EINVAL = 22"
definition ENOMSG :: int where "ENOMSG = 80"
definition EMSGSIZE :: int where "EMSGSIZE = 36"

section \<open>State-and-fault computations\<close>

text \<open>
  A computation takes a state and either stops with a fault or returns a
  value and the new state. It stands for a C function with side effects.
\<close>

definition sret :: "'a \<Rightarrow> 's \<Rightarrow> 'e + 'a \<times> 's" where
  "sret x s = Inr (x, s)"

definition sbind ::
  "('s \<Rightarrow> 'e + 'a \<times> 's) \<Rightarrow> ('a \<Rightarrow> 's \<Rightarrow> 'e + 'b \<times> 's) \<Rightarrow> 's \<Rightarrow> 'e + 'b \<times> 's" where
  "sbind m f s = (case m s of Inl e \<Rightarrow> Inl e | Inr (x, s') \<Rightarrow> f x s')"

definition sfail :: "'e \<Rightarrow> 's \<Rightarrow> 'e + 'a \<times> 's" where
  "sfail e s = Inl e"

definition sget :: "('s \<Rightarrow> 'a) \<Rightarrow> 's \<Rightarrow> 'e + 'a \<times> 's" where
  "sget f s = Inr (f s, s)"

definition smod :: "('s \<Rightarrow> 's) \<Rightarrow> 's \<Rightarrow> 'e + unit \<times> 's" where
  "smod f s = Inr ((), f s)"

lemma sret_apply [simp, exec_simps]: "sret x s = Inr (x, s)"
  by (simp add: sret_def)

lemma sfail_apply [simp, exec_simps]: "sfail e s = Inl e"
  by (simp add: sfail_def)

lemma sget_apply [simp, exec_simps]: "sget f s = Inr (f s, s)"
  by (simp add: sget_def)

lemma smod_apply [simp, exec_simps]: "smod f s = Inr ((), f s)"
  by (simp add: smod_def)

lemma sbind_Inr [simp, exec_simps]: "m s = Inr (x, s') \<Longrightarrow> sbind m f s = f x s'"
  by (simp add: sbind_def)

lemma sbind_Inl [simp, exec_simps]: "m s = Inl e \<Longrightarrow> sbind m f s = Inl e"
  by (simp add: sbind_def)

lemma sbind_InrE:
  assumes "sbind m f s = Inr (y, s'')"
  obtains x s' where "m s = Inr (x, s')" and "f x s' = Inr (y, s'')"
  using assms by (auto simp: sbind_def split: sum.splits prod.splits)

lemma sbind_assoc: "sbind (sbind m f) g = sbind m (\<lambda>x. sbind (f x) g)"
  by (rule ext) (simp add: sbind_def split: sum.split prod.split)

text \<open>
  Reading a function-valued record field after an update leaves the update
  unfolded under a binder; this folds it again.
\<close>

lemma fold_fun_upd [simp]:
  "(\<lambda>a :: nat. if a = x then v else f a) = f(x := v :: u8)"
  "(\<lambda>a :: nat. if a = x then k else h a) = h(x := k :: nat)"
  by (rule ext, simp)+

section \<open>Words as natural numbers\<close>

lemma unat_u32_less [simp]: "unat (w :: u32) < 4294967296"
  using unsigned_less [of w] by simp

lemma unat_u64_less: "unat (w :: u64) < 18446744073709551616"
  using unsigned_less [of w] by simp

lemma unat_low32: "unat (w :: u64) < 4294967296 \<Longrightarrow> unat (ucast w :: u32) = unat w"
  by (simp add: unsigned_ucast_eq take_bit_nat_eq_self)

lemma unat_up64: "unat (ucast (w :: u32) :: u64) = unat w"
proof -
  have "unat w < 2 ^ 64" by (rule less_le_trans [OF unat_u32_less]) simp
  then show ?thesis by (simp add: unsigned_ucast_eq take_bit_nat_eq_self del: power_numeral)
qed

lemma unat_align16: "unat (push_bit 4 (drop_bit 4 (p :: u32))) = 16 * (unat p div 16)"
proof -
  have "push_bit 4 (drop_bit 4 p) = (p div 16) * 16" by (simp add: push_bit_eq_mult drop_bit_eq_div)
  moreover have "unat p div 16 * 16 < 4294967296"
    using unat_u32_less [of p] div_times_less_eq_dividend [of "unat p" 16] by linarith
  ultimately show ?thesis by (simp add: unat_word_ariths unat_div)
qed

lemma unat_u32_add [word_nat_simps]:
  "unat (a :: u32) + unat b < 4294967296 \<Longrightarrow> unat (a + b) = unat a + unat b"
  by (simp add: unat_word_ariths)

lemma unat_u32_sub [word_nat_simps]:
  "unat (b :: u32) \<le> unat a \<Longrightarrow> unat (a - b) = unat a - unat b"
  by (simp add: unat_sub word_le_nat_alt)

lemma unat_sub_less:
  assumes "p \<le> (s :: u32)" and "p \<noteq> 0"
  shows "unat (s - p) < unat s"
proof -
  have "unat p \<le> unat s" using assms(1) by (simp add: word_le_nat_alt)
  moreover have "0 < unat p" using assms(2) by (simp add: unat_gt_0)
  ultimately show ?thesis by (simp add: unat_u32_sub)
qed

lemma unat_and_mask: "unat (w AND mask n :: 'a::len word) = unat w mod 2 ^ n"
proof -
  have "w AND mask n = take_bit n w"
    by (simp add: take_bit_eq_mask)
  then have "unat (w AND mask n) = take_bit n (unat w)"
    by (simp only: unsigned_take_bit_eq)
  then show ?thesis
    by (simp only: take_bit_eq_mod)
qed

lemma unat_shift_right: "unat (drop_bit n w :: 'a::len word) = unat w div 2 ^ n"
proof -
  have "unat (drop_bit n w) = drop_bit n (unat w)"
    by (rule unat_drop_bit_eq)
  then show ?thesis
    by (simp only: drop_bit_nat_eq) (simp add: drop_bit_eq_div)
qed

lemma unat_of_nat_u32: "n < 4294967296 \<Longrightarrow> unat (of_nat n :: u32) = n"
  by (simp add: unat_of_nat take_bit_nat_eq_self)

lemma unat_u32_inj: "unat (a :: u32) = unat b \<Longrightarrow> a = b"
  by (simp add: word_unat_eq_iff)

section \<open>Little-endian words in a byte memory\<close>

definition get32 :: "(nat \<Rightarrow> u8) \<Rightarrow> nat \<Rightarrow> u32" where
  "get32 r a = ucast (r a) OR push_bit 8 (ucast (r (a + 1)))
     OR push_bit 16 (ucast (r (a + 2))) OR push_bit 24 (ucast (r (a + 3)))"

definition put32 :: "(nat \<Rightarrow> u8) \<Rightarrow> nat \<Rightarrow> u32 \<Rightarrow> nat \<Rightarrow> u8" where
  "put32 r a v = r (a := ucast v, a + 1 := ucast (drop_bit 8 v),
     a + 2 := ucast (drop_bit 16 v), a + 3 := ucast (drop_bit 24 v))"

lemma put32_other: "b < a \<or> a + 4 \<le> b \<Longrightarrow> put32 r a v b = r b"
  by (auto simp: put32_def)

lemma get32_put32_same [simp]: "get32 (put32 r a v) a = v"
proof (rule bit_word_eqI)
  fix n
  assume n: "n < LENGTH(32)"
  then consider "n < 8" | "8 \<le> n" "n < 16" | "16 \<le> n" "n < 24" | "24 \<le> n" "n < 32"
    by fastforce
  then show "bit (get32 (put32 r a v) a) n = bit v n"
    by cases (auto simp: get32_def put32_def bit_simps)
qed

lemma get32_put32_other: "b + 4 \<le> a \<or> a + 4 \<le> b \<Longrightarrow> get32 (put32 r a v) b = get32 r b"
  by (auto simp: get32_def put32_other)

lemma get32_cong:
  assumes "\<And>i. i < 4 \<Longrightarrow> r (a + i) = r' (a + i)"
  shows "get32 r a = get32 r' a"
  using assms [of 0] assms [of 1] assms [of 2] assms [of 3] by (simp add: get32_def)

section \<open>Rings of indices\<close>

lemma mod_window:
  assumes "i < u" and "u < (M :: nat)"
  shows "(r + i) mod M \<noteq> (r + u) mod M"
proof -
  have "(r + u) mod M = (r + i) mod M \<longleftrightarrow> M dvd (r + u) - (r + i)" using assms by (intro mod_eq_dvd_iff_nat) simp
  moreover have "\<not> M dvd u - i" using assms by (intro nat_dvd_not_less) simp_all
  ultimately show ?thesis by auto
qed

text \<open>The \<open>n\<close> entries from index \<open>h\<close> on of a ring of \<open>S\<close> entries.\<close>

definition window :: "(nat \<Rightarrow> 'v) \<Rightarrow> nat \<Rightarrow> nat \<Rightarrow> nat \<Rightarrow> 'v list" where
  "window f S h n = map (\<lambda>i. f ((h + i) mod S)) [0..<n]"

lemma window_len [simp]: "length (window f S h n) = n"
  by (simp add: window_def)

text \<open>Writing \<open>n\<close> entries behind a window of \<open>u\<close>, at indices that do not wrap.\<close>

lemma window_store:
  assumes "u + n \<le> S" and "d = (h + u) mod S" and "d + n \<le> S" and "0 < S"
    and "\<And>a. f' a = (if d \<le> a \<and> a < d + n then data (a - d) else f a)"
  shows "window f' S h (u + n) = window f S h u @ map data [0..<n]"
proof (rule nth_equalityI)
  fix i assume i: "i < length (window f' S h (u + n))"
  have at: "(h + (u + j)) mod S = d + j" if "j < n" for j
  proof -
    have "(h + (u + j)) mod S = (d + j) mod S" unfolding assms(2) by (simp add: mod_add_left_eq add.assoc)
    then show ?thesis using that assms(3) by simp
  qed
  show "window f' S h (u + n) ! i = (window f S h u @ map data [0..<n]) ! i"
  proof (cases "i < u")
    case True
    have "\<not> (d \<le> (h + i) mod S \<and> (h + i) mod S < d + n)"
    proof
      assume "d \<le> (h + i) mod S \<and> (h + i) mod S < d + n"
      then obtain j where j: "(h + i) mod S = d + j" "j < n" by (metis le_iff_add nat_add_left_cancel_less)
      moreover have "(h + i) mod S \<noteq> (h + (u + j)) mod S" using True j(2) assms(1) by (intro mod_window) simp_all
      ultimately show False using at by simp
    qed
    then have "f' ((h + i) mod S) = f ((h + i) mod S)" unfolding assms(5) by (rule if_not_P)
    with True i show ?thesis by (simp add: window_def nth_append)
  next
    case False
    then obtain j where j: "i = u + j" "j < n" using i by (metis add_diff_inverse_nat window_len nat_add_left_cancel_less)
    then show ?thesis using at [OF j(2)] assms(5) by (simp add: window_def nth_append)
  qed
qed simp

text \<open>Dropping the first entries.\<close>

lemma window_drop: "n \<le> u \<Longrightarrow> window f S ((h + n) mod S) (u - n) = drop n (window f S h u)"
  by (rule nth_equalityI) (simp_all add: window_def mod_add_left_eq add.assoc less_diff_conv add.commute [of n])

text \<open>Entries of a window that does not wrap.\<close>

lemma window_straight: "h + n \<le> S \<Longrightarrow> window f S h n = map f [h ..< h + n]"
  by (rule nth_equalityI) (simp_all add: window_def)

text \<open>The number of entries from \<open>h\<close> to \<open>t\<close>.\<close>

definition ring_used :: "nat \<Rightarrow> nat \<Rightarrow> nat \<Rightarrow> nat" where
  "ring_used S h t = (if h \<le> t then t - h else t + S - h)"

lemma ring_used_less: "h < S \<Longrightarrow> t < S \<Longrightarrow> ring_used S h t < S"
  by (simp add: ring_used_def) linarith

lemma ring_used_end: "h < S \<Longrightarrow> t < S \<Longrightarrow> (h + ring_used S h t) mod S = t"
  by (simp add: ring_used_def)

lemma ring_used_grow:
  assumes "h < S" and "t < S" and "ring_used S h t + n < S"
  shows "ring_used S h ((t + n) mod S) = ring_used S h t + n"
proof (cases "t + n < S")
  case False
  have "n < S" using assms(3) by simp
  then have "(t + n) mod S = t + n - S" using False assms(2) by (simp add: le_mod_geq)
  then show ?thesis using False assms by (simp add: ring_used_def split: if_splits)
qed (use assms in \<open>auto simp: ring_used_def split: if_splits\<close>)

lemma ring_used_shrink:
  assumes "h < S" and "t < S" and "n \<le> ring_used S h t"
  shows "ring_used S ((h + n) mod S) t = ring_used S h t - n"
proof (cases "h + n < S")
  case False
  have "n < S" using assms(3) ring_used_less [OF assms(1,2)] by simp
  then have "(h + n) mod S = h + n - S" using False assms(1) by (simp add: le_mod_geq)
  moreover have "\<not> h \<le> t" "n \<le> t + S - h" using False assms by (auto simp: ring_used_def split: if_splits)
  ultimately show ?thesis using False assms(1) by (simp add: ring_used_def)
qed (use assms in \<open>auto simp: ring_used_def split: if_splits\<close>)

lemma sint_small: "unat (w :: u32) < 2147483648 \<Longrightarrow> sint w = int (unat w)"
proof -
  assume "unat w < 2147483648"
  then have "int (unat w) < 2147483648" by linarith
  then have "uint w < 2147483648" by simp
  moreover have "- (2 ^ 31) \<le> uint w" by (rule order_trans [OF _ uint_ge_0]) simp
  ultimately show ?thesis using signed_take_bit_int_eq_self [of 31 "uint w"] by (simp add: sint_uint)
qed

end
