(* ===== verification/TagMachine.thy ===== *)
theory TagMachine
  imports Prelude
begin

text \<open>
  The machine the bare-metal libc runs on, as far as its C code and inline
  assembly can see it: byte memory, the tag memory with one 4-bit tag for each
  granule of 16 bytes, the control and status registers the libc touches, the
  random number register, and the addresses of the libc's two secured objects.
  A pointer carries its tag in bits 31..28; the memory is addressed by the
  remaining 28 bits (\<open>phys\<close>). A load or store compares the pointer's tag
  with the granule's tag while bit 0 of the \<^verbatim>\<open>tags\<close> register is set; a
  mismatch raises the Secure Monitor Panic interrupt, which ends the program
  and is the fault \<open>Tag_panic\<close> here. The instructions \<^verbatim>\<open>lt\<close> and
  \<^verbatim>\<open>st\<close> access the tag memory and are never checked.
\<close>

datatype fault =
    Tag_panic u32        \<comment> \<open>Secure Monitor Panic at this pointer\<close>
  | Exit_status int      \<comment> \<open>the program called \<^verbatim>\<open>exit\<close>\<close>
  | No_return            \<comment> \<open>a loop used up its fuel\<close>

record machine =
  ram :: "nat \<Rightarrow> u8"
  tagm :: "nat \<Rightarrow> nat"
  csr_tags :: u32
  csr_mstatus :: u32
  csr_mie :: u32
  csr_mip :: u32
  rnd_seq :: "nat \<Rightarrow> u32"
  rnd_pos :: nat
  sec_cntx :: u32
  mem_info :: u32
  console :: "string list"

type_synonym 'a mach = "machine \<Rightarrow> fault + 'a \<times> machine"

section \<open>Addresses and tags\<close>

definition phys :: "u32 \<Rightarrow> nat" where
  "phys p = unat p mod 2 ^ 28"

definition ptr_tag :: "u32 \<Rightarrow> nat" where
  "ptr_tag p = unat p div 2 ^ 28"

definition granule :: "u32 \<Rightarrow> nat" where
  "granule p = phys p div 16"

definition tag_ok :: "machine \<Rightarrow> u32 \<Rightarrow> bool" where
  "tag_ok m p \<longleftrightarrow> (bit (csr_tags m) 0 \<longrightarrow> ptr_tag p = tagm m (granule p))"

section \<open>Instructions\<close>

definition load8 :: "u32 \<Rightarrow> u8 mach" where
  "load8 p m = (if tag_ok m p then Inr (ram m (phys p), m) else Inl (Tag_panic p))"

definition store8 :: "u32 \<Rightarrow> u8 \<Rightarrow> unit mach" where
  "store8 p v m =
     (if tag_ok m p then Inr ((), m\<lparr>ram := (ram m)(phys p := v)\<rparr>) else Inl (Tag_panic p))"

definition load32 :: "u32 \<Rightarrow> u32 mach" where
  "load32 p m = (if tag_ok m p then Inr (get32 (ram m) (phys p), m) else Inl (Tag_panic p))"

definition store32 :: "u32 \<Rightarrow> u32 \<Rightarrow> unit mach" where
  "store32 p v m =
     (if tag_ok m p then Inr ((), m\<lparr>ram := put32 (ram m) (phys p) v\<rparr>) else Inl (Tag_panic p))"

definition lt_insn :: "u32 \<Rightarrow> u32 mach" where
  "lt_insn p m = Inr (of_nat (tagm m (granule p)), m)"

definition st_insn :: "u32 \<Rightarrow> u32 \<Rightarrow> unit mach" where
  "st_insn v p m = Inr ((), m\<lparr>tagm := (tagm m)(granule p := unat v mod 16)\<rparr>)"

text \<open>\<^verbatim>\<open>csrr rnd\<close>: the generator gives the next number of its sequence.\<close>

definition soc_hwrand :: "u32 mach" where
  "soc_hwrand m = Inr (rnd_seq m (rnd_pos m), m\<lparr>rnd_pos := Suc (rnd_pos m)\<rparr>)"

text \<open>Diagnostics are kept as the list of format strings handed to \<^verbatim>\<open>printf\<close>.\<close>

definition printf_msg :: "string \<Rightarrow> unit mach" where
  "printf_msg s = smod (\<lambda>m. m\<lparr>console := console m @ [s]\<rparr>)"

section \<open>Pointer arithmetic\<close>

lemma phys_less [simp]: "phys p < 268435456"
  by (simp add: phys_def)

lemma ptr_tag_less [simp]: "ptr_tag p < 16"
proof -
  have "unat p < 16 * 2 ^ 28"
    using unat_u32_less [of p] by simp
  then show ?thesis
    unfolding ptr_tag_def by (simp only: less_mult_imp_div_less)
qed

lemma unat_phys_tag: "unat p = ptr_tag p * 268435456 + phys p"
  by (simp add: phys_def ptr_tag_def)

lemma ptr_eqI: "phys p = phys q \<Longrightarrow> ptr_tag p = ptr_tag q \<Longrightarrow> p = q"
  by (rule unat_u32_inj) (simp add: unat_phys_tag)

lemma phys_add:
  "phys p + unat d < 268435456 \<Longrightarrow> phys (p + d) = phys p + unat d"
proof -
  assume a: "phys p + unat d < 268435456"
  have "unat p + unat d < 4294967296"
    using a ptr_tag_less [of p] unat_phys_tag [of p] by linarith
  then have "unat (p + d) = ptr_tag p * 268435456 + (phys p + unat d)"
    by (simp add: unat_u32_add unat_phys_tag [of p])
  then show ?thesis using a by (simp add: phys_def [of "p + d"])
qed

lemma ptr_tag_add:
  "phys p + unat d < 268435456 \<Longrightarrow> ptr_tag (p + d) = ptr_tag p"
proof -
  assume a: "phys p + unat d < 268435456"
  have "unat p + unat d < 4294967296"
    using a ptr_tag_less [of p] unat_phys_tag [of p] by linarith
  then have "unat (p + d) = ptr_tag p * 268435456 + (phys p + unat d)"
    by (simp add: unat_u32_add unat_phys_tag [of p])
  then show ?thesis using a by (simp add: ptr_tag_def [of "p + d"])
qed

text \<open>The pointer with a given tag and physical address.\<close>

definition mk_ptr :: "nat \<Rightarrow> nat \<Rightarrow> u32" where
  "mk_ptr t a = of_nat (t * 2 ^ 28 + a)"

lemma unat_mk_ptr: "t < 16 \<Longrightarrow> a < 2 ^ 28 \<Longrightarrow> unat (mk_ptr t a) = t * 2 ^ 28 + a"
  unfolding mk_ptr_def by (subst unat_of_nat) (simp del: of_nat_add of_nat_mult)

lemma phys_mk_ptr [simp]: "t < 16 \<Longrightarrow> a < 2 ^ 28 \<Longrightarrow> phys (mk_ptr t a) = a"
  by (simp add: phys_def unat_mk_ptr)

lemma ptr_tag_mk_ptr [simp]: "t < 16 \<Longrightarrow> a < 2 ^ 28 \<Longrightarrow> ptr_tag (mk_ptr t a) = t"
  by (simp add: ptr_tag_def unat_mk_ptr)

lemma mk_ptr_self: "mk_ptr (ptr_tag p) (phys p) = p"
  by (rule ptr_eqI) simp_all

text \<open>The C spelling of the same pointer: mask the address, shift the tag in.\<close>

lemma unat_untag: "unat (p AND 0x0fffffff :: u32) = phys p"
proof -
  have "(0x0fffffff :: u32) = mask 28"
    by (simp add: mask_eq_exp_minus_1)
  then show ?thesis
    by (simp only: unat_and_mask phys_def)
qed

lemma untag_or_tag:
  assumes "t < 16"
  shows "(p AND 0x0fffffff) OR push_bit 28 (of_nat t) = mk_ptr t (phys p)" (is "?l = _")
proof -
  have d: "(p AND 0x0fffffff) AND push_bit 28 (of_nat t) = (0 :: u32)"
  proof (rule bit_word_eqI)
    fix n assume "n < LENGTH(32)"
    have m: "(0x0fffffff :: u32) = mask 28"
      by (simp add: mask_eq_exp_minus_1)
    show "bit ((p AND 0x0fffffff) AND push_bit 28 (of_nat t)) n = bit (0 :: u32) n"
      unfolding m by (auto simp: bit_simps)
  qed
  have "?l = (p AND 0x0fffffff) + push_bit 28 (of_nat t)"
    using d by (simp add: disjunctive_add_eq_or)
  moreover have "push_bit 28 (of_nat t :: u32) = of_nat (t * 2 ^ 28)"
    by (simp add: push_bit_eq_mult)
  moreover have "(p AND 0x0fffffff) = of_nat (phys p)"
    by (simp only: unat_untag [symmetric] of_nat_unat ucast_id)
  ultimately show ?thesis
    by (simp add: mk_ptr_def)
qed

end
