(* ===== verification/LibcString.thy ===== *)
theory LibcString
  imports TagMachine
begin

text \<open>
  \<^verbatim>\<open>bench/tools/libc/src/string.c\<close> except \<^verbatim>\<open>memmove\<close> (which calls
  \<^verbatim>\<open>malloc\<close> and is in \<open>LibcMemmove\<close>). Every loop of the C code is a recursive
  function: over the remaining count where the code counts, over fuel where
  it runs to a NUL byte. Each function is shown equal to a description on byte
  lists, with fuel one above the string length being enough.
\<close>

section \<open>The functions\<close>

fun strlen_loop :: "nat \<Rightarrow> u32 \<Rightarrow> u32 \<Rightarrow> u32 mach" where
  "strlen_loop 0 str result = sfail No_return"
| "strlen_loop (Suc f) str result =
     sbind (load8 str) (\<lambda>c. if c \<noteq> 0 then strlen_loop f (str + 1) (result + 1) else sret result)"

definition strlen :: "nat \<Rightarrow> u32 \<Rightarrow> u32 mach" where
  "strlen f str = (if str = 0 then sret 0 else strlen_loop f str 0)"

fun strcpy_loop :: "nat \<Rightarrow> u32 \<Rightarrow> u32 \<Rightarrow> u32 mach" where
  "strcpy_loop 0 ptr_d src = sfail No_return"
| "strcpy_loop (Suc f) ptr_d src =
     sbind (load8 src) (\<lambda>c. if c \<noteq> 0
       then sbind (load8 src) (\<lambda>c'. sbind (store8 ptr_d c') (\<lambda>_. strcpy_loop f (ptr_d + 1) (src + 1)))
       else sret ptr_d)"

definition strcpy :: "nat \<Rightarrow> u32 \<Rightarrow> u32 \<Rightarrow> u32 mach" where
  "strcpy f dest src =
     sbind (strcpy_loop f dest src) (\<lambda>ptr_d. sbind (store8 ptr_d 0) (\<lambda>_. sret dest))"

fun skip_to_end :: "nat \<Rightarrow> u32 \<Rightarrow> u32 mach" where
  "skip_to_end 0 ptr_d = sfail No_return"
| "skip_to_end (Suc f) ptr_d =
     sbind (load8 ptr_d) (\<lambda>c. if c \<noteq> 0 then skip_to_end f (ptr_d + 1) else sret ptr_d)"

fun strcat_loop :: "nat \<Rightarrow> u32 \<Rightarrow> u32 \<Rightarrow> (u32 \<times> u32) mach" where
  "strcat_loop 0 ptr_d src = sfail No_return"
| "strcat_loop (Suc f) ptr_d src =
     sbind (load8 src) (\<lambda>c. if c \<noteq> 0
       then sbind (load8 src) (\<lambda>c'. sbind (store8 ptr_d c') (\<lambda>_. strcat_loop f (ptr_d + 1) (src + 1)))
       else sret (ptr_d, src))"

definition strcat :: "nat \<Rightarrow> u32 \<Rightarrow> u32 \<Rightarrow> u32 mach" where
  "strcat f dest src =
     sbind (skip_to_end f dest) (\<lambda>ptr_d.
     sbind (strcat_loop f ptr_d src) (\<lambda>(ptr_d, src).
     sbind (load8 src) (\<lambda>c. sbind (store8 ptr_d c) (\<lambda>_. sret dest))))"

text \<open>The loop of \<^verbatim>\<open>strncat\<close> returns \<open>None\<close> for the early \<^verbatim>\<open>return dest\<close>.\<close>

fun strncat_loop :: "nat \<Rightarrow> u32 \<Rightarrow> u32 \<Rightarrow> u32 option mach" where
  "strncat_loop 0 d_ptr src = sret (Some d_ptr)"
| "strncat_loop (Suc count) d_ptr src =
     sbind (load8 src) (\<lambda>c. sbind (store8 d_ptr c) (\<lambda>_.
     sbind (load8 src) (\<lambda>c'. if c' = 0 then sret None
       else strncat_loop count (d_ptr + 1) (src + 1))))"

definition strncat :: "nat \<Rightarrow> u32 \<Rightarrow> u32 \<Rightarrow> u32 \<Rightarrow> u32 mach" where
  "strncat f dest src count =
     sbind (skip_to_end f dest) (\<lambda>d_ptr.
     sbind (strncat_loop (unat count) d_ptr src) (\<lambda>r.
       case r of None \<Rightarrow> sret dest
       | Some d_ptr \<Rightarrow> sbind (store8 d_ptr 0) (\<lambda>_. sret dest)))"

text \<open>The first loop of \<^verbatim>\<open>strncpy\<close> returns the pointer and the count left after it.\<close>

fun strncpy_loop :: "nat \<Rightarrow> u32 \<Rightarrow> u32 \<Rightarrow> (u32 \<times> nat) mach" where
  "strncpy_loop 0 d_ptr src = sret (d_ptr, 0)"
| "strncpy_loop (Suc count) d_ptr src =
     sbind (load8 src) (\<lambda>c. sbind (store8 d_ptr c) (\<lambda>_.
     sbind (load8 src) (\<lambda>c'. if c' = 0 then sret (d_ptr + 1, count)
       else strncpy_loop count (d_ptr + 1) (src + 1))))"

fun fill_loop :: "nat \<Rightarrow> u32 \<Rightarrow> u8 \<Rightarrow> unit mach" where
  "fill_loop 0 d_ptr filler = sret ()"
| "fill_loop (Suc n) d_ptr filler = sbind (store8 d_ptr filler) (\<lambda>_. fill_loop n (d_ptr + 1) filler)"

definition strncpy :: "u32 \<Rightarrow> u32 \<Rightarrow> u32 \<Rightarrow> u32 mach" where
  "strncpy dest src count =
     sbind (strncpy_loop (unat count) dest src) (\<lambda>(d_ptr, count).
     sbind (fill_loop count d_ptr 0) (\<lambda>_. sret dest))"

fun memcpy_loop :: "nat \<Rightarrow> u32 \<Rightarrow> u32 \<Rightarrow> unit mach" where
  "memcpy_loop 0 d_ptr s_ptr = sret ()"
| "memcpy_loop (Suc n) d_ptr s_ptr =
     sbind (load8 s_ptr) (\<lambda>b. sbind (store8 d_ptr b) (\<lambda>_. memcpy_loop n (d_ptr + 1) (s_ptr + 1)))"

definition memcpy :: "u32 \<Rightarrow> u32 \<Rightarrow> u32 \<Rightarrow> u32 mach" where
  "memcpy dest src count = sbind (memcpy_loop (unat count) dest src) (\<lambda>_. sret dest)"

definition memset :: "u32 \<Rightarrow> u32 \<Rightarrow> u32 \<Rightarrow> u32 mach" where
  "memset dest ch count = sbind (fill_loop (unat count) dest (ucast ch)) (\<lambda>_. sret dest)"

fun memcmp_loop :: "nat \<Rightarrow> u32 \<Rightarrow> u32 \<Rightarrow> int mach" where
  "memcmp_loop 0 l r = sret 0"
| "memcmp_loop (Suc n) l r =
     sbind (load8 l) (\<lambda>a. sbind (load8 r) (\<lambda>b.
       let diff = uint a - uint b in
       if diff \<noteq> 0 then sret (if diff > 0 then 1 else - 1)
       else memcmp_loop n (l + 1) (r + 1)))"

definition memcmp :: "u32 \<Rightarrow> u32 \<Rightarrow> u32 \<Rightarrow> int mach" where
  "memcmp lhs rhs count = memcmp_loop (unat count) lhs rhs"

text \<open>
  \<^verbatim>\<open>strcmp\<close>: the loop runs while both bytes are non-zero (the second byte is
  read only if the first is not zero); the comparison after it is repeated on
  the bytes it stopped at.
\<close>

definition strcmp_tail :: "u32 \<Rightarrow> u32 \<Rightarrow> int mach" where
  "strcmp_tail l r =
     sbind (load8 l) (\<lambda>a. sbind (load8 r) (\<lambda>b.
       let diff = uint a - uint b in
       sret (if diff = 0 then 0 else if diff > 0 then 1 else - 1)))"

fun strcmp_loop :: "nat \<Rightarrow> u32 \<Rightarrow> u32 \<Rightarrow> int mach" where
  "strcmp_loop 0 l r = sfail No_return"
| "strcmp_loop (Suc f) l r =
     sbind (load8 l) (\<lambda>a. if a = 0 then strcmp_tail l r else
     sbind (load8 r) (\<lambda>b. if b = 0 then strcmp_tail l r else
       let diff = uint a - uint b in
       if diff \<noteq> 0 then sret (if diff > 0 then 1 else - 1)
       else strcmp_loop f (l + 1) (r + 1)))"

definition strcmp :: "nat \<Rightarrow> u32 \<Rightarrow> u32 \<Rightarrow> int mach" where
  "strcmp f lhs rhs = strcmp_loop f lhs rhs"

text \<open>\<^verbatim>\<open>char\<close> is unsigned on this target, so \<^verbatim>\<open>*cur == c\<close> compares the byte's value.\<close>

fun strchr :: "nat \<Rightarrow> u32 \<Rightarrow> u32 \<Rightarrow> u32 mach" where
  "strchr 0 cur c = sfail No_return"
| "strchr (Suc f) cur c =
     sbind (load8 cur) (\<lambda>x. if x \<noteq> 0
       then sbind (load8 cur) (\<lambda>y. if ucast y = c then sret cur else strchr f (cur + 1) c)
       else sret 0)"

section \<open>Accessible ranges and memory updates\<close>

text \<open>
  The \<open>n\<close> bytes from \<open>p\<close> on can be accessed through \<open>p\<close>; as in C, the pointer
  one past them does not wrap around the address space.
\<close>

definition access_ok :: "machine \<Rightarrow> u32 \<Rightarrow> nat \<Rightarrow> bool" where
  "access_ok m p n \<longleftrightarrow> phys p + n < 268435456 \<and> (\<forall>i<n. tag_ok m (p + of_nat i))"

text \<open>Memory \<open>r\<close> with the bytes \<open>bs\<close> written from address \<open>a\<close> on.\<close>

definition wr :: "(nat \<Rightarrow> u8) \<Rightarrow> nat \<Rightarrow> u8 list \<Rightarrow> nat \<Rightarrow> u8" where
  "wr r a bs = (\<lambda>x. if a \<le> x \<and> x < a + length bs then bs ! (x - a) else r x)"

definition bytes :: "(nat \<Rightarrow> u8) \<Rightarrow> nat \<Rightarrow> nat \<Rightarrow> u8 list" where
  "bytes r a n = map (\<lambda>i. r (a + i)) [0..<n]"

text \<open>\<open>p\<close> points to the NUL-terminated string \<open>xs\<close>.\<close>

definition cstr :: "machine \<Rightarrow> u32 \<Rightarrow> u8 list \<Rightarrow> bool" where
  "cstr m p xs \<longleftrightarrow> access_ok m p (length xs + 1) \<and> 0 \<notin> set xs
     \<and> bytes (ram m) (phys p) (length xs + 1) = xs @ [0]"

definition apart :: "nat \<Rightarrow> nat \<Rightarrow> nat \<Rightarrow> nat \<Rightarrow> bool" where
  "apart a n b k \<longleftrightarrow> a + n \<le> b \<or> b + k \<le> a"

lemma wr_Nil [simp]: "wr r a [] = r"
  by (rule ext) (auto simp: wr_def)

lemma wr_Cons: "wr r a (b # bs) = wr (r(a := b)) (Suc a) bs"
  by (rule ext) (auto simp: wr_def nth_Cons')

lemma wr_append: "wr r a (bs @ cs) = wr (wr r a bs) (a + length bs) cs"
  by (rule ext) (auto simp: wr_def nth_append)

lemma wr_single: "wr r a [b] = r(a := b)"
  by (simp add: wr_Cons)

lemma bytes_Suc: "bytes r a (Suc n) = r a # bytes r (Suc a) n"
proof -
  have "[0..<Suc n] = 0 # map Suc [0..<n]"
    by (simp add: map_Suc_upt upt_conv_Cons)
  then show ?thesis by (simp add: bytes_def comp_def)
qed

lemma length_bytes [simp]: "length (bytes r a n) = n"
  by (simp add: bytes_def)

lemma bytes_0 [simp]: "bytes r a 0 = []"
  by (simp add: bytes_def)

lemma bytes_nth [simp]: "i < n \<Longrightarrow> bytes r a n ! i = r (a + i)"
  by (simp add: bytes_def)

lemma bytes_wr_apart: "apart a (length bs) b n \<Longrightarrow> bytes (wr r a bs) b n = bytes r b n"
  by (auto simp: bytes_def wr_def apart_def)

lemma bytes_wr_same: "bytes (wr r a bs) a (length bs) = bs"
  by (rule nth_equalityI) (auto simp: bytes_def wr_def)

lemma bytes_upd_apart: "apart a 1 b n \<Longrightarrow> bytes (r(a := v)) b n = bytes r b n"
  by (auto simp: bytes_def apart_def)

lemma bytes_append: "bytes r a (n + k) = bytes r a n @ bytes r (a + n) k"
  by (rule nth_equalityI) (auto simp: bytes_def nth_append)

lemma tag_ok_ram [simp]: "tag_ok (m\<lparr>ram := r\<rparr>) p = tag_ok m p"
  by (simp add: tag_ok_def)

lemma access_ok_ram [simp]: "access_ok (m\<lparr>ram := r\<rparr>) p n = access_ok m p n"
  by (simp add: access_ok_def)

lemma access_ok_mono: "access_ok m p n \<Longrightarrow> k \<le> n \<Longrightarrow> access_ok m p k"
  by (auto simp: access_ok_def)

lemma access_ok_shift:
  assumes "access_ok m p (n + k)"
  shows "phys (p + of_nat n) = phys p + n" and "access_ok m (p + of_nat n) k"
proof -
  have b: "phys p + (n + k) < 268435456" and t: "\<forall>i<n + k. tag_ok m (p + of_nat i)"
    using assms by (auto simp: access_ok_def)
  have u: "unat (of_nat n :: u32) = n"
    using b by (simp add: unat_of_nat)
  show P: "phys (p + of_nat n) = phys p + n"
    using phys_add [of p "of_nat n"] b u by simp
  have "tag_ok m (p + of_nat n + of_nat i)" if "i < k" for i
    using t [rule_format, of "n + i"] that by (simp add: add.assoc)
  with P b show "access_ok m (p + of_nat n) k"
    by (simp add: access_ok_def)
qed

lemma access_ok_SucD:
  assumes "access_ok m p (Suc n)"
  shows "tag_ok m p" and "access_ok m (p + 1) n" and "phys (p + 1) = Suc (phys p)"
  using access_ok_shift [of m p 1 n] assms
  by (auto simp: access_ok_def dest: spec [of _ 0])

lemma load8_ok [exec_simps]: "tag_ok m p \<Longrightarrow> load8 p m = Inr (ram m (phys p), m)"
  by (simp add: load8_def)

lemma store8_ok [exec_simps]:
  "tag_ok m p \<Longrightarrow> store8 p v m = Inr ((), m\<lparr>ram := (ram m)(phys p := v)\<rparr>)"
  by (simp add: store8_def)

lemma cstr_Nil: "cstr m p [] \<longleftrightarrow> access_ok m p 1 \<and> ram m (phys p) = 0"
  by (simp add: cstr_def bytes_Suc)

lemma cstr_Cons:
  assumes "cstr m p (x # xs)"
  shows "tag_ok m p" and "ram m (phys p) = x" and "x \<noteq> 0" and "cstr m (p + 1) xs"
    and "phys (p + 1) = Suc (phys p)"
proof -
  have a: "access_ok m p (Suc (length xs + 1))" and n: "0 \<notin> set (x # xs)"
    and e: "bytes (ram m) (phys p) (Suc (length xs + 1)) = x # xs @ [0]"
    using assms by (simp_all add: cstr_def)
  from a show "tag_ok m p" by (rule access_ok_SucD)
  from a show P: "phys (p + 1) = Suc (phys p)" by (rule access_ok_SucD)
  from e show "ram m (phys p) = x" by (simp add: bytes_Suc)
  from n show "x \<noteq> 0" by auto
  from e have "bytes (ram m) (phys (p + 1)) (length xs + 1) = xs @ [0]"
    by (simp only: P bytes_Suc [of _ _ "length xs + 1"]) simp
  with n access_ok_SucD(2) [OF a] show "cstr m (p + 1) xs"
    by (simp add: cstr_def)
qed

lemma cstr_tag_ok: "cstr m p xs \<Longrightarrow> tag_ok m p"
  by (cases xs) (auto simp: cstr_Nil dest: cstr_Cons access_ok_SucD(1))

lemma cstr_Nil_D: "cstr m p [] \<Longrightarrow> tag_ok m p \<and> ram m (phys p) = 0"
  by (auto simp: cstr_Nil dest: access_ok_SucD(1))

lemma cstr_upd_apart:
  "apart a 1 (phys p) (length xs + 1) \<Longrightarrow> cstr (m\<lparr>ram := (ram m)(a := v)\<rparr>) p xs = cstr m p xs"
  by (simp add: cstr_def bytes_upd_apart)

section \<open>Lengths and copies\<close>

lemma strlen_loop_cstr:
  "cstr m p xs \<Longrightarrow> length xs < f \<Longrightarrow> strlen_loop f p r m = Inr (r + of_nat (length xs), m)"
proof (induction xs arbitrary: f p r)
  case Nil
  then show ?case by (cases f) (auto simp: exec_simps dest: cstr_Nil_D)
next
  case (Cons x xs)
  then obtain g where f: "f = Suc g" by (cases f) auto
  note c = cstr_Cons [OF Cons.prems(1)]
  have "strlen_loop g (p + 1) (r + 1) m = Inr (r + 1 + of_nat (length xs), m)"
    using Cons c f by simp
  with c f show ?case by (simp add: exec_simps algebra_simps)
qed

text \<open>
  The string \<open>xs\<close> read through \<open>p\<close> when at most \<open>n\<close> bytes are looked at: either
  \<open>xs\<close> has \<open>n\<close> bytes and none is NUL, or the NUL after \<open>xs\<close> is among them.
\<close>

definition cprefix :: "machine \<Rightarrow> u32 \<Rightarrow> nat \<Rightarrow> u8 list \<Rightarrow> bool" where
  "cprefix m p n xs \<longleftrightarrow> 0 \<notin> set xs \<and> length xs \<le> n \<and> access_ok m p (min n (length xs + 1))
     \<and> bytes (ram m) (phys p) (min n (length xs + 1)) = take n (xs @ [0])"

lemma cprefix_cstr: "cstr m p xs \<Longrightarrow> length xs < n \<Longrightarrow> cprefix m p n xs"
  by (simp add: cprefix_def cstr_def min_absorb2 Suc_le_eq)

lemma cprefix_Suc_Nil: "cprefix m p (Suc n) [] \<Longrightarrow> tag_ok m p \<and> ram m (phys p) = 0"
  by (auto simp: cprefix_def bytes_Suc dest: access_ok_SucD(1))

lemma cprefix_Suc_Cons:
  assumes "cprefix m p (Suc n) (x # xs)"
  shows "tag_ok m p" and "ram m (phys p) = x" and "x \<noteq> 0" and "cprefix m (p + 1) n xs"
    and "phys (p + 1) = Suc (phys p)"
proof -
  let ?k = "min n (length xs + 1)"
  have a: "access_ok m p (Suc ?k)" and n: "0 \<notin> set (x # xs)" "length xs \<le> n"
    and e: "bytes (ram m) (phys p) (Suc ?k) = x # take n (xs @ [0])"
    using assms by (simp_all add: cprefix_def min_def split: if_splits)
  from a show "tag_ok m p" by (rule access_ok_SucD)
  from a show P: "phys (p + 1) = Suc (phys p)" by (rule access_ok_SucD)
  from e show "ram m (phys p) = x" by (simp add: bytes_Suc)
  from n show "x \<noteq> 0" by auto
  from e have "bytes (ram m) (phys (p + 1)) ?k = take n (xs @ [0])"
    by (simp only: P bytes_Suc) simp
  with n access_ok_SucD(2) [OF a] show "cprefix m (p + 1) n xs"
    by (simp add: cprefix_def)
qed

lemma cprefix_upd_apart:
  "apart a 1 (phys p) (min n (length xs + 1)) \<Longrightarrow>
   cprefix (m\<lparr>ram := (ram m)(a := v)\<rparr>) p n xs = cprefix m p n xs"
  by (simp add: cprefix_def bytes_upd_apart)

lemma apart_Suc: "apart (Suc a) n (Suc b) k" if "apart a (Suc n) b (Suc k)"
  using that by (auto simp: apart_def)

lemma apart_first: "apart a 1 (Suc b) k" if "apart a (Suc n) b (Suc k)"
  using that by (auto simp: apart_def)

lemma strcpy_loop_cstr:
  "cstr m s xs \<Longrightarrow> access_ok m d (length xs + 1) \<Longrightarrow> length xs < f \<Longrightarrow>
   apart (phys d) (length xs + 1) (phys s) (length xs + 1) \<Longrightarrow>
   strcpy_loop f d s m = Inr (d + of_nat (length xs), m\<lparr>ram := wr (ram m) (phys d) xs\<rparr>)"
proof (induction xs arbitrary: f d s m)
  case Nil
  then show ?case by (cases f) (auto simp: exec_simps dest: cstr_Nil_D)
next
  case (Cons x xs)
  then obtain g where f: "f = Suc g" by (cases f) auto
  note c = cstr_Cons [OF Cons.prems(1)]
  have ok: "access_ok m d (Suc (length xs + 1))" using Cons.prems by simp
  note a = access_ok_SucD [OF ok]
  have ap: "apart (phys d) (Suc (length xs + 1)) (phys s) (Suc (length xs + 1))"
    using Cons.prems by simp
  define r where r: "r = (ram m)(phys d := x)"
  let ?m = "m\<lparr>ram := r\<rparr>"
  have "cstr ?m (s + 1) xs"
    using c(4,5) apart_first [OF ap] by (simp add: cstr_upd_apart r)
  then have "strcpy_loop g (d + 1) (s + 1) ?m
      = Inr (d + 1 + of_nat (length xs), ?m\<lparr>ram := wr r (phys (d + 1)) xs\<rparr>)"
    using Cons.IH [of ?m "s + 1" "d + 1" g] Cons.prems(3) a(2,3) c(5) apart_Suc [OF ap] f by simp
  with c(1-3) a(1,3) f show ?case by (simp add: exec_simps wr_Cons r [symmetric] algebra_simps)
qed

lemma strcat_loop_cstr:
  "cstr m s xs \<Longrightarrow> access_ok m d (length xs + 1) \<Longrightarrow> length xs < f \<Longrightarrow>
   apart (phys d) (length xs + 1) (phys s) (length xs + 1) \<Longrightarrow>
   strcat_loop f d s m
     = Inr ((d + of_nat (length xs), s + of_nat (length xs)), m\<lparr>ram := wr (ram m) (phys d) xs\<rparr>)"
proof (induction xs arbitrary: f d s m)
  case Nil
  then show ?case by (cases f) (auto simp: exec_simps dest: cstr_Nil_D)
next
  case (Cons x xs)
  then obtain g where f: "f = Suc g" by (cases f) auto
  note c = cstr_Cons [OF Cons.prems(1)]
  have ok: "access_ok m d (Suc (length xs + 1))" using Cons.prems by simp
  note a = access_ok_SucD [OF ok]
  have ap: "apart (phys d) (Suc (length xs + 1)) (phys s) (Suc (length xs + 1))"
    using Cons.prems by simp
  define r where r: "r = (ram m)(phys d := x)"
  let ?m = "m\<lparr>ram := r\<rparr>"
  have "cstr ?m (s + 1) xs"
    using c(4,5) apart_first [OF ap] by (simp add: cstr_upd_apart r)
  then have "strcat_loop g (d + 1) (s + 1) ?m
      = Inr ((d + 1 + of_nat (length xs), s + 1 + of_nat (length xs)),
             ?m\<lparr>ram := wr r (phys (d + 1)) xs\<rparr>)"
    using Cons.IH [of ?m "s + 1" "d + 1" g] Cons.prems(3) a(2,3) c(5) apart_Suc [OF ap] f by simp
  with c(1-3) a(1,3) f show ?case by (simp add: exec_simps wr_Cons r [symmetric] algebra_simps)
qed

lemma skip_to_end_cstr:
  "cstr m p xs \<Longrightarrow> length xs < f \<Longrightarrow> skip_to_end f p m = Inr (p + of_nat (length xs), m)"
proof (induction xs arbitrary: f p)
  case Nil
  then show ?case by (cases f) (auto simp: exec_simps dest: cstr_Nil_D)
next
  case (Cons x xs)
  then obtain g where f: "f = Suc g" by (cases f) auto
  note c = cstr_Cons [OF Cons.prems(1)]
  have "skip_to_end g (p + 1) m = Inr (p + 1 + of_nat (length xs), m)"
    using Cons c f by simp
  with c f show ?case by (simp add: exec_simps algebra_simps)
qed

lemma strncat_loop_cprefix:
  "cprefix m s n xs \<Longrightarrow> access_ok m d (length xs + 1) \<Longrightarrow>
   apart (phys d) (length xs + 1) (phys s) (min n (length xs + 1)) \<Longrightarrow>
   strncat_loop n d s m
     = Inr (if length xs < n then None else Some (d + of_nat n),
            m\<lparr>ram := wr (ram m) (phys d) (take n (xs @ [0]))\<rparr>)"
proof (induction n arbitrary: xs d s m)
  case 0
  then show ?case by (simp add: cprefix_def)
next
  case (Suc n)
  show ?case
  proof (cases xs)
    case Nil
    with Suc.prems show ?thesis
      by (auto simp: exec_simps wr_single dest!: cprefix_Suc_Nil access_ok_SucD(1) [of m d 0])
  next
    case (Cons x ys)
    note c = cprefix_Suc_Cons [OF Suc.prems(1) [unfolded Cons]]
    have ok: "access_ok m d (Suc (length ys + 1))" using Suc.prems Cons by simp
    note a = access_ok_SucD [OF ok]
    have ap: "apart (phys d) (Suc (length ys + 1)) (phys s) (Suc (min n (length ys + 1)))"
      using Suc.prems Cons by simp
    define r where r: "r = (ram m)(phys d := x)"
    let ?m = "m\<lparr>ram := r\<rparr>"
    have "cprefix ?m (s + 1) n ys"
      using c(4,5) apart_first [OF ap] by (simp add: cprefix_upd_apart r)
    then have "strncat_loop n (d + 1) (s + 1) ?m
        = Inr (if length ys < n then None else Some (d + 1 + of_nat n),
               ?m\<lparr>ram := wr r (phys (d + 1)) (take n (ys @ [0]))\<rparr>)"
      using Suc.IH [of ?m "s + 1" ys "d + 1"] a(2,3) c(5) apart_Suc [OF ap] by simp
    moreover have "r (phys s) = x" using ap c(2) r by (auto simp: apart_def)
    ultimately show ?thesis using c(1-3) a(1,3) Cons
      by (simp add: exec_simps wr_Cons r [symmetric] algebra_simps)
  qed
qed

lemma strncpy_loop_cprefix:
  "cprefix m s n xs \<Longrightarrow> access_ok m d n \<Longrightarrow>
   apart (phys d) n (phys s) (min n (length xs + 1)) \<Longrightarrow>
   strncpy_loop n d s m
     = Inr ((d + of_nat (min n (length xs + 1)), n - (length xs + 1)),
            m\<lparr>ram := wr (ram m) (phys d) (take n (xs @ [0]))\<rparr>)"
proof (induction n arbitrary: xs d s m)
  case 0
  then show ?case by (simp add: cprefix_def)
next
  case (Suc n)
  show ?case
  proof (cases xs)
    case Nil
    with Suc.prems show ?thesis
      by (auto simp: exec_simps wr_single dest!: cprefix_Suc_Nil access_ok_SucD(1))
  next
    case (Cons x ys)
    note c = cprefix_Suc_Cons [OF Suc.prems(1) [unfolded Cons]]
    note a = access_ok_SucD [OF Suc.prems(2)]
    have ap: "apart (phys d) (Suc n) (phys s) (Suc (min n (length ys + 1)))"
      using Suc.prems Cons by simp
    define r where r: "r = (ram m)(phys d := x)"
    let ?m = "m\<lparr>ram := r\<rparr>"
    have "cprefix ?m (s + 1) n ys"
      using c(4,5) apart_first [OF ap] by (simp add: cprefix_upd_apart r)
    then have "strncpy_loop n (d + 1) (s + 1) ?m
        = Inr ((d + 1 + of_nat (min n (length ys + 1)), n - (length ys + 1)),
               ?m\<lparr>ram := wr r (phys (d + 1)) (take n (ys @ [0]))\<rparr>)"
      using Suc.IH [of ?m "s + 1" ys "d + 1"] a(2,3) c(5) apart_Suc [OF ap] by simp
    moreover have "r (phys s) = x" using ap c(2) r by (auto simp: apart_def)
    ultimately show ?thesis using c(1-3) a(1,3) Cons
      by (simp add: exec_simps wr_Cons r [symmetric] algebra_simps min_def)
  qed
qed

lemma fill_loop_wr:
  "access_ok m d n \<Longrightarrow> fill_loop n d v m = Inr ((), m\<lparr>ram := wr (ram m) (phys d) (replicate n v)\<rparr>)"
proof (induction n arbitrary: d m)
  case (Suc n)
  note a = access_ok_SucD [OF Suc.prems]
  show ?case using Suc.IH [of "m\<lparr>ram := (ram m)(phys d := v)\<rparr>" "d + 1"] a
    by (simp add: exec_simps wr_Cons)
qed simp

lemma memcpy_loop_wr:
  "access_ok m d n \<Longrightarrow> access_ok m s n \<Longrightarrow> apart (phys d) n (phys s) n \<Longrightarrow>
   memcpy_loop n d s m
     = Inr ((), m\<lparr>ram := wr (ram m) (phys d) (bytes (ram m) (phys s) n)\<rparr>)"
proof (induction n arbitrary: d s m)
  case (Suc n)
  note a = access_ok_SucD [OF Suc.prems(1)] and b = access_ok_SucD [OF Suc.prems(2)]
  let ?v = "ram m (phys s)"
  define r where r: "r = (ram m)(phys d := ?v)"
  let ?m = "m\<lparr>ram := r\<rparr>"
  have e: "bytes r (phys (s + 1)) n = bytes (ram m) (phys (s + 1)) n"
    using apart_first [OF Suc.prems(3)] b(3) by (simp add: bytes_upd_apart r)
  have "memcpy_loop n (d + 1) (s + 1) ?m
      = Inr ((), ?m\<lparr>ram := wr r (phys (d + 1))
                              (bytes (ram m) (phys (s + 1)) n)\<rparr>)"
    using Suc.IH [of ?m "d + 1" "s + 1"] a(2,3) b(2,3) apart_Suc [OF Suc.prems(3)] e
    by simp
  with a(1,3) b(1,3) show ?case by (simp add: exec_simps wr_Cons bytes_Suc r [symmetric])
qed simp

section \<open>Comparison\<close>

text \<open>The order of byte strings, as \<^verbatim>\<open>memcmp\<close> and \<^verbatim>\<open>strcmp\<close> are to report it.\<close>

definition byte_order :: "(u8 \<times> u8) set" where
  "byte_order = {(a, b). a < b}"

definition three_way :: "u8 list \<Rightarrow> u8 list \<Rightarrow> int" where
  "three_way xs ys = (if xs = ys then 0 else if (ys, xs) \<in> lexord byte_order then 1 else - 1)"

lemma uint_u8_cmp:
  "uint (a :: u8) = uint b \<longleftrightarrow> a = b" "uint (b :: u8) < uint a \<longleftrightarrow> b < a"
  by (simp_all add: word_uint_eq_iff word_less_def)

lemma three_way_Cons:
  "three_way (x # xs) (y # ys) = (if x = y then three_way xs ys else if y < x then 1 else - 1)"
  by (auto simp: three_way_def byte_order_def)

lemma three_way_Nil: "three_way [] [] = 0" "three_way [] (y # ys) = - 1" "three_way (x # xs) [] = 1"
  by (simp_all add: three_way_def)

lemma memcmp_loop_bytes:
  "access_ok m l n \<Longrightarrow> access_ok m r n \<Longrightarrow>
   memcmp_loop n l r m = Inr (three_way (bytes (ram m) (phys l) n) (bytes (ram m) (phys r) n), m)"
proof (induction n arbitrary: l r)
  case (Suc n)
  note a = access_ok_SucD [OF Suc.prems(1)] and b = access_ok_SucD [OF Suc.prems(2)]
  show ?case using Suc.IH [of "l + 1" "r + 1"] a b
    by (simp add: exec_simps bytes_Suc three_way_Cons uint_u8_cmp Let_def)
qed (simp add: three_way_Nil)

lemma strcmp_tail_ok:
  "tag_ok m l \<Longrightarrow> tag_ok m r \<Longrightarrow> strcmp_tail l r m
     = Inr (let a = ram m (phys l); b = ram m (phys r) in if a = b then 0 else if b < a then 1 else - 1, m)"
  by (simp add: strcmp_tail_def exec_simps uint_u8_cmp Let_def)

lemma strcmp_loop_cstr:
  "cstr m l xs \<Longrightarrow> cstr m r ys \<Longrightarrow> min (length xs) (length ys) < f \<Longrightarrow>
   strcmp_loop f l r m = Inr (three_way xs ys, m)"
proof (induction xs arbitrary: f l r ys)
  case Nil
  then obtain g where "f = Suc g" by (cases f) auto
  with Nil cstr_tag_ok [OF Nil.prems(2)] show ?case
    using cstr_Cons(2,3) [of m r "hd ys" "tl ys"]
    by (cases ys)
      (auto simp: exec_simps strcmp_tail_ok Let_def three_way_Nil word_gt_0 dest!: cstr_Nil_D)
next
  case (Cons x xs)
  then obtain g where f: "f = Suc g" by (cases f) auto
  note c = cstr_Cons [OF Cons.prems(1)]
  show ?case
  proof (cases ys)
    case Nil
    with Cons.prems c f show ?thesis
      by (auto simp: exec_simps strcmp_tail_ok Let_def three_way_Nil word_gt_0 dest!: cstr_Nil_D)
  next
    case (Cons y zs)
    note d = cstr_Cons [OF Cons.prems(2) [unfolded Cons]]
    show ?thesis using Cons.IH [of "l + 1" "r + 1" zs g] c d f Cons Cons.prems(3)
      by (simp add: exec_simps three_way_Cons uint_u8_cmp Let_def)
  qed
qed

section \<open>Correctness of the string functions\<close>

theorem strlen_correct:
  assumes "cstr m str xs" and "str \<noteq> 0" and "length xs < f"
  shows "strlen f str m = Inr (of_nat (length xs), m)"
  using strlen_loop_cstr [OF assms(1,3), of 0] assms(2) by (simp add: strlen_def)

theorem strcpy_correct:
  assumes "cstr m src xs" and "access_ok m dest (length xs + 1)"
    and "apart (phys dest) (length xs + 1) (phys src) (length xs + 1)" and "length xs < f"
  shows "strcpy f dest src m = Inr (dest, m\<lparr>ram := wr (ram m) (phys dest) (xs @ [0])\<rparr>)"
  using strcpy_loop_cstr [OF assms(1,2,4,3)] access_ok_shift [of m dest "length xs" 1] assms(2)
  by (simp add: strcpy_def exec_simps wr_append wr_single access_ok_SucD(1))

lemma cstr_end:
  assumes "cstr m p xs"
  shows "tag_ok m (p + of_nat (length xs))" and "phys (p + of_nat (length xs)) = phys p + length xs"
    and "ram m (phys p + length xs) = 0"
proof -
  have a: "access_ok m p (length xs + 1)"
    and e: "bytes (ram m) (phys p) (length xs + 1) = xs @ [0]"
    using assms by (simp_all add: cstr_def)
  from a show "phys (p + of_nat (length xs)) = phys p + length xs" by (rule access_ok_shift)
  from access_ok_shift(2) [OF a] show "tag_ok m (p + of_nat (length xs))"
    by (auto dest: access_ok_SucD(1))
  show "ram m (phys p + length xs) = 0"
    using arg_cong [OF e, of "\<lambda>bs. bs ! length xs"] by simp
qed

theorem strcat_correct:
  assumes "cstr m dest ds" and "cstr m src xs"
    and "access_ok m dest (length ds + length xs + 1)"
    and "apart (phys dest) (length ds + length xs + 1) (phys src) (length xs + 1)"
    and "length ds < f" and "length xs < f"
  shows "strcat f dest src m
    = Inr (dest, m\<lparr>ram := wr (ram m) (phys dest + length ds) (xs @ [0])\<rparr>)"
proof -
  let ?d = "dest + of_nat (length ds)"
  have ok: "access_ok m dest (length ds + (length xs + 1))"
    using assms(3) by (simp add: add.assoc)
  note sh = access_ok_shift [OF ok]
  have ap: "apart (phys ?d) (length xs + 1) (phys src) (length xs + 1)"
    using assms(4) sh(1) by (auto simp: apart_def)
  let ?m = "m\<lparr>ram := wr (ram m) (phys ?d) xs\<rparr>"
  have loop: "strcat_loop f ?d src m
      = Inr ((?d + of_nat (length xs), src + of_nat (length xs)), ?m)"
    by (rule strcat_loop_cstr [OF assms(2) sh(2) assms(6) ap])
  note e = cstr_end [OF assms(2)]
  have z: "wr (ram m) (phys ?d) xs (phys src + length xs) = 0"
    using e(3) ap by (auto simp: wr_def apart_def)
  have end_d: "tag_ok m (?d + of_nat (length xs))"
    "phys (?d + of_nat (length xs)) = phys ?d + length xs"
    using access_ok_shift [OF sh(2)] by (auto dest: access_ok_SucD(1))
  show ?thesis
    using skip_to_end_cstr [OF assms(1,5)] loop e(1,2) z end_d sh(1)
    by (simp add: strcat_def exec_simps wr_append wr_single)
qed

text \<open>\<^verbatim>\<open>strncat\<close> appends at most \<open>n\<close> bytes of the source to the destination string and always terminates
  it; nothing else in memory changes.\<close>

theorem strncat_correct:
  assumes "cstr m dest ds" and "cprefix m src (unat n) xs"
    and "access_ok m dest (length ds + length xs + 1)"
    and "apart (phys dest) (length ds + length xs + 1) (phys src) (min (unat n) (length xs + 1))"
    and "length ds < f"
  shows "strncat f dest src n m
    = Inr (dest, m\<lparr>ram := wr (ram m) (phys dest + length ds) (xs @ [0])\<rparr>)"
proof -
  let ?d = "dest + of_nat (length ds)" and ?n = "unat n"
  have ok: "access_ok m dest (length ds + (length xs + 1))"
    using assms(3) by (simp add: add.assoc)
  note sh = access_ok_shift [OF ok]
  have ap: "apart (phys ?d) (length xs + 1) (phys src) (min ?n (length xs + 1))"
    using assms(4) sh(1) by (auto simp: apart_def)
  note loop = strncat_loop_cprefix [OF assms(2) sh(2) ap]
  note skip = skip_to_end_cstr [OF assms(1,5)]
  have end_d: "tag_ok m (?d + of_nat (length xs))"
    "phys (?d + of_nat (length xs)) = phys ?d + length xs"
    using access_ok_shift [OF sh(2)] by (auto dest: access_ok_SucD(1))
  show ?thesis
  proof (cases "length xs < ?n")
    case True
    with skip loop sh(1) show ?thesis by (simp add: strncat_def exec_simps)
  next
    case False
    with assms(2) have "?n = length xs" by (simp add: cprefix_def)
    with skip loop sh(1) end_d show ?thesis
      by (simp add: strncat_def exec_simps wr_append wr_single)
  qed
qed

text \<open>\<^verbatim>\<open>strncpy\<close> writes exactly \<open>n\<close> bytes: the source up to its end or the count, then zeros. When the
  source is longer than the count, the result is not terminated.\<close>

theorem strncpy_correct:
  assumes "cprefix m src (unat n) xs" and "access_ok m dest (unat n)"
    and "apart (phys dest) (unat n) (phys src) (min (unat n) (length xs + 1))"
  shows "strncpy dest src n m
    = Inr (dest, m\<lparr>ram := wr (ram m) (phys dest) (xs @ replicate (unat n - length xs) 0)\<rparr>)"
proof -
  let ?n = "unat n" and ?k = "min (unat n) (length xs + 1)"
  have len: "length xs \<le> ?n" using assms(1) by (simp add: cprefix_def)
  note loop = strncpy_loop_cprefix [OF assms]
  have ok: "access_ok m dest (?k + (?n - (length xs + 1)))"
    using assms(2) by (rule access_ok_mono) simp
  note sh = access_ok_shift [OF ok]
  have eq: "take ?n (xs @ [0]) @ replicate (?n - (length xs + 1)) 0
      = xs @ replicate (?n - length xs) (0 :: u8)"
    using len by (cases "?n - length xs") auto
  have "length (take ?n (xs @ [0])) = ?k" by simp
  with loop sh fill_loop_wr [of "m\<lparr>ram := wr (ram m) (phys dest) (take ?n (xs @ [0]))\<rparr>"]
  show ?thesis
    by (simp add: strncpy_def wr_append eq [symmetric] min.commute del: take_append append_assoc)
qed

text \<open>\<^verbatim>\<open>memcpy\<close> copies the \<open>n\<close> bytes of the source, for ranges that do not overlap, and changes nothing else.\<close>

theorem memcpy_correct:
  assumes "access_ok m dest (unat n)" and "access_ok m src (unat n)"
    and "apart (phys dest) (unat n) (phys src) (unat n)"
  shows "memcpy dest src n m
    = Inr (dest, m\<lparr>ram := wr (ram m) (phys dest) (bytes (ram m) (phys src) (unat n))\<rparr>)"
  using memcpy_loop_wr [OF assms] by (simp add: memcpy_def)

theorem memset_correct:
  assumes "access_ok m dest (unat n)"
  shows "memset dest ch n m
    = Inr (dest, m\<lparr>ram := wr (ram m) (phys dest) (replicate (unat n) (ucast ch))\<rparr>)"
  using fill_loop_wr [OF assms] by (simp add: memset_def)

theorem memcmp_correct:
  assumes "access_ok m lhs (unat n)" and "access_ok m rhs (unat n)"
  shows "memcmp lhs rhs n m
    = Inr (three_way (bytes (ram m) (phys lhs) (unat n)) (bytes (ram m) (phys rhs) (unat n)), m)"
  using memcmp_loop_bytes [OF assms] by (simp add: memcmp_def)

text \<open>
  \<^verbatim>\<open>strcmp\<close> returns the sign of the first difference of two strings as unsigned bytes, a proper prefix
  being smaller, and reads nothing past their ends.\<close>

theorem strcmp_correct:
  assumes "cstr m lhs xs" and "cstr m rhs ys" and "min (length xs) (length ys) < f"
  shows "strcmp f lhs rhs m = Inr (three_way xs ys, m)"
  using strcmp_loop_cstr [OF assms] by (simp add: strcmp_def)

text \<open>
  \<^verbatim>\<open>strchr\<close> finds the first occurrence of a non-zero byte, and returns a null
  pointer when there is none. For the terminating byte 0 it also returns null.
\<close>

theorem strchr_correct:
  assumes "cstr m s xs" and "length xs < f"
  shows "strchr f s c m = Inr (case takeWhile (\<lambda>x. ucast x \<noteq> c) xs of
       us \<Rightarrow> if length us < length xs then s + of_nat (length us) else 0, m)"
  using assms
proof (induction xs arbitrary: f s)
  case Nil
  then show ?case by (cases f) (auto simp: exec_simps dest: cstr_Nil_D)
next
  case (Cons x xs)
  then obtain g where f: "f = Suc g" by (cases f) auto
  note c = cstr_Cons [OF Cons.prems(1)]
  show ?case using Cons.IH [of "s + 1" g] c f Cons.prems(2)
    by (auto simp: exec_simps algebra_simps)
qed


section \<open>An example memory\<close>

text \<open>Tag checking is on, all memory has tag 3; \<open>hi\<close> is at 0x100 and \<open>ho\<close> at 0x200.\<close>

definition demo_mem :: machine where
  "demo_mem = \<lparr>ram = (\<lambda>_. 0)(256 := 104, 257 := 105, 512 := 104, 513 := 111), tagm = (\<lambda>_. 3), csr_tags = 1,
     csr_mstatus = 0, csr_mie = 0, csr_mip = 0, rnd_seq = (\<lambda>_. 0), rnd_pos = 0, sec_cntx = 0, mem_info = 0, console = []\<rparr>"

lemma demo_access: "ptr_tag p = 3 \<Longrightarrow> phys p + n < 268435456 \<Longrightarrow> access_ok demo_mem p n"
proof -
  assume a: "ptr_tag p = 3" "phys p + n < 268435456"
  have "tag_ok demo_mem (p + of_nat i)" if "i < n" for i
  proof -
    have "unat (of_nat i :: u32) = i" using that a(2) by (simp add: unsigned_of_nat take_bit_nat_eq_self)
    then have "ptr_tag (p + of_nat i) = 3" using ptr_tag_add [of p "of_nat i"] that a by simp
    then show ?thesis by (simp add: tag_ok_def demo_mem_def)
  qed
  with a(2) show ?thesis by (simp add: access_ok_def)
qed

lemma demo_ptrs: "ptr_tag 0x30000100 = 3" "phys 0x30000100 = 256" "ptr_tag 0x30000200 = 3" "phys 0x30000200 = 512"
  "ptr_tag 0x30000300 = 3" "phys 0x30000300 = 768"
  by (simp_all add: ptr_tag_def phys_def)

lemma demo_ram: "ram demo_mem = (\<lambda>_. 0)(256 := 104, 257 := 105, 512 := 104, 513 := 111)"
  by (simp add: demo_mem_def)

lemma demo_cstr: "cstr demo_mem 0x30000100 [104, 105]" "cstr demo_mem 0x30000200 [104, 111]"
  by (simp_all add: cstr_def bytes_def demo_ram upt_conv_Cons demo_access demo_ptrs)

theorem strcmp_correct_witness: "strcmp 9 0x30000100 0x30000200 demo_mem = Inr (- 1, demo_mem)"
  using strcmp_correct [OF demo_cstr, of 9] by (simp add: three_way_Cons)

theorem memcpy_correct_witness:
  "memcpy 0x30000300 0x30000100 2 demo_mem = Inr (0x30000300, demo_mem\<lparr>ram := wr (ram demo_mem) 768 [104, 105]\<rparr>)"
proof -
  have "bytes (ram demo_mem) 256 2 = [104, 105]" by (simp add: bytes_def demo_ram upt_conv_Cons)
  with memcpy_correct [of demo_mem "0x30000300" 2 "0x30000100"] demo_access show ?thesis
    by (simp add: demo_ptrs apart_def)
qed

theorem strncpy_correct_witness:
  "strncpy 0x30000300 0x30000100 4 demo_mem
     = Inr (0x30000300, demo_mem\<lparr>ram := wr (ram demo_mem) 768 [104, 105, 0, 0]\<rparr>)"
proof -
  have "cprefix demo_mem 0x30000100 (unat (4 :: u32)) [104, 105]"
    by (simp add: cprefix_def bytes_def demo_ram upt_conv_Cons demo_access demo_ptrs)
  moreover have "replicate 2 (0 :: u8) = [0, 0]" by (simp add: numeral_2_eq_2)
  ultimately show ?thesis using strncpy_correct [of demo_mem "0x30000100" 4 "[104, 105]" "0x30000300"]
    by (simp add: demo_access demo_ptrs apart_def)
qed

theorem strncat_correct_witness:
  "strncat 9 0x30000200 0x30000100 1 demo_mem
     = Inr (0x30000200, demo_mem\<lparr>ram := wr (ram demo_mem) 514 [104, 0]\<rparr>)"
proof -
  have "cprefix demo_mem 0x30000100 (unat (1 :: u32)) [104]"
    by (simp add: cprefix_def bytes_def demo_ram upt_conv_Cons demo_access demo_ptrs)
  from strncat_correct [OF demo_cstr(2) this, of 9] show ?thesis
    by (simp add: demo_access demo_ptrs apart_def)
qed

end
