(* ===== verification/LibcSecurity.thy ===== *)
theory LibcSecurity
  imports LibcString
begin

text \<open>
  The pointer protection layer of the libc, in its two link-time variants:
  \<^verbatim>\<open>internals/security.c\<close> (memory tagging) and \<^verbatim>\<open>internals/no_security.c\<close>
  (prefix \<open>ns_\<close>). The secure context \<^verbatim>\<open>sec_cntx\<close> is 16 bytes of memory:
  \<^verbatim>\<open>tag_gen\<close> at offset 0 and \<^verbatim>\<open>sec_tag\<close> at offset 4. The contract
  the heap relies on is the locale \<open>heap_security\<close>; it is interpreted for both
  variants. The stronger \<open>tagging_security\<close>, by which consecutive regions get
  different tags, holds for \<^verbatim>\<open>security.c\<close> only.
\<close>

section \<open>security.c\<close>

definition csrw_tags :: "u32 \<Rightarrow> unit mach" where
  "csrw_tags v = smod (\<lambda>m. m\<lparr>csr_tags := v\<rparr>)"

text \<open>Both loops of \<^verbatim>\<open>_ossec_init\<close> draw random numbers until one fits; \<open>f\<close> bounds the draws.\<close>

fun pick_sec_tag :: "nat \<Rightarrow> u32 mach" where
  "pick_sec_tag 0 = sfail No_return"
| "pick_sec_tag (Suc f) = sbind soc_hwrand (\<lambda>r.
     let sec_tag = r AND 0xf in if sec_tag = 0 then pick_sec_tag f else sret sec_tag)"

fun pick_tag_gen :: "nat \<Rightarrow> u32 \<Rightarrow> u32 \<Rightarrow> unit mach" where
  "pick_tag_gen 0 ctx sec_tag = sfail No_return"
| "pick_tag_gen (Suc f) ctx sec_tag =
     sbind soc_hwrand (\<lambda>r. sbind (store32 ctx (r AND 0xf)) (\<lambda>_.
     sbind (load32 ctx) (\<lambda>g. if g = 0 then pick_tag_gen f ctx sec_tag else
     sbind (load32 ctx) (\<lambda>g'. if g' = sec_tag then pick_tag_gen f ctx sec_tag else sret ()))))"

definition ossec_init :: "nat \<Rightarrow> u32 mach" where
  "ossec_init f =
     sbind (sget sec_cntx) (\<lambda>ctx.
     sbind (memset ctx 0 16) (\<lambda>_.
     sbind (pick_sec_tag f) (\<lambda>sec_tag.
     sbind (store32 (ctx + 4) sec_tag) (\<lambda>_.
     sbind (pick_tag_gen f ctx sec_tag) (\<lambda>_.
     sbind (csrw_tags 1) (\<lambda>_.
     sbind (st_insn sec_tag (ctx AND 0x0fffffff)) (\<lambda>_. sret 1)))))))"

definition ossec_get_protected_ptr :: "u32 \<Rightarrow> u32 mach" where
  "ossec_get_protected_ptr p =
     (let t0 = p AND 0x0fffffff in
      sbind (lt_insn t0) (\<lambda>t1. sret (t0 OR push_bit 28 t1)))"

text \<open>
  The loop of \<^verbatim>\<open>_ossec_generate_tag\<close>, every read of the volatile context a load.
  Three rounds are always enough: \<open>next_tag_loop_ends\<close> below.
\<close>

fun next_tag_loop :: "nat \<Rightarrow> u32 \<Rightarrow> unit mach" where
  "next_tag_loop 0 p = sfail No_return"
| "next_tag_loop (Suc f) p =
     sbind (load32 p) (\<lambda>g. sbind (store32 p ((g + 1) AND 0xf)) (\<lambda>_.
     sbind (load32 p) (\<lambda>g1. if g1 = 0 then next_tag_loop f p else
     sbind (load32 p) (\<lambda>g2. sbind (load32 (p + 4)) (\<lambda>s.
       if g2 = s then next_tag_loop f p else sret ())))))"

definition ossec_generate_tag :: "u32 mach" where
  "ossec_generate_tag =
     sbind (sget sec_cntx) (\<lambda>ctx.
     sbind (ossec_get_protected_ptr ctx) (\<lambda>p.
     sbind (load32 p) (\<lambda>new_tag.
     sbind (next_tag_loop 3 p) (\<lambda>_. sret new_tag))))"

definition ossec_alignment_assert :: "u32 \<Rightarrow> u32 mach" where
  "ossec_alignment_assert p =
     sbind (printf_msg ''PANIC: ALIGNMENT VIOLATION @[0x%x]'') (\<lambda>_. sfail (Exit_status 43))"

fun tag_granules :: "nat \<Rightarrow> u32 \<Rightarrow> u32 \<Rightarrow> unit mach" where
  "tag_granules 0 tag address = sret ()"
| "tag_granules (Suc n) tag address =
     sbind (st_insn tag address) (\<lambda>_. tag_granules n tag (address + 16))"

definition ossec_protect_ptr :: "u32 \<Rightarrow> u32 \<Rightarrow> u32 mach" where
  "ossec_protect_ptr raw_ptr sz =
     sbind ossec_generate_tag (\<lambda>tag.
     sbind (if raw_ptr mod 16 \<noteq> 0 then ossec_alignment_assert raw_ptr else sret 0) (\<lambda>_.
     let untagged_ptr = raw_ptr AND 0x0fffffff;
         granules_to_tag = sz div 16 + (if sz mod 16 \<noteq> 0 then 1 else 0)
     in sbind (tag_granules (unat granules_to_tag) tag untagged_ptr) (\<lambda>_.
        sret (untagged_ptr OR push_bit 28 tag))))"

definition ossec_get_essence :: "u32 \<Rightarrow> u32" where
  "ossec_get_essence p = p AND (push_bit 28 1 - 1)"

definition ossec_get_secure_ptr :: "u32 \<Rightarrow> u32 mach" where
  "ossec_get_secure_ptr p = ossec_get_protected_ptr p"

definition ossec_panic :: "u32 mach" where
  "ossec_panic = sbind (printf_msg ''LIBC: <PANIC> SECURITY VIOLATION DETECTED!'')
     (\<lambda>_. sfail (Exit_status 42))"

section \<open>no_security.c\<close>

definition ns_ossec_init :: "u32 mach" where
  "ns_ossec_init =
     sbind (printf_msg ''LIBC: <WARNING> your are using NON-secure libc'') (\<lambda>_. sret 1)"

definition ns_ossec_generate_tag :: "u32 mach" where
  "ns_ossec_generate_tag = sret 0"

definition ns_ossec_alignment_assert :: "u32 \<Rightarrow> u32 mach" where
  "ns_ossec_alignment_assert p = sret 0"

definition ns_ossec_protect_ptr :: "u32 \<Rightarrow> u32 \<Rightarrow> u32 mach" where
  "ns_ossec_protect_ptr p sz = sret p"

definition ns_ossec_get_essence :: "u32 \<Rightarrow> u32" where
  "ns_ossec_get_essence p = p"

definition ns_ossec_get_secure_ptr :: "u32 \<Rightarrow> u32 mach" where
  "ns_ossec_get_secure_ptr p = sret p"

definition ns_ossec_panic :: "u32 mach" where
  "ns_ossec_panic = sbind (printf_msg ''LIBC: <PANIC> SECURITY VIOLATION DETECTED!'')
     (\<lambda>_. sfail (Exit_status 42))"

text \<open>The functions the rest of the libc links against.\<close>

record sec_ops =
  so_init :: "nat \<Rightarrow> u32 mach"
  so_protect :: "u32 \<Rightarrow> u32 \<Rightarrow> u32 mach"
  so_secure :: "u32 \<Rightarrow> u32 mach"
  so_essence :: "u32 \<Rightarrow> u32"
  so_panic :: "u32 mach"

definition security_c :: sec_ops where
  "security_c = \<lparr>so_init = ossec_init, so_protect = ossec_protect_ptr,
     so_secure = ossec_get_secure_ptr, so_essence = ossec_get_essence, so_panic = ossec_panic\<rparr>"

definition no_security_c :: sec_ops where
  "no_security_c = \<lparr>so_init = (\<lambda>f. ns_ossec_init), so_protect = ns_ossec_protect_ptr,
     so_secure = ns_ossec_get_secure_ptr, so_essence = ns_ossec_get_essence,
     so_panic = ns_ossec_panic\<rparr>"

section \<open>Accesses to a granule\<close>

lemma granule_shift:
  assumes "phys p mod 16 + d < 16" and "d < 16"
  shows "phys (p + of_nat d) = phys p + d" and "ptr_tag (p + of_nat d) = ptr_tag p"
    and "granule (p + of_nat d) = granule p" and "tag_ok m (p + of_nat d) = tag_ok m p"
proof -
  have u: "unat (of_nat d :: u32) = d" using assms(2) by (simp add: unat_of_nat)
  have "phys p div 16 < 16777216" by (rule div_less_iff_less_mult [THEN iffD2]) simp_all
  then have b: "phys p + unat (of_nat d :: u32) < 268435456"
    using assms(1) u div_mult_mod_eq [of "phys p" 16] by linarith
  show P: "phys (p + of_nat d) = phys p + d" using phys_add [OF b] u by simp
  show T: "ptr_tag (p + of_nat d) = ptr_tag p" by (rule ptr_tag_add [OF b])
  have "(phys p + d) div 16 = phys p div 16"
    using assms(1) by (metis div_eq_0_iff div_mult_mod_eq add.assoc div_mult_self3 add.right_neutral zero_neq_numeral)
  then show G: "granule (p + of_nat d) = granule p" by (simp add: granule_def P)
  show "tag_ok m (p + of_nat d) = tag_ok m p" by (simp add: tag_ok_def T G)
qed

lemma granule_access:
  assumes "16 dvd phys p" and "tag_ok m p" and "phys p + 16 < 268435456"
  shows "access_ok m p 16"
proof -
  have "tag_ok m (p + of_nat i)" if "i < 16" for i
    using granule_shift(4) [of p i m] assms(1,2) that by (simp add: dvd_eq_mod_eq_0)
  with assms(3) show ?thesis by (simp add: access_ok_def)
qed

lemma access_ok_field:
  assumes "access_ok m p n" and "d < n"
  shows "tag_ok m (p + of_nat d)" and "phys (p + of_nat d) = phys p + d"
  using assms access_ok_shift(1) [of m p d "n - d"] by (auto simp: access_ok_def)

lemma load32_field [exec_simps]:
  "access_ok m p n \<Longrightarrow> d < n \<Longrightarrow>
   load32 (p + of_nat d) m = Inr (get32 (ram m) (phys p + d), m)"
  by (simp add: load32_def access_ok_field)

lemma store32_field [exec_simps]:
  "access_ok m p n \<Longrightarrow> d < n \<Longrightarrow>
   store32 (p + of_nat d) v m = Inr ((), m\<lparr>ram := put32 (ram m) (phys p + d) v\<rparr>)"
  by (simp add: store32_def access_ok_field)

lemmas field0 = load32_field [where d = 0, simplified] store32_field [where d = 0, simplified]
lemmas field4 = load32_field [where d = 4, simplified] store32_field [where d = 4, simplified]
lemmas field8 = load32_field [where d = 8, simplified] store32_field [where d = 8, simplified]
lemmas field12 = load32_field [where d = 12, simplified] store32_field [where d = 12, simplified]
lemmas fields = field0 field4 field8 field12

section \<open>Tag generation\<close>

text \<open>The tag that follows \<open>g\<close> when the secure tag is \<open>s\<close>: the loop run on numbers.\<close>

definition next_tag :: "u32 \<Rightarrow> u32 \<Rightarrow> u32" where
  "next_tag s g =
     (let a = (g + 1) AND 0xf in if a \<noteq> 0 \<and> a \<noteq> s then a
      else let b = (a + 1) AND 0xf in if b \<noteq> 0 \<and> b \<noteq> s then b
      else (b + 1) AND 0xf)"

lemma and_15: "unat (w AND 0xf :: u32) = unat w mod 16"
  using unat_and_mask [of w 4] by (simp add: mask_eq_exp_minus_1)

lemma unat_inc_15: "unat ((w + 1) AND 0xf :: u32) = (unat w + 1) mod 16"
  by (simp add: and_15 unat_word_ariths mod_mod_cancel)

lemma next_tag_props:
  "next_tag s g \<noteq> 0" "next_tag s g \<noteq> s" "unat (next_tag s g) < 16"
  "unat g < 16 \<Longrightarrow> next_tag s g \<noteq> g"
proof -
  define a where a: "a = (g + 1) AND (0xf :: u32)"
  define b where b: "b = (a + 1) AND (0xf :: u32)"
  define c where c: "c = (b + 1) AND (0xf :: u32)"
  have ua: "unat a = (unat g + 1) mod 16" and ub: "unat b = (unat a + 1) mod 16"
    and uc: "unat c = (unat b + 1) mod 16"
    by (simp_all only: a b c unat_inc_15)
  have lt: "unat a < 16" "unat b < 16" "unat c < 16"
    using ua ub uc by simp_all
  have ne: "unat a \<noteq> unat b" "unat b \<noteq> unat c" "unat a \<noteq> unat c"
    using lt by (simp_all add: uc ub mod_Suc)
  then have ne': "a \<noteq> b" "b \<noteq> c" "a \<noteq> c" by auto
  have n: "next_tag s g = (if a \<noteq> 0 \<and> a \<noteq> s then a else if b \<noteq> 0 \<and> b \<noteq> s then b else c)"
    by (simp add: next_tag_def Let_def a b c)
  show "next_tag s g \<noteq> 0" "next_tag s g \<noteq> s" "unat (next_tag s g) < 16"
    using ne' lt by (auto simp: n)
  assume "unat g < 16"
  then have "unat g \<noteq> unat a" "unat g \<noteq> unat b" "unat g \<noteq> unat c"
    using lt by (simp_all add: uc ub ua mod_Suc)
  then show "next_tag s g \<noteq> g" by (auto simp: n)
qed

lemma put32_self: "put32 r a (get32 r a) = r"
proof -
  have "ucast (get32 r a) = r a" "ucast (drop_bit 8 (get32 r a)) = r (a + 1)"
    "ucast (drop_bit 16 (get32 r a)) = r (a + 2)" "ucast (drop_bit 24 (get32 r a)) = r (a + 3)"
    by (rule bit_word_eqI; auto simp: get32_def bit_simps dest: bit_imp_le_length)+
  then show ?thesis by (simp add: put32_def)
qed

lemma put32_twice [simp]: "put32 (put32 r a v) a w = put32 r a w"
  by (simp add: put32_def fun_upd_twist)

text \<open>The loop ends within three rounds, whatever the context holds.\<close>

lemma next_tag_loop_ends:
  assumes "access_ok m p 16"
  shows "next_tag_loop 3 p m = Inr ((), m\<lparr>ram := put32 (ram m) (phys p)
     (next_tag (get32 (ram m) (phys p + 4)) (get32 (ram m) (phys p)))\<rparr>)"
proof -
  define s g where s: "s = get32 (ram m) (phys p + 4)" and g: "g = get32 (ram m) (phys p)"
  have ok: "access_ok (m\<lparr>ram := r\<rparr>) p 16" for r using assms by simp
  have step: "next_tag_loop (Suc f) p (m\<lparr>ram := put32 (ram m) (phys p) x\<rparr>) =
     (let a = (x + 1) AND 0xf; m' = m\<lparr>ram := put32 (ram m) (phys p) a\<rparr> in
      if a = 0 \<or> a = s then next_tag_loop f p m' else Inr ((), m'))" for f x
    using ok by (simp add: fields [where n = 16] get32_put32_other s Let_def)
  have m: "m\<lparr>ram := put32 (ram m) (phys p) g\<rparr> = m"
    by (simp add: g put32_self)
  define a b where a: "a = (g + 1) AND (0xf :: u32)" and b: "b = (a + 1) AND (0xf :: u32)"
  have 3: "next_tag_loop 3 p m = (let m' = m\<lparr>ram := put32 (ram m) (phys p) a\<rparr> in
      if a = 0 \<or> a = s then next_tag_loop 2 p m' else Inr ((), m'))"
    using step [of 2 g] m by (simp add: a eval_nat_numeral Let_def del: next_tag_loop.simps)
  have 2: "next_tag_loop 2 p (m\<lparr>ram := put32 (ram m) (phys p) a\<rparr>)
      = (let m' = m\<lparr>ram := put32 (ram m) (phys p) b\<rparr> in
      if b = 0 \<or> b = s then next_tag_loop 1 p m' else Inr ((), m'))"
    using step [of 1 a] by (simp add: b eval_nat_numeral Let_def del: next_tag_loop.simps)
  have n: "next_tag s g = (if a \<noteq> 0 \<and> a \<noteq> s then a else if b \<noteq> 0 \<and> b \<noteq> s then b else (b + 1) AND 0xf)"
    by (simp add: next_tag_def Let_def a b)
  have 1: "next_tag_loop 1 p (m\<lparr>ram := put32 (ram m) (phys p) b\<rparr>)
      = Inr ((), m\<lparr>ram := put32 (ram m) (phys p) (next_tag s g)\<rparr>)"
    if "a = 0 \<or> a = s" "b = 0 \<or> b = s"
    using step [of 0 b] that n next_tag_props(1,2) [of s g]
    by (auto simp add: Let_def simp del: next_tag_loop.simps)
  show ?thesis
    using n 1 by (auto simp add: 3 2 Let_def s [symmetric] g [symmetric])
qed

section \<open>The state of the protection layer\<close>

abbreviation ctx_tag_gen :: "machine \<Rightarrow> u32" where
  "ctx_tag_gen m \<equiv> get32 (ram m) (phys (sec_cntx m))"

abbreviation ctx_sec_tag :: "machine \<Rightarrow> u32" where
  "ctx_sec_tag m \<equiv> get32 (ram m) (phys (sec_cntx m) + 4)"

text \<open>
  Tag checking is on, the tag memory holds 4-bit tags, the context lies in one granule tagged with the secure
  tag, and the next tag to hand out is neither 0 nor the secure tag.
\<close>

definition sec_ok :: "machine \<Rightarrow> bool" where
  "sec_ok m \<longleftrightarrow> bit (csr_tags m) 0 \<and> (\<forall>g. tagm m g < 16)
     \<and> 16 dvd phys (sec_cntx m) \<and> phys (sec_cntx m) + 16 < 268435456
     \<and> 0 < unat (ctx_sec_tag m) \<and> unat (ctx_sec_tag m) < 16
     \<and> tagm m (granule (sec_cntx m)) = unat (ctx_sec_tag m)
     \<and> 0 < unat (ctx_tag_gen m) \<and> unat (ctx_tag_gen m) < 16
     \<and> ctx_tag_gen m \<noteq> ctx_sec_tag m"

lemma phys_untag [simp]: "phys (p AND 0x0fffffff) = phys p"
  using unat_untag [of p] phys_less [of p] by (simp add: phys_def [of "p AND 0x0fffffff"])

lemma granule_untag [simp]: "granule (p AND 0x0fffffff) = granule p"
  by (simp add: granule_def)

text \<open>
  \<^verbatim>\<open>_ossec_get_protected_ptr\<close> gives the pointer to the same address that
  carries the tag found in the tag memory, so that it can be used.
\<close>

lemma get_protected_ptr_eq:
  assumes "tagm m (granule p) < 16"
  shows "ossec_get_protected_ptr p m = Inr (mk_ptr (tagm m (granule p)) (phys p), m)"
  using untag_or_tag [OF assms, of p]
  by (simp add: ossec_get_protected_ptr_def lt_insn_def Let_def)

lemma granule_mk_ptr [simp]: "t < 16 \<Longrightarrow> a < 268435456 \<Longrightarrow> granule (mk_ptr t a) = a div 16"
  by (simp add: granule_def)

lemma mk_ptr_tag_ok: "tagm m (a div 16) < 16 \<Longrightarrow> a < 268435456 \<Longrightarrow> tag_ok m (mk_ptr (tagm m (a div 16)) a)"
  by (simp add: tag_ok_def)

lemma generate_tag_ok:
  assumes "sec_ok m"
  shows "ossec_generate_tag m = Inr (ctx_tag_gen m, m\<lparr>ram := put32 (ram m) (phys (sec_cntx m))
     (next_tag (ctx_sec_tag m) (ctx_tag_gen m))\<rparr>)"
proof -
  let ?c = "sec_cntx m"
  let ?p = "mk_ptr (tagm m (granule ?c)) (phys ?c)"
  have t: "tagm m (granule ?c) < 16" and c: "16 dvd phys ?c" "phys ?c + 16 < 268435456"
    using assms by (auto simp: sec_ok_def)
  have ph: "phys ?p = phys ?c" using t by simp
  have "tag_ok m ?p" using t mk_ptr_tag_ok [of m "phys ?c"] by (simp add: granule_def)
  then have ok: "access_ok m ?p 16" using c ph by (simp add: granule_access)
  show ?thesis
    using get_protected_ptr_eq [OF t] field0(1) [OF ok] next_tag_loop_ends [OF ok] ph
    by (simp add: ossec_generate_tag_def)
qed

text \<open>Tag memory \<open>tm\<close> with \<open>n\<close> granules from \<open>g\<close> on tagged \<open>t\<close>.\<close>

definition retag :: "(nat \<Rightarrow> nat) \<Rightarrow> nat \<Rightarrow> nat \<Rightarrow> nat \<Rightarrow> nat \<Rightarrow> nat" where
  "retag tm g n t = (\<lambda>x. if g \<le> x \<and> x < g + n then t else tm x)"

lemma retag_0 [simp]: "retag tm g 0 t = tm"
  by (rule ext) (auto simp: retag_def)

lemma retag_Suc: "retag (tm(g := t)) (Suc g) n t = retag tm g (Suc n) t"
  by (rule ext) (auto simp: retag_def)

lemma tag_granules_eq:
  assumes "16 dvd phys a" and "phys a + 16 * n < 268435456"
  shows "tag_granules n t a m = Inr ((), m\<lparr>tagm := retag (tagm m) (granule a) n (unat t mod 16)\<rparr>)"
  using assms
proof (induction n arbitrary: a m)
  case (Suc n)
  have P: "phys (a + 16) = phys a + 16" using phys_add [of a 16] Suc.prems by simp
  then have G: "granule (a + 16) = Suc (granule a)" by (simp add: granule_def)
  show ?case
    using Suc.IH [of "a + 16" "m\<lparr>tagm := (tagm m)(granule a := unat t mod 16)\<rparr>"] Suc.prems P G
    by (simp add: st_insn_def retag_Suc)
qed simp

text \<open>The number of granules that \<open>n\<close> bytes fill.\<close>

definition granules :: "nat \<Rightarrow> nat" where
  "granules n = n div 16 + (if n mod 16 \<noteq> 0 then 1 else 0)"

lemma granules_word: "unat ((sz :: u32) div 16 + (if sz mod 16 \<noteq> 0 then 1 else 0)) = granules (unat sz)"
proof -
  have m: "sz mod 16 = 0 \<longleftrightarrow> unat sz mod 16 = 0"
    by (simp add: word_unat_eq_iff unat_mod)
  have d: "unat (sz div 16) = unat sz div 16" by (simp add: unat_div)
  have "unat sz div 16 + 1 < 4294967296" using unat_u32_less [of sz] by linarith
  with m d show ?thesis by (simp add: granules_def unat_u32_add)
qed

lemma granules_covers: "n \<le> 16 * granules n" "16 * granules n < n + 16"
  by (auto simp: granules_def; presburger)+

text \<open>The machine after \<^verbatim>\<open>_ossec_protect_ptr(p, sz)\<close>.\<close>

definition protected :: "machine \<Rightarrow> u32 \<Rightarrow> nat \<Rightarrow> machine" where
  "protected m p n = m
     \<lparr>ram := put32 (ram m) (phys (sec_cntx m)) (next_tag (ctx_sec_tag m) (ctx_tag_gen m)),
      tagm := retag (tagm m) (granule p) (granules n) (unat (ctx_tag_gen m))\<rparr>"

lemma protect_ptr_eq:
  assumes "sec_ok m" and "16 dvd unat p" and "phys p + unat sz + 16 \<le> 268435456"
  shows "ossec_protect_ptr p sz m
    = Inr (mk_ptr (unat (ctx_tag_gen m)) (phys p), protected m p (unat sz))"
proof -
  let ?t = "ctx_tag_gen m"
  have t: "unat ?t < 16" using assms(1) by (simp add: sec_ok_def)
  have al: "p mod 16 = 0" using assms(2) by (simp add: word_unat_eq_iff unat_mod dvd_eq_mod_eq_0)
  have "16 dvd unat p mod 268435456" using assms(2) by (simp add: dvd_mod)
  then have ph: "16 dvd phys p" by (simp add: phys_def)
  have b: "phys p + 16 * granules (unat sz) < 268435456"
    using assms(3) granules_covers(2) [of "unat sz"] by linarith
  have r: "(p AND 0x0fffffff) OR push_bit 28 ?t = mk_ptr (unat ?t) (phys p)"
    using untag_or_tag [OF t, of p] by simp
  show ?thesis
    using generate_tag_ok [OF assms(1)] al r t ph b
    by (simp add: ossec_protect_ptr_def granules_word tag_granules_eq protected_def Let_def)
qed

lemma protect_ptr_misaligned:
  assumes "sec_ok m" and "\<not> 16 dvd unat p"
  shows "ossec_protect_ptr p sz m = Inl (Exit_status 43)"
proof -
  have "p mod 16 \<noteq> 0" using assms(2) by (simp add: word_unat_eq_iff unat_mod dvd_eq_mod_eq_0)
  then show ?thesis
    using generate_tag_ok [OF assms(1)]
    by (simp add: ossec_protect_ptr_def ossec_alignment_assert_def printf_msg_def)
qed

lemma protected_sel [simp]:
  "csr_tags (protected m p n) = csr_tags m" "csr_mstatus (protected m p n) = csr_mstatus m"
  "sec_cntx (protected m p n) = sec_cntx m" "mem_info (protected m p n) = mem_info m"
  by (simp_all add: protected_def)

lemma sec_ok_ctx_next:
  assumes "sec_ok m"
  shows "0 < unat (next_tag (ctx_sec_tag m) (ctx_tag_gen m))"
    and "unat (next_tag (ctx_sec_tag m) (ctx_tag_gen m)) < 16"
  using next_tag_props(1,3) [of "ctx_sec_tag m" "ctx_tag_gen m"] by (simp_all add: unat_gt_0)

lemma sec_ok_protected:
  assumes "sec_ok m" and "granule (sec_cntx m) < granule p \<or> granule p + granules n \<le> granule (sec_cntx m)"
  shows "sec_ok (protected m p n)"
  using assms sec_ok_ctx_next [OF assms(1)] next_tag_props(2) [of "ctx_sec_tag m" "ctx_tag_gen m"]
  by (auto simp: sec_ok_def protected_def get32_put32_other retag_def)

section \<open>The contract of the protection layer\<close>

text \<open>
  What the heap relies on. \<open>ok\<close> is the state the layer needs, \<open>area\<close> the addresses
  it keeps for itself, \<open>good\<close> the pointers it hands out and takes. A pointer
  from \<open>secure\<close> can be used at its address; one from \<open>protect\<close> can be used on
  the whole region, and nothing changes outside the region's granules and
  the area.
\<close>

locale heap_security =
  fixes ok :: "machine \<Rightarrow> bool"
    and area :: "machine \<Rightarrow> nat set"
    and good :: "u32 \<Rightarrow> bool"
    and protect :: "u32 \<Rightarrow> u32 \<Rightarrow> u32 mach"
    and secure :: "u32 \<Rightarrow> u32 mach"
    and essence :: "u32 \<Rightarrow> u32"
  assumes good_untagged: "unat p < 268435456 \<Longrightarrow> good p"
    and good_add: "good p \<Longrightarrow> phys p + unat d < 268435456 \<Longrightarrow> good (p + d)"
    and essence_good: "good p \<Longrightarrow> unat (essence p) = phys p"
    and secure_law: "ok m \<Longrightarrow> good p \<Longrightarrow>
      \<exists>q. secure p m = Inr (q, m) \<and> good q \<and> phys q = phys p \<and> tag_ok m q"
    and protect_law: "ok m \<Longrightarrow> good p \<Longrightarrow> 16 dvd unat p \<Longrightarrow> phys p + unat sz + 16 \<le> 268435456 \<Longrightarrow>
      area m \<inter> {phys p ..< phys p + 16 * granules (unat sz)} = {} \<Longrightarrow>
      \<exists>q m'. protect p sz m = Inr (q, m') \<and> good q \<and> phys q = phys p
        \<and> access_ok m' q (unat sz) \<and> ok m' \<and> area m' = area m
        \<and> (\<forall>a. a \<notin> area m \<longrightarrow> ram m' a = ram m a)
        \<and> (\<forall>g. g < granule p \<or> granule p + granules (unat sz) \<le> g \<longrightarrow> tagm m' g = tagm m g)
        \<and> csr_tags m' = csr_tags m \<and> csr_mstatus m' = csr_mstatus m \<and> mem_info m' = mem_info m"
    and ok_frame: "ok m \<Longrightarrow> (\<And>a. a \<in> area m \<Longrightarrow> r a = ram m a) \<Longrightarrow> ok (m\<lparr>ram := r\<rparr>)"
    and area_ram: "area (m\<lparr>ram := r\<rparr>) = area m"
    and ok_console: "ok m \<Longrightarrow> ok (m\<lparr>console := c\<rparr>)"
    and area_console: "area (m\<lparr>console := c\<rparr>) = area m"

definition sec_area :: "machine \<Rightarrow> nat set" where
  "sec_area m = {phys (sec_cntx m) ..< phys (sec_cntx m) + 16}"

text \<open>Every access through the pointer, of a byte or a word, raises the Secure Monitor Panic.\<close>

definition panics :: "machine \<Rightarrow> u32 \<Rightarrow> bool" where
  "panics m p \<longleftrightarrow> load8 p m = Inl (Tag_panic p) \<and> load32 p m = Inl (Tag_panic p)
     \<and> (\<forall>v. store8 p v m = Inl (Tag_panic p)) \<and> (\<forall>w. store32 p w m = Inl (Tag_panic p))"

text \<open>
  The stronger contract of a layer that tags memory: \<open>cur\<close> is the tag the next
  region gets, and it changes with every region.
\<close>

locale tagging_security = heap_security +
  fixes cur :: "machine \<Rightarrow> nat"
  assumes checks_on: "ok m \<Longrightarrow> bit (csr_tags m) 0"
    and cur_pos: "ok m \<Longrightarrow> 0 < cur m \<and> cur m < 16"
    and protect_tag: "ok m \<Longrightarrow> 16 dvd unat p \<Longrightarrow> phys p + unat sz + 16 \<le> 268435456 \<Longrightarrow>
      protect p sz m = Inr (q, m') \<Longrightarrow>
      ptr_tag q = cur m \<and> (\<forall>g. granule p \<le> g \<and> g < granule p + granules (unat sz) \<longrightarrow> tagm m' g = cur m)
        \<and> (\<forall>g. g < granule p \<or> granule p + granules (unat sz) \<le> g \<longrightarrow> tagm m' g = tagm m g)
        \<and> cur m' \<noteq> cur m"
    and cur_frame: "(\<And>a. a \<in> area m \<Longrightarrow> r a = ram m a) \<Longrightarrow> cur (m\<lparr>ram := r\<rparr>) = cur m"
    and cur_console: "cur (m\<lparr>console := c\<rparr>) = cur m"
begin

text \<open>Using a pointer on memory with another tag stops the program.\<close>

lemma other_tag_panics: "ok m \<Longrightarrow> ptr_tag p \<noteq> tagm m (granule p) \<Longrightarrow> panics m p"
  using checks_on by (simp add: panics_def load8_def store8_def load32_def store32_def tag_ok_def)

end

lemma access_ok_tagged:
  assumes "phys q + n < 268435456" and "16 dvd phys q"
    and "\<And>g. phys q div 16 \<le> g \<Longrightarrow> g < phys q div 16 + granules n \<Longrightarrow> tagm m g = ptr_tag q"
  shows "access_ok m q n"
proof -
  have "tag_ok m (q + of_nat i)" if i: "i < n" for i
  proof -
    have u: "unat (of_nat i :: u32) = i" using assms(1) i by (simp add: unat_of_nat)
    have b: "phys q + unat (of_nat i :: u32) < 268435456" using assms(1) i u by simp
    have "i < 16 * granules n" using i granules_covers(1) [of n] by simp
    then have "(phys q + i) div 16 < phys q div 16 + granules n"
      using assms(2) by (simp add: div_plus_div_distrib_dvd_left less_mult_imp_div_less mult.commute)
    then have "tagm m ((phys q + i) div 16) = ptr_tag q"
      by (intro assms(3)) (simp_all add: div_le_mono)
    then show ?thesis
      using phys_add [OF b] ptr_tag_add [OF b] u by (simp add: tag_ok_def granule_def)
  qed
  with assms(1) show ?thesis by (simp add: access_ok_def)
qed

lemma phys_dvd: "16 dvd unat p \<Longrightarrow> 16 dvd phys p"
  by (simp add: phys_def dvd_mod)

lemma protect_ptr_law:
  assumes ok: "sec_ok m" and al: "16 dvd unat p" and b: "phys p + unat sz + 16 \<le> 268435456"
    and dj: "sec_area m \<inter> {phys p ..< phys p + 16 * granules (unat sz)} = {}"
  shows "\<exists>q m'. ossec_protect_ptr p sz m = Inr (q, m') \<and> phys q = phys p
        \<and> access_ok m' q (unat sz) \<and> sec_ok m' \<and> sec_area m' = sec_area m
        \<and> (\<forall>a. a \<notin> sec_area m \<longrightarrow> ram m' a = ram m a)
        \<and> (\<forall>g. g < granule p \<or> granule p + granules (unat sz) \<le> g \<longrightarrow> tagm m' g = tagm m g)
        \<and> csr_tags m' = csr_tags m \<and> csr_mstatus m' = csr_mstatus m \<and> mem_info m' = mem_info m"
proof -
  let ?m = "protected m p (unat sz)" and ?t = "unat (ctx_tag_gen m)"
  let ?q = "mk_ptr ?t (phys p)"
  have t: "?t < 16" using ok by (simp add: sec_ok_def)
  have q: "phys ?q = phys p" "ptr_tag ?q = ?t" using t by simp_all
  note e = protect_ptr_eq [OF ok al b]
  have acc: "access_ok ?m ?q (unat sz)"
    using b phys_dvd [OF al] q t
    by (intro access_ok_tagged) (auto simp: protected_def retag_def granule_def)
  have c: "16 dvd phys (sec_cntx m)" using ok by (simp add: sec_ok_def)
  have "granule (sec_cntx m) < granule p \<or> granule p + granules (unat sz) \<le> granule (sec_cntx m)"
  proof (rule ccontr)
    assume n: "\<not> ?thesis"
    have "phys (sec_cntx m) = 16 * granule (sec_cntx m)" "phys p = 16 * granule p"
      using c phys_dvd [OF al] by (simp_all add: granule_def)
    with n have "phys (sec_cntx m) \<in> sec_area m \<inter> {phys p ..< phys p + 16 * granules (unat sz)}"
      by (simp add: sec_area_def)
    with dj show False by blast
  qed
  then have ok': "sec_ok ?m" by (rule sec_ok_protected [OF ok])
  have "ram ?m a = ram m a" if "a \<notin> sec_area m" for a
    using that by (auto simp: protected_def sec_area_def put32_other)
  moreover have "tagm ?m g = tagm m g" if "g < granule p \<or> granule p + granules (unat sz) \<le> g" for g
    using that by (auto simp: protected_def retag_def)
  ultimately show ?thesis
    using e q acc ok' by (intro exI [of _ ?q] exI [of _ ?m]) (simp add: sec_area_def)
qed

lemma sec_ok_frame:
  assumes "sec_ok m" and "\<And>a. a \<in> sec_area m \<Longrightarrow> r a = ram m a"
  shows "sec_ok (m\<lparr>ram := r\<rparr>)" and "get32 r (phys (sec_cntx m)) = ctx_tag_gen m"
proof -
  show g: "get32 r (phys (sec_cntx m)) = ctx_tag_gen m"
    by (rule get32_cong) (simp add: assms(2) sec_area_def)
  have "get32 r (phys (sec_cntx m) + 4) = ctx_sec_tag m"
    by (rule get32_cong) (simp add: assms(2) sec_area_def)
  with g assms(1) show "sec_ok (m\<lparr>ram := r\<rparr>)" by (simp add: sec_ok_def)
qed

interpretation sec: tagging_security sec_ok sec_area "\<lambda>_. True" ossec_protect_ptr
  ossec_get_secure_ptr ossec_get_essence "\<lambda>m. unat (ctx_tag_gen m)"
proof unfold_locales
  fix p :: u32
  have "push_bit 28 1 - 1 = (0x0fffffff :: u32)" by simp
  then show "unat (ossec_get_essence p) = phys p"
    by (simp only: ossec_get_essence_def unat_untag)
next
  fix m p
  assume "sec_ok m"
  then have t: "tagm m (granule p) < 16" by (simp add: sec_ok_def)
  then show "\<exists>q. ossec_get_secure_ptr p m = Inr (q, m) \<and> True \<and> phys q = phys p \<and> tag_ok m q"
    using mk_ptr_tag_ok [of m "phys p"]
    by (simp add: ossec_get_secure_ptr_def get_protected_ptr_eq granule_def)
next
  fix m p sz q m'
  assume ok: "sec_ok m" and al: "16 dvd unat p" and b: "phys p + unat sz + 16 \<le> 268435456"
    and e: "ossec_protect_ptr p sz m = Inr (q, m')"
  have q: "q = mk_ptr (unat (ctx_tag_gen m)) (phys p)" "m' = protected m p (unat sz)"
    using protect_ptr_eq [OF ok al b] e by simp_all
  have g: "unat (ctx_tag_gen m) < 16" using ok by (simp add: sec_ok_def)
  then show "ptr_tag q = unat (ctx_tag_gen m) \<and>
      (\<forall>g. granule p \<le> g \<and> g < granule p + granules (unat sz) \<longrightarrow> tagm m' g = unat (ctx_tag_gen m))
      \<and> (\<forall>g. g < granule p \<or> granule p + granules (unat sz) \<le> g \<longrightarrow> tagm m' g = tagm m g)
      \<and> unat (ctx_tag_gen m') \<noteq> unat (ctx_tag_gen m)"
    using next_tag_props(4) [OF g, of "ctx_sec_tag m"]
    by (simp add: q protected_def retag_def word_unat_eq_iff)
next
  fix m and p sz :: u32
  assume "sec_ok m" "16 dvd unat p" "phys p + unat sz + 16 \<le> 268435456"
    "sec_area m \<inter> {phys p..<phys p + 16 * granules (unat sz)} = {}"
  from protect_ptr_law [OF this] show "\<exists>q m'. ossec_protect_ptr p sz m = Inr (q, m') \<and> True
        \<and> phys q = phys p \<and> access_ok m' q (unat sz) \<and> sec_ok m' \<and> sec_area m' = sec_area m
        \<and> (\<forall>a. a \<notin> sec_area m \<longrightarrow> ram m' a = ram m a)
        \<and> (\<forall>g. g < granule p \<or> granule p + granules (unat sz) \<le> g \<longrightarrow> tagm m' g = tagm m g)
        \<and> csr_tags m' = csr_tags m \<and> csr_mstatus m' = csr_mstatus m \<and> mem_info m' = mem_info m"
    by simp
next
  fix m r
  assume "\<And>a. a \<in> sec_area m \<Longrightarrow> r a = ram m a"
  then have "get32 r (phys (sec_cntx m)) = ctx_tag_gen m"
    by (intro get32_cong) (simp add: sec_area_def)
  then show "unat (ctx_tag_gen (m\<lparr>ram := r\<rparr>)) = unat (ctx_tag_gen m)"
    by simp
next
  show "sec_ok (m\<lparr>ram := r\<rparr>)" if "sec_ok m" "\<And>a. a \<in> sec_area m \<Longrightarrow> r a = ram m a" for m r
    using that by (rule sec_ok_frame(1))
qed (simp_all add: sec_area_def sec_ok_def)

text \<open>Without tagging the same contract holds as long as tag checking stays off.\<close>

definition ns_ok :: "machine \<Rightarrow> bool" where
  "ns_ok m \<longleftrightarrow> \<not> bit (csr_tags m) 0"

definition untagged :: "u32 \<Rightarrow> bool" where
  "untagged p \<longleftrightarrow> unat p < 268435456"

lemma untagged_phys: "untagged p \<Longrightarrow> phys p = unat p"
  by (simp add: untagged_def phys_def)

interpretation nosec: heap_security ns_ok "\<lambda>_. {}" untagged ns_ossec_protect_ptr
  ns_ossec_get_secure_ptr ns_ossec_get_essence
proof unfold_locales
  show "untagged (p + d)" if "untagged p" "phys p + unat d < 268435456" for p d
    using that by (simp add: untagged_phys untagged_def unat_u32_add)
qed (auto simp: untagged_phys ns_ossec_get_essence_def ns_ossec_get_secure_ptr_def
      ns_ossec_protect_ptr_def ns_ok_def tag_ok_def access_ok_def untagged_def)

section \<open>Initialisation\<close>

text \<open>
  Within any \<open>f\<close> consecutive draws, the low four bits of some number differ
  from 0 and from any one given value.
\<close>

definition fair_rnd :: "(nat \<Rightarrow> u32) \<Rightarrow> nat \<Rightarrow> bool" where
  "fair_rnd rs f \<longleftrightarrow> (\<forall>n s. \<exists>i<f. rs (n + i) AND 0xf \<noteq> 0 \<and> rs (n + i) AND 0xf \<noteq> s)"

lemma draw_shift:
  fixes P :: "u32 \<Rightarrow> bool"
  assumes "\<exists>i<Suc f. P (rs (n + i))" and "\<not> P (rs n)"
  shows "\<exists>i<f. P (rs (Suc n + i))"
proof -
  obtain i where i: "i < Suc f" "P (rs (n + i))" using assms(1) by blast
  with assms(2) obtain j where "i = Suc j" by (cases i) auto
  with i show ?thesis by auto
qed

lemma pick_sec_tag_returns:
  assumes "\<exists>i<f. rnd_seq m (rnd_pos m + i) AND 0xf \<noteq> 0"
  shows "\<exists>s n. pick_sec_tag f m = Inr (s, m\<lparr>rnd_pos := n\<rparr>) \<and> 0 < unat s \<and> unat s < 16"
  using assms
proof (induction f arbitrary: m)
  case (Suc f)
  let ?r = "rnd_seq m (rnd_pos m)"
  show ?case
  proof (cases "?r AND 0xf = 0")
    case True
    then have "\<exists>i<f. rnd_seq m (Suc (rnd_pos m) + i) AND 0xf \<noteq> 0"
      using draw_shift [of f "\<lambda>w. w AND 0xf \<noteq> 0" "rnd_seq m" "rnd_pos m"] Suc.prems by simp
    with Suc.IH [of "m\<lparr>rnd_pos := Suc (rnd_pos m)\<rparr>"] True show ?thesis
      by (auto simp: soc_hwrand_def Let_def)
  next
    case False
    then have "0 < unat (?r AND 0xf)" by (simp add: unat_gt_0)
    with False show ?thesis
      using mod_less_divisor [of 16 "unat ?r"]
      by (auto simp: soc_hwrand_def Let_def and_15 intro!: exI [of _ "Suc (rnd_pos m)"])
  qed
qed simp

lemma pick_tag_gen_returns:
  assumes "\<exists>i<f. rnd_seq m (rnd_pos m + i) AND 0xf \<noteq> 0 \<and> rnd_seq m (rnd_pos m + i) AND 0xf \<noteq> s"
    and "access_ok m ctx 16"
  shows "\<exists>g n. pick_tag_gen f ctx s m
      = Inr ((), m\<lparr>rnd_pos := n, ram := put32 (ram m) (phys ctx) g\<rparr>)
      \<and> 0 < unat g \<and> unat g < 16 \<and> g \<noteq> s"
  using assms
proof (induction f arbitrary: m)
  case (Suc f)
  let ?r = "rnd_seq m (rnd_pos m)"
  let ?g = "?r AND 0xf"
  let ?m = "m\<lparr>rnd_pos := Suc (rnd_pos m), ram := put32 (ram m) (phys ctx) ?g\<rparr>"
  have ok: "access_ok (m\<lparr>rnd_pos := n\<rparr>) ctx 16" for n
    using Suc.prems(2) by (simp add: access_ok_def tag_ok_def)
  then have ok': "access_ok (m\<lparr>rnd_pos := n, ram := r\<rparr>) ctx 16" for n r by simp
  have step: "pick_tag_gen (Suc f) ctx s m = (if ?g = 0 \<or> ?g = s then pick_tag_gen f ctx s ?m else Inr ((), ?m))"
    using ok ok' by (simp add: soc_hwrand_def field0 [where n = 16])
  show ?case
  proof (cases "?g = 0 \<or> ?g = s")
    case True
    then have "\<exists>i<f. rnd_seq m (Suc (rnd_pos m) + i) AND 0xf \<noteq> 0
        \<and> rnd_seq m (Suc (rnd_pos m) + i) AND 0xf \<noteq> s"
      using draw_shift [of f "\<lambda>w. w AND 0xf \<noteq> 0 \<and> w AND 0xf \<noteq> s" "rnd_seq m" "rnd_pos m"] Suc.prems(1)
      by simp
    with Suc.IH [of ?m] True ok' show ?thesis unfolding step by auto
  next
    case False
    then have "0 < unat ?g" "unat ?g < 16" by (simp add: unat_gt_0, simp add: and_15)
    with False show ?thesis
      unfolding step by (intro exI [of _ ?g] exI [of _ "Suc (rnd_pos m)"]) auto
  qed
qed simp

text \<open>
  Initialisation ends in the state the layer needs, with tag checking on: the
  secure tag and the first tag are drawn, differ, and are not 0.
\<close>

lemma ossec_init_ok:
  assumes "access_ok m (sec_cntx m) 16" and "16 dvd phys (sec_cntx m)"
    and "\<forall>g. tagm m g < 16" and "fair_rnd (rnd_seq m) f"
  shows "\<exists>m'. ossec_init f m = Inr (1, m') \<and> sec_ok m' \<and> mem_info m' = mem_info m
    \<and> sec_cntx m' = sec_cntx m \<and> csr_mstatus m' = csr_mstatus m
    \<and> (\<forall>a. a \<notin> sec_area m \<longrightarrow> ram m' a = ram m a)
    \<and> (\<forall>g. g \<noteq> granule (sec_cntx m) \<longrightarrow> tagm m' g = tagm m g)"
proof -
  let ?c = "sec_cntx m"
  define m0 where m0: "m0 = m\<lparr>ram := wr (ram m) (phys ?c) (replicate 16 0)\<rparr>"
  have ms: "memset ?c 0 16 m = Inr (?c, m0)"
    using fill_loop_wr [OF assms(1), of 0] by (simp add: memset_def m0)
  have ok: "access_ok (m0\<lparr>rnd_pos := n\<rparr>) ?c 16" for n
    using assms(1) by (simp add: m0 access_ok_def tag_ok_def)
  have "\<exists>i<f. rnd_seq m0 (rnd_pos m0 + i) AND 0xf \<noteq> 0"
    using assms(4) by (auto simp: m0 fair_rnd_def)
  then obtain s n where s: "pick_sec_tag f m0 = Inr (s, m0\<lparr>rnd_pos := n\<rparr>)" "0 < unat s" "unat s < 16"
    using pick_sec_tag_returns by blast
  let ?m1 = "m0\<lparr>rnd_pos := n, ram := put32 (ram m0) (phys ?c + 4) s\<rparr>"
  have st: "store32 (?c + 4) s (m0\<lparr>rnd_pos := n\<rparr>) = Inr ((), ?m1)"
    using field4(2) [OF ok] by simp
  have ok1: "access_ok ?m1 ?c 16" using ok by simp
  have "\<exists>i<f. rnd_seq ?m1 (rnd_pos ?m1 + i) AND 0xf \<noteq> 0 \<and> rnd_seq ?m1 (rnd_pos ?m1 + i) AND 0xf \<noteq> s"
    using assms(4) by (simp add: m0 fair_rnd_def)
  from pick_tag_gen_returns [OF this ok1] obtain g n' where
    g: "pick_tag_gen f ?c s ?m1 = Inr ((), ?m1\<lparr>rnd_pos := n', ram := put32 (ram ?m1) (phys ?c) g\<rparr>)"
      "0 < unat g" "unat g < 16" "g \<noteq> s" by blast
  let ?m2 = "?m1\<lparr>rnd_pos := n', ram := put32 (ram ?m1) (phys ?c) g, csr_tags := 1,
      tagm := (tagm m)(granule ?c := unat s)\<rparr>"
  have c: "phys ?c + 16 < 268435456" using assms(1) by (simp add: access_ok_def)
  have r: "ossec_init f m = Inr (1, ?m2)"
    using ms s st g by (simp add: ossec_init_def csrw_tags_def st_insn_def m0)
  have "sec_ok ?m2"
    using assms(2,3) c s g by (simp add: sec_ok_def m0 get32_put32_other)
  moreover have "ram ?m2 a = ram m a" if "a \<notin> sec_area m" for a
    using that by (auto simp: m0 sec_area_def put32_other wr_def)
  ultimately show ?thesis
    using r by (intro exI [of _ ?m2]) (simp add: m0)
qed

section \<open>Correctness of the protection layer\<close>

text \<open>
  The start of the security layer returns 1 with checking on and distinct non-zero tags for the secured
  context and the first region, if the random number register is not stuck.\<close>

theorem ossec_init_establishes:
  assumes "access_ok m (sec_cntx m) 16" and "16 dvd phys (sec_cntx m)"
    and "\<forall>g. tagm m g < 16" and "fair_rnd (rnd_seq m) f"
  shows "\<exists>m'. ossec_init f m = Inr (1, m') \<and> sec_ok m'"
  using ossec_init_ok [OF assms] by blast

text \<open>A generated tag is a non-zero 4-bit tag different from the secured one, and the next one differs from it.\<close>

theorem generate_tag_correct:
  assumes "sec_ok m"
  shows "\<exists>t m'. ossec_generate_tag m = Inr (t, m') \<and> sec_ok m'
    \<and> 0 < unat t \<and> unat t < 16 \<and> t \<noteq> ctx_sec_tag m
    \<and> ctx_tag_gen m' \<noteq> t \<and> ctx_sec_tag m' = ctx_sec_tag m"
  using generate_tag_ok [OF assms] assms sec_ok_ctx_next [OF assms]
    next_tag_props(2,4) [where s = "ctx_sec_tag m" and g = "ctx_tag_gen m"]
  by (auto simp: sec_ok_def get32_put32_other)

text \<open>
  C3. Protecting a region returns a pointer to the same address through which all of it can be accessed; only the granules of
  the region get the new tag, memory changes only in the 16 bytes of the layer's own context, and every byte or word access to
  the region through a pointer with another tag panics.\<close>

theorem protect_ptr_correct:
  assumes "sec_ok m" and "16 dvd unat p" and "phys p + unat sz + 16 \<le> 268435456"
    and "sec_area m \<inter> {phys p ..< phys p + 16 * granules (unat sz)} = {}"
  shows "\<exists>q m'. ossec_protect_ptr p sz m = Inr (q, m') \<and> phys q = phys p \<and> sec_ok m'
    \<and> access_ok m' q (unat sz)
    \<and> (\<forall>a. a \<notin> sec_area m \<longrightarrow> ram m' a = ram m a)
    \<and> (\<forall>g. tagm m' g = (if granule p \<le> g \<and> g < granule p + granules (unat sz) then ptr_tag q else tagm m g))
    \<and> (\<forall>r. granule p \<le> granule r \<and> granule r < granule p + granules (unat sz) \<and> ptr_tag r \<noteq> ptr_tag q \<longrightarrow> panics m' r)"
proof -
  obtain q m' where e: "ossec_protect_ptr p sz m = Inr (q, m')" "phys q = phys p" "sec_ok m'"
    "access_ok m' q (unat sz)" "\<forall>a. a \<notin> sec_area m \<longrightarrow> ram m' a = ram m a"
    using sec.protect_law [OF assms(1) _ assms(2-4)] by auto
  have t: "tagm m' g = (if granule p \<le> g \<and> g < granule p + granules (unat sz) then ptr_tag q else tagm m g)" for g
    using sec.protect_tag [OF assms(1-3) e(1)] by (simp add: not_le not_less)
  have "panics m' r" if "granule p \<le> granule r" "granule r < granule p + granules (unat sz)" "ptr_tag r \<noteq> ptr_tag q" for r
    using sec.other_tag_panics [OF e(3), of r] t [of "granule r"] that by simp
  with e t show ?thesis by blast
qed

text \<open>A pointer that is not 16-byte aligned is refused: the program exits with status 43.\<close>

theorem protect_ptr_rejects_misaligned:
  assumes "sec_ok m" and "\<not> 16 dvd unat p"
  shows "ossec_protect_ptr p sz m = Inl (Exit_status 43)"
  by (rule protect_ptr_misaligned [OF assms])


text \<open>A machine in which the layer is set up: the context is at 0x100 with tag 5, the next tag is 6.\<close>

definition demo_sec :: machine where
  "demo_sec = \<lparr>ram = put32 (put32 (\<lambda>_. 0) 256 6) 260 5, tagm = (\<lambda>_. 0)(16 := 5), csr_tags = 1, csr_mstatus = 8,
     csr_mie = 0, csr_mip = 0, rnd_seq = (\<lambda>n. if even n then 1 else 2), rnd_pos = 0, sec_cntx = 0x100,
     mem_info = 0x200, console = []\<rparr>"

lemma demo_sec_ok: "sec_ok demo_sec" "ctx_sec_tag demo_sec = 5" "ctx_tag_gen demo_sec = 6"
proof -
  show s: "ctx_sec_tag demo_sec = 5" "ctx_tag_gen demo_sec = 6"
    by (simp_all add: demo_sec_def phys_def get32_put32_other)
  show "sec_ok demo_sec" unfolding sec_ok_def s by (simp add: demo_sec_def phys_def granule_def)
qed

theorem generate_tag_correct_witness:
  "\<exists>t m'. ossec_generate_tag demo_sec = Inr (t, m') \<and> t \<noteq> 5 \<and> 0 < unat t \<and> ctx_tag_gen m' \<noteq> t"
  using generate_tag_correct [OF demo_sec_ok(1)] demo_sec_ok by auto

theorem protect_ptr_correct_witness:
  "\<exists>q m'. ossec_protect_ptr 0x400 40 demo_sec = Inr (q, m') \<and> phys q = 0x400 \<and> access_ok m' q 40"
proof -
  have "phys 0x400 = 1024" "sec_area demo_sec = {256 ..< 272}" by (simp_all add: phys_def sec_area_def demo_sec_def)
  with protect_ptr_correct [OF demo_sec_ok(1), of "0x400" 40] show ?thesis by (auto simp: granules_def)
qed

theorem protect_ptr_rejects_misaligned_witness: "ossec_protect_ptr 0x404 16 demo_sec = Inl (Exit_status 43)"
  by (rule protect_ptr_rejects_misaligned [OF demo_sec_ok(1)]) (simp add: dvd_eq_mod_eq_0)

lemma fair_rnd_demo: "fair_rnd (\<lambda>n. if even n then 1 else 2) 2"
  unfolding fair_rnd_def
proof (intro allI)
  fix n :: nat and s :: u32
  define i where i: "i = (if even n = (s \<noteq> 1) then 0 else 1 :: nat)"
  have "even (n + i) \<longleftrightarrow> s \<noteq> 1" "i < 2" by (auto simp: i)
  then show "\<exists>i<2. (if even (n + i) then 1 else 2) AND 0xf \<noteq> (0 :: u32) \<and> (if even (n + i) then 1 else 2) AND 0xf \<noteq> s"
    by (intro exI [of _ i]) auto
qed

theorem ossec_init_establishes_witness:
  "\<exists>m'. ossec_init 2 (demo_sec\<lparr>csr_tags := 0\<rparr>) = Inr (1, m') \<and> sec_ok m'"
proof (rule ossec_init_establishes)
  show "fair_rnd (rnd_seq (demo_sec\<lparr>csr_tags := 0\<rparr>)) 2" using fair_rnd_demo by (simp add: demo_sec_def)
qed (simp_all add: access_ok_def tag_ok_def demo_sec_def phys_def)

end
