(* ===== verification/LibcMalloc.thy ===== *)
theory LibcMalloc
  imports LibcSecurity
begin

text \<open>
  The heap of the libc, \<^verbatim>\<open>internals/malloc.c\<close>: \<^verbatim>\<open>malloc_init\<close>,
  \<^verbatim>\<open>find_free_block\<close>, \<^verbatim>\<open>malloc\<close> and \<^verbatim>\<open>free\<close>, and
  \<^verbatim>\<open>_os_is_serving_isr\<close> of \<^verbatim>\<open>internals/os.c\<close>, which \<^verbatim>\<open>malloc\<close>
  calls. All state is in memory: the header of a block has \<^verbatim>\<open>alloc_size\<close>,
  \<^verbatim>\<open>next_ptr\<close>, \<^verbatim>\<open>is_free\<close>, \<^verbatim>\<open>info\<close> at offsets 0, 4, 8, 12, and
  \<^verbatim>\<open>mem_info\<close> has \<^verbatim>\<open>arena_start\<close>, \<^verbatim>\<open>arena_end\<close>, \<^verbatim>\<open>head\<close>,
  \<^verbatim>\<open>tail\<close> likewise. The functions take the linked protection layer
  \<open>so\<close> as an argument; the lemmas are proved once in the locale
  \<open>heap_security\<close> and used for both layers.
\<close>

section \<open>The functions\<close>

record init_ctx =
  memtag_en :: int
  heap_start :: u32
  heap_end :: u32

definition os_is_serving_isr :: "bool mach" where
  "os_is_serving_isr = sbind (sget csr_mstatus) (\<lambda>ms. sret (ms AND 8 = 0))"

definition alignto :: "u32 \<Rightarrow> nat \<Rightarrow> u32" where
  "alignto p bits = push_bit bits (drop_bit bits p)"

definition aligntonext :: "u32 \<Rightarrow> nat \<Rightarrow> u32" where
  "aligntonext p bits = alignto (p + push_bit bits 1 - 1) bits"

definition MAGIC :: u32 where
  "MAGIC = 0xff1133aa"

definition malloc_init :: "sec_ops \<Rightarrow> init_ctx \<Rightarrow> bool mach" where
  "malloc_init so ctx =
     sbind (if memtag_en ctx \<noteq> 0 then printf_msg ''LIBC: MEMORY TAGGING is enabled''
            else printf_msg ''LIBC: MEMORY TAGGING is disabled'') (\<lambda>_.
     sbind (printf_msg ''LIBC: heap @[%p, %p]'') (\<lambda>_.
     sbind (sget mem_info) (\<lambda>mi.
     sbind (so_protect so mi 16) (\<lambda>s_info_ptr.
     sbind (memset s_info_ptr 0 16) (\<lambda>_.
     sbind (store32 s_info_ptr (heap_start ctx)) (\<lambda>_.
     sbind (store32 (s_info_ptr + 4) (heap_end ctx)) (\<lambda>_.
     sbind (so_protect so (heap_start ctx) 16) (\<lambda>p.
     sbind (store32 p 0) (\<lambda>_.
     sbind (store32 (p + 4) 0) (\<lambda>_.
     sbind (store32 (p + 8) 0) (\<lambda>_.
     sbind (store32 (p + 12) MAGIC) (\<lambda>_.
     sbind (store32 (s_info_ptr + 8) p) (\<lambda>_.
     sbind (store32 (s_info_ptr + 12) p) (\<lambda>_. sret True))))))))))))))"

definition find_free_block :: "sec_ops \<Rightarrow> u32 \<Rightarrow> u32 mach" where
  "find_free_block so sz =
     sbind (sget mem_info) (\<lambda>mi.
     sbind (so_secure so mi) (\<lambda>s_info_ptr.
     sbind (load32 (s_info_ptr + 12)) (\<lambda>header.
     sbind (load32 (header + 8)) (\<lambda>is_free. if is_free \<noteq> 0
       then sbind (load32 header) (\<lambda>alloc_size. sret (if sz \<le> alloc_size then header else 0))
       else sret 0))))"

text \<open>The part of \<^verbatim>\<open>malloc\<close> after the search for a free block.\<close>

definition malloc_new :: "sec_ops \<Rightarrow> u32 \<Rightarrow> u32 mach" where
  "malloc_new so sz =
     sbind (sget mem_info) (\<lambda>mi.
     sbind (so_secure so mi) (\<lambda>s_info_ptr.
     sbind (load32 (s_info_ptr + 12)) (\<lambda>tail.
     let raw_ptr = so_essence so tail in
     sbind (load32 (s_info_ptr + 12)) (\<lambda>tail.
     sbind (load32 tail) (\<lambda>tail_size.
     let next_location = raw_ptr + tail_size + 16;
         sz_allocation = next_location + sz + 16 in
     sbind (load32 (s_info_ptr + 4)) (\<lambda>arena_end.
     if sz_allocation > arena_end
     then sbind (printf_msg ''LIBC: WARNING: OOM is detected'') (\<lambda>_. sret 0)
     else
     sbind (so_protect so next_location 16) (\<lambda>free_header.
     sbind (store32 free_header sz) (\<lambda>_.
     sbind (store32 (free_header + 8) 0) (\<lambda>_.
     sbind (store32 (free_header + 4) 0) (\<lambda>_.
     sbind (store32 (free_header + 12) MAGIC) (\<lambda>_.
     sbind (load32 (s_info_ptr + 12)) (\<lambda>tail.
     sbind (store32 (tail + 4) free_header) (\<lambda>_.
     sbind (store32 (s_info_ptr + 12) free_header) (\<lambda>_.
     so_protect so (next_location + 16) sz))))))))))))))"

definition malloc :: "sec_ops \<Rightarrow> u32 \<Rightarrow> u32 mach" where
  "malloc so sz =
     (if sz = 0 then sret 0 else
      sbind os_is_serving_isr (\<lambda>isr.
      if isr then sbind (printf_msg ''LIBC: <WARNING> malloc should not be called from a signal!'')
                    (\<lambda>_. sret 0)
      else let sz = aligntonext sz 4 in
      sbind (find_free_block so sz) (\<lambda>free_header.
      if free_header \<noteq> 0
      then sbind (store32 (free_header + 8) 0) (\<lambda>_. so_secure so (free_header + 16))
      else malloc_new so sz)))"

definition free :: "u32 \<Rightarrow> unit mach" where
  "free p = (if p = 0 then sret () else sret ())"

section \<open>Rounding up\<close>

lemma unat_alignto: "unat (alignto p 4) = 16 * (unat p div 16)"
  by (simp add: alignto_def unat_align16)

lemma granules_up: "(n + 15) div 16 = granules n"
proof -
  have n: "n + 15 = 16 * (n div 16) + (n mod 16 + 15)" by simp
  have "(n mod 16 + 15) div 16 = (if n mod 16 \<noteq> 0 then 1 else 0)"
  proof (cases "n mod 16 = 0")
    case False
    then have "n mod 16 + 15 = 16 + (n mod 16 - 1)" by simp
    moreover have "n mod 16 - 1 < 16" using mod_less_divisor [of 16 n] by linarith
    ultimately show ?thesis using False by (simp only: div_add_self1) simp
  qed simp
  moreover have "(n + 15) div 16 = n div 16 + (n mod 16 + 15) div 16"
    by (subst n) (rule div_mult_self4, simp)
  ultimately show ?thesis by (simp only: granules_def)
qed

lemma aligntonext_4: "aligntonext p 4 = alignto (p + 15) 4"
proof -
  have "p + push_bit 4 1 - 1 = p + 15" by (simp add: add.commute)
  then show ?thesis by (simp only: aligntonext_def)
qed

lemma aligntonext_exact:
  assumes "unat p \<le> 0xfffffff0"
  shows "unat (aligntonext p 4) = 16 * granules (unat p)"
proof -
  have "unat (p + 15) = unat p + 15" using assms by (simp add: unat_u32_add)
  then show ?thesis
    by (simp add: aligntonext_4 unat_alignto granules_up)
qed

lemma aligntonext_wraps:
  assumes "0xfffffff0 < unat p"
  shows "aligntonext p 4 = 0"
proof -
  have "unat (p + 15) = (unat p + 15) mod 4294967296"
    by (simp add: unat_word_ariths)
  also have "\<dots> = unat p + 15 - 4294967296"
  proof -
    have "unat p + 15 - 4294967296 < 4294967296" using unat_u32_less [of p] by linarith
    then have "(unat p + 15 - 4294967296) mod 4294967296 = unat p + 15 - 4294967296"
      by (rule mod_less)
    moreover have "4294967296 \<le> unat p + 15" using assms by linarith
    ultimately show ?thesis by (simp only: le_mod_geq)
  qed
  finally have "unat (p + 15) < 16"
    using unat_u32_less [of p] by linarith
  then have "unat (p + 15) div 16 = 0" by simp
  then show ?thesis
    by (simp add: aligntonext_4 word_unat_eq_iff unat_alignto)
qed

section \<open>The shape of the heap\<close>

text \<open>
  The heap is a sequence of blocks of sizes \<open>ss\<close> laid out from address \<open>h\<close> on,
  each a header of 16 bytes followed by its payload; \<open>hend h ss\<close> is the address
  after the last one.
\<close>

fun hend :: "nat \<Rightarrow> nat list \<Rightarrow> nat" where
  "hend h [] = h"
| "hend h (s # ss) = hend (h + 16 + s) ss"

definition hdr_ok :: "(nat \<Rightarrow> u8) \<Rightarrow> nat \<Rightarrow> nat \<Rightarrow> bool" where
  "hdr_ok r h s \<longleftrightarrow> get32 r h = of_nat s \<and> get32 r (h + 8) = 0 \<and> get32 r (h + 12) = MAGIC"

text \<open>Blocks that are all followed by another: \<^verbatim>\<open>next_ptr\<close> leads to the next header.\<close>

fun blocks :: "(nat \<Rightarrow> u8) \<Rightarrow> nat \<Rightarrow> nat list \<Rightarrow> bool" where
  "blocks r h [] = True"
| "blocks r h (s # ss) \<longleftrightarrow> 16 dvd s \<and> hdr_ok r h s \<and> phys (get32 r (h + 4)) = h + 16 + s
     \<and> blocks r (h + 16 + s) ss"

fun hdrs :: "nat \<Rightarrow> nat list \<Rightarrow> nat set" where
  "hdrs h [] = {}"
| "hdrs h (s # ss) = {h ..< h + 16} \<union> hdrs (h + 16 + s) ss"

lemma hend_append [simp]: "hend h (ss @ ts) = hend (hend h ss) ts"
  by (induction ss arbitrary: h) simp_all

lemma hend_ge: "h \<le> hend h ss"
proof (induction ss arbitrary: h)
  case (Cons s ss)
  from Cons [of "h + 16 + s"] show ?case by simp
qed simp

lemma hend_dvd: "16 dvd h \<Longrightarrow> \<forall>s\<in>set ss. 16 dvd s \<Longrightarrow> 16 dvd hend h ss"
  by (induction ss arbitrary: h) simp_all

lemma hdrs_append [simp]: "hdrs h (ss @ ts) = hdrs h ss \<union> hdrs (hend h ss) ts"
  by (induction ss arbitrary: h) auto

lemma hdrs_bounds: "x \<in> hdrs h ss \<Longrightarrow> h \<le> x \<and> x < hend h ss"
proof (induction ss arbitrary: h)
  case (Cons s ss)
  with hend_ge [of "h + 16 + s" ss] show ?case by fastforce
qed simp

lemma blocks_append [simp]: "blocks r h (ss @ ts) \<longleftrightarrow> blocks r h ss \<and> blocks r (hend h ss) ts"
  by (induction ss arbitrary: h) auto

lemma blocks_dvd: "blocks r h ss \<Longrightarrow> \<forall>s\<in>set ss. 16 dvd s"
  by (induction ss arbitrary: h) auto

lemma hdr_ok_cong: "(\<And>x. h \<le> x \<Longrightarrow> x < h + 16 \<Longrightarrow> r' x = r x) \<Longrightarrow> hdr_ok r' h s = hdr_ok r h s"
  unfolding hdr_ok_def
  using get32_cong [of r' h r] get32_cong [of r' "h + 8" r] get32_cong [of r' "h + 12" r] by simp

lemma blocks_cong: "(\<And>x. x \<in> hdrs h ss \<Longrightarrow> r' x = r x) \<Longrightarrow> blocks r' h ss = blocks r h ss"
proof (induction ss arbitrary: h)
  case (Cons s ss)
  have "get32 r' (h + 4) = get32 r (h + 4)"
    by (rule get32_cong) (simp add: Cons.prems)
  moreover have "hdr_ok r' h s = hdr_ok r h s"
    by (rule hdr_ok_cong) (simp add: Cons.prems)
  ultimately show ?case using Cons by simp
qed simp

text \<open>
  The heap invariant: arena \<open>[a, e)\<close>, blocks of sizes \<open>ps\<close> and a last block of
  size \<open>s\<close>, to which \<^verbatim>\<open>tail\<close> points with a usable pointer. \<open>A\<close> are the
  addresses of the protection layer, \<open>good\<close> the pointers it accepts.
\<close>

definition heap_inv ::
  "(u32 \<Rightarrow> bool) \<Rightarrow> nat set \<Rightarrow> machine \<Rightarrow> nat \<Rightarrow> nat \<Rightarrow> nat list \<Rightarrow> nat \<Rightarrow> bool" where
  "heap_inv good A m a e ps s \<longleftrightarrow>
     (let r = ram m; mi = unat (mem_info m); t = get32 r (mi + 12) in
      mi + 16 < 268435456 \<and> 16 dvd mi \<and> (mi + 16 \<le> a \<or> e \<le> mi)
      \<and> 16 dvd a \<and> e + 16 \<le> 268435456 \<and> hend a ps + 16 + s \<le> e
      \<and> A \<inter> {a ..< e} = {} \<and> A \<inter> {mi ..< mi + 16} = {}
      \<and> get32 r mi = of_nat a \<and> get32 r (mi + 4) = of_nat e
      \<and> phys (get32 r (mi + 8)) = a
      \<and> good t \<and> phys t = hend a ps \<and> tag_ok m t
      \<and> blocks r a ps \<and> 16 dvd s \<and> hdr_ok r (hend a ps) s \<and> get32 r (hend a ps + 4) = 0)"

text \<open>Writes of the program to the payloads keep the invariant.\<close>

lemma heap_inv_user_write:
  assumes "heap_inv good A m a e ps s"
    and "\<And>x. x \<in> hdrs a (ps @ [s]) \<Longrightarrow> r x = ram m x"
    and "\<And>x. unat (mem_info m) \<le> x \<Longrightarrow> x < unat (mem_info m) + 16 \<Longrightarrow> r x = ram m x"
  shows "heap_inv good A (m\<lparr>ram := r\<rparr>) a e ps s"
proof -
  let ?mi = "unat (mem_info m)"
  have f: "get32 r (?mi + d) = get32 (ram m) (?mi + d)" if "d + 4 \<le> 16" for d
    using that by (intro get32_cong) (simp add: assms(3))
  have b: "blocks r a ps = blocks (ram m) a ps"
    by (rule blocks_cong) (simp add: assms(2))
  have h: "hdr_ok r (hend a ps) s = hdr_ok (ram m) (hend a ps) s"
    by (rule hdr_ok_cong) (simp add: assms(2))
  have n: "get32 r (hend a ps + 4) = get32 (ram m) (hend a ps + 4)"
    by (rule get32_cong) (simp add: assms(2))
  show ?thesis
    using assms(1) f [of 0] f [of 4] f [of 8] f [of 12] b h n
    by (simp add: heap_inv_def Let_def)
qed

section \<open>Allocation under the contract of the protection layer\<close>

lemma mem_info_phys: "unat p + 16 < 268435456 \<Longrightarrow> phys p = unat p"
  by (simp add: phys_def)

lemma access_ok_retagged:
  assumes "access_ok m p 16" and "16 dvd phys p" and "tagm m' (granule p) = tagm m (granule p)"
    and "csr_tags m' = csr_tags m"
  shows "access_ok m' p 16"
proof (rule granule_access)
  have "tag_ok m p" using assms(1) by (auto simp: access_ok_def dest: spec [of _ 0])
  then show "tag_ok m' p" using assms(3,4) by (simp add: tag_ok_def)
qed (use assms in \<open>simp_all add: access_ok_def\<close>)

lemma unat_add_16: "unat x + unat y + 16 < 4294967296 \<Longrightarrow> unat (x + y + 16 :: u32) = unat x + unat y + 16"
  by (simp add: unat_u32_add)

text \<open>
  The writes of \<^verbatim>\<open>malloc\<close>: the new header at \<open>h\<close>, the \<^verbatim>\<open>next_ptr\<close> of the
  block at \<open>t\<close> and the \<^verbatim>\<open>tail\<close> field of \<^verbatim>\<open>mem_info\<close> at \<open>mi\<close>.
\<close>

definition heap_link :: "(nat \<Rightarrow> u8) \<Rightarrow> nat \<Rightarrow> nat \<Rightarrow> nat \<Rightarrow> u32 \<Rightarrow> u32 \<Rightarrow> nat \<Rightarrow> u8" where
  "heap_link r mi t h sz fh =
     put32 (put32 (put32 (put32 (put32 (put32 r h sz) (h + 8) 0) (h + 4) 0) (h + 12) MAGIC)
       (t + 4) fh) (mi + 12) fh"

lemma heap_link_other:
  assumes "x \<notin> {h ..< h + 16}" "x \<notin> {t + 4 ..< t + 8}" "x \<notin> {mi + 12 ..< mi + 16}"
  shows "heap_link r mi t h sz fh x = r x"
  using assms unfolding heap_link_def by (auto simp: put32_other)

lemma heap_link_fields:
  assumes "mi + 16 \<le> h \<or> h + 16 \<le> mi" "mi + 16 \<le> t \<or> t + 16 \<le> mi" "t + 16 \<le> h"
  shows "get32 (heap_link r mi t h sz fh) h = sz" "get32 (heap_link r mi t h sz fh) (h + 4) = 0"
    "get32 (heap_link r mi t h sz fh) (h + 8) = 0" "get32 (heap_link r mi t h sz fh) (h + 12) = MAGIC"
    "get32 (heap_link r mi t h sz fh) (t + 4) = fh" "get32 (heap_link r mi t h sz fh) (mi + 12) = fh"
  using assms unfolding heap_link_def by (auto simp: get32_put32_other)

lemma heap_link_old:
  assumes "mi + 16 \<le> h \<or> h + 16 \<le> mi" "mi + 16 \<le> t \<or> t + 16 \<le> mi" "t + 16 \<le> h"
  shows "get32 (heap_link r mi t h sz fh) mi = get32 r mi"
    "get32 (heap_link r mi t h sz fh) (mi + 4) = get32 r (mi + 4)"
    "get32 (heap_link r mi t h sz fh) (mi + 8) = get32 r (mi + 8)"
    "hdr_ok (heap_link r mi t h sz fh) t s = hdr_ok r t s"
  using assms unfolding heap_link_def hdr_ok_def by (auto simp: get32_put32_other)

text \<open>A memory with these writes, and nothing else changed outside \<open>A\<close>, is a heap with one more block.\<close>

lemma heap_inv_link:
  assumes inv: "heap_inv good A m a e ps s" and n: "16 dvd unat sz"
    and fits: "hend a ps + 16 + s + 16 + unat sz \<le> e"
    and fh: "good fh" "phys fh = hend a ps + 16 + s" "tag_ok m' fh" and mi': "mem_info m' = mem_info m"
    and r: "\<And>x. x \<notin> A \<Longrightarrow> ram m' x = heap_link (ram m) (unat (mem_info m)) (hend a ps) (hend a ps + 16 + s) sz fh x"
  shows "heap_inv good A m' a e (ps @ [s]) (unat sz)"
proof -
  define mi t h where mi: "mi = unat (mem_info m)" and t: "t = hend a ps"
    and h: "h = hend a ps + 16 + s"
  define R where R: "R = heap_link (ram m) mi t h sz fh"
  have I: "mi + 16 \<le> a \<or> e \<le> mi" "A \<inter> {a ..< e} = {}" "A \<inter> {mi ..< mi + 16} = {}"
    and J: "mi + 16 < 268435456 \<and> 16 dvd mi \<and> 16 dvd a \<and> e + 16 \<le> 268435456"
      "get32 (ram m) mi = of_nat a" "get32 (ram m) (mi + 4) = of_nat e"
      "phys (get32 (ram m) (mi + 8)) = a" "blocks (ram m) a ps" "16 dvd s" "hdr_ok (ram m) t s"
    using inv by (simp_all add: heap_inv_def Let_def mi t)
  have ge: "a \<le> t" unfolding t by (rule hend_ge)
  have sep: "mi + 16 \<le> h \<or> h + 16 \<le> mi" "mi + 16 \<le> t \<or> t + 16 \<le> mi" "t + 16 \<le> h"
    using I(1) ge fits by (auto simp: t h)
  have ram': "ram m' x = R x" if "a \<le> x \<and> x < e \<or> mi \<le> x \<and> x < mi + 16" for x
    using that I(2,3) unfolding R mi t h by (intro r) auto
  have fld: "get32 (ram m') y = get32 R y" if "a \<le> y \<and> y + 4 \<le> e \<or> mi \<le> y \<and> y + 4 \<le> mi + 16" for y
    using that by (intro get32_cong ram') auto
  have bl: "blocks (ram m') a ps = blocks (ram m) a ps"
  proof (rule blocks_cong)
    fix x assume "x \<in> hdrs a ps"
    then have x: "a \<le> x" "x < t" using hdrs_bounds t by blast+
    then have "ram m' x = R x" using fits by (intro ram') (simp add: t)
    also have "\<dots> = ram m x" unfolding R
      using x sep(3) I(1) fits by (intro heap_link_other) (auto simp: t)
    finally show "ram m' x = ram m x" .
  qed
  have "get32 (ram m') (t + d) = get32 R (t + d)" "get32 (ram m') (h + d) = get32 R (h + d)"
    "get32 (ram m') (mi + d) = get32 R (mi + d)" if "d \<le> 12" for d
    using that ge fits by (auto intro!: fld simp: t h)
  note f = this [of 0, simplified] this [of 4, simplified] this [of 8, simplified] this [of 12, simplified]
  note g = heap_link_fields [OF sep, of "ram m" sz fh, folded R]
    heap_link_old [OF sep, of "ram m" sz fh, folded R]
  have "blocks (ram m') a (ps @ [s])"
    using bl J f g(5,10) fh(2) t by (simp add: hdr_ok_def)
  moreover have "hdr_ok (ram m') h (unat sz)" "get32 (ram m') (h + 4) = 0"
    using f g(1-4) by (simp_all add: hdr_ok_def)
  moreover have "hend a (ps @ [s]) = h" by (simp add: h)
  moreover have "h + 16 + unat sz \<le> e" "phys fh = h" using fits fh(2) h by simp_all
  ultimately show ?thesis
    unfolding heap_inv_def Let_def mi' mi [symmetric] using I J f g fh(1,3) n by simp
qed

context heap_security
begin

lemma heap_pointers:
  assumes "ok m" and "heap_inv good (area m) m a e ps s"
  obtains q where "secure (mem_info m) m = Inr (q, m)" and "phys q = unat (mem_info m)"
    and "access_ok m q 16"
    and "load32 (q + 12) m = Inr (get32 (ram m) (unat (mem_info m) + 12), m)"
    and "load32 (q + 4) m = Inr (get32 (ram m) (unat (mem_info m) + 4), m)"
    and "access_ok m (get32 (ram m) (unat (mem_info m) + 12)) 16"
proof -
  let ?mi = "mem_info m" and ?t = "get32 (ram m) (unat (mem_info m) + 12)"
  have b: "unat ?mi + 16 < 268435456" "16 dvd unat ?mi"
    and t: "phys ?t = hend a ps" "tag_ok m ?t" "hend a ps + 16 + s \<le> e" "e + 16 \<le> 268435456"
      "16 dvd a" "blocks (ram m) a ps"
    using assms(2) by (simp_all add: heap_inv_def Let_def)
  have ph: "phys ?mi = unat ?mi" using b(1) by (rule mem_info_phys)
  have "good ?mi" using b by (intro good_untagged) simp
  from secure_law [OF assms(1) this] obtain q where
    q: "secure ?mi m = Inr (q, m)" "phys q = unat ?mi" "tag_ok m q" using ph by auto
  then have ok: "access_ok m q 16" using b by (intro granule_access) simp_all
  have "16 dvd hend a ps" using t(5,6) by (intro hend_dvd blocks_dvd)
  then have "access_ok m ?t 16" using t by (intro granule_access) simp_all
  with that [OF q(1,2) ok] ok q(2) show ?thesis
    by (simp add: field12 [where n = 16] field4 [where n = 16])
qed

text \<open>No block is ever marked free, so the search for a free block finds none.\<close>

lemma find_free_block_none:
  assumes "ok m" and "heap_inv good (area m) m a e ps s" and "so_secure so = secure"
  shows "find_free_block so sz m = Inr (0, m)"
proof -
  let ?t = "get32 (ram m) (unat (mem_info m) + 12)"
  have t: "phys ?t = hend a ps" "get32 (ram m) (hend a ps + 8) = 0"
    using assms(2) by (simp_all add: heap_inv_def Let_def hdr_ok_def)
  obtain q where "secure (mem_info m) m = Inr (q, m)" "access_ok m ?t 16"
    "load32 (q + 12) m = Inr (?t, m)"
    using heap_pointers [OF assms(1,2)] by metis
  with t assms(3) show ?thesis
    by (simp add: find_free_block_def field8 [where n = 16])
qed

lemma next_location_eq:
  assumes "heap_inv good (area m) m a e ps s"
  shows "unat (essence (get32 (ram m) (unat (mem_info m) + 12)) + of_nat s + 16) = hend a ps + 16 + s"
proof -
  let ?t = "get32 (ram m) (unat (mem_info m) + 12)"
  have t: "good ?t" "phys ?t = hend a ps" "hend a ps + 16 + s \<le> e" "e + 16 \<le> 268435456"
    using assms by (simp_all add: heap_inv_def Let_def)
  have u: "unat (of_nat s :: u32) = s" using t(3,4) by (simp add: unat_of_nat)
  have "unat (essence ?t + of_nat s) = hend a ps + s"
    using essence_good [OF t(1)] t(2-4) u by (simp add: unat_u32_add)
  with t show ?thesis by (simp add: unat_u32_add)
qed

text \<open>The request does not fit and its size does not wrap around: null, nothing allocated.\<close>

lemma malloc_new_oom:
  assumes "ok m" and "heap_inv good (area m) m a e ps s"
    and "so_secure so = secure" "so_essence so = essence"
    and "e < hend a ps + 16 + s + 16 + unat sz" and "hend a ps + 16 + s + 16 + unat sz < 4294967296"
  shows "malloc_new so sz m = Inr (0, m\<lparr>console := console m @ [''LIBC: WARNING: OOM is detected'']\<rparr>)"
proof -
  let ?t = "get32 (ram m) (unat (mem_info m) + 12)"
  let ?next = "essence ?t + of_nat s + 16"
  have t: "phys ?t = hend a ps" "get32 (ram m) (hend a ps) = of_nat s"
    "get32 (ram m) (unat (mem_info m) + 4) = of_nat e" "e + 16 \<le> 268435456"
    using assms(2) by (simp_all add: heap_inv_def Let_def hdr_ok_def)
  obtain q where q: "secure (mem_info m) m = Inr (q, m)" "access_ok m ?t 16"
    "load32 (q + 12) m = Inr (?t, m)" "load32 (q + 4) m = Inr (of_nat e, m)"
    using heap_pointers [OF assms(1,2)] t(3) by metis
  have nx: "unat ?next = hend a ps + 16 + s" by (rule next_location_eq [OF assms(2)])
  have "unat (?next + sz + 16) = hend a ps + 16 + s + unat sz + 16"
    using nx assms(6) unat_add_16 [of ?next sz] by linarith
  moreover have "unat (of_nat e :: u32) = e" using t(4) by (simp add: unat_of_nat)
  ultimately have "of_nat e < ?next + sz + 16"
    using assms(5) by (simp add: word_less_nat_alt)
  with q t assms(3,4) show ?thesis
    by (simp add: malloc_new_def field0 [where n = 16] Let_def printf_msg_def)
qed

text \<open>
  A request that fits: the header is protected, the writes are done, the
  payload is protected. \<open>m1\<close> is the machine after the first of these steps.
\<close>

lemma malloc_new_steps:
  assumes "ok m" and inv: "heap_inv good (area m) m a e ps s"
    and so: "so_protect so = protect" "so_secure so = secure" "so_essence so = essence"
    and fits: "hend a ps + 16 + s + 16 + unat sz \<le> e"
  obtains nx fh m1 m3 where "unat nx = hend a ps + 16 + s" and "protect nx 16 m = Inr (fh, m1)"
    and "good fh" and "phys fh = hend a ps + 16 + s" and "access_ok m1 fh 16"
    and "ok m1" and "area m1 = area m" and "\<And>x. x \<notin> area m \<Longrightarrow> ram m1 x = ram m x"
    and "\<And>g. g \<noteq> (hend a ps + 16 + s) div 16 \<Longrightarrow> tagm m1 g = tagm m g"
    and "csr_tags m1 = csr_tags m" and "csr_mstatus m1 = csr_mstatus m" and "mem_info m1 = mem_info m"
    and "m3 = m1\<lparr>ram := heap_link (ram m1) (unat (mem_info m)) (hend a ps) (hend a ps + 16 + s) sz fh\<rparr>"
    and "malloc_new so sz m = protect (nx + 16) sz m3"
    and "ok m3" and "area m3 = area m"
proof -
  define mi t h where mi: "mi = unat (mem_info m)" and t: "t = get32 (ram m) (mi + 12)"
    and h: "h = hend a ps + 16 + s"
  define nx where nx: "nx = essence t + of_nat s + 16"
  have I: "mi + 16 < 268435456" "16 dvd mi" "mi + 16 \<le> a \<or> e \<le> mi" "16 dvd a"
    "e + 16 \<le> 268435456" "area m \<inter> {a ..< e} = {}" "area m \<inter> {mi ..< mi + 16} = {}"
    "get32 (ram m) (mi + 4) = of_nat e" "phys t = hend a ps" "blocks (ram m) a ps" "16 dvd s"
    "hdr_ok (ram m) (hend a ps) s"
    using inv by (simp_all add: heap_inv_def Let_def mi t)
  have ge: "a \<le> hend a ps" by (rule hend_ge)
  have al: "16 dvd hend a ps" using I(4,10) by (intro hend_dvd blocks_dvd)
  then have alh: "16 dvd h" using I(11) by (simp add: h)
  have unx: "unat nx = h" using next_location_eq [OF inv] by (simp add: nx t h mi)
  have pnx: "phys nx = h" using unx fits I(5) h by (simp add: phys_def)
  have gnx: "good nx" using unx fits I(5) h by (intro good_untagged) simp
  obtain q1 where q1: "secure (mem_info m) m = Inr (q1, m)" "phys q1 = mi" "access_ok m q1 16"
    "load32 (q1 + 12) m = Inr (t, m)" "load32 (q1 + 4) m = Inr (of_nat e, m)" "access_ok m t 16"
    using heap_pointers [OF assms(1) inv] I(8) unfolding mi t by metis
  have g16: "granules 16 = 1" by (simp add: granules_def)
  have d1: "area m \<inter> {phys nx ..< phys nx + 16 * granules (unat (16 :: u32))} = {}"
    using I(6) ge fits by (auto simp: pnx g16 h)
  obtain fh m1 where m1: "protect nx 16 m = Inr (fh, m1)" "good fh" "phys fh = h" "access_ok m1 fh 16"
    "ok m1" "area m1 = area m" "\<forall>x. x \<notin> area m \<longrightarrow> ram m1 x = ram m x"
    "\<forall>g. g < granule nx \<or> granule nx + 1 \<le> g \<longrightarrow> tagm m1 g = tagm m g"
    "csr_tags m1 = csr_tags m" "csr_mstatus m1 = csr_mstatus m" "mem_info m1 = mem_info m"
    using protect_law [OF assms(1) gnx _ _ d1] alh unx pnx fits I(5) by (auto simp: g16 h)
  have gr: "granule nx = h div 16" "granule q1 = mi div 16" "granule t = hend a ps div 16"
    by (simp_all add: granule_def pnx q1(2) I(9))
  have "mi div 16 < h div 16 \<or> h div 16 + 1 \<le> mi div 16" "hend a ps div 16 < h div 16"
    using I(2,3) al alh ge fits h by (elim dvdE, auto)+
  then have ok1: "access_ok m1 q1 16" "access_ok m1 t 16"
    using q1(2,3,6) m1(8,9) gr I(2,9) al by (auto intro!: access_ok_retagged [of m])
  have sep: "mi + 16 \<le> h \<or> h + 16 \<le> mi" using I(3) ge fits h by auto
  have "get32 (put32 (put32 (put32 (put32 (ram m1) h sz) (h + 8) 0) (h + 4) 0) (h + 12) MAGIC) (mi + 12)
      = get32 (ram m1) (mi + 12)"
    using sep by (auto simp: get32_put32_other)
  also have "\<dots> = t" unfolding t using m1(7) I(7) by (intro get32_cong) auto
  finally have tl: "get32 (put32 (put32 (put32 (put32 (ram m1) h sz) (h + 8) 0) (h + 4) 0) (h + 12) MAGIC)
      (mi + 12) = t" .
  define m3 where m3: "m3 = m1\<lparr>ram := heap_link (ram m1) mi (hend a ps) h sz fh\<rparr>"
  have "unat (nx + sz + 16) = h + unat sz + 16"
    using unat_add_16 [of nx sz] unx fits h I(5) by linarith
  then have "\<not> of_nat e < nx + sz + 16"
    using fits h I(5) by (simp add: word_less_nat_alt unat_of_nat)
  moreover have "load32 t m = Inr (of_nat s, m)"
    using I(9,12) field0(1) [OF q1(6)] by (simp add: hdr_ok_def)
  ultimately have run: "malloc_new so sz m = protect (nx + 16) sz m3"
    using q1 m1(1,3,4) ok1 so tl I(9)
    by (simp add: malloc_new_def Let_def nx m3 heap_link_def fields [where n = 16])
  have "ok m3" "area m3 = area m"
    unfolding m3 using I(6,7) ge fits h m1(6)
    by (auto simp: area_ram intro!: ok_frame [OF m1(5)] heap_link_other)
  moreover have "tagm m1 g = tagm m g" if "g \<noteq> h div 16" for g
    using that m1(8) gr(1) by (cases "g < h div 16") auto
  ultimately show ?thesis
    using m1 run by (intro that [of nx fh m1 m3]) (simp_all add: unx h m3 mi)
qed

text \<open>
  The block is placed after the last one, the heap is in order, and the
  returned pointer can be used on the payload.
\<close>

lemma malloc_new_fits:
  assumes "ok m" and inv: "heap_inv good (area m) m a e ps s"
    and so: "so_protect so = protect" "so_secure so = secure" "so_essence so = essence"
    and n: "16 dvd unat sz" and fits: "hend a ps + 16 + s + 16 + unat sz \<le> e"
  shows "\<exists>q m'. malloc_new so sz m = Inr (q, m') \<and> good q \<and> phys q = hend a (ps @ [s]) + 16
    \<and> access_ok m' q (unat sz) \<and> ok m' \<and> area m' = area m
    \<and> heap_inv good (area m) m' a e (ps @ [s]) (unat sz)
    \<and> csr_tags m' = csr_tags m \<and> csr_mstatus m' = csr_mstatus m \<and> mem_info m' = mem_info m
    \<and> (\<forall>x. x \<notin> area m \<and> x \<notin> {unat (mem_info m) ..< unat (mem_info m) + 16}
          \<and> x \<notin> hdrs a (ps @ [s, unat sz]) \<longrightarrow> ram m' x = ram m x)
    \<and> (\<forall>g. 16 * g < hend a (ps @ [s]) \<or> hend a (ps @ [s]) + 16 + unat sz \<le> 16 * g
          \<longrightarrow> tagm m' g = tagm m g)"
proof -
  define h where h: "h = hend a ps + 16 + s"
  obtain nx fh m1 m3 where "unat nx = hend a ps + 16 + s" and "protect nx 16 m = Inr (fh, m1)"
    and "good fh" and "phys fh = hend a ps + 16 + s" and "access_ok m1 fh 16"
    and "ok m1" and "area m1 = area m" and "\<And>x. x \<notin> area m \<Longrightarrow> ram m1 x = ram m x"
    and "\<And>g. g \<noteq> (hend a ps + 16 + s) div 16 \<Longrightarrow> tagm m1 g = tagm m g"
    and "csr_tags m1 = csr_tags m" and "csr_mstatus m1 = csr_mstatus m" and "mem_info m1 = mem_info m"
    and "m3 = m1\<lparr>ram := heap_link (ram m1) (unat (mem_info m)) (hend a ps) (hend a ps + 16 + s) sz fh\<rparr>"
    and "malloc_new so sz m = protect (nx + 16) sz m3" and "ok m3" and "area m3 = area m"
    by (rule malloc_new_steps [OF assms(1) inv so fits]) (rule that)
  note S = this(1,3-5,8-16) [folded h]
  have I: "e + 16 \<le> 268435456" "area m \<inter> {a ..< e} = {}" "16 dvd a" "blocks (ram m) a ps" "16 dvd s"
    using inv by (simp_all add: heap_inv_def Let_def)
  have ge: "a \<le> hend a ps" by (rule hend_ge)
  have "16 dvd hend a ps" using I(3,4) by (intro hend_dvd blocks_dvd)
  then have alh: "16 dvd h" using I(5) by (simp add: h)
  have gs: "16 * granules (unat sz) = unat sz" using n by (simp add: granules_def)
  have unx: "unat (nx + 16) = h + 16" using S(1) fits h I(1) by (simp add: unat_u32_add)
  then have pnx: "phys (nx + 16) = h + 16" using fits h I(1) by (simp add: phys_def)
  have d2: "area m3 \<inter> {phys (nx + 16) ..< phys (nx + 16) + 16 * granules (unat sz)} = {}"
    using I(2) ge fits by (auto simp: pnx gs h S(13))
  have "good (nx + 16)" using unx fits I(1) h by (intro good_untagged) simp
  moreover have "16 dvd unat (nx + 16)" using alh unx by simp
  moreover have "phys (nx + 16) + unat sz + 16 \<le> 268435456" using pnx fits I(1) h by simp
  ultimately obtain q m4 where
    m4: "protect (nx + 16) sz m3 = Inr (q, m4)" "good q" "phys q = h + 16" "access_ok m4 q (unat sz)"
    "ok m4" "area m4 = area m" "\<forall>x. x \<notin> area m \<longrightarrow> ram m4 x = ram m3 x"
    "\<forall>g. g < granule (nx + 16) \<or> granule (nx + 16) + granules (unat sz) \<le> g \<longrightarrow> tagm m4 g = tagm m1 g"
    "csr_tags m4 = csr_tags m" "csr_mstatus m4 = csr_mstatus m" "mem_info m4 = mem_info m"
    using protect_law [OF S(12) _ _ _ d2] pnx S(7-9,13) by (auto simp: S(10))
  have gr: "granule (nx + 16) = h div 16 + 1" "granule fh = h div 16" by (simp_all add: granule_def pnx S(3))
  have "access_ok m4 fh 16"
    by (rule access_ok_retagged [OF S(4)]) (simp_all add: S(3,7) m4(8,9) gr alh)
  then have tg: "tag_ok m4 fh" by (auto simp: access_ok_def dest: spec [of _ 0])
  have r4: "ram m4 x = heap_link (ram m) (unat (mem_info m)) (hend a ps) h sz fh x" if "x \<notin> area m" for x
    using m4(7) S(5) [OF that] that by (simp add: S(10) heap_link_def put32_def)
  have "heap_inv good (area m) m4 a e (ps @ [s]) (unat sz)"
    using S(2,3) tg m4(11) r4 by (intro heap_inv_link [OF inv n fits]) (simp_all add: h)
  moreover have "ram m4 x = ram m x" if "x \<notin> area m" "x \<notin> {unat (mem_info m) ..< unat (mem_info m) + 16}"
    "x \<notin> hdrs a (ps @ [s, unat sz])" for x
    using that by (subst r4) (auto simp: h intro!: heap_link_other)
  moreover have "tagm m4 g = tagm m g" if "16 * g < h \<or> h + 16 + unat sz \<le> 16 * g" for g
  proof -
    have "g < h div 16 \<or> h div 16 + 1 + granules (unat sz) \<le> g"
      using that alh gs by (elim dvdE) auto
    then show ?thesis using m4(8) S(6) gr by auto
  qed
  ultimately show ?thesis
    using S(11) m4(1-6,9-11)
    by (intro exI [of _ q] exI [of _ m4]) (auto simp: h)
qed

end

section \<open>Tags of neighbouring blocks\<close>

text \<open>
  Every payload has one tag, which is not 0 and differs from the tag of its own
  header and from the tag of the header after it (for the last block: from
  the tag \<open>c\<close> that comes next).
\<close>

definition block_tags :: "(nat \<Rightarrow> nat) \<Rightarrow> nat \<Rightarrow> nat \<Rightarrow> nat \<Rightarrow> bool" where
  "block_tags tm h s nxt \<longleftrightarrow> s = 0 \<or> (let t = tm ((h + 16) div 16) in
     t \<noteq> 0 \<and> (\<forall>g\<in>{(h + 16) div 16 ..< (h + 16 + s) div 16}. tm g = t)
     \<and> tm (h div 16) \<noteq> t \<and> nxt \<noteq> t)"

fun tags_sep :: "(nat \<Rightarrow> nat) \<Rightarrow> nat \<Rightarrow> nat list \<Rightarrow> nat \<Rightarrow> bool" where
  "tags_sep tm h [] c = True"
| "tags_sep tm h (s # ss) c \<longleftrightarrow>
     block_tags tm h s (if ss = [] then c else tm ((h + 16 + s) div 16)) \<and> tags_sep tm (h + 16 + s) ss c"

lemma block_tags_cong:
  assumes "\<And>g. 16 * g < h + 16 + s \<Longrightarrow> tm' g = tm g" and "16 dvd h" and "16 dvd s"
  shows "block_tags tm' h s x = block_tags tm h s x"
proof (cases "s = 0")
  case False
  then have "tm' (h div 16) = tm (h div 16)" "tm' ((h + 16) div 16) = tm ((h + 16) div 16)"
    using assms(2,3) by (auto intro!: assms(1) elim!: dvdE)
  moreover have "tm' g = tm g" if "g \<in> {(h + 16) div 16 ..< (h + 16 + s) div 16}" for g
    using that assms(2,3) by (intro assms(1)) (auto elim!: dvdE)
  ultimately show ?thesis
    unfolding block_tags_def Let_def by (metis (no_types, lifting))
qed (simp add: block_tags_def)

lemma tags_sep_extend:
  assumes "tags_sep tm h (ps @ [s]) c" and "16 dvd h" and "\<forall>x\<in>set (ps @ [s]). 16 dvd x"
    and "\<And>g. 16 * g < hend h (ps @ [s]) \<Longrightarrow> tm' g = tm g" and "tm' (hend h (ps @ [s]) div 16) = c"
    and "tags_sep tm' (hend h (ps @ [s])) [n] d"
  shows "tags_sep tm' h (ps @ [s, n]) d"
  using assms
proof (induction ps arbitrary: h)
  case Nil
  have "block_tags tm' h s x = block_tags tm h s x" for x
    using Nil.prems(2-4) by (intro block_tags_cong) simp_all
  with Nil.prems(1,5,6) show ?case by simp
next
  case (Cons p ps)
  let ?h = "h + 16 + p"
  have e: "?h + 16 \<le> hend h ((p # ps) @ [s])" using hend_ge [of ?h ps] by simp
  note old = Cons.prems(4) [OF order.strict_trans2 [OF _ e]]
  have IH: "tags_sep tm' ?h (ps @ [s, n]) d"
    using Cons.prems by (intro Cons.IH) auto
  have "block_tags tm' h p x = block_tags tm h p x" for x
    using Cons.prems(2,3) by (intro block_tags_cong old) simp_all
  moreover have "tm' (?h div 16) = tm (?h div 16)"
    using Cons.prems(2,3) by (intro old) simp
  ultimately show ?case using Cons.prems(1) IH by simp
qed

lemma tags_sep_block:
  "tags_sep tm h (xs @ s # ys) c \<Longrightarrow> tags_sep tm (hend h xs) (s # ys) c"
  by (induction xs arbitrary: h) auto

lemma phys_sub:
  assumes "unat d \<le> phys p"
  shows "phys (p - d) = phys p - unat d" and "ptr_tag (p - d) = ptr_tag p"
proof -
  have "phys (p - d + d) = phys p" by simp
  have u: "unat (p - d) = ptr_tag p * 268435456 + (phys p - unat d)"
    using assms unat_phys_tag [of p] by (simp add: unat_u32_sub)
  have b: "phys p - unat d < 268435456" using phys_less [of p] by linarith
  show "phys (p - d) = phys p - unat d" using b by (simp add: phys_def [of "p - d"] u)
  show "ptr_tag (p - d) = ptr_tag p" using b by (simp add: ptr_tag_def [of "p - d"] u)
qed

context tagging_security
begin

lemma malloc_new_block:
  assumes "ok m" and inv: "heap_inv good (area m) m a e ps s"
    and so: "so_protect so = protect" "so_secure so = secure" "so_essence so = essence"
    and n: "16 dvd unat sz" and fits: "hend a ps + 16 + s + 16 + unat sz \<le> e"
    and run: "malloc_new so sz m = Inr (q, m')"
  defines "h \<equiv> hend a (ps @ [s])"
  shows "ptr_tag q \<noteq> 0" and "tagm m' (h div 16) = cur m" and "cur m \<noteq> ptr_tag q" and "cur m' \<noteq> ptr_tag q"
    and "h + 16 \<le> 16 * g \<Longrightarrow> 16 * g < h + 16 + unat sz \<Longrightarrow> tagm m' g = ptr_tag q"
    and "16 * g < h \<or> h + 16 + unat sz \<le> 16 * g \<Longrightarrow> tagm m' g = tagm m g"
proof -
  have h: "h = hend a ps + 16 + s" by (simp add: h_def)
  obtain nx fh m1 m3 where "unat nx = hend a ps + 16 + s" and "protect nx 16 m = Inr (fh, m1)"
    and "good fh" and "phys fh = hend a ps + 16 + s" and "access_ok m1 fh 16"
    and "ok m1" and "area m1 = area m" and "\<And>x. x \<notin> area m \<Longrightarrow> ram m1 x = ram m x"
    and "\<And>g. g \<noteq> (hend a ps + 16 + s) div 16 \<Longrightarrow> tagm m1 g = tagm m g"
    and "csr_tags m1 = csr_tags m" and "csr_mstatus m1 = csr_mstatus m" and "mem_info m1 = mem_info m"
    and "m3 = m1\<lparr>ram := heap_link (ram m1) (unat (mem_info m)) (hend a ps) (hend a ps + 16 + s) sz fh\<rparr>"
    and "malloc_new so sz m = protect (nx + 16) sz m3" and "ok m3" and "area m3 = area m"
    by (rule malloc_new_steps [OF assms(1) inv so fits]) (rule that)
  note S = this(1,2,6,7,13-16,9) [folded h]
  have I: "e + 16 \<le> 268435456" "area m \<inter> {a ..< e} = {}" "16 dvd a" "blocks (ram m) a ps" "16 dvd s"
    "area m \<inter> {unat (mem_info m) ..< unat (mem_info m) + 16} = {}"
    using inv by (simp_all add: heap_inv_def Let_def)
  have ge: "a \<le> hend a ps" by (rule hend_ge)
  have "16 dvd hend a ps" using I(3,4) by (intro hend_dvd blocks_dvd)
  then have "16 dvd h" using I(5) by (simp add: h)
  then obtain b where b: "h = 16 * b" by (elim dvdE)
  obtain c where c: "unat sz = 16 * c" using n by (elim dvdE)
  have pnx: "phys nx = h" using S(1) fits h I(1) by (simp add: phys_def)
  have unx: "unat (nx + 16) = h + 16" using S(1) fits h I(1) by (simp add: unat_u32_add)
  then have pnx': "phys (nx + 16) = h + 16" using fits h I(1) by (simp add: phys_def)
  have gs: "granules (unat sz) = c" using c by (simp add: granules_def)
  have 1: "cur m1 \<noteq> cur m" "tagm m1 b = cur m"
    using protect_tag [OF assms(1) _ _ S(2)] S(1) b pnx fits h I(1)
    by (auto simp: granule_def granules_def)
  have c3: "cur m3 = cur m1" unfolding S(5)
    using I(2,6) ge fits h S(4) by (intro cur_frame heap_link_other) auto
  have t3: "tagm m3 = tagm m1" by (simp add: S(5))
  have al2: "16 dvd unat (nx + 16)" using b unx by simp
  have b2: "phys (nx + 16) + unat sz + 16 \<le> 268435456" using pnx' fits I(1) h by simp
  have g2: "granule (nx + 16) = b + 1" by (simp add: granule_def pnx' b)
  have "protect (nx + 16) sz m3 = Inr (q, m')" using run S(6) by simp
  then have 3: "ptr_tag q = cur m1" "cur m' \<noteq> cur m1" "\<And>g. g < b + 1 \<or> b + 1 + c \<le> g \<Longrightarrow> tagm m' g = tagm m1 g"
    "\<And>g. b + 1 \<le> g \<Longrightarrow> g < b + 1 + c \<Longrightarrow> tagm m' g = cur m1"
    using protect_tag [OF S(7) al2 b2] c3 t3 g2 gs by auto
  show "ptr_tag q \<noteq> 0" using 3(1) cur_pos [OF S(3)] by simp
  show "tagm m' (h div 16) = cur m" "cur m \<noteq> ptr_tag q" "cur m' \<noteq> ptr_tag q" using 1 3(1,2) 3(3) [of b] b by auto
  show "tagm m' g = ptr_tag q" if "h + 16 \<le> 16 * g" "16 * g < h + 16 + unat sz"
    using that 3(1) 3(4) [of g] b c by simp
  show "tagm m' g = tagm m g" if "16 * g < h \<or> h + 16 + unat sz \<le> 16 * g"
    using that 3(3) [of g] S(9) [of g] b c by auto
qed

lemma malloc_new_tags:
  assumes "ok m" and inv: "heap_inv good (area m) m a e ps s"
    and so: "so_protect so = protect" "so_secure so = secure" "so_essence so = essence"
    and n: "16 dvd unat sz" and fits: "hend a ps + 16 + s + 16 + unat sz \<le> e"
    and sep: "tags_sep (tagm m) a (ps @ [s]) (cur m)"
    and run: "malloc_new so sz m = Inr (q, m')"
  shows "tags_sep (tagm m') a (ps @ [s, unat sz]) (cur m')"
proof -
  define h where h: "h = hend a (ps @ [s])"
  note B = malloc_new_block [OF assms(1) inv so n fits run, folded h]
  have I: "16 dvd a" "blocks (ram m) a ps" "16 dvd s" using inv by (simp_all add: heap_inv_def Let_def)
  have dv: "\<forall>x\<in>set (ps @ [s]). 16 dvd x" using blocks_dvd [OF I(2)] I(3) by simp
  have "16 dvd h" unfolding h by (rule hend_dvd [OF I(1) dv])
  then obtain b where b: "h = 16 * b" by (elim dvdE)
  obtain c where c: "unat sz = 16 * c" using n by (elim dvdE)
  have pl: "tagm m' g = ptr_tag q" if "b + 1 \<le> g" "g < b + 1 + c" for g
    using that b c by (intro B(5)) simp_all
  have "tags_sep (tagm m') h [unat sz] (cur m')"
    using pl [of "b + 1"] pl B(1-4) by (cases "c = 0") (auto simp: block_tags_def b c Let_def)
  with tags_sep_extend [OF sep I(1) dv, of "tagm m'" "unat sz" "cur m'"] B(2,6) show ?thesis by (simp add: h)
qed

text \<open>
  Running over either end of a payload into a neighbouring header stops the
  program, whatever is read or written there; so does running from the last payload into memory with tag 0.
\<close>

lemma overrun_panics:
  assumes "ok m" and sep: "tags_sep (tagm m) a (xs @ s # ys) c" and "s \<noteq> 0"
    and free: "ys = [] \<Longrightarrow> tagm m ((hend a xs + 16 + s) div 16) = 0"
    and al: "16 dvd a" "\<forall>x\<in>set (xs @ [s]). 16 dvd x"
    and q: "phys q = hend a xs + 16" "ptr_tag q = tagm m (phys q div 16)"
    and d: "d < 16" "hend a xs + 16 + s + 16 \<le> 268435456"
  shows "panics m (q + of_nat (s + d))"
proof -
  let ?p = "q + of_nat (s + d)"
  have ev: "16 dvd hend a xs" using al by (intro hend_dvd) auto
  have u: "unat (of_nat (s + d) :: u32) = s + d"
    using d by (subst unat_of_nat) simp
  have b: "phys q + unat (of_nat (s + d) :: u32) < 268435456" using u q(1) d by linarith
  have "phys ?p = hend a xs + 16 + s + d" using phys_add [OF b] u q(1) by simp
  moreover have "(hend a xs + 16 + s + d) div 16 = (hend a xs + 16 + s) div 16"
    using ev al(2) d(1) by (auto elim!: dvdE)
  ultimately have "granule ?p = (hend a xs + 16 + s) div 16" by (simp add: granule_def)
  moreover have "tagm m ((hend a xs + 16 + s) div 16) \<noteq> tagm m ((hend a xs + 16) div 16)"
  proof -
    have "block_tags (tagm m) (hend a xs) s (if ys = [] then c else tagm m ((hend a xs + 16 + s) div 16))"
      using tags_sep_block [OF sep] by simp
    then have "tagm m ((hend a xs + 16) div 16) \<noteq> 0"
      "(if ys = [] then c else tagm m ((hend a xs + 16 + s) div 16)) \<noteq> tagm m ((hend a xs + 16) div 16)"
      using assms(3) unfolding block_tags_def Let_def by blast+
    then show ?thesis using free by metis
  qed
  ultimately have "ptr_tag ?p \<noteq> tagm m (granule ?p)" using ptr_tag_add [OF b] q by simp
  from other_tag_panics [OF assms(1) this] show ?thesis .
qed

lemma underrun_panics:
  assumes "ok m" and sep: "tags_sep (tagm m) a (xs @ s # ys) c" and "s \<noteq> 0"
    and al: "16 dvd a" "\<forall>x\<in>set xs. 16 dvd x"
    and q: "phys q = hend a xs + 16" "ptr_tag q = tagm m (phys q div 16)"
    and d: "0 < d" "d \<le> 16"
  shows "panics m (q - of_nat d)"
proof -
  let ?p = "q - of_nat d"
  have ev: "16 dvd hend a xs" using al by (intro hend_dvd) auto
  have u: "unat (of_nat d :: u32) = d" using d by (subst unat_of_nat) simp
  then have b: "unat (of_nat d :: u32) \<le> phys q" using q(1) d by simp
  have "phys ?p = hend a xs + 16 - d" using phys_sub(1) [OF b] u q(1) by simp
  moreover have "(hend a xs + 16 - d) div 16 = hend a xs div 16"
    using ev d by (auto elim!: dvdE)
  ultimately have "granule ?p = hend a xs div 16" by (simp add: granule_def)
  moreover have "tagm m (hend a xs div 16) \<noteq> tagm m ((hend a xs + 16) div 16)"
    using tags_sep_block [OF sep] assms(3) by (simp add: block_tags_def Let_def)
  ultimately have "ptr_tag ?p \<noteq> tagm m (granule ?p)" using phys_sub(2) [OF b] q by simp
  from other_tag_panics [OF assms(1) this] show ?thesis .
qed

end

section \<open>Initialisation and the whole of malloc\<close>

text \<open>Where \<^verbatim>\<open>mem_info\<close> and the arena may lie.\<close>

definition arena_ok :: "nat set \<Rightarrow> nat \<Rightarrow> nat \<Rightarrow> nat \<Rightarrow> bool" where
  "arena_ok A mi a e \<longleftrightarrow> mi + 32 \<le> 268435456 \<and> 16 dvd mi \<and> 16 dvd a \<and> a + 16 \<le> e
     \<and> e + 16 \<le> 268435456 \<and> (mi + 16 \<le> a \<or> e \<le> mi)
     \<and> A \<inter> {a ..< e} = {} \<and> A \<inter> {mi ..< mi + 16} = {}"

context heap_security
begin

lemma malloc_init_inv:
  assumes "ok m" and so: "so_protect so = protect"
    and ar: "arena_ok (area m) (unat (mem_info m)) (unat (heap_start ctx)) (unat (heap_end ctx))"
  shows "\<exists>m'. malloc_init so ctx m = Inr (True, m') \<and> ok m' \<and> area m' = area m
    \<and> heap_inv good (area m) m' (unat (heap_start ctx)) (unat (heap_end ctx)) [] 0
    \<and> mem_info m' = mem_info m \<and> csr_mstatus m' = csr_mstatus m
    \<and> (\<forall>g. g \<noteq> unat (mem_info m) div 16 \<and> g \<noteq> unat (heap_start ctx) div 16 \<longrightarrow> tagm m' g = tagm m g)"
proof -
  define mi a e where mi: "mi = unat (mem_info m)" and a: "a = unat (heap_start ctx)"
    and e: "e = unat (heap_end ctx)"
  have I: "mi + 32 \<le> 268435456" "16 dvd mi" "16 dvd a" "a + 16 \<le> e" "e + 16 \<le> 268435456"
    "mi + 16 \<le> a \<or> e \<le> mi" "area m \<inter> {a ..< e} = {}" "area m \<inter> {mi ..< mi + 16} = {}"
    using ar by (simp_all add: arena_ok_def mi a e)
  define c where c: "c = console m @ [if memtag_en ctx \<noteq> 0 then ''LIBC: MEMORY TAGGING is enabled''
            else ''LIBC: MEMORY TAGGING is disabled'', ''LIBC: heap @[%p, %p]'']"
  define m0 where m0: "m0 = m\<lparr>console := c\<rparr>"
  have ok0: "ok m0" "area m0 = area m" using assms(1) by (simp_all add: m0 ok_console area_console)
  have ph: "phys (mem_info m) = mi" "phys (heap_start ctx) = a"
    using I by (simp_all add: mi a phys_def)
  have gd: "good (mem_info m)" "good (heap_start ctx)" using I by (auto intro!: good_untagged simp: mi a)
  have g16: "granules 16 = 1" by (simp add: granules_def)
  \<comment> \<open>\<^verbatim>\<open>mem_info\<close> is protected and cleared\<close>
  obtain sp m1 where m1: "protect (mem_info m) 16 m0 = Inr (sp, m1)" "phys sp = mi" "access_ok m1 sp 16"
    "ok m1" "area m1 = area m" "\<forall>x. x \<notin> area m \<longrightarrow> ram m1 x = ram m0 x"
    "csr_mstatus m1 = csr_mstatus m0" "mem_info m1 = mem_info m0"
    "\<forall>g. g < granule (mem_info m) \<or> granule (mem_info m) + 1 \<le> g \<longrightarrow> tagm m1 g = tagm m0 g"
    using protect_law [OF ok0(1) gd(1), of 16] I ok0(2) ph by (auto simp: g16 mi)
  define r1 where r1: "r1 = put32 (put32 (wr (ram m1) mi (replicate 16 0)) mi (heap_start ctx)) (mi + 4) (heap_end ctx)"
  define m2 where m2: "m2 = m1\<lparr>ram := r1\<rparr>"
  have r1_out: "r1 x = ram m1 x" if "x \<notin> {mi ..< mi + 16}" for x
    using that by (auto simp: r1 put32_other wr_def)
  have ok2: "ok m2" "area m2 = area m"
    unfolding m2 using I(8) m1(5) by (auto simp: area_ram intro!: ok_frame [OF m1(4)] r1_out)
  \<comment> \<open>the first header\<close>
  have "area m2 \<inter> {phys (heap_start ctx) ..< phys (heap_start ctx) + 16 * granules (unat (16 :: u32))} = {}"
    using I(4,7) by (auto simp: ph g16 ok2)
  from protect_law [OF ok2(1) gd(2) _ _ this] obtain p m3 where
    m3: "protect (heap_start ctx) 16 m2 = Inr (p, m3)" "good p" "phys p = a" "access_ok m3 p 16"
    "ok m3" "area m3 = area m" "\<forall>x. x \<notin> area m \<longrightarrow> ram m3 x = r1 x"
    "\<forall>g. g < granule (heap_start ctx) \<or> granule (heap_start ctx) + 1 \<le> g \<longrightarrow> tagm m3 g = tagm m1 g"
    "csr_tags m3 = csr_tags m1" "csr_mstatus m3 = csr_mstatus m0" "mem_info m3 = mem_info m0"
    using I ph ok2(2) m1(7,8) by (auto simp: g16 a m2)
  have "mi div 16 < a div 16 \<or> a div 16 + 1 \<le> mi div 16"
    using I(2,3,4,6) by (elim dvdE) auto
  then have ok3: "access_ok m3 sp 16"
    using m3(8,9) I(2) m1(2) by (intro access_ok_retagged [OF m1(3)]) (auto simp: granule_def ph)
  define r3 where r3: "r3 = put32 (put32 (put32 (put32 (put32 (put32 (ram m3) a 0) (a + 4) 0) (a + 8) 0)
      (a + 12) MAGIC) (mi + 8) p) (mi + 12) p"
  define m4 where m4: "m4 = m3\<lparr>ram := r3\<rparr>"
  have run: "malloc_init so ctx m = Inr (True, m4)"
    using m1(1-3) m3(1,3,4) ok3 so fill_loop_wr [OF m1(3), of 0]
    by (cases "memtag_en ctx = 0")
      (simp_all add: malloc_init_def printf_msg_def c m0 mi m2 r1 r3 m4 memset_def fields [where n = 16])
  have r3_out: "r3 x = ram m3 x" if "x \<notin> {a ..< a + 16}" "x \<notin> {mi ..< mi + 16}" for x
    using that unfolding r3 by (auto simp: put32_other)
  have "ok m4" "area m4 = area m"
    unfolding m4 using I(4,7,8) m3(6)
    by (auto simp: area_ram intro!: ok_frame [OF m3(5)] r3_out)
  moreover have "heap_inv good (area m) m4 a e [] 0"
  proof -
    have "get32 (ram m3) (mi + d) = get32 r1 (mi + d)" if "d \<le> 12" for d
      using that m3(7) I(8) by (intro get32_cong) auto
    from this [of 0] this [of 4] have f: "get32 (ram m3) mi = heap_start ctx" "get32 (ram m3) (mi + 4) = heap_end ctx"
      by (simp_all add: r1 get32_put32_other)
    have "get32 r3 mi = heap_start ctx" "get32 r3 (mi + 4) = heap_end ctx" "get32 r3 (mi + 8) = p"
      "get32 r3 (mi + 12) = p" "get32 r3 a = 0" "get32 r3 (a + 4) = 0" "get32 r3 (a + 8) = 0" "get32 r3 (a + 12) = MAGIC"
      using I(4,6) f unfolding r3 by (auto simp: get32_put32_other)
    moreover have "tag_ok m4 p" using m3(4) by (auto simp: m4 access_ok_def dest: spec [of _ 0])
    ultimately show ?thesis
      using I m3(2,3,11) by (simp add: heap_inv_def Let_def m4 m0 mi [symmetric] hdr_ok_def a e)
  qed
  moreover have "tagm m3 g = tagm m g" if "g \<noteq> mi div 16" "g \<noteq> a div 16" for g
    using that m3(8) m1(9) ph by (simp add: granule_def m0) (metis Suc_leI linorder_neqE_nat)
  ultimately show ?thesis using run m3(10,11) by (simp add: m4 m0 a e mi)
qed

lemma malloc_reaches_new:
  assumes "ok m" and "heap_inv good (area m) m a e ps s" and "so_secure so = secure"
    and "sz \<noteq> 0" and "csr_mstatus m AND 8 \<noteq> 0"
  shows "malloc so sz m = malloc_new so (aligntonext sz 4) m"
  using find_free_block_none [OF assms(1-3)] assms(4,5)
  by (simp add: malloc_def os_is_serving_isr_def Let_def)

end

section \<open>A machine to start from\<close>

text \<open>
  A cleared memory with tag checking off, interrupts on, the two secured objects
  at 0x100 and 0x200 and an arena of 256 bytes at 0x1000.
\<close>

definition boot_machine :: machine where
  "boot_machine = \<lparr>ram = (\<lambda>_. 0), tagm = (\<lambda>_. 0), csr_tags = 0, csr_mstatus = 8, csr_mie = 0,
     csr_mip = 0, rnd_seq = (\<lambda>n. if even n then 1 else 2), rnd_pos = 0, sec_cntx = 0x100,
     mem_info = 0x200, console = []\<rparr>"

definition boot_ctx :: init_ctx where
  "boot_ctx = \<lparr>memtag_en = 1, heap_start = 0x1000, heap_end = 0x1100\<rparr>"

lemma fair_rnd_boot: "fair_rnd (rnd_seq boot_machine) 2"
  using fair_rnd_demo by (simp add: boot_machine_def)

lemma boot_heap:
  "\<exists>m1 m2. ossec_init 2 boot_machine = Inr (1, m1) \<and> malloc_init security_c boot_ctx m1 = Inr (True, m2)
     \<and> sec_ok m2 \<and> heap_inv (\<lambda>_. True) (sec_area m2) m2 0x1000 0x1100 [] 0 \<and> csr_mstatus m2 = 8
     \<and> sec_area m2 = {256 ..< 272} \<and> mem_info m2 = 512
     \<and> sec_ok m1 \<and> mem_info m1 = 512 \<and> sec_area m1 = {256 ..< 272} \<and> (\<forall>g. g \<noteq> 16 \<longrightarrow> tagm m1 g = 0)"
proof -
  let ?m = boot_machine
  have p: "phys (sec_cntx ?m) = 256" "sec_cntx ?m = 256" "mem_info ?m = 512"
    by (simp_all add: boot_machine_def phys_def)
  have "access_ok ?m (sec_cntx ?m) 16"
    using p by (simp add: access_ok_def tag_ok_def boot_machine_def)
  from ossec_init_ok [OF this _ _ fair_rnd_boot] obtain m1 where
    m1: "ossec_init 2 ?m = Inr (1, m1)" "sec_ok m1" "mem_info m1 = 512" "sec_cntx m1 = 256"
      "csr_mstatus m1 = 8" "\<forall>g. g \<noteq> 16 \<longrightarrow> tagm m1 g = 0"
    using p by (auto simp: boot_machine_def granule_def)
  have "arena_ok (sec_area m1) (unat (mem_info m1)) (unat (heap_start boot_ctx)) (unat (heap_end boot_ctx))"
    using m1 by (simp add: arena_ok_def sec_area_def phys_def boot_ctx_def)
  from sec.malloc_init_inv [OF m1(2) _ this, of security_c] obtain m2 where
    "malloc_init security_c boot_ctx m1 = Inr (True, m2)" "sec_ok m2" "sec_area m2 = sec_area m1"
    "heap_inv (\<lambda>_. True) (sec_area m1) m2 0x1000 0x1100 [] 0" "csr_mstatus m2 = 8" "mem_info m2 = 512"
    using m1(3,5) by (auto simp: security_c_def boot_ctx_def)
  moreover have "sec_area m1 = {256 ..< 272}" using m1(4) by (simp add: sec_area_def phys_def)
  ultimately show ?thesis using m1 by auto
qed

lemma access_ok_same_tags:
  assumes "access_ok m p n" and "csr_tags m' = csr_tags m"
    and "\<And>x. x \<in> {phys p ..< phys p + n} \<Longrightarrow> tagm m' (x div 16) = tagm m (x div 16)"
  shows "access_ok m' p n"
proof -
  have "tag_ok m' (p + of_nat i)" if "i < n" for i
    using assms access_ok_field [OF assms(1) that] that by (simp add: tag_ok_def granule_def)
  with assms(1) show ?thesis by (simp add: access_ok_def)
qed

section \<open>Correctness of the heap\<close>

text \<open>An allocation that fits, on the tagging layer.\<close>

lemma malloc_block:
  assumes "sec_ok m" and "heap_inv (\<lambda>_. True) (sec_area m) m a e ps s"
    and "csr_mstatus m AND 8 \<noteq> 0" and "sz \<noteq> 0" and "unat sz \<le> 0xfffffff0"
    and "hend a (ps @ [s]) + 16 + 16 * granules (unat sz) \<le> e"
  obtains q m' where "malloc security_c sz m = Inr (q, m')" and "phys q = hend a (ps @ [s]) + 16"
    and "access_ok m' q (16 * granules (unat sz))" and "sec_ok m'"
    and "heap_inv (\<lambda>_. True) (sec_area m) m' a e (ps @ [s]) (16 * granules (unat sz))"
    and "\<forall>x. x \<notin> sec_area m \<and> x \<notin> {unat (mem_info m) ..< unat (mem_info m) + 16}
          \<and> x \<notin> hdrs a (ps @ [s, 16 * granules (unat sz)]) \<longrightarrow> ram m' x = ram m x"
    and "ptr_tag q \<noteq> 0" and "tagm m' (hend a (ps @ [s]) div 16) \<noteq> ptr_tag q"
    and "\<And>g. hend a (ps @ [s]) + 16 \<le> 16 * g \<Longrightarrow> 16 * g < hend a (ps @ [s]) + 16 + 16 * granules (unat sz) \<Longrightarrow> tagm m' g = ptr_tag q"
    and "\<And>g. 16 * g < hend a (ps @ [s]) \<or> hend a (ps @ [s]) + 16 + 16 * granules (unat sz) \<le> 16 * g \<Longrightarrow> tagm m' g = tagm m g"
    and "csr_tags m' = csr_tags m" and "csr_mstatus m' = csr_mstatus m" and "sec_area m' = sec_area m" and "mem_info m' = mem_info m"
    and "tags_sep (tagm m) a (ps @ [s]) (unat (ctx_tag_gen m)) \<Longrightarrow>
      tags_sep (tagm m') a (ps @ [s, 16 * granules (unat sz)]) (unat (ctx_tag_gen m'))"
proof -
  have n: "unat (aligntonext sz 4) = 16 * granules (unat sz)" by (rule aligntonext_exact [OF assms(5)])
  have f: "hend a ps + 16 + s + 16 + unat (aligntonext sz 4) \<le> e" using assms(6) n by simp
  have so: "so_protect security_c = ossec_protect_ptr" "so_secure security_c = ossec_get_secure_ptr"
    "so_essence security_c = ossec_get_essence" by (simp_all add: security_c_def)
  have d: "16 dvd unat (aligntonext sz 4)" using n by simp
  have e: "malloc security_c sz m = malloc_new security_c (aligntonext sz 4) m"
    by (rule sec.malloc_reaches_new [OF assms(1,2) so(2) assms(4,3)])
  obtain q m' where r: "malloc_new security_c (aligntonext sz 4) m = Inr (q, m')"
    and q: "phys q = hend a (ps @ [s]) + 16" "access_ok m' q (16 * granules (unat sz))" "sec_ok m'" "sec_area m' = sec_area m"
      "heap_inv (\<lambda>_. True) (sec_area m) m' a e (ps @ [s]) (16 * granules (unat sz))"
      "csr_tags m' = csr_tags m" "csr_mstatus m' = csr_mstatus m" "mem_info m' = mem_info m"
      "\<forall>x. x \<notin> sec_area m \<and> x \<notin> {unat (mem_info m) ..< unat (mem_info m) + 16}
          \<and> x \<notin> hdrs a (ps @ [s, 16 * granules (unat sz)]) \<longrightarrow> ram m' x = ram m x"
    using sec.malloc_new_fits [OF assms(1,2) so d f] unfolding n by blast
  note B = sec.malloc_new_block [OF assms(1,2) so d f r, unfolded n]
  show thesis
    using B(1) B(2,3) sec.malloc_new_tags [OF assms(1,2) so d f _ r] n
    by (intro that [OF e [THEN trans, OF r] q(1-3,5,9) B(1) _ B(5) B(6) q(6,7,4,8)]) (simp_all del: hend_append)
qed

text \<open>
  C1. \<^verbatim>\<open>malloc\<close> of a request that fits places the block behind the last one and returns a pointer to its payload, with a tag
  that is not 0: the granules of the payload, the requested size rounded up to 16 bytes, get that tag, the header before it gets
  another, and no other granule changes. The whole payload can be accessed through the pointer, the heap stays well-formed, and
  only headers, \<^verbatim>\<open>mem_info\<close> and the security layer's context are written.\<close>

theorem malloc_correct:
  assumes "sec_ok m" and "heap_inv (\<lambda>_. True) (sec_area m) m a e ps s"
    and "csr_mstatus m AND 8 \<noteq> 0" and "sz \<noteq> 0" and "unat sz \<le> 0xfffffff0"
    and "hend a (ps @ [s]) + 16 + 16 * granules (unat sz) \<le> e"
  shows "\<exists>q m'. malloc security_c sz m = Inr (q, m') \<and> phys q = hend a (ps @ [s]) + 16 \<and> ptr_tag q \<noteq> 0
    \<and> access_ok m' q (16 * granules (unat sz)) \<and> sec_ok m'
    \<and> heap_inv (\<lambda>_. True) (sec_area m) m' a e (ps @ [s]) (16 * granules (unat sz))
    \<and> (\<forall>x. x \<notin> sec_area m \<and> x \<notin> {unat (mem_info m) ..< unat (mem_info m) + 16}
          \<and> x \<notin> hdrs a (ps @ [s, 16 * granules (unat sz)]) \<longrightarrow> ram m' x = ram m x)
    \<and> (\<forall>g. phys q \<le> 16 * g \<and> 16 * g < phys q + 16 * granules (unat sz) \<longrightarrow> tagm m' g = ptr_tag q)
    \<and> tagm m' ((phys q - 16) div 16) \<noteq> ptr_tag q
    \<and> (\<forall>g. 16 * g < phys q - 16 \<or> phys q + 16 * granules (unat sz) \<le> 16 * g \<longrightarrow> tagm m' g = tagm m g)"
proof -
  obtain q m' where q: "malloc security_c sz m = Inr (q, m')" "phys q = hend a (ps @ [s]) + 16"
    "access_ok m' q (16 * granules (unat sz))" "sec_ok m'"
    "heap_inv (\<lambda>_. True) (sec_area m) m' a e (ps @ [s]) (16 * granules (unat sz))"
    "\<forall>x. x \<notin> sec_area m \<and> x \<notin> {unat (mem_info m) ..< unat (mem_info m) + 16}
          \<and> x \<notin> hdrs a (ps @ [s, 16 * granules (unat sz)]) \<longrightarrow> ram m' x = ram m x" "ptr_tag q \<noteq> 0"
    "tagm m' (hend a (ps @ [s]) div 16) \<noteq> ptr_tag q"
    "\<And>g. hend a (ps @ [s]) + 16 \<le> 16 * g \<Longrightarrow> 16 * g < hend a (ps @ [s]) + 16 + 16 * granules (unat sz) \<Longrightarrow> tagm m' g = ptr_tag q"
    "\<And>g. 16 * g < hend a (ps @ [s]) \<or> hend a (ps @ [s]) + 16 + 16 * granules (unat sz) \<le> 16 * g \<Longrightarrow> tagm m' g = tagm m g"
    by (rule malloc_block [OF assms]) (rule that)
  then show ?thesis by (simp del: hend_append)
qed

theorem malloc_correct_witness:
  "\<exists>m1 m q m'. ossec_init 2 boot_machine = Inr (1, m1) \<and> malloc_init security_c boot_ctx m1 = Inr (True, m)
     \<and> malloc security_c 24 m = Inr (q, m') \<and> phys q = 0x1020 \<and> access_ok m' q 32
     \<and> (\<forall>g. 0x1040 \<le> 16 * g \<longrightarrow> tagm m' g = tagm m g)"
proof -
  obtain m1 m where b: "ossec_init 2 boot_machine = Inr (1, m1)" "malloc_init security_c boot_ctx m1 = Inr (True, m)"
    "sec_ok m" "heap_inv (\<lambda>_. True) (sec_area m) m 0x1000 0x1100 [] 0" "csr_mstatus m = 8"
    using boot_heap by blast
  show ?thesis
    using malloc_correct [OF b(3,4), of 24] b by (auto simp: granules_def)
qed

text \<open>Two blocks of 32 and 16 bytes allocated after the start: the first lies at 0x1020.\<close>

lemma boot_two_blocks:
  "\<exists>m q. sec_ok m \<and> heap_inv (\<lambda>_. True) (sec_area m) m 0x1000 0x1100 ([0] @ 32 # []) 16
     \<and> tags_sep (tagm m) 0x1000 ([0] @ 32 # [] @ [16]) (unat (ctx_tag_gen m)) \<and> phys q = 0x1020 \<and> access_ok m q 32
     \<and> csr_mstatus m = 8 \<and> sec_area m = {256 ..< 272} \<and> mem_info m = 512"
proof -
  obtain m where m: "sec_ok m" "heap_inv (\<lambda>_. True) (sec_area m) m 0x1000 0x1100 [] 0" "csr_mstatus m = 8"
    "sec_area m = {256 ..< 272}" "mem_info m = 512"
    using boot_heap by blast
  have i: "csr_mstatus m AND 8 \<noteq> 0" using m(3) by simp
  have t: "tags_sep (tagm m) 0x1000 ([] @ [0]) (unat (ctx_tag_gen m))" by (simp add: block_tags_def)
  obtain q m1 where m1: "phys q = 0x1020" "access_ok m1 q 32" "sec_ok m1" "csr_mstatus m1 = 8"
    "heap_inv (\<lambda>_. True) (sec_area m1) m1 0x1000 0x1100 [0] 32"
    "tags_sep (tagm m1) 0x1000 ([0] @ [32]) (unat (ctx_tag_gen m1))" "sec_area m1 = {256 ..< 272}" "mem_info m1 = 512"
    by (rule malloc_block [OF m(1,2) i, of 32]) (use m(3-5) t in \<open>auto simp: granules_def\<close>)
  have i1: "csr_mstatus m1 AND 8 \<noteq> 0" using m1(4) by simp
  obtain q2 m2 where m2: "sec_ok m2" "csr_tags m2 = csr_tags m1"
    "heap_inv (\<lambda>_. True) (sec_area m2) m2 0x1000 0x1100 [0, 32] 16" "csr_mstatus m2 = csr_mstatus m1"
    "tags_sep (tagm m2) 0x1000 [0, 32, 16] (unat (ctx_tag_gen m2))" "\<And>g. 16 * g < 0x1040 \<Longrightarrow> tagm m2 g = tagm m1 g"
    "sec_area m2 = sec_area m1" "mem_info m2 = mem_info m1"
    by (rule malloc_block [OF m1(3,5) i1, of 16]) (use m1(6) in \<open>auto simp: granules_def\<close>)
  have "access_ok m2 q 32" using m1(1,2) m2(2,6) by (intro access_ok_same_tags [OF m1(2)]) auto
  with m1 m2 show ?thesis by auto
qed

text \<open>The same allocator on the layer without tagging: the pointer is the plain address.\<close>

theorem malloc_nosec_correct:
  assumes "ns_ok m" and "heap_inv untagged {} m a e ps s"
    and "csr_mstatus m AND 8 \<noteq> 0" and "sz \<noteq> 0" and "unat sz \<le> 0xfffffff0"
    and "hend a (ps @ [s]) + 16 + 16 * granules (unat sz) \<le> e"
  shows "\<exists>q m'. malloc no_security_c sz m = Inr (q, m') \<and> unat q = hend a (ps @ [s]) + 16
    \<and> access_ok m' q (unat sz) \<and> ns_ok m'
    \<and> heap_inv untagged {} m' a e (ps @ [s]) (16 * granules (unat sz))"
proof -
  have n: "unat (aligntonext sz 4) = 16 * granules (unat sz)" by (rule aligntonext_exact [OF assms(5)])
  have f: "hend a ps + 16 + s + 16 + unat (aligntonext sz 4) \<le> e" using assms(6) n by simp
  have "unat sz \<le> 16 * granules (unat sz)" by (rule granules_covers)
  moreover have "malloc no_security_c sz m = malloc_new no_security_c (aligntonext sz 4) m"
    by (rule nosec.malloc_reaches_new [OF assms(1,2) _ assms(4,3)]) (simp add: no_security_c_def)
  ultimately show ?thesis
    using nosec.malloc_new_fits [OF assms(1,2) _ _ _ _ f, of no_security_c] n
    by (auto simp: no_security_c_def untagged_phys intro: access_ok_mono)
qed

text \<open>A request that does not fit returns a null pointer with a warning and changes nothing else.\<close>

theorem malloc_out_of_memory:
  assumes "sec_ok m" and "heap_inv (\<lambda>_. True) (sec_area m) m a e ps s"
    and "csr_mstatus m AND 8 \<noteq> 0" and "sz \<noteq> 0" and "unat sz < 0xefffffe0"
    and "e < hend a (ps @ [s]) + 16 + 16 * granules (unat sz)"
  shows "malloc security_c sz m
    = Inr (0, m\<lparr>console := console m @ [''LIBC: WARNING: OOM is detected'']\<rparr>)"
proof -
  have n: "unat (aligntonext sz 4) = 16 * granules (unat sz)"
    using assms(5) by (intro aligntonext_exact) simp
  have "hend a ps + 16 + s \<le> e" "e + 16 \<le> 268435456"
    using assms(2) by (simp_all add: heap_inv_def Let_def)
  moreover have "16 * granules (unat sz) < unat sz + 16" by (rule granules_covers)
  ultimately have "hend a ps + 16 + s + 16 + unat (aligntonext sz 4) < 4294967296"
    using assms(5) n by simp
  moreover have "malloc security_c sz m = malloc_new security_c (aligntonext sz 4) m"
    by (rule sec.malloc_reaches_new [OF assms(1,2) _ assms(4,3)]) (simp add: security_c_def)
  ultimately show ?thesis
    using sec.malloc_new_oom [OF assms(1,2), of security_c "aligntonext sz 4"] assms(6) n
    by (simp add: security_c_def)
qed

text \<open>A request for 0 bytes, or one made while interrupts are being served, returns a null pointer and leaves the
  heap alone.\<close>

theorem malloc_refuses:
  "malloc so 0 m = Inr (0, m)
   \<and> (csr_mstatus m AND 8 = 0 \<longrightarrow> (\<exists>m'. malloc so sz m = Inr (0, m') \<and> m' = m\<lparr>console := console m'\<rparr>))"
  by (auto simp: malloc_def os_is_serving_isr_def printf_msg_def)

text \<open>
  A request of at least 0xfffffff1 bytes is rounded up to 0 bytes, passes the
  out-of-memory check and returns a pointer: to a block without payload.
\<close>

theorem malloc_huge_succeeds:
  assumes "sec_ok m" and "heap_inv (\<lambda>_. True) (sec_area m) m a e ps s"
    and "csr_mstatus m AND 8 \<noteq> 0" and "0xfffffff0 < unat sz" and "hend a (ps @ [s]) + 16 \<le> e"
  shows "\<exists>q m'. malloc security_c sz m = Inr (q, m') \<and> q \<noteq> 0
    \<and> heap_inv (\<lambda>_. True) (sec_area m) m' a e (ps @ [s]) 0"
proof -
  have z: "aligntonext sz 4 = 0" by (rule aligntonext_wraps [OF assms(4)])
  have "sz \<noteq> 0" using assms(4) by auto
  then have "malloc security_c sz m = malloc_new security_c 0 m"
    using sec.malloc_reaches_new [OF assms(1,2) _ _ assms(3), of security_c] z by (simp add: security_c_def)
  moreover have "phys q = hend a (ps @ [s]) + 16 \<Longrightarrow> q \<noteq> 0" for q by (auto simp: phys_def)
  ultimately show ?thesis
    using sec.malloc_new_fits [OF assms(1,2), of security_c 0] assms(5)
    by (fastforce simp: security_c_def)
qed

text \<open>
  Allocation keeps neighbours apart: every block has one non-zero tag of its own, different from the tag of its
  header and of what follows it.\<close>

theorem malloc_separates_tags:
  assumes "sec_ok m" and "heap_inv (\<lambda>_. True) (sec_area m) m a e ps s"
    and "tags_sep (tagm m) a (ps @ [s]) (unat (ctx_tag_gen m))"
    and "csr_mstatus m AND 8 \<noteq> 0" and "sz \<noteq> 0" and "unat sz \<le> 0xfffffff0"
    and "hend a (ps @ [s]) + 16 + 16 * granules (unat sz) \<le> e"
  shows "\<exists>q m'. malloc security_c sz m = Inr (q, m')
    \<and> tags_sep (tagm m') a (ps @ [s, 16 * granules (unat sz)]) (unat (ctx_tag_gen m'))"
  by (rule malloc_block [OF assms(1,2,4-7)]) (use assms(3) in blast)

section \<open>Runs of a program that uses the heap\<close>

text \<open>
  From a state \<open>m\<^sub>0\<close> on, the program calls \<^verbatim>\<open>malloc\<close> and stores bytes into the blocks it got; \<open>bs\<close> are these blocks, as the
  returned pointers and the requested sizes. Requests of 0xefffffe0 bytes and more are left out: for them the addition in the
  out-of-memory check wraps around (\<open>malloc_huge_succeeds\<close>).
\<close>

inductive heap_run :: "machine \<Rightarrow> (u32 \<times> u32) list \<Rightarrow> machine \<Rightarrow> bool" for m\<^sub>0 where
  started: "heap_run m\<^sub>0 [] m\<^sub>0"
| allocated: "heap_run m\<^sub>0 bs m \<Longrightarrow> unat sz < 0xefffffe0 \<Longrightarrow> malloc security_c sz m = Inr (q, m') \<Longrightarrow> q \<noteq> 0 \<Longrightarrow>
    heap_run m\<^sub>0 (bs @ [(q, sz)]) m'"
| refused: "heap_run m\<^sub>0 bs m \<Longrightarrow> unat sz < 0xefffffe0 \<Longrightarrow> malloc security_c sz m = Inr (0, m') \<Longrightarrow> heap_run m\<^sub>0 bs m'"
| stored: "heap_run m\<^sub>0 bs m \<Longrightarrow> (q, sz) \<in> set bs \<Longrightarrow> i < unat sz \<Longrightarrow> store8 (q + of_nat i) v m = Inr ((), m') \<Longrightarrow>
    heap_run m\<^sub>0 bs m'"

text \<open>A block of the heap with sizes \<open>ss\<close> from \<open>a\<close> on, with a pointer that carries its tag.\<close>

definition heap_block_at :: "machine \<Rightarrow> nat \<Rightarrow> nat list \<Rightarrow> u32 \<Rightarrow> u32 \<Rightarrow> bool" where
  "heap_block_at m a ss q sz \<longleftrightarrow> sz \<noteq> 0 \<and> (\<exists>xs ys. ss = xs @ 16 * granules (unat sz) # ys \<and> phys q = hend a xs + 16)
     \<and> ptr_tag q = tagm m (phys q div 16)"

definition heap_state :: "nat \<Rightarrow> nat \<Rightarrow> (u32 \<times> u32) list \<Rightarrow> machine \<Rightarrow> bool" where
  "heap_state a e bs m \<longleftrightarrow> sec_ok m \<and> (\<exists>ps s. heap_inv (\<lambda>_. True) (sec_area m) m a e ps s
     \<and> tags_sep (tagm m) a (ps @ [s]) (unat (ctx_tag_gen m))
     \<and> (\<forall>g. hend a (ps @ [s]) \<le> 16 * g \<and> 16 * g \<le> e \<longrightarrow> tagm m g = 0)
     \<and> (\<forall>(q, sz)\<in>set bs. heap_block_at m a (ps @ [s]) q sz))"

lemma granules_pos: "n \<noteq> 0 \<Longrightarrow> granules n \<noteq> 0"
  using granules_covers(1) [of n] by auto

lemma heap_state_console: "heap_state a e bs m \<Longrightarrow> heap_state a e bs (m\<lparr>console := c\<rparr>)"
proof -
  have "sec_ok (m\<lparr>console := c\<rparr>) = sec_ok m" "sec_area (m\<lparr>console := c\<rparr>) = sec_area m"
    "heap_block_at (m\<lparr>console := c\<rparr>) = heap_block_at m" "heap_inv gd A (m\<lparr>console := c\<rparr>) a e ps s = heap_inv gd A m a e ps s" for gd A ps s
    by (simp_all add: sec_ok_def sec_area_def heap_block_at_def heap_inv_def tag_ok_def fun_eq_iff)
  then show "heap_state a e bs m \<Longrightarrow> heap_state a e bs (m\<lparr>console := c\<rparr>)" by (simp add: heap_state_def)
qed

lemma block_bounds:
  assumes "blocks r a ps" and "16 dvd s" and "16 dvd a" and "ps @ [s] = xs @ t # ys"
  shows "hend a xs + 16 + t \<le> hend a (ps @ [s])" and "16 dvd hend a xs" and "16 dvd t"
    and "{hend a xs + 16 ..< hend a xs + 16 + t} \<inter> hdrs a (ps @ [s]) = {}"
proof -
  have dv: "\<forall>x\<in>set (xs @ t # ys). 16 dvd x" using blocks_dvd [OF assms(1)] assms(2) by (simp flip: assms(4))
  show "hend a xs + 16 + t \<le> hend a (ps @ [s])" unfolding assms(4) using hend_ge [of "hend a xs + 16 + t" ys] by simp
  show "16 dvd hend a xs" "16 dvd t" using dv assms(3) by (auto intro: hend_dvd)
  show "{hend a xs + 16 ..< hend a xs + 16 + t} \<inter> hdrs a (ps @ [s]) = {}"
    unfolding assms(4) by (auto dest: hdrs_bounds)
qed

lemma heap_stateE:
  assumes "heap_state a e bs m"
  obtains ps s where "sec_ok m" and "heap_inv (\<lambda>_. True) (sec_area m) m a e ps s"
    and "tags_sep (tagm m) a (ps @ [s]) (unat (ctx_tag_gen m))"
    and "\<And>g. hend a (ps @ [s]) \<le> 16 * g \<Longrightarrow> 16 * g \<le> e \<Longrightarrow> tagm m g = 0"
    and "\<And>q sz. (q, sz) \<in> set bs \<Longrightarrow> heap_block_at m a (ps @ [s]) q sz"
  using assms unfolding heap_state_def by fast

text \<open>An access past either end of a block panics; within the block it does not.\<close>

lemma heap_state_bounds:
  assumes st: "heap_state a e bs m" and b: "(q, sz) \<in> set bs" and d: "d < 16"
  shows "access_ok m q (16 * granules (unat sz))" and "panics m (q + of_nat (16 * granules (unat sz) + d))"
    and "panics m (q - of_nat (d + 1))"
proof -
  obtain ps s where S: "sec_ok m" "heap_inv (\<lambda>_. True) (sec_area m) m a e ps s"
    "tags_sep (tagm m) a (ps @ [s]) (unat (ctx_tag_gen m))"
    "\<And>g. hend a (ps @ [s]) \<le> 16 * g \<Longrightarrow> 16 * g \<le> e \<Longrightarrow> tagm m g = 0"
    "\<And>q sz. (q, sz) \<in> set bs \<Longrightarrow> heap_block_at m a (ps @ [s]) q sz"
    by (rule heap_stateE [OF st]) (rule that)
  define t where t: "t = 16 * granules (unat sz)"
  obtain xs ys where x: "ps @ [s] = xs @ t # ys" "phys q = hend a xs + 16" "ptr_tag q = tagm m (phys q div 16)" "t \<noteq> 0"
    using S(5) [OF b] granules_pos [of "unat sz"] by (auto simp: heap_block_at_def t unat_eq_zero)
  have I: "16 dvd a" "blocks (ram m) a ps" "16 dvd s" "hend a (ps @ [s]) \<le> e" "e + 16 \<le> 268435456"
    using S(2) by (simp_all add: heap_inv_def Let_def)
  note B = block_bounds [OF I(2,3,1) x(1)]
  have dv: "\<forall>y\<in>set (xs @ [t]). 16 dvd y" using blocks_dvd [OF I(2)] I(3) x(1) by (metis Un_iff append_is_Nil_conv insert_iff list.set(1,2) set_append empty_iff)
  have sep: "tags_sep (tagm m) a (xs @ t # ys) (unat (ctx_tag_gen m))" using S(3) by (simp only: x(1))
  have free: "tagm m ((hend a xs + 16 + t) div 16) = 0" if "ys = []"
  proof (rule S(4))
    have "hend a (ps @ [s]) = hend a xs + 16 + t" unfolding x(1) using that by simp
    then show "hend a (ps @ [s]) \<le> 16 * ((hend a xs + 16 + t) div 16)" "16 * ((hend a xs + 16 + t) div 16) \<le> e"
      using B(2,3) I(4) by (simp_all add: dvd_add)
  qed
  have top: "hend a xs + 16 + t + 16 \<le> 268435456" using B(1) I(4,5) by linarith
  show "panics m (q + of_nat (16 * granules (unat sz) + d))"
    using sec.overrun_panics [OF S(1) sep x(4) free I(1) dv x(2,3) d top] by (simp add: t)
  show "panics m (q - of_nat (d + 1))"
    using sec.underrun_panics [OF S(1) sep x(4) I(1) _ x(2,3), of "d + 1"] dv d by simp
  have "tagm m g = ptr_tag q" if "phys q div 16 \<le> g" "g < phys q div 16 + granules t" for g
  proof -
    have "block_tags (tagm m) (hend a xs) t (if ys = [] then unat (ctx_tag_gen m) else tagm m ((hend a xs + 16 + t) div 16))"
      using tags_sep_block [OF sep] by simp
    then have pl: "\<forall>g\<in>{(hend a xs + 16) div 16 ..< (hend a xs + 16 + t) div 16}. tagm m g = tagm m ((hend a xs + 16) div 16)"
      using x(4) unfolding block_tags_def Let_def by blast
    have "(hend a xs + 16 + t) div 16 = (hend a xs + 16) div 16 + granules t"
      using B(2,3) by (auto simp: granules_def elim!: dvdE)
    then have "g \<in> {(hend a xs + 16) div 16 ..< (hend a xs + 16 + t) div 16}" using that x(2) by simp
    then have "tagm m g = tagm m ((hend a xs + 16) div 16)" using pl by blast
    then show ?thesis by (simp only: x(2,3))
  qed
  then show "access_ok m q (16 * granules (unat sz))"
    using top x(2) B(2) x(4) by (fold t, intro access_ok_tagged) auto
qed

lemma heap_state_malloc:
  assumes st: "heap_state a e bs m" and sz: "unat sz < 0xefffffe0" and r: "malloc security_c sz m = Inr (q, m')"
  shows "heap_state a e (if q = 0 then bs else bs @ [(q, sz)]) m'"
proof -
  obtain ps s where S: "sec_ok m" "heap_inv (\<lambda>_. True) (sec_area m) m a e ps s"
    "tags_sep (tagm m) a (ps @ [s]) (unat (ctx_tag_gen m))"
    "\<And>g. hend a (ps @ [s]) \<le> 16 * g \<Longrightarrow> 16 * g \<le> e \<Longrightarrow> tagm m g = 0"
    "\<And>q sz. (q, sz) \<in> set bs \<Longrightarrow> heap_block_at m a (ps @ [s]) q sz"
    by (rule heap_stateE [OF st]) (rule that)
  consider "sz = 0 \<or> csr_mstatus m AND 8 = 0"
    | "sz \<noteq> 0" "csr_mstatus m AND 8 \<noteq> 0" "e < hend a (ps @ [s]) + 16 + 16 * granules (unat sz)"
    | "sz \<noteq> 0" "csr_mstatus m AND 8 \<noteq> 0" "hend a (ps @ [s]) + 16 + 16 * granules (unat sz) \<le> e" by fastforce
  then show ?thesis
  proof cases
    case 1
    have "q = 0 \<and> m' = m\<lparr>console := console m'\<rparr>" using 1 malloc_refuses [where so = security_c and sz = sz and m = m] r by auto
    then show ?thesis using heap_state_console [OF st, of "console m'"] by simp
  next
    case 2
    then show ?thesis using malloc_out_of_memory [OF S(1,2) 2(2,1) sz 2(3)] r heap_state_console [OF st] by simp
  next
    case 3
    define h t where h: "h = hend a (ps @ [s])" and t: "t = 16 * granules (unat sz)"
    have "unat sz \<le> 0xfffffff0" using sz by simp
    from malloc_block [OF S(1,2) 3(2,1) this 3(3)] obtain q' m'' where "malloc security_c sz m = Inr (q', m'')"
      and M: "phys q' = h + 16" "sec_ok m''" "heap_inv (\<lambda>_. True) (sec_area m'') m'' a e (ps @ [s]) t"
      "\<forall>g. h + 16 \<le> 16 * g \<longrightarrow> 16 * g < h + 16 + t \<longrightarrow> tagm m'' g = ptr_tag q'"
      "\<forall>g. 16 * g < h \<or> h + 16 + t \<le> 16 * g \<longrightarrow> tagm m'' g = tagm m g"
      "tags_sep (tagm m'') a (ps @ [s, t]) (unat (ctx_tag_gen m''))"
      unfolding h t using S(3) by metis
    with r have q: "q' = q" "m'' = m'" by simp_all
    have "q \<noteq> 0" using M(1) by (auto simp: q phys_def)
    have I: "16 dvd a" "blocks (ram m) a ps" "16 dvd s" using S(2) by (simp_all add: heap_inv_def Let_def)
    have "16 dvd h" unfolding h using I by (intro hend_dvd) (auto dest: blocks_dvd)
    then obtain b where b: "h = 16 * b" by (elim dvdE)
    have old: "heap_block_at m' a ((ps @ [s]) @ [t]) q1 z1" if mem: "(q1, z1) \<in> set bs" for q1 z1
    proof -
      obtain xs ys where x: "ps @ [s] = xs @ 16 * granules (unat z1) # ys" "phys q1 = hend a xs + 16"
        "ptr_tag q1 = tagm m (phys q1 div 16)" "z1 \<noteq> 0"
        using S(5) [OF mem] by (auto simp: heap_block_at_def)
      note B = block_bounds [OF I(2,3,1) x(1)]
      have "16 * granules (unat z1) \<noteq> 0" using granules_pos [of "unat z1"] x(4) by (simp add: unat_eq_zero)
      then have "16 * (phys q1 div 16) < h" using B(1,2) x(2) unfolding h by simp
      then have "ptr_tag q1 = tagm m' (phys q1 div 16)" using x(3) M(5) by (simp add: q)
      moreover have "(ps @ [s]) @ [t] = xs @ 16 * granules (unat z1) # (ys @ [t])" using x(1) by simp
      ultimately show ?thesis using x(2,4) unfolding heap_block_at_def by blast
    qed
    have "heap_block_at m' a ((ps @ [s]) @ [t]) q sz"
    proof -
      have "t \<noteq> 0" using granules_pos [of "unat sz"] 3(1) by (simp add: t unat_eq_zero)
      then have "16 \<le> t" by (simp add: t)
      then have "tagm m' (phys q div 16) = ptr_tag q" using M(4) M(1) b by (simp add: q)
      moreover have "(ps @ [s]) @ [t] = (ps @ [s]) @ 16 * granules (unat sz) # []" by (simp add: t)
      moreover have "phys q = hend a (ps @ [s]) + 16" using M(1) by (simp only: q h)
      ultimately show ?thesis using 3(1) unfolding heap_block_at_def by metis
    qed
    moreover have "tagm m' g = 0" if "hend a ((ps @ [s]) @ [t]) \<le> 16 * g" "16 * g \<le> e" for g
    proof -
      have "h + 16 + t \<le> 16 * g" using that(1) by (simp add: h)
      then have "tagm m' g = tagm m g" using M(5) by (simp add: q)
      then show ?thesis using S(4) [of g] \<open>h + 16 + t \<le> 16 * g\<close> that(2) by (simp add: h)
    qed
    ultimately show ?thesis using M(2,3,6) old \<open>q \<noteq> 0\<close> unfolding heap_state_def q
      by (intro conjI exI [of _ "ps @ [s]"] exI [of _ t]) auto
  qed
qed

lemma heap_state_store:
  assumes st: "heap_state a e bs m" and b: "(q, sz) \<in> set bs" and i: "i < unat sz"
    and r: "store8 (q + of_nat i) v m = Inr ((), m')"
  shows "heap_state a e bs m'"
proof -
  obtain ps s where S: "sec_ok m" "heap_inv (\<lambda>_. True) (sec_area m) m a e ps s"
    "tags_sep (tagm m) a (ps @ [s]) (unat (ctx_tag_gen m))"
    "\<And>g. hend a (ps @ [s]) \<le> 16 * g \<Longrightarrow> 16 * g \<le> e \<Longrightarrow> tagm m g = 0"
    "\<And>q sz. (q, sz) \<in> set bs \<Longrightarrow> heap_block_at m a (ps @ [s]) q sz"
    by (rule heap_stateE [OF st]) (rule that)
  have i': "i < 16 * granules (unat sz)" using i granules_covers(1) [of "unat sz"] by simp
  note p = access_ok_field(2) [OF heap_state_bounds(1) [OF st b zero_less_numeral] i']
  obtain xs ys where x: "ps @ [s] = xs @ 16 * granules (unat sz) # ys" "phys q = hend a xs + 16"
    using S(5) [OF b] by (auto simp: heap_block_at_def)
  let ?x = "phys q + i" and ?r = "(ram m)(phys q + i := v)"
  have I: "16 dvd a" "blocks (ram m) a ps" "16 dvd s" "hend a (ps @ [s]) \<le> e" "sec_area m \<inter> {a ..< e} = {}"
    "unat (mem_info m) + 16 \<le> a \<or> e \<le> unat (mem_info m)"
    using S(2) by (simp_all add: heap_inv_def Let_def)
  note B = block_bounds [OF I(2,3,1) x(1)]
  have in_heap: "a \<le> ?x" "?x < e" using hend_ge [of a xs] B(1) I(4) i' x(2) by linarith+
  have "?x \<in> {hend a xs + 16 ..< hend a xs + 16 + 16 * granules (unat sz)}" using i' x(2) by simp
  then have "?x \<notin> hdrs a (ps @ [s])" using B(4) by blast
  moreover have out: "?x \<notin> sec_area m" "?x \<notin> {unat (mem_info m) ..< unat (mem_info m) + 16}" using in_heap I(5,6) by auto
  ultimately have hi: "heap_inv (\<lambda>_. True) (sec_area m) (m\<lparr>ram := ?r\<rparr>) a e ps s"
    by (intro heap_inv_user_write [OF S(2)]) (metis fun_upd_other, metis fun_upd_other atLeastLessThan_iff)
  have "?r x = ram m x" if "x \<in> sec_area m" for x using out(1) that by auto
  then have so: "sec_ok (m\<lparr>ram := ?r\<rparr>)" "get32 ?r (phys (sec_cntx m)) = ctx_tag_gen m"
    using sec_ok_frame [OF S(1), of ?r] by blast+
  have m': "m' = m\<lparr>ram := ?r\<rparr>" using r p by (simp add: store8_def split: if_splits)
  have "heap_block_at m' = heap_block_at m" by (simp add: m' heap_block_at_def fun_eq_iff)
  moreover have "sec_area m' = sec_area m" by (simp add: m' sec_area_def)
  ultimately show ?thesis
    using S(3,4,5) hi so unfolding heap_state_def m' by (intro conjI exI [of _ ps] exI [of _ s]) (auto simp: m')
qed

lemma heap_run_state: "heap_run m\<^sub>0 bs m \<Longrightarrow> heap_state a e [] m\<^sub>0 \<Longrightarrow> heap_state a e bs m"
proof (induction rule: heap_run.induct)
  case (allocated bs m sz q m')
  then show ?case using heap_state_malloc [of a e bs m sz q m'] by simp
next
  case (refused bs m sz m')
  then show ?case using heap_state_malloc [of a e bs m sz 0 m'] by simp
qed (auto intro: heap_state_store)



end
