(* ===== verification/LibcMemmove.thy ===== *)
theory LibcMemmove
  imports LibcMalloc
begin

text \<open>
  \<^verbatim>\<open>memmove\<close> of \<^verbatim>\<open>string.c\<close>, which copies through a buffer from
  \<^verbatim>\<open>malloc\<close>. It is correct for overlapping ranges as long as the heap has
  room for the buffer; every call uses up heap, because \<^verbatim>\<open>free\<close> does nothing.
\<close>

definition memmove :: "sec_ops \<Rightarrow> u32 \<Rightarrow> u32 \<Rightarrow> u32 \<Rightarrow> u32 mach" where
  "memmove so dest src n =
     sbind (malloc so n) (\<lambda>temp.
     sbind (memcpy_loop (unat n) temp src) (\<lambda>_.
     sbind (memcpy_loop (unat n) dest temp) (\<lambda>_.
     sbind (free temp) (\<lambda>_. sret dest))))"

text \<open>A range of user memory: no heap bookkeeping, no free part of the arena.\<close>

definition user_range :: "machine \<Rightarrow> nat \<Rightarrow> nat \<Rightarrow> nat list \<Rightarrow> nat \<Rightarrow> nat \<Rightarrow> bool" where
  "user_range m a e ss p n \<longleftrightarrow>
     {p ..< p + n} \<inter> (sec_area m \<union> {unat (mem_info m) ..< unat (mem_info m) + 16}
       \<union> hdrs a ss \<union> {hend a ss ..< e}) = {}"

lemma bytes_cong: "(\<And>x. x \<in> {a ..< a + n} \<Longrightarrow> r' x = r x) \<Longrightarrow> bytes r' a n = bytes r a n"
  by (simp add: bytes_def)

lemma disjoint_range:
  fixes p :: nat
  assumes "{p ..< p + n} \<inter> {h ..< e} = {}" and "0 < n" and "h < e"
  shows "p + n \<le> h \<or> e \<le> p"
proof (rule ccontr)
  assume "\<not> ?thesis"
  then have "max p h \<in> {p ..< p + n} \<inter> {h ..< e}" using assms(2,3) by auto
  with assms(1) show False by blast
qed

text \<open>
  \<^verbatim>\<open>memmove\<close> copies correctly also for overlapping ranges, as long as the heap has room for its temporary
  buffer; it keeps the heap well formed and changes no other user memory.\<close>

theorem memmove_correct:
  assumes "sec_ok m" and inv: "heap_inv (\<lambda>_. True) (sec_area m) m a e ps s"
    and "csr_mstatus m AND 8 \<noteq> 0" and "n \<noteq> 0" and n: "unat n \<le> 0xfffffff0"
    and fits: "hend a (ps @ [s]) + 16 + 16 * granules (unat n) \<le> e"
    and d: "access_ok m dest (unat n)" "user_range m a e (ps @ [s]) (phys dest) (unat n)"
    and src: "access_ok m src (unat n)" "user_range m a e (ps @ [s]) (phys src) (unat n)"
  shows "\<exists>m'. memmove security_c dest src n m = Inr (dest, m')
    \<and> bytes (ram m') (phys dest) (unat n) = bytes (ram m) (phys src) (unat n)
    \<and> sec_ok m' \<and> heap_inv (\<lambda>_. True) (sec_area m) m' a e (ps @ [s]) (16 * granules (unat n))
    \<and> (\<forall>x. x \<notin> {phys dest ..< phys dest + unat n} \<and> user_range m a e (ps @ [s]) x 1 \<longrightarrow> ram m' x = ram m x)"
proof -
  define h N where h: "h = hend a (ps @ [s])" and N: "N = 16 * granules (unat n)"
  have so: "so_protect security_c = ossec_protect_ptr" "so_secure security_c = ossec_get_secure_ptr"
    "so_essence security_c = ossec_get_essence" by (simp_all add: security_c_def)
  have un: "unat (aligntonext n 4) = N" using aligntonext_exact [OF n] N by simp
  have le: "unat n \<le> N" unfolding N by (rule granules_covers)
  have I: "e + 16 \<le> 268435456" "16 dvd a" "blocks (ram m) a ps" "16 dvd s"
    "sec_area m \<inter> {a ..< e} = {}" "unat (mem_info m) + 16 \<le> a \<or> e \<le> unat (mem_info m)"
    using inv by (simp_all add: heap_inv_def Let_def)
  have al: "16 dvd h" unfolding h using I(2-4) by (intro hend_dvd) (auto dest: blocks_dvd)
  have ge: "a \<le> h" unfolding h by (rule hend_ge)
  have e1: "malloc security_c n m = malloc_new security_c (aligntonext n 4) m"
    by (rule sec.malloc_reaches_new [OF assms(1,2) so(2) assms(4,3)])
  obtain q m1 where m1: "malloc security_c n m = Inr (q, m1)" "phys q = h + 16" "access_ok m1 q N"
    "sec_ok m1" "sec_area m1 = sec_area m"
    "heap_inv (\<lambda>_. True) (sec_area m) m1 a e (ps @ [s]) N" "csr_tags m1 = csr_tags m" "mem_info m1 = mem_info m"
    "\<forall>x. x \<notin> sec_area m \<and> x \<notin> {unat (mem_info m) ..< unat (mem_info m) + 16}
          \<and> x \<notin> hdrs a (ps @ [s, N]) \<longrightarrow> ram m1 x = ram m x"
    "\<forall>g. 16 * g < h \<or> h + 16 + N \<le> 16 * g \<longrightarrow> tagm m1 g = tagm m g"
    using sec.malloc_new_fits [OF assms(1,2) so, of "aligntonext n 4"] un fits e1
    by (auto simp: h N add.assoc)
  have hN: "h + 16 + N \<le> e" "hdrs a (ps @ [s, N]) = hdrs a (ps @ [s]) \<union> {h ..< h + 16}"
    using fits by (auto simp: h N)
  \<comment> \<open>user ranges stay accessible and keep their contents\<close>
  have out: "p + unat n \<le> h \<or> e \<le> p" if "user_range m a e (ps @ [s]) p (unat n)" for p
  proof (rule disjoint_range)
    show "{p ..< p + unat n} \<inter> {h ..< e} = {}" using that unfolding user_range_def h by blast
  qed (use hN(1) \<open>n \<noteq> 0\<close> in \<open>auto simp: word_unat_eq_iff\<close>)
  have acc: "access_ok m1 p (unat n)"
    if "access_ok m p (unat n)" "user_range m a e (ps @ [s]) (phys p) (unat n)" for p
  proof (rule access_ok_same_tags [OF that(1) m1(7)])
    fix x assume x: "x \<in> {phys p ..< phys p + unat n}"
    have "16 dvd h + 16 + N" using al by (simp add: N)
    with x out [OF that(2)] hN(1) have "16 * (x div 16) < h \<or> h + 16 + N \<le> 16 * (x div 16)"
      by (auto elim!: dvdE)
    with m1(10) show "tagm m1 (x div 16) = tagm m (x div 16)" by blast
  qed
  have keep: "ram m1 x = ram m x" if "user_range m a e (ps @ [s]) x 1" for x
    using that m1(9) hN by (auto simp: user_range_def h)
  have src_m1: "bytes (ram m1) (phys src) (unat n) = bytes (ram m) (phys src) (unat n)"
    using src(2) by (intro bytes_cong keep) (auto simp: user_range_def)
  \<comment> \<open>the two copies\<close>
  let ?bs = "bytes (ram m) (phys src) (unat n)"
  define m2 where m2: "m2 = m1\<lparr>ram := wr (ram m1) (h + 16) ?bs\<rparr>"
  define m3 where m3: "m3 = m2\<lparr>ram := wr (ram m2) (phys dest) ?bs\<rparr>"
  have qa: "access_ok m1 q (unat n)" using m1(3) le by (rule access_ok_mono)
  have "apart (phys q) (unat n) (phys src) (unat n)" "apart (phys dest) (unat n) (phys q) (unat n)"
    using out [OF src(2)] out [OF d(2)] hN(1) le m1(2) by (auto simp: apart_def)
  then have c1: "memcpy_loop (unat n) q src m1 = Inr ((), m2)"
    and c2: "memcpy_loop (unat n) dest q m2 = Inr ((), m3)"
    using memcpy_loop_wr [OF qa acc [OF src]] memcpy_loop_wr [of m2 dest "unat n" q] qa acc [OF d]
      bytes_wr_same [of "ram m1" "h + 16" ?bs]
    by (simp_all add: m1(2) m2 m3 src_m1)
  have run: "memmove security_c dest src n m = Inr (dest, m3)"
    using m1(1) c1 c2 by (simp add: memmove_def free_def)
  \<comment> \<open>nothing else changed\<close>
  have rest: "ram m3 x = ram m1 x" if "x \<notin> {phys dest ..< phys dest + unat n}" "x \<notin> {h + 16 ..< h + 16 + N}" for x
    using that le by (auto simp: m3 m2 wr_def)
  have "bytes (ram m3) (phys dest) (unat n) = ?bs"
    using bytes_wr_same [of "ram m2" "phys dest" ?bs] by (simp add: m3)
  moreover have bk: "ram m3 x = ram m1 x"
    if "x \<in> sec_area m \<union> {unat (mem_info m) ..< unat (mem_info m) + 16} \<union> hdrs a (ps @ [s, N])" for x
  proof (rule rest)
    have "x \<in> sec_area m \<union> {unat (mem_info m) ..< unat (mem_info m) + 16} \<union> hdrs a (ps @ [s]) \<union> {h ..< e}"
      using that hN(1) unfolding hN(2) by auto
    then show "x \<notin> {phys dest ..< phys dest + unat n}"
      using d(2) unfolding user_range_def h by blast
    show "x \<notin> {h + 16 ..< h + 16 + N}"
      using that I(5,6) ge hN hdrs_bounds [of x a "ps @ [s]"] by (auto simp: h)
  qed
  have m3': "m3 = m1\<lparr>ram := ram m3\<rparr>" by (simp add: m3 m2)
  have "sec_ok m3"
    by (subst m3', rule sec_ok_frame(1) [OF m1(4)]) (simp add: bk m1(5))
  moreover have "heap_inv (\<lambda>_. True) (sec_area m) m3 a e (ps @ [s]) N"
    by (subst m3', rule heap_inv_user_write [OF m1(6)]) (auto simp: bk m1(8))
  moreover have "ram m3 x = ram m x"
    if "x \<notin> {phys dest ..< phys dest + unat n}" "user_range m a e (ps @ [s]) x 1" for x
    using rest [OF that(1)] keep [OF that(2)] that(2) hN(1) by (auto simp: user_range_def h)
  ultimately show ?thesis using run by (auto simp: N)
qed


theorem memmove_correct_witness:
  "\<exists>m q m'. access_ok m q 32 \<and> memmove security_c (q + 4) q 8 m = Inr (q + 4, m')
     \<and> bytes (ram m') (phys q + 4) 8 = bytes (ram m) (phys q) 8"
proof -
  obtain m q where m: "sec_ok m" "heap_inv (\<lambda>_. True) (sec_area m) m 0x1000 0x1100 [0, 32] 16"
    "phys q = 0x1020" "access_ok m q 32" "csr_mstatus m = 8" "sec_area m = {256 ..< 272}" "mem_info m = 512"
    using boot_two_blocks by auto
  have p: "phys (q + 4) = 0x1024" using m(3) phys_add [of q 4] by simp
  have d: "access_ok m (q + 4) 8" "access_ok m q 8"
    using access_ok_shift(2) [of m q 4 28] m(4) by (auto intro: access_ok_mono)
  have u: "user_range m 0x1000 0x1100 ([0, 32] @ [16]) a 8" if "a = 0x1020 \<or> a = 0x1024" for a
    using that m(6,7) by (auto simp: user_range_def)
  from memmove_correct [OF m(1,2), of 8 "q + 4" q] m d p u [of "0x1020"] u [of "0x1024"]
  obtain m' where "memmove security_c (q + 4) q 8 m = Inr (q + 4, m')" "bytes (ram m') 4132 8 = bytes (ram m) 4128 8"
    by (auto simp: granules_def)
  with m(3,4) show ?thesis by (intro exI [of _ m] exI [of _ q] exI [of _ m']) simp
qed

end
