(* ===== verification/TimerRegs.thy ===== *)
theory TimerRegs
  imports Prelude
begin

text \<open>
  The 64-bit registers of the RISC-V machine timer on a 32-bit bus, which the
  libc (\<^verbatim>\<open>os.c\<close>) and the Zephyr driver (\<^verbatim>\<open>riscv_machine_timer.c\<close>)
  access with the same code: reading the running counter without tearing, and
  writing the comparator without a value in between that fires.
\<close>

section \<open>Accesses\<close>

definition hi32 :: "u64 \<Rightarrow> u32" where "hi32 t = ucast (drop_bit 32 t)"
definition lo32 :: "u64 \<Rightarrow> u32" where "lo32 t = ucast t"

definition join64 :: "u32 \<Rightarrow> u32 \<Rightarrow> u64" where
  "join64 hi lo = push_bit 32 (ucast hi) OR ucast lo"

text \<open>
  The reading loop of \<^verbatim>\<open>mtime\<close> on the timer \<open>c\<close>
  from bus access \<open>k\<close> on: the value and the number of accesses done.
\<close>

fun read_timer :: "nat \<Rightarrow> (nat \<Rightarrow> u64) \<Rightarrow> nat \<Rightarrow> (u64 \<times> nat) option" where
  "read_timer 0 c k = None"
| "read_timer (Suc f) c k =
     (let hi = hi32 (c k); lo = lo32 (c (k + 1)) in
      if hi32 (c (k + 2)) \<noteq> hi then read_timer f c (k + 3) else Some (join64 hi lo, k + 3))"

text \<open>The three writes of \<^verbatim>\<open>set_mtimecmp\<close>: the register's value after each of them.\<close>

definition mtimecmp_writes :: "u64 \<Rightarrow> u64 \<Rightarrow> u64 list" where
  "mtimecmp_writes old t =
     (let w1 = join64 0xffffffff (lo32 old); w2 = join64 (hi32 w1) (lo32 t);
          w3 = join64 (hi32 t) (lo32 w2) in [w1, w2, w3])"

section \<open>Joining and splitting 64-bit values\<close>

lemma hi32_join64 [simp]: "hi32 (join64 h l) = h"
  by (rule bit_word_eqI) (auto simp: hi32_def join64_def bit_simps dest: bit_imp_le_length)

lemma lo32_join64 [simp]: "lo32 (join64 h l) = l"
  by (rule bit_word_eqI) (auto simp: lo32_def join64_def bit_simps)

lemma join64_hi_lo [simp]: "join64 (hi32 t) (lo32 t) = t"
proof (rule bit_word_eqI)
  fix n assume "n < LENGTH(64)"
  then show "bit (join64 (hi32 t) (lo32 t)) n = bit t n"
    by (cases "n < 32") (auto simp: hi32_def lo32_def join64_def bit_simps)
qed

lemma unat_hi32: "unat (hi32 t) = unat t div 4294967296"
proof -
  have "unat t div 4294967296 < 4294967296"
    using unsigned_less [of t, where ?'a = nat] by (simp add: less_mult_imp_div_less)
  then show ?thesis
    by (simp add: hi32_def unat_shift_right unsigned_ucast_eq take_bit_nat_eq_self)
qed

lemma hi32_mono: "a \<le> b \<Longrightarrow> hi32 a \<le> hi32 b"
  by (simp add: word_le_nat_alt unat_hi32 div_le_mono)

section \<open>Reading the timer\<close>

text \<open>A timer that does not run backwards (it does not wrap around its 64 bits).\<close>

definition steady :: "(nat \<Rightarrow> u64) \<Rightarrow> bool" where
  "steady c \<longleftrightarrow> (\<forall>i j. i \<le> j \<longrightarrow> c i \<le> c j)"

lemma read_timer_exact:
  assumes "steady c" and "read_timer f c k = Some (t, k')"
  shows "\<exists>i. k \<le> i \<and> i < k' \<and> t = c i"
  using assms(2)
proof (induction f arbitrary: k)
  case (Suc f)
  show ?case
  proof (cases "hi32 (c (k + 2)) = hi32 (c k)")
    case True
    have "hi32 (c k) \<le> hi32 (c (k + 1))" "hi32 (c (k + 1)) \<le> hi32 (c (k + 2))"
      using assms(1) by (auto simp: steady_def intro!: hi32_mono)
    with True have "hi32 (c k) = hi32 (c (k + 1))" by simp
    with True Suc.prems show ?thesis by (auto intro!: exI [of _ "k + 1"])
  next
    case False
    with Suc.prems have "read_timer f c (k + 3) = Some (t, k')" by (simp add: Let_def)
    from Suc.IH [OF this] obtain i where "k + 3 \<le> i" "i < k'" "t = c i" by blast
    then show ?thesis by (intro exI [of _ i]) simp
  qed
qed simp

lemma one_rollover:
  fixes N :: nat
  assumes "a div N \<noteq> b div N" and "d < a + N" and "a \<le> b" and "b \<le> c" and "c \<le> d"
  shows "d div N = c div N"
proof -
  have "0 < N" using assms by (cases N) auto
  then have "(a + N) div N = a div N + 1" by (simp add: div_add_self2)
  moreover have "d div N \<le> (a + N) div N" using assms(2) by (intro div_le_mono) simp
  moreover have "a div N \<le> b div N" "b div N \<le> c div N" "c div N \<le> d div N"
    using assms(3-5) by (simp_all add: div_le_mono)
  ultimately show ?thesis using assms(1) by linarith
qed

lemma read_timer_returns:
  assumes "steady c" and "unat (c (k + 5)) - unat (c k) < 2 ^ 32"
  shows "\<exists>t k'. read_timer 2 c k = Some (t, k') \<and> k' \<le> k + 6"
proof -
  have le: "unat (c i) \<le> unat (c j)" if "i \<le> j" for i j
    using assms(1) that by (simp add: steady_def word_le_nat_alt)
  have "hi32 (c (k + 5)) = hi32 (c (k + 3))" if "hi32 (c (k + 2)) \<noteq> hi32 (c k)"
  proof -
    have "unat (c k) div 4294967296 \<noteq> unat (c (k + 2)) div 4294967296"
      using that by (auto simp: word_unat_eq_iff unat_hi32)
    moreover have "unat (c (k + 5)) < unat (c k) + 4294967296" using assms(2) by simp
    ultimately have "unat (c (k + 5)) div 4294967296 = unat (c (k + 3)) div 4294967296"
      using le [of k "k + 2"] le [of "k + 2" "k + 3"] le [of "k + 3" "k + 5"]
      by (intro one_rollover) simp_all
    then show ?thesis by (simp add: word_unat_eq_iff unat_hi32)
  qed
  then show ?thesis by (auto simp: numeral_2_eq_2 Let_def add.commute)
qed

section \<open>Writing the comparator\<close>

lemma mtimecmp_writes_last: "last (mtimecmp_writes old t) = t"
  by (simp add: mtimecmp_writes_def Let_def)

lemma mtimecmp_writes_above:
  assumes "now < t" and "now < 0xffffffff00000000" and "v \<in> set (mtimecmp_writes old t)"
  shows "now < v"
proof -
  have big: "0xffffffff00000000 \<le> join64 0xffffffff l" for l
  proof -
    have "hi32 (join64 0xffffffff l) = 0xffffffff" by simp
    then have "unat (join64 0xffffffff l) div 4294967296 = 0xffffffff"
      by (simp add: unat_hi32 [symmetric])
    then have "0xffffffff * 4294967296 \<le> unat (join64 0xffffffff l)" by linarith
    then show ?thesis by (simp add: word_le_nat_alt)
  qed
  have "now < join64 0xffffffff l" for l using assms(2) big [of l] by simp
  then show ?thesis using assms(1,3) by (auto simp: mtimecmp_writes_def Let_def)
qed

end
