(* ===== verification/LibcOs.thy ===== *)
theory LibcOs
  imports LibcMalloc TimerRegs
begin

text \<open>
  \<^verbatim>\<open>internals/os.c\<close>: the tables of exception and interrupt handlers, the
  machine timer, the console byte and the start of the system. Handlers are
  code of the application: \<open>call h n s\<close> is the state after handler \<open>h\<close> ran for
  cause \<open>n\<close>. The timer runs while the program reads it: \<open>clock k\<close> is its value at
  the \<open>k\<close>-th access to the bus. Also \<^verbatim>\<open>time.c\<close>.
\<close>

section \<open>State\<close>

record os_state =
  EXC_service :: "u32 list"
  INT_service :: "u32 list"
  clock :: "nat \<Rightarrow> u64"
  clock_ae :: "nat \<Rightarrow> u64"
  bus_pos :: nat
  mtimecmp :: u64
  mtimefreq :: u64
  mie :: u32
  mip :: u32
  uart_out :: "u8 list"

type_synonym 'a os = "os_state \<Rightarrow> fault + 'a \<times> os_state"

definition RISCV_EXC_TOTAL :: int where "RISCV_EXC_TOTAL = 16"
definition RISCV_INT_TOTAL :: int where "RISCV_INT_TOTAL = 17"
definition RISCV_INT_SM_PANIC :: int where "RISCV_INT_SM_PANIC = 16"

section \<open>Handler tables\<close>

definition register_exc_handler :: "int \<Rightarrow> u32 \<Rightarrow> os_state \<Rightarrow> u32 \<times> os_state" where
  "register_exc_handler exc h s =
     (let exc = (if exc < 0 then RISCV_EXC_TOTAL else exc) in
      if exc < RISCV_EXC_TOTAL
      then (EXC_service s ! nat exc, s\<lparr>EXC_service := (EXC_service s)[nat exc := h]\<rparr>)
      else (- 1, s))"

definition register_int_handler :: "int \<Rightarrow> u32 \<Rightarrow> os_state \<Rightarrow> u32 \<times> os_state" where
  "register_int_handler n h s =
     (let n = (if n < 0 then RISCV_INT_TOTAL else n) in
      if n < RISCV_INT_TOTAL
      then (INT_service s ! nat n, s\<lparr>INT_service := (INT_service s)[nat n := h]\<rparr>)
      else (- 1, s))"

definition exc_serve :: "(u32 \<Rightarrow> int \<Rightarrow> os_state \<Rightarrow> os_state) \<Rightarrow> int \<Rightarrow> int os" where
  "exc_serve call exc s =
     (if exc < 0 \<or> exc \<ge> RISCV_EXC_TOTAL then Inr (- 1, s) else
      let h = EXC_service s ! nat exc;
          s = (if h \<noteq> 0 then call h exc s else s)
      in Inr (0, s))"

text \<open>\<^verbatim>\<open>_ossec_panic\<close> prints and calls \<^verbatim>\<open>exit(42)\<close>; it does not return.\<close>

definition int_serve :: "(u32 \<Rightarrow> int \<Rightarrow> os_state \<Rightarrow> os_state) \<Rightarrow> int \<Rightarrow> int os" where
  "int_serve call n s =
     (if n < 0 \<or> n \<ge> RISCV_INT_TOTAL then Inr (- 1, s) else
      let h = INT_service s ! nat n;
          s = (if h \<noteq> 0 then call h n s else s)
      in if n = RISCV_INT_SM_PANIC then Inl (Exit_status 42) else Inr (0, s))"

section \<open>The machine timer\<close>

definition mtime :: "nat \<Rightarrow> u64 os" where
  "mtime f s = (case read_timer f (clock s) (bus_pos s) of
     None \<Rightarrow> Inl No_return | Some (t, k) \<Rightarrow> Inr (t, s\<lparr>bus_pos := k\<rparr>))"

definition mtime_alw_en :: "nat \<Rightarrow> u64 os" where
  "mtime_alw_en f s = (case read_timer f (clock_ae s) (bus_pos s) of
     None \<Rightarrow> Inl No_return | Some (t, k) \<Rightarrow> Inr (t, s\<lparr>bus_pos := k\<rparr>))"

definition time_c :: "nat \<Rightarrow> u64 os" where
  "time_c f = mtime_alw_en f"

definition set_mtimecmp :: "u64 \<Rightarrow> os_state \<Rightarrow> os_state" where
  "set_mtimecmp t s = s\<lparr>mtimecmp := last (mtimecmp_writes (mtimecmp s) t), bus_pos := bus_pos s + 3\<rparr>"

definition set_mtimefreq :: "u64 \<Rightarrow> os_state \<Rightarrow> os_state" where
  "set_mtimefreq t s =
     (let w1 = join64 (hi32 t) (lo32 (mtimefreq s)); w2 = join64 (hi32 w1) (lo32 t) in
      s\<lparr>mtimefreq := w2, bus_pos := bus_pos s + 2\<rparr>)"

definition alarm_soc_timer :: "nat \<Rightarrow> int \<Rightarrow> bool os" where
  "alarm_soc_timer f interval =
     (if interval < 0 then sret False else
      sbind (mtime f) (\<lambda>t.
      sbind (smod (set_mtimecmp (t + of_int interval))) (\<lambda>_.
      sbind (smod (set_mtimefreq 1)) (\<lambda>_.
      sbind (smod (\<lambda>s. s\<lparr>mie := mie s OR 0x80\<rparr>)) (\<lambda>_. sret True)))))"

definition alarm_soc_timer_stop :: "os_state \<Rightarrow> os_state" where
  "alarm_soc_timer_stop s =
     set_mtimecmp 0 (s\<lparr>mie := mie s AND ((- 1) XOR 0x80), mip := 0\<rparr>)"

definition putchar_c :: "u8 \<Rightarrow> os_state \<Rightarrow> os_state" where
  "putchar_c ch s = (if ch = 0 then s else s\<lparr>uart_out := uart_out s @ [ch]\<rparr>)"

section \<open>Start of the system\<close>

definition soc_init :: "sec_ops \<Rightarrow> nat \<Rightarrow> init_ctx \<Rightarrow> unit mach" where
  "soc_init so f ctx =
     sbind (so_init so f) (\<lambda>r. if r = 0
       then sbind (printf_msg ''LIBC: <PANIC> could not initialize security subsystem'')
              (\<lambda>_. sfail (Exit_status 253))
       else sbind (malloc_init so ctx) (\<lambda>b. if \<not> b
       then sbind (printf_msg ''LIBC: <PANIC> could not initialize memory subsystem'')
              (\<lambda>_. sfail (Exit_status 254))
       else sret ()))"

section \<open>Correctness\<close>

definition tables_ok :: "os_state \<Rightarrow> bool" where
  "tables_ok s \<longleftrightarrow> length (EXC_service s) = 16 \<and> length (INT_service s) = 17"

lemma int_handler_cases:
  "register_int_handler n h s =
     (if 0 \<le> n \<and> n < 17 then (INT_service s ! nat n, s\<lparr>INT_service := (INT_service s)[nat n := h]\<rparr>)
      else (- 1, s))"
  by (simp add: register_int_handler_def RISCV_INT_TOTAL_def Let_def)

lemma exc_handler_cases:
  "register_exc_handler n h s =
     (if 0 \<le> n \<and> n < 16 then (EXC_service s ! nat n, s\<lparr>EXC_service := (EXC_service s)[nat n := h]\<rparr>)
      else (- 1, s))"
  by (simp add: register_exc_handler_def RISCV_EXC_TOTAL_def Let_def)

text \<open>A registered interrupt handler is the one that serves its interrupt, no other entry changes, and the
  previous handler is returned; the panic interrupt never returns to the program.\<close>

theorem registered_handler_serves:
  assumes "tables_ok s" and "0 \<le> n" and "n < 17" and "h \<noteq> 0"
  shows "\<exists>s'. register_int_handler n h s = (INT_service s ! nat n, s') \<and> tables_ok s'
    \<and> int_serve call n s' = (if n = 16 then Inl (Exit_status 42) else Inr (0, call h n s'))
    \<and> (\<forall>k. 0 \<le> k \<and> k < 17 \<and> k \<noteq> n \<longrightarrow> INT_service s' ! nat k = INT_service s ! nat k)
    \<and> fst (register_int_handler n (INT_service s ! nat n) s') = h"
  using assms
  by (auto simp: int_handler_cases tables_ok_def int_serve_def RISCV_INT_TOTAL_def
      RISCV_INT_SM_PANIC_def Let_def nth_list_update)

text \<open>Trap numbers out of range are refused, in registration and in service, without touching the tables.\<close>

theorem trap_numbers_checked:
  assumes "n < 0 \<or> 17 \<le> n" and "k < 0 \<or> 16 \<le> k"
  shows "int_serve call n s = Inr (- 1, s) \<and> exc_serve call k s = Inr (- 1, s)
    \<and> register_int_handler n h s = (- 1, s) \<and> register_exc_handler k h s = (- 1, s)"
  using assms
  by (auto simp: int_handler_cases exc_handler_cases int_serve_def exc_serve_def
      RISCV_INT_TOTAL_def RISCV_EXC_TOTAL_def)

text \<open>
  C39. Reading the 64-bit timer in two halves never tears: the result is a value the counter really had during
  the call, and at most two rounds are needed.\<close>

theorem mtime_reads_the_clock:
  assumes "steady (clock s)" and "unat (clock s (bus_pos s + 5)) - unat (clock s (bus_pos s)) < 2 ^ 32"
  shows "\<exists>i. bus_pos s \<le> i \<and> i < bus_pos s + 6 \<and> (\<exists>s'. mtime 2 s = Inr (clock s i, s'))"
proof -
  obtain t k' where r: "read_timer 2 (clock s) (bus_pos s) = Some (t, k')" "k' \<le> bus_pos s + 6"
    using read_timer_returns [OF assms] by blast
  from read_timer_exact [OF assms(1) r(1)] obtain i where "bus_pos s \<le> i" "i < k'" "t = clock s i" by blast
  with r show ?thesis by (intro exI [of _ i]) (simp add: mtime_def)
qed

text \<open>
  While the comparator is changed in two halves, no value it takes on has been reached by the present time,
  whatever it held before, if the new deadline has not; at the end it holds the deadline.\<close>

theorem mtimecmp_no_spurious_interrupt:
  assumes "now < t" and "now < 0xffffffff00000000" and "v \<in> set (mtimecmp_writes old t)"
  shows "now < v \<and> mtimecmp (set_mtimecmp t s) = t"
  using mtimecmp_writes_above [OF assms] by (simp add: set_mtimecmp_def mtimecmp_writes_last)

text \<open>Setting an alarm programs the deadline and enables exactly the timer interrupt.\<close>

theorem alarm_sets_deadline:
  assumes "mtime f s = Inr (now, s1)" and "0 \<le> interval"
  shows "\<exists>s'. alarm_soc_timer f interval s = Inr (True, s')
    \<and> mtimecmp s' = now + of_int interval \<and> mtimefreq s' = 1 \<and> bit (mie s') 7
    \<and> (\<forall>i. i \<noteq> 7 \<longrightarrow> bit (mie s') i = bit (mie s1) i)"
proof -
  have "mtimecmp (set_mtimecmp t x) = t" for t x
    by (simp add: set_mtimecmp_def mtimecmp_writes_last)
  moreover have "mtimefreq (set_mtimefreq t x) = t" for t x
    by (simp add: set_mtimefreq_def Let_def)
  moreover have "mie (set_mtimefreq t (set_mtimecmp u x)) = mie x"
    "mtimecmp (set_mtimefreq t x) = mtimecmp x" for t u x
    by (simp_all add: set_mtimefreq_def set_mtimecmp_def Let_def)
  moreover have "(0x80 :: u32) = push_bit 7 1" by simp
  then have "bit (w OR 0x80 :: u32) 7" "i \<noteq> 7 \<Longrightarrow> bit (w OR 0x80 :: u32) i = bit w i" for w i
    by (auto simp only: bit_simps) (auto simp: bit_simps)
  ultimately show ?thesis
    using assms by (simp add: alarm_soc_timer_def)
qed

text \<open>
  The start of the system ends with the security layer set up and an empty, well formed heap.\<close>

theorem soc_init_ready:
  assumes "access_ok m (sec_cntx m) 16" and "16 dvd phys (sec_cntx m)"
    and "\<forall>g. tagm m g < 16" and "fair_rnd (rnd_seq m) f"
    and "arena_ok (sec_area m) (unat (mem_info m)) (unat (heap_start ctx)) (unat (heap_end ctx))"
  shows "\<exists>m'. soc_init security_c f ctx m = Inr ((), m') \<and> sec_ok m'
    \<and> heap_inv (\<lambda>_. True) (sec_area m') m' (unat (heap_start ctx)) (unat (heap_end ctx)) [] 0
    \<and> tags_sep (tagm m') (unat (heap_start ctx)) [0] (unat (ctx_tag_gen m'))"
proof -
  obtain m1 where m1: "ossec_init f m = Inr (1, m1)" "sec_ok m1" "mem_info m1 = mem_info m" "sec_cntx m1 = sec_cntx m"
    using ossec_init_ok [OF assms(1-4)] by blast
  then have "sec_area m1 = sec_area m" by (simp add: sec_area_def)
  with sec.malloc_init_inv [OF m1(2), of security_c ctx] m1 assms(5) obtain m2 where
    "malloc_init security_c ctx m1 = Inr (True, m2)" "sec_ok m2" "sec_area m2 = sec_area m1"
    "heap_inv (\<lambda>_. True) (sec_area m1) m2 (unat (heap_start ctx)) (unat (heap_end ctx)) [] 0"
    by (auto simp: security_c_def)
  with m1 show ?thesis
    by (auto simp: soc_init_def security_c_def block_tags_def)
qed


section \<open>An example\<close>

definition demo_os :: os_state where
  "demo_os = \<lparr>EXC_service = replicate 16 0, INT_service = replicate 17 0, clock = (\<lambda>k. 0xffffffff + of_bool (2 \<le> k)),
     clock_ae = (\<lambda>_. 0), bus_pos = 0, mtimecmp = 0, mtimefreq = 0, mie = 0, mip = 0, uart_out = []\<rparr>"

theorem registered_handler_serves_witness:
  "\<exists>s'. register_int_handler 7 0x80 demo_os = (0, s') \<and> int_serve (\<lambda>h n s. s\<lparr>mip := h\<rparr>) 7 s' = Inr (0, s'\<lparr>mip := 0x80\<rparr>)"
proof -
  have "tables_ok demo_os" "INT_service demo_os ! nat 7 = 0" by (simp_all add: tables_ok_def demo_os_def)
  with registered_handler_serves [of demo_os 7 "0x80" "\<lambda>h n s. s\<lparr>mip := h\<rparr>"] show ?thesis by auto
qed

theorem trap_numbers_checked_witness: "exc_serve (\<lambda>h n s. s) 16 demo_os = Inr (- 1, demo_os)"
  using trap_numbers_checked [of 17 16 "\<lambda>h n s. s" demo_os] by simp

text \<open>The counter rolls over into its high half between the second and the third access.\<close>

theorem mtime_reads_the_clock_witness:
  "\<exists>i. i < 6 \<and> (\<exists>s'. mtime 2 demo_os = Inr (clock demo_os i, s'))"
proof -
  have "steady (clock demo_os)" by (auto simp: steady_def demo_os_def)
  moreover have "unat (clock demo_os (bus_pos demo_os + 5)) - unat (clock demo_os (bus_pos demo_os)) < 2 ^ 32"
    by (simp add: demo_os_def)
  ultimately show ?thesis using mtime_reads_the_clock [of demo_os] by (auto simp: demo_os_def)
qed

theorem mtimecmp_no_spurious_interrupt_witness:
  "5 < join64 0xffffffff 7 \<and> mtimecmp (set_mtimecmp 100 demo_os) = 100"
  using mtimecmp_no_spurious_interrupt [of 5 100 "join64 0xffffffff 7" 7 demo_os]
  by (simp add: mtimecmp_writes_def Let_def lo32_def)

theorem alarm_sets_deadline_witness:
  "\<exists>s'. alarm_soc_timer 1 50 (demo_os\<lparr>clock := \<lambda>_. 9\<rparr>) = Inr (True, s') \<and> mtimecmp s' = 59 \<and> bit (mie s') 7"
proof -
  have "mtime 1 (demo_os\<lparr>clock := \<lambda>_. 9\<rparr>) = Inr (9, demo_os\<lparr>clock := \<lambda>_. 9, bus_pos := 3\<rparr>)"
    by (simp add: mtime_def demo_os_def Let_def)
  from alarm_sets_deadline [OF this, of 50] show ?thesis by auto
qed

theorem soc_init_ready_witness:
  "\<exists>m'. soc_init security_c 2 boot_ctx boot_machine = Inr ((), m') \<and> sec_ok m'"
proof -
  have p: "phys (sec_cntx boot_machine) = 256" by (simp add: boot_machine_def phys_def)
  have "access_ok boot_machine (sec_cntx boot_machine) 16" using p by (simp add: access_ok_def tag_ok_def boot_machine_def)
  moreover have "arena_ok (sec_area boot_machine) (unat (mem_info boot_machine)) (unat (heap_start boot_ctx)) (unat (heap_end boot_ctx))"
    using p by (simp add: arena_ok_def sec_area_def boot_ctx_def) (simp add: boot_machine_def)
  ultimately show ?thesis
    using soc_init_ready [of boot_machine 2 boot_ctx] fair_rnd_boot p by (auto simp: boot_machine_def)
qed

end
