(* ===== verification/LibcMisc.thy ===== *)
theory LibcMisc
  imports LibcString
begin

text \<open>
  The remaining functions of the libc: \<^verbatim>\<open>ctype.c\<close>, the character classes and
  \<^verbatim>\<open>strtoul\<close> of \<^verbatim>\<open>strtoul/\<close>, the multiplication routine of
  \<^verbatim>\<open>asm/mulsi3.c\<close>, and the way a program ends (\<^verbatim>\<open>unistd.c\<close>,
  \<^verbatim>\<open>stdlib.c\<close>, \<^verbatim>\<open>assert.c\<close>, \<^verbatim>\<open>libc-start.c\<close>).
\<close>

section \<open>ctype.c\<close>

definition isalpha :: "int \<Rightarrow> int" where
  "isalpha c = of_bool ((c \<ge> 97 \<and> c \<le> 122) \<or> (c \<ge> 65 \<and> c \<le> 90))"

definition isdigit :: "int \<Rightarrow> int" where
  "isdigit c = (if c \<ge> 48 \<and> c \<le> 57 then c else 0)"

definition isxdigit :: "int \<Rightarrow> int" where
  "isxdigit c = of_bool ((c \<ge> 48 \<and> c \<le> 57) \<or> (c \<ge> 65 \<and> c \<le> 70) \<or> (c \<ge> 97 \<and> c \<le> 102))"

definition isspace :: "int \<Rightarrow> int" where
  "isspace c = of_bool (c = 32 \<or> c = 9)"

definition tolower :: "int \<Rightarrow> int" where
  "tolower c = (if isalpha c = 0 then c else if c \<ge> 65 \<and> c \<le> 90 then c + 32 else c)"

section \<open>Character classes of strtoul\<close>

definition ISSPACE :: "int \<Rightarrow> bool" where
  "ISSPACE c \<longleftrightarrow> c = 32 \<or> c = 9 \<or> c = 10 \<or> c = 13 \<or> c = 12 \<or> c = 11"

definition ISDIGIT :: "int \<Rightarrow> bool" where "ISDIGIT c \<longleftrightarrow> c \<ge> 48 \<and> c \<le> 57"
definition ISUPPER :: "int \<Rightarrow> bool" where "ISUPPER c \<longleftrightarrow> c \<ge> 65 \<and> c \<le> 90"
definition ISALPHA :: "int \<Rightarrow> bool" where "ISALPHA c \<longleftrightarrow> ISUPPER c \<or> (c \<ge> 97 \<and> c \<le> 122)"

section \<open>strtoul\<close>

text \<open>Bytes are unsigned characters on this target.\<close>

definition char_at :: "u32 \<Rightarrow> int mach" where
  "char_at p = sbind (load8 p) (\<lambda>b. sret (uint b))"

fun skip_spaces :: "nat \<Rightarrow> u32 \<Rightarrow> (int \<times> u32) mach" where
  "skip_spaces 0 s = sfail No_return"
| "skip_spaces (Suc f) s =
     sbind (char_at s) (\<lambda>c. if ISSPACE c then skip_spaces f (s + 1) else sret (c, s + 1))"

text \<open>The value of a digit, or nothing where the conversion stops.\<close>

definition digit_of :: "int \<Rightarrow> int \<Rightarrow> int option" where
  "digit_of base c =
     (if ISDIGIT c then (if c - 48 \<ge> base then None else Some (c - 48))
      else if ISALPHA c then
        (let d = c - (if ISUPPER c then 65 - 10 else 97 - 10) in if d \<ge> base then None else Some d)
      else None)"

text \<open>One digit: the accumulator and the state \<^verbatim>\<open>any\<close> of the conversion.\<close>

definition acc_digit :: "int \<Rightarrow> u32 \<times> int \<Rightarrow> int \<Rightarrow> u32 \<times> int" where
  "acc_digit base = (\<lambda>(acc, any) d.
     let cutoff = 0xffffffff div word_of_int base; cutlim = uint (0xffffffff mod (word_of_int base :: u32)) in
     if any < 0 \<or> acc > cutoff \<or> (acc = cutoff \<and> d > cutlim) then (acc, - 1)
     else (acc * word_of_int base + word_of_int d, 1))"

fun digits_loop :: "nat \<Rightarrow> int \<Rightarrow> int \<Rightarrow> u32 \<Rightarrow> u32 \<times> int \<Rightarrow> ((u32 \<times> int) \<times> u32) mach" where
  "digits_loop 0 base c s st = sfail No_return"
| "digits_loop (Suc f) base c s st =
     (case digit_of base c of None \<Rightarrow> sret (st, s)
      | Some d \<Rightarrow> sbind (char_at s) (\<lambda>c. digits_loop f base c (s + 1) (acc_digit base st d)))"

text \<open>The result is the number and whether \<^verbatim>\<open>errno\<close> was set to \<^verbatim>\<open>ERANGE\<close>.\<close>

definition strtoul :: "nat \<Rightarrow> u32 \<Rightarrow> u32 \<Rightarrow> int \<Rightarrow> (u32 \<times> bool) mach" where
  "strtoul f nptr endptr base =
     sbind (skip_spaces f nptr) (\<lambda>(c, s).
     sbind (if c = 45 then sbind (char_at s) (\<lambda>c. sret (True, c, s + 1))
            else if c = 43 then sbind (char_at s) (\<lambda>c. sret (False, c, s + 1))
            else sret (False, c, s)) (\<lambda>(neg, c, s).
     sbind (if (base = 0 \<or> base = 16) \<and> c = 48
            then sbind (char_at s) (\<lambda>x. if x = 120 \<or> x = 88
                   then sbind (char_at (s + 1)) (\<lambda>c. sret (c, s + 2, 16))
                   else sret (c, s, base))
            else sret (c, s, base)) (\<lambda>(c, s, base).
     let base = (if base = 0 then (if c = 48 then 8 else 10) else base) in
     sbind (digits_loop f base c s (0, 0)) (\<lambda>((acc, any), s).
     let acc' = (if any < 0 then 0xffffffff else if neg then - acc else acc) in
     sbind (if endptr \<noteq> 0 then store32 endptr (if any \<noteq> 0 then s - 1 else nptr) else sret ()) (\<lambda>_.
     sret (acc', any < 0))))))"

section \<open>mulsi3.c\<close>

function mulsi3_loop :: "u32 \<Rightarrow> u32 \<Rightarrow> u32 \<Rightarrow> u32" where
  "mulsi3_loop a b r =
     (if a = 0 then r
      else mulsi3_loop (drop_bit 1 a) (push_bit 1 b) (if a AND 1 \<noteq> 0 then r + b else r))"
  by auto
termination
proof (relation "measure (\<lambda>(a, b, r). unat a)")
  fix a b r :: u32
  assume "a \<noteq> 0"
  then have "0 < unat a" by (simp add: unat_gt_0)
  then show "((drop_bit 1 a, push_bit 1 b, if a AND 1 \<noteq> 0 then r + b else r), a, b, r)
      \<in> measure (\<lambda>(a, b, r). unat a)"
    by (simp add: unat_shift_right)
qed simp

declare mulsi3_loop.simps [simp del]

definition mulsi3 :: "u32 \<Rightarrow> u32 \<Rightarrow> u32" where
  "mulsi3 a b = mulsi3_loop a b 0"

section \<open>End of the program\<close>

text \<open>
  \<^verbatim>\<open>_exit\<close> reports through register \<^verbatim>\<open>ra\<close> at an \<^verbatim>\<open>ecall\<close>: the clamped
  value \<^verbatim>\<open>ustat\<close> is computed, the unclamped status is passed.
\<close>

definition exit_ra :: "int \<Rightarrow> u32" where
  "exit_ra status =
     (if status \<noteq> 0
      then (let ustat = (word_of_int status :: u32); ustat = (if ustat > 256 then 256 else ustat)
            in word_of_int status)
      else 0x0A11C001)"

definition exit_c :: "int \<Rightarrow> 'a mach" where
  "exit_c status = sfail (Exit_status status)"

definition abort_c :: "'a mach" where
  "abort_c = exit_c 1"

definition libc_start_main :: "int mach \<Rightarrow> 'a mach" where
  "libc_start_main main = sbind main (\<lambda>result. exit_c result)"

section \<open>Correctness\<close>

lemma mulsi3_loop_eq: "mulsi3_loop a b r = r + a * b"
proof (induction a b r rule: mulsi3_loop.induct)
  case (1 a b r)
  have d: "a = 2 * drop_bit 1 a + (a AND 1)"
    using div_mult_mod_eq [of a 2] by (simp add: drop_bit_eq_div and_one_eq mult.commute)
  show ?case
  proof (cases "a = 0")
    case False
    have "(if a AND 1 \<noteq> 0 then r + b else r) = r + (a AND 1) * b"
      by (simp add: and_one_eq mod_2_eq_odd)
    moreover have "push_bit 1 b = 2 * b" by (simp add: push_bit_eq_mult mult.commute)
    ultimately have "mulsi3_loop a b r = r + (2 * drop_bit 1 a + (a AND 1)) * b"
      using 1 False by (subst mulsi3_loop.simps) (simp add: algebra_simps)
    then show ?thesis using d by simp
  qed (simp add: mulsi3_loop.simps)
qed

text \<open>
  The shift-and-add multiplication of a core without a multiplier computes the product modulo \<open>2 ^ 32\<close>, for all
  operands, and ends.\<close>

theorem mulsi3_multiplies: "mulsi3 a b = a * b"
  by (simp add: mulsi3_def mulsi3_loop_eq)

text \<open>The character at the start of the rest \<open>xs\<close> of a string.\<close>

definition nextc :: "u8 list \<Rightarrow> int" where
  "nextc xs = (case xs of [] \<Rightarrow> 0 | x # _ \<Rightarrow> uint x)"

lemma char_at_cstr: "cstr m p xs \<Longrightarrow> char_at p m = Inr (nextc xs, m)"
proof (cases xs)
  case (Cons a ys)
  moreover assume "cstr m p xs"
  ultimately show ?thesis
    using cstr_Cons(1,2) [of m p a ys] by (simp add: char_at_def nextc_def load8_ok)
qed (auto simp: char_at_def nextc_def load8_ok dest: cstr_Nil_D)

lemma cstr_drop: "cstr m p (xs @ ys) \<Longrightarrow> cstr m (p + of_nat (length xs)) ys"
proof (induction xs arbitrary: p)
  case (Cons x xs)
  then have "cstr m (p + 1) (xs @ ys)" using cstr_Cons(4) [of m p x "xs @ ys"] by simp
  from Cons.IH [OF this] show ?case by (simp add: algebra_simps)
qed simp

lemma skip_spaces_cstr:
  "cstr m p (ws @ ys) \<Longrightarrow> \<forall>w\<in>set ws. ISSPACE (uint w) \<Longrightarrow> \<not> ISSPACE (nextc ys) \<Longrightarrow> length ws < f \<Longrightarrow>
   skip_spaces f p m = Inr ((nextc ys, p + of_nat (length ws) + 1), m)"
proof (induction ws arbitrary: p f)
  case Nil
  then show ?case by (cases f) (auto simp: char_at_cstr)
next
  case (Cons w ws)
  then obtain g where f: "f = Suc g" by (cases f) auto
  have "cstr m (p + 1) (ws @ ys)" using Cons.prems(1) cstr_Cons(4) [of m p w "ws @ ys"] by simp
  moreover have "char_at p m = Inr (uint w, m)"
    using char_at_cstr [OF Cons.prems(1)] by (simp add: nextc_def)
  ultimately show ?case using Cons f by (simp add: algebra_simps)
qed

lemma digits_loop_cstr:
  "cstr m p (cs @ ys) \<Longrightarrow> map (\<lambda>c. digit_of base (uint c)) cs = map Some ds \<Longrightarrow>
   digit_of base (nextc ys) = None \<Longrightarrow> length cs < f \<Longrightarrow>
   digits_loop f base (nextc (cs @ ys)) (p + 1) st m
     = Inr ((foldl (acc_digit base) st ds, p + of_nat (length cs) + 1), m)"
proof (induction cs arbitrary: p f st ds)
  case Nil
  then show ?case by (cases f) auto
next
  case (Cons c cs)
  then obtain g where f: "f = Suc g" by (cases f) auto
  obtain d ds' where ds: "ds = d # ds'" "digit_of base (uint c) = Some d"
    "map (\<lambda>c. digit_of base (uint c)) cs = map Some ds'"
    using Cons.prems(2) by auto
  have cs: "cstr m (p + 1) (cs @ ys)" using Cons.prems(1) cstr_Cons(4) [of m p c "cs @ ys"] by simp
  have "digits_loop g base (nextc (cs @ ys)) (p + 1 + 1) (acc_digit base st d) m
      = Inr ((foldl (acc_digit base) (acc_digit base st d) ds', p + 1 + of_nat (length cs) + 1), m)"
    using Cons.IH [OF cs ds(3) Cons.prems(3)] Cons.prems(4) f by simp
  then show ?case
    using f ds char_at_cstr [OF cs] by (simp add: nextc_def algebra_simps)
qed

text \<open>The number that the digits \<open>ds\<close> denote, after the number \<open>v\<close>.\<close>

fun horner :: "int \<Rightarrow> int \<Rightarrow> int list \<Rightarrow> int" where
  "horner base v [] = v"
| "horner base v (d # ds) = horner base (v * base + d) ds"

lemma horner_ge: "1 \<le> base \<Longrightarrow> 0 \<le> v \<Longrightarrow> \<forall>d\<in>set ds. 0 \<le> d \<Longrightarrow> v \<le> horner base v ds"
proof (induction ds arbitrary: v)
  case (Cons d ds)
  have "v \<le> v * base + d" using Cons.prems mult_left_mono [of 1 base v] by simp
  moreover have "v * base + d \<le> horner base (v * base + d) ds" using Cons calculation by simp
  ultimately show ?case by simp
qed simp

lemma cutoff_iff:
  fixes M :: int
  assumes "0 < b" "0 \<le> d" "d < b"
  shows "v > M div b \<or> (v = M div b \<and> d > M mod b) \<longleftrightarrow> M < v * b + d"
proof -
  define q r where q: "q = M div b" and r: "r = M mod b"
  have M: "M = q * b + r" by (simp add: q r)
  have r2: "0 \<le> r" "r < b" using assms(1) by (simp_all add: r)
  have up: "x * b + b \<le> y * b" if "x < y" for x y
    using mult_right_mono [of "x + 1" y b] that assms(1) by (simp add: distrib_right)
  have "v > q \<or> (v = q \<and> d > r) \<longleftrightarrow> q * b + r < v * b + d"
    using up [of v q] up [of q v] r2 assms by (cases v q rule: linorder_cases) auto
  then show ?thesis by (simp add: q r)
qed

lemma acc_digit_exact:
  assumes "2 \<le> base" "base \<le> 36" "0 \<le> d" "d < base" "0 \<le> v" "v \<le> 0xffffffff" "0 \<le> any"
  shows "acc_digit base (word_of_int v, any) d
    = (if v * base + d \<le> 0xffffffff then (word_of_int (v * base + d), 1) else (word_of_int v, - 1))"
proof -
  have ub: "uint (word_of_int base :: u32) = base" "uint (word_of_int v :: u32) = v"
    using assms by (simp_all add: uint_word_of_int)
  have c: "uint (0xffffffff div word_of_int base :: u32) = 0xffffffff div base"
    "uint (0xffffffff mod word_of_int base :: u32) = 0xffffffff mod base"
    using ub by (simp_all add: uint_div uint_mod)
  have "word_of_int v > (0xffffffff div word_of_int base :: u32) \<longleftrightarrow> v > 0xffffffff div base"
    "word_of_int v = (0xffffffff div word_of_int base :: u32) \<longleftrightarrow> v = 0xffffffff div base"
    using ub c by (simp_all add: word_less_def word_uint_eq_iff)
  moreover have "v > 0xffffffff div base \<or> (v = 0xffffffff div base \<and> d > 0xffffffff mod base)
      \<longleftrightarrow> \<not> v * base + d \<le> 0xffffffff"
    using cutoff_iff [where b = base and d = d and v = v and M = "0xffffffff"] assms by (simp add: not_le)
  ultimately show ?thesis
    using assms(7) c by (auto simp: acc_digit_def Let_def)
qed

lemma acc_digit_stuck: "any < 0 \<Longrightarrow> foldl (acc_digit base) (acc, any) ds = (acc, if ds = [] then any else - 1)"
  by (induction ds arbitrary: any) (simp_all add: acc_digit_def)

lemma acc_digits_exact:
  assumes "2 \<le> base" "base \<le> 36" "\<forall>d\<in>set ds. 0 \<le> d \<and> d < base" "0 \<le> v" "v \<le> 0xffffffff" "0 \<le> any"
  shows "\<exists>acc any'. foldl (acc_digit base) (word_of_int v, any) ds = (acc, any')
    \<and> (if horner base v ds \<le> 0xffffffff then acc = word_of_int (horner base v ds) \<and> any' = (if ds = [] then any else 1)
       else any' = - 1)"
  using assms(3-6)
proof (induction ds arbitrary: v any)
  case (Cons d ds)
  note step = acc_digit_exact [OF assms(1,2), of d v any]
  show ?case
  proof (cases "v * base + d \<le> 0xffffffff")
    case True
    moreover have "0 \<le> v * base + d" using Cons.prems assms(1) by simp
    ultimately show ?thesis
      using step Cons.IH [of "v * base + d" 1] Cons.prems by (auto split: if_splits)
  next
    case False
    then have "0xffffffff < horner base (v * base + d) ds"
      using horner_ge [of base "v * base + d" ds] Cons.prems(1) assms(1) by fastforce
    then show ?thesis
      using step False Cons.prems by (simp add: acc_digit_stuck)
  qed
qed simp

lemma strtoul_spec:
  assumes "cstr m nptr (ws @ sg @ cs @ ys)" and "\<forall>w\<in>set ws. ISSPACE (uint w)"
    and "sg = [] \<or> sg = [43] \<or> sg = [45]" and "cs \<noteq> []"
    and "map (\<lambda>c. digit_of base (uint c)) cs = map Some ds" and "digit_of base (nextc ys) = None"
    and "2 \<le> base" "base \<le> 36" "base \<noteq> 16 \<or> hd cs \<noteq> 48"
    and "length ws < f" "length cs < f" and "endptr \<noteq> 0 \<Longrightarrow> tag_ok m endptr"
  shows "\<exists>m'. strtoul f nptr endptr base m =
      Inr (if horner base 0 ds \<le> 0xffffffff
           then (if sg = [45] then - word_of_int (horner base 0 ds) else word_of_int (horner base 0 ds), False)
           else (0xffffffff, True), m')
    \<and> m' = (if endptr = 0 then m else m\<lparr>ram := put32 (ram m) (phys endptr)
              (nptr + of_nat (length (ws @ sg @ cs)))\<rparr>)"
proof -
  have dig: "\<not> ISSPACE (uint c) \<and> uint c \<noteq> 43 \<and> uint c \<noteq> 45" if "c \<in> set cs" for c
  proof -
    have "\<exists>d. digit_of base (uint c) = Some d" using that assms(5) by (metis (no_types, lifting) imageE image_eqI list.set_map)
    then show ?thesis
      by (auto simp: digit_of_def ISSPACE_def ISDIGIT_def ISALPHA_def ISUPPER_def split: if_splits)
  qed
  have n0: "nextc (cs @ ys) = uint (hd cs)" "hd cs \<in> set cs" using assms(4) by (cases cs; simp add: nextc_def)+
  note h = dig [OF n0(2)]
  let ?p = "nptr + of_nat (length ws)"
  let ?q = "?p + of_nat (length sg)"
  have c1: "cstr m ?p (sg @ cs @ ys)" using assms(1) by (rule cstr_drop)
  then have c2: "cstr m ?q (cs @ ys)" by (rule cstr_drop)
  have "\<not> ISSPACE (nextc (sg @ cs @ ys))"
    using assms(3) h n0(1) by (auto simp: nextc_def ISSPACE_def)
  from skip_spaces_cstr [OF assms(1,2) this assms(10)]
  have sk: "skip_spaces f nptr m = Inr ((nextc (sg @ cs @ ys), ?p + 1), m)" .
  have ds0: "ds \<noteq> []" using assms(4,5) by auto
  have ds: "\<forall>d\<in>set ds. 0 \<le> d \<and> d < base"
  proof
    fix d assume "d \<in> set ds"
    then have "Some d \<in> (\<lambda>c. digit_of base (uint c)) ` set cs" using arg_cong [OF assms(5), of set] by auto
    then show "0 \<le> d \<and> d < base"
      by (auto simp: digit_of_def ISDIGIT_def ISALPHA_def ISUPPER_def Let_def split: if_splits)
  qed
  note lp = digits_loop_cstr [OF c2 assms(5,6,11), of "(0, 0)"]
  obtain acc any where fo: "foldl (acc_digit base) (0, 0) ds = (acc, any)"
    "if horner base 0 ds \<le> 0xffffffff then acc = word_of_int (horner base 0 ds) \<and> any = 1 else any = - 1"
    using acc_digits_exact [OF assms(7,8) ds, of 0 0] ds0 by auto
  have bs: "base \<noteq> 0" "\<not> (base = 16 \<and> nextc (cs @ ys) = 48)"
    using assms(7,9) n0(1) by (auto simp: word_uint_eq_iff)
  have sign: "(if nextc (sg @ cs @ ys) = 45 then sbind (char_at (?p + 1)) (\<lambda>c. sret (True, c, ?p + 1 + 1))
      else if nextc (sg @ cs @ ys) = 43 then sbind (char_at (?p + 1)) (\<lambda>c. sret (False, c, ?p + 1 + 1))
      else sret (False, nextc (sg @ cs @ ys), ?p + 1)) m
      = Inr ((sg = [45], nextc (cs @ ys), ?q + 1), m)"
    using assms(3)
  proof (elim disjE)
    assume "sg = []"
    then show ?thesis using h n0(1) by simp
  qed (use char_at_cstr [OF c2] in \<open>simp_all add: nextc_def\<close>)
  have any: "any \<noteq> 0" using fo(2) by (auto split: if_splits)
  show ?thesis
    using sk sign lp fo assms(12) bs any
    by (cases "endptr = 0") (auto simp: strtoul_def store32_def Let_def algebra_simps split: if_splits)
qed

text \<open>
  C40. The conversion of a string: blanks, an optional sign, digits of the base,
  and something that is not a digit. A number above \<^verbatim>\<open>ULONG_MAX\<close> gives
  \<^verbatim>\<open>ULONG_MAX\<close> and \<^verbatim>\<open>ERANGE\<close>; a minus sign negates modulo \<open>2 ^ 32\<close>.
\<close>

theorem strtoul_correct:
  assumes "cstr m nptr (ws @ sg @ cs @ ys)" and "\<forall>w\<in>set ws. ISSPACE (uint w)"
    and "sg = [] \<or> sg = [43] \<or> sg = [45]" and "cs \<noteq> []"
    and "map (\<lambda>c. digit_of base (uint c)) cs = map Some ds" and "digit_of base (nextc ys) = None"
    and "2 \<le> base" "base \<le> 36" "base \<noteq> 16 \<or> hd cs \<noteq> 48"
    and "length ws < f" "length cs < f" and "endptr \<noteq> 0 \<Longrightarrow> tag_ok m endptr"
  shows "\<exists>m'. strtoul f nptr endptr base m =
      Inr (if horner base 0 ds \<le> 0xffffffff
           then (if sg = [45] then - word_of_int (horner base 0 ds) else word_of_int (horner base 0 ds), False)
           else (0xffffffff, True), m')
    \<and> m' = (if endptr = 0 then m else m\<lparr>ram := put32 (ram m) (phys endptr)
              (nptr + of_nat (length (ws @ sg @ cs)))\<rparr>)"
  using strtoul_spec [OF assms] .


text \<open>The string \<open> -17z\<close> in tagged memory.\<close>

definition demo_number :: machine where
  "demo_number = demo_mem\<lparr>ram := (\<lambda>_. 0)(256 := 32, 257 := 45, 258 := 49, 259 := 55, 260 := 122)\<rparr>"

theorem strtoul_correct_witness:
  "strtoul 9 0x30000100 0 10 demo_number = Inr ((- 17, False), demo_number)"
proof -
  have "cstr demo_number 0x30000100 ([32] @ [45] @ [49, 55] @ [122])"
    by (simp add: demo_number_def cstr_def bytes_def upt_conv_Cons demo_access demo_ptrs)
  moreover have "map (\<lambda>c. digit_of 10 (uint c)) [49, 55 :: u8] = map Some [1, 7]" "digit_of 10 (nextc [122]) = None"
    "ISSPACE (uint (32 :: u8))" "horner 10 0 [1, 7] = 17"
    by (simp_all add: digit_of_def nextc_def ISSPACE_def ISDIGIT_def ISALPHA_def ISUPPER_def)
  ultimately show ?thesis using strtoul_correct [of demo_number "0x30000100" "[32]" "[45]" "[49, 55]" "[122]" 10 "[1, 7]" 9 0]
    by simp
qed

end
