(* ===== verification/LibcPrintf.thy ===== *)
theory LibcPrintf
  imports LibcOs LibcMisc
begin

text \<open>
  Formatted output, \<^verbatim>\<open>printf/printf.c\<close>, as the libc's \<^verbatim>\<open>Makefile\<close> builds it: without floating point and
  without \<^verbatim>\<open>long long\<close>. A format and a string argument are their bytes before the NUL; they do not overlap the
  buffer that is written. A word on the argument list is an \<^verbatim>\<open>int\<close>, a \<^verbatim>\<open>long\<close> or a pointer; \<^verbatim>\<open>char\<close> is unsigned, as it
  is on RISC-V. The output functions work on a state of their own: a buffer, the console, or a caller's. Every
  conversion is shown to send a text, the same for all output functions; then the text of a number is related to the
  number.
\<close>

datatype pflag = P_ZEROPAD | P_LEFT | P_PLUS | P_SPACE | P_HASH | P_UPPERCASE | P_CHAR | P_SHORT | P_LONG
  | P_LONG_LONG | P_PRECISION

datatype va = VWord u32 | VStr "u8 list"

datatype pf_error = Bad_argument | Format_overrun

type_synonym 's out_fct_type = "u8 \<Rightarrow> u32 \<Rightarrow> u32 \<Rightarrow> 's \<Rightarrow> 's"

definition PRINTF_NTOA_BUFFER_SIZE :: nat where "PRINTF_NTOA_BUFFER_SIZE = 32"

section \<open>Output functions\<close>

definition out_buffer :: "(nat \<Rightarrow> u8) out_fct_type" where
  "out_buffer c idx maxlen b = (if idx < maxlen then b(unat idx := c) else b)"

definition out_null :: "'s out_fct_type" where
  "out_null c idx maxlen s = s"

definition out_char :: "os_state out_fct_type" where
  "out_char c idx maxlen s = (if c \<noteq> 0 then putchar_c c s else s)"

definition out_fct :: "(u8 \<Rightarrow> 's \<Rightarrow> 's) \<Rightarrow> 's out_fct_type" where
  "out_fct fct c idx maxlen s = (if c \<noteq> 0 then fct c s else s)"

section \<open>Strings and digits\<close>

fun strnlen_s :: "u8 list \<Rightarrow> u32 \<Rightarrow> u32" where
  "strnlen_s [] maxsize = 0"
| "strnlen_s (c # s) maxsize = (if c \<noteq> 0 \<and> maxsize \<noteq> 0 then strnlen_s s (maxsize - 1) + 1 else 0)"

definition is_digit :: "u8 \<Rightarrow> bool" where
  "is_digit ch \<longleftrightarrow> ch \<ge> 48 \<and> ch \<le> 57"

fun atoi_loop :: "u8 list \<Rightarrow> u32 \<Rightarrow> u32 \<times> u8 list" where
  "atoi_loop [] i = (i, [])"
| "atoi_loop (c # s) i = (if is_digit c then atoi_loop s (i * 10 + (ucast c - 48)) else (i, c # s))"

definition pf_atoi :: "u8 list \<Rightarrow> u32 \<times> u8 list" where
  "pf_atoi s = atoi_loop s 0"

lemma unat_inc:
  assumes "unat (i :: u32) < unat (w :: u32)"
  shows "unat (i + 1) = unat i + 1"
proof -
  have "unat i + 1 < 4294967296" using assms unat_u32_less [of w] by linarith
  then show ?thesis using unat_u32_add [of i 1] by simp
qed

lemma unat_inc_diff: "unat (idx - start :: u32) < unat (w :: u32) \<Longrightarrow> unat (idx + 1 - start) = unat (idx - start) + 1"
  using unat_inc [of "idx - start" w] by (simp add: algebra_simps)

text \<open>Padding: one space for every \<open>i\<close> below \<open>width\<close>; and until \<open>width\<close> characters are out since \<open>start\<close>.\<close>

function pad_from :: "'s out_fct_type \<Rightarrow> u32 \<Rightarrow> u32 \<Rightarrow> u32 \<Rightarrow> u32 \<times> 's \<Rightarrow> u32 \<times> 's" where
  "pad_from out maxlen i width (idx, s) =
     (if i < width then pad_from out maxlen (i + 1) width (idx + 1, out 32 idx maxlen s) else (idx, s))"
  by pat_completeness auto
termination
  by (relation "measure (\<lambda>(out, maxlen, i, width, st). unat width - unat i)")
    (auto simp: word_less_nat_alt unat_inc)

function pad_upto :: "'s out_fct_type \<Rightarrow> u32 \<Rightarrow> u32 \<Rightarrow> u32 \<Rightarrow> u32 \<times> 's \<Rightarrow> u32 \<times> 's" where
  "pad_upto out maxlen start width (idx, s) =
     (if idx - start < width then pad_upto out maxlen start width (idx + 1, out 32 idx maxlen s) else (idx, s))"
  by pat_completeness auto
termination
  by (relation "measure (\<lambda>(out, maxlen, start, width, (idx, s)). unat width - unat (idx - start))")
    (auto simp: word_less_nat_alt unat_inc_diff)

declare pad_from.simps [simp del] pad_upto.simps [simp del]

section \<open>Integers\<close>

definition out_rev :: "'s out_fct_type \<Rightarrow> u32 \<Rightarrow> u8 list \<Rightarrow> u32 \<Rightarrow> pflag set \<Rightarrow> u32 \<times> 's \<Rightarrow> u32 \<times> 's" where
  "out_rev out maxlen buf width flags st =
     (let start_idx = fst st;
          st = (if P_LEFT \<notin> flags \<and> P_ZEROPAD \<notin> flags then pad_from out maxlen (of_nat (length buf)) width st else st);
          st = foldr (\<lambda>c (idx, s). (idx + 1, out c idx maxlen s)) buf st
      in if P_LEFT \<in> flags then pad_upto out maxlen start_idx width st else st)"

text \<open>The loops that append zeros while the buffer has room.\<close>

function zeros_upto :: "nat \<Rightarrow> u8 list \<Rightarrow> u8 list" where
  "zeros_upto n buf =
     (if length buf < n \<and> length buf < PRINTF_NTOA_BUFFER_SIZE then zeros_upto n (buf @ [48]) else buf)"
  by pat_completeness auto
termination
  by (relation "measure (\<lambda>(n, buf). n - length buf)") auto

declare zeros_upto.simps [simp del]

definition put_if_room :: "u8 \<Rightarrow> u8 list \<Rightarrow> u8 list" where
  "put_if_room c buf = (if length buf < PRINTF_NTOA_BUFFER_SIZE then buf @ [c] else buf)"

definition ntoa_width :: "bool \<Rightarrow> u32 \<Rightarrow> pflag set \<Rightarrow> u32" where
  "ntoa_width negative width flags =
     (if P_LEFT \<notin> flags \<and> width \<noteq> 0 \<and> P_ZEROPAD \<in> flags \<and> (negative \<or> P_PLUS \<in> flags \<or> P_SPACE \<in> flags)
      then width - 1 else width)"

definition ntoa_pad :: "u8 list \<Rightarrow> u32 \<Rightarrow> u32 \<Rightarrow> pflag set \<Rightarrow> u8 list" where
  "ntoa_pad buf prec width flags =
     (if P_LEFT \<notin> flags
      then (let buf = zeros_upto (unat prec) buf
            in if P_ZEROPAD \<in> flags then zeros_upto (unat width) buf else buf)
      else buf)"

definition ntoa_hash :: "u8 list \<Rightarrow> u32 \<Rightarrow> u32 \<Rightarrow> u32 \<Rightarrow> pflag set \<Rightarrow> u8 list" where
  "ntoa_hash buf base prec width flags =
     (if P_HASH \<in> flags
      then (let buf = (if P_PRECISION \<notin> flags \<and> buf \<noteq> [] \<and> (length buf = unat prec \<or> length buf = unat width)
                       then (let buf = butlast buf in if buf \<noteq> [] \<and> base = 16 then butlast buf else buf)
                       else buf);
                buf = (if base = 16 \<and> P_UPPERCASE \<notin> flags then put_if_room 120 buf
                       else if base = 16 \<and> P_UPPERCASE \<in> flags then put_if_room 88 buf
                       else if base = 2 then put_if_room 98 buf else buf)
            in put_if_room 48 buf)
      else buf)"

definition ntoa_sign :: "u8 list \<Rightarrow> bool \<Rightarrow> pflag set \<Rightarrow> u8 list" where
  "ntoa_sign buf negative flags =
     (if negative then put_if_room 45 buf
      else if P_PLUS \<in> flags then put_if_room 43 buf
      else if P_SPACE \<in> flags then put_if_room 32 buf else buf)"

definition ntoa_format ::
  "'s out_fct_type \<Rightarrow> u32 \<Rightarrow> u8 list \<Rightarrow> bool \<Rightarrow> u32 \<Rightarrow> u32 \<Rightarrow> u32 \<Rightarrow> pflag set \<Rightarrow> u32 \<times> 's \<Rightarrow> u32 \<times> 's" where
  "ntoa_format out maxlen buf negative base prec width flags st =
     (let width = ntoa_width negative width flags;
          buf = ntoa_pad buf prec width flags;
          buf = ntoa_hash buf base prec width flags;
          buf = ntoa_sign buf negative flags
      in out_rev out maxlen buf width flags st)"

definition digit_char :: "bool \<Rightarrow> u32 \<Rightarrow> u8" where
  "digit_char upper d = (let digit = ucast d :: u8 in if digit < 10 then 48 + digit else (if upper then 65 else 97) + digit - 10)"

function ntoa_digits :: "bool \<Rightarrow> u32 \<Rightarrow> u32 \<Rightarrow> u8 list \<Rightarrow> u8 list" where
  "ntoa_digits upper base v buf =
     (let buf = buf @ [digit_char upper (v mod base)]; v = v div base
      in if v \<noteq> 0 \<and> length buf < PRINTF_NTOA_BUFFER_SIZE then ntoa_digits upper base v buf else buf)"
  by pat_completeness auto
termination
  by (relation "measure (\<lambda>(upper, base, v, buf). PRINTF_NTOA_BUFFER_SIZE - length buf)") auto

declare ntoa_digits.simps [simp del]

definition ntoa_long ::
  "'s out_fct_type \<Rightarrow> u32 \<Rightarrow> u32 \<Rightarrow> bool \<Rightarrow> u32 \<Rightarrow> u32 \<Rightarrow> u32 \<Rightarrow> pflag set \<Rightarrow> u32 \<times> 's \<Rightarrow> u32 \<times> 's" where
  "ntoa_long out maxlen v negative base prec width flags st =
     (let flags = (if v = 0 then flags - {P_HASH} else flags);
          buf = (if P_PRECISION \<notin> flags \<or> v \<noteq> 0 then ntoa_digits (P_UPPERCASE \<in> flags) base v [] else [])
      in ntoa_format out maxlen buf negative base prec width flags st)"

section \<open>Conversion specifications\<close>

fun parse_flags :: "u8 list \<Rightarrow> pflag set \<Rightarrow> pflag set \<times> u8 list" where
  "parse_flags [] flags = (flags, [])"
| "parse_flags (c # fmt) flags =
     (if c = 48 then parse_flags fmt (insert P_ZEROPAD flags)
      else if c = 45 then parse_flags fmt (insert P_LEFT flags)
      else if c = 43 then parse_flags fmt (insert P_PLUS flags)
      else if c = 32 then parse_flags fmt (insert P_SPACE flags)
      else if c = 35 then parse_flags fmt (insert P_HASH flags)
      else (flags, c # fmt))"

fun va_word :: "va list \<Rightarrow> pf_error + u32 \<times> va list" where
  "va_word (VWord w # vs) = Inr (w, vs)"
| "va_word _ = Inl Bad_argument"

fun va_str :: "va list \<Rightarrow> pf_error + u8 list \<times> va list" where
  "va_str (VStr s # vs) = Inr (s, vs)"
| "va_str _ = Inl Bad_argument"

definition parse_width :: "u8 list \<Rightarrow> pflag set \<Rightarrow> va list \<Rightarrow> pf_error + u32 \<times> pflag set \<times> u8 list \<times> va list" where
  "parse_width fmt flags vs =
     (case fmt of [] \<Rightarrow> Inr (0, flags, fmt, vs)
      | c # rest \<Rightarrow>
        if is_digit c then (case pf_atoi fmt of (width, fmt) \<Rightarrow> Inr (width, flags, fmt, vs))
        else if c = 42 then
          (case va_word vs of Inl e \<Rightarrow> Inl e
           | Inr (w, vs) \<Rightarrow>
             if sint w < 0 then Inr (- w, insert P_LEFT flags, rest, vs) else Inr (w, flags, rest, vs))
        else Inr (0, flags, fmt, vs))"

definition parse_precision :: "u8 list \<Rightarrow> pflag set \<Rightarrow> va list \<Rightarrow> pf_error + u32 \<times> pflag set \<times> u8 list \<times> va list" where
  "parse_precision fmt flags vs =
     (case fmt of [] \<Rightarrow> Inr (0, flags, fmt, vs)
      | d # fmt' \<Rightarrow>
        if d \<noteq> 46 then Inr (0, flags, fmt, vs)
        else let flags = insert P_PRECISION flags in
          case fmt' of [] \<Rightarrow> Inr (0, flags, fmt', vs)
          | c # rest \<Rightarrow>
            if is_digit c then (case pf_atoi fmt' of (prec, fmt) \<Rightarrow> Inr (prec, flags, fmt, vs))
            else if c = 42 then
              (case va_word vs of Inl e \<Rightarrow> Inl e
               | Inr (w, vs) \<Rightarrow> Inr (if sint w > 0 then w else 0, flags, rest, vs))
            else Inr (0, flags, fmt', vs))"

text \<open>\<^verbatim>\<open>ptrdiff_t\<close> and \<^verbatim>\<open>size_t\<close> have the size of a \<^verbatim>\<open>long\<close>, \<^verbatim>\<open>intmax_t\<close> has not.\<close>

fun parse_length :: "u8 list \<Rightarrow> pflag set \<Rightarrow> pflag set \<times> u8 list" where
  "parse_length [] flags = (flags, [])"
| "parse_length (c # fmt) flags =
     (if c = 108 then
        (case fmt of d # fmt' \<Rightarrow> if d = 108 then ({P_LONG, P_LONG_LONG} \<union> flags, fmt') else (insert P_LONG flags, fmt)
         | [] \<Rightarrow> (insert P_LONG flags, fmt))
      else if c = 104 then
        (case fmt of d # fmt' \<Rightarrow> if d = 104 then ({P_SHORT, P_CHAR} \<union> flags, fmt') else (insert P_SHORT flags, fmt)
         | [] \<Rightarrow> (insert P_SHORT flags, fmt))
      else if c = 116 then (insert P_LONG flags, fmt)
      else if c = 106 then (insert P_LONG_LONG flags, fmt)
      else if c = 122 then (insert P_LONG flags, fmt)
      else (flags, c # fmt))"

definition int_base :: "u8 \<Rightarrow> u32" where
  "int_base c = (if c = 120 \<or> c = 88 then 16 else if c = 111 then 8 else if c = 98 then 2 else 10)"

definition int_flags :: "u8 \<Rightarrow> pflag set \<Rightarrow> pflag set" where
  "int_flags c flags =
     (let flags = (if int_base c = 10 then flags - {P_HASH} else flags);
          flags = (if c = 88 then insert P_UPPERCASE flags else flags);
          flags = (if c \<noteq> 105 \<and> c \<noteq> 100 then flags - {P_PLUS, P_SPACE} else flags)
      in if P_PRECISION \<in> flags then flags - {P_ZEROPAD} else flags)"

text \<open>The value of an \<^verbatim>\<open>int\<close> or \<^verbatim>\<open>unsigned\<close> argument after the conversion to the type that the length names.\<close>

definition signed_arg :: "pflag set \<Rightarrow> u32 \<Rightarrow> u32" where
  "signed_arg flags w =
     (if P_LONG \<in> flags then w else if P_CHAR \<in> flags then ucast (ucast w :: u8)
      else if P_SHORT \<in> flags then scast (ucast w :: u16) else w)"

definition unsigned_arg :: "pflag set \<Rightarrow> u32 \<Rightarrow> u32" where
  "unsigned_arg flags w =
     (if P_LONG \<in> flags then w else if P_CHAR \<in> flags then ucast (ucast w :: u8)
      else if P_SHORT \<in> flags then ucast (ucast w :: u16) else w)"

definition conv_int ::
  "'s out_fct_type \<Rightarrow> u32 \<Rightarrow> u8 \<Rightarrow> u32 \<Rightarrow> u32 \<Rightarrow> pflag set \<Rightarrow> va list \<Rightarrow> u32 \<times> 's \<Rightarrow> pf_error + va list \<times> u32 \<times> 's" where
  "conv_int out maxlen c prec width flags vs st =
     (let base = int_base c; flags = int_flags c flags in
      if P_LONG_LONG \<in> flags then Inr (vs, st)
      else case va_word vs of Inl e \<Rightarrow> Inl e
      | Inr (w, vs) \<Rightarrow>
        if c = 105 \<or> c = 100
        then (let v = signed_arg flags w
              in Inr (vs, ntoa_long out maxlen (if sint v > 0 then v else 0 - v) (sint v < 0) base prec width flags st))
        else Inr (vs, ntoa_long out maxlen (unsigned_arg flags w) False base prec width flags st))"

definition conv_char ::
  "'s out_fct_type \<Rightarrow> u32 \<Rightarrow> u32 \<Rightarrow> pflag set \<Rightarrow> va list \<Rightarrow> u32 \<times> 's \<Rightarrow> pf_error + va list \<times> u32 \<times> 's" where
  "conv_char out maxlen width flags vs st =
     (let st = (if P_LEFT \<notin> flags then pad_from out maxlen 1 width st else st) in
      case va_word vs of Inl e \<Rightarrow> Inl e
      | Inr (w, vs) \<Rightarrow>
        let st = (case st of (idx, s) \<Rightarrow> (idx + 1, out (ucast w) idx maxlen s))
        in Inr (vs, if P_LEFT \<in> flags then pad_from out maxlen 1 width st else st))"

fun out_string :: "'s out_fct_type \<Rightarrow> u32 \<Rightarrow> u8 list \<Rightarrow> bool \<Rightarrow> u32 \<Rightarrow> u32 \<times> 's \<Rightarrow> u32 \<times> 's" where
  "out_string out maxlen [] limited prec st = st"
| "out_string out maxlen (c # p) limited prec (idx, s) =
     (if c \<noteq> 0 \<and> (\<not> limited \<or> prec \<noteq> 0)
      then out_string out maxlen p limited (if limited then prec - 1 else prec) (idx + 1, out c idx maxlen s)
      else (idx, s))"

definition conv_string ::
  "'s out_fct_type \<Rightarrow> u32 \<Rightarrow> u32 \<Rightarrow> u32 \<Rightarrow> pflag set \<Rightarrow> va list \<Rightarrow> u32 \<times> 's \<Rightarrow> pf_error + va list \<times> u32 \<times> 's" where
  "conv_string out maxlen prec width flags vs st =
     (case va_str vs of Inl e \<Rightarrow> Inl e
      | Inr (p, vs) \<Rightarrow>
        let l = strnlen_s p (if prec \<noteq> 0 then prec else - 1);
            l = (if P_PRECISION \<in> flags then (if l < prec then l else prec) else l);
            st = (if P_LEFT \<notin> flags then pad_from out maxlen l width st else st);
            st = out_string out maxlen p (P_PRECISION \<in> flags) prec st
        in Inr (vs, if P_LEFT \<in> flags then pad_from out maxlen l width st else st))"

definition conv_pointer ::
  "'s out_fct_type \<Rightarrow> u32 \<Rightarrow> u32 \<Rightarrow> pflag set \<Rightarrow> va list \<Rightarrow> u32 \<times> 's \<Rightarrow> pf_error + va list \<times> u32 \<times> 's" where
  "conv_pointer out maxlen prec flags vs st =
     (case va_word vs of Inl e \<Rightarrow> Inl e
      | Inr (w, vs) \<Rightarrow> Inr (vs, ntoa_long out maxlen w False 16 prec 8 ({P_ZEROPAD, P_UPPERCASE} \<union> flags) st))"

definition convert ::
  "'s out_fct_type \<Rightarrow> u32 \<Rightarrow> u8 \<Rightarrow> u32 \<Rightarrow> u32 \<Rightarrow> pflag set \<Rightarrow> va list \<Rightarrow> u32 \<times> 's \<Rightarrow> pf_error + va list \<times> u32 \<times> 's" where
  "convert out maxlen c prec width flags vs st =
     (if c \<in> {100, 105, 117, 120, 88, 111, 98} then conv_int out maxlen c prec width flags vs st
      else if c = 99 then conv_char out maxlen width flags vs st
      else if c = 115 then conv_string out maxlen prec width flags vs st
      else if c = 112 then conv_pointer out maxlen prec flags vs st
      else Inr (vs, case st of (idx, s) \<Rightarrow> (idx + 1, out c idx maxlen s)))"

lemma atoi_loop_len: "length (snd (atoi_loop s i)) \<le> length s"
  by (induction s i rule: atoi_loop.induct) (auto simp: le_Suc_eq)

lemma parse_flags_len: "parse_flags fmt flags = (flags', fmt') \<Longrightarrow> length fmt' \<le> length fmt"
  by (induction fmt flags rule: parse_flags.induct) (auto split: if_splits)

lemma parse_width_len: "parse_width fmt flags vs = Inr (w, flags', fmt', vs') \<Longrightarrow> length fmt' \<le> length fmt"
  using atoi_loop_len [of fmt 0]
  by (auto simp: parse_width_def pf_atoi_def split: list.splits if_splits prod.splits sum.splits)

lemma parse_precision_len:
  assumes "parse_precision fmt flags vs = Inr (w, flags', fmt', vs')"
  shows "length fmt' \<le> length fmt"
  using assms atoi_loop_len [of "tl fmt" 0]
  by (auto simp: parse_precision_def pf_atoi_def Let_def split: list.splits if_splits prod.splits sum.splits)

lemma parse_length_len: "parse_length fmt flags = (flags', fmt') \<Longrightarrow> length fmt' \<le> length fmt"
  by (cases fmt) (auto split: list.splits if_splits)

text \<open>
  At the NUL inside a conversion specification the code sends it and steps behind it; what it reads then is not part
  of the format.
\<close>

function vsn_loop :: "'s out_fct_type \<Rightarrow> u32 \<Rightarrow> u8 list \<Rightarrow> va list \<Rightarrow> u32 \<times> 's \<Rightarrow> pf_error + u32 \<times> 's" where
  "vsn_loop out maxlen fmt vs st =
     (case fmt of [] \<Rightarrow> Inr st
      | c # fmt \<Rightarrow>
        if c \<noteq> 37 then vsn_loop out maxlen fmt vs (case st of (idx, s) \<Rightarrow> (idx + 1, out c idx maxlen s))
        else case parse_flags fmt {} of (flags, fmt) \<Rightarrow>
          case parse_width fmt flags vs of Inl e \<Rightarrow> Inl e
          | Inr (width, flags, fmt, vs) \<Rightarrow>
            case parse_precision fmt flags vs of Inl e \<Rightarrow> Inl e
            | Inr (prec, flags, fmt, vs) \<Rightarrow>
              case parse_length fmt flags of (flags, fmt) \<Rightarrow>
                case fmt of [] \<Rightarrow> Inl Format_overrun
                | c # fmt \<Rightarrow>
                  case convert out maxlen c prec width flags vs st of Inl e \<Rightarrow> Inl e
                  | Inr (vs, st) \<Rightarrow> vsn_loop out maxlen fmt vs st)"
  by pat_completeness auto
termination
  by (relation "measure (\<lambda>(out, maxlen, fmt, vs, st). length fmt)") (auto dest!: parse_flags_len [OF sym] parse_length_len [OF sym] parse_width_len parse_precision_len)

declare vsn_loop.simps [simp del]

definition vsnprintf_c ::
  "'s out_fct_type \<Rightarrow> bool \<Rightarrow> u32 \<Rightarrow> u8 list \<Rightarrow> va list \<Rightarrow> 's \<Rightarrow> pf_error + u32 \<times> 's" where
  "vsnprintf_c out null_buffer maxlen fmt vs s =
     (let out = (if null_buffer then out_null else out) in
      case vsn_loop out maxlen fmt vs (0, s) of Inl e \<Rightarrow> Inl e
      | Inr (idx, s) \<Rightarrow> Inr (idx, out 0 (if idx < maxlen then idx else maxlen - 1) maxlen s))"

definition printf_c :: "u8 list \<Rightarrow> va list \<Rightarrow> os_state \<Rightarrow> pf_error + u32 \<times> os_state" where
  "printf_c fmt vs s = vsnprintf_c out_char False (- 1) fmt vs s"

definition sprintf_c :: "bool \<Rightarrow> u8 list \<Rightarrow> va list \<Rightarrow> (nat \<Rightarrow> u8) \<Rightarrow> pf_error + u32 \<times> (nat \<Rightarrow> u8)" where
  "sprintf_c null_buffer fmt vs b = vsnprintf_c out_buffer null_buffer (- 1) fmt vs b"

definition snprintf_c :: "bool \<Rightarrow> u32 \<Rightarrow> u8 list \<Rightarrow> va list \<Rightarrow> (nat \<Rightarrow> u8) \<Rightarrow> pf_error + u32 \<times> (nat \<Rightarrow> u8)" where
  "snprintf_c null_buffer cnt fmt vs b = vsnprintf_c out_buffer null_buffer cnt fmt vs b"

definition fctprintf :: "(u8 \<Rightarrow> 's \<Rightarrow> 's) \<Rightarrow> u8 list \<Rightarrow> va list \<Rightarrow> 's \<Rightarrow> pf_error + u32 \<times> 's" where
  "fctprintf fct fmt vs s = vsnprintf_c (out_fct fct) False (- 1) fmt vs s"

section \<open>What is sent\<close>

text \<open>Sending a text, one character after the other.\<close>

fun emit :: "'s out_fct_type \<Rightarrow> u32 \<Rightarrow> u8 list \<Rightarrow> u32 \<times> 's \<Rightarrow> u32 \<times> 's" where
  "emit out maxlen [] st = st"
| "emit out maxlen (c # cs) (idx, s) = emit out maxlen cs (idx + 1, out c idx maxlen s)"

lemma emit_append: "emit out maxlen (cs @ ds) st = emit out maxlen ds (emit out maxlen cs st)"
  by (induction out maxlen cs st rule: emit.induct) simp_all

lemma emit_idx: "fst (emit out maxlen cs st) = fst st + of_nat (length cs)"
  by (induction out maxlen cs st rule: emit.induct) (simp_all add: add.commute add.left_commute)

lemma emit_one: "(case st of (idx, s) \<Rightarrow> (idx + 1, out c idx maxlen s)) = emit out maxlen [c] st"
  by (cases st) simp

lemma pad_from_emit: "pad_from out maxlen i width st = emit out maxlen (replicate (unat width - unat i) 32) st"
proof (induction out maxlen i width st rule: pad_from.induct)
  case (1 out maxlen i width idx s)
  show ?case
  proof (cases "i < width")
    case True
    then have l: "unat i < unat width" by (simp add: word_less_nat_alt)
    then have "unat width - unat i = Suc (unat width - unat (i + 1))" using unat_inc [OF l] by simp
    with True 1 show ?thesis by (simp add: pad_from.simps [of out maxlen i])
  qed (simp add: pad_from.simps [of out maxlen i] word_less_nat_alt)
qed

lemma pad_upto_emit:
  "pad_upto out maxlen start width st = emit out maxlen (replicate (unat width - unat (fst st - start)) 32) st"
proof (induction out maxlen start width st rule: pad_upto.induct)
  case (1 out maxlen start width idx s)
  show ?case
  proof (cases "idx - start < width")
    case True
    then have l: "unat (idx - start) < unat width" by (simp add: word_less_nat_alt)
    then have "unat width - unat (idx - start) = Suc (unat width - unat (idx + 1 - start))"
      using unat_inc_diff [OF l] by simp
    with True 1 show ?thesis by (simp add: pad_upto.simps [of out maxlen start])
  qed (simp add: pad_upto.simps [of out maxlen start] word_less_nat_alt)
qed

lemma out_rev_loop_emit: "foldr (\<lambda>c (idx, s). (idx + 1, out c idx maxlen s)) buf st = emit out maxlen (rev buf) st"
  by (induction buf arbitrary: st) (simp_all add: emit_append emit_one)

definition rev_text :: "u8 list \<Rightarrow> u32 \<Rightarrow> pflag set \<Rightarrow> u8 list" where
  "rev_text buf width flags =
     (if P_LEFT \<in> flags then rev buf @ replicate (unat width - length buf) 32
      else if P_ZEROPAD \<in> flags then rev buf else replicate (unat width - length buf) 32 @ rev buf)"

lemma out_rev_emit:
  assumes "length buf \<le> 32"
  shows "out_rev out maxlen buf width flags st = emit out maxlen (rev_text buf width flags) st"
proof -
  have n: "unat (of_nat (length buf) :: u32) = length buf" using assms by (simp add: unat_of_nat_u32)
  have "fst (emit out maxlen (rev buf) st) - fst st = of_nat (length buf)" by (simp add: emit_idx)
  then show ?thesis using n
    by (simp add: out_rev_def rev_text_def Let_def pad_from_emit pad_upto_emit out_rev_loop_emit emit_append)
qed

subsection \<open>The buffer of an integer\<close>

lemma zeros_upto_eq:
  assumes "length buf \<le> 32"
  shows "zeros_upto n buf = buf @ replicate (min n 32 - length buf) 48"
  using assms
proof (induction n buf rule: zeros_upto.induct)
  case (1 n buf)
  show ?case
  proof (cases "length buf < n \<and> length buf < 32")
    case True
    then have "min n 32 - length buf = Suc (min n 32 - length (buf @ [48]))" by (simp add: Suc_diff_Suc)
    with True 1 show ?thesis by (simp add: zeros_upto.simps [of n buf] PRINTF_NTOA_BUFFER_SIZE_def)
  next
    case False
    then have "min n 32 - length buf = 0" by auto
    with False show ?thesis by (simp add: zeros_upto.simps [of n buf] PRINTF_NTOA_BUFFER_SIZE_def) auto
  qed
qed

definition ntoa_buf :: "u32 \<Rightarrow> bool \<Rightarrow> u32 \<Rightarrow> u32 \<Rightarrow> u32 \<Rightarrow> pflag set \<Rightarrow> u8 list" where
  "ntoa_buf v negative base prec width flags =
     (let flags = (if v = 0 then flags - {P_HASH} else flags);
          buf = (if P_PRECISION \<notin> flags \<or> v \<noteq> 0 then ntoa_digits (P_UPPERCASE \<in> flags) base v [] else []);
          buf = ntoa_pad buf prec width flags
      in ntoa_sign (ntoa_hash buf base prec width flags) negative flags)"

lemma put_if_room_len: "length buf \<le> 32 \<Longrightarrow> length (put_if_room c buf) \<le> 32"
  by (simp add: put_if_room_def PRINTF_NTOA_BUFFER_SIZE_def)

lemma ntoa_digits_len: "length buf < 32 \<Longrightarrow> length (ntoa_digits upper base v buf) \<le> 32"
proof (induction upper base v buf rule: ntoa_digits.induct)
  case (1 upper base v buf)
  then show ?case by (subst ntoa_digits.simps) (auto simp: Let_def PRINTF_NTOA_BUFFER_SIZE_def)
qed

lemma ntoa_pad_len: "length buf \<le> 32 \<Longrightarrow> length (ntoa_pad buf prec width flags) \<le> 32"
  by (auto simp: ntoa_pad_def zeros_upto_eq Let_def)

lemma ntoa_hash_len: "length buf \<le> 32 \<Longrightarrow> length (ntoa_hash buf base prec width flags) \<le> 32"
  by (auto simp: ntoa_hash_def Let_def intro!: put_if_room_len)

lemma ntoa_sign_len: "length buf \<le> 32 \<Longrightarrow> length (ntoa_sign buf negative flags) \<le> 32"
  by (auto simp: ntoa_sign_def intro!: put_if_room_len)

lemma ntoa_buf_len: "length (ntoa_buf v negative base prec width flags) \<le> 32"
  unfolding ntoa_buf_def Let_def
  by (intro ntoa_sign_len ntoa_hash_len ntoa_pad_len) (simp add: ntoa_digits_len)

definition ntoa_text :: "u32 \<Rightarrow> bool \<Rightarrow> u32 \<Rightarrow> u32 \<Rightarrow> u32 \<Rightarrow> pflag set \<Rightarrow> u8 list" where
  "ntoa_text v negative base prec width flags =
     (let width = ntoa_width negative width flags
      in rev_text (ntoa_buf v negative base prec width flags) width flags)"

lemma ntoa_long_emit:
  "ntoa_long out maxlen v negative base prec width flags st
     = emit out maxlen (ntoa_text v negative base prec width flags) st"
proof -
  let ?f = "if v = 0 then flags - {P_HASH} else flags"
  have f: "ntoa_width negative width ?f = ntoa_width negative width flags" "rev_text b w ?f = rev_text b w flags" for b w
    by (simp_all add: ntoa_width_def rev_text_def)
  have "ntoa_long out maxlen v negative base prec width flags st
      = out_rev out maxlen (ntoa_buf v negative base prec (ntoa_width negative width flags) flags)
          (ntoa_width negative width flags) ?f st"
    by (simp add: ntoa_long_def ntoa_format_def ntoa_buf_def Let_def ntoa_width_def)
  then show ?thesis using f by (simp add: ntoa_text_def Let_def out_rev_emit [OF ntoa_buf_len])
qed

subsection \<open>The text of a format\<close>

definition string_text :: "u8 list \<Rightarrow> bool \<Rightarrow> u32 \<Rightarrow> u8 list" where
  "string_text p limited prec = (let p = takeWhile (\<lambda>c. c \<noteq> 0) p in if limited then take (unat prec) p else p)"

lemma unat_dec: "n \<noteq> 0 \<Longrightarrow> unat (n - 1 :: u32) = unat n - 1"
proof -
  assume "n \<noteq> 0"
  then have "1 \<le> unat n" by (metis less_one linorder_not_less unat_eq_0)
  then show ?thesis by (simp add: unat_u32_sub)
qed

lemma out_string_emit: "out_string out maxlen p limited prec st = emit out maxlen (string_text p limited prec) st"
proof (induction out maxlen p limited prec st rule: out_string.induct)
  case (2 out maxlen c p limited prec idx s)
  show ?case
  proof (cases "c \<noteq> 0 \<and> (\<not> limited \<or> prec \<noteq> 0)")
    case True
    have "string_text (c # p) limited prec = c # string_text p limited (if limited then prec - 1 else prec)"
    proof (cases limited)
      case l: True
      then have "unat prec = Suc (unat (prec - 1))" using True unat_dec [of prec] by (simp add: unat_gt_0)
      with l True show ?thesis by (simp add: string_text_def)
    qed (use True in \<open>simp add: string_text_def\<close>)
    with True 2 show ?thesis by simp
  next
    case False
    then have "string_text (c # p) limited prec = []" by (auto simp: string_text_def)
    with False show ?thesis by auto
  qed
qed (simp add: string_text_def)

definition conv_text :: "u8 \<Rightarrow> u32 \<Rightarrow> u32 \<Rightarrow> pflag set \<Rightarrow> va list \<Rightarrow> pf_error + va list \<times> u8 list" where
  "conv_text c prec width flags vs =
     (if c \<in> {100, 105, 117, 120, 88, 111, 98} then
        (let base = int_base c; flags = int_flags c flags in
         if P_LONG_LONG \<in> flags then Inr (vs, [])
         else case va_word vs of Inl e \<Rightarrow> Inl e
         | Inr (w, vs) \<Rightarrow>
           if c = 105 \<or> c = 100
           then (let v = signed_arg flags w
                 in Inr (vs, ntoa_text (if sint v > 0 then v else 0 - v) (sint v < 0) base prec width flags))
           else Inr (vs, ntoa_text (unsigned_arg flags w) False base prec width flags))
      else if c = 99 then
        (case va_word vs of Inl e \<Rightarrow> Inl e
         | Inr (w, vs) \<Rightarrow>
           let pad = replicate (unat width - 1) 32
           in Inr (vs, if P_LEFT \<in> flags then [ucast w] @ pad else pad @ [ucast w]))
      else if c = 115 then
        (case va_str vs of Inl e \<Rightarrow> Inl e
         | Inr (p, vs) \<Rightarrow>
           let l = strnlen_s p (if prec \<noteq> 0 then prec else - 1);
               l = (if P_PRECISION \<in> flags then (if l < prec then l else prec) else l);
               pad = replicate (unat width - unat l) 32; t = string_text p (P_PRECISION \<in> flags) prec
           in Inr (vs, if P_LEFT \<in> flags then t @ pad else pad @ t))
      else if c = 112 then
        (case va_word vs of Inl e \<Rightarrow> Inl e
         | Inr (w, vs) \<Rightarrow> Inr (vs, ntoa_text w False 16 prec 8 ({P_ZEROPAD, P_UPPERCASE} \<union> flags)))
      else Inr (vs, [c]))"

lemma conv_emit:
  "conv_char out maxlen width flags vs st = map_sum id (\<lambda>(vs, cs). (vs, emit out maxlen cs st)) (conv_text 99 prec width flags vs)"
  "conv_string out maxlen prec width flags vs st = map_sum id (\<lambda>(vs, cs). (vs, emit out maxlen cs st)) (conv_text 115 prec width flags vs)"
  "conv_pointer out maxlen prec flags vs st = map_sum id (\<lambda>(vs, cs). (vs, emit out maxlen cs st)) (conv_text 112 prec width flags vs)"
  by (simp_all add: conv_text_def conv_char_def conv_string_def conv_pointer_def Let_def ntoa_long_emit pad_from_emit
      out_string_emit emit_one emit_append split: sum.splits prod.splits del: emit.simps append.simps)

lemma conv_int_emit:
  "c \<in> {100, 105, 117, 120, 88, 111, 98} \<Longrightarrow> conv_int out maxlen c prec width flags vs st
    = map_sum id (\<lambda>(vs, cs). (vs, emit out maxlen cs st)) (conv_text c prec width flags vs)"
  unfolding conv_text_def conv_int_def Let_def ntoa_long_emit by (simp split: sum.splits prod.splits)

lemma convert_emit:
  "convert out maxlen c prec width flags vs st
     = map_sum id (\<lambda>(vs, cs). (vs, emit out maxlen cs st)) (conv_text c prec width flags vs)"
proof (cases "c \<in> {100, 105, 117, 120, 88, 111, 98}")
  case True
  then show ?thesis unfolding convert_def by (simp only: if_True conv_int_emit)
next
  case False
  show ?thesis
  proof (cases "c = 99 \<or> c = 115 \<or> c = 112")
    case True
    then show ?thesis by (auto simp: convert_def conv_emit [where prec = prec and width = width])
  next
    case False': False
    then show ?thesis using False unfolding convert_def conv_text_def emit_one by (simp del: emit.simps)
  qed
qed

function fmt_text :: "u8 list \<Rightarrow> va list \<Rightarrow> pf_error + u8 list" where
  "fmt_text fmt vs =
     (case fmt of [] \<Rightarrow> Inr []
      | c # fmt \<Rightarrow>
        if c \<noteq> 37 then map_sum id ((#) c) (fmt_text fmt vs)
        else case parse_flags fmt {} of (flags, fmt) \<Rightarrow>
          case parse_width fmt flags vs of Inl e \<Rightarrow> Inl e
          | Inr (width, flags, fmt, vs) \<Rightarrow>
            case parse_precision fmt flags vs of Inl e \<Rightarrow> Inl e
            | Inr (prec, flags, fmt, vs) \<Rightarrow>
              case parse_length fmt flags of (flags, fmt) \<Rightarrow>
                case fmt of [] \<Rightarrow> Inl Format_overrun
                | c # fmt \<Rightarrow>
                  case conv_text c prec width flags vs of Inl e \<Rightarrow> Inl e
                  | Inr (vs, cs) \<Rightarrow> map_sum id ((@) cs) (fmt_text fmt vs))"
  by pat_completeness auto
termination
  by (relation "measure (\<lambda>(fmt, vs). length fmt)")
    (auto dest!: parse_flags_len [OF sym] parse_length_len [OF sym] parse_width_len parse_precision_len)

declare fmt_text.simps [simp del]

lemma vsn_loop_emit: "vsn_loop out maxlen fmt vs st = map_sum id (\<lambda>cs. emit out maxlen cs st) (fmt_text fmt vs)"
proof (induction "length fmt" arbitrary: fmt vs st rule: less_induct)
  case less
  show ?case
  proof (cases fmt)
    case (Cons c fmt')
    have m: "map_sum id (\<lambda>cs. emit out maxlen cs st) (map_sum id ((@) ds) t)
        = map_sum id (\<lambda>cs. emit out maxlen cs (emit out maxlen ds st)) t" for ds t
      by (cases t) (simp_all add: emit_append)
    have c1: "(#) c = (@) [c]" by auto
    show ?thesis
    proof (cases "c = 37")
      case False
      have "vsn_loop out maxlen fmt vs st = vsn_loop out maxlen fmt' vs (emit out maxlen [c] st)"
        by (subst vsn_loop.simps) (simp add: Cons False emit_one del: emit.simps)
      moreover have "fmt_text fmt vs = map_sum id ((@) [c]) (fmt_text fmt' vs)"
        unfolding c1 [symmetric] by (subst fmt_text.simps) (simp add: Cons False)
      moreover have "length fmt' < length fmt" by (simp add: Cons)
      ultimately show ?thesis by (simp only: m less)
    next
      case True
      obtain flags f1 where pf: "parse_flags fmt' {} = (flags, f1)" by fastforce
      show ?thesis
      proof (cases "parse_width f1 flags vs")
        case (Inr b)
        then obtain w fl2 f2 vs2 where pw: "parse_width f1 flags vs = Inr (w, fl2, f2, vs2)" by (cases b) auto
        show ?thesis
        proof (cases "parse_precision f2 fl2 vs2")
          case (Inr d)
          then obtain pr fl3 f3 vs3 where pp: "parse_precision f2 fl2 vs2 = Inr (pr, fl3, f3, vs3)" by (cases d) auto
          obtain fl4 f4 where pl: "parse_length f3 fl3 = (fl4, f4)" by fastforce
          note eqs = Cons True pf pw pp pl
          show ?thesis
          proof (cases f4)
            case f4: (Cons c2 f5)
            have "length f5 < length fmt"
              using parse_flags_len [OF pf] parse_width_len [OF pw] parse_precision_len [OF pp] parse_length_len [OF pl] f4 Cons
              by simp
            note IH = less [OF this]
            show ?thesis
            proof (cases "conv_text c2 pr w fl4 vs3")
              case ct: (Inr e)
              then show ?thesis
                by (subst vsn_loop.simps, subst fmt_text.simps) (cases e, simp add: eqs f4 convert_emit m IH)
            qed (subst vsn_loop.simps, subst fmt_text.simps, simp add: eqs f4 convert_emit)
          qed (subst vsn_loop.simps, subst fmt_text.simps, simp add: eqs)
        qed (subst vsn_loop.simps, subst fmt_text.simps, simp add: Cons True pf pw)
      qed (subst vsn_loop.simps, subst fmt_text.simps, simp add: Cons True pf)
    qed
  qed (subst vsn_loop.simps, subst fmt_text.simps, simp)
qed

section \<open>Where it is sent\<close>

text \<open>An output that takes every character but NUL, whatever the index.\<close>

locale char_sink =
  fixes out :: "'s out_fct_type" and put :: "u8 \<Rightarrow> 's \<Rightarrow> 's"
  assumes out_put: "out c idx maxlen s = (if c = 0 then s else put c s)"
begin

lemma emit_put: "emit out maxlen cs (idx, s) = (idx + of_nat (length cs), fold put (filter (\<lambda>c. c \<noteq> 0) cs) s)"
  by (induction cs arbitrary: idx s) (simp_all add: out_put add.assoc)

lemma vsnprintf_put:
  "vsnprintf_c out False maxlen fmt vs s
     = map_sum id (\<lambda>cs. (of_nat (length cs), fold put (filter (\<lambda>c. c \<noteq> 0) cs) s)) (fmt_text fmt vs)"
  by (cases "fmt_text fmt vs") (simp_all add: vsnprintf_c_def vsn_loop_emit emit_put out_put)

end

interpretation console: char_sink out_char putchar_c
  by unfold_locales (simp add: out_char_def)

interpretation caller: char_sink "out_fct fct" fct for fct
  by unfold_locales (simp add: out_fct_def)

lemma fold_putchar: "0 \<notin> set cs \<Longrightarrow> fold putchar_c cs s = s\<lparr>uart_out := uart_out s @ cs\<rparr>"
  by (induction cs arbitrary: s) (auto simp: putchar_c_def)

text \<open>
  C4. Formatted output sends one text, wherever it goes: \<^verbatim>\<open>printf\<close> writes the text without NUL characters to the
  console, \<^verbatim>\<open>fctprintf\<close> calls the caller's function on the same characters, and both return the text's length.
  An argument that is missing, or a format that ends within a conversion, is an error for all.
\<close>

theorem printf_sends_text:
  "printf_c fmt vs s = map_sum id (\<lambda>cs. (of_nat (length cs), s\<lparr>uart_out := uart_out s @ filter (\<lambda>c. c \<noteq> 0) cs\<rparr>)) (fmt_text fmt vs)
    \<and> fctprintf fct fmt vs t = map_sum id (\<lambda>cs. (of_nat (length cs), fold fct (filter (\<lambda>c. c \<noteq> 0) cs) t)) (fmt_text fmt vs)"
  by (simp add: printf_c_def fctprintf_def console.vsnprintf_put caller.vsnprintf_put fold_putchar)

lemma emit_buffer:
  assumes "unat idx + length cs < 4294967296"
  shows "emit out_buffer maxlen cs (idx, b)
    = (idx + of_nat (length cs),
       \<lambda>i. if unat idx \<le> i \<and> i < unat idx + length cs \<and> i < unat maxlen then cs ! (i - unat idx) else b i)"
  using assms
proof (induction cs arbitrary: idx b)
  case (Cons c cs)
  have s: "unat (idx + 1) = unat idx + 1" using Cons.prems unat_u32_add [of idx 1] by simp
  have step: "(\<lambda>i. if unat (idx + 1) \<le> i \<and> i < unat (idx + 1) + length cs \<and> i < unat maxlen then cs ! (i - unat (idx + 1))
         else out_buffer c idx maxlen b i)
      = (\<lambda>i. if unat idx \<le> i \<and> i < unat idx + length (c # cs) \<and> i < unat maxlen then (c # cs) ! (i - unat idx) else b i)"
    (is "?l = ?r")
  proof
    fix i
    show "?l i = ?r i"
    proof (cases "i = unat idx")
      case False
      then show ?thesis using s by (auto simp: out_buffer_def nth_Cons' less_eq_Suc_le)
    qed (auto simp: s out_buffer_def word_less_nat_alt)
  qed
  have "emit out_buffer maxlen (c # cs) (idx, b) = (idx + 1 + of_nat (length cs), ?l)"
    using Cons.IH [of "idx + 1" "out_buffer c idx maxlen b"] Cons.prems s by simp
  then show ?case unfolding step by simp
qed (auto simp: fun_eq_iff)

lemma snprintf_text:
  assumes "fmt_text fmt vs = Inr cs" and "length cs < 4294967296" and "n = min (length cs) (unat cnt - 1)"
  shows "snprintf_c False cnt fmt vs b
      = Inr (of_nat (length cs), \<lambda>i. if i < n then cs ! i else if i = n \<and> cnt \<noteq> 0 then 0 else b i)
    \<and> snprintf_c True cnt fmt vs b = Inr (of_nat (length cs), b)"
proof -
  have l: "unat (of_nat (length cs) :: u32) = length cs" using assms(2) by (rule unat_of_nat_u32)
  let ?b = "\<lambda>i. if i < length cs \<and> i < unat cnt then cs ! i else b i"
  have e: "emit out_buffer cnt cs (0, b) = (of_nat (length cs), ?b)"
    using emit_buffer [of 0 cs cnt b] assms(2) by (simp cong: if_cong)
  have "emit out_null cnt cs (0, b) = (of_nat (length cs), b)"
  proof -
    have "emit out_null cnt cs (i, b) = (i + of_nat (length cs), b)" for i
      by (induction cs arbitrary: i) (simp_all add: out_null_def add.assoc)
    then show ?thesis by simp
  qed
  then have "snprintf_c True cnt fmt vs b = Inr (of_nat (length cs), b)"
    using assms(1) by (simp add: snprintf_c_def vsnprintf_c_def vsn_loop_emit out_null_def)
  moreover have "out_buffer 0 (if of_nat (length cs) < cnt then of_nat (length cs) else cnt - 1) cnt ?b
      = (\<lambda>i. if i < n then cs ! i else if i = n \<and> cnt \<noteq> 0 then 0 else b i)"
  proof (cases "cnt = 0")
    case False
    then have c: "unat cnt \<noteq> 0" "unat (cnt - 1) = unat cnt - 1" using unat_dec by (simp_all add: unat_eq_0)
    define k :: u32 where "k = (if of_nat (length cs) < cnt then of_nat (length cs) else cnt - 1)"
    have k: "unat k = n" "k < cnt" using l c assms(3) by (auto simp: k_def word_less_nat_alt)
    have n: "n < unat cnt" "n \<le> length cs" using c assms(3) by auto
    have le: "i < length cs \<Longrightarrow> i < unat cnt \<Longrightarrow> i < n \<or> i = n" for i using c assms(3) by auto
    show ?thesis using False k n unfolding k_def [symmetric] by (auto simp: out_buffer_def fun_eq_iff dest: le)
  qed (use assms(3) in \<open>simp add: out_buffer_def\<close>)
  ultimately show ?thesis using assms(1) e by (simp add: snprintf_c_def vsnprintf_c_def vsn_loop_emit)
qed

text \<open>
  C5. \<^verbatim>\<open>snprintf\<close> writes only within the \<open>cnt\<close> bytes of the buffer: the first \<open>cnt - 1\<close> characters of the text, a
  NUL behind them, and nothing else; nothing at all if \<open>cnt\<close> is 0. It returns the length of the whole text.
\<close>

theorem snprintf_bounded:
  assumes "fmt_text fmt vs = Inr cs" and "length cs < 4294967296" and "n = min (length cs) (unat cnt - 1)"
  shows "snprintf_c False cnt fmt vs b
      = Inr (of_nat (length cs), \<lambda>i. if i < n then cs ! i else if i = n \<and> cnt \<noteq> 0 then 0 else b i)
    \<and> snprintf_c True cnt fmt vs b = Inr (of_nat (length cs), b)"
  using snprintf_text [OF assms] .

section \<open>The text of a number\<close>

text \<open>The digits of a number, the first one in front.\<close>

fun num_digits :: "nat \<Rightarrow> nat \<Rightarrow> nat list" where
  "num_digits base n = (if n < base \<or> base < 2 then [n] else num_digits base (n div base) @ [n mod base])"

declare num_digits.simps [simp del]

lemma num_digits_ne: "num_digits base n \<noteq> []"
  by (subst num_digits.simps) simp

lemma num_digits_less: "2 \<le> base \<Longrightarrow> d \<in> set (num_digits base n) \<Longrightarrow> d < base"
proof (induction base n rule: num_digits.induct)
  case (1 base n)
  then show ?case by (subst (asm) (2) num_digits.simps) (auto split: if_splits)
qed

lemma num_digits_len: "2 \<le> base \<Longrightarrow> 0 < k \<Longrightarrow> n < base ^ k \<Longrightarrow> length (num_digits base n) \<le> k"
proof (induction k arbitrary: n)
  case (Suc k)
  show ?case
  proof (cases "n < base")
    case False
    then have "k \<noteq> 0" using Suc.prems by (auto intro: ccontr)
    moreover have "n div base < base ^ k" using Suc.prems(1,3) by (simp add: less_mult_imp_div_less mult.commute)
    ultimately have "length (num_digits base (n div base)) \<le> k" using Suc by simp
    with False Suc.prems(1) show ?thesis by (subst num_digits.simps) simp
  qed (subst num_digits.simps, simp)
qed simp

lemma horner_append: "horner base v (xs @ ys) = horner base (horner base v xs) ys"
  by (induction xs arbitrary: v) simp_all

lemma num_digits_value: "2 \<le> base \<Longrightarrow> horner (int base) 0 (map int (num_digits base n)) = int n"
proof (induction base n rule: num_digits.induct)
  case (1 base n)
  show ?case
  proof (cases "n < base")
    case False
    then show ?thesis using 1 by (subst num_digits.simps) (simp add: horner_append flip: of_nat_mult of_nat_add)
  qed (subst num_digits.simps, simp)
qed

lemma ntoa_digits_nat:
  assumes "2 \<le> unat base" and "length buf + length (num_digits (unat base) (unat v)) \<le> 32"
  shows "ntoa_digits upper base v buf = buf @ map (\<lambda>d. digit_char upper (of_nat d)) (rev (num_digits (unat base) (unat v)))"
  using assms
proof (induction upper base v buf rule: ntoa_digits.induct)
  case (1 upper base v buf)
  have dm: "unat (v div base) = unat v div unat base" "unat (v mod base) = unat v mod unat base"
    by (simp_all add: unat_div_distrib unat_mod_distrib)
  have c: "digit_char upper (of_nat (unat v mod unat base)) = digit_char upper (v mod base)"
    unfolding dm(2) [symmetric] by simp
  show ?case
  proof (cases "unat v < unat base")
    case True
    then have "v div base = 0" using dm(1) by (simp add: word_unat_eq_iff)
    with True c show ?thesis by (subst ntoa_digits.simps, subst num_digits.simps) simp
  next
    case False
    have nb: "\<not> unat base < 2" using "1.prems"(1) by linarith
    have nd: "num_digits (unat base) (unat v) = num_digits (unat base) (unat (v div base)) @ [unat v mod unat base]"
      using False nb dm(1) by (subst num_digits.simps) simp
    have "unat v div unat base \<noteq> 0" using False nb by (simp add: div_eq_0_iff)
    then have "v div base \<noteq> 0" using dm(1) by auto
    moreover have "0 < length (num_digits (unat base) (unat (v div base)))" using num_digits_ne by simp
    moreover have "length (num_digits (unat base) (unat v)) = length (num_digits (unat base) (unat (v div base))) + 1"
      using nd by simp
    ultimately have "v div base \<noteq> 0" "length buf + 1 < 32" using "1.prems"(2) by linarith+
    then show ?thesis using 1 nd c
      by (subst ntoa_digits.simps) (simp add: Let_def PRINTF_NTOA_BUFFER_SIZE_def)
  qed
qed

lemma num_digits_word: "2 \<le> base \<Longrightarrow> length (num_digits base (unat (v :: u32))) \<le> 32"
proof -
  assume b: "2 \<le> base"
  have "unat v < 2 ^ 32" using unat_u32_less [of v] by simp
  also have "(2 :: nat) ^ 32 \<le> base ^ 32" using b by (rule power_mono) simp
  finally show ?thesis using num_digits_len [OF b, of 32] by simp
qed

text \<open>The text of a number as C describes it.\<close>

definition int_digits :: "u32 \<Rightarrow> u32 \<Rightarrow> pflag set \<Rightarrow> u8 list" where
  "int_digits v base flags =
     (if P_PRECISION \<in> flags \<and> v = 0 then []
      else map (\<lambda>d. digit_char (P_UPPERCASE \<in> flags) (of_nat d)) (num_digits (unat base) (unat v)))"

definition int_sign :: "bool \<Rightarrow> pflag set \<Rightarrow> u8 list" where
  "int_sign negative flags =
     (if negative then [45] else if P_PLUS \<in> flags then [43] else if P_SPACE \<in> flags then [32] else [])"

definition int_spec :: "u32 \<Rightarrow> bool \<Rightarrow> u32 \<Rightarrow> u32 \<Rightarrow> u32 \<Rightarrow> pflag set \<Rightarrow> u8 list" where
  "int_spec v negative base prec width flags =
     (let ds = int_digits v base flags; sg = int_sign negative flags;
          body = replicate (unat prec - length ds) 48 @ ds;
          pad = unat width - (length sg + length body)
      in if P_LEFT \<in> flags then sg @ body @ replicate pad 32
         else if P_ZEROPAD \<in> flags then sg @ replicate pad 48 @ body
         else replicate pad 32 @ sg @ body)"

lemma put_if_room_eq: "length buf < 32 \<Longrightarrow> put_if_room c buf = buf @ [c]"
  by (simp add: put_if_room_def PRINTF_NTOA_BUFFER_SIZE_def)

lemma ntoa_sign_eq: "length buf < 32 \<Longrightarrow> ntoa_sign buf negative flags = buf @ rev (int_sign negative flags)"
  by (simp add: ntoa_sign_def int_sign_def put_if_room_eq)

lemma int_sign_len: "length (int_sign negative flags) = (if negative \<or> P_PLUS \<in> flags \<or> P_SPACE \<in> flags then 1 else 0)"
  by (simp add: int_sign_def)

lemma ntoa_width_nat:
  "unat (ntoa_width negative width flags)
     = (if P_LEFT \<notin> flags \<and> P_ZEROPAD \<in> flags then unat width - length (int_sign negative flags) else unat width)"
  by (auto simp: ntoa_width_def int_sign_len unat_dec)

lemma ntoa_text_spec:
  assumes "2 \<le> unat base" and "P_HASH \<notin> flags"
    and "P_LEFT \<in> flags \<Longrightarrow> unat prec \<le> length (int_digits v base flags)"
    and "length (int_sign negative flags) + max (unat prec) (length (int_digits v base flags)) \<le> 32"
    and "P_ZEROPAD \<in> flags \<and> P_LEFT \<notin> flags \<Longrightarrow> unat width \<le> 32"
  shows "ntoa_text v negative base prec width flags = int_spec v negative base prec width flags"
proof -
  let ?ds = "int_digits v base flags" and ?sg = "int_sign negative flags"
  define z where "z = (if P_LEFT \<in> flags then 0 else unat prec - length ?ds)"
  define w where "w = ntoa_width negative width flags"
  define y where "y = (if P_ZEROPAD \<in> flags \<and> P_LEFT \<notin> flags then unat w - (z + length ?ds) else 0)"
  have wn: "unat w = (if P_LEFT \<notin> flags \<and> P_ZEROPAD \<in> flags then unat width - length ?sg else unat width)"
    unfolding w_def by (rule ntoa_width_nat)
  have d: "(if P_PRECISION \<notin> flags \<or> v \<noteq> 0 then ntoa_digits (P_UPPERCASE \<in> flags) base v [] else []) = rev ?ds"
    using ntoa_digits_nat [OF assms(1), of "[]" v "P_UPPERCASE \<in> flags"] num_digits_word [OF assms(1), of v]
    by (simp add: int_digits_def rev_map)
  have l: "length ?ds \<le> 32" "unat prec \<le> 32" using assms(4) by auto
  have "ntoa_pad (rev ?ds) prec w flags = rev ?ds @ replicate (z + y) 48"
  proof (cases "P_LEFT \<in> flags")
    case False
    have "zeros_upto (unat prec) (rev ?ds) = rev ?ds @ replicate z 48"
      using l False by (simp add: zeros_upto_eq z_def min_def)
    moreover have "P_ZEROPAD \<in> flags \<Longrightarrow> min (unat w) 32 - (length ?ds + z) = y"
      using wn assms(5) False by (simp add: y_def min_def add.commute)
    moreover have "length ?ds + z \<le> 32" using l by (auto simp: z_def)
    ultimately show ?thesis using False by (simp add: ntoa_pad_def zeros_upto_eq replicate_add y_def)
  qed (simp add: ntoa_pad_def z_def y_def)
  moreover have f: "(if v = 0 then flags - {P_HASH} else flags) = flags" using assms(2) by simp
  have "ntoa_buf v negative base prec w flags = ntoa_sign (ntoa_hash (ntoa_pad (rev ?ds) prec w flags) base prec w flags) negative flags"
    unfolding ntoa_buf_def Let_def f d ..
  ultimately have "ntoa_buf v negative base prec w flags = ntoa_sign (rev ?ds @ replicate (z + y) 48) negative flags"
    using assms(2) by (simp add: ntoa_hash_def)
  also have "\<dots> = rev ?ds @ replicate (z + y) 48 @ rev ?sg"
  proof (cases "?sg = []")
    case True
    then show ?thesis by (auto simp: int_sign_def ntoa_sign_def split: if_splits)
  next
    case False
    then have "length ?sg = 1" by (auto simp: int_sign_len int_sign_def split: if_splits)
    then have "length ?ds + (z + y) < 32" using assms(4,5) wn by (auto simp: z_def y_def)
    then show ?thesis using ntoa_sign_eq [of "rev ?ds @ replicate (z + y) 48"] by simp
  qed
  finally have b: "ntoa_buf v negative base prec w flags = rev ?ds @ replicate (z + y) 48 @ rev ?sg" .
  have "rev_text (ntoa_buf v negative base prec w flags) w flags = int_spec v negative base prec width flags"
  proof (cases "P_LEFT \<in> flags")
    case True
    then have "unat prec - length ?ds = 0" "z = 0" "y = 0" using assms(3) by (simp_all add: z_def y_def)
    then show ?thesis unfolding b rev_text_def int_spec_def Let_def using True wn by (simp add: ac_simps)
  next
    case False
    then have z: "z = unat prec - length ?ds" by (simp add: z_def)
    show ?thesis
    proof (cases "P_ZEROPAD \<in> flags")
      case True
      then have "y = unat width - (length ?sg + (z + length ?ds))" using wn False by (simp add: y_def)
      then show ?thesis unfolding b rev_text_def int_spec_def Let_def using True False z
        by (simp add: replicate_add add.commute)
    next
      case zp: False
      then have "y = 0" "unat w = unat width" using wn by (simp_all add: y_def)
      then show ?thesis unfolding b rev_text_def int_spec_def Let_def using False zp z by (simp add: ac_simps)
    qed
  qed
  then show ?thesis by (simp add: ntoa_text_def Let_def w_def)
qed

text \<open>
  C6. An integer is printed as C prescribes: its digits in the base, zeros up to the precision, the sign, and
  padding to the width on the side and with the character that the flags ask for; nothing for 0 with precision
  0. The conditions are that no prefix is asked for, that a left-aligned number has no zeros to add, and
  that digits, zeros and sign fit the conversion buffer of 32 characters.
\<close>

theorem ntoa_long_correct:
  assumes "2 \<le> unat base" and "P_HASH \<notin> flags"
    and "P_LEFT \<in> flags \<Longrightarrow> unat prec \<le> length (int_digits v base flags)"
    and "length (int_sign negative flags) + max (unat prec) (length (int_digits v base flags)) \<le> 32"
    and "P_ZEROPAD \<in> flags \<and> P_LEFT \<notin> flags \<Longrightarrow> unat width \<le> 32"
  shows "ntoa_long out maxlen v negative base prec width flags st
    = emit out maxlen (int_spec v negative base prec width flags) st"
  using ntoa_text_spec [OF assms] by (simp add: ntoa_long_emit)

subsection \<open>Printing and reading back\<close>

lemma digit_of_char: "d < 10 \<Longrightarrow> digit_of 10 (uint (digit_char False (of_nat d))) = Some (int d)"
proof -
  assume "d < 10"
  then have "d = 0 \<or> d = 1 \<or> d = 2 \<or> d = 3 \<or> d = 4 \<or> d = 5 \<or> d = 6 \<or> d = 7 \<or> d = 8 \<or> d = 9" by presburger
  then show ?thesis by (elim disjE) (simp_all add: digit_char_def digit_of_def ISDIGIT_def)
qed

text \<open>The decimal text of a signed number.\<close>

definition dec_text :: "u32 \<Rightarrow> u8 list" where
  "dec_text w = (if sint w < 0 then [45] else [])
     @ map (\<lambda>d. digit_char False (of_nat d)) (num_digits 10 (unat (if sint w > 0 then w else - w)))"

lemma dec_text_len: "length (dec_text w) \<le> 33"
  using num_digits_word [of 10 "if sint w > 0 then w else - w"] by (simp add: dec_text_def split: if_splits)

lemma fmt_text_d: "fmt_text [37, 100] [VWord w] = Inr (dec_text w)"
proof -
  define v where "v = (if sint w > 0 then w else - w)"
  have l: "length (num_digits 10 (unat v)) \<le> 10"
  proof (rule num_digits_len)
    show "unat v < 10 ^ 10" by (rule less_trans [OF unat_u32_less]) simp
  qed simp_all
  have "ntoa_text v (sint w < 0) 10 0 0 {} = int_spec v (sint w < 0) 10 0 0 {}"
    using l by (intro ntoa_text_spec) (auto simp: int_sign_def int_digits_def)
  moreover have "conv_text 100 0 0 {} [VWord w] = Inr ([], ntoa_text v (sint w < 0) 10 0 0 {})"
    by (simp add: conv_text_def int_base_def int_flags_def signed_arg_def v_def)
  moreover have "fmt_text [] [] = Inr []" by (subst fmt_text.simps) simp
  ultimately show ?thesis unfolding dec_text_def v_def [symmetric]
    by (subst fmt_text.simps) (simp add: parse_width_def parse_precision_def is_digit_def int_spec_def int_sign_def int_digits_def)
qed

text \<open>
  C7. A number printed with \<^verbatim>\<open>%d\<close> and read back with \<^verbatim>\<open>strtoul\<close> in base 10 is the number again, negative
  numbers included: the minus sign negates modulo \<open>2 ^ 32\<close>.
\<close>

theorem print_parse_roundtrip:
  "sprintf_c False [37, 100] [VWord w] b = Inr (of_nat (length (dec_text w)),
      \<lambda>i. if i < length (dec_text w) then dec_text w ! i else if i = length (dec_text w) then 0 else b i)
    \<and> (\<forall>m p f. cstr m p (dec_text w) \<and> length (dec_text w) < f \<longrightarrow> strtoul f p 0 10 m = Inr ((w, False), m))"
proof -
  let ?v = "if sint w > 0 then w else - w" and ?sg = "if sint w < 0 then [45 :: u8] else []"
  let ?ds = "num_digits 10 (unat ?v)"
  let ?cs = "map (\<lambda>d. digit_char False (of_nat d)) ?ds"
  have dig: "d < 10" if "d \<in> set ?ds" for d using num_digits_less [of 10] that by simp
  have "map (\<lambda>c. digit_of 10 (uint c)) ?cs = map Some (map int ?ds)"
    by (simp add: dig digit_of_char)
  moreover have "horner 10 0 (map int ?ds) = int (unat ?v)" using num_digits_value [of 10 "unat ?v"] by simp
  moreover have "digit_of 10 (nextc []) = None" by (simp add: digit_of_def nextc_def ISDIGIT_def ISALPHA_def ISUPPER_def)
  moreover have "int (unat ?v) \<le> 0xffffffff" using unat_u32_less [of ?v] by linarith
  moreover have "sint w = 0 \<Longrightarrow> w = 0" by (simp add: signed_eq_0_iff)
  then have "(if ?sg = [45] then - word_of_int (int (unat ?v)) else word_of_int (int (unat ?v))) = w" by auto
  ultimately have "strtoul f p 0 10 m = Inr ((w, False), m)" if "cstr m p (?sg @ ?cs)" "length (?sg @ ?cs) < f" for m p f
    using strtoul_spec [of m p "[]" ?sg ?cs "[]" 10 "map int ?ds" f 0] that num_digits_ne [of 10 "unat ?v"] by (simp split: if_splits)
  moreover have "?sg @ ?cs = dec_text w" by (simp add: dec_text_def)
  moreover have "sprintf_c False [37, 100] [VWord w] b = Inr (of_nat (length (dec_text w)),
      \<lambda>i. if i < length (dec_text w) then dec_text w ! i else if i = length (dec_text w) then 0 else b i)"
  proof -
    have "unat (0 - 1 :: u32) = 4294967295" by (simp only: unat_sub_if') simp
    then have "unat (- 1 :: u32) = 4294967295" by simp
    then have m: "length (dec_text w) = min (length (dec_text w)) (unat (- 1 :: u32) - 1)" using dec_text_len [of w] by simp
    have l: "length (dec_text w) < 4294967296" using dec_text_len [of w] by simp
    show ?thesis using snprintf_text [OF fmt_text_d l m, of b] by (simp add: sprintf_c_def snprintf_c_def cong: if_cong)
  qed
  ultimately show ?thesis by simp
qed

subsection \<open>Where the text is not the one of C\<close>

text \<open>
  Formats whose text differs from the one C prescribes. A number in base 16 with the prefix flag whose digits fill
  the width loses two of its digits: \<open>0x1234\<close> with \<^verbatim>\<open>%#4x\<close> prints as \<^verbatim>\<open>0x34\<close>. The precision of a
  left-aligned number is ignored: 42 with \<^verbatim>\<open>%-.5d\<close> prints as \<^verbatim>\<open>42\<close>. A precision of 32 or more leaves no room
  for the sign: -1 with \<^verbatim>\<open>%.32d\<close> prints without it. A format that ends in \<^verbatim>\<open>%\<close> makes the code read
  past its end.
\<close>

theorem printf_deviations:
  "fctprintf (\<lambda>c s. s @ [c]) [37, 35, 52, 120] [VWord 0x1234] [] = Inr (4, [48, 120, 51, 52])
    \<and> fctprintf (\<lambda>c s. s @ [c]) [37, 45, 46, 53, 100] [VWord 42] [] = Inr (2, [52, 50])
    \<and> fctprintf (\<lambda>c s. s @ [c]) [37, 46, 51, 50, 100] [VWord (- 1)] [] = Inr (32, replicate 31 48 @ [49])
    \<and> fctprintf (\<lambda>c s. s @ [c]) [37] [] [] = Inl Format_overrun"
  by (intro conjI; code_simp)

section \<open>Examples\<close>

theorem snprintf_bounded_witness:
  "fmt_text [37, 100] [VWord 42] = Inr [52, 50]
    \<and> snprintf_c False 2 [37, 100] [VWord 42] (\<lambda>_. 255) = Inr (2, \<lambda>i. if i < 1 then [52, 50] ! i else if i = 1 then 0 else 255)"
proof -
  have t: "fmt_text [37, 100] [VWord 42] = Inr [52, 50]" by code_simp
  with snprintf_bounded [OF t, of 1 2 "\<lambda>_. 255"] show ?thesis by (simp cong: if_cong)
qed

theorem ntoa_long_correct_witness:
  "ntoa_long (\<lambda>c idx maxlen s. s @ [c]) 0 42 True 10 0 5 {P_ZEROPAD} (0, []) = (5, [45, 48, 48, 52, 50])"
proof -
  have d: "int_digits 42 10 {P_ZEROPAD} = [52, 50]" "int_sign True {P_ZEROPAD} = [45]" by code_simp+
  have "int_spec 42 True 10 0 5 {P_ZEROPAD} = [45, 48, 48, 52, 50]" by code_simp
  with d show ?thesis using ntoa_long_correct [of 10 "{P_ZEROPAD}" 0 42 True 5 "\<lambda>c idx maxlen s. s @ [c]"] by simp
qed

theorem print_parse_roundtrip_witness:
  "strtoul 9 0x30000100 0 10 (demo_mem\<lparr>ram := (\<lambda>_. 0)(256 := 45, 257 := 49, 258 := 55)\<rparr>)
    = Inr ((- 17, False), demo_mem\<lparr>ram := (\<lambda>_. 0)(256 := 45, 257 := 49, 258 := 55)\<rparr>)"
proof -
  let ?m = "demo_mem\<lparr>ram := (\<lambda>_. 0)(256 := 45, 257 := 49, 258 := 55)\<rparr>"
  have "dec_text (- 17) = [45, 49, 55]" by code_simp
  moreover have "cstr ?m 0x30000100 [45, 49, 55]"
    by (simp add: cstr_def bytes_def upt_conv_Cons demo_access demo_ptrs)
  ultimately show ?thesis using print_parse_roundtrip [of "- 17"] by simp
qed

end
