(* ===== verification/KState.thy ===== *)
theory KState
  imports Prelude
begin

text \<open>
  The state of the Zephyr kernel as configured for the SoC: one CPU, no
  user space, tickless, time slicing, list-based run queue and wait queues.
  A doubly linked list of threads (\<^verbatim>\<open>sys_dlist_t\<close>) is the list of their
  names in order (\<open>KDlist\<close> relates the two); a thread node is in one list, so
  unlinking it removes it from whichever list holds it. Spin locks are interrupt locks on one CPU:
  the functions below are the sections they protect.
\<close>

type_synonym tid = nat
type_synonym wqid = nat

datatype tflag = F_DUMMY | F_PENDING | F_PRESTART | F_DEAD | F_SUSPENDED | F_ABORTING | F_QUEUED

text \<open>\<^verbatim>\<open>struct _thread_base\<close> and the return value slot of the architecture part.\<close>

record kthread =
  user_options :: u8
  prio :: int
  sched_locked :: u8
  thread_state :: "tflag set"
  pended_on :: "wqid option"
  swap_retval :: int
  swap_data :: nat

datatype lid = RunQ | WaitQ wqid

text \<open>The owners of a \<^verbatim>\<open>struct _timeout\<close>: threads, timers, delayed work items.\<close>

datatype toid = Thr tid | Tmr nat | Wrk nat

record kernel =
  threads :: "tid \<Rightarrow> kthread"
  qlists :: "lid \<Rightarrow> tid list"
  ready_cache :: tid
  current :: tid
  idle_thread :: tid
  nested :: nat
  slice_ticks :: int
  slice_time :: int
  slice_max_prio :: int
  timeout_list :: "toid list"
  dticks :: "toid \<Rightarrow> int"
  curr_tick :: nat
  announce_remaining :: int
  can_wait_forever :: bool
  hw_elapsed :: int
  hw_timeout :: "(int \<times> bool) option"

definition upd_thread :: "tid \<Rightarrow> (kthread \<Rightarrow> kthread) \<Rightarrow> 'a kernel_scheme \<Rightarrow> 'a kernel_scheme" where
  "upd_thread t f k = k\<lparr>threads := (threads k)(t := f (threads k t))\<rparr>"

abbreviation runq :: "'a kernel_scheme \<Rightarrow> tid list" where
  "runq k \<equiv> qlists k RunQ"

abbreviation waitq :: "'a kernel_scheme \<Rightarrow> wqid \<Rightarrow> tid list" where
  "waitq k w \<equiv> qlists k (WaitQ w)"

abbreviation tstate :: "'a kernel_scheme \<Rightarrow> tid \<Rightarrow> tflag set" where
  "tstate k t \<equiv> thread_state (threads k t)"

abbreviation tprio :: "'a kernel_scheme \<Rightarrow> tid \<Rightarrow> int" where
  "tprio k t \<equiv> prio (threads k t)"

definition set_list :: "lid \<Rightarrow> tid list \<Rightarrow> 'a kernel_scheme \<Rightarrow> 'a kernel_scheme" where
  "set_list l xs k = k\<lparr>qlists := (qlists k)(l := xs)\<rparr>"

definition unlink :: "tid \<Rightarrow> 'a kernel_scheme \<Rightarrow> 'a kernel_scheme" where
  "unlink t k = k\<lparr>qlists := (\<lambda>l. remove1 t (qlists k l))\<rparr>"

definition K_FOREVER :: int where "K_FOREVER = - 1"
definition K_NO_WAIT :: int where "K_NO_WAIT = 0"
definition INT_MAX :: int where "INT_MAX = 2147483647"

text \<open>
  \<^verbatim>\<open>z_ms_to_ticks\<close> and \<^verbatim>\<open>__ticks_to_ms\<close> of \<^verbatim>\<open>sys_clock.h\<close> at 100 ticks a
  second, which divides both 133 MHz and 1000 ms; C division truncates, and the product is an unsigned 64-bit one.
\<close>

definition z_ms_to_ticks :: "int \<Rightarrow> int" where
  "z_ms_to_ticks ms = (let n = s32 (ms + 9) in if n \<ge> 0 then n div 10 else - ((- n) div 10))"

definition ticks_to_ms :: "nat \<Rightarrow> nat" where
  "ticks_to_ms ticks = ticks * 1000 mod 2 ^ 64 div 100"

definition TICK_ALIGN :: int where "TICK_ALIGN = 1"

text \<open>The outcome of a call that may wait: it returned, or its thread is pended.\<close>

datatype 'a outcome = Done 'a | Blocked

lemma fold_fun_upd_toid [simp]:
  "(\<lambda>a :: toid. if a = x then v else f a) = f(x := v :: int)"
  by (rule ext) simp

lemma upd_thread_sel [simp]:
  "qlists (upd_thread t f k) = qlists k" "ready_cache (upd_thread t f k) = ready_cache k"
  "current (upd_thread t f k) = current k" "idle_thread (upd_thread t f k) = idle_thread k"
  "nested (upd_thread t f k) = nested k" "slice_ticks (upd_thread t f k) = slice_ticks k"
  "slice_time (upd_thread t f k) = slice_time k" "slice_max_prio (upd_thread t f k) = slice_max_prio k"
  "timeout_list (upd_thread t f k) = timeout_list k" "dticks (upd_thread t f k) = dticks k"
  "curr_tick (upd_thread t f k) = curr_tick k"
  "announce_remaining (upd_thread t f k) = announce_remaining k"
  "can_wait_forever (upd_thread t f k) = can_wait_forever k"
  "hw_elapsed (upd_thread t f k) = hw_elapsed k" "hw_timeout (upd_thread t f k) = hw_timeout k"
  "threads (upd_thread t f k) = (threads k)(t := f (threads k t))"
  by (simp_all add: upd_thread_def)

lemma set_list_sel [simp]:
  "threads (set_list l xs k) = threads k" "ready_cache (set_list l xs k) = ready_cache k"
  "current (set_list l xs k) = current k" "idle_thread (set_list l xs k) = idle_thread k"
  "nested (set_list l xs k) = nested k" "slice_ticks (set_list l xs k) = slice_ticks k"
  "slice_time (set_list l xs k) = slice_time k" "slice_max_prio (set_list l xs k) = slice_max_prio k"
  "timeout_list (set_list l xs k) = timeout_list k" "dticks (set_list l xs k) = dticks k"
  "curr_tick (set_list l xs k) = curr_tick k"
  "announce_remaining (set_list l xs k) = announce_remaining k"
  "can_wait_forever (set_list l xs k) = can_wait_forever k"
  "hw_elapsed (set_list l xs k) = hw_elapsed k" "hw_timeout (set_list l xs k) = hw_timeout k"
  "qlists (set_list l xs k) = (qlists k)(l := xs)"
  by (simp_all add: set_list_def)

lemma unlink_sel [simp]:
  "threads (unlink t k) = threads k" "ready_cache (unlink t k) = ready_cache k"
  "current (unlink t k) = current k" "idle_thread (unlink t k) = idle_thread k"
  "nested (unlink t k) = nested k" "slice_ticks (unlink t k) = slice_ticks k"
  "slice_time (unlink t k) = slice_time k" "slice_max_prio (unlink t k) = slice_max_prio k"
  "timeout_list (unlink t k) = timeout_list k" "dticks (unlink t k) = dticks k"
  "curr_tick (unlink t k) = curr_tick k"
  "announce_remaining (unlink t k) = announce_remaining k"
  "can_wait_forever (unlink t k) = can_wait_forever k"
  "hw_elapsed (unlink t k) = hw_elapsed k" "hw_timeout (unlink t k) = hw_timeout k"
  "qlists (unlink t k) l = remove1 t (qlists k l)"
  by (simp_all add: unlink_def)

section \<open>An example state\<close>

text \<open>
  Thread 0 is the idle thread, thread 4 (priority 5) runs, threads 2 and 3
  (priorities 3 and 4) wait on queue 7.
\<close>

definition base_thread :: kthread where
  "base_thread = \<lparr>user_options = 0, prio = 5, sched_locked = 0, thread_state = {}, pended_on = None, swap_retval = - 11, swap_data = 0\<rparr>"

definition demo_kernel :: kernel where
  "demo_kernel = \<lparr>threads = (\<lambda>_. base_thread)
       (4 := base_thread\<lparr>thread_state := {F_QUEUED}\<rparr>,
        2 := base_thread\<lparr>prio := 3, thread_state := {F_PENDING}, pended_on := Some 7\<rparr>,
        3 := base_thread\<lparr>prio := 4, thread_state := {F_PENDING}, pended_on := Some 7\<rparr>),
     qlists = (\<lambda>_. [])(RunQ := [4], WaitQ 7 := [2, 3]), ready_cache = 4, current = 4, idle_thread = 0,
     nested = 0, slice_ticks = 0, slice_time = 0, slice_max_prio = 0, timeout_list = [], dticks = (\<lambda>_. 0),
     curr_tick = 0, announce_remaining = 0, can_wait_forever = False, hw_elapsed = 0, hw_timeout = None\<rparr>"

lemma demo_sel:
  "current demo_kernel = 4" "runq demo_kernel = [4]" "waitq demo_kernel 7 = [2, 3]"
  "w \<noteq> 7 \<Longrightarrow> waitq demo_kernel w = []" "idle_thread demo_kernel = 0" "nested demo_kernel = 0"
  "timeout_list demo_kernel = []" "tprio demo_kernel 4 = 5" "tprio demo_kernel 2 = 3" "tprio demo_kernel 3 = 4"
  "pended_on (threads demo_kernel 4) = None" "tstate demo_kernel 4 = {F_QUEUED}"
  by (simp_all add: demo_kernel_def base_thread_def)

end
