(* ===== verification/KTimeout.thy ===== *)
theory KTimeout
  imports KState
begin

text \<open>
  The timeout queue, \<^verbatim>\<open>kernel/timeout.c\<close>, except \<^verbatim>\<open>z_clock_announce\<close>
  (in \<open>KClock\<close>, as it calls the scheduler). A timeout stores the ticks after
  its predecessor (\<open>dticks\<close>). The abstract queue \<open>expiries\<close> has each timeout
  with its ticks from now, in order of expiry; adding, removing and reading
  timeouts are shown to be the operations on that queue. What the timer driver
  is told last is kept in \<open>hw_timeout\<close>; \<open>hw_elapsed\<close> is what
  \<^verbatim>\<open>z_clock_elapsed\<close> returns.
\<close>

section \<open>The functions\<close>

definition to_first :: "'a kernel_scheme \<Rightarrow> toid option" where
  "to_first k = (case timeout_list k of [] \<Rightarrow> None | t # _ \<Rightarrow> Some t)"

fun next_in :: "'b list \<Rightarrow> 'b \<Rightarrow> 'b option" where
  "next_in (x # y # ys) t = (if x = t then Some y else next_in (y # ys) t)"
| "next_in _ t = None"

definition to_next :: "'a kernel_scheme \<Rightarrow> toid \<Rightarrow> toid option" where
  "to_next k t = next_in (timeout_list k) t"

definition remove_timeout :: "toid \<Rightarrow> 'a kernel_scheme \<Rightarrow> 'a kernel_scheme" where
  "remove_timeout t k =
     (let k = (case to_next k t of None \<Rightarrow> k
               | Some n \<Rightarrow> k\<lparr>dticks := (dticks k)(n := s32 (dticks k n + dticks k t))\<rparr>)
      in k\<lparr>timeout_list := remove1 t (timeout_list k)\<rparr>)"

definition elapsed :: "'a kernel_scheme \<Rightarrow> int" where
  "elapsed k = (if announce_remaining k = 0 then hw_elapsed k else 0)"

definition next_timeout :: "'a kernel_scheme \<Rightarrow> int" where
  "next_timeout k =
     (let maxw = (if can_wait_forever k then K_FOREVER else INT_MAX);
          ret = (case to_first k of None \<Rightarrow> maxw | Some t \<Rightarrow> max 0 (s32 (dticks k t - elapsed k)))
      in if slice_ticks k \<noteq> 0 \<and> slice_ticks k < ret then slice_ticks k else ret)"

definition z_clock_set_timeout :: "int \<Rightarrow> bool \<Rightarrow> 'a kernel_scheme \<Rightarrow> 'a kernel_scheme" where
  "z_clock_set_timeout ticks idle k = k\<lparr>hw_timeout := Some (ticks, idle)\<rparr>"

text \<open>
  The loop of \<^verbatim>\<open>z_add_timeout\<close>: \<open>d\<close> is what is left of the new timeout's
  ticks at the node looked at. It returns the new list and the new deltas.
\<close>

fun insert_timeout :: "(toid \<Rightarrow> int) \<Rightarrow> toid \<Rightarrow> int \<Rightarrow> toid list \<Rightarrow> toid list \<times> (toid \<Rightarrow> int)" where
  "insert_timeout ds to d [] = ([to], ds(to := d))"
| "insert_timeout ds to d (t # ts) =
     (if ds t > d then (to # t # ts, ds(to := d, t := ds t - d))
      else (case insert_timeout ds to (d - ds t) ts of (l, ds') \<Rightarrow> (t # l, ds')))"

definition z_add_timeout :: "toid \<Rightarrow> int \<Rightarrow> 'a kernel_scheme \<Rightarrow> 'a kernel_scheme" where
  "z_add_timeout to ticks k =
     (let ticks = max 1 ticks in
      case insert_timeout (dticks k) to (s32 (ticks + elapsed k)) (timeout_list k) of (l, ds) \<Rightarrow>
      let k = k\<lparr>timeout_list := l, dticks := ds\<rparr> in
      if to_first k = Some to then z_clock_set_timeout (next_timeout k) False k else k)"

definition is_linked :: "'a kernel_scheme \<Rightarrow> toid \<Rightarrow> bool" where
  "is_linked k t \<longleftrightarrow> t \<in> set (timeout_list k)"

definition z_abort_timeout :: "toid \<Rightarrow> 'a kernel_scheme \<Rightarrow> int \<times> 'a kernel_scheme" where
  "z_abort_timeout to k = (if is_linked k to then (0, remove_timeout to k) else (- EINVAL, k))"

definition z_is_inactive_timeout :: "'a kernel_scheme \<Rightarrow> toid \<Rightarrow> bool" where
  "z_is_inactive_timeout k t \<longleftrightarrow> \<not> is_linked k t"

fun sum_upto :: "(toid \<Rightarrow> int) \<Rightarrow> toid \<Rightarrow> int \<Rightarrow> toid list \<Rightarrow> int" where
  "sum_upto ds to acc [] = acc"
| "sum_upto ds to acc (t # ts) =
     (let acc = s32 (acc + ds t) in if t = to then acc else sum_upto ds to acc ts)"

definition z_timeout_remaining :: "toid \<Rightarrow> 'a kernel_scheme \<Rightarrow> int" where
  "z_timeout_remaining to k =
     (if z_is_inactive_timeout k to then 0
      else s32 (sum_upto (dticks k) to 0 (timeout_list k) - elapsed k))"

definition z_get_next_timeout_expiry :: "'a kernel_scheme \<Rightarrow> int" where
  "z_get_next_timeout_expiry k = next_timeout k"

definition z_set_timeout_expiry :: "int \<Rightarrow> bool \<Rightarrow> 'a kernel_scheme \<Rightarrow> 'a kernel_scheme" where
  "z_set_timeout_expiry ticks idle k =
     (let nxt = next_timeout k;
          sooner = (nxt = K_FOREVER \<or> ticks < nxt);
          imminent = (nxt \<le> 1)
      in if sooner \<and> \<not> imminent then z_clock_set_timeout ticks idle k else k)"

definition k_enable_sys_clock_always_on :: "'a kernel_scheme \<Rightarrow> int \<times> 'a kernel_scheme" where
  "k_enable_sys_clock_always_on k = (of_bool (\<not> can_wait_forever k), k\<lparr>can_wait_forever := False\<rparr>)"

definition k_disable_sys_clock_always_on :: "'a kernel_scheme \<Rightarrow> 'a kernel_scheme" where
  "k_disable_sys_clock_always_on k = k\<lparr>can_wait_forever := True\<rparr>"

definition z_tick_get :: "'a kernel_scheme \<Rightarrow> nat" where
  "z_tick_get k = (curr_tick k + nat (hw_elapsed k)) mod 2 ^ 64"

definition z_tick_get_32 :: "'a kernel_scheme \<Rightarrow> nat" where
  "z_tick_get_32 k = z_tick_get k mod 2 ^ 32"

definition k_uptime_get_32 :: "'a kernel_scheme \<Rightarrow> nat" where
  "k_uptime_get_32 k = ticks_to_ms (z_tick_get_32 k) mod 2 ^ 32"

definition k_uptime_get :: "'a kernel_scheme \<Rightarrow> nat" where
  "k_uptime_get k = ticks_to_ms (z_tick_get k) mod 2 ^ 64"

section \<open>The abstract queue\<close>

fun abs_times :: "(toid \<Rightarrow> int) \<Rightarrow> int \<Rightarrow> toid list \<Rightarrow> (toid \<times> int) list" where
  "abs_times ds a [] = []"
| "abs_times ds a (t # ts) = (t, a + ds t) # abs_times ds (a + ds t) ts"

definition expiries :: "'a kernel_scheme \<Rightarrow> (toid \<times> int) list" where
  "expiries k = abs_times (dticks k) 0 (timeout_list k)"

text \<open>Insertion by time, after everything that expires no later.\<close>

fun insert_abs :: "toid \<Rightarrow> int \<Rightarrow> (toid \<times> int) list \<Rightarrow> (toid \<times> int) list" where
  "insert_abs to d [] = [(to, d)]"
| "insert_abs to d ((t, x) # xs) = (if d < x then (to, d) # (t, x) # xs else (t, x) # insert_abs to d xs)"

text \<open>Every timeout is queued once, deltas are not negative, and no expiry leaves 32 bits.\<close>

definition timeouts_ok :: "'a kernel_scheme \<Rightarrow> bool" where
  "timeouts_ok k \<longleftrightarrow> distinct (timeout_list k) \<and> (\<forall>t\<in>set (timeout_list k). 0 \<le> dticks k t)
     \<and> (\<forall>(t, x)\<in>set (expiries k). x \<le> INT_MAX)"

lemma abs_times_cong: "(\<And>t. t \<in> set ts \<Longrightarrow> ds t = ds' t) \<Longrightarrow> abs_times ds a ts = abs_times ds' a ts"
  by (induction ts arbitrary: a) simp_all

lemma fst_abs_times [simp]: "map fst (abs_times ds a ts) = ts"
  by (induction ts arbitrary: a) simp_all

lemma abs_times_ge:
  "(t, x) \<in> set (abs_times ds a ts) \<Longrightarrow> \<forall>t\<in>set ts. 0 \<le> ds t \<Longrightarrow> a \<le> x"
  by (induction ts arbitrary: a) fastforce+

lemma abs_times_shift: "abs_times ds (a + d) ts = map (\<lambda>(t, x). (t, x + d)) (abs_times ds a ts)"
proof (induction ts arbitrary: a)
  case (Cons t ts)
  have "a + d + ds t = a + ds t + d" by simp
  then show ?case using Cons [of "a + ds t"] by (simp only: abs_times.simps list.map prod.case)
qed simp

text \<open>Insertion into the delta list is insertion by time.\<close>

lemma insert_timeout_abs:
  assumes "to \<notin> set ts" and "distinct ts"
  shows "case insert_timeout ds to d ts of (l, ds') \<Rightarrow>
    abs_times ds' a l = insert_abs to (a + d) (abs_times ds a ts)
    \<and> set l = insert to (set ts) \<and> distinct l \<and> (\<forall>x. x \<notin> set l \<longrightarrow> ds' x = ds x)"
  using assms
proof (induction ts arbitrary: a d)
  case (Cons t ts)
  show ?case
  proof (cases "ds t > d")
    case True
    have "abs_times (ds(to := d, t := ds t - d)) (a + ds t) ts = abs_times ds (a + ds t) ts"
      using Cons.prems by (intro abs_times_cong) auto
    with True Cons.prems show ?thesis by (auto simp: algebra_simps)
  next
    case False
    obtain l ds' where i: "insert_timeout ds to (d - ds t) ts = (l, ds')" by fastforce
    have l: "set l = insert to (set ts)" "distinct l" "\<forall>x. x \<notin> set l \<longrightarrow> ds' x = ds x"
      "abs_times ds' (a + ds t) l = insert_abs to (a + d) (abs_times ds (a + ds t) ts)"
      using Cons.IH [of "a + ds t" "d - ds t"] Cons.prems by (simp_all add: i)
    have "ds' t = ds t" using l(1,3) Cons.prems by auto
    with False l Cons.prems show ?thesis by (auto simp: i)
  qed
qed simp

text \<open>Removal from the delta list drops one entry and moves no other.\<close>

fun remove_delta :: "(toid \<Rightarrow> int) \<Rightarrow> toid \<Rightarrow> toid list \<Rightarrow> toid \<Rightarrow> int" where
  "remove_delta ds t l = (case next_in l t of None \<Rightarrow> ds | Some n \<Rightarrow> ds(n := ds n + ds t))"

lemma next_in_mem: "next_in l t = Some n \<Longrightarrow> n \<in> set (tl l)"
  by (induction l t rule: next_in.induct) (auto split: if_splits)

lemma remove_delta_abs:
  "distinct l \<Longrightarrow> t \<in> set l \<Longrightarrow>
   abs_times (remove_delta ds t l) a (remove1 t l) = filter (\<lambda>(x, _). x \<noteq> t) (abs_times ds a l)"
proof (induction l arbitrary: a)
  case (Cons x xs)
  show ?case
  proof (cases "x = t")
    case True
    have nt: "filter (\<lambda>(y, _). y \<noteq> t) (abs_times ds b ys) = abs_times ds b ys" if "t \<notin> set ys" for b ys
      using that by (induction ys arbitrary: b) auto
    show ?thesis
    proof (cases xs)
      case (Cons y ys)
      have "abs_times (ds(y := ds y + ds t)) b ys = abs_times ds b ys" for b
        using Cons.prems Cons by (intro abs_times_cong) auto
      with True Cons Cons.prems nt [of ys] show ?thesis by (auto simp: algebra_simps)
    qed (use True in simp)
  next
    case False
    have tin: "t \<in> set xs" using Cons.prems False by simp
    have nx: "next_in (x # xs) t = next_in xs t" using False tin by (cases xs) auto
    have "remove_delta ds t (x # xs) x = ds x"
      using next_in_mem [of xs t] Cons.prems nx by (cases xs) (auto split: option.split)
    moreover have "remove_delta ds t (x # xs) = remove_delta ds t xs" using nx by simp
    ultimately show ?thesis using Cons.IH [of "a + ds x"] Cons.prems False tin
      by (simp del: remove_delta.simps)
  qed
qed simp

lemma insert_abs_set: "set (insert_abs to d xs) = insert (to, d) (set xs)"
  by (induction to d xs rule: insert_abs.induct) auto

lemma insert_abs_sorted: "sorted (map snd xs) \<Longrightarrow> sorted (map snd (insert_abs to d xs))"
  by (induction to d xs rule: insert_abs.induct) (auto simp: insert_abs_set)

lemma abs_times_sorted: "\<forall>t\<in>set ts. 0 \<le> ds t \<Longrightarrow> sorted (map snd (abs_times ds a ts))"
  by (induction ts arbitrary: a) (fastforce dest: abs_times_ge)+

text \<open>Deltas are not negative exactly when the times are in order.\<close>

lemma sorted_deltas:
  "sorted (map snd (abs_times ds a ts)) \<Longrightarrow> \<forall>(t, x)\<in>set (abs_times ds a ts). a \<le> x \<Longrightarrow> t \<in> set ts \<Longrightarrow> 0 \<le> ds t"
proof (induction ts arbitrary: a)
  case (Cons x xs)
  have "\<forall>(t, y)\<in>set (abs_times ds (a + ds x) xs). a + ds x \<le> y"
    using Cons.prems(1) by auto
  with Cons show ?case by auto
qed simp

lemma next_in_Some_adjacent:
  "next_in l t = Some n \<Longrightarrow> distinct l \<Longrightarrow> t \<in> set l \<and> n \<in> set l \<and> n \<noteq> t"
  by (induction l t rule: next_in.induct) (auto split: if_splits)

lemma next_in_None: "next_in l t = None \<Longrightarrow> t \<in> set l \<Longrightarrow> last l = t"
  by (induction l t rule: next_in.induct) (auto split: if_splits)

text \<open>The time of the node after \<open>t\<close> is the sum that removal of \<open>t\<close> stores, so it does not wrap.\<close>

lemma next_delta_bound:
  assumes "next_in l t = Some n" and "\<forall>t\<in>set l. 0 \<le> ds t" and "0 \<le> a"
  shows "\<exists>x. (n, x) \<in> set (abs_times ds a l) \<and> ds n + ds t \<le> x"
  using assms
proof (induction l t arbitrary: a rule: next_in.induct)
  case (1 x y ys t)
  show ?case
  proof (cases "x = t")
    case True
    with 1 show ?thesis by auto
  next
    case False
    obtain z where "(n, z) \<in> set (abs_times ds (a + ds x) (y # ys))" "ds n + ds t \<le> z"
      using 1(1) [OF False, of "a + ds x"] 1(2-4) False by auto
    then show ?thesis by (intro exI [of _ z]) simp
  qed
qed auto

lemma s32_sum_ok:
  assumes "timeouts_ok k" and "next_in (timeout_list k) t = Some n"
  shows "s32 (dticks k n + dticks k t) = dticks k n + dticks k t"
proof -
  have nn: "\<forall>t\<in>set (timeout_list k). 0 \<le> dticks k t" using assms(1) by (simp add: timeouts_ok_def)
  obtain x where "(n, x) \<in> set (expiries k)" "dticks k n + dticks k t \<le> x"
    using next_delta_bound [OF assms(2) nn, of 0] by (auto simp: expiries_def)
  then have "dticks k n + dticks k t \<le> INT_MAX" using assms(1) by (fastforce simp: timeouts_ok_def)
  moreover have "0 \<le> dticks k n + dticks k t"
    using nn next_in_Some_adjacent [OF assms(2)] assms(1) by (simp add: timeouts_ok_def)
  ultimately show ?thesis by (intro s32_id) (simp_all add: INT_MAX_def)
qed

lemma remove_timeout_expiries:
  assumes "timeouts_ok k" and "t \<in> set (timeout_list k)"
  shows "expiries (remove_timeout t k) = filter (\<lambda>(x, _). x \<noteq> t) (expiries k)"
    and "timeout_list (remove_timeout t k) = remove1 t (timeout_list k)"
    and "timeouts_ok (remove_timeout t k)"
proof -
  let ?ds = "remove_delta (dticks k) t (timeout_list k)" and ?l = "remove1 t (timeout_list k)"
  have d: "distinct (timeout_list k)" "\<forall>t\<in>set (timeout_list k). 0 \<le> dticks k t"
    using assms(1) by (auto simp: timeouts_ok_def)
  have r: "dticks (remove_timeout t k) = ?ds" "timeout_list (remove_timeout t k) = ?l"
    using s32_sum_ok [OF assms(1), of t]
    by (auto simp: remove_timeout_def to_next_def Let_def split: option.split)
  show e: "expiries (remove_timeout t k) = filter (\<lambda>(x, _). x \<noteq> t) (expiries k)"
    using remove_delta_abs [OF d(1) assms(2), of "dticks k" 0] by (simp add: expiries_def r)
  show "timeout_list (remove_timeout t k) = ?l" by (rule r)
  have "0 \<le> ?ds x" if "x \<in> set ?l" for x
  proof -
    have "x \<in> set (timeout_list k)" using that notin_set_remove1 by metis
    with d(2) assms(2) next_in_Some_adjacent [OF _ d(1), of t] show ?thesis
      by (cases "next_in (timeout_list k) t") auto
  qed
  then show "timeouts_ok (remove_timeout t k)"
    using assms(1) e d(1) by (auto simp: timeouts_ok_def r)
qed

lemma add_timeout_expiries:
  assumes "timeouts_ok k" and "to \<notin> set (timeout_list k)"
    and "0 \<le> elapsed k" and "max 1 ticks + elapsed k \<le> INT_MAX"
  shows "expiries (z_add_timeout to ticks k) = insert_abs to (max 1 ticks + elapsed k) (expiries k)"
    and "set (timeout_list (z_add_timeout to ticks k)) = insert to (set (timeout_list k))"
    and "timeouts_ok (z_add_timeout to ticks k)"
proof -
  let ?d = "max 1 ticks + elapsed k" and ?k = "z_add_timeout to ticks k"
  have s: "s32 ?d = ?d" using assms(3,4) by (intro s32_id) (simp_all add: INT_MAX_def)
  obtain l ds where i: "insert_timeout (dticks k) to ?d (timeout_list k) = (l, ds)" by fastforce
  have d: "distinct (timeout_list k)" "\<forall>t\<in>set (timeout_list k). 0 \<le> dticks k t"
    using assms(1) by (auto simp: timeouts_ok_def)
  have l: "abs_times ds 0 l = insert_abs to ?d (expiries k)" "set l = insert to (set (timeout_list k))" "distinct l"
    using insert_timeout_abs [OF assms(2) d(1), where ds = "dticks k" and d = ?d and a = 0] i by (simp_all add: expiries_def)
  have r: "timeout_list ?k = l" "dticks ?k = ds"
    using i s by (simp_all add: z_add_timeout_def Let_def z_clock_set_timeout_def)
  show "expiries ?k = insert_abs to ?d (expiries k)" by (simp add: expiries_def r l(1))
  show "set (timeout_list ?k) = insert to (set (timeout_list k))" by (simp add: r l(2))
  have ge: "0 \<le> x" if "(t, x) \<in> set (expiries k)" for t x
    using abs_times_ge [OF that [unfolded expiries_def] d(2)] .
  have "0 \<le> ds t" if "t \<in> set l" for t
  proof (rule sorted_deltas [OF _ _ that])
    show "sorted (map snd (abs_times ds 0 l))"
      unfolding l(1) using abs_times_sorted [OF d(2)] by (intro insert_abs_sorted) (simp add: expiries_def)
    show "\<forall>(t, x)\<in>set (abs_times ds 0 l). 0 \<le> x"
      unfolding l(1) using ge assms(3) by (auto simp: insert_abs_set)
  qed
  with l assms(1,4) show "timeouts_ok ?k"
    by (auto simp: timeouts_ok_def expiries_def r insert_abs_set)
qed


text \<open>The sum that \<^verbatim>\<open>z_timeout_remaining\<close> computes is the expiry.\<close>

lemma sum_upto_abs:
  assumes "to \<in> set ts" and "\<forall>t\<in>set ts. 0 \<le> ds t" and "0 \<le> a" and "\<forall>(t, x)\<in>set (abs_times ds a ts). x \<le> INT_MAX"
  shows "(to, sum_upto ds to a ts) \<in> set (abs_times ds a ts)"
  using assms
proof (induction ts arbitrary: a)
  case (Cons t ts)
  have "s32 (a + ds t) = a + ds t" using Cons.prems by (intro s32_id) (auto simp: INT_MAX_def)
  with Cons show ?case by (auto simp: Let_def)
qed simp

lemma remaining_expiry:
  assumes "timeouts_ok k" and "(to, x) \<in> set (expiries k)" and "0 \<le> elapsed k" and "elapsed k \<le> INT_MAX"
  shows "z_timeout_remaining to k = x - elapsed k"
proof -
  let ?s = "sum_upto (dticks k) to 0 (timeout_list k)"
  have d: "\<forall>t\<in>set (timeout_list k). 0 \<le> dticks k t" "\<forall>(t, x)\<in>set (expiries k). x \<le> INT_MAX"
    "distinct (map fst (expiries k))" using assms(1) by (auto simp: timeouts_ok_def expiries_def)
  have to: "to \<in> set (timeout_list k)" using assms(2) fst_abs_times [of "dticks k" 0 "timeout_list k"]
    by (metis expiries_def image_eqI list.set_map fst_conv)
  then have "(to, ?s) \<in> set (expiries k)" using sum_upto_abs [OF to d(1)] d(2) by (simp add: expiries_def)
  then have "?s = x" using assms(2) d(3) by (metis eq_key_imp_eq_value)
  moreover have "0 \<le> x" using abs_times_ge [OF assms(2) [unfolded expiries_def] d(1)] .
  moreover have "x \<le> INT_MAX" using d(2) assms(2) by auto
  then have "s32 (x - elapsed k) = x - elapsed k"
    using assms(3,4) \<open>0 \<le> x\<close> by (intro s32_id) (auto simp: INT_MAX_def)
  ultimately show ?thesis using to by (simp add: z_timeout_remaining_def z_is_inactive_timeout_def is_linked_def)
qed

lemma filter_insert_abs:
  "to \<notin> fst ` set xs \<Longrightarrow> filter (\<lambda>(t, _). t \<noteq> to) (insert_abs to d xs) = xs"
proof (induction to d xs rule: insert_abs.induct)
  case (2 to d t x xs)
  then have "filter (\<lambda>(t, _). t \<noteq> to) xs = xs" by (force simp: filter_id_conv)
  with 2 show ?case by auto
qed simp

text \<open>
  C17. The delta list is a queue of absolute times: adding a timeout inserts it after everything
  that expires no later and moves no other expiry; the time remaining of the new timeout reads
  back as the ticks asked for (at least one); aborting it restores the queue.\<close>

theorem timeout_queue_refines:
  assumes "timeouts_ok k" and "to \<notin> set (timeout_list k)"
    and "0 \<le> elapsed k" and "max 1 ticks + elapsed k \<le> INT_MAX"
  shows "let k' = z_add_timeout to ticks k in
      expiries k' = insert_abs to (max 1 ticks + elapsed k) (expiries k) \<and> timeouts_ok k'
    \<and> z_timeout_remaining to k' = max 1 ticks
    \<and> fst (z_abort_timeout to k') = 0 \<and> expiries (snd (z_abort_timeout to k')) = expiries k"
proof -
  let ?k = "z_add_timeout to ticks k"
  note a = add_timeout_expiries [OF assms]
  have el: "elapsed ?k = elapsed k"
    by (simp add: z_add_timeout_def elapsed_def z_clock_set_timeout_def Let_def split: prod.split)
  have nt: "to \<notin> fst ` set (expiries k)"
    using assms(2) fst_abs_times [of "dticks k" 0 "timeout_list k"] by (metis expiries_def list.set_map)
  have to: "to \<in> set (timeout_list ?k)" using a(2) by simp
  have "z_timeout_remaining to ?k = max 1 ticks + elapsed k - elapsed ?k"
    using assms(3,4) by (intro remaining_expiry a(3)) (auto simp: a(1) insert_abs_set el)
  moreover have "expiries (remove_timeout to ?k) = expiries k"
    using remove_timeout_expiries(1) [OF a(3) to] filter_insert_abs [OF nt] a(1) by simp
  ultimately show ?thesis using a to el by (simp add: z_abort_timeout_def is_linked_def Let_def)
qed


theorem timeout_queue_refines_witness:
  "let k' = z_add_timeout (Thr 3) 4 (z_add_timeout (Thr 2) 9 demo_kernel) in
     expiries k' = [(Thr 3, 4), (Thr 2, 9)] \<and> z_timeout_remaining (Thr 3) k' = 4"
proof -
  let ?k = "z_add_timeout (Thr 2) 9 demo_kernel"
  have ok: "timeouts_ok demo_kernel" by (simp add: timeouts_ok_def expiries_def demo_sel)
  have e0: "elapsed demo_kernel = 0" by (simp add: elapsed_def demo_kernel_def)
  note a = timeout_queue_refines [OF ok, of "Thr 2" 9]
  have k: "expiries ?k = [(Thr 2, 9)]" "timeouts_ok ?k"
    using a by (simp_all add: demo_sel e0 INT_MAX_def expiries_def Let_def)
  have e: "elapsed ?k = 0"
    using e0 by (auto simp: z_add_timeout_def elapsed_def z_clock_set_timeout_def Let_def split: prod.split if_splits)
  have "timeout_list ?k = [Thr 2]" using k(1) fst_abs_times [of "dticks ?k" 0 "timeout_list ?k"] by (simp add: expiries_def)
  with timeout_queue_refines [OF k(2), of "Thr 3" 4] k(1) show ?thesis
    by (simp add: e INT_MAX_def Let_def)
qed

end
