(* ===== verification/KSched.thy ===== *)
theory KSched
  imports KTimeout
begin

text \<open>
  The scheduler, \<^verbatim>\<open>kernel/sched.c\<close> and the inline functions of
  \<^verbatim>\<open>ksched.h\<close>, for one CPU with \<^verbatim>\<open>CONFIG_SCHED_DUMB\<close> and
  \<^verbatim>\<open>CONFIG_WAITQ_DUMB\<close>, no metairq priorities and an atomic \<^verbatim>\<open>__swap\<close>.
  \<^verbatim>\<open>z_swap\<close> is the context switch: \<^verbatim>\<open>__swap\<close> of \<^verbatim>\<open>arch/riscv32\<close>
  stores \<open>-EAGAIN\<close> as the return value of the outgoing thread and continues
  the thread in the cache; code after it runs when the thread is switched in
  again, and is a function of its own where there is any (\<open>..._resume\<close>).
\<close>

section \<open>Thread states\<close>

definition z_is_thread_pending :: "'a kernel_scheme \<Rightarrow> tid \<Rightarrow> bool" where
  "z_is_thread_pending k t \<longleftrightarrow> F_PENDING \<in> tstate k t"

definition z_is_thread_prevented_from_running :: "'a kernel_scheme \<Rightarrow> tid \<Rightarrow> bool" where
  "z_is_thread_prevented_from_running k t \<longleftrightarrow>
     tstate k t \<inter> {F_PENDING, F_PRESTART, F_DEAD, F_DUMMY, F_SUSPENDED} \<noteq> {}"

definition z_is_thread_timeout_active :: "'a kernel_scheme \<Rightarrow> tid \<Rightarrow> bool" where
  "z_is_thread_timeout_active k t \<longleftrightarrow> \<not> z_is_inactive_timeout k (Thr t)"

definition z_is_thread_ready :: "'a kernel_scheme \<Rightarrow> tid \<Rightarrow> bool" where
  "z_is_thread_ready k t \<longleftrightarrow> \<not> (z_is_thread_prevented_from_running k t \<or> z_is_thread_timeout_active k t)"

definition z_has_thread_started :: "'a kernel_scheme \<Rightarrow> tid \<Rightarrow> bool" where
  "z_has_thread_started k t \<longleftrightarrow> F_PRESTART \<notin> tstate k t"

definition z_is_thread_queued :: "'a kernel_scheme \<Rightarrow> tid \<Rightarrow> bool" where
  "z_is_thread_queued k t \<longleftrightarrow> F_QUEUED \<in> tstate k t"

definition z_set_thread_states :: "tid \<Rightarrow> tflag set \<Rightarrow> 'a kernel_scheme \<Rightarrow> 'a kernel_scheme" where
  "z_set_thread_states t fs = upd_thread t (\<lambda>th. th\<lparr>thread_state := thread_state th \<union> fs\<rparr>)"

definition z_reset_thread_states :: "tid \<Rightarrow> tflag set \<Rightarrow> 'a kernel_scheme \<Rightarrow> 'a kernel_scheme" where
  "z_reset_thread_states t fs = upd_thread t (\<lambda>th. th\<lparr>thread_state := thread_state th - fs\<rparr>)"

definition z_set_thread_return_value :: "tid \<Rightarrow> int \<Rightarrow> 'a kernel_scheme \<Rightarrow> 'a kernel_scheme" where
  "z_set_thread_return_value t v = upd_thread t (\<lambda>th. th\<lparr>swap_retval := v\<rparr>)"

definition z_set_thread_return_value_with_data ::
  "tid \<Rightarrow> int \<Rightarrow> nat \<Rightarrow> 'a kernel_scheme \<Rightarrow> 'a kernel_scheme" where
  "z_set_thread_return_value_with_data t v d =
     upd_thread t (\<lambda>th. th\<lparr>swap_retval := v, swap_data := d\<rparr>)"

section \<open>Priorities and preemption\<close>

text \<open>\<^verbatim>\<open>preempt\<close> is the 16-bit view of \<^verbatim>\<open>prio\<close> (low byte) and \<^verbatim>\<open>sched_locked\<close>.\<close>

definition preempt :: "kthread \<Rightarrow> int" where
  "preempt th = uint (sched_locked th) * 256 + prio th mod 256"

definition is_preempt :: "'a kernel_scheme \<Rightarrow> tid \<Rightarrow> bool" where
  "is_preempt k t \<longleftrightarrow> preempt (threads k t) \<le> 0x80 - 1"

definition is_idle :: "'a kernel_scheme \<Rightarrow> tid \<Rightarrow> bool" where
  "is_idle k t \<longleftrightarrow> t = idle_thread k"

definition z_is_in_isr :: "'a kernel_scheme \<Rightarrow> bool" where
  "z_is_in_isr k \<longleftrightarrow> nested k \<noteq> 0"

definition z_is_t1_higher_prio_than_t2 :: "'a kernel_scheme \<Rightarrow> tid \<Rightarrow> tid \<Rightarrow> bool" where
  "z_is_t1_higher_prio_than_t2 k t1 t2 \<longleftrightarrow> tprio k t1 < tprio k t2"

definition z_is_prio_higher :: "int \<Rightarrow> int \<Rightarrow> bool" where
  "z_is_prio_higher p q \<longleftrightarrow> p < q"

definition should_preempt :: "'a kernel_scheme \<Rightarrow> tid \<Rightarrow> bool \<Rightarrow> bool" where
  "should_preempt k th preempt_ok \<longleftrightarrow>
     preempt_ok \<or> z_is_thread_prevented_from_running k (current k) \<or> is_preempt k (current k)"

section \<open>Priority queues\<close>

fun priq_insert :: "'a kernel_scheme \<Rightarrow> tid \<Rightarrow> tid list \<Rightarrow> tid list" where
  "priq_insert k th [] = [th]"
| "priq_insert k th (t # ts) =
     (if z_is_t1_higher_prio_than_t2 k th t then th # t # ts else t # priq_insert k th ts)"

definition z_priq_dumb_add :: "lid \<Rightarrow> tid \<Rightarrow> 'a kernel_scheme \<Rightarrow> 'a kernel_scheme" where
  "z_priq_dumb_add l th k = set_list l (priq_insert k th (qlists k l)) k"

definition z_priq_dumb_remove :: "tid \<Rightarrow> 'a kernel_scheme \<Rightarrow> 'a kernel_scheme" where
  "z_priq_dumb_remove th k = unlink th k"

definition z_priq_dumb_best :: "lid \<Rightarrow> 'a kernel_scheme \<Rightarrow> tid option" where
  "z_priq_dumb_best l k = (case qlists k l of [] \<Rightarrow> None | t # _ \<Rightarrow> Some t)"

definition next_up :: "'a kernel_scheme \<Rightarrow> tid" where
  "next_up k = (case z_priq_dumb_best RunQ k of Some th \<Rightarrow> th | None \<Rightarrow> idle_thread k)"

definition reset_time_slice :: "'a kernel_scheme \<Rightarrow> 'a kernel_scheme" where
  "reset_time_slice k =
     z_set_timeout_expiry (slice_time k) False (k\<lparr>slice_ticks := s32 (slice_time k + hw_elapsed k)\<rparr>)"

definition k_sched_time_slice_set :: "int \<Rightarrow> int \<Rightarrow> 'a kernel_scheme \<Rightarrow> 'a kernel_scheme" where
  "k_sched_time_slice_set slice_ms p k =
     reset_time_slice (k\<lparr>slice_ticks := 0, slice_time := z_ms_to_ticks slice_ms, slice_max_prio := p\<rparr>)"

definition sliceable :: "'a kernel_scheme \<Rightarrow> tid \<Rightarrow> bool" where
  "sliceable k t \<longleftrightarrow> is_preempt k t \<and> \<not> z_is_prio_higher (tprio k t) (slice_max_prio k)
     \<and> \<not> is_idle k t \<and> \<not> z_is_thread_timeout_active k t"

definition update_cache :: "bool \<Rightarrow> 'a kernel_scheme \<Rightarrow> 'a kernel_scheme" where
  "update_cache preempt_ok k =
     (let th = next_up k in
      if should_preempt k th preempt_ok
      then (let k = (if th \<noteq> current k then reset_time_slice k else k) in k\<lparr>ready_cache := th\<rparr>)
      else k\<lparr>ready_cache := current k\<rparr>)"

definition z_add_thread_to_ready_q :: "tid \<Rightarrow> 'a kernel_scheme \<Rightarrow> 'a kernel_scheme" where
  "z_add_thread_to_ready_q t k =
     update_cache False (z_set_thread_states t {F_QUEUED} (z_priq_dumb_add RunQ t k))"

definition z_move_thread_to_end_of_prio_q :: "tid \<Rightarrow> 'a kernel_scheme \<Rightarrow> 'a kernel_scheme" where
  "z_move_thread_to_end_of_prio_q t k =
     (let k = z_priq_dumb_add RunQ t (z_priq_dumb_remove t k);
          k = z_set_thread_states t {F_QUEUED} k
      in update_cache (t = current k) k)"

definition z_remove_thread_from_ready_q :: "tid \<Rightarrow> 'a kernel_scheme \<Rightarrow> 'a kernel_scheme" where
  "z_remove_thread_from_ready_q t k =
     (let k = (if z_is_thread_queued k t
               then z_reset_thread_states t {F_QUEUED} (z_priq_dumb_remove t k) else k)
      in update_cache (t = current k) k)"

definition z_time_slice :: "int \<Rightarrow> 'a kernel_scheme \<Rightarrow> 'a kernel_scheme" where
  "z_time_slice ticks k =
     (if slice_time k \<noteq> 0 \<and> sliceable k (current k)
      then if ticks \<ge> slice_ticks k
           then reset_time_slice (z_move_thread_to_end_of_prio_q (current k) k)
           else k\<lparr>slice_ticks := slice_ticks k - ticks\<rparr>
      else k)"

definition z_ready_thread :: "tid \<Rightarrow> 'a kernel_scheme \<Rightarrow> 'a kernel_scheme" where
  "z_ready_thread t k = (if z_is_thread_ready k t then z_add_thread_to_ready_q t k else k)"

section \<open>Pending and unpending\<close>

definition z_add_thread_timeout :: "tid \<Rightarrow> int \<Rightarrow> 'a kernel_scheme \<Rightarrow> 'a kernel_scheme" where
  "z_add_thread_timeout t ticks = z_add_timeout (Thr t) ticks"

definition z_abort_thread_timeout :: "tid \<Rightarrow> 'a kernel_scheme \<Rightarrow> int \<times> 'a kernel_scheme" where
  "z_abort_thread_timeout t = z_abort_timeout (Thr t)"

definition pend :: "tid \<Rightarrow> wqid option \<Rightarrow> int \<Rightarrow> 'a kernel_scheme \<Rightarrow> 'a kernel_scheme" where
  "pend t w timeout k =
     (let k = z_remove_thread_from_ready_q t k;
          k = z_set_thread_states t {F_PENDING} k;
          k = (case w of None \<Rightarrow> k
               | Some w \<Rightarrow> z_priq_dumb_add (WaitQ w) t (upd_thread t (\<lambda>th. th\<lparr>pended_on := Some w\<rparr>) k))
      in if timeout \<noteq> K_FOREVER
         then z_add_thread_timeout t (s32 (TICK_ALIGN + z_ms_to_ticks timeout)) k else k)"

definition z_swap :: "'a kernel_scheme \<Rightarrow> 'a kernel_scheme" where
  "z_swap k = (upd_thread (current k) (\<lambda>th. th\<lparr>swap_retval := - EAGAIN\<rparr>) k)\<lparr>current := ready_cache k\<rparr>"

definition z_pend_curr :: "wqid option \<Rightarrow> int \<Rightarrow> 'a kernel_scheme \<Rightarrow> 'a kernel_scheme" where
  "z_pend_curr w timeout k = z_swap (pend (current k) w timeout k)"

definition z_pend_thread :: "tid \<Rightarrow> wqid option \<Rightarrow> int \<Rightarrow> 'a kernel_scheme \<Rightarrow> 'a kernel_scheme" where
  "z_pend_thread t w timeout = pend t w timeout"

definition z_find_first_thread_to_unpend :: "wqid \<Rightarrow> 'a kernel_scheme \<Rightarrow> tid option" where
  "z_find_first_thread_to_unpend w k = z_priq_dumb_best (WaitQ w) k"

definition z_unpend_thread_no_timeout :: "tid \<Rightarrow> 'a kernel_scheme \<Rightarrow> 'a kernel_scheme" where
  "z_unpend_thread_no_timeout t k =
     upd_thread t (\<lambda>th. th\<lparr>pended_on := None\<rparr>)
       (z_reset_thread_states t {F_PENDING} (z_priq_dumb_remove t k))"

definition z_unpend1_no_timeout :: "wqid \<Rightarrow> 'a kernel_scheme \<Rightarrow> tid option \<times> 'a kernel_scheme" where
  "z_unpend1_no_timeout w k =
     (case z_find_first_thread_to_unpend w k of None \<Rightarrow> (None, k)
      | Some t \<Rightarrow> (Some t, z_unpend_thread_no_timeout t k))"

definition z_unpend_first_thread :: "wqid \<Rightarrow> 'a kernel_scheme \<Rightarrow> tid option \<times> 'a kernel_scheme" where
  "z_unpend_first_thread w k =
     (case z_unpend1_no_timeout w k of (None, k) \<Rightarrow> (None, k)
      | (Some t, k) \<Rightarrow> (Some t, snd (z_abort_thread_timeout t k)))"

definition z_unpend_thread :: "tid \<Rightarrow> 'a kernel_scheme \<Rightarrow> 'a kernel_scheme" where
  "z_unpend_thread t k = snd (z_abort_thread_timeout t (z_unpend_thread_no_timeout t k))"

definition z_thread_timeout :: "tid \<Rightarrow> 'a kernel_scheme \<Rightarrow> 'a kernel_scheme" where
  "z_thread_timeout th k =
     (let k = (if pended_on (threads k th) \<noteq> None then z_unpend_thread_no_timeout th k else k);
          k = z_reset_thread_states th {F_PRESTART} k;
          k = z_reset_thread_states th {F_SUSPENDED} k
      in z_ready_thread th k)"

fun unpend_all_loop :: "nat \<Rightarrow> wqid \<Rightarrow> bool \<Rightarrow> 'a kernel_scheme \<Rightarrow> bool \<times> 'a kernel_scheme" where
  "unpend_all_loop 0 w need_sched k = (need_sched, k)"
| "unpend_all_loop (Suc n) w need_sched k =
     (case waitq k w of [] \<Rightarrow> (need_sched, k)
      | th # _ \<Rightarrow> unpend_all_loop n w True (z_ready_thread th (z_unpend_thread th k)))"

text \<open>Every round unlinks the head, so the length of the queue bounds the rounds.\<close>

definition z_unpend_all :: "wqid \<Rightarrow> 'a kernel_scheme \<Rightarrow> bool \<times> 'a kernel_scheme" where
  "z_unpend_all w k = unpend_all_loop (length (waitq k w)) w False k"

section \<open>Rescheduling\<close>

definition z_reschedule :: "'a kernel_scheme \<Rightarrow> 'a kernel_scheme" where
  "z_reschedule k = (if \<not> z_is_in_isr k then z_swap k else k)"

definition z_sched_lock :: "'a kernel_scheme \<Rightarrow> 'a kernel_scheme" where
  "z_sched_lock k = upd_thread (current k) (\<lambda>th. th\<lparr>sched_locked := sched_locked th - 1\<rparr>) k"

definition k_sched_lock :: "'a kernel_scheme \<Rightarrow> 'a kernel_scheme" where
  "k_sched_lock k = z_sched_lock k"

definition k_sched_unlock :: "'a kernel_scheme \<Rightarrow> 'a kernel_scheme" where
  "k_sched_unlock k =
     z_reschedule (update_cache True
       (upd_thread (current k) (\<lambda>th. th\<lparr>sched_locked := sched_locked th + 1\<rparr>) k))"

definition z_thread_priority_set :: "tid \<Rightarrow> int \<Rightarrow> 'a kernel_scheme \<Rightarrow> 'a kernel_scheme" where
  "z_thread_priority_set t p k =
     (let need_sched = z_is_thread_ready k t;
          k = (if need_sched
               then update_cache True (z_priq_dumb_add RunQ t
                      (upd_thread t (\<lambda>th. th\<lparr>prio := s8 p\<rparr>) (z_priq_dumb_remove t k)))
               else upd_thread t (\<lambda>th. th\<lparr>prio := s8 p\<rparr>) k)
      in if need_sched \<and> sched_locked (threads k (current k)) = 0 then z_reschedule k else k)"

definition k_thread_priority_get :: "tid \<Rightarrow> 'a kernel_scheme \<Rightarrow> int" where
  "k_thread_priority_get t k = tprio k t"

definition k_thread_priority_set :: "tid \<Rightarrow> int \<Rightarrow> 'a kernel_scheme \<Rightarrow> 'a kernel_scheme" where
  "k_thread_priority_set t p = z_thread_priority_set t p"

definition k_yield :: "'a kernel_scheme \<Rightarrow> 'a kernel_scheme" where
  "k_yield k =
     (let c = current k;
          k = (if \<not> is_idle k c
               then update_cache True (z_priq_dumb_add RunQ c (z_priq_dumb_remove c k)) else k)
      in z_swap k)"

text \<open>
  \<^verbatim>\<open>k_sleep\<close> up to the context switch, with the expected time of the wakeup
  as a local variable, and the rest of it when the thread runs again.
\<close>

definition k_sleep :: "int \<Rightarrow> 'a kernel_scheme \<Rightarrow> (int + nat) \<times> 'a kernel_scheme" where
  "k_sleep duration k =
     (if duration = 0 then (Inl 0, k_yield k)
      else (let ticks = s32 (TICK_ALIGN + z_ms_to_ticks duration);
                expected = (nat (ticks mod 2 ^ 32) + z_tick_get_32 k) mod 2 ^ 32;
                c = current k;
                k = z_remove_thread_from_ready_q c k;
                k = z_add_thread_timeout c ticks k;
                k = z_set_thread_states c {F_SUSPENDED} k
            in (Inr expected, z_swap k)))"

definition k_sleep_resume :: "nat \<Rightarrow> 'a kernel_scheme \<Rightarrow> int" where
  "k_sleep_resume expected k =
     (let ticks = s32 (int expected - int (z_tick_get_32 k))
      in if ticks > 0 then s32 (int (ticks_to_ms (nat ticks))) else 0)"

definition k_wakeup :: "tid \<Rightarrow> 'a kernel_scheme \<Rightarrow> 'a kernel_scheme" where
  "k_wakeup t k =
     (if z_is_thread_pending k t then k
      else case z_abort_thread_timeout t k of (r, k) \<Rightarrow>
        if r < 0 then k
        else (let k = z_ready_thread t (z_reset_thread_states t {F_SUSPENDED} k)
              in if \<not> z_is_in_isr k then z_reschedule k else k))"

definition k_is_preempt_thread :: "'a kernel_scheme \<Rightarrow> bool" where
  "k_is_preempt_thread k \<longleftrightarrow> \<not> z_is_in_isr k \<and> is_preempt k (current k)"

definition CONFIG_TIMESLICE_SIZE :: int where "CONFIG_TIMESLICE_SIZE = 0"
definition CONFIG_TIMESLICE_PRIORITY :: int where "CONFIG_TIMESLICE_PRIORITY = 0"

definition z_sched_init :: "'a kernel_scheme \<Rightarrow> 'a kernel_scheme" where
  "z_sched_init k =
     k_sched_time_slice_set CONFIG_TIMESLICE_SIZE CONFIG_TIMESLICE_PRIORITY (set_list RunQ [] k)"

section \<open>What the operations leave alone\<close>

lemma set_expiry_sel [simp]:
  "threads (z_set_timeout_expiry n b k) = threads k"
  "qlists (z_set_timeout_expiry n b k) = qlists k"
  "current (z_set_timeout_expiry n b k) = current k"
  "idle_thread (z_set_timeout_expiry n b k) = idle_thread k"
  "nested (z_set_timeout_expiry n b k) = nested k"
  "timeout_list (z_set_timeout_expiry n b k) = timeout_list k"
  "dticks (z_set_timeout_expiry n b k) = dticks k"
  "curr_tick (z_set_timeout_expiry n b k) = curr_tick k"
  "announce_remaining (z_set_timeout_expiry n b k) = announce_remaining k"
  "can_wait_forever (z_set_timeout_expiry n b k) = can_wait_forever k"
  "hw_elapsed (z_set_timeout_expiry n b k) = hw_elapsed k"
  "slice_time (z_set_timeout_expiry n b k) = slice_time k"
  "slice_max_prio (z_set_timeout_expiry n b k) = slice_max_prio k"
  "ready_cache (z_set_timeout_expiry n b k) = ready_cache k"
  "slice_ticks (z_set_timeout_expiry n b k) = slice_ticks k"
  by (simp_all add: z_set_timeout_expiry_def z_clock_set_timeout_def Let_def)

lemma reset_slice_sel [simp]:
  "threads (reset_time_slice k) = threads k"
  "qlists (reset_time_slice k) = qlists k"
  "current (reset_time_slice k) = current k"
  "idle_thread (reset_time_slice k) = idle_thread k"
  "nested (reset_time_slice k) = nested k"
  "timeout_list (reset_time_slice k) = timeout_list k"
  "dticks (reset_time_slice k) = dticks k"
  "curr_tick (reset_time_slice k) = curr_tick k"
  "announce_remaining (reset_time_slice k) = announce_remaining k"
  "can_wait_forever (reset_time_slice k) = can_wait_forever k"
  "hw_elapsed (reset_time_slice k) = hw_elapsed k"
  "slice_time (reset_time_slice k) = slice_time k"
  "slice_max_prio (reset_time_slice k) = slice_max_prio k"
  "ready_cache (reset_time_slice k) = ready_cache k"
  by (simp_all add: reset_time_slice_def)

lemma update_cache_sel [simp]:
  "threads (update_cache b k) = threads k"
  "qlists (update_cache b k) = qlists k"
  "current (update_cache b k) = current k"
  "idle_thread (update_cache b k) = idle_thread k"
  "nested (update_cache b k) = nested k"
  "timeout_list (update_cache b k) = timeout_list k"
  "dticks (update_cache b k) = dticks k"
  "curr_tick (update_cache b k) = curr_tick k"
  "announce_remaining (update_cache b k) = announce_remaining k"
  "can_wait_forever (update_cache b k) = can_wait_forever k"
  "hw_elapsed (update_cache b k) = hw_elapsed k"
  "slice_time (update_cache b k) = slice_time k"
  "slice_max_prio (update_cache b k) = slice_max_prio k"
  by (simp_all add: update_cache_def Let_def)

lemma thread_states_sel [simp]:
  "qlists (z_set_thread_states t fs k) = qlists k"
  "current (z_set_thread_states t fs k) = current k"
  "idle_thread (z_set_thread_states t fs k) = idle_thread k"
  "nested (z_set_thread_states t fs k) = nested k"
  "timeout_list (z_set_thread_states t fs k) = timeout_list k"
  "dticks (z_set_thread_states t fs k) = dticks k"
  "curr_tick (z_set_thread_states t fs k) = curr_tick k"
  "announce_remaining (z_set_thread_states t fs k) = announce_remaining k"
  "can_wait_forever (z_set_thread_states t fs k) = can_wait_forever k"
  "hw_elapsed (z_set_thread_states t fs k) = hw_elapsed k"
  "slice_time (z_set_thread_states t fs k) = slice_time k"
  "slice_max_prio (z_set_thread_states t fs k) = slice_max_prio k"
  "ready_cache (z_set_thread_states t fs k) = ready_cache k"
  "qlists (z_reset_thread_states t fs k) = qlists k"
  "current (z_reset_thread_states t fs k) = current k"
  "idle_thread (z_reset_thread_states t fs k) = idle_thread k"
  "nested (z_reset_thread_states t fs k) = nested k"
  "timeout_list (z_reset_thread_states t fs k) = timeout_list k"
  "dticks (z_reset_thread_states t fs k) = dticks k"
  "curr_tick (z_reset_thread_states t fs k) = curr_tick k"
  "announce_remaining (z_reset_thread_states t fs k) = announce_remaining k"
  "can_wait_forever (z_reset_thread_states t fs k) = can_wait_forever k"
  "hw_elapsed (z_reset_thread_states t fs k) = hw_elapsed k"
  "slice_time (z_reset_thread_states t fs k) = slice_time k"
  "slice_max_prio (z_reset_thread_states t fs k) = slice_max_prio k"
  "ready_cache (z_reset_thread_states t fs k) = ready_cache k"
  "qlists (z_set_thread_return_value t v k) = qlists k"
  "current (z_set_thread_return_value t v k) = current k"
  "idle_thread (z_set_thread_return_value t v k) = idle_thread k"
  "nested (z_set_thread_return_value t v k) = nested k"
  "timeout_list (z_set_thread_return_value t v k) = timeout_list k"
  "dticks (z_set_thread_return_value t v k) = dticks k"
  "curr_tick (z_set_thread_return_value t v k) = curr_tick k"
  "announce_remaining (z_set_thread_return_value t v k) = announce_remaining k"
  "can_wait_forever (z_set_thread_return_value t v k) = can_wait_forever k"
  "hw_elapsed (z_set_thread_return_value t v k) = hw_elapsed k"
  "slice_time (z_set_thread_return_value t v k) = slice_time k"
  "slice_max_prio (z_set_thread_return_value t v k) = slice_max_prio k"
  "ready_cache (z_set_thread_return_value t v k) = ready_cache k"
  "qlists (z_set_thread_return_value_with_data t v d k) = qlists k"
  "current (z_set_thread_return_value_with_data t v d k) = current k"
  "idle_thread (z_set_thread_return_value_with_data t v d k) = idle_thread k"
  "nested (z_set_thread_return_value_with_data t v d k) = nested k"
  "timeout_list (z_set_thread_return_value_with_data t v d k) = timeout_list k"
  "dticks (z_set_thread_return_value_with_data t v d k) = dticks k"
  "curr_tick (z_set_thread_return_value_with_data t v d k) = curr_tick k"
  "announce_remaining (z_set_thread_return_value_with_data t v d k) = announce_remaining k"
  "can_wait_forever (z_set_thread_return_value_with_data t v d k) = can_wait_forever k"
  "hw_elapsed (z_set_thread_return_value_with_data t v d k) = hw_elapsed k"
  "slice_time (z_set_thread_return_value_with_data t v d k) = slice_time k"
  "slice_max_prio (z_set_thread_return_value_with_data t v d k) = slice_max_prio k"
  "ready_cache (z_set_thread_return_value_with_data t v d k) = ready_cache k"
  "threads (z_set_thread_states t fs k) = (threads k)(t := (threads k t)\<lparr>thread_state := tstate k t \<union> fs\<rparr>)"
  "threads (z_reset_thread_states t fs k) = (threads k)(t := (threads k t)\<lparr>thread_state := tstate k t - fs\<rparr>)"
  "threads (z_set_thread_return_value t v k) = (threads k)(t := (threads k t)\<lparr>swap_retval := v\<rparr>)"
  "threads (z_set_thread_return_value_with_data t v d k)
     = (threads k)(t := (threads k t)\<lparr>swap_retval := v, swap_data := d\<rparr>)"
  by (simp_all add: z_set_thread_states_def z_reset_thread_states_def z_set_thread_return_value_def
      z_set_thread_return_value_with_data_def)

lemma priq_sel [simp]:
  "threads (z_priq_dumb_add l t k) = threads k"
  "current (z_priq_dumb_add l t k) = current k"
  "idle_thread (z_priq_dumb_add l t k) = idle_thread k"
  "nested (z_priq_dumb_add l t k) = nested k"
  "timeout_list (z_priq_dumb_add l t k) = timeout_list k"
  "dticks (z_priq_dumb_add l t k) = dticks k"
  "curr_tick (z_priq_dumb_add l t k) = curr_tick k"
  "announce_remaining (z_priq_dumb_add l t k) = announce_remaining k"
  "can_wait_forever (z_priq_dumb_add l t k) = can_wait_forever k"
  "hw_elapsed (z_priq_dumb_add l t k) = hw_elapsed k"
  "slice_time (z_priq_dumb_add l t k) = slice_time k"
  "slice_max_prio (z_priq_dumb_add l t k) = slice_max_prio k"
  "ready_cache (z_priq_dumb_add l t k) = ready_cache k"
  "threads (z_priq_dumb_remove t k) = threads k"
  "current (z_priq_dumb_remove t k) = current k"
  "idle_thread (z_priq_dumb_remove t k) = idle_thread k"
  "nested (z_priq_dumb_remove t k) = nested k"
  "timeout_list (z_priq_dumb_remove t k) = timeout_list k"
  "dticks (z_priq_dumb_remove t k) = dticks k"
  "curr_tick (z_priq_dumb_remove t k) = curr_tick k"
  "announce_remaining (z_priq_dumb_remove t k) = announce_remaining k"
  "can_wait_forever (z_priq_dumb_remove t k) = can_wait_forever k"
  "hw_elapsed (z_priq_dumb_remove t k) = hw_elapsed k"
  "slice_time (z_priq_dumb_remove t k) = slice_time k"
  "slice_max_prio (z_priq_dumb_remove t k) = slice_max_prio k"
  "ready_cache (z_priq_dumb_remove t k) = ready_cache k"
  "qlists (z_priq_dumb_add l t k) = (qlists k)(l := priq_insert k t (qlists k l))"
  "qlists (z_priq_dumb_remove t k) l = remove1 t (qlists k l)"
  by (simp_all add: z_priq_dumb_add_def z_priq_dumb_remove_def)

lemma add_ready_sel [simp]:
  "current (z_add_thread_to_ready_q t k) = current k"
  "idle_thread (z_add_thread_to_ready_q t k) = idle_thread k"
  "nested (z_add_thread_to_ready_q t k) = nested k"
  "timeout_list (z_add_thread_to_ready_q t k) = timeout_list k"
  "dticks (z_add_thread_to_ready_q t k) = dticks k"
  "curr_tick (z_add_thread_to_ready_q t k) = curr_tick k"
  "announce_remaining (z_add_thread_to_ready_q t k) = announce_remaining k"
  "can_wait_forever (z_add_thread_to_ready_q t k) = can_wait_forever k"
  "hw_elapsed (z_add_thread_to_ready_q t k) = hw_elapsed k"
  "slice_time (z_add_thread_to_ready_q t k) = slice_time k"
  "slice_max_prio (z_add_thread_to_ready_q t k) = slice_max_prio k"
  "threads (z_add_thread_to_ready_q t k)
     = (threads k)(t := (threads k t)\<lparr>thread_state := tstate k t \<union> {F_QUEUED}\<rparr>)"
  "qlists (z_add_thread_to_ready_q t k) = (qlists k)(RunQ := priq_insert k t (runq k))"
  by (simp_all add: z_add_thread_to_ready_q_def)

lemma ready_thread_sel [simp]:
  "current (z_ready_thread t k) = current k"
  "idle_thread (z_ready_thread t k) = idle_thread k"
  "nested (z_ready_thread t k) = nested k"
  "timeout_list (z_ready_thread t k) = timeout_list k"
  "dticks (z_ready_thread t k) = dticks k"
  "curr_tick (z_ready_thread t k) = curr_tick k"
  "announce_remaining (z_ready_thread t k) = announce_remaining k"
  "can_wait_forever (z_ready_thread t k) = can_wait_forever k"
  "hw_elapsed (z_ready_thread t k) = hw_elapsed k"
  "slice_time (z_ready_thread t k) = slice_time k"
  "slice_max_prio (z_ready_thread t k) = slice_max_prio k"
  "waitq (z_ready_thread t k) w = waitq k w"
  "threads (z_ready_thread t k) = (if z_is_thread_ready k t
     then (threads k)(t := (threads k t)\<lparr>thread_state := tstate k t \<union> {F_QUEUED}\<rparr>) else threads k)"
  "runq (z_ready_thread t k) = (if z_is_thread_ready k t then priq_insert k t (runq k) else runq k)"
  by (simp_all add: z_ready_thread_def)

lemma unpend_nt_sel [simp]:
  "current (z_unpend_thread_no_timeout t k) = current k"
  "idle_thread (z_unpend_thread_no_timeout t k) = idle_thread k"
  "nested (z_unpend_thread_no_timeout t k) = nested k"
  "timeout_list (z_unpend_thread_no_timeout t k) = timeout_list k"
  "dticks (z_unpend_thread_no_timeout t k) = dticks k"
  "curr_tick (z_unpend_thread_no_timeout t k) = curr_tick k"
  "announce_remaining (z_unpend_thread_no_timeout t k) = announce_remaining k"
  "can_wait_forever (z_unpend_thread_no_timeout t k) = can_wait_forever k"
  "hw_elapsed (z_unpend_thread_no_timeout t k) = hw_elapsed k"
  "slice_time (z_unpend_thread_no_timeout t k) = slice_time k"
  "slice_max_prio (z_unpend_thread_no_timeout t k) = slice_max_prio k"
  "ready_cache (z_unpend_thread_no_timeout t k) = ready_cache k"
  "threads (z_unpend_thread_no_timeout t k)
     = (threads k)(t := (threads k t)\<lparr>thread_state := tstate k t - {F_PENDING}, pended_on := None\<rparr>)"
  "qlists (z_unpend_thread_no_timeout t k) l = remove1 t (qlists k l)"
  by (simp_all add: z_unpend_thread_no_timeout_def)

lemma remove_timeout_sel [simp]:
  "threads (remove_timeout t k) = threads k"
  "qlists (remove_timeout t k) = qlists k"
  "current (remove_timeout t k) = current k"
  "idle_thread (remove_timeout t k) = idle_thread k"
  "nested (remove_timeout t k) = nested k"
  "curr_tick (remove_timeout t k) = curr_tick k"
  "announce_remaining (remove_timeout t k) = announce_remaining k"
  "can_wait_forever (remove_timeout t k) = can_wait_forever k"
  "hw_elapsed (remove_timeout t k) = hw_elapsed k"
  "slice_time (remove_timeout t k) = slice_time k"
  "slice_max_prio (remove_timeout t k) = slice_max_prio k"
  "ready_cache (remove_timeout t k) = ready_cache k"
  "timeout_list (remove_timeout t k) = remove1 t (timeout_list k)"
  by (simp_all add: remove_timeout_def Let_def split: option.split)

lemma abort_thread_timeout_sel [simp]:
  "threads (snd (z_abort_thread_timeout t k)) = threads k"
  "qlists (snd (z_abort_thread_timeout t k)) = qlists k"
  "current (snd (z_abort_thread_timeout t k)) = current k"
  "idle_thread (snd (z_abort_thread_timeout t k)) = idle_thread k"
  "nested (snd (z_abort_thread_timeout t k)) = nested k"
  "curr_tick (snd (z_abort_thread_timeout t k)) = curr_tick k"
  "announce_remaining (snd (z_abort_thread_timeout t k)) = announce_remaining k"
  "can_wait_forever (snd (z_abort_thread_timeout t k)) = can_wait_forever k"
  "hw_elapsed (snd (z_abort_thread_timeout t k)) = hw_elapsed k"
  "slice_time (snd (z_abort_thread_timeout t k)) = slice_time k"
  "slice_max_prio (snd (z_abort_thread_timeout t k)) = slice_max_prio k"
  "ready_cache (snd (z_abort_thread_timeout t k)) = ready_cache k"
  "timeout_list (snd (z_abort_thread_timeout t k)) = remove1 (Thr t) (timeout_list k)"
  by (simp_all add: z_abort_thread_timeout_def z_abort_timeout_def is_linked_def remove1_idem)

lemma add_timeout_sel [simp]:
  "threads (z_add_timeout t n k) = threads k"
  "qlists (z_add_timeout t n k) = qlists k"
  "current (z_add_timeout t n k) = current k"
  "idle_thread (z_add_timeout t n k) = idle_thread k"
  "nested (z_add_timeout t n k) = nested k"
  "curr_tick (z_add_timeout t n k) = curr_tick k"
  "announce_remaining (z_add_timeout t n k) = announce_remaining k"
  "can_wait_forever (z_add_timeout t n k) = can_wait_forever k"
  "hw_elapsed (z_add_timeout t n k) = hw_elapsed k"
  "slice_time (z_add_timeout t n k) = slice_time k"
  "slice_max_prio (z_add_timeout t n k) = slice_max_prio k"
  "ready_cache (z_add_timeout t n k) = ready_cache k"
  "threads (z_add_thread_timeout th n k) = threads k"
  "qlists (z_add_thread_timeout th n k) = qlists k"
  "current (z_add_thread_timeout th n k) = current k"
  "idle_thread (z_add_thread_timeout th n k) = idle_thread k"
  "nested (z_add_thread_timeout th n k) = nested k"
  "curr_tick (z_add_thread_timeout th n k) = curr_tick k"
  "announce_remaining (z_add_thread_timeout th n k) = announce_remaining k"
  "can_wait_forever (z_add_thread_timeout th n k) = can_wait_forever k"
  "hw_elapsed (z_add_thread_timeout th n k) = hw_elapsed k"
  "slice_time (z_add_thread_timeout th n k) = slice_time k"
  "slice_max_prio (z_add_thread_timeout th n k) = slice_max_prio k"
  "ready_cache (z_add_thread_timeout th n k) = ready_cache k"
  by (simp_all add: z_add_thread_timeout_def z_add_timeout_def z_clock_set_timeout_def Let_def split: prod.split)

lemma unpend_first_eq:
  "z_unpend_first_thread w k =
     (case waitq k w of [] \<Rightarrow> (None, k)
      | t # _ \<Rightarrow> (Some t, snd (z_abort_thread_timeout t (z_unpend_thread_no_timeout t k))))"
  by (simp add: z_unpend_first_thread_def z_unpend1_no_timeout_def z_find_first_thread_to_unpend_def
      z_priq_dumb_best_def split: list.split)

lemma remove_ready_sel [simp]:
  "current (z_remove_thread_from_ready_q t k) = current k"
  "idle_thread (z_remove_thread_from_ready_q t k) = idle_thread k"
  "nested (z_remove_thread_from_ready_q t k) = nested k"
  "timeout_list (z_remove_thread_from_ready_q t k) = timeout_list k"
  "dticks (z_remove_thread_from_ready_q t k) = dticks k"
  "curr_tick (z_remove_thread_from_ready_q t k) = curr_tick k"
  "announce_remaining (z_remove_thread_from_ready_q t k) = announce_remaining k"
  "can_wait_forever (z_remove_thread_from_ready_q t k) = can_wait_forever k"
  "hw_elapsed (z_remove_thread_from_ready_q t k) = hw_elapsed k"
  "slice_time (z_remove_thread_from_ready_q t k) = slice_time k"
  "slice_max_prio (z_remove_thread_from_ready_q t k) = slice_max_prio k"
  "threads (z_remove_thread_from_ready_q t k) = (if z_is_thread_queued k t
     then (threads k)(t := (threads k t)\<lparr>thread_state := tstate k t - {F_QUEUED}\<rparr>) else threads k)"
  "qlists (z_remove_thread_from_ready_q t k) l
     = (if z_is_thread_queued k t then remove1 t (qlists k l) else qlists k l)"
  by (simp_all add: z_remove_thread_from_ready_q_def Let_def)

lemma swap_sel [simp]:
  "qlists (z_swap k) = qlists k"
  "idle_thread (z_swap k) = idle_thread k"
  "nested (z_swap k) = nested k"
  "timeout_list (z_swap k) = timeout_list k"
  "dticks (z_swap k) = dticks k"
  "curr_tick (z_swap k) = curr_tick k"
  "announce_remaining (z_swap k) = announce_remaining k"
  "can_wait_forever (z_swap k) = can_wait_forever k"
  "hw_elapsed (z_swap k) = hw_elapsed k"
  "slice_time (z_swap k) = slice_time k"
  "slice_max_prio (z_swap k) = slice_max_prio k"
  "ready_cache (z_swap k) = ready_cache k"
  "slice_ticks (z_swap k) = slice_ticks k"
  "hw_timeout (z_swap k) = hw_timeout k"
  "current (z_swap k) = ready_cache k"
  "threads (z_swap k) = (threads k)(current k := (threads k (current k))\<lparr>swap_retval := - EAGAIN\<rparr>)"
  by (simp_all add: z_swap_def)

lemma reschedule_sel [simp]:
  "qlists (z_reschedule k) = qlists k"
  "idle_thread (z_reschedule k) = idle_thread k"
  "nested (z_reschedule k) = nested k"
  "timeout_list (z_reschedule k) = timeout_list k"
  "dticks (z_reschedule k) = dticks k"
  "curr_tick (z_reschedule k) = curr_tick k"
  "announce_remaining (z_reschedule k) = announce_remaining k"
  "can_wait_forever (z_reschedule k) = can_wait_forever k"
  "hw_elapsed (z_reschedule k) = hw_elapsed k"
  "slice_time (z_reschedule k) = slice_time k"
  "slice_max_prio (z_reschedule k) = slice_max_prio k"
  "ready_cache (z_reschedule k) = ready_cache k"
  by (simp_all add: z_reschedule_def)

text \<open>An extension of the kernel's state is left alone.\<close>

lemma more_sel [simp]:
  "kernel.more (z_set_timeout_expiry a b k) = kernel.more k"
  "kernel.more (reset_time_slice k) = kernel.more k"
  "kernel.more (update_cache c k) = kernel.more k"
  "kernel.more (z_priq_dumb_add l t k) = kernel.more k"
  "kernel.more (z_priq_dumb_remove t k) = kernel.more k"
  "kernel.more (upd_thread t f k) = kernel.more k"
  "kernel.more (z_add_timeout to d k) = kernel.more k"
  "kernel.more (z_thread_timeout t k) = kernel.more k"
  "kernel.more (z_ready_thread t k) = kernel.more k"
  "kernel.more (z_unpend_thread_no_timeout t k) = kernel.more k"
  "kernel.more (z_set_thread_return_value t v k) = kernel.more k"
  "kernel.more (z_time_slice d k) = kernel.more k"
  "kernel.more (z_set_thread_states t fs k) = kernel.more k"
  "kernel.more (z_reset_thread_states t fs k) = kernel.more k"
  "kernel.more (z_remove_thread_from_ready_q t k) = kernel.more k"
  "kernel.more (z_swap k) = kernel.more k"
  "kernel.more (z_reschedule k) = kernel.more k"
  "kernel.more (z_add_thread_timeout t d k) = kernel.more k"
  "kernel.more (snd (z_abort_thread_timeout t k)) = kernel.more k"
  by (simp_all add: z_set_timeout_expiry_def z_clock_set_timeout_def Let_def reset_time_slice_def update_cache_def
      z_priq_dumb_add_def z_priq_dumb_remove_def set_list_def unlink_def upd_thread_def z_add_timeout_def
      z_thread_timeout_def z_ready_thread_def z_unpend_thread_no_timeout_def z_set_thread_return_value_def
      z_add_thread_to_ready_q_def z_set_thread_states_def z_reset_thread_states_def z_time_slice_def
      z_move_thread_to_end_of_prio_q_def z_remove_thread_from_ready_q_def z_swap_def z_reschedule_def
      z_add_thread_timeout_def z_abort_thread_timeout_def z_abort_timeout_def remove_timeout_def
      split: prod.split option.split)

section \<open>Priority queues as sorted lists\<close>

lemma set_priq_insert [simp]: "set (priq_insert k t ts) = insert t (set ts)"
  by (induction ts) auto

lemma distinct_priq_insert: "distinct ts \<Longrightarrow> t \<notin> set ts \<Longrightarrow> distinct (priq_insert k t ts)"
  by (induction ts) auto

lemma sorted_priq_insert:
  "sorted (map (tprio k) ts) \<Longrightarrow> sorted (map (tprio k) (priq_insert k t ts))"
  by (induction ts) (auto simp: z_is_t1_higher_prio_than_t2_def)

text \<open>Among threads of one priority the order is that of insertion.\<close>

lemma priq_insert_fifo:
  assumes "sorted (map (tprio k) ts)"
  shows "filter (\<lambda>x. tprio k x = p) (priq_insert k t ts)
    = filter (\<lambda>x. tprio k x = p) ts @ (if tprio k t = p then [t] else [])"
  using assms
proof (induction ts)
  case (Cons x xs)
  show ?case
  proof (cases "tprio k t < tprio k x")
    case True
    then have "filter (\<lambda>y. tprio k y = tprio k t) (x # xs) = []"
      using Cons.prems by (fastforce simp: filter_empty_conv)
    with True show ?thesis by (cases "tprio k t = p") (auto simp: z_is_t1_higher_prio_than_t2_def)
  next
    case False
    with Cons show ?thesis by (simp add: z_is_t1_higher_prio_than_t2_def)
  qed
qed simp

lemma priq_insert_cong: "threads k = threads k' \<Longrightarrow> priq_insert k t ts = priq_insert k' t ts"
  by (induction ts) (simp_all add: z_is_t1_higher_prio_than_t2_def)

lemma sorted_remove1_map: "sorted (map f ts) \<Longrightarrow> sorted (map f (remove1 t ts))"
  by (induction ts) (auto dest: notin_set_remove1)

section \<open>The invariant of the queues\<close>

text \<open>
  A thread is in the run queue exactly when it is marked so, in a wait queue
  exactly when it is pended on it, and what is in the run queue is ready. The
  run queue is in order of priority. The idle thread is in no queue.
\<close>

definition queues_ok :: "'a kernel_scheme \<Rightarrow> bool" where
  "queues_ok k \<longleftrightarrow> (\<forall>l. distinct (qlists k l))
     \<and> (\<forall>t. t \<in> set (runq k) \<longleftrightarrow> F_QUEUED \<in> tstate k t)
     \<and> (\<forall>t w. t \<in> set (waitq k w) \<longleftrightarrow> pended_on (threads k t) = Some w)
     \<and> (\<forall>t. pended_on (threads k t) \<noteq> None \<longrightarrow> F_PENDING \<in> tstate k t)
     \<and> (\<forall>t\<in>set (runq k). z_is_thread_ready k t)
     \<and> sorted (map (tprio k) (runq k))
     \<and> (\<forall>l. idle_thread k \<notin> set (qlists k l))"

lemma ready_def2:
  "z_is_thread_ready k t \<longleftrightarrow>
     tstate k t \<inter> {F_PENDING, F_PRESTART, F_DEAD, F_DUMMY, F_SUSPENDED} = {} \<and> Thr t \<notin> set (timeout_list k)"
  by (simp add: z_is_thread_ready_def z_is_thread_prevented_from_running_def
      z_is_thread_timeout_active_def z_is_inactive_timeout_def is_linked_def)

text \<open>Facts about one thread that follow from the invariant.\<close>

lemma queues_okD:
  assumes "queues_ok k"
  shows "distinct (qlists k l)" and "t \<in> set (runq k) \<longleftrightarrow> F_QUEUED \<in> tstate k t"
    and "t \<in> set (waitq k w) \<longleftrightarrow> pended_on (threads k t) = Some w"
    and "pended_on (threads k t) = Some w \<Longrightarrow> F_PENDING \<in> tstate k t"
    and "t \<in> set (runq k) \<Longrightarrow> z_is_thread_ready k t"
    and "sorted (map (tprio k) (runq k))" and "idle_thread k \<notin> set (qlists k l)"
  using assms unfolding queues_ok_def by blast+

lemma queues_ok_waiting:
  assumes "queues_ok k" and "t \<in> set (waitq k w)"
  shows "t \<notin> set (runq k)" and "F_PENDING \<in> tstate k t" and "F_QUEUED \<notin> tstate k t"
    and "t \<noteq> idle_thread k" and "pended_on (threads k t) = Some w"
proof -
  note D = queues_okD [OF assms(1)]
  show "pended_on (threads k t) = Some w" using assms(2) D(3) by blast
  then show p: "F_PENDING \<in> tstate k t" by (rule D(4))
  then show n: "t \<notin> set (runq k)" using D(5) by (auto simp: ready_def2)
  then show "F_QUEUED \<notin> tstate k t" using D(2) by blast
  show "t \<noteq> idle_thread k" using assms(2) D(7) by blast
qed

lemma queues_ok_ready:
  assumes "queues_ok k" and "F_QUEUED \<notin> tstate k t" and "t \<noteq> idle_thread k"
  shows "queues_ok (z_ready_thread t k)"
proof (cases "z_is_thread_ready k t")
  case True
  let ?k = "z_ready_thread t k"
  have nr: "t \<notin> set (runq k)" using assms by (auto simp: queues_ok_def)
  have pr: "tprio ?k = tprio k" using True by (auto simp: fun_eq_iff)
  have d: "distinct (qlists ?k l)" for l
    using assms(1) nr True by (cases l) (simp_all add: queues_ok_def distinct_priq_insert)
  have q: "t' \<in> set (runq ?k) \<longleftrightarrow> F_QUEUED \<in> tstate ?k t'" for t'
    using assms(1) True by (auto simp: queues_ok_def)
  have w: "t' \<in> set (waitq ?k w) \<longleftrightarrow> pended_on (threads ?k t') = Some w" for t' w
    using assms(1) True by (auto simp: queues_ok_def)
  have p: "pended_on (threads ?k t') \<noteq> None \<longrightarrow> F_PENDING \<in> tstate ?k t'" for t'
    using assms(1) True by (auto simp: queues_ok_def)
  have r: "z_is_thread_ready ?k t'" if "t' \<in> set (runq ?k)" for t'
    using assms(1) True that by (auto simp: queues_ok_def ready_def2)
  have s: "sorted (map (tprio ?k) (runq ?k))"
    using assms(1) True unfolding pr by (simp add: queues_ok_def sorted_priq_insert)
  have i: "idle_thread ?k \<notin> set (qlists ?k l)" for l
    using assms(3) True queues_okD(7) [OF assms(1)] by (cases l) simp_all
  from d q w p r s i show ?thesis unfolding queues_ok_def by blast
qed (use assms in \<open>simp add: z_ready_thread_def\<close>)

text \<open>Taking a thread out of its wait queue and cancelling its timeout.\<close>

lemma queues_ok_unpend:
  assumes "queues_ok k" and "t \<in> set (waitq k w)"
  shows "queues_ok (snd (z_abort_thread_timeout t (z_unpend_thread_no_timeout t k)))" (is "queues_ok ?k")
proof -
  note t = queues_ok_waiting [OF assms]
  have ql: "qlists ?k l = remove1 t (qlists k l)" for l by simp
  have pr: "tprio ?k = tprio k" by (auto simp: fun_eq_iff)
  have dis: "distinct (qlists k l)" for l using assms(1) by (simp add: queues_ok_def)
  have mem: "x \<in> set (qlists ?k l) \<longleftrightarrow> x \<in> set (qlists k l) \<and> x \<noteq> t" for x l
    using dis by (auto simp: ql)
  have q: "t' \<in> set (runq ?k) \<longleftrightarrow> F_QUEUED \<in> tstate ?k t'" for t'
    using assms(1) t(1,3) unfolding mem by (auto simp: queues_ok_def)
  have w: "t' \<in> set (waitq ?k v) \<longleftrightarrow> pended_on (threads ?k t') = Some v" for t' v
    using assms(1) unfolding mem by (auto simp: queues_ok_def)
  have r: "z_is_thread_ready ?k t'" if "t' \<in> set (runq ?k)" for t'
    using assms(1) that t(1) dis notin_set_remove1 unfolding mem
    by (fastforce simp: queues_ok_def ready_def2)
  have "distinct (qlists ?k l)" for l using dis by simp
  moreover have "pended_on (threads ?k t') \<noteq> None \<longrightarrow> F_PENDING \<in> tstate ?k t'" for t'
    using assms(1) by (auto simp: queues_ok_def)
  moreover have "sorted (map (tprio ?k) (runq ?k))"
    using assms(1) unfolding pr by (simp add: queues_ok_def sorted_remove1_map)
  moreover have "idle_thread ?k \<notin> set (qlists ?k l)" for l
    using assms(1) unfolding mem by (simp add: queues_ok_def)
  ultimately show ?thesis using q w r unfolding queues_ok_def by blast
qed

text \<open>The invariant only looks at the queues, the timeouts and three fields of a thread.\<close>

lemma queues_ok_same:
  assumes "queues_ok k" and "qlists k' = qlists k" and "set (timeout_list k') = set (timeout_list k)"
    and "idle_thread k' = idle_thread k"
    and "\<And>t. tstate k' t = tstate k t \<and> pended_on (threads k' t) = pended_on (threads k t)"
    and "\<And>t. t \<in> set (runq k) \<Longrightarrow> tprio k' t = tprio k t"
  shows "queues_ok k'"
proof -
  have "map (tprio k') (runq k) = map (tprio k) (runq k)" using assms(6) by simp
  then have "sorted (map (tprio k') (runq k))" using assms(1) by (simp only: queues_ok_def)
  then show ?thesis using assms(1-5) by (simp add: queues_ok_def ready_def2)
qed

lemma queues_ok_swap: "queues_ok k \<Longrightarrow> queues_ok (z_swap k)"
  by (erule queues_ok_same) simp_all

lemma queues_ok_reschedule: "queues_ok k \<Longrightarrow> queues_ok (z_reschedule k)"
  by (simp add: z_reschedule_def queues_ok_swap)

lemma queues_ok_retval: "queues_ok k \<Longrightarrow> queues_ok (z_set_thread_return_value t v k)"
  by (erule queues_ok_same) simp_all

lemma queues_ok_retval_data: "queues_ok k \<Longrightarrow> queues_ok (z_set_thread_return_value_with_data t v d k)"
  by (erule queues_ok_same) simp_all

lemma queues_ok_update_cache: "queues_ok (update_cache b k) = queues_ok k"
  by (auto elim!: queues_ok_same)

lemma set_insert_timeout: "set (fst (insert_timeout ds to d ts)) = insert to (set ts)"
proof (induction ts arbitrary: d)
  case (Cons t ts)
  obtain l ds' where i: "insert_timeout ds to (d - ds t) ts = (l, ds')" by fastforce
  with Cons [of "d - ds t"] show ?case by auto
qed simp

lemma set_add_timeout: "set (timeout_list (z_add_timeout to n k)) = insert to (set (timeout_list k))"
  using set_insert_timeout [of "dticks k" to "s32 (max 1 n + elapsed k)" "timeout_list k"]
  by (cases "insert_timeout (dticks k) to (s32 (max 1 n + elapsed k)) (timeout_list k)")
    (simp add: z_add_timeout_def z_clock_set_timeout_def Let_def)

lemma pend_eq:
  "threads (pend t (Some w) n k) = (threads k)(t := (threads k t)
     \<lparr>thread_state := (tstate k t - {F_QUEUED}) \<union> {F_PENDING}, pended_on := Some w\<rparr>)" if "queues_ok k"
proof -
  have "tstate k t - {F_QUEUED} = tstate k t" if "F_QUEUED \<notin> tstate k t" using that by simp
  then show ?thesis
    by (auto simp: pend_def Let_def z_is_thread_queued_def fun_eq_iff)
qed

lemma pend_lists:
  assumes "queues_ok k"
  shows "qlists (pend t (Some w) n k) = (\<lambda>l. if l = WaitQ w
     then priq_insert k t (if F_QUEUED \<in> tstate k t then remove1 t (waitq k w) else waitq k w)
     else if F_QUEUED \<in> tstate k t then remove1 t (qlists k l) else qlists k l)"
proof -
  have pi: "priq_insert k' t ts = priq_insert k t ts" if "\<And>x. tprio k' x = tprio k x" for k' :: "'a kernel_scheme" and ts
    using that by (induction ts) (simp_all add: z_is_t1_higher_prio_than_t2_def)
  have "priq_insert (upd_thread t (\<lambda>th. th\<lparr>pended_on := Some w\<rparr>)
          (z_set_thread_states t {F_PENDING} (z_remove_thread_from_ready_q t k))) t ts = priq_insert k t ts" for ts
    by (rule pi) (simp add: z_is_thread_queued_def)
  then show ?thesis
    by (auto simp: pend_def Let_def z_is_thread_queued_def fun_eq_iff)
qed

lemma pend_sel [simp]:
  "current (pend t w n k) = current k" "idle_thread (pend t w n k) = idle_thread k"
  "nested (pend t w n k) = nested k"
  by (simp_all add: pend_def Let_def split: option.split)

lemma pend_timeouts:
  "set (timeout_list (pend t w n k)) \<subseteq> insert (Thr t) (set (timeout_list k))"
  "set (timeout_list k) \<subseteq> set (timeout_list (pend t w n k))"
  by (auto simp: pend_def Let_def z_add_thread_timeout_def set_add_timeout split: option.split)

lemma queues_ok_pend:
  assumes "queues_ok k" and "pended_on (threads k t) = None" and "t \<noteq> idle_thread k"
  shows "queues_ok (pend t (Some w) n k)" (is "queues_ok ?k")
proof -
  note D = queues_okD [OF assms(1)]
  have nw: "t \<notin> set (waitq k v)" for v using assms(2) D(3) [of t v] by simp
  have rq: "runq ?k = remove1 t (runq k)"
    using D(2) [of t] by (auto simp: pend_lists [OF assms(1)] remove1_idem)
  have wq: "waitq ?k v = (if v = w then priq_insert k t (waitq k v) else waitq k v)" for v
    using nw by (auto simp: pend_lists [OF assms(1)] remove1_idem)
  have pr: "tprio ?k = tprio k" by (auto simp: pend_eq [OF assms(1)] fun_eq_iff)
  have d: "distinct (qlists ?k l)" for l
    using D(1) [of l] D(1) nw by (cases l) (simp_all add: rq wq distinct_priq_insert)
  have q: "t' \<in> set (runq ?k) \<longleftrightarrow> F_QUEUED \<in> tstate ?k t'" for t'
    using D(1) [of RunQ] D(2) [of t'] by (auto simp: rq pend_eq [OF assms(1)])
  have w: "t' \<in> set (waitq ?k v) \<longleftrightarrow> pended_on (threads ?k t') = Some v" for t' v
    using D(3) [of t' v] nw by (auto simp: wq pend_eq [OF assms(1)])
  have p: "pended_on (threads ?k t') \<noteq> None \<longrightarrow> F_PENDING \<in> tstate ?k t'" for t'
    using D(4) by (auto simp: pend_eq [OF assms(1)])
  have r: "z_is_thread_ready ?k t'" if "t' \<in> set (runq ?k)" for t'
  proof -
    have "t' \<in> set (runq k)" "t' \<noteq> t" using that D(1) [of RunQ] by (auto simp: rq)
    then show ?thesis using D(5) [of t'] pend_timeouts(1) [of t "Some w" n k]
      by (auto simp: ready_def2 pend_eq [OF assms(1)])
  qed
  have s: "sorted (map (tprio ?k) (runq ?k))"
    unfolding pr rq using D(6) by (rule sorted_remove1_map)
  have i: "idle_thread ?k \<notin> set (qlists ?k l)" for l
    using D(7) assms(3) notin_set_remove1 by (cases l) (simp_all add: rq wq)
  from d q w p r s i show ?thesis unfolding queues_ok_def by blast
qed

text \<open>Moving a queued thread to the end of its priority class.\<close>

lemma queues_ok_requeue:
  assumes "queues_ok k" and "t \<in> set (runq k)"
  shows "queues_ok (z_priq_dumb_add RunQ t (z_priq_dumb_remove t k))" (is "queues_ok ?k")
proof -
  note D = queues_okD [OF assms(1)]
  have nw: "t \<notin> set (waitq k v)" for v using assms queues_ok_waiting(1) by metis
  have pi: "priq_insert (z_priq_dumb_remove t k) t ts = priq_insert k t ts" for ts
    by (rule priq_insert_cong) simp
  have rq: "runq ?k = priq_insert k t (remove1 t (runq k))" by (simp add: pi)
  have wq: "waitq ?k v = waitq k v" for v using nw by (simp add: remove1_idem)
  have set: "set (runq ?k) = set (runq k)" using assms(2) D(1) [of RunQ] by (auto simp: rq)
  have "distinct (qlists ?k l)" for l
    using D(1) [of l] by (cases l) (simp_all add: rq wq distinct_priq_insert del: priq_sel)
  moreover have "sorted (map (tprio ?k) (runq ?k))"
    using D(6) by (simp add: rq sorted_priq_insert sorted_remove1_map del: priq_sel(27))
  moreover have "idle_thread ?k = idle_thread k" by simp
  then have "idle_thread ?k \<notin> set (qlists ?k l)" for l
    using D(7) set by (cases l) (simp_all add: wq del: priq_sel)
  moreover have "z_is_thread_ready ?k x = z_is_thread_ready k x" for x by (simp add: ready_def2)
  moreover have "pended_on (threads k x) \<noteq> None \<longrightarrow> F_PENDING \<in> tstate k x" for x using D(4) by auto
  ultimately show ?thesis using D(2,3,5) set wq unfolding queues_ok_def
    by simp
qed

section \<open>Which thread runs next\<close>

lemma next_up_best:
  assumes "queues_ok k" and "t \<in> set (runq k)"
  shows "next_up k \<in> set (runq k) \<and> tprio k (next_up k) \<le> tprio k t"
  using queues_okD(6) [OF assms(1)] assms(2)
  by (cases "runq k") (auto simp: next_up_def z_priq_dumb_best_def)

lemma update_cache_choice:
  "ready_cache (update_cache b k) = (if should_preempt k (next_up k) b then next_up k else current k)"
  by (simp add: update_cache_def Let_def)

lemma requeue_runq:
  "runq (z_priq_dumb_add RunQ t (z_priq_dumb_remove t k)) = priq_insert k t (remove1 t (runq k))"
  using priq_insert_cong [of "z_priq_dumb_remove t k" k] by simp

lemma priq_insert_hd:
  assumes "sorted (map (tprio k) (x # xs))" and "tprio k x \<le> tprio k t"
  shows "priq_insert k t (x # xs) = x # priq_insert k t xs"
  using assms by (simp add: z_is_t1_higher_prio_than_t2_def)

section \<open>The contract of wait queues\<close>

text \<open>
  What the kernel objects rely on when they wake a thread: the first waiter is
  taken out, is made ready and gets a return value; the other waiters and
  queues stay as they are. \<open>wakeable\<close> is the state between unpending and
  readying.
\<close>

locale wait_queue =
  fixes inv :: "'k \<Rightarrow> bool"
    and waiters :: "'k \<Rightarrow> wqid \<Rightarrow> tid list"
    and wakeable :: "'k \<Rightarrow> tid \<Rightarrow> bool"
    and running :: "'k \<Rightarrow> tid"
    and ret :: "'k \<Rightarrow> tid \<Rightarrow> 'r"
    and unpend_first :: "wqid \<Rightarrow> 'k \<Rightarrow> tid option \<times> 'k"
    and make_ready :: "tid \<Rightarrow> 'k \<Rightarrow> 'k"
    and set_ret :: "tid \<Rightarrow> 'r \<Rightarrow> 'k \<Rightarrow> 'k"
  assumes unpend_none: "waiters k w = [] \<Longrightarrow> unpend_first w k = (None, k)"
    and unpend_some: "inv k \<Longrightarrow> waiters k w = t # ts \<Longrightarrow>
      \<exists>k'. unpend_first w k = (Some t, k') \<and> inv k' \<and> wakeable k' t \<and> waiters k' w = ts
        \<and> (\<forall>v. v \<noteq> w \<longrightarrow> waiters k' v = waiters k v) \<and> ret k' = ret k \<and> running k' = running k"
    and ready_law: "inv k \<Longrightarrow> wakeable k t \<Longrightarrow>
      inv (make_ready t k) \<and> waiters (make_ready t k) = waiters k \<and> ret (make_ready t k) = ret k
        \<and> running (make_ready t k) = running k"
    and ret_law: "inv k \<Longrightarrow>
      inv (set_ret t v k) \<and> waiters (set_ret t v k) = waiters k \<and> ret (set_ret t v k) = (ret k)(t := v)
        \<and> running (set_ret t v k) = running k \<and> wakeable (set_ret t v k) = wakeable k"
begin

text \<open>Waking the first waiter with a return value, in either order of the last two steps.\<close>

lemma hand_over:
  assumes "inv k" and "waiters k w = t # ts"
  obtains k1 where "unpend_first w k = (Some t, k1)"
    and "inv (set_ret t v (make_ready t k1))" and "inv (make_ready t (set_ret t v k1))"
    and "waiters (set_ret t v (make_ready t k1)) = (waiters k)(w := ts)"
    and "waiters (make_ready t (set_ret t v k1)) = (waiters k)(w := ts)"
    and "ret (set_ret t v (make_ready t k1)) = (ret k)(t := v)"
    and "ret (make_ready t (set_ret t v k1)) = (ret k)(t := v)"
    and "running (set_ret t v (make_ready t k1)) = running k"
    and "running (make_ready t (set_ret t v k1)) = running k"
proof -
  obtain k1 where k1: "unpend_first w k = (Some t, k1)" "inv k1" "wakeable k1 t" "waiters k1 w = ts"
    "\<forall>v. v \<noteq> w \<longrightarrow> waiters k1 v = waiters k v" "ret k1 = ret k" "running k1 = running k"
    using unpend_some [OF assms] by blast
  have w: "waiters k1 = (waiters k)(w := ts)" using k1(4,5) by (auto simp: fun_eq_iff)
  note r = ready_law [OF k1(2,3)] and s = ret_law [OF k1(2), of t v]
  have "ret (make_ready t k1) = ret k" using r k1(6) by simp
  with ret_law [of "make_ready t k1" t v] ready_law [of "set_ret t v k1" t] r s w k1
  show ?thesis by (intro that [of k1]) simp_all
qed

end

definition wakeable :: "'a kernel_scheme \<Rightarrow> tid \<Rightarrow> bool" where
  "wakeable k t \<longleftrightarrow> F_QUEUED \<notin> tstate k t \<and> t \<noteq> idle_thread k"

definition ret_of :: "'a kernel_scheme \<Rightarrow> tid \<Rightarrow> int" where
  "ret_of k t = swap_retval (threads k t)"

definition data_of :: "'a kernel_scheme \<Rightarrow> tid \<Rightarrow> nat" where
  "data_of k t = swap_data (threads k t)"

text \<open>The laws that do not speak of return values hold for both ways of returning a value.\<close>

lemma unpend_first_some:
  assumes ok: "queues_ok k" and w: "waitq k w = t # ts"
  shows "\<exists>k'. z_unpend_first_thread w k = (Some t, k') \<and> queues_ok k' \<and> wakeable k' t \<and> waitq k' w = ts
      \<and> (\<forall>v. v \<noteq> w \<longrightarrow> waitq k' v = waitq k v) \<and> ret_of k' = ret_of k \<and> data_of k' = data_of k
      \<and> current k' = current k"
proof -
  have t: "t \<in> set (waitq k w)" using w by simp
  let ?k = "snd (z_abort_thread_timeout t (z_unpend_thread_no_timeout t k))"
  note q = queues_ok_waiting [OF ok t]
  have "t \<notin> set ts" using queues_okD(1) [OF ok, of "WaitQ w"] w by simp
  moreover have "t \<notin> set (waitq k v)" if "v \<noteq> w" for v
    using queues_okD(3) [OF ok, of t v] q(5) that by simp
  ultimately show ?thesis
    using queues_ok_unpend [OF ok t] q(3,4) w
    by (intro exI [of _ ?k]) (simp add: unpend_first_eq wakeable_def ret_of_def data_of_def fun_eq_iff remove1_idem)
qed

interpretation wq: wait_queue "queues_ok" "\<lambda>k w. waitq k w" wakeable current ret_of
  z_unpend_first_thread z_ready_thread z_set_thread_return_value
proof unfold_locales
  fix k :: "'a kernel_scheme" and w t ts
  assume "queues_ok k" and "waitq k w = t # ts"
  from unpend_first_some [OF this]
  show "\<exists>k'. z_unpend_first_thread w k = (Some t, k') \<and> queues_ok k' \<and> wakeable k' t \<and> waitq k' w = ts
      \<and> (\<forall>v. v \<noteq> w \<longrightarrow> waitq k' v = waitq k v) \<and> ret_of k' = ret_of k \<and> current k' = current k" by blast
qed (auto simp: unpend_first_eq wakeable_def ret_of_def fun_eq_iff queues_ok_ready queues_ok_retval)

definition ret_data :: "'a kernel_scheme \<Rightarrow> tid \<Rightarrow> int \<times> nat" where
  "ret_data k t = (ret_of k t, data_of k t)"

definition set_ret_data :: "tid \<Rightarrow> int \<times> nat \<Rightarrow> 'a kernel_scheme \<Rightarrow> 'a kernel_scheme" where
  "set_ret_data t v k = z_set_thread_return_value_with_data t (fst v) (snd v) k"

interpretation wqd: wait_queue "queues_ok" "\<lambda>k w. waitq k w" wakeable current ret_data
  z_unpend_first_thread z_ready_thread set_ret_data
proof unfold_locales
  fix k :: "'a kernel_scheme" and w t ts
  assume "queues_ok k" and "waitq k w = t # ts"
  from unpend_first_some [OF this]
  show "\<exists>k'. z_unpend_first_thread w k = (Some t, k') \<and> queues_ok k' \<and> wakeable k' t \<and> waitq k' w = ts
      \<and> (\<forall>v. v \<noteq> w \<longrightarrow> waitq k' v = waitq k v) \<and> ret_data k' = ret_data k \<and> current k' = current k"
    by (auto simp: ret_data_def fun_eq_iff)
qed (auto simp: unpend_first_eq wakeable_def ret_data_def ret_of_def data_of_def set_ret_data_def fun_eq_iff
    queues_ok_ready queues_ok_retval_data)

section \<open>Waking a waiter\<close>

lemma reschedule_ret: "ret_of (z_reschedule k) t = (if t = current k \<and> \<not> z_is_in_isr k then - EAGAIN else ret_of k t)"
  by (simp add: z_reschedule_def ret_of_def)

lemma reschedule_data: "data_of (z_reschedule k) = data_of k"
  by (simp add: z_reschedule_def data_of_def fun_eq_iff)

text \<open>
  The handlers that hand something to a waiting thread end with these calls,
  in one of the two orders.
\<close>

definition woken :: "'a kernel_scheme \<Rightarrow> wqid \<Rightarrow> tid list \<Rightarrow> tid \<Rightarrow> int \<Rightarrow> nat \<Rightarrow> 'a kernel_scheme \<Rightarrow> bool" where
  "woken k w ts t v d k' \<longleftrightarrow> queues_ok k' \<and> waitq k' = (waitq k)(w := ts) \<and> ret_of k' t = v \<and> data_of k' t = d
     \<and> (\<forall>x. x \<noteq> t \<longrightarrow> data_of k' x = data_of k x)"

lemma wokenD:
  assumes "woken k w ts t v d k'"
  shows "queues_ok k'" and "waitq k' w = ts" and "ret_of k' t = v" and "data_of k' t = d"
    and "u \<noteq> w \<Longrightarrow> waitq k' u = waitq k u" and "x \<noteq> t \<Longrightarrow> data_of k' x = data_of k x"
  using assms by (auto simp: woken_def fun_eq_iff)

lemma wake_first:
  assumes "queues_ok k" and "waitq k w = t # ts" and "pended_on (threads k (current k)) = None"
  obtains k1 where "z_unpend_first_thread w k = (Some t, k1)"
    and "woken k w ts t v d (z_reschedule (z_set_thread_return_value_with_data t v d (z_ready_thread t k1)))"
    and "woken k w ts t v d (z_reschedule (z_ready_thread t (z_set_thread_return_value_with_data t v d k1)))"
    and "woken k w ts t v (data_of k t) (z_reschedule (z_ready_thread t (z_set_thread_return_value t v k1)))"
    and "swap_data (threads k1 t) = data_of k t"
proof -
  have tc: "t \<noteq> current k" using queues_okD(3) [OF assms(1), of t w] assms(2,3) by auto
  obtain k1 where k1: "z_unpend_first_thread w k = (Some t, k1)" "queues_ok k1" "wakeable k1 t" "waitq k1 w = ts"
    "\<forall>v. v \<noteq> w \<longrightarrow> waitq k1 v = waitq k v" "ret_of k1 = ret_of k" "data_of k1 = data_of k" "current k1 = current k"
    using unpend_first_some [OF assms(1,2)] by blast
  have wk: "waitq k1 = (waitq k)(w := ts)" using k1(4,5) by (auto simp: fun_eq_iff)
  have fin: "woken k w ts t v e (z_reschedule k2)" if "queues_ok k2" "waitq k2 = waitq k1" "ret_of k2 t = v"
    "data_of k2 t = e" "\<And>x. x \<noteq> t \<Longrightarrow> data_of k2 x = data_of k x" "current k2 = current k" for k2 :: "'a kernel_scheme" and e
    using that wk tc by (auto simp: woken_def queues_ok_reschedule reschedule_ret reschedule_data fun_eq_iff)
  have r: "queues_ok (z_ready_thread t k1)" using wq.ready_law [OF k1(2,3)] by simp
  have sd: "queues_ok (z_set_thread_return_value_with_data t v d k1)" "wakeable (z_set_thread_return_value_with_data t v d k1) t"
    "queues_ok (z_set_thread_return_value t v k1)" "wakeable (z_set_thread_return_value t v k1) t"
    using k1(2,3) by (simp_all add: queues_ok_retval queues_ok_retval_data wakeable_def)
  show ?thesis
  proof (rule that [OF k1(1)])
    show "woken k w ts t v d (z_reschedule (z_set_thread_return_value_with_data t v d (z_ready_thread t k1)))"
      using k1(7,8) queues_ok_retval_data [OF r] by (intro fin) (auto simp: ret_of_def data_of_def fun_eq_iff)
    show "woken k w ts t v d (z_reschedule (z_ready_thread t (z_set_thread_return_value_with_data t v d k1)))"
      using k1(7,8) wq.ready_law [OF sd(1,2)] by (intro fin) (auto simp: ret_of_def data_of_def fun_eq_iff)
    show "woken k w ts t v (data_of k t) (z_reschedule (z_ready_thread t (z_set_thread_return_value t v k1)))"
      using k1(7,8) wq.ready_law [OF sd(3,4)] by (intro fin) (auto simp: ret_of_def data_of_def fun_eq_iff)
    show "swap_data (threads k1 t) = data_of k t" using fun_cong [OF k1(7), of t] by (simp add: data_of_def)
  qed
qed

section \<open>The example state\<close>

lemma demo_queues_ok: "queues_ok demo_kernel"
  by (auto simp: queues_ok_def demo_kernel_def base_thread_def ready_def2)

lemma demo_timeouts_ok: "timeouts_ok demo_kernel"
  by (simp add: timeouts_ok_def demo_kernel_def expiries_def)


section \<open>Correctness of the scheduler\<close>

lemma priq_insert_ne: "priq_insert k t ts \<noteq> []"
  by (cases ts) simp_all

lemma is_preempt_iff:
  assumes "- 128 \<le> tprio k t" "tprio k t < 128"
  shows "is_preempt k t \<longleftrightarrow> sched_locked (threads k t) = 0 \<and> 0 \<le> tprio k t"
proof -
  let ?p = "tprio k t" and ?s = "sched_locked (threads k t)"
  have "?p mod 256 = (if 0 \<le> ?p then ?p else ?p + 256)"
    using assms mod_pos_pos_trivial [of ?p 256] mod_pos_pos_trivial [of "?p + 256" 256] by simp
  then have m: "0 \<le> ?p mod 256" "?p mod 256 \<le> 127 \<longleftrightarrow> 0 \<le> ?p" using assms by auto
  have "?s = 0 \<longleftrightarrow> uint ?s = 0" by (simp add: word_uint_eq_iff)
  then have "?s \<noteq> 0 \<longleftrightarrow> 1 \<le> uint ?s" using uint_ge_0 [of ?s] by linarith
  with m show ?thesis by (auto simp: is_preempt_def preempt_def)
qed

text \<open>
  The scheduler picks the right thread. When the cache is updated with preemption allowed, or the running
  thread cannot go on or is preemptible (its priority is not negative and it has not locked the
  scheduler), the next thread is one of the highest priority in the run queue, the idle thread if
  that is empty; a cooperative or locked thread that can run keeps the processor.\<close>

theorem scheduler_picks_best:
  assumes "queues_ok k" and "- 128 \<le> tprio k (current k)" "tprio k (current k) < 128"
  shows "let c = ready_cache (update_cache b k) in
    if b \<or> z_is_thread_prevented_from_running k (current k)
       \<or> sched_locked (threads k (current k)) = 0 \<and> 0 \<le> tprio k (current k)
    then if runq k = [] then c = idle_thread k
         else c \<in> set (runq k) \<and> z_is_thread_ready k c \<and> (\<forall>t. t \<in> set (runq k) \<longrightarrow> tprio k c \<le> tprio k t)
    else c = current k"
proof -
  have "next_up k = idle_thread k" if "runq k = []" using that by (simp add: next_up_def z_priq_dumb_best_def)
  moreover have "next_up k \<in> set (runq k) \<and> z_is_thread_ready k (next_up k)
      \<and> (\<forall>t. t \<in> set (runq k) \<longrightarrow> tprio k (next_up k) \<le> tprio k t)" if "runq k \<noteq> []"
    using next_up_best [OF assms(1)] queues_okD(5) [OF assms(1)] that by (metis list.set_sel(1))
  ultimately show ?thesis
    by (auto simp: update_cache_choice should_preempt_def is_preempt_iff [OF assms(2,3)] Let_def)
qed

theorem scheduler_picks_best_witness:
  "ready_cache (update_cache True (demo_kernel\<lparr>current := 0\<rparr>)) = 4"
proof -
  have q: "queues_ok (demo_kernel\<lparr>current := 0\<rparr>)" using demo_queues_ok by (rule queues_ok_same) simp_all
  show ?thesis
    using scheduler_picks_best [OF q, of True] by (simp add: Let_def) (simp add: demo_kernel_def base_thread_def)
qed

text \<open>
  Yielding is fair: the running thread goes behind every ready thread of its priority, the order of all
  others stays, and the processor goes to a thread of the highest priority; if another ready
  thread has the same or a higher priority, the yielding thread does not get it again.\<close>

theorem k_yield_round_robin:
  assumes "queues_ok k" and "current k \<in> set (runq k)"
  shows "queues_ok (k_yield k)
    \<and> filter (\<lambda>t. tprio k t = tprio k (current k)) (runq (k_yield k))
      = filter (\<lambda>t. tprio k t = tprio k (current k)) (remove1 (current k) (runq k)) @ [current k]
    \<and> remove1 (current k) (runq (k_yield k)) = remove1 (current k) (runq k)
    \<and> current (k_yield k) = hd (runq (k_yield k))
    \<and> ((\<exists>t\<in>set (runq k). t \<noteq> current k \<and> tprio k t \<le> tprio k (current k)) \<longrightarrow> current (k_yield k) \<noteq> current k)"
proof -
  let ?c = "current k" and ?r = "remove1 (current k) (runq k)"
  let ?k = "z_priq_dumb_add RunQ ?c (z_priq_dumb_remove ?c k)"
  have "\<not> is_idle k ?c" using queues_okD(7) [OF assms(1), of RunQ] assms(2) by (auto simp: is_idle_def)
  then have y: "k_yield k = z_swap (update_cache True ?k)" by (simp add: k_yield_def Let_def)
  have rq: "runq (k_yield k) = priq_insert k ?c ?r" unfolding y using requeue_runq [of ?c k] by simp
  have so: "sorted (map (tprio k) ?r)" by (rule sorted_remove1_map [OF queues_okD(6) [OF assms(1)]])
  have nc: "?c \<notin> set ?r" using queues_okD(1) [OF assms(1), of RunQ] by simp
  have cur: "current (k_yield k) = hd (runq (k_yield k))"
    unfolding rq y using requeue_runq [of ?c k]
    by (cases "priq_insert k ?c ?r") (auto simp: priq_insert_ne update_cache_choice should_preempt_def next_up_def z_priq_dumb_best_def)
  have "remove1 ?c (priq_insert k ?c ts) = ts" if "?c \<notin> set ts" for ts
    using that by (induction ts) auto
  moreover have "hd (priq_insert k ?c ?r) \<noteq> ?c" if "t \<in> set (runq k)" "t \<noteq> ?c" "tprio k t \<le> tprio k ?c" for t
  proof -
    have "t \<in> set ?r" using that by simp
    then obtain x xs where x: "?r = x # xs" by (cases ?r) auto
    then have "tprio k x \<le> tprio k t" using so \<open>t \<in> set ?r\<close> by auto
    then show ?thesis using that(3) nc x by (simp add: z_is_t1_higher_prio_than_t2_def)
  qed
  moreover have "queues_ok (k_yield k)"
    unfolding y by (intro queues_ok_swap) (simp only: queues_ok_update_cache queues_ok_requeue [OF assms])
  ultimately show ?thesis using nc cur priq_insert_fifo [OF so, of "tprio k ?c" ?c] unfolding rq by auto
qed

text \<open>Threads 4 and 6 have the same priority; 4 runs.\<close>

definition demo_two_ready :: kernel where
  "demo_two_ready = demo_kernel\<lparr>threads := (threads demo_kernel)(6 := base_thread\<lparr>thread_state := {F_QUEUED}\<rparr>),
     qlists := (qlists demo_kernel)(RunQ := [4, 6])\<rparr>"

theorem k_yield_round_robin_witness:
  "current (k_yield demo_two_ready) \<noteq> 4 \<and> remove1 4 (runq (k_yield demo_two_ready)) = [6]"
proof -
  have s: "current demo_two_ready = 4" "runq demo_two_ready = [4, 6]" "tprio demo_two_ready 4 = 5" "tprio demo_two_ready 6 = 5"
    by (simp_all add: demo_two_ready_def demo_kernel_def base_thread_def)
  have "queues_ok demo_two_ready"
    by (auto simp: queues_ok_def demo_two_ready_def demo_kernel_def base_thread_def ready_def2)
  from k_yield_round_robin [OF this] show ?thesis by (simp add: s)
qed

text \<open>Waking all the threads of a wait queue, one after the other.\<close>

lemma unpend_all_loop_spec:
  assumes "queues_ok k" and "waitq k w = ts" and "distinct (timeout_list k)"
  shows "\<exists>k'. unpend_all_loop (length ts) w b k = (b \<or> ts \<noteq> [], k') \<and> queues_ok k' \<and> waitq k' w = []
    \<and> (\<forall>t\<in>set ts. pended_on (threads k' t) = None \<and> F_PENDING \<notin> tstate k' t \<and> Thr t \<notin> set (timeout_list k')
        \<and> (tstate k t = {F_PENDING} \<longrightarrow> t \<in> set (runq k')))
    \<and> (\<forall>t. t \<notin> set ts \<longrightarrow> threads k' t = threads k t) \<and> set (timeout_list k') \<subseteq> set (timeout_list k)"
  using assms
proof (induction ts arbitrary: b k)
  case (Cons t ts)
  let ?u = "snd (z_abort_thread_timeout t (z_unpend_thread_no_timeout t k))"
  let ?k = "z_ready_thread t ?u"
  have t: "t \<in> set (waitq k w)" using Cons.prems(2) by simp
  note q = queues_ok_waiting [OF Cons.prems(1) t] queues_ok_unpend [OF Cons.prems(1) t]
  have nt: "t \<notin> set ts" using queues_okD(1) [OF Cons.prems(1), of "WaitQ w"] Cons.prems(2) by simp
  have ok: "queues_ok ?k" using q by (intro queues_ok_ready) simp_all
  have w: "waitq ?k w = ts" and d: "distinct (timeout_list ?k)" using Cons.prems(2,3) by simp_all
  obtain k' where k': "unpend_all_loop (length ts) w True ?k = (True, k')" "queues_ok k'" "waitq k' w = []"
    "\<forall>x\<in>set ts. pended_on (threads k' x) = None \<and> F_PENDING \<notin> tstate k' x \<and> Thr x \<notin> set (timeout_list k')
      \<and> (tstate ?k x = {F_PENDING} \<longrightarrow> x \<in> set (runq k'))"
    "\<forall>x. x \<notin> set ts \<longrightarrow> threads k' x = threads ?k x" "set (timeout_list k') \<subseteq> set (timeout_list ?k)"
    using Cons.IH [OF ok w d, of True] by auto
  have th: "pended_on (threads ?k t) = None" "F_PENDING \<notin> tstate ?k t" "\<And>x. x \<noteq> t \<Longrightarrow> threads ?k x = threads k x" by auto
  have run: "unpend_all_loop (length (t # ts)) w b k = (True, k')"
    using k'(1) Cons.prems(2) by (simp add: z_unpend_thread_def)
  have "Thr t \<notin> set (timeout_list ?k)" "set (timeout_list ?k) \<subseteq> set (timeout_list k)"
    using Cons.prems(3) set_remove1_subset by auto
  moreover have t': "threads k' t = threads ?k t" using k'(5) nt by blast
  moreover have "t \<in> set (runq k')" if "tstate k t = {F_PENDING}"
  proof -
    have "z_is_thread_ready ?u t" using that Cons.prems(3) by (simp add: ready_def2)
    then have "F_QUEUED \<in> tstate ?k t" by (simp add: z_ready_thread_def z_add_thread_to_ready_q_def z_set_thread_states_def)
    then show ?thesis using queues_okD(2) [OF k'(2), of t] t' by simp
  qed
  moreover have "tstate ?k x = tstate k x" if "x \<in> set ts" for x using th(3) [of x] that nt by auto
  ultimately show ?case using run k' th by (intro exI [of _ k']) (auto simp del: unpend_all_loop.simps ready_thread_sel)
qed auto

text \<open>
  Waking all threads of a wait queue empties it: each of them is no longer pending, has no
  timeout left and, unless something else holds it back, is in the run queue; the invariants of the queues hold; no other thread changes, and the loop ends.\<close>

theorem z_unpend_all_wakes_all:
  assumes "queues_ok k" and "distinct (timeout_list k)"
  shows "\<exists>k'. z_unpend_all w k = (waitq k w \<noteq> [], k') \<and> queues_ok k' \<and> waitq k' w = []
    \<and> (\<forall>t\<in>set (waitq k w). pended_on (threads k' t) = None \<and> F_PENDING \<notin> tstate k' t \<and> Thr t \<notin> set (timeout_list k')
        \<and> (tstate k t = {F_PENDING} \<longrightarrow> t \<in> set (runq k')))
    \<and> (\<forall>t. t \<notin> set (waitq k w) \<longrightarrow> threads k' t = threads k t)"
  using unpend_all_loop_spec [OF assms(1) refl assms(2), of w False] by (auto simp: z_unpend_all_def)

theorem z_unpend_all_wakes_all_witness:
  "\<exists>k'. z_unpend_all 7 demo_kernel = (True, k') \<and> queues_ok k' \<and> waitq k' 7 = []"
  using z_unpend_all_wakes_all [OF demo_queues_ok, of 7] by (auto simp: demo_sel)

text \<open>A waiting thread that is taken off its queue and has no other reason to wait is ready.\<close>

lemma unpend_state:
  assumes "queues_ok k" and "distinct (timeout_list k)" and "t \<in> set (waitq k w)" and "tstate k t = {F_PENDING}"
  shows "queues_ok (z_unpend_thread t k)" and "tstate (z_unpend_thread t k) t = {}" and "t \<notin> set (qlists (z_unpend_thread t k) l)"
    and "z_is_thread_ready (z_unpend_thread t k) t" and "pended_on (threads (z_unpend_thread t k) t) = None"
    and "x \<noteq> t \<Longrightarrow> threads (z_unpend_thread t k) x = threads k x"
    and "current (z_unpend_thread t k) = current k" and "idle_thread (z_unpend_thread t k) = idle_thread k"
    and "waitq (z_unpend_thread t k) w = remove1 t (waitq k w)" and "nested (z_unpend_thread t k) = nested k"
    and "runq (z_unpend_thread t k) = runq k" and "distinct (timeout_list (z_unpend_thread t k))"
proof -
  note D = queues_okD [OF assms(1)]
  show "queues_ok (z_unpend_thread t k)" using queues_ok_unpend [OF assms(1,3)] by (simp add: z_unpend_thread_def)
  show "t \<notin> set (qlists (z_unpend_thread t k) l)" using D(1) [of l] by (simp add: z_unpend_thread_def)
  show "runq (z_unpend_thread t k) = runq k"
    using queues_ok_waiting(1) [OF assms(1,3)] by (simp add: z_unpend_thread_def remove1_idem)
qed (use assms in \<open>simp_all add: z_unpend_thread_def ready_def2\<close>)

end
