(* ===== verification/KSem.thy ===== *)
theory KSem
  imports KSched
begin

text \<open>
  Semaphores, \<^verbatim>\<open>kernel/sem.c\<close>. A semaphore has its count, its limit and the
  name of its wait queue. The abstract semaphore is a counter with a list of
  waiting threads; give and take are shown to be its operations.
\<close>

record sem =
  sem_count :: u32
  sem_limit :: u32
  sem_wait_q :: wqid

definition k_sem_init :: "wqid \<Rightarrow> u32 \<Rightarrow> u32 \<Rightarrow> 'a kernel_scheme \<Rightarrow> sem \<times> 'a kernel_scheme" where
  "k_sem_init w initial_count limit k =
     (\<lparr>sem_count = initial_count, sem_limit = limit, sem_wait_q = w\<rparr>, set_list (WaitQ w) [] k)"

definition increment_count_up_to_limit :: "sem \<Rightarrow> sem" where
  "increment_count_up_to_limit s =
     s\<lparr>sem_count := sem_count s + (if sem_count s \<noteq> sem_limit s then 1 else 0)\<rparr>"

definition do_sem_give :: "sem \<Rightarrow> 'a kernel_scheme \<Rightarrow> sem \<times> 'a kernel_scheme" where
  "do_sem_give s k =
     (case z_unpend_first_thread (sem_wait_q s) k of
        (Some t, k) \<Rightarrow> (s, z_set_thread_return_value t 0 (z_ready_thread t k))
      | (None, k) \<Rightarrow> (increment_count_up_to_limit s, k))"

definition k_sem_give :: "sem \<Rightarrow> 'a kernel_scheme \<Rightarrow> sem \<times> 'a kernel_scheme" where
  "k_sem_give s k = (case do_sem_give s k of (s, k) \<Rightarrow> (s, z_reschedule k))"

definition k_sem_take :: "sem \<Rightarrow> int \<Rightarrow> 'a kernel_scheme \<Rightarrow> int outcome \<times> sem \<times> 'a kernel_scheme" where
  "k_sem_take s timeout k =
     (if sem_count s > 0 then (Done 0, s\<lparr>sem_count := sem_count s - 1\<rparr>, k)
      else if timeout = K_NO_WAIT then (Done (- EBUSY), s, k)
      else (Blocked, s, z_pend_curr (Some (sem_wait_q s)) timeout k))"

text \<open>What a blocked \<^verbatim>\<open>k_sem_take\<close> returns once its thread \<open>t\<close> runs again.\<close>

definition k_sem_take_resume :: "tid \<Rightarrow> 'a kernel_scheme \<Rightarrow> int" where
  "k_sem_take_resume t k = swap_retval (threads k t)"

definition k_sem_reset :: "sem \<Rightarrow> sem" where
  "k_sem_reset s = s\<lparr>sem_count := 0\<rparr>"

definition k_sem_count_get :: "sem \<Rightarrow> u32" where
  "k_sem_count_get s = sem_count s"

section \<open>The abstract semaphore\<close>

definition sem_abs :: "sem \<Rightarrow> 'a kernel_scheme \<Rightarrow> nat \<times> tid list" where
  "sem_abs s k = (unat (sem_count s), waitq k (sem_wait_q s))"

fun spec_give :: "nat \<Rightarrow> nat \<times> tid list \<Rightarrow> nat \<times> tid list" where
  "spec_give limit (c, t # ts) = (c, ts)"
| "spec_give limit (c, []) = (min (c + 1) limit, [])"

text \<open>The count stays within the limit, and nobody waits while it is above zero.\<close>

definition sem_inv :: "sem \<Rightarrow> 'a kernel_scheme \<Rightarrow> bool" where
  "sem_inv s k \<longleftrightarrow> sem_count s \<le> sem_limit s \<and> (waitq k (sem_wait_q s) \<noteq> [] \<longrightarrow> sem_count s = 0)"

lemma unat_inc_limit:
  "(c :: u32) \<le> l \<Longrightarrow> unat (c + (if c \<noteq> l then 1 else 0)) = min (unat c + 1) (unat l)"
proof -
  assume le: "c \<le> l"
  show ?thesis
  proof (cases "c = l")
    case False
    then have "unat c < unat l" using le by (simp add: word_le_nat_alt word_unat_eq_iff)
    then have "unat c + 1 < 4294967296" using unat_u32_less [of l] by linarith
    with False \<open>unat c < unat l\<close> show ?thesis by (simp add: unat_u32_add)
  qed simp
qed

lemma do_sem_give_waiter:
  assumes "queues_ok k" and "waitq k (sem_wait_q s) = t # ts"
  shows "\<exists>k'. do_sem_give s k = (s, k') \<and> queues_ok k' \<and> current k' = current k
    \<and> waitq k' = (waitq k)(sem_wait_q s := ts) \<and> ret_of k' = (ret_of k)(t := 0)"
proof -
  obtain k1 where "z_unpend_first_thread (sem_wait_q s) k = (Some t, k1)"
    "queues_ok (z_set_thread_return_value t 0 (z_ready_thread t k1))"
    "waitq (z_set_thread_return_value t 0 (z_ready_thread t k1)) = (waitq k)(sem_wait_q s := ts)"
    "ret_of (z_set_thread_return_value t 0 (z_ready_thread t k1)) = (ret_of k)(t := 0)"
    "current (z_set_thread_return_value t 0 (z_ready_thread t k1)) = current k"
    by (rule wq.hand_over [OF assms, where v = 0]) (rule that)
  then show ?thesis by (simp add: do_sem_give_def)
qed

section \<open>Correctness\<close>

text \<open>
  C19. Giving a semaphore is the give of the abstract semaphore: the first waiter gets the
  unit and the return value 0, or, with nobody waiting, the count goes up, but not above the limit.
  The invariants of the semaphore and of the kernel queues are kept.\<close>

theorem k_sem_give_refines:
  assumes "queues_ok k" and "sem_inv s k" and "pended_on (threads k (current k)) = None"
  shows "\<exists>s' k'. k_sem_give s k = (s', k') \<and> queues_ok k' \<and> sem_inv s' k'
    \<and> sem_abs s' k' = spec_give (unat (sem_limit s)) (sem_abs s k)
    \<and> (\<forall>t ts. waitq k (sem_wait_q s) = t # ts \<longrightarrow> k_sem_take_resume t k' = 0)"
proof (cases "waitq k (sem_wait_q s)")
  case Nil
  then have "do_sem_give s k = (increment_count_up_to_limit s, k)"
    by (simp add: do_sem_give_def wq.unpend_none)
  moreover have "unat (sem_count s + (if sem_count s \<noteq> sem_limit s then 1 else 0))
      = min (unat (sem_count s) + 1) (unat (sem_limit s))"
    using assms(2) by (intro unat_inc_limit) (simp add: sem_inv_def)
  ultimately show ?thesis
    using assms(1) Nil
    by (simp add: k_sem_give_def queues_ok_reschedule sem_inv_def sem_abs_def
        increment_count_up_to_limit_def word_le_nat_alt)
next
  case (Cons t ts)
  obtain k' where k': "do_sem_give s k = (s, k')" "queues_ok k'" "current k' = current k"
    "waitq k' = (waitq k)(sem_wait_q s := ts)" "ret_of k' = (ret_of k)(t := 0)"
    using do_sem_give_waiter [OF assms(1) Cons] by blast
  have "t \<noteq> current k"
    using queues_okD(3) [OF assms(1), of t "sem_wait_q s"] Cons assms(3) by auto
  then have "ret_of (z_reschedule k') t = 0" using k'(3,5) by (simp add: reschedule_ret)
  moreover have "waitq (z_reschedule k') (sem_wait_q s) = ts" using fun_cong [OF k'(4)] by simp
  ultimately show ?thesis
    using k'(1,2) Cons assms(2)
    by (simp add: k_sem_give_def queues_ok_reschedule sem_inv_def sem_abs_def k_sem_take_resume_def ret_of_def)
qed

definition demo_sem :: sem where
  "demo_sem = \<lparr>sem_count = 0, sem_limit = 5, sem_wait_q = 7\<rparr>"

theorem k_sem_give_refines_witness:
  "\<exists>s' k'. k_sem_give demo_sem demo_kernel = (s', k') \<and> queues_ok k' \<and> sem_abs s' k' = (0, [3])
     \<and> k_sem_take_resume 2 k' = 0"
proof -
  have "sem_inv demo_sem demo_kernel" by (simp add: sem_inv_def demo_sem_def)
  from k_sem_give_refines [OF demo_queues_ok this] show ?thesis
    by (auto simp: demo_sel demo_sem_def sem_abs_def)
qed

text \<open>Taking a semaphore never lets more takers through than there are units: it takes a unit
  and returns 0, returns \<open>-EBUSY\<close> without waiting, or pends the calling thread on the wait queue
  in order of priority; a wait that ends without a give (a timeout) returns \<open>-EAGAIN\<close>.\<close>

theorem k_sem_take_spec:
  assumes "queues_ok k" and "sem_inv s k" and "pended_on (threads k (current k)) = None"
    and "current k \<noteq> idle_thread k"
  shows "case k_sem_take s timeout k of
      (Done v, s', k') \<Rightarrow> k' = k \<and> sem_inv s' k
        \<and> (if sem_count s > 0 then v = 0 \<and> unat (sem_count s') + 1 = unat (sem_count s)
           else v = - EBUSY \<and> timeout = K_NO_WAIT \<and> s' = s)
    | (Blocked, s', k') \<Rightarrow> s' = s \<and> sem_count s = 0 \<and> timeout \<noteq> K_NO_WAIT \<and> queues_ok k' \<and> sem_inv s k'
        \<and> waitq k' (sem_wait_q s) = priq_insert k (current k) (waitq k (sem_wait_q s))
        \<and> k_sem_take_resume (current k) k' = - EAGAIN"
proof (cases "sem_count s > 0")
  case True
  then have "unat (sem_count s - 1) + 1 = unat (sem_count s)"
    by (simp add: unat_minus_one word_gt_0 unat_gt_0 Suc_leI)
  moreover have "sem_count s - 1 \<le> sem_limit s"
    using assms(2) calculation by (simp add: sem_inv_def word_le_nat_alt)
  moreover have "waitq k (sem_wait_q s) = []" using assms(2) True by (auto simp: sem_inv_def)
  ultimately show ?thesis using True by (simp add: k_sem_take_def sem_inv_def)
next
  case False
  then have z: "sem_count s = 0" by (simp add: word_gt_0)
  let ?p = "pend (current k) (Some (sem_wait_q s)) timeout k"
  have "current k \<notin> set (waitq k (sem_wait_q s))"
    using queues_okD(3) [OF assms(1)] assms(3) by simp
  then have "waitq ?p (sem_wait_q s) = priq_insert k (current k) (waitq k (sem_wait_q s))"
    by (simp add: pend_lists [OF assms(1)] remove1_idem)
  moreover have "queues_ok ?p" by (rule queues_ok_pend [OF assms(1,3,4)])
  ultimately show ?thesis using z
    by (auto simp: k_sem_take_def z_pend_curr_def queues_ok_swap sem_inv_def k_sem_take_resume_def)
qed

theorem k_sem_take_spec_witness:
  "\<exists>k'. k_sem_take demo_sem K_FOREVER demo_kernel = (Blocked, demo_sem, k') \<and> waitq k' 7 = [2, 3, 4]
     \<and> k_sem_take_resume 4 k' = - 11"
proof -
  have "sem_inv demo_sem demo_kernel" by (simp add: sem_inv_def demo_sem_def)
  from k_sem_take_spec [OF demo_queues_ok this, of K_FOREVER] show ?thesis
    by (auto simp: demo_sel demo_sem_def k_sem_take_def K_FOREVER_def K_NO_WAIT_def EAGAIN_def
        z_is_t1_higher_prio_than_t2_def)
qed

end
