(* ===== verification/KMutex.thy ===== *)
theory KMutex
  imports KSem
begin

text \<open>
  Mutexes with priority inheritance, \<^verbatim>\<open>kernel/mutex.c\<close>, with
  \<^verbatim>\<open>CONFIG_PRIORITY_CEILING\<close> 0. \<^verbatim>\<open>k_mutex_lock\<close> is split where it
  pends; \<open>k_mutex_lock_resume\<close> is the rest, run by the same thread later. A use
  of the owner of an unowned mutex is a null dereference: \<open>None\<close>.
\<close>

record mutex =
  mx_owner :: "tid option"
  mx_lock_count :: u32
  mx_owner_orig_prio :: int
  mx_wait_q :: wqid

definition k_mutex_init :: "wqid \<Rightarrow> int \<Rightarrow> 'a kernel_scheme \<Rightarrow> mutex \<times> 'a kernel_scheme" where
  "k_mutex_init w junk k =
     (\<lparr>mx_owner = None, mx_lock_count = 0, mx_owner_orig_prio = junk, mx_wait_q = w\<rparr>, set_list (WaitQ w) [] k)"

definition CONFIG_PRIORITY_CEILING :: int where "CONFIG_PRIORITY_CEILING = 0"

definition z_get_new_prio_with_ceiling :: "int \<Rightarrow> int" where
  "z_get_new_prio_with_ceiling p = (if p \<ge> CONFIG_PRIORITY_CEILING then p else CONFIG_PRIORITY_CEILING)"

definition new_prio_for_inheritance :: "int \<Rightarrow> int \<Rightarrow> int" where
  "new_prio_for_inheritance target limit =
     z_get_new_prio_with_ceiling (if z_is_prio_higher target limit then target else limit)"

definition adjust_owner_prio :: "mutex \<Rightarrow> int \<Rightarrow> 'a kernel_scheme \<Rightarrow> 'a kernel_scheme option" where
  "adjust_owner_prio mx new_prio k =
     (case mx_owner mx of None \<Rightarrow> None
      | Some ow \<Rightarrow> Some (if tprio k ow \<noteq> new_prio then z_thread_priority_set ow new_prio k else k))"

definition k_mutex_lock ::
  "mutex \<Rightarrow> int \<Rightarrow> 'a kernel_scheme \<Rightarrow> (int outcome \<times> mutex \<times> 'a kernel_scheme) option" where
  "k_mutex_lock mx timeout k =
     (let k = z_sched_lock k in
      if mx_lock_count mx = 0 \<or> mx_owner mx = Some (current k)
      then (let mx' = mx\<lparr>mx_owner_orig_prio := (if mx_lock_count mx = 0 then tprio k (current k) else mx_owner_orig_prio mx),
                         mx_lock_count := mx_lock_count mx + 1, mx_owner := Some (current k)\<rparr>
            in Some (Done 0, mx', k_sched_unlock k))
      else if timeout = K_NO_WAIT then Some (Done (- EBUSY), mx, k_sched_unlock k)
      else (case mx_owner mx of None \<Rightarrow> None
        | Some ow \<Rightarrow>
            let new_prio = new_prio_for_inheritance (tprio k (current k)) (tprio k ow) in
            case (if z_is_prio_higher new_prio (tprio k ow) then adjust_owner_prio mx new_prio k else Some k) of
              None \<Rightarrow> None
            | Some k \<Rightarrow> Some (Blocked, mx, z_pend_curr (Some (mx_wait_q mx)) timeout k)))"

definition k_mutex_lock_resume ::
  "tid \<Rightarrow> mutex \<Rightarrow> 'a kernel_scheme \<Rightarrow> (int \<times> mutex \<times> 'a kernel_scheme) option" where
  "k_mutex_lock_resume t mx k =
     (if swap_retval (threads k t) = 0 then Some (0, mx, k_sched_unlock k)
      else (let new_prio = mx_owner_orig_prio mx;
                new_prio = (case waitq k (mx_wait_q mx) of [] \<Rightarrow> new_prio
                            | waiter # _ \<Rightarrow> new_prio_for_inheritance (tprio k waiter) new_prio)
            in case adjust_owner_prio mx new_prio k of None \<Rightarrow> None
               | Some k \<Rightarrow> Some (- EAGAIN, mx, k_sched_unlock k)))"

definition k_mutex_unlock :: "mutex \<Rightarrow> 'a kernel_scheme \<Rightarrow> (mutex \<times> 'a kernel_scheme) option" where
  "k_mutex_unlock mx k =
     (let k = z_sched_lock k in
      if mx_lock_count mx - 1 \<noteq> 0
      then Some (mx\<lparr>mx_lock_count := mx_lock_count mx - 1\<rparr>, k_sched_unlock k)
      else case adjust_owner_prio mx (mx_owner_orig_prio mx) k of None \<Rightarrow> None
      | Some k \<Rightarrow>
        (case z_unpend_first_thread (mx_wait_q mx) k of
           (Some t, k) \<Rightarrow>
             let k = z_set_thread_return_value t 0 (z_ready_thread t k);
                 mx = mx\<lparr>mx_owner := Some t, mx_owner_orig_prio := tprio k t\<rparr>
             in Some (mx, k_sched_unlock k)
         | (None, k) \<Rightarrow> Some (mx\<lparr>mx_owner := None, mx_lock_count := 0\<rparr>, k_sched_unlock k)))"

section \<open>Changing a priority\<close>

lemma queues_ok_prio:
  assumes "queues_ok k" and "z_is_thread_ready k t \<Longrightarrow> t \<in> set (runq k)"
  shows "queues_ok (z_thread_priority_set t p k)"
proof (cases "z_is_thread_ready k t")
  case False
  then have n: "t \<notin> set (runq k)" using queues_okD(5) [OF assms(1)] by blast
  let ?k = "upd_thread t (\<lambda>th. th\<lparr>prio := s8 p\<rparr>) k"
  have "queues_ok ?k"
    using n by (intro queues_ok_same [OF assms(1)]) auto
  with False show ?thesis by (simp add: z_thread_priority_set_def Let_def)
next
  case True
  note D = queues_okD [OF assms(1)] and t = assms(2) [OF True]
  let ?u = "upd_thread t (\<lambda>th. th\<lparr>prio := s8 p\<rparr>) (z_priq_dumb_remove t k)"
  let ?k = "z_priq_dumb_add RunQ t ?u"
  have nt: "t \<notin> set (remove1 t (runq k))" using D(1) [of RunQ] by simp
  have nw: "t \<notin> set (waitq k v)" for v using t queues_ok_waiting(1) [OF assms(1)] by blast
  have "map (tprio ?u) (remove1 t (runq k)) = map (tprio k) (remove1 t (runq k))"
    using nt by (auto intro!: map_cong)
  moreover have "sorted (map (tprio k) (remove1 t (runq k)))" by (rule sorted_remove1_map [OF D(6)])
  ultimately have "sorted (map (tprio ?u) (remove1 t (runq k)))" by (simp only:)
  then have "sorted (map (tprio ?u) (priq_insert ?u t (remove1 t (runq k))))"
    by (rule sorted_priq_insert)
  then have so: "sorted (map (tprio ?k) (runq ?k))" by simp
  have set: "set (runq ?k) = set (runq k)" using t D(1) [of RunQ] by auto
  have wq: "waitq ?k v = waitq k v" for v using nw by (simp add: remove1_idem)
  have di: "distinct (qlists ?k l)" for l
    using D(1) [of l] D(1) nt by (cases l) (simp_all add: distinct_priq_insert)
  have "idle_thread ?k = idle_thread k" by simp
  then have id: "idle_thread ?k \<notin> set (qlists ?k l)" for l
    using D(7) set by (cases l) (simp_all add: wq del: priq_sel)
  have th: "tstate ?k x = tstate k x \<and> pended_on (threads ?k x) = pended_on (threads k x)" for x by simp
  have "timeout_list ?k = timeout_list k" by simp
  then have "z_is_thread_ready ?k x = z_is_thread_ready k x" for x by (simp only: ready_def2 th)
  moreover have "pended_on (threads k x) \<noteq> None \<longrightarrow> F_PENDING \<in> tstate k x" for x using D(4) by auto
  ultimately have "queues_ok ?k"
    using D(2,3,5) set wq so di id th unfolding queues_ok_def by (simp del: priq_sel upd_thread_sel)
  then have "queues_ok (update_cache True ?k)" by (simp only: queues_ok_update_cache)
  then show ?thesis using True
    by (auto simp: z_thread_priority_set_def Let_def intro: queues_ok_reschedule)
qed

lemma prio_set_sel [simp]:
  "waitq (z_thread_priority_set t p k) w = waitq k w" if "z_is_thread_ready k t \<Longrightarrow> t \<notin> set (waitq k w)"
  using that by (auto simp: z_thread_priority_set_def Let_def remove1_idem)

lemma prio_set_locked:
  assumes "sched_locked (threads k (current k)) \<noteq> 0"
  shows "current (z_thread_priority_set t p k) = current k"
    and "threads (z_thread_priority_set t p k) = (threads k)(t := (threads k t)\<lparr>prio := s8 p\<rparr>)"
    and "timeout_list (z_thread_priority_set t p k) = timeout_list k"
    and "idle_thread (z_thread_priority_set t p k) = idle_thread k"
  using assms by (auto simp: z_thread_priority_set_def Let_def)

section \<open>The scheduler lock\<close>

lemma sched_lock_sel [simp]:
  "current (z_sched_lock k) = current k" "qlists (z_sched_lock k) = qlists k"
  "timeout_list (z_sched_lock k) = timeout_list k" "idle_thread (z_sched_lock k) = idle_thread k"
  "tprio (z_sched_lock k) t = tprio k t" "tstate (z_sched_lock k) t = tstate k t"
  "pended_on (threads (z_sched_lock k) t) = pended_on (threads k t)"
  "sched_locked (threads (z_sched_lock k) (current k)) = sched_locked (threads k (current k)) - 1"
  "ret_of (z_sched_lock k) = ret_of k"
  by (simp_all add: z_sched_lock_def ret_of_def fun_eq_iff)

lemma queues_ok_sched_lock: "queues_ok k \<Longrightarrow> queues_ok (z_sched_lock k)"
  by (erule queues_ok_same) simp_all

lemma queues_ok_sched_unlock: "queues_ok k \<Longrightarrow> queues_ok (k_sched_unlock k)"
  unfolding k_sched_unlock_def
  by (intro queues_ok_reschedule, subst queues_ok_update_cache, erule queues_ok_same) simp_all

lemma sched_unlock_sel [simp]:
  "qlists (k_sched_unlock k) = qlists k" "timeout_list (k_sched_unlock k) = timeout_list k"
  "tprio (k_sched_unlock k) t = tprio k t" "pended_on (threads (k_sched_unlock k) t) = pended_on (threads k t)"
  by (simp_all add: k_sched_unlock_def z_reschedule_def)

lemma sched_unlock_ret: "t \<noteq> current k \<Longrightarrow> ret_of (k_sched_unlock k) t = ret_of k t"
  by (simp add: k_sched_unlock_def z_reschedule_def ret_of_def)

section \<open>Correctness\<close>

text \<open>
  A mutex is unowned exactly when its lock count is zero, threads wait only
  for an owned mutex, and the owner does not wait for it.
\<close>

definition mutex_inv :: "mutex \<Rightarrow> 'a kernel_scheme \<Rightarrow> bool" where
  "mutex_inv mx k \<longleftrightarrow> (mx_owner mx = None \<longleftrightarrow> mx_lock_count mx = 0)
     \<and> (waitq k (mx_wait_q mx) \<noteq> [] \<longrightarrow> mx_owner mx \<noteq> None)
     \<and> (\<forall>ow. mx_owner mx = Some ow \<longrightarrow> ow \<notin> set (waitq k (mx_wait_q mx)))"

text \<open>The calling thread: it runs, with the scheduler unlocked, and can be pended.\<close>

definition caller_ok :: "'a kernel_scheme \<Rightarrow> bool" where
  "caller_ok k \<longleftrightarrow> pended_on (threads k (current k)) = None \<and> current k \<noteq> idle_thread k
     \<and> sched_locked (threads k (current k)) = 0"

text \<open>Every ready thread other than the idle thread is in the run queue, and priorities fit in 8 bits.\<close>

definition ready_queued :: "'a kernel_scheme \<Rightarrow> tid \<Rightarrow> bool" where
  "ready_queued k t \<longleftrightarrow> (z_is_thread_ready k t \<longrightarrow> t \<in> set (runq k)) \<and> - 128 \<le> tprio k t \<and> tprio k t < 128"

text \<open>Locking a free mutex, or one the thread owns already, succeeds at once: the thread is the
  owner, the lock count goes up by one, and its original priority is recorded at the first lock.\<close>

theorem k_mutex_lock_owned:
  assumes "queues_ok k" and "mutex_inv mx k" and "caller_ok k"
    and "mx_lock_count mx = 0 \<or> mx_owner mx = Some (current k)" and "mx_lock_count mx \<noteq> - 1"
  shows "\<exists>mx' k'. k_mutex_lock mx timeout k = Some (Done 0, mx', k') \<and> queues_ok k' \<and> mutex_inv mx' k'
    \<and> mx_owner mx' = Some (current k) \<and> mx_lock_count mx' = mx_lock_count mx + 1
    \<and> mx_owner_orig_prio mx' = (if mx_lock_count mx = 0 then tprio k (current k) else mx_owner_orig_prio mx)"
proof -
  have "current k \<notin> set (waitq k (mx_wait_q mx))"
    using queues_okD(3) [OF assms(1)] assms(3) by (simp add: caller_ok_def)
  moreover have "mx_lock_count mx + 1 \<noteq> 0" using assms(5) by (metis add.commute add.inverse_unique)
  ultimately show ?thesis
    using assms queues_ok_sched_unlock [OF queues_ok_sched_lock [OF assms(1)]]
    by (auto simp: k_mutex_lock_def Let_def mutex_inv_def)
qed

text \<open>An example: the running thread 4 of the example kernel and a mutex with wait queue 7.\<close>

definition demo_mutex :: "tid option \<Rightarrow> u32 \<Rightarrow> wqid \<Rightarrow> mutex" where
  "demo_mutex ow n w = \<lparr>mx_owner = ow, mx_lock_count = n, mx_owner_orig_prio = 5, mx_wait_q = w\<rparr>"

lemma demo_caller: "caller_ok demo_kernel" "ready_queued demo_kernel 4"
  by (simp_all add: caller_ok_def ready_queued_def demo_kernel_def base_thread_def)

theorem k_mutex_lock_owned_witness:
  "\<exists>mx' k'. k_mutex_lock (demo_mutex None 0 9) K_FOREVER demo_kernel = Some (Done 0, mx', k')
     \<and> mx_owner mx' = Some 4 \<and> mx_lock_count mx' = 1"
proof -
  have "mutex_inv (demo_mutex None 0 9) demo_kernel" by (simp add: mutex_inv_def demo_mutex_def demo_sel)
  from k_mutex_lock_owned [OF demo_queues_ok this demo_caller(1), of K_FOREVER] show ?thesis
    by (auto simp: demo_mutex_def demo_sel)
qed

text \<open>
  A thread that has to wait for a mutex lends the owner its priority: afterwards the owner's
  priority is at least the waiter's (capped at the ceiling), the thread is queued, and the mutex
  itself is unchanged. Without waiting the call returns \<open>-EBUSY\<close>.\<close>

theorem k_mutex_lock_contended:
  assumes "queues_ok k" and "mutex_inv mx k" and "caller_ok k"
    and "mx_lock_count mx \<noteq> 0" and "mx_owner mx = Some ow" and "ow \<noteq> current k"
    and "ready_queued k ow" and "- 128 \<le> tprio k (current k)" "tprio k (current k) < 128"
  shows "\<exists>r k'. k_mutex_lock mx timeout k = Some (r, mx, k') \<and> queues_ok k'
    \<and> (if timeout = K_NO_WAIT then r = Done (- EBUSY) \<and> mutex_inv mx k' \<and> tprio k' ow = tprio k ow
       else r = Blocked \<and> mutex_inv mx k' \<and> current k \<in> set (waitq k' (mx_wait_q mx))
         \<and> tprio k' ow \<le> max CONFIG_PRIORITY_CEILING (tprio k (current k))
         \<and> tprio k' ow \<le> max CONFIG_PRIORITY_CEILING (tprio k ow))"
proof (cases "timeout = K_NO_WAIT")
  case True
  then show ?thesis
    using assms queues_ok_sched_unlock [OF queues_ok_sched_lock [OF assms(1)]]
    by (simp add: k_mutex_lock_def Let_def mutex_inv_def)
next
  case False
  let ?l = "z_sched_lock k" and ?c = "current k" and ?w = "mx_wait_q mx"
  define np where np: "np = new_prio_for_inheritance (tprio k ?c) (tprio k ow)"
  define k1 where k1: "k1 = (if np < tprio k ow \<and> tprio k ow \<noteq> np then z_thread_priority_set ow np ?l else ?l)"
  have lk: "sched_locked (threads ?l (current ?l)) \<noteq> 0" using assms(3) by (simp add: caller_ok_def)
  have ready: "z_is_thread_ready ?l ow \<Longrightarrow> ow \<in> set (runq ?l)"
    using assms(7) by (simp add: ready_queued_def ready_def2)
  have ow: "ow \<notin> set (waitq k ?w)" using assms(2,5) by (simp add: mutex_inv_def)
  have q1: "queues_ok k1" unfolding k1
    using queues_ok_prio [OF queues_ok_sched_lock [OF assms(1)] ready] queues_ok_sched_lock [OF assms(1)] by simp
  have w1: "waitq k1 ?w = waitq k ?w" unfolding k1 using ow by simp
  have c1: "current k1 = ?c" "idle_thread k1 = idle_thread k" "pended_on (threads k1 ?c) = None"
    using assms(3) prio_set_locked [OF lk] by (auto simp: k1 caller_ok_def)
  have npr: "- 128 \<le> np" "np < 128"
    using assms(7-9) by (auto simp: np new_prio_for_inheritance_def z_get_new_prio_with_ceiling_def
        CONFIG_PRIORITY_CEILING_def ready_queued_def)
  have pr: "tprio k1 ow = (if np < tprio k ow then np else tprio k ow)"
    using prio_set_locked(2) [OF lk] npr by (auto simp: k1 s8_id)
  have run: "k_mutex_lock mx timeout k = Some (Blocked, mx, z_pend_curr (Some ?w) timeout k1)"
    using assms(4-6) False
    by (auto simp: k_mutex_lock_def Let_def k1 np adjust_owner_prio_def z_is_prio_higher_def)
  let ?p = "pend ?c (Some ?w) timeout k1"
  have qp: "queues_ok ?p" using queues_ok_pend [OF q1] c1 assms(3) by (simp add: caller_ok_def)
  have wp: "set (waitq ?p ?w) = insert ?c (set (waitq k ?w))"
    using queues_okD(3) [OF q1, of ?c ?w] c1(3) by (simp add: pend_lists [OF q1] w1 remove1_idem)
  have "tprio (z_pend_curr (Some ?w) timeout k1) ow = tprio k1 ow"
    using c1(1) assms(6) by (simp add: z_pend_curr_def pend_eq [OF q1])
  moreover have "np \<le> max CONFIG_PRIORITY_CEILING (tprio k ?c)" "np \<le> max CONFIG_PRIORITY_CEILING (tprio k ow)"
    "tprio k ow \<le> np \<Longrightarrow> tprio k ow \<le> max CONFIG_PRIORITY_CEILING (tprio k ?c)"
    by (auto simp: np new_prio_for_inheritance_def z_get_new_prio_with_ceiling_def z_is_prio_higher_def split: if_splits)
  moreover have "mutex_inv mx (z_pend_curr (Some ?w) timeout k1)"
    using assms(2,5,6) c1(1) wp by (auto simp: mutex_inv_def z_pend_curr_def)
  ultimately show ?thesis
    using run False qp wp c1(1) pr by (auto simp: z_pend_curr_def queues_ok_swap)
qed


text \<open>Thread 4 finds the mutex owned by thread 5, which is in the run queue with priority 9.\<close>

definition demo_contended :: kernel where
  "demo_contended = demo_kernel\<lparr>threads := (threads demo_kernel)(5 := base_thread\<lparr>prio := 9, thread_state := {F_QUEUED}\<rparr>),
     qlists := (qlists demo_kernel)(RunQ := [4, 5])\<rparr>"

theorem k_mutex_lock_contended_witness:
  "\<exists>k'. k_mutex_lock (demo_mutex (Some 5) 1 7) K_FOREVER demo_contended = Some (Blocked, demo_mutex (Some 5) 1 7, k')
     \<and> tprio demo_contended 5 = 9 \<and> tprio k' 5 \<le> 5 \<and> 4 \<in> set (waitq k' 7)"
proof -
  have q: "queues_ok demo_contended"
    by (auto simp: queues_ok_def demo_contended_def demo_kernel_def base_thread_def ready_def2)
  have m: "mutex_inv (demo_mutex (Some 5) 1 7) demo_contended"
    by (simp add: mutex_inv_def demo_mutex_def demo_contended_def demo_sel)
  have c: "caller_ok demo_contended" "ready_queued demo_contended 5" "current demo_contended = 4"
    "tprio demo_contended 4 = 5" "tprio demo_contended 5 = 9"
    by (simp_all add: caller_ok_def ready_queued_def demo_contended_def demo_kernel_def base_thread_def)
  show ?thesis
    using k_mutex_lock_contended [OF q m c(1), of 5 K_FOREVER] c
    by (auto simp: demo_mutex_def K_FOREVER_def K_NO_WAIT_def CONFIG_PRIORITY_CEILING_def)
qed

text \<open>Restoring the owner's priority, as the first step of an unlock.\<close>

lemma restore_prio:
  assumes "queues_ok k" and "caller_ok k" and "mx_owner mx = Some (current k)" and "ready_queued k (current k)"
    and "- 128 \<le> p" "p < 128"
  obtains k1 where "adjust_owner_prio mx p (z_sched_lock k) = Some k1" and "queues_ok k1"
    and "current k1 = current k" and "\<And>w. waitq k1 w = waitq k w" and "tprio k1 (current k) = p"
    and "\<And>t. t \<noteq> current k \<Longrightarrow> tprio k1 t = tprio k t"
    and "pended_on (threads k1 (current k)) = None"
    and "\<And>t. t \<noteq> current k \<Longrightarrow> tstate k1 t = tstate k t" and "timeout_list k1 = timeout_list k"
proof -
  let ?l = "z_sched_lock k" and ?c = "current k"
  let ?k1 = "if tprio ?l ?c \<noteq> p then z_thread_priority_set ?c p ?l else ?l"
  have lk: "sched_locked (threads ?l (current ?l)) \<noteq> 0" using assms(2) by (simp add: caller_ok_def)
  have nw: "?c \<notin> set (waitq k w)" for w
    using queues_okD(3) [OF assms(1)] assms(2) by (simp add: caller_ok_def)
  have "z_is_thread_ready ?l ?c \<Longrightarrow> ?c \<in> set (runq ?l)"
    using assms(4) by (simp add: ready_queued_def ready_def2)
  then have "queues_ok ?k1"
    using queues_ok_prio [OF queues_ok_sched_lock [OF assms(1)]] queues_ok_sched_lock [OF assms(1)] by simp
  then show ?thesis
    using assms(2,3,5,6) nw prio_set_locked [OF lk]
    by (intro that [of ?k1]) (auto simp: adjust_owner_prio_def s8_id caller_ok_def)
qed

text \<open>
  C25. Unlocking undoes one lock. At the last one the owner gets its original priority back and
  the mutex passes to the first waiter, which holds it locked once, has 0 as the result of its lock call
  and is in the run queue, unless something else than the wait holds it back; with nobody waiting
  the mutex becomes free. The invariants are kept.\<close>

theorem k_mutex_unlock_hands_over:
  assumes "queues_ok k" and "mutex_inv mx k" and "caller_ok k" and "mx_owner mx = Some (current k)"
    and "ready_queued k (current k)" and "- 128 \<le> mx_owner_orig_prio mx" "mx_owner_orig_prio mx < 128"
  shows "\<exists>mx' k'. k_mutex_unlock mx k = Some (mx', k') \<and> queues_ok k' \<and> mutex_inv mx' k'
    \<and> (if mx_lock_count mx \<noteq> 1
       then mx' = mx\<lparr>mx_lock_count := mx_lock_count mx - 1\<rparr> \<and> waitq k' = waitq k
       else tprio k' (current k) = mx_owner_orig_prio mx
         \<and> (case waitq k (mx_wait_q mx) of
              [] \<Rightarrow> mx_owner mx' = None \<and> mx_lock_count mx' = 0
            | t # ts \<Rightarrow> mx_owner mx' = Some t \<and> mx_lock_count mx' = 1 \<and> mx_owner_orig_prio mx' = tprio k t
                \<and> waitq k' (mx_wait_q mx) = ts \<and> ret_of k' t = 0
                \<and> (tstate k t = {F_PENDING} \<and> distinct (timeout_list k) \<longrightarrow> t \<in> set (runq k') \<and> z_is_thread_ready k' t)))"
proof (cases "mx_lock_count mx = 1")
  case False
  moreover have "mx_lock_count mx - 1 \<noteq> 0" using False by simp
  ultimately show ?thesis
    using assms(2,4) queues_ok_sched_unlock [OF queues_ok_sched_lock [OF assms(1)]]
    by (simp add: k_mutex_unlock_def Let_def mutex_inv_def fun_eq_iff)
next
  case True
  let ?w = "mx_wait_q mx" and ?c = "current k"
  obtain k1 where k1: "adjust_owner_prio mx (mx_owner_orig_prio mx) (z_sched_lock k) = Some k1" "queues_ok k1"
    "current k1 = ?c" "\<And>w. waitq k1 w = waitq k w" "tprio k1 ?c = mx_owner_orig_prio mx"
    "\<And>t. t \<noteq> ?c \<Longrightarrow> tprio k1 t = tprio k t" "pended_on (threads k1 ?c) = None"
    "\<And>t. t \<noteq> ?c \<Longrightarrow> tstate k1 t = tstate k t" "timeout_list k1 = timeout_list k"
    by (rule restore_prio [OF assms(1,3-7)]) (rule that)
  show ?thesis
  proof (cases "waitq k ?w")
    case Nil
    then show ?thesis
      using True k1 queues_ok_sched_unlock [OF k1(2)]
      by (simp add: k_mutex_unlock_def Let_def wq.unpend_none mutex_inv_def)
  next
    case (Cons t ts)
    then have "waitq k1 ?w = t # ts" using k1(4) by simp
    then obtain k2 where k2: "z_unpend_first_thread ?w k1 = (Some t, k2)"
      "queues_ok (z_set_thread_return_value t 0 (z_ready_thread t k2))"
      "waitq (z_set_thread_return_value t 0 (z_ready_thread t k2)) = (waitq k1)(?w := ts)"
      "ret_of (z_set_thread_return_value t 0 (z_ready_thread t k2)) = (ret_of k1)(t := 0)"
      "current (z_set_thread_return_value t 0 (z_ready_thread t k2)) = current k1"
      by (rule wq.hand_over [OF k1(2), where v = 0]) (rule that)
    have tc: "t \<noteq> ?c" using assms(2,4) Cons by (auto simp: mutex_inv_def)
    have t: "t \<notin> set ts" using queues_okD(1) [OF assms(1), of "WaitQ ?w"] Cons by simp
    have p: "tprio k2 x = tprio k1 x" for x
      using k2(1) \<open>waitq k1 ?w = t # ts\<close> by (auto simp: unpend_first_eq)
    let ?k3 = "z_set_thread_return_value t 0 (z_ready_thread t k2)"
    have run: "t \<in> set (runq (k_sched_unlock ?k3)) \<and> z_is_thread_ready (k_sched_unlock ?k3) t"
      if st: "tstate k t = {F_PENDING}" and d: "distinct (timeout_list k)"
    proof -
      have "k2 = snd (z_abort_thread_timeout t (z_unpend_thread_no_timeout t k1))"
        using k2(1) \<open>waitq k1 ?w = t # ts\<close> by (simp add: unpend_first_eq)
      moreover have "tstate k1 t = {F_PENDING}" "distinct (timeout_list k1)" using st d k1(8) [OF tc] k1(9) by simp_all
      ultimately have "z_is_thread_ready k2 t" by (simp add: ready_def2)
      then have "F_QUEUED \<in> tstate ?k3 t"
        by (simp add: z_ready_thread_def z_add_thread_to_ready_q_def z_set_thread_states_def z_set_thread_return_value_def)
      then have "t \<in> set (runq ?k3)" using queues_okD(2) [OF k2(2)] by blast
      then have "t \<in> set (runq (k_sched_unlock ?k3))" by (simp add: k_sched_unlock_def z_reschedule_def z_swap_def)
      then show ?thesis using queues_okD(5) [OF queues_ok_sched_unlock [OF k2(2)]] by blast
    qed
    show ?thesis
      using True k1(1,3,5) k1(6) [OF tc] k2 Cons tc t p queues_ok_sched_unlock [OF k2(2)] fun_cong [OF k2(3), of ?w] run
      by (simp add: k_mutex_unlock_def Let_def mutex_inv_def sched_unlock_ret)
  qed
qed


theorem k_mutex_unlock_hands_over_witness:
  "\<exists>mx' k'. k_mutex_unlock (demo_mutex (Some 4) 1 7) demo_kernel = Some (mx', k')
     \<and> mx_owner mx' = Some 2 \<and> waitq k' 7 = [3] \<and> ret_of k' 2 = 0 \<and> 2 \<in> set (runq k')"
proof -
  have "mutex_inv (demo_mutex (Some 4) 1 7) demo_kernel" by (simp add: mutex_inv_def demo_mutex_def demo_sel)
  moreover have "tstate demo_kernel 2 = {F_PENDING}" by (simp add: demo_kernel_def base_thread_def)
  ultimately show ?thesis using k_mutex_unlock_hands_over [OF demo_queues_ok _ demo_caller(1), of "demo_mutex (Some 4) 1 7"] demo_caller(2)
    by (auto simp: demo_mutex_def demo_sel)
qed

text \<open>
  A lock call that times out can dereference a null owner. When the timeout of the only waiter
  has fired and the owner unlocks before that waiter runs, the mutex has no owner; the waiter then
  resumes in the timed-out branch and adjusts the priority of \<^verbatim>\<open>mutex->owner\<close>.\<close>

theorem mutex_timeout_null_owner:
  assumes "caller_ok k" and "mx_owner mx = Some (current k)" and "mx_lock_count mx = 1"
    and "waitq k (mx_wait_q mx) = [t]" and "pended_on (threads k t) \<noteq> None"
    and "t \<noteq> current k" and "ret_of k t = - EAGAIN"
  shows "\<exists>mx' k'. k_mutex_unlock mx (z_thread_timeout t k) = Some (mx', k')
    \<and> mx_owner mx' = None \<and> k_mutex_lock_resume t mx' k' = None"
proof -
  let ?k = "z_thread_timeout t k" and ?w = "mx_wait_q mx"
  let ?l = "z_sched_lock ?k"
  let ?k1 = "if tprio ?l (current k) \<noteq> mx_owner_orig_prio mx
      then z_thread_priority_set (current k) (mx_owner_orig_prio mx) ?l else ?l"
  have k: "waitq ?k ?w = []" "current ?k = current k" "ret_of ?k t = - EAGAIN"
    "sched_locked (threads ?k (current k)) = 0"
    using assms(1,4-7) by (auto simp: z_thread_timeout_def Let_def ret_of_def caller_ok_def)
  have lk: "sched_locked (threads ?l (current ?l)) \<noteq> 0" using k(2,4) sched_lock_sel(8) [of ?k] by simp
  have "swap_retval (threads ?l t) = - EAGAIN" using k(3) by (simp add: ret_of_def z_sched_lock_def)
  then have k1: "waitq ?k1 ?w = []" "ret_of ?k1 t = - EAGAIN" "current ?k1 = current k"
    using k prio_set_locked [OF lk] assms(6) by (auto simp: ret_of_def)
  have "k_mutex_unlock mx ?k = Some (mx\<lparr>mx_owner := None, mx_lock_count := 0\<rparr>, k_sched_unlock ?k1)"
    using assms(2,3) k(2) k1(1) by (simp add: k_mutex_unlock_def Let_def adjust_owner_prio_def wq.unpend_none)
  moreover have "swap_retval (threads (k_sched_unlock ?k1) t) = - EAGAIN"
    using sched_unlock_ret [of t ?k1] k1(2,3) assms(6) by (simp only: ret_of_def) simp
  ultimately show ?thesis
    by (simp add: k_mutex_lock_resume_def adjust_owner_prio_def EAGAIN_def Let_def)
qed


definition demo_one_waiter :: kernel where
  "demo_one_waiter = demo_kernel\<lparr>threads := (threads demo_kernel)(3 := base_thread),
     qlists := (qlists demo_kernel)(WaitQ 7 := [2])\<rparr>"

theorem mutex_timeout_null_owner_witness:
  "\<exists>mx' k'. k_mutex_unlock (demo_mutex (Some 4) 1 7) (z_thread_timeout 2 demo_one_waiter) = Some (mx', k')
     \<and> k_mutex_lock_resume 2 mx' k' = None"
  using mutex_timeout_null_owner [of demo_one_waiter "demo_mutex (Some 4) 1 7" 2]
  by (auto simp: demo_mutex_def demo_one_waiter_def caller_ok_def demo_kernel_def base_thread_def ret_of_def EAGAIN_def)

end
