(* ===== verification/KClock.thy ===== *)
theory KClock
  imports KSched
begin

text \<open>
  \<^verbatim>\<open>z_clock_announce\<close> of \<^verbatim>\<open>kernel/timeout.c\<close>: the driver announces that
  ticks have passed and the callbacks of the expired timeouts run. A timeout's
  callback is a function pointer in its \<^verbatim>\<open>struct _timeout\<close>: \<open>fn t\<close> is the call
  of the callback of \<open>t\<close>. The loop has fuel, as callbacks may add timeouts; the
  fuel that is enough is proved.
\<close>

fun announce_loop ::
  "nat \<Rightarrow> (toid \<Rightarrow> 'a kernel_scheme \<Rightarrow> 'a kernel_scheme) \<Rightarrow> 'a kernel_scheme \<Rightarrow> 'a kernel_scheme option" where
  "announce_loop 0 fn k = None"
| "announce_loop (Suc n) fn k =
     (case to_first k of None \<Rightarrow> Some k
      | Some t \<Rightarrow>
          if dticks k t \<le> announce_remaining k
          then (let dt = dticks k t;
                    k = k\<lparr>curr_tick := nat ((int (curr_tick k) + dt) mod 2 ^ 64),
                          announce_remaining := announce_remaining k - dt,
                          dticks := (dticks k)(t := 0)\<rparr>;
                    k = remove_timeout t k
                in announce_loop n fn (fn t k))
          else Some k)"

definition z_clock_announce ::
  "nat \<Rightarrow> (toid \<Rightarrow> 'a kernel_scheme \<Rightarrow> 'a kernel_scheme) \<Rightarrow> int \<Rightarrow> 'a kernel_scheme \<Rightarrow> 'a kernel_scheme option" where
  "z_clock_announce n fn ticks k =
     (let k = z_time_slice ticks k in
      case announce_loop n fn (k\<lparr>announce_remaining := ticks\<rparr>) of None \<Rightarrow> None
      | Some k \<Rightarrow>
        (let k = (case to_first k of None \<Rightarrow> k
                  | Some t \<Rightarrow> k\<lparr>dticks := (dticks k)(t := dticks k t - announce_remaining k)\<rparr>);
             k = k\<lparr>curr_tick := nat ((int (curr_tick k) + announce_remaining k) mod 2 ^ 64),
                   announce_remaining := 0\<rparr>
         in Some (z_clock_set_timeout (next_timeout k) False k)))"

section \<open>One round of the loop\<close>

text \<open>The state a callback is called in: the timeout is out of the queue and its time is the present.\<close>

definition fire_state :: "toid \<Rightarrow> 'a kernel_scheme \<Rightarrow> 'a kernel_scheme" where
  "fire_state t k = remove_timeout t (k\<lparr>curr_tick := nat ((int (curr_tick k) + dticks k t) mod 2 ^ 64),
     announce_remaining := announce_remaining k - dticks k t, dticks := (dticks k)(t := 0)\<rparr>)"

lemma fire_state_sel [simp]:
  "curr_tick (fire_state t k) = nat ((int (curr_tick k) + dticks k t) mod 2 ^ 64)"
  "announce_remaining (fire_state t k) = announce_remaining k - dticks k t"
  "more (fire_state t k) = more k"
  by (simp_all add: fire_state_def remove_timeout_def Let_def split: option.split)

lemma announce_loop_round:
  "announce_loop (Suc n) fn k =
     (case timeout_list k of [] \<Rightarrow> Some k
      | t # _ \<Rightarrow> if dticks k t \<le> announce_remaining k then announce_loop n fn (fn t (fire_state t k)) else Some k)"
  by (simp add: to_first_def fire_state_def Let_def split: list.split)

lemma fire_state_timeouts:
  assumes "timeouts_ok k" and "timeout_list k = t # ts"
  shows "timeouts_ok (fire_state t k)" and "timeout_list (fire_state t k) = ts"
    and "expiries (fire_state t k) = map (\<lambda>(x, y). (x, y - dticks k t)) (tl (expiries k))"
proof -
  let ?k = "k\<lparr>curr_tick := nat ((int (curr_tick k) + dticks k t) mod 2 ^ 64),
     announce_remaining := announce_remaining k - dticks k t, dticks := (dticks k)(t := 0)\<rparr>"
  have d: "distinct (t # ts)" "\<forall>x\<in>set (t # ts). 0 \<le> dticks k x" "\<forall>(x, y)\<in>set (expiries k). y \<le> INT_MAX"
    using assms by (auto simp: timeouts_ok_def)
  have e: "expiries k = (t, dticks k t) # abs_times (dticks k) (0 + dticks k t) ts"
    using assms(2) by (simp add: expiries_def)
  have c: "abs_times ((dticks k)(t := 0)) 0 ts = abs_times (dticks k) 0 ts"
    using d(1) by (intro abs_times_cong) auto
  then have e': "expiries ?k = (t, 0) # abs_times (dticks k) 0 ts" using assms(2) by (simp add: expiries_def)
  have "\<forall>(x, y)\<in>set (abs_times (dticks k) 0 ts). y + dticks k t \<le> INT_MAX"
    using d(3) unfolding e abs_times_shift by fastforce
  then have "\<forall>(x, y)\<in>set (abs_times (dticks k) 0 ts). y \<le> INT_MAX" using d(2) by fastforce
  then have ok: "timeouts_ok ?k"
    using d(1,2) e' assms(2) by (auto simp: timeouts_ok_def INT_MAX_def)
  note r = remove_timeout_expiries [OF ok, of t]
  show "timeouts_ok (fire_state t k)" using r(3) assms(2) by (simp add: fire_state_def)
  show tl: "timeout_list (fire_state t k) = ts" using r(2) assms(2) by (simp add: fire_state_def)
  have "filter (\<lambda>(x, _). x \<noteq> t) (abs_times (dticks k) 0 ts) = abs_times (dticks k) 0 ts"
    using d(1) fst_abs_times [of "dticks k" 0 ts]
    by (intro filter_True) (metis (mono_tags, lifting) case_prod_beta distinct.simps(2) image_eqI list.set_map)
  then have "expiries (fire_state t k) = abs_times (dticks k) 0 ts"
    using r(1) assms(2) e' by (simp add: fire_state_def)
  also have "\<dots> = map (\<lambda>(x, y). (x, y - dticks k t)) (tl (expiries k))"
    unfolding e abs_times_shift by (simp add: comp_def case_prod_beta)
  finally show "expiries (fire_state t k) = map (\<lambda>(x, y). (x, y - dticks k t)) (tl (expiries k))" .
qed


lemma time_slice_sel [simp]:
  "timeout_list (z_time_slice n k) = timeout_list k" "dticks (z_time_slice n k) = dticks k"
  "curr_tick (z_time_slice n k) = curr_tick k" "hw_elapsed (z_time_slice n k) = hw_elapsed k"
  by (simp_all add: z_time_slice_def z_move_thread_to_end_of_prio_q_def Let_def)

lemma expiries_cong: "timeout_list k = timeout_list k' \<Longrightarrow> dticks k = dticks k' \<Longrightarrow> expiries k = expiries k'"
  by (simp add: expiries_def)

lemma timeouts_ok_cong:
  "timeouts_ok k \<Longrightarrow> timeout_list k' = timeout_list k \<Longrightarrow> dticks k' = dticks k \<Longrightarrow> timeouts_ok k'"
  by (simp add: timeouts_ok_def expiries_def)

lemma expiries_ge: "timeouts_ok k \<Longrightarrow> (t, x) \<in> set (expiries k) \<Longrightarrow> 0 \<le> x"
  unfolding expiries_def timeouts_ok_def by (elim conjE) (drule abs_times_ge, auto)

lemma expiries_Cons:
  "timeout_list k = t # ts \<Longrightarrow> expiries k = (t, dticks k t) # abs_times (dticks k) (dticks k t) ts"
  by (simp add: expiries_def)

text \<open>The end of \<^verbatim>\<open>z_clock_announce\<close>: what is left of the announced ticks comes off the first delta.\<close>

lemma settle_timeouts:
  assumes "timeouts_ok k" and "0 \<le> r" and "\<And>t ts. timeout_list k = t # ts \<Longrightarrow> r < dticks k t"
    and "k' = (case to_first k of None \<Rightarrow> k | Some t \<Rightarrow> k\<lparr>dticks := (dticks k)(t := dticks k t - r)\<rparr>)"
  shows "timeouts_ok k' \<and> expiries k' = map (\<lambda>(t, x). (t, x - r)) (expiries k)"
proof (cases "timeout_list k")
  case Nil
  then show ?thesis using assms(1,4) by (simp add: to_first_def expiries_def)
next
  case (Cons t ts)
  have k': "k' = k\<lparr>dticks := (dticks k)(t := dticks k t - r)\<rparr>" using Cons assms(4) by (simp add: to_first_def)
  have d: "distinct (t # ts)" "\<forall>x\<in>set (t # ts). 0 \<le> dticks k x" using assms(1) Cons by (auto simp: timeouts_ok_def)
  have "abs_times ((dticks k)(t := dticks k t - r)) (dticks k t - r) ts = abs_times (dticks k) (dticks k t - r) ts"
    using d(1) by (intro abs_times_cong) auto
  also have "\<dots> = abs_times (dticks k) (dticks k t + (- r)) ts" by simp
  also have "\<dots> = map (\<lambda>(x, y). (x, y - r)) (abs_times (dticks k) (dticks k t) ts)"
    unfolding abs_times_shift by simp
  finally have e: "expiries k' = map (\<lambda>(t, x). (t, x - r)) (expiries k)"
    using Cons by (simp add: expiries_def k')
  have "\<forall>(x, y)\<in>set (expiries k'). y \<le> INT_MAX"
    using assms(1,2) unfolding e timeouts_ok_def by fastforce
  then show ?thesis using d assms(1) assms(3) [OF Cons] e Cons by (auto simp: timeouts_ok_def k')
qed

section \<open>Callbacks that may re-arm their timeout\<close>

definition due_now :: "'a kernel_scheme \<Rightarrow> nat" where
  "due_now k = length (filter (\<lambda>(_, x). x \<le> 0) (expiries k))"

lemma due_now_le: "due_now k \<le> length (timeout_list k)"
  unfolding due_now_def expiries_def by (metis fst_abs_times length_filter_le length_map)

text \<open>
  What the clock relies on: a callback keeps the queue well formed and the
  clock as it is, adds at most one timeout, and none that is due at once.
  \<open>inv\<close> is what the callbacks themselves rely on.
\<close>

locale bounded_callbacks =
  fixes fn :: "toid \<Rightarrow> 'a kernel_scheme \<Rightarrow> 'a kernel_scheme"
    and inv :: "'a kernel_scheme \<Rightarrow> bool"
  assumes fn_ok: "inv k \<Longrightarrow> timeouts_ok k \<Longrightarrow> t \<notin> set (timeout_list k) \<Longrightarrow> timeouts_ok (fn t k) \<and> inv (fn t k)"
    and fn_clock: "curr_tick (fn t k) = curr_tick k" "announce_remaining (fn t k) = announce_remaining k"
    and fn_len: "inv k \<Longrightarrow> timeouts_ok k \<Longrightarrow> t \<notin> set (timeout_list k) \<Longrightarrow>
      length (timeout_list (fn t k)) \<le> Suc (length (timeout_list k)) \<and> due_now (fn t k) \<le> due_now k"
    and inv_clock: "inv k \<Longrightarrow> inv (z_time_slice n k)" "inv k \<Longrightarrow> inv (k\<lparr>announce_remaining := r\<rparr>)"
      "inv k \<Longrightarrow> timeouts_ok k \<Longrightarrow> timeout_list k = t # ts \<Longrightarrow> inv (fire_state t k)"
begin

lemma loop_ends:
  assumes "inv k" and "timeouts_ok k" and "0 \<le> announce_remaining k" and "length (timeout_list k) \<le> N"
    and "nat (announce_remaining k) * Suc N + due_now k < n"
  shows "\<exists>k'. announce_loop n fn k = Some k' \<and> timeouts_ok k' \<and> inv k' \<and> 0 \<le> announce_remaining k'
    \<and> (\<forall>t ts. timeout_list k' = t # ts \<longrightarrow> announce_remaining k' < dticks k' t)
    \<and> (int (curr_tick k') + announce_remaining k') mod 2 ^ 64 = (int (curr_tick k) + announce_remaining k) mod 2 ^ 64"
  using assms
proof (induction n arbitrary: k)
  case (Suc n)
  show ?case
  proof (cases "timeout_list k")
    case Nil
    then show ?thesis using Suc.prems by (simp add: announce_loop_round del: announce_loop.simps)
  next
    case (Cons t ts)
    show ?thesis
    proof (cases "dticks k t \<le> announce_remaining k")
      case False
      then show ?thesis using Cons Suc.prems by (simp add: announce_loop_round del: announce_loop.simps)
    next
      case True
      let ?f = "fire_state t k"
      note f = fire_state_timeouts [OF Suc.prems(2) Cons]
      have d0: "0 \<le> dticks k t" "t \<notin> set ts" using Suc.prems(2) Cons by (auto simp: timeouts_ok_def)
      have fi: "inv ?f" by (rule inv_clock(3) [OF Suc.prems(1,2) Cons])
      have t: "t \<notin> set (timeout_list ?f)" using d0(2) f(2) by simp
      have lf: "length (timeout_list ?f) < N" using f(2) Cons Suc.prems(4) by simp
      have len: "length (timeout_list (fn t ?f)) \<le> N" using fn_len [OF fi f(1) t] lf by simp
      have "nat (announce_remaining ?f) * Suc N + due_now (fn t ?f) < n"
      proof (cases "dticks k t = 0")
        case True
        then have "due_now k = Suc (due_now ?f)"
          using f(3) expiries_Cons [OF Cons] by (simp add: due_now_def)
        then show ?thesis using fn_len [OF fi f(1) t] Suc.prems(5) True by simp
      next
        case False
        then have "nat (announce_remaining k) = nat (announce_remaining ?f) + nat (dticks k t)" "1 \<le> nat (dticks k t)"
          using d0(1) True by simp_all
        then have "Suc (nat (announce_remaining ?f)) * Suc N \<le> nat (announce_remaining k) * Suc N"
          by (intro mult_le_mono) simp_all
        moreover have "due_now (fn t ?f) \<le> due_now ?f" "due_now ?f \<le> length (timeout_list ?f)"
          using fn_len [OF fi f(1) t] due_now_le by simp_all
        ultimately show ?thesis using Suc.prems(5) lf by simp
      qed
      then have "\<exists>k'. announce_loop n fn (fn t ?f) = Some k' \<and> timeouts_ok k' \<and> inv k' \<and> 0 \<le> announce_remaining k'
        \<and> (\<forall>t ts. timeout_list k' = t # ts \<longrightarrow> announce_remaining k' < dticks k' t)
        \<and> (int (curr_tick k') + announce_remaining k') mod 2 ^ 64
          = (int (curr_tick (fn t ?f)) + announce_remaining (fn t ?f)) mod 2 ^ 64"
        using fn_ok [OF fi f(1) t] len True by (intro Suc.IH) (simp_all add: fn_clock)
      moreover have "(int (curr_tick (fn t ?f)) + announce_remaining (fn t ?f)) mod 2 ^ 64
          = (int (curr_tick k) + announce_remaining k) mod 2 ^ 64"
        by (simp add: fn_clock mod_simps)
      ultimately show ?thesis using True Cons by (simp add: announce_loop_round del: announce_loop.simps)
    qed
  qed
qed simp

text \<open>An announcement returns, accounts for exactly its ticks, and leaves a well formed queue with nothing overdue.\<close>

lemma announce_accounts:
  assumes "inv k" and "timeouts_ok k" and "0 \<le> ticks"
    and "nat ticks * Suc (length (timeout_list k)) + length (timeout_list k) < n"
  shows "\<exists>k'. z_clock_announce n fn ticks k = Some k' \<and> timeouts_ok k' \<and> announce_remaining k' = 0
    \<and> curr_tick k' = (curr_tick k + nat ticks) mod 2 ^ 64 \<and> (\<forall>(t, x)\<in>set (expiries k'). 0 < x)"
proof -
  let ?k = "(z_time_slice ticks k)\<lparr>announce_remaining := ticks\<rparr>"
  have ok: "timeouts_ok ?k" using assms(2) by (rule timeouts_ok_cong) simp_all
  have "due_now ?k \<le> length (timeout_list k)"
    using due_now_le [of ?k] by simp
  then have "nat (announce_remaining ?k) * Suc (length (timeout_list k)) + due_now ?k < n" using assms(4) by simp
  then obtain k1 where k1: "announce_loop n fn ?k = Some k1" "timeouts_ok k1" "0 \<le> announce_remaining k1"
    "\<And>t ts. timeout_list k1 = t # ts \<Longrightarrow> announce_remaining k1 < dticks k1 t"
    "(int (curr_tick k1) + announce_remaining k1) mod 2 ^ 64 = (int (curr_tick ?k) + announce_remaining ?k) mod 2 ^ 64"
    using loop_ends [of ?k "length (timeout_list k)" n] inv_clock(1,2) assms(1,3) ok by auto
  define k2 where k2: "k2 = (case to_first k1 of None \<Rightarrow> k1
      | Some t \<Rightarrow> k1\<lparr>dticks := (dticks k1)(t := dticks k1 t - announce_remaining k1)\<rparr>)"
  have s: "timeouts_ok k2" "expiries k2 = map (\<lambda>(t, x). (t, x - announce_remaining k1)) (expiries k1)"
    using settle_timeouts [OF k1(2,3,4) k2] by simp_all
  have c: "curr_tick k2 = curr_tick k1" "announce_remaining k2 = announce_remaining k1"
    by (simp_all add: k2 split: option.split)
  let ?k3 = "k2\<lparr>curr_tick := nat ((int (curr_tick k2) + announce_remaining k2) mod 2 ^ 64), announce_remaining := 0\<rparr>"
  let ?k4 = "z_clock_set_timeout (next_timeout ?k3) False ?k3"
  have "z_clock_announce n fn ticks k = Some ?k4"
    using k1(1) by (simp add: z_clock_announce_def Let_def k2)
  moreover have "timeouts_ok ?k4" using s(1) by (rule timeouts_ok_cong) (simp_all add: z_clock_set_timeout_def)
  moreover have "curr_tick ?k4 = (curr_tick k + nat ticks) mod 2 ^ 64"
    using k1(5) c assms(3) by (simp add: z_clock_set_timeout_def nat_mod_distrib nat_add_distrib)
  moreover have "\<forall>(t, x)\<in>set (expiries ?k4). 0 < x"
  proof -
    have "announce_remaining k1 < x" if "(t, x) \<in> set (expiries k1)" for t x
    proof (cases "timeout_list k1")
      case (Cons u us)
      have "\<forall>y\<in>set us. 0 \<le> dticks k1 y" using k1(2) Cons by (auto simp: timeouts_ok_def)
      then have "dticks k1 u \<le> x"
        using that abs_times_ge [of t x "dticks k1" "dticks k1 u" us] by (auto simp: expiries_Cons [OF Cons])
      then show ?thesis using k1(4) [OF Cons] by simp
    qed (use that in \<open>simp add: expiries_def\<close>)
    moreover have "expiries ?k4 = expiries k2" by (rule expiries_cong) (simp_all add: z_clock_set_timeout_def)
    ultimately show ?thesis using s(2) by auto
  qed
  moreover have "announce_remaining ?k4 = 0" by (simp add: z_clock_set_timeout_def)
  ultimately show ?thesis by blast
qed

end


lemma shift_due:
  "filter (\<lambda>(t, x). x \<le> r - d) (map (\<lambda>(t, x). (t, x - d)) es) = map (\<lambda>(t, x). (t, x - d)) (filter (\<lambda>(t, x). x \<le> r) es)"
  for d r :: int
  by (induction es) auto

lemma shift_later:
  "map (\<lambda>(t, x). (t, x - c)) (filter (\<lambda>(t, x). r - d < x) (map (\<lambda>(t, x). (t, x - d)) es))
     = map (\<lambda>(t, x). (t, x - (c + d))) (filter (\<lambda>(t, x). r < x) es)"
  for c d r :: int
  by (induction es) auto

section \<open>Callbacks that leave the timeouts alone\<close>

text \<open>
  \<open>seen\<close> reads off the calls made so far, each with the tick it was made at.
\<close>

locale passive_callbacks =
  fixes fn :: "toid \<Rightarrow> 'a kernel_scheme \<Rightarrow> 'a kernel_scheme"
    and seen :: "'a \<Rightarrow> (toid \<times> nat) list"
  assumes fn_same: "timeout_list (fn t k) = timeout_list k" "dticks (fn t k) = dticks k"
      "curr_tick (fn t k) = curr_tick k" "announce_remaining (fn t k) = announce_remaining k"
    and fn_seen: "seen (more (fn t k)) = seen (more k) @ [(t, curr_tick k)]"
begin

lemma loop_fires:
  assumes "timeouts_ok k" and "0 \<le> announce_remaining k" and "length (timeout_list k) < n"
    and "int (curr_tick k) + announce_remaining k < 2 ^ 64" and "announce_remaining k = r"
  shows "\<exists>k'. announce_loop n fn k = Some k' \<and> timeouts_ok k' \<and> 0 \<le> announce_remaining k'
    \<and> (\<forall>t ts. timeout_list k' = t # ts \<longrightarrow> announce_remaining k' < dticks k' t)
    \<and> int (curr_tick k') + announce_remaining k' = int (curr_tick k) + r
    \<and> expiries k' = map (\<lambda>(t, x). (t, x - (r - announce_remaining k'))) (filter (\<lambda>(t, x). r < x) (expiries k))
    \<and> seen (more k') = seen (more k) @ map (\<lambda>(t, x). (t, curr_tick k + nat x)) (filter (\<lambda>(t, x). x \<le> r) (expiries k))"
  using assms
proof (induction n arbitrary: k r)
  case (Suc n)
  show ?case
  proof (cases "timeout_list k")
    case Nil
    then show ?thesis using Suc.prems by (simp add: announce_loop_round expiries_def del: announce_loop.simps)
  next
    case (Cons t ts)
    let ?es = "abs_times (dticks k) (dticks k t) ts"
    have d: "\<forall>x\<in>set (t # ts). 0 \<le> dticks k x" using Suc.prems(1) Cons by (auto simp: timeouts_ok_def)
    have e: "expiries k = (t, dticks k t) # ?es" by (rule expiries_Cons [OF Cons])
    have ge: "dticks k t \<le> y" if "(x, y) \<in> set ?es" for x y using abs_times_ge [OF that] d by simp
    show ?thesis
    proof (cases "dticks k t \<le> announce_remaining k")
      case False
      then have "filter (\<lambda>(t, x). r < x) (expiries k) = expiries k" "filter (\<lambda>(t, x). x \<le> r) (expiries k) = []"
        using ge Suc.prems(5) unfolding e by (fastforce simp: filter_empty_conv filter_id_conv)+
      then show ?thesis using False Cons Suc.prems by (simp add: announce_loop_round del: announce_loop.simps)
    next
      case True
      let ?f = "fire_state t k" and ?d = "dticks k t"
      note f = fire_state_timeouts [OF Suc.prems(1) Cons]
      have ct: "curr_tick ?f = curr_tick k + nat ?d" "int (curr_tick ?f) = int (curr_tick k) + ?d"
        using Suc.prems(2,4) True d by (simp_all add: nat_add_distrib)
      have "timeouts_ok (fn t ?f)" using f(1) by (rule timeouts_ok_cong) (simp_all add: fn_same)
      then obtain k' where k': "announce_loop n fn (fn t ?f) = Some k'" "timeouts_ok k'" "0 \<le> announce_remaining k'"
        "\<forall>t ts. timeout_list k' = t # ts \<longrightarrow> announce_remaining k' < dticks k' t"
        "int (curr_tick k') + announce_remaining k' = int (curr_tick (fn t ?f)) + (r - ?d)"
        "expiries k' = map (\<lambda>(t, x). (t, x - (r - ?d - announce_remaining k')))
           (filter (\<lambda>(t, x). r - ?d < x) (expiries (fn t ?f)))"
        "seen (more k') = seen (more (fn t ?f))
           @ map (\<lambda>(t, x). (t, curr_tick (fn t ?f) + nat x)) (filter (\<lambda>(t, x). x \<le> r - ?d) (expiries (fn t ?f)))"
        using Suc.IH [of "fn t ?f" "r - ?d"] True f(2) Cons Suc.prems ct by (auto simp: fn_same)
      have ef: "expiries (fn t ?f) = map (\<lambda>(x, y). (x, y - ?d)) ?es"
        using f(3) e expiries_cong [of "fn t ?f" ?f] by (simp add: fn_same)
      have "map (\<lambda>(t, x). (t, x - (r - ?d - announce_remaining k'))) (filter (\<lambda>(t, x). r - ?d < x) (expiries (fn t ?f)))
          = map (\<lambda>(t, x). (t, x - (r - announce_remaining k'))) (filter (\<lambda>(t, x). r < x) ?es)"
        unfolding ef shift_later by (simp add: algebra_simps)
      moreover have "filter (\<lambda>(t, x). x \<le> r - ?d) (expiries (fn t ?f))
          = map (\<lambda>(x, y). (x, y - ?d)) (filter (\<lambda>(t, x). x \<le> r) ?es)"
        unfolding ef by (rule shift_due)
      moreover have "curr_tick (fn t ?f) + nat (y - ?d) = curr_tick k + nat y" if "(x, y) \<in> set ?es" for x y
        unfolding fn_same ct(1) using ge [OF that] d nat_add_distrib [of ?d "y - ?d"] by simp
      ultimately show ?thesis using k' True Cons Suc.prems(5) ct
        by (auto simp: announce_loop_round e fn_same fn_seen simp del: announce_loop.simps fire_state_sel(1))
    qed
  qed
qed simp

lemma announce_fires:
  assumes "timeouts_ok k" and "0 \<le> ticks" and "length (timeout_list k) < n" and "int (curr_tick k) + ticks < 2 ^ 64"
    and "more (z_time_slice ticks k) = more k"
  shows "\<exists>k'. z_clock_announce n fn ticks k = Some k' \<and> timeouts_ok k'
    \<and> curr_tick k' = curr_tick k + nat ticks
    \<and> expiries k' = map (\<lambda>(t, x). (t, x - ticks)) (filter (\<lambda>(t, x). ticks < x) (expiries k))
    \<and> seen (more k') = seen (more k) @ map (\<lambda>(t, x). (t, curr_tick k + nat x)) (filter (\<lambda>(t, x). x \<le> ticks) (expiries k))"
proof -
  let ?k = "(z_time_slice ticks k)\<lparr>announce_remaining := ticks\<rparr>"
  have ok: "timeouts_ok ?k" using assms(1) by (rule timeouts_ok_cong) simp_all
  have ek: "expiries ?k = expiries k" by (rule expiries_cong) simp_all
  obtain k1 where k1: "announce_loop n fn ?k = Some k1" "timeouts_ok k1" "0 \<le> announce_remaining k1"
    "\<And>t ts. timeout_list k1 = t # ts \<Longrightarrow> announce_remaining k1 < dticks k1 t"
    "int (curr_tick k1) + announce_remaining k1 = int (curr_tick k) + ticks"
    "expiries k1 = map (\<lambda>(t, x). (t, x - (ticks - announce_remaining k1))) (filter (\<lambda>(t, x). ticks < x) (expiries k))"
    "seen (more k1) = seen (more k)
       @ map (\<lambda>(t, x). (t, curr_tick k + nat x)) (filter (\<lambda>(t, x). x \<le> ticks) (expiries k))"
    using loop_fires [OF ok, of n ticks] assms(2-5) unfolding ek by auto
  define k2 where k2: "k2 = (case to_first k1 of None \<Rightarrow> k1
      | Some t \<Rightarrow> k1\<lparr>dticks := (dticks k1)(t := dticks k1 t - announce_remaining k1)\<rparr>)"
  have s: "timeouts_ok k2" "expiries k2 = map (\<lambda>(t, x). (t, x - announce_remaining k1)) (expiries k1)"
    using settle_timeouts [OF k1(2,3,4) k2] by simp_all
  have c: "curr_tick k2 = curr_tick k1" "announce_remaining k2 = announce_remaining k1" "more k2 = more k1"
    by (simp_all add: k2 split: option.split)
  let ?k3 = "k2\<lparr>curr_tick := nat ((int (curr_tick k2) + announce_remaining k2) mod 2 ^ 64), announce_remaining := 0\<rparr>"
  let ?k4 = "z_clock_set_timeout (next_timeout ?k3) False ?k3"
  have "z_clock_announce n fn ticks k = Some ?k4"
    using k1(1) by (simp add: z_clock_announce_def Let_def k2)
  moreover have "timeouts_ok ?k4" using s(1) by (rule timeouts_ok_cong) (simp_all add: z_clock_set_timeout_def)
  moreover have "curr_tick ?k4 = curr_tick k + nat ticks"
    using k1(5) c assms(2,4) by (simp add: z_clock_set_timeout_def nat_add_distrib)
  moreover have "expiries ?k4 = expiries k2" by (rule expiries_cong) (simp_all add: z_clock_set_timeout_def)
  then have "expiries ?k4 = map (\<lambda>(t, x). (t, x - ticks)) (filter (\<lambda>(t, x). ticks < x) (expiries k))"
    using s(2) k1(6) by (simp add: comp_def case_prod_beta)
  moreover have "seen (more ?k4) = seen (more k1)" using c(3) by (simp add: z_clock_set_timeout_def)
  ultimately show ?thesis using k1(7) by auto
qed

end

section \<open>Thread timeouts\<close>

text \<open>
  The callback of a thread's timeout is \<^verbatim>\<open>z_thread_timeout\<close>. \<open>thread_fn\<close> stands for the callbacks of a queue
  that holds timeouts of threads; it is not meant for those of timers and work items, whose callbacks are
  \<open>z_timer_expiration_handler\<close> in \<open>KTimer\<close>, which re-arms periodic timers, and \<open>work_timeout\<close> in \<open>KWork\<close>. \<open>logged\<close>
  runs a callback and notes it in an added field of the kernel state, and \<open>quiet\<close> callbacks leave the queue of timeouts and the
  clock alone.
\<close>

definition logged ::
  "(toid \<Rightarrow> (toid \<times> nat) list kernel_scheme \<Rightarrow> (toid \<times> nat) list kernel_scheme)
     \<Rightarrow> toid \<Rightarrow> (toid \<times> nat) list kernel_scheme \<Rightarrow> (toid \<times> nat) list kernel_scheme" where
  "logged fn t k = kernel.more_update (\<lambda>_. more k @ [(t, curr_tick k)]) (fn t k)"

definition thread_fn :: "toid \<Rightarrow> 'a kernel_scheme \<Rightarrow> 'a kernel_scheme" where
  "thread_fn to k = (case to of Thr t \<Rightarrow> z_thread_timeout t k | _ \<Rightarrow> k)"

lemma thread_timeout_sel [simp]:
  "timeout_list (z_thread_timeout t k) = timeout_list k" "dticks (z_thread_timeout t k) = dticks k"
  "curr_tick (z_thread_timeout t k) = curr_tick k" "announce_remaining (z_thread_timeout t k) = announce_remaining k"
  by (simp_all add: z_thread_timeout_def Let_def)

interpretation thr: passive_callbacks "logged thread_fn" "\<lambda>l. l"
  by unfold_locales (simp_all add: logged_def thread_fn_def split: toid.split)

lemma more_time_slice: "more (z_time_slice ticks k) = more k"
  by (simp add: z_time_slice_def z_move_thread_to_end_of_prio_q_def Let_def update_cache_def reset_time_slice_def
      z_set_timeout_expiry_def z_clock_set_timeout_def z_priq_dumb_add_def z_priq_dumb_remove_def set_list_def unlink_def
      z_set_thread_states_def upd_thread_def)

lemma announce_fires_thr:
  assumes "timeouts_ok k" and "0 \<le> ticks" and "length (timeout_list k) < n" and "int (curr_tick k) + ticks < 2 ^ 64"
  shows "\<exists>k'. z_clock_announce n (logged thread_fn) ticks k = Some k' \<and> timeouts_ok k'
    \<and> curr_tick k' = curr_tick k + nat ticks
    \<and> expiries k' = map (\<lambda>(t, x). (t, x - ticks)) (filter (\<lambda>(t, x). ticks < x) (expiries k))
    \<and> more k' = more k @ map (\<lambda>(t, x). (t, curr_tick k + nat x)) (filter (\<lambda>(t, x). x \<le> ticks) (expiries k))"
  by (rule thr.announce_fires [OF assms]) (rule more_time_slice)


definition quiet :: "(toid \<Rightarrow> 'a kernel_scheme \<Rightarrow> 'a kernel_scheme) \<Rightarrow> bool" where
  "quiet fn \<longleftrightarrow> (\<forall>t k. timeout_list (fn t k) = timeout_list k \<and> dticks (fn t k) = dticks k \<and> curr_tick (fn t k) = curr_tick k
     \<and> announce_remaining (fn t k) = announce_remaining k)"

text \<open>
  C18. Announcing ticks runs the callbacks of exactly the timeouts that expire within them, each once, in the order of
  expiry, and at the very tick it is due; the later timeouts come closer by the announced ticks, and the clock advances by
  them. The loop ends within one round per timeout. This is stated for callbacks that add no timeout and remove none, as
  those of threads do; a periodic timer, whose callback arms it again within the announcement, is not covered.\<close>

theorem announce_fires_on_time:
  assumes "quiet fn" and "timeouts_ok k" and "0 \<le> ticks" and "length (timeout_list k) < n" and "int (curr_tick k) + ticks < 2 ^ 64"
  shows "\<exists>k'. z_clock_announce n (logged fn) ticks k = Some k' \<and> timeouts_ok k'
    \<and> curr_tick k' = curr_tick k + nat ticks
    \<and> expiries k' = map (\<lambda>(t, x). (t, x - ticks)) (filter (\<lambda>(t, x). ticks < x) (expiries k))
    \<and> more k' = more k @ map (\<lambda>(t, x). (t, curr_tick k + nat x)) (filter (\<lambda>(t, x). x \<le> ticks) (expiries k))"
proof -
  have "passive_callbacks (logged fn) (\<lambda>l. l)"
    using assms(1) by unfold_locales (simp_all add: logged_def quiet_def)
  then show ?thesis using passive_callbacks.announce_fires [OF _ assms(2-5)] more_time_slice by blast
qed

text \<open>Thread 2 times out after 3 ticks and thread 3 after 7; 5 ticks are announced.\<close>

definition demo_sleepers :: "(toid \<times> nat) list kernel_scheme" where
  "demo_sleepers = (kernel.extend demo_kernel [])
     \<lparr>timeout_list := [Thr 2, Thr 3], dticks := (\<lambda>_. 0)(Thr 2 := 3, Thr 3 := 4), curr_tick := 100\<rparr>"

theorem announce_fires_on_time_witness:
  "\<exists>k'. z_clock_announce 3 (logged thread_fn) 5 demo_sleepers = Some k' \<and> curr_tick k' = 105
     \<and> expiries k' = [(Thr 3, 2)] \<and> more k' = [(Thr 2, 103)]"
proof -
  have s: "timeout_list demo_sleepers = [Thr 2, Thr 3]" "curr_tick demo_sleepers = 100" "more demo_sleepers = []"
    "dticks demo_sleepers = (\<lambda>_. 0)(Thr 2 := 3, Thr 3 := 4)"
    by (simp_all add: demo_sleepers_def kernel.defs)
  then have e: "expiries demo_sleepers = [(Thr 2, 3), (Thr 3, 7)]" by (simp add: expiries_def)
  have "timeouts_ok demo_sleepers" using s by (simp add: timeouts_ok_def e INT_MAX_def)
  moreover have "quiet thread_fn" by (simp add: quiet_def thread_fn_def split: toid.split)
  ultimately show ?thesis using announce_fires_on_time [of thread_fn demo_sleepers 5 3] by (auto simp: s e)
qed

end
