(* ===== verification/KMachineTimer.thy ===== *)
theory KMachineTimer
  imports KClock TimerRegs
begin

text \<open>
  The system clock driver, \<^verbatim>\<open>drivers/timer/riscv_machine_timer.c\<close>, at 133 MHz
  and 100 ticks a second, tickless. The driver's state has the running counter
  as \<open>drv_clock\<close> (its value at each bus access), the comparator and the
  cycle count of the last announced tick.
\<close>

record mtimer =
  drv_clock :: "nat \<Rightarrow> u64"
  drv_pos :: nat
  drv_cmp :: u64
  last_count :: u64
  drv_irq :: bool

definition CYC_PER_TICK :: u32 where "CYC_PER_TICK = 133000000 div 100"
definition MAX_TICKS :: int where "MAX_TICKS = (0xffffffff - 1330000) div 1330000"
definition MIN_DELAY :: int where "MIN_DELAY = 1000"

definition drv_set_mtimecmp :: "u64 \<Rightarrow> mtimer \<Rightarrow> mtimer" where
  "drv_set_mtimecmp t d = d\<lparr>drv_cmp := last (mtimecmp_writes (drv_cmp d) t), drv_pos := drv_pos d + 3\<rparr>"

definition drv_mtime :: "nat \<Rightarrow> mtimer \<Rightarrow> (u64 \<times> mtimer) option" where
  "drv_mtime f d = (case read_timer f (drv_clock d) (drv_pos d) of None \<Rightarrow> None
     | Some (t, k) \<Rightarrow> Some (t, d\<lparr>drv_pos := k\<rparr>))"

definition drv_z_clock_elapsed :: "nat \<Rightarrow> mtimer \<Rightarrow> (u32 \<times> mtimer) option" where
  "drv_z_clock_elapsed f d = (case drv_mtime f d of None \<Rightarrow> None
     | Some (t, d) \<Rightarrow> Some ((ucast t - ucast (last_count d)) div CYC_PER_TICK, d))"

text \<open>
  The interrupt handler announces the ticks to the kernel. The kernel's view
  of the ticks since the last announcement (\<open>hw_elapsed\<close>) is what
  \<^verbatim>\<open>z_clock_elapsed\<close> returns once \<^verbatim>\<open>last_count\<close> is advanced.
\<close>

definition timer_isr ::
  "nat \<Rightarrow> nat \<Rightarrow> (toid \<Rightarrow> 'a kernel_scheme \<Rightarrow> 'a kernel_scheme) \<Rightarrow> mtimer \<Rightarrow> 'a kernel_scheme
     \<Rightarrow> (mtimer \<times> 'a kernel_scheme) option" where
  "timer_isr f n fn d k =
     (case drv_mtime f d of None \<Rightarrow> None
      | Some (now, d) \<Rightarrow>
        let ticks = (ucast ((now - last_count d) div ucast CYC_PER_TICK) :: u32);
            d = d\<lparr>last_count := last_count d + ucast (ticks * CYC_PER_TICK)\<rparr>;
            k = k\<lparr>hw_elapsed := uint ((ucast now - ucast (last_count d)) div CYC_PER_TICK)\<rparr>
        in case z_clock_announce n fn (sint ticks) k of None \<Rightarrow> None | Some k \<Rightarrow> Some (d, k))"

definition z_clock_driver_init :: "nat \<Rightarrow> mtimer \<Rightarrow> (int \<times> mtimer) option" where
  "z_clock_driver_init f d =
     (case drv_mtime f d of None \<Rightarrow> None
      | Some (t, d) \<Rightarrow> Some (0, (drv_set_mtimecmp (t + ucast CYC_PER_TICK) d)\<lparr>drv_irq := True\<rparr>))"

text \<open>The cycles after \<^verbatim>\<open>last_count\<close> at which \<^verbatim>\<open>z_clock_set_timeout\<close> lets the comparator fire.\<close>

definition timeout_cycles :: "int \<Rightarrow> u64 \<Rightarrow> u64 \<Rightarrow> u32" where
  "timeout_cycles ticks now last_cnt =
     (let ticks = (if ticks = K_FOREVER then MAX_TICKS else ticks);
          ticks = max (min (ticks - 1) MAX_TICKS) 0;
          cyc = of_int ticks * CYC_PER_TICK;
          cyc = cyc + (ucast (now - last_cnt) + (CYC_PER_TICK - 1));
          cyc = (cyc div CYC_PER_TICK) * CYC_PER_TICK
      in if sint (ucast (ucast cyc + last_cnt - now) :: u32) < MIN_DELAY then cyc + CYC_PER_TICK else cyc)"

definition drv_z_clock_set_timeout :: "nat \<Rightarrow> int \<Rightarrow> bool \<Rightarrow> mtimer \<Rightarrow> mtimer option" where
  "drv_z_clock_set_timeout f ticks idle d =
     (if idle then Some d else
      case drv_mtime f d of None \<Rightarrow> None
      | Some (now, d) \<Rightarrow> Some (drv_set_mtimecmp (ucast (timeout_cycles ticks now (last_count d)) + last_count d) d))"

definition z_timer_cycle_get_32 :: "nat \<Rightarrow> mtimer \<Rightarrow> (u32 \<times> mtimer) option" where
  "z_timer_cycle_get_32 f d = (case drv_mtime f d of None \<Rightarrow> None | Some (t, d) \<Rightarrow> Some (ucast t, d))"

section \<open>Words as numbers\<close>

lemma cyc_nat [simp]: "unat CYC_PER_TICK = 1330000" "unat (ucast CYC_PER_TICK :: u64) = 1330000"
  "MAX_TICKS = 3228"
  by (simp_all add: CYC_PER_TICK_def MAX_TICKS_def)

lemma unat_u64_sub: "b \<le> (a :: u64) \<Longrightarrow> unat (a - b) = unat a - unat b"
  by (simp add: unat_sub)

lemma unat_u64_add: "unat (a :: u64) + unat b < 18446744073709551616 \<Longrightarrow> unat (a + b) = unat a + unat b"
  by (simp add: unat_word_ariths)

lemma unat_u32_mult: "unat (a :: u32) * unat b < 4294967296 \<Longrightarrow> unat (a * b) = unat a * unat b"
  by (simp add: unat_word_ariths)

lemma ucast_diff: "(ucast a - ucast b :: u32) = ucast (a - b :: u64)"
  by (simp add: word_uint_eq_iff uint_word_ariths unsigned_ucast_eq take_bit_eq_mod mod_mod_cancel mod_diff_eq)

section \<open>The interrupt handler\<close>

text \<open>The number of whole ticks in the cycles since the last tick, and the count of the new last tick.\<close>

lemma isr_ticks:
  fixes now lc :: u64
  assumes "lc \<le> now" and "unat now - unat lc < 4294967296"
    and "t = (ucast ((now - lc) div ucast CYC_PER_TICK) :: u32)"
  shows "unat t = (unat now - unat lc) div 1330000" and "sint t = int ((unat now - unat lc) div 1330000)"
    and "unat (lc + ucast (t * CYC_PER_TICK)) = unat lc + (unat now - unat lc) div 1330000 * 1330000"
    and "lc + ucast (t * CYC_PER_TICK) \<le> now"
    and "unat now - unat (lc + ucast (t * CYC_PER_TICK)) < 1330000"
    and "(ucast now - ucast (lc + ucast (t * CYC_PER_TICK))) div CYC_PER_TICK = 0"
proof -
  let ?D = "unat now - unat lc" and ?lc = "lc + ucast (t * CYC_PER_TICK)"
  define q where q: "q = ?D div 1330000"
  have m: "q * 1330000 \<le> ?D" "?D < q * 1330000 + 1330000"
    using div_mult_mod_eq [of ?D 1330000] mod_less_divisor [of 1330000 ?D] by (simp_all add: q)
  have q': "q < 3230" using m(1) assms(2) by linarith
  have D: "unat (now - lc) = ?D" using assms(1) by (rule unat_u64_sub)
  have dq: "unat ((now - lc) div ucast CYC_PER_TICK) = q" by (simp add: unat_div D q)
  show "unat t = ?D div 1330000" unfolding assms(3) using dq q' by (subst unat_low32) (simp_all add: q [symmetric])
  then have t: "unat t = q" by (simp add: q)
  show "sint t = int (?D div 1330000)" unfolding q [symmetric] using t q' by (subst sint_small) simp_all
  have le: "unat lc \<le> unat now" using assms(1) by (simp add: word_le_nat_alt)
  have tc: "unat (t * CYC_PER_TICK) = q * 1330000"
    using q' by (subst unat_u32_mult) (simp_all add: t)
  have lc: "unat ?lc = unat lc + q * 1330000"
  proof (subst unat_u64_add)
    show "unat lc + unat (ucast (t * CYC_PER_TICK) :: u64) < 18446744073709551616"
      unfolding unat_up64 tc using m le unat_u64_less [of now] by linarith
  qed (simp only: unat_up64 tc)
  then show "unat ?lc = unat lc + ?D div 1330000 * 1330000" by (simp only: q)
  show le': "?lc \<le> now" unfolding word_le_nat_alt lc using m le by linarith
  show sm: "unat now - unat ?lc < 1330000" unfolding lc using le m by linarith
  have "unat (ucast (now - ?lc) :: u32) < 1330000"
    using sm unat_u64_sub [OF le'] unat_low32 [of "now - ?lc"] by simp
  then show "(ucast now - ucast ?lc) div CYC_PER_TICK = 0"
    unfolding ucast_diff by (simp add: word_unat_eq_iff unat_div)
qed


section \<open>Correctness\<close>

lemma drv_mtime_eq: "drv_mtime f d = Some (now, d') \<Longrightarrow> \<exists>i. d' = d\<lparr>drv_pos := i\<rparr>"
  by (auto simp: drv_mtime_def split: option.splits)

text \<open>
  C38. The timer interrupt keeps kernel time in step with the hardware counter without drift: it
  announces exactly the whole ticks passed since the last one, moves \<^verbatim>\<open>last_count\<close> to the tick
  boundary at or before the present, and the kernel runs the callbacks that are due by then, here those of
  threads' timeouts.\<close>

theorem timer_isr_no_drift:
  assumes "drv_mtime f d = Some (now, d1)" and "last_count d \<le> now" and "unat now - unat (last_count d) < 2 ^ 32"
    and "q = (unat now - unat (last_count d)) div 1330000"
    and "timeouts_ok k" and "length (timeout_list k) < n" and "curr_tick k + q < 2 ^ 64"
  shows "\<exists>d' k'. timer_isr f n (logged thread_fn) d k = Some (d', k')
    \<and> unat (last_count d') = unat (last_count d) + q * 1330000
    \<and> last_count d' \<le> now \<and> unat now - unat (last_count d') < 1330000
    \<and> curr_tick k' = curr_tick k + q \<and> timeouts_ok k'
    \<and> kernel.more k' = kernel.more k @ map (\<lambda>(t, x). (t, curr_tick k + nat x)) (filter (\<lambda>(t, x). x \<le> int q) (expiries k))"
proof -
  let ?lc = "last_count d" and ?t = "ucast ((now - last_count d) div ucast CYC_PER_TICK) :: u32"
  obtain i where d1: "d1 = d\<lparr>drv_pos := i\<rparr>" using drv_mtime_eq [OF assms(1)] by blast
  have lt: "unat now - unat ?lc < 4294967296" using assms(3) by simp
  note t = isr_ticks [OF assms(2) lt refl, folded assms(4)]
  let ?k = "k\<lparr>hw_elapsed := 0\<rparr>"
  have ok: "timeouts_ok ?k" using assms(5) by (rule timeouts_ok_cong) simp_all
  have e: "expiries ?k = expiries k" by (rule expiries_cong) simp_all
  obtain k' where k': "z_clock_announce n (logged thread_fn) (int q) ?k = Some k'" "timeouts_ok k'"
    "curr_tick k' = curr_tick k + q"
    "kernel.more k' = kernel.more k @ map (\<lambda>(t, x). (t, curr_tick k + nat x)) (filter (\<lambda>(t, x). x \<le> int q) (expiries k))"
    using announce_fires_thr [OF ok, of "int q" n] assms(6,7) unfolding e by auto
  have "timer_isr f n (logged thread_fn) d k
      = Some (d1\<lparr>last_count := ?lc + ucast (?t * CYC_PER_TICK)\<rparr>, k')"
    using k'(1) t(2,6) by (simp add: timer_isr_def assms(1) Let_def d1)
  with k' t show ?thesis by auto
qed


text \<open>The cycles until the comparator fires, when no intermediate value leaves 31 bits.\<close>

lemma timeout_cycles_bounds:
  fixes now lc :: u64
  assumes "lc \<le> now" and "D = unat now - unat lc" and "0 \<le> ticks" and "T = nat (max (min (ticks - 1) 3228) 0)"
    and "T * 1330000 + D + 2660000 < 2 ^ 31" and "c = unat (timeout_cycles ticks now lc)"
  shows "1330000 dvd c" and "D + 1000 \<le> c" and "D + T * 1330000 \<le> c" and "c < D + T * 1330000 + 2660000"
proof -
  have le: "unat lc \<le> unat now" using assms(1) by (simp add: word_le_nat_alt)
  have bnd: "T * 1330000 + D + 2660000 < 2147483648" using assms(5) by simp
  define S q where S: "S = T * 1330000 + (D + 1329999)" and q: "q = S div 1330000"
  have m: "q * 1330000 \<le> S" "S < q * 1330000 + 1330000"
    using div_mult_mod_eq [of S 1330000] mod_less_divisor [of 1330000 S] by (simp_all add: q)
  define x where x: "x = (of_int (int T) * CYC_PER_TICK + (ucast (now - lc) + (CYC_PER_TICK - 1))) div CYC_PER_TICK * CYC_PER_TICK"
  have T: "unat (of_nat T :: u32) = T" using bnd by (simp add: unsigned_of_nat take_bit_nat_eq_self)
  have p1: "unat (of_nat T * CYC_PER_TICK) = T * 1330000"
    using unat_u32_mult [of "of_nat T" CYC_PER_TICK] bnd unfolding T cyc_nat by linarith
  have D: "unat (ucast (now - lc) :: u32) = D"
    using unat_u64_sub [OF assms(1)] bnd assms(2) by (subst unat_low32) simp_all
  have c1: "unat (CYC_PER_TICK - 1) = 1329999" by (simp add: CYC_PER_TICK_def)
  have p2: "unat (ucast (now - lc) + (CYC_PER_TICK - 1) :: u32) = D + 1329999"
    using unat_u32_add [of "ucast (now - lc)" "CYC_PER_TICK - 1"] bnd unfolding D c1 by linarith
  have "unat (of_nat T * CYC_PER_TICK + (ucast (now - lc) + (CYC_PER_TICK - 1))) = S"
    using unat_u32_add [of "of_nat T * CYC_PER_TICK" "ucast (now - lc) + (CYC_PER_TICK - 1)"] bnd
    unfolding p1 p2 S by linarith
  then have dv: "unat ((of_nat T * CYC_PER_TICK + (ucast (now - lc) + (CYC_PER_TICK - 1))) div CYC_PER_TICK) = q"
    by (simp only: unat_div cyc_nat q)
  have "q * 1330000 < 4294967296" using m(1) bnd S by linarith
  then have ux: "unat x = q * 1330000"
    using unat_u32_mult [of "(of_nat T * CYC_PER_TICK + (ucast (now - lc) + (CYC_PER_TICK - 1))) div CYC_PER_TICK" CYC_PER_TICK]
    unfolding x of_int_of_nat_eq dv cyc_nat by simp
  have xD: "D \<le> unat x" using ux m(2) S by linarith
  have "unat (ucast x + lc - now) = unat x - D"
  proof -
    have e: "ucast x + lc - now = (ucast x :: u64) - (now - lc)" by simp
    have "unat (now - lc) = D" using unat_u64_sub [OF assms(1)] assms(2) by simp
    then show ?thesis
      unfolding e using xD unat_u64_sub [of "now - lc" "ucast x"] by (simp add: word_le_nat_alt unat_up64)
  qed
  then have "unat (ucast (ucast x + lc - now) :: u32) = unat x - D"
    using unat_low32 [of "ucast x + lc - now"] ux m(1) bnd S by linarith
  moreover have "unat x - D < 2147483648" using ux m(1) bnd S by linarith
  ultimately have cmp: "sint (ucast (ucast x + lc - now) :: u32) = int (unat x - D)"
    by (subst sint_small) simp_all
  have tc: "timeout_cycles ticks now lc = (if unat x - D < 1000 then x + CYC_PER_TICK else x)"
  proof -
    have "max (min (ticks - 1) MAX_TICKS) 0 = int T" "ticks \<noteq> K_FOREVER"
      using assms(3,4) by (simp_all add: K_FOREVER_def)
    then show ?thesis unfolding timeout_cycles_def Let_def by (simp only: if_False x [symmetric] cmp MIN_DELAY_def) simp
  qed
  have "unat (x + CYC_PER_TICK) = q * 1330000 + 1330000"
    using unat_u32_add [of x CYC_PER_TICK] ux m(1) bnd S unfolding cyc_nat by linarith
  then have "c = (if unat x - D < 1000 then q * 1330000 + 1330000 else q * 1330000)"
    using assms(6) tc ux by simp
  then show "1330000 dvd c" "D + 1000 \<le> c" "D + T * 1330000 \<le> c" "c < D + T * 1330000 + 2660000"
    using ux m S by (auto split: if_splits)
qed


text \<open>
  Setting a timeout programs the comparator to a tick boundary that is at least \<open>ticks - 1\<close> whole
  ticks (at most \<^verbatim>\<open>MAX_TICKS\<close>) and the minimal delay ahead of the present, and less than two ticks
  more, as long as the wait stays below 2 to the 31 cycles.\<close>

theorem set_timeout_deadline:
  assumes "drv_mtime f d = Some (now, d1)" and "last_count d \<le> now" and "0 \<le> ticks"
    and "T = nat (max (min (ticks - 1) 3228) 0)"
    and "T * 1330000 + (unat now - unat (last_count d)) + 2660000 < 2 ^ 31" and "unat now < 2 ^ 63"
  shows "\<exists>d'. drv_z_clock_set_timeout f ticks False d = Some d'
    \<and> 1330000 dvd unat (drv_cmp d') - unat (last_count d)
    \<and> unat now + max 1000 (T * 1330000) \<le> unat (drv_cmp d')
    \<and> unat (drv_cmp d') < unat now + T * 1330000 + 2660000"
proof -
  define c where "c = unat (timeout_cycles ticks now (last_count d))"
  note b = timeout_cycles_bounds [OF assms(2) refl assms(3-5) c_def]
  obtain i where d1: "d1 = d\<lparr>drv_pos := i\<rparr>" using drv_mtime_eq [OF assms(1)] by blast
  have le: "unat (last_count d) \<le> unat now" using assms(2) by (simp add: word_le_nat_alt)
  have "unat now < 9223372036854775808" "T * 1330000 + (unat now - unat (last_count d)) + 2660000 < 2147483648"
    using assms(5,6) by simp_all
  then have "c + unat (last_count d) < 18446744073709551616" using b(4) le by linarith
  then have "unat (ucast (timeout_cycles ticks now (last_count d)) + last_count d) = c + unat (last_count d)"
    by (subst unat_u64_add) (simp_all add: unat_up64 c_def)
  moreover have "unat now + max 1000 (T * 1330000) \<le> c + unat (last_count d)"
    "c + unat (last_count d) < unat now + T * 1330000 + 2660000" using b le by linarith+
  ultimately show ?thesis using b(1)
    by (simp add: drv_z_clock_set_timeout_def assms(1) d1 drv_set_mtimecmp_def mtimecmp_writes_last)
qed

text \<open>A counter that stands at 5,000,000 cycles, with the last tick at 3,990,000.\<close>

definition demo_timer :: mtimer where
  "demo_timer = \<lparr>drv_clock = (\<lambda>_. 5000000), drv_pos = 0, drv_cmp = 0, last_count = 3990000, drv_irq = True\<rparr>"

lemma demo_timer_mtime: "drv_mtime 2 demo_timer = Some (5000000, demo_timer\<lparr>drv_pos := 3\<rparr>)"
  by (simp add: drv_mtime_def demo_timer_def numeral_2_eq_2 Let_def)

theorem set_timeout_deadline_witness:
  "\<exists>d'. drv_z_clock_set_timeout 2 10 False demo_timer = Some d' \<and> 1330000 dvd unat (drv_cmp d') - 3990000
     \<and> 16970000 \<le> unat (drv_cmp d') \<and> unat (drv_cmp d') < 19630000"
  using set_timeout_deadline [OF demo_timer_mtime, of 10 9] by (simp add: demo_timer_def)

theorem timer_isr_no_drift_witness:
  "\<exists>d' k'. timer_isr 2 3 (logged thread_fn) (demo_timer\<lparr>last_count := 0\<rparr>) demo_sleepers = Some (d', k')
     \<and> unat (last_count d') = 3990000 \<and> curr_tick k' = 103 \<and> kernel.more k' = [(Thr 2, 103)]"
proof -
  let ?d = "demo_timer\<lparr>last_count := 0\<rparr>"
  have m: "drv_mtime 2 ?d = Some (5000000, ?d\<lparr>drv_pos := 3\<rparr>)"
    by (simp add: drv_mtime_def demo_timer_def numeral_2_eq_2 Let_def)
  have s: "timeout_list demo_sleepers = [Thr 2, Thr 3]" "curr_tick demo_sleepers = 100" "kernel.more demo_sleepers = []"
    "dticks demo_sleepers = (\<lambda>_. 0)(Thr 2 := 3, Thr 3 := 4)"
    by (simp_all add: demo_sleepers_def kernel.defs)
  then have e: "expiries demo_sleepers = [(Thr 2, 3), (Thr 3, 7)]" by (simp add: expiries_def)
  have "timeouts_ok demo_sleepers" using s by (simp add: timeouts_ok_def e INT_MAX_def)
  from timer_isr_no_drift [OF m _ _ refl this, of 3] show ?thesis by (auto simp: s e)
qed

text \<open>The 32-bit arithmetic of \<^verbatim>\<open>z_clock_set_timeout\<close> is not safe for all waits it allows, although
  its comment says \<^verbatim>\<open>max_ticks is calibrated to permit this\<close>: with no timeout pending and 1,000,000
  cycles into a tick the sum wraps and the comparator fires at the next tick; and a wait of more
  than 2 to the 31 cycles is taken for one that is too close and gets an extra tick.\<close>

theorem set_timeout_wraps:
  "timeout_cycles INT_MAX 1000000 0 = 1330000 \<and> timeout_cycles 1000 0 0 = 999 * 1330000
     \<and> timeout_cycles 2000 0 0 = 2000 * 1330000"
  by (simp add: timeout_cycles_def INT_MAX_def K_FOREVER_def CYC_PER_TICK_def MIN_DELAY_def Let_def)

end
