(* ===== verification/KStack.thy ===== *)
theory KStack
  imports KSched
begin

text \<open>
  Stacks of words, \<^verbatim>\<open>kernel/stack.c\<close>. The buffer is an area of a word store;
  \<open>stk_base\<close>, \<open>stk_next\<close> and \<open>stk_top\<close> are word indices into it.
  \<^verbatim>\<open>z_thread_malloc\<close> and \<^verbatim>\<open>k_free\<close> are parameters.
\<close>

record kstack =
  stk_base :: nat
  stk_next :: nat
  stk_top :: nat
  stk_wait_q :: wqid
  stk_alloc :: bool

type_synonym words = "nat \<Rightarrow> u32"

definition k_stack_init :: "wqid \<Rightarrow> nat \<Rightarrow> u32 \<Rightarrow> bool \<Rightarrow> 'a kernel_scheme \<Rightarrow> kstack \<times> 'a kernel_scheme" where
  "k_stack_init w buffer num_entries flags k =
     (\<lparr>stk_base = buffer, stk_next = buffer, stk_top = buffer + unat num_entries, stk_wait_q = w, stk_alloc = flags\<rparr>,
      set_list (WaitQ w) [] k)"

text \<open>\<open>malloc_fn\<close> takes the size in bytes, computed in 32 bits.\<close>

definition k_stack_alloc_init ::
  "(u32 \<Rightarrow> nat option) \<Rightarrow> wqid \<Rightarrow> u32 \<Rightarrow> 'a kernel_scheme \<Rightarrow> int \<times> kstack option \<times> 'a kernel_scheme" where
  "k_stack_alloc_init malloc_fn w num_entries k =
     (case malloc_fn (num_entries * 4) of
        None \<Rightarrow> (- ENOMEM, None, k)
      | Some buffer \<Rightarrow> (case k_stack_init w buffer num_entries False k of
          (s, k) \<Rightarrow> (0, Some (s\<lparr>stk_alloc := True\<rparr>), k)))"

definition k_stack_cleanup :: "kstack \<Rightarrow> nat option \<times> kstack" where
  "k_stack_cleanup s =
     (if stk_alloc s then (Some (stk_base s), s\<lparr>stk_base := 0, stk_alloc := False\<rparr>) else (None, s))"

definition k_stack_push :: "kstack \<Rightarrow> u32 \<Rightarrow> words \<Rightarrow> 'a kernel_scheme \<Rightarrow> kstack \<times> words \<times> 'a kernel_scheme" where
  "k_stack_push s data m k =
     (case z_unpend_first_thread (stk_wait_q s) k of
        (Some t, k) \<Rightarrow> (s, m, z_reschedule (z_set_thread_return_value_with_data t 0 (unat data) (z_ready_thread t k)))
      | (None, k) \<Rightarrow> (s\<lparr>stk_next := stk_next s + 1\<rparr>, m(stk_next s := data), k))"

definition k_stack_pop ::
  "kstack \<Rightarrow> int \<Rightarrow> words \<Rightarrow> 'a kernel_scheme \<Rightarrow> (int \<times> u32 option) outcome \<times> kstack \<times> 'a kernel_scheme" where
  "k_stack_pop s timeout m k =
     (if stk_next s > stk_base s
      then (let s' = s\<lparr>stk_next := stk_next s - 1\<rparr> in (Done (0, Some (m (stk_next s'))), s', k))
      else if timeout = K_NO_WAIT then (Done (- EBUSY, None), s, k)
      else (Blocked, s, z_pend_curr (Some (stk_wait_q s)) timeout k))"

definition k_stack_pop_resume :: "tid \<Rightarrow> 'a kernel_scheme \<Rightarrow> int \<times> u32 option" where
  "k_stack_pop_resume t k =
     (if swap_retval (threads k t) = - EAGAIN then (- EAGAIN, None)
      else (0, Some (of_nat (swap_data (threads k t)))))"

section \<open>The stack as a list\<close>

definition stack_items :: "kstack \<Rightarrow> words \<Rightarrow> u32 list" where
  "stack_items s m = map m [stk_base s ..< stk_next s]"

text \<open>The next entry is in the buffer, and a thread waits only for an empty stack.\<close>

definition stack_inv :: "kstack \<Rightarrow> 'a kernel_scheme \<Rightarrow> bool" where
  "stack_inv s k \<longleftrightarrow> stk_base s \<le> stk_next s \<and> stk_next s \<le> stk_top s
     \<and> (waitq k (stk_wait_q s) \<noteq> [] \<longrightarrow> stk_next s = stk_base s)"

text \<open>
  A push on a stack that is not full hands the word to the first thread waiting in a pop, which
  then returns 0 with that word; with nobody waiting it adds the word, and a pop gives it back and
  restores the stack. Other words of the memory do not change.\<close>

theorem k_stack_push_pop:
  assumes "queues_ok k" and "stack_inv s k" and "pended_on (threads k (current k)) = None" and "stk_next s < stk_top s"
  shows "\<exists>s' m' k'. k_stack_push s data m k = (s', m', k') \<and> queues_ok k' \<and> stack_inv s' k'
    \<and> (case waitq k (stk_wait_q s) of
         t # ts \<Rightarrow> s' = s \<and> m' = m \<and> waitq k' (stk_wait_q s) = ts \<and> k_stack_pop_resume t k' = (0, Some data)
       | [] \<Rightarrow> stack_items s' m' = stack_items s m @ [data] \<and> (\<forall>a. a \<noteq> stk_next s \<longrightarrow> m' a = m a)
           \<and> k_stack_pop s' timeout m' k' = (Done (0, Some data), s, k'))"
proof (cases "waitq k (stk_wait_q s)")
  case Nil
  have "map (m(stk_next s := data)) [stk_base s ..< stk_next s] = map m [stk_base s ..< stk_next s]" by simp
  then show ?thesis
    using assms Nil
    by (auto simp: k_stack_push_def wq.unpend_none stack_inv_def stack_items_def k_stack_pop_def Let_def)
next
  case (Cons t ts)
  obtain k1 where "z_unpend_first_thread (stk_wait_q s) k = (Some t, k1)"
    and w: "woken k (stk_wait_q s) ts t 0 (unat data)
      (z_reschedule (z_set_thread_return_value_with_data t 0 (unat data) (z_ready_thread t k1)))"
    by (rule wake_first [OF assms(1) Cons assms(3), where v = 0 and d = "unat data"]) (rule that)
  then show ?thesis
    using assms(2) Cons fun_cong [of _ _ "stk_wait_q s"]
    by (auto simp: k_stack_push_def woken_def stack_inv_def k_stack_pop_resume_def ret_of_def data_of_def EAGAIN_def
        dest: fun_cong [of _ _ "stk_wait_q s"])
qed

definition demo_stack :: "wqid \<Rightarrow> kstack" where
  "demo_stack w = \<lparr>stk_base = 100, stk_next = 100, stk_top = 104, stk_wait_q = w, stk_alloc = False\<rparr>"

theorem k_stack_push_pop_witness:
  "\<exists>s' m' k'. k_stack_push (demo_stack 7) 42 (\<lambda>_. 0) demo_kernel = (s', m', k') \<and> waitq k' 7 = [3]
     \<and> k_stack_pop_resume 2 k' = (0, Some 42)"
  using k_stack_push_pop [OF demo_queues_ok, of "demo_stack 7" 42 "\<lambda>_. 0"]
  by (auto simp: demo_stack_def stack_inv_def demo_sel)

text \<open>Popping an empty stack returns \<open>-EBUSY\<close> without waiting; otherwise the caller waits in order of
  priority, and a wait that ends without a push returns \<open>-EAGAIN\<close> and no word.\<close>

theorem k_stack_pop_empty:
  assumes "queues_ok k" and "stack_inv s k" and "pended_on (threads k (current k)) = None"
    and "current k \<noteq> idle_thread k" and "stack_items s m = []"
  shows "case k_stack_pop s timeout m k of
      (Done r, s', k') \<Rightarrow> timeout = K_NO_WAIT \<and> r = (- EBUSY, None) \<and> s' = s \<and> k' = k
    | (Blocked, s', k') \<Rightarrow> timeout \<noteq> K_NO_WAIT \<and> s' = s \<and> queues_ok k' \<and> stack_inv s k'
        \<and> waitq k' (stk_wait_q s) = priq_insert k (current k) (waitq k (stk_wait_q s))
        \<and> k_stack_pop_resume (current k) k' = (- EAGAIN, None)"
proof -
  let ?p = "pend (current k) (Some (stk_wait_q s)) timeout k"
  have e: "stk_next s = stk_base s" using assms(2,5) by (auto simp: stack_items_def stack_inv_def)
  have "current k \<notin> set (waitq k (stk_wait_q s))" using queues_okD(3) [OF assms(1)] assms(3) by simp
  then have "waitq ?p (stk_wait_q s) = priq_insert k (current k) (waitq k (stk_wait_q s))"
    by (simp add: pend_lists [OF assms(1)] remove1_idem)
  moreover have "queues_ok ?p" by (rule queues_ok_pend [OF assms(1,3,4)])
  ultimately show ?thesis
    using e assms(2) by (auto simp: k_stack_pop_def z_pend_curr_def queues_ok_swap stack_inv_def k_stack_pop_resume_def)
qed

theorem k_stack_pop_empty_witness:
  "\<exists>k'. k_stack_pop (demo_stack 7) K_FOREVER (\<lambda>_. 0) demo_kernel = (Blocked, demo_stack 7, k')
     \<and> waitq k' 7 = [2, 3, 4] \<and> k_stack_pop_resume 4 k' = (- 11, None)"
  using k_stack_pop_empty [OF demo_queues_ok, of "demo_stack 7" "\<lambda>_. 0" K_FOREVER]
  by (auto simp: demo_stack_def stack_inv_def demo_sel stack_items_def k_stack_pop_def K_FOREVER_def K_NO_WAIT_def
      EAGAIN_def z_is_t1_higher_prio_than_t2_def)

text \<open>The byte size of a stack allocated at run time is computed in 32 bits without an overflow check:
  asking for \<open>2^30 + 1\<close> entries allocates 4 bytes and sets up a stack that believes it has them all.\<close>

theorem k_stack_alloc_init_overflows:
  "\<exists>s. fst (snd (k_stack_alloc_init (\<lambda>n. if n = 4 then Some b else None) w 0x40000001 k)) = Some s
     \<and> stk_top s - stk_base s = 2 ^ 30 + 1"
  by (simp add: k_stack_alloc_init_def k_stack_init_def)

end
