(* ===== verification/KMemSlab.thy ===== *)
theory KMemSlab
  imports KSched
begin

text \<open>
  Memory slabs, \<^verbatim>\<open>kernel/mem_slab.c\<close>: blocks of one size whose free ones are
  chained through their first word. The chain is in the pointer store
  \<open>slab_mem\<close> (0 is \<^verbatim>\<open>NULL\<close>); the invariant says which list of blocks it is.
\<close>

record slab =
  num_blocks :: u32
  block_size :: nat
  buffer :: nat
  free_list :: nat
  num_used :: u32
  slab_wait_q :: wqid

type_synonym ptrs = "nat \<Rightarrow> nat"

text \<open>The loop of \<^verbatim>\<open>create_free_list\<close> with \<open>n\<close> blocks still to chain, the next of them at \<open>p\<close>.\<close>

fun create_free_loop :: "nat \<Rightarrow> nat \<Rightarrow> nat \<Rightarrow> nat \<Rightarrow> ptrs \<Rightarrow> nat \<times> ptrs" where
  "create_free_loop 0 size_b p fl m = (fl, m)"
| "create_free_loop (Suc n) size_b p fl m = create_free_loop n size_b (p + size_b) p (m(p := fl))"

definition create_free_list :: "slab \<Rightarrow> ptrs \<Rightarrow> slab \<times> ptrs" where
  "create_free_list s m =
     (case create_free_loop (unat (num_blocks s)) (block_size s) (buffer s) 0 m of
        (fl, m) \<Rightarrow> (s\<lparr>free_list := fl\<rparr>, m))"

text \<open>\<^verbatim>\<open>init_mem_slab_module\<close> over the statically defined slabs.\<close>

fun init_mem_slab_module :: "slab list \<Rightarrow> ptrs \<Rightarrow> slab list \<times> ptrs" where
  "init_mem_slab_module [] m = ([], m)"
| "init_mem_slab_module (s # ss) m =
     (case create_free_list s m of (s, m) \<Rightarrow>
      case init_mem_slab_module ss m of (ss, m) \<Rightarrow> (s # ss, m))"

definition k_mem_slab_init ::
  "wqid \<Rightarrow> nat \<Rightarrow> nat \<Rightarrow> u32 \<Rightarrow> ptrs \<Rightarrow> 'a kernel_scheme \<Rightarrow> slab \<times> ptrs \<times> 'a kernel_scheme" where
  "k_mem_slab_init w buf bsize nblocks m k =
     (case create_free_list \<lparr>num_blocks = nblocks, block_size = bsize, buffer = buf, free_list = 0, num_used = 0,
         slab_wait_q = w\<rparr> m of (s, m) \<Rightarrow> (s, m, set_list (WaitQ w) [] k))"

text \<open>The block is the second component of the result: \<^verbatim>\<open>*mem\<close>.\<close>

definition k_mem_slab_alloc ::
  "slab \<Rightarrow> int \<Rightarrow> ptrs \<Rightarrow> 'a kernel_scheme \<Rightarrow> (int \<times> nat) outcome \<times> slab \<times> 'a kernel_scheme" where
  "k_mem_slab_alloc s timeout m k =
     (if free_list s \<noteq> 0
      then (Done (0, free_list s), s\<lparr>free_list := m (free_list s), num_used := num_used s + 1\<rparr>, k)
      else if timeout = K_NO_WAIT then (Done (- ENOMEM, 0), s, k)
      else (Blocked, s, z_pend_curr (Some (slab_wait_q s)) timeout k))"

definition k_mem_slab_alloc_resume :: "tid \<Rightarrow> 'a kernel_scheme \<Rightarrow> int \<times> nat option" where
  "k_mem_slab_alloc_resume t k =
     (let r = swap_retval (threads k t) in (r, if r = 0 then Some (swap_data (threads k t)) else None))"

definition k_mem_slab_free :: "slab \<Rightarrow> nat \<Rightarrow> ptrs \<Rightarrow> 'a kernel_scheme \<Rightarrow> slab \<times> ptrs \<times> 'a kernel_scheme" where
  "k_mem_slab_free s b m k =
     (case z_unpend_first_thread (slab_wait_q s) k of
        (Some t, k) \<Rightarrow> (s, m, z_reschedule (z_ready_thread t (z_set_thread_return_value_with_data t 0 b k)))
      | (None, k) \<Rightarrow> (s\<lparr>free_list := b, num_used := num_used s - 1\<rparr>, m(b := free_list s), k))"

section \<open>The free list\<close>

fun chain :: "ptrs \<Rightarrow> nat \<Rightarrow> nat list \<Rightarrow> bool" where
  "chain m p [] \<longleftrightarrow> p = 0"
| "chain m p (x # xs) \<longleftrightarrow> p = x \<and> x \<noteq> 0 \<and> chain m (m x) xs"

definition block_at :: "slab \<Rightarrow> nat \<Rightarrow> nat" where
  "block_at s i = buffer s + i * block_size s"

definition slab_blocks :: "slab \<Rightarrow> nat set" where
  "slab_blocks s = block_at s ` {..< unat (num_blocks s)}"

text \<open>
  \<open>free\<close> are the free blocks in order: distinct blocks of the slab, and with
  the used ones they make up all of it; threads wait only when there are none.
\<close>

definition slab_inv :: "slab \<Rightarrow> nat list \<Rightarrow> ptrs \<Rightarrow> 'a kernel_scheme \<Rightarrow> bool" where
  "slab_inv s free m k \<longleftrightarrow> chain m (free_list s) free \<and> distinct free \<and> set free \<subseteq> slab_blocks s
     \<and> unat (num_used s) + length free = unat (num_blocks s)
     \<and> (waitq k (slab_wait_q s) \<noteq> [] \<longrightarrow> free = [])"

lemma chain_upd: "b \<notin> set xs \<Longrightarrow> chain (m(b := v)) p xs = chain m p xs"
  by (induction xs arbitrary: p) auto

lemma create_free_loop_chain:
  assumes "chain m fl xs" and "\<forall>x\<in>set xs. x < p" and "0 < p" and "0 < bs"
  shows "case create_free_loop n bs p fl m of
    (fl', m') \<Rightarrow> chain m' fl' (rev (map (\<lambda>i. p + i * bs) [0..<n]) @ xs)"
  using assms
proof (induction n arbitrary: p fl m xs)
  case (Suc n)
  have "p \<notin> set xs" using Suc.prems(2) by auto
  then have "chain (m(p := fl)) p (p # xs)" using Suc.prems by (simp add: chain_upd)
  moreover have "\<forall>x\<in>set (p # xs). x < p + bs" using Suc.prems by auto
  ultimately have *: "case create_free_loop n bs (p + bs) p (m(p := fl)) of
    (fl', m') \<Rightarrow> chain m' fl' (rev (map (\<lambda>i. p + bs + i * bs) [0..<n]) @ p # xs)"
    using Suc.prems by (intro Suc.IH) auto
  have "map (\<lambda>i. p + i * bs) [0..<Suc n] = p # map (\<lambda>i. p + bs + i * bs) [0..<n]"
    by (simp add: upt_conv_Cons map_Suc_upt [symmetric] comp_def del: upt_Suc map_Suc_upt)
  with * show ?case by (simp del: upt_Suc)
qed simp

text \<open>
  A new slab has all its blocks free: the chain built through the buffer is the blocks, each once.\<close>

theorem k_mem_slab_init_all_free:
  assumes "0 < buf" and "0 < bsize"
  shows "\<exists>s m' k' free. k_mem_slab_init w buf bsize nblocks m k = (s, m', k') \<and> slab_inv s free m' k'
    \<and> set free = slab_blocks s \<and> length free = unat nblocks"
proof -
  let ?f = "rev (map (\<lambda>i. buf + i * bsize) [0..<unat nblocks])"
  obtain fl m' where c: "create_free_loop (unat nblocks) bsize buf 0 m = (fl, m')" by fastforce
  have "chain m' fl ?f" using create_free_loop_chain [of m 0 "[]" buf bsize "unat nblocks"] assms c by simp
  moreover have "inj_on (\<lambda>i. buf + i * bsize) {0..<unat nblocks}" using assms by (auto simp: inj_on_def)
  then have "distinct ?f" by (simp add: distinct_map)
  ultimately show ?thesis
    using c by (auto simp: k_mem_slab_init_def create_free_list_def slab_inv_def slab_blocks_def block_at_def
        atLeast0LessThan intro!: exI [of _ ?f])
qed

theorem k_mem_slab_init_all_free_witness:
  "\<exists>s m' k' free. k_mem_slab_init 9 1000 16 3 (\<lambda>_. 0) demo_kernel = (s, m', k') \<and> slab_inv s free m' k'
    \<and> length free = 3"
  using k_mem_slab_init_all_free [of 1000 16 9 3 "\<lambda>_. 0" demo_kernel] by auto

text \<open>
  Allocation takes a block that is free and that no later allocation gives out again. Without a free
  block a caller that does not wait gets \<open>-ENOMEM\<close> and a null pointer. The accounting of used blocks is kept.\<close>

theorem k_mem_slab_alloc_spec:
  assumes "slab_inv s free m k"
  shows "case k_mem_slab_alloc s timeout m k of
      (Done (r, b), s', k') \<Rightarrow> k' = k \<and>
        (if r = 0 then b \<in> set free \<and> b \<in> slab_blocks s \<and> slab_inv s' (remove1 b free) m k \<and> b \<notin> set (remove1 b free)
         else r = - ENOMEM \<and> b = 0 \<and> free = [] \<and> s' = s)
    | (Blocked, s', k') \<Rightarrow> free = [] \<and> timeout \<noteq> K_NO_WAIT \<and> s' = s
        \<and> k' = z_pend_curr (Some (slab_wait_q s)) timeout k"
proof (cases free)
  case Nil
  then show ?thesis using assms by (simp add: k_mem_slab_alloc_def slab_inv_def ENOMEM_def)
next
  case (Cons x xs)
  have "unat (num_used s) + Suc (length xs) = unat (num_blocks s)" using assms Cons by (simp add: slab_inv_def)
  then have "unat (num_used s) + 1 < 4294967296" using unat_u32_less [of "num_blocks s"] by linarith
  then have "unat (num_used s + 1) = unat (num_used s) + 1" by (simp add: unat_u32_add)
  with assms Cons show ?thesis
    by (auto simp: k_mem_slab_alloc_def slab_inv_def slab_blocks_def block_at_def)
qed

text \<open>Freeing a used block puts it first in the chain, or hands it to the first waiting thread, which then
  returns 0 with that block; no other word of the memory changes.\<close>

theorem k_mem_slab_free_spec:
  assumes "queues_ok k" and "slab_inv s free m k" and "pended_on (threads k (current k)) = None"
    and "b \<in> slab_blocks s" and "b \<notin> set free" and "b \<noteq> 0" and "num_used s \<noteq> 0"
  shows "\<exists>s' m' k'. k_mem_slab_free s b m k = (s', m', k') \<and> queues_ok k'
    \<and> (case waitq k (slab_wait_q s) of
         [] \<Rightarrow> slab_inv s' (b # free) m' k' \<and> (\<forall>a. a \<noteq> b \<longrightarrow> m' a = m a)
       | t # ts \<Rightarrow> slab_inv s' free m' k' \<and> k_mem_slab_alloc_resume t k' = (0, Some b))"
proof (cases "waitq k (slab_wait_q s)")
  case Nil
  have "unat (num_used s - 1) + 1 = unat (num_used s)"
    using assms(7) by (simp add: unat_minus_one unat_gt_0 Suc_leI)
  with Nil assms show ?thesis
    by (auto simp: k_mem_slab_free_def wq.unpend_none slab_inv_def chain_upd slab_blocks_def block_at_def)
next
  case (Cons t ts)
  obtain k1 where "z_unpend_first_thread (slab_wait_q s) k = (Some t, k1)"
    "woken k (slab_wait_q s) ts t 0 b (z_reschedule (z_ready_thread t (z_set_thread_return_value_with_data t 0 b k1)))"
    by (rule wake_first [OF assms(1) Cons assms(3), where v = 0 and d = b]) (rule that)
  then show ?thesis
    using assms(2) Cons
    by (auto simp: k_mem_slab_free_def woken_def slab_inv_def k_mem_slab_alloc_resume_def ret_of_def data_of_def)
qed


text \<open>A slab of three blocks at 1000, 1016 and 1032, the last one in use.\<close>

definition demo_slab :: slab where
  "demo_slab = \<lparr>num_blocks = 3, block_size = 16, buffer = 1000, free_list = 1016, num_used = 1, slab_wait_q = 9\<rparr>"

definition demo_ptrs :: ptrs where
  "demo_ptrs = (\<lambda>_. 0)(1016 := 1000, 1000 := 0)"

lemma demo_slab_inv: "slab_inv demo_slab [1016, 1000] demo_ptrs demo_kernel"
proof -
  have "{..<3 :: nat} = {0, Suc 0, 2}" by auto
  then have "slab_blocks demo_slab = {1000, 1016, 1032}" by (simp add: slab_blocks_def block_at_def demo_slab_def)
  then show ?thesis by (simp add: slab_inv_def demo_ptrs_def demo_sel) (simp add: demo_slab_def demo_sel)
qed

theorem k_mem_slab_alloc_spec_witness:
  "\<exists>s'. k_mem_slab_alloc demo_slab K_NO_WAIT demo_ptrs demo_kernel = (Done (0, 1016), s', demo_kernel)
     \<and> slab_inv s' [1000] demo_ptrs demo_kernel"
proof -
  have "k_mem_slab_alloc demo_slab K_NO_WAIT demo_ptrs demo_kernel
      = (Done (0, 1016), demo_slab\<lparr>free_list := 1000, num_used := 2\<rparr>, demo_kernel)"
    by (simp add: k_mem_slab_alloc_def demo_slab_def demo_ptrs_def)
  with k_mem_slab_alloc_spec [OF demo_slab_inv, of K_NO_WAIT] show ?thesis by simp
qed

theorem k_mem_slab_free_spec_witness:
  "\<exists>s' m' k'. k_mem_slab_free demo_slab 1032 demo_ptrs demo_kernel = (s', m', k')
     \<and> slab_inv s' [1032, 1016, 1000] m' k'"
proof -
  have "1032 = block_at demo_slab 2" by (simp add: block_at_def demo_slab_def)
  then have "1032 \<in> slab_blocks demo_slab" unfolding slab_blocks_def by (auto simp: demo_slab_def)
  with k_mem_slab_free_spec [OF demo_queues_ok demo_slab_inv, of 1032] show ?thesis
    by (auto simp: demo_sel) (auto simp: demo_slab_def demo_sel)
qed

end
