(* ===== verification/KMsgq.thy ===== *)
theory KMsgq
  imports KSched
begin

text \<open>
  Message queues, \<^verbatim>\<open>kernel/msg_q.c\<close>: a ring buffer of fixed-size messages in a
  byte store. A waiting thread's \<^verbatim>\<open>swap_data\<close> is the address of its message.
  The abstract queue is the list of the messages' bytes.
\<close>

record msgq =
  mq_msg_size :: u32
  mq_max_msgs :: u32
  mq_start :: nat
  mq_end :: nat
  mq_read :: nat
  mq_write :: nat
  mq_used :: u32
  mq_wait_q :: wqid
  mq_alloc :: bool

type_synonym store = "nat \<Rightarrow> u8"

definition copy_bytes :: "store \<Rightarrow> nat \<Rightarrow> nat \<Rightarrow> nat \<Rightarrow> store" where
  "copy_bytes m dst src n = (\<lambda>a. if dst \<le> a \<and> a < dst + n then m (src + (a - dst)) else m a)"

definition k_msgq_init ::
  "wqid \<Rightarrow> nat \<Rightarrow> u32 \<Rightarrow> u32 \<Rightarrow> 'a kernel_scheme \<Rightarrow> msgq \<times> 'a kernel_scheme" where
  "k_msgq_init w buf msg_size max_msgs k =
     (\<lparr>mq_msg_size = msg_size, mq_max_msgs = max_msgs, mq_start = buf, mq_end = buf + unat (max_msgs * msg_size),
       mq_read = buf, mq_write = buf, mq_used = 0, mq_wait_q = w, mq_alloc = False\<rparr>, set_list (WaitQ w) [] k)"

definition k_msgq_alloc_init ::
  "(u32 \<Rightarrow> nat option) \<Rightarrow> wqid \<Rightarrow> u32 \<Rightarrow> u32 \<Rightarrow> 'a kernel_scheme \<Rightarrow> int \<times> msgq option \<times> 'a kernel_scheme" where
  "k_msgq_alloc_init malloc_fn w msg_size max_msgs k =
     (if unat msg_size * unat max_msgs \<ge> 2 ^ 32 then (- EINVAL, None, k)
      else case malloc_fn (msg_size * max_msgs) of None \<Rightarrow> (- ENOMEM, None, k)
      | Some buf \<Rightarrow> (case k_msgq_init w buf msg_size max_msgs k of (q, k) \<Rightarrow> (0, Some (q\<lparr>mq_alloc := True\<rparr>), k)))"

definition k_msgq_cleanup :: "msgq \<Rightarrow> nat option \<times> msgq" where
  "k_msgq_cleanup q = (if mq_alloc q then (Some (mq_start q), q\<lparr>mq_alloc := False\<rparr>) else (None, q))"

definition mq_advance :: "msgq \<Rightarrow> nat \<Rightarrow> nat" where
  "mq_advance q p = (let p = p + unat (mq_msg_size q) in if p = mq_end q then mq_start q else p)"

definition k_msgq_put ::
  "msgq \<Rightarrow> nat \<Rightarrow> int \<Rightarrow> store \<Rightarrow> 'a kernel_scheme \<Rightarrow> int outcome \<times> msgq \<times> store \<times> 'a kernel_scheme" where
  "k_msgq_put q data timeout m k =
     (if mq_used q < mq_max_msgs q
      then (case z_unpend_first_thread (mq_wait_q q) k of
          (Some t, k) \<Rightarrow>
            (Done 0, q, copy_bytes m (swap_data (threads k t)) data (unat (mq_msg_size q)),
             z_reschedule (z_ready_thread t (z_set_thread_return_value t 0 k)))
        | (None, k) \<Rightarrow>
            (Done 0, q\<lparr>mq_write := mq_advance q (mq_write q), mq_used := mq_used q + 1\<rparr>,
             copy_bytes m (mq_write q) data (unat (mq_msg_size q)), k))
      else if timeout = K_NO_WAIT then (Done (- ENOMSG), q, m, k)
      else (Blocked, q, m, z_pend_curr (Some (mq_wait_q q)) timeout
              (upd_thread (current k) (\<lambda>th. th\<lparr>swap_data := data\<rparr>) k)))"

definition k_msgq_get_attrs :: "msgq \<Rightarrow> u32 \<times> u32 \<times> u32" where
  "k_msgq_get_attrs q = (mq_msg_size q, mq_max_msgs q, mq_used q)"

definition k_msgq_get ::
  "msgq \<Rightarrow> nat \<Rightarrow> int \<Rightarrow> store \<Rightarrow> 'a kernel_scheme \<Rightarrow> int outcome \<times> msgq \<times> store \<times> 'a kernel_scheme" where
  "k_msgq_get q data timeout m k =
     (if mq_used q > 0
      then (let m = copy_bytes m data (mq_read q) (unat (mq_msg_size q));
                q = q\<lparr>mq_read := mq_advance q (mq_read q), mq_used := mq_used q - 1\<rparr>
            in case z_unpend_first_thread (mq_wait_q q) k of
                (Some t, k) \<Rightarrow>
                  (Done 0, q\<lparr>mq_write := mq_advance q (mq_write q), mq_used := mq_used q + 1\<rparr>,
                   copy_bytes m (mq_write q) (swap_data (threads k t)) (unat (mq_msg_size q)),
                   z_reschedule (z_ready_thread t (z_set_thread_return_value t 0 k)))
              | (None, k) \<Rightarrow> (Done 0, q, m, k))
      else if timeout = K_NO_WAIT then (Done (- ENOMSG), q, m, k)
      else (Blocked, q, m, z_pend_curr (Some (mq_wait_q q)) timeout
              (upd_thread (current k) (\<lambda>th. th\<lparr>swap_data := data\<rparr>) k)))"

text \<open>What a blocked put or get returns when its thread \<open>t\<close> runs again.\<close>

definition k_msgq_resume :: "tid \<Rightarrow> 'a kernel_scheme \<Rightarrow> int" where
  "k_msgq_resume t k = swap_retval (threads k t)"

definition k_msgq_peek :: "msgq \<Rightarrow> nat \<Rightarrow> store \<Rightarrow> int \<times> store" where
  "k_msgq_peek q data m =
     (if mq_used q > 0 then (0, copy_bytes m data (mq_read q) (unat (mq_msg_size q))) else (- ENOMSG, m))"

text \<open>Each round of the purge takes a thread off the wait queue, so its length bounds the rounds.\<close>

fun purge_loop :: "nat \<Rightarrow> wqid \<Rightarrow> 'a kernel_scheme \<Rightarrow> 'a kernel_scheme" where
  "purge_loop 0 w k = k"
| "purge_loop (Suc n) w k =
     (case z_unpend_first_thread w k of (None, k) \<Rightarrow> k
      | (Some t, k) \<Rightarrow> purge_loop n w (z_ready_thread t (z_set_thread_return_value t (- ENOMSG) k)))"

definition k_msgq_purge :: "msgq \<Rightarrow> 'a kernel_scheme \<Rightarrow> msgq \<times> 'a kernel_scheme" where
  "k_msgq_purge q k =
     (q\<lparr>mq_used := 0, mq_read := mq_write q\<rparr>,
      z_reschedule (purge_loop (length (waitq k (mq_wait_q q))) (mq_wait_q q) k))"

section \<open>The ring buffer as a list\<close>

definition bytes_at :: "store \<Rightarrow> nat \<Rightarrow> nat \<Rightarrow> u8 list" where
  "bytes_at m a n = map m [a ..< a + n]"

definition slot :: "msgq \<Rightarrow> nat \<Rightarrow> nat" where
  "slot q i = mq_start q + (i mod unat (mq_max_msgs q)) * unat (mq_msg_size q)"

definition mq_msgs :: "msgq \<Rightarrow> store \<Rightarrow> nat \<Rightarrow> u8 list list" where
  "mq_msgs q m r = map (\<lambda>i. bytes_at m (slot q (r + i)) (unat (mq_msg_size q))) [0 ..< unat (mq_used q)]"

text \<open>\<open>r\<close> is the slot of the oldest message.\<close>

definition msgq_ring :: "msgq \<Rightarrow> nat \<Rightarrow> bool" where
  "msgq_ring q r \<longleftrightarrow> 0 < mq_msg_size q \<and> 0 < mq_max_msgs q \<and> mq_used q \<le> mq_max_msgs q
     \<and> mq_end q = mq_start q + unat (mq_max_msgs q) * unat (mq_msg_size q)
     \<and> mq_read q = slot q r \<and> mq_write q = slot q (r + unat (mq_used q))"

text \<open>Readers wait only for an empty queue, writers only for a full one.\<close>

definition msgq_inv :: "msgq \<Rightarrow> nat \<Rightarrow> 'a kernel_scheme \<Rightarrow> bool" where
  "msgq_inv q r k \<longleftrightarrow> msgq_ring q r
     \<and> (waitq k (mq_wait_q q) \<noteq> [] \<longrightarrow> mq_used q = 0 \<or> mq_used q = mq_max_msgs q)"

definition outside :: "msgq \<Rightarrow> nat \<Rightarrow> bool" where
  "outside q a \<longleftrightarrow> a + unat (mq_msg_size q) \<le> mq_start q \<or> mq_end q \<le> a"

lemma bytes_copy_same [simp]: "bytes_at (copy_bytes m d s n) d n = bytes_at m s n"
  by (rule nth_equalityI) (simp_all add: bytes_at_def copy_bytes_def)

lemma bytes_copy_other: "a + n \<le> d \<or> d + l \<le> a \<Longrightarrow> bytes_at (copy_bytes m d s l) a n = bytes_at m a n"
  by (auto simp: bytes_at_def copy_bytes_def)

lemma slot_apart:
  assumes "0 < unat (mq_max_msgs q)" and "i mod unat (mq_max_msgs q) \<noteq> j mod unat (mq_max_msgs q)"
  shows "slot q i + unat (mq_msg_size q) \<le> slot q j \<or> slot q j + unat (mq_msg_size q) \<le> slot q i"
proof -
  let ?n = "unat (mq_msg_size q)" and ?M = "unat (mq_max_msgs q)"
  have "Suc (i mod ?M) \<le> j mod ?M \<or> Suc (j mod ?M) \<le> i mod ?M" using assms(2) by linarith
  then have "Suc (i mod ?M) * ?n \<le> (j mod ?M) * ?n \<or> Suc (j mod ?M) * ?n \<le> (i mod ?M) * ?n"
    using mult_le_mono1 by blast
  then show ?thesis unfolding slot_def by (simp only: mult_Suc) linarith
qed

lemma slot_range:
  assumes "msgq_ring q r"
  shows "mq_start q \<le> slot q i" and "slot q i + unat (mq_msg_size q) \<le> mq_end q"
proof -
  let ?n = "unat (mq_msg_size q)" and ?M = "unat (mq_max_msgs q)"
  show "mq_start q \<le> slot q i" by (simp add: slot_def)
  have "i mod ?M < ?M" using assms by (simp add: msgq_ring_def word_less_nat_alt)
  then have "Suc (i mod ?M) * ?n \<le> ?M * ?n" by (intro mult_le_mono1) simp
  then show "slot q i + ?n \<le> mq_end q" using assms by (simp add: slot_def msgq_ring_def)
qed

lemma advance_slot:
  assumes "msgq_ring q r"
  shows "mq_advance q (slot q i) = slot q (Suc i)"
proof -
  let ?n = "unat (mq_msg_size q)" and ?M = "unat (mq_max_msgs q)"
  have p: "0 < ?n" "0 < ?M" using assms by (simp_all add: msgq_ring_def word_less_nat_alt)
  have e: "mq_end q = mq_start q + ?M * ?n" using assms by (simp add: msgq_ring_def)
  have "slot q i + ?n = mq_start q + Suc (i mod ?M) * ?n" by (simp add: slot_def)
  then have "slot q i + ?n = mq_end q \<longleftrightarrow> Suc (i mod ?M) = ?M" using p(1) e by (metis add_left_cancel mult_cancel2 neq0_conv)
  moreover have "Suc i mod ?M = (if Suc (i mod ?M) = ?M then 0 else Suc (i mod ?M))" by (simp add: mod_Suc)
  ultimately show ?thesis by (simp add: mq_advance_def Let_def slot_def)
qed

text \<open>Writing at the write position adds a message at the end.\<close>

lemma msgs_write:
  assumes "msgq_ring q r" and "mq_used q < mq_max_msgs q"
    and "q' = q\<lparr>mq_write := mq_advance q (mq_write q), mq_used := mq_used q + 1\<rparr>"
  shows "mq_msgs q' (copy_bytes m (mq_write q) d (unat (mq_msg_size q))) r = mq_msgs q m r @ [bytes_at m d (unat (mq_msg_size q))]"
    and "unat (mq_used q') = unat (mq_used q) + 1" and "mq_write q' = slot q (r + unat (mq_used q'))"
    and "slot q' = slot q"
proof -
  let ?n = "unat (mq_msg_size q)" and ?u = "unat (mq_used q)" and ?M = "unat (mq_max_msgs q)"
  have lt: "?u < ?M" using assms(2) by (simp add: word_less_nat_alt)
  then have "?u + 1 < 4294967296" using unat_u32_less [of "mq_max_msgs q"] by linarith
  then show u: "unat (mq_used q') = ?u + 1" by (simp add: assms(3) unat_u32_add)
  have w: "mq_write q = slot q (r + ?u)" using assms(1) by (simp add: msgq_ring_def)
  show "mq_write q' = slot q (r + unat (mq_used q'))" using u w advance_slot [OF assms(1)] by (simp add: assms(3))
  show sl: "slot q' = slot q" by (simp add: assms(3) slot_def fun_eq_iff)
  have keep: "bytes_at (copy_bytes m (mq_write q) d ?n) (slot q (r + i)) ?n = bytes_at m (slot q (r + i)) ?n" if "i < ?u" for i
    unfolding w using slot_apart [OF _ mod_window [OF that lt]] lt by (intro bytes_copy_other) auto
  have "mq_msgs q' (copy_bytes m (mq_write q) d ?n) r
      = map (\<lambda>i. bytes_at (copy_bytes m (mq_write q) d ?n) (slot q (r + i)) ?n) ([0..<?u] @ [?u])"
    using u by (simp add: mq_msgs_def sl) (simp add: assms(3))
  also have "\<dots> = mq_msgs q m r @ [bytes_at m d ?n]"
    using keep w by (simp add: mq_msgs_def)
  finally show "mq_msgs q' (copy_bytes m (mq_write q) d ?n) r = mq_msgs q m r @ [bytes_at m d ?n]" .
qed


lemma ring_write:
  assumes "msgq_ring q r" and "mq_used q < mq_max_msgs q"
    and "q' = q\<lparr>mq_write := mq_advance q (mq_write q), mq_used := mq_used q + 1\<rparr>"
  shows "msgq_ring q' r"
  using assms(1,2) msgs_write(2-4) [OF assms] by (simp add: msgq_ring_def word_le_nat_alt word_less_nat_alt assms(3))

text \<open>Dropping the message at the read position.\<close>

lemma msgs_drop:
  assumes "msgq_ring q r" and "0 < mq_used q" and "outside q d"
    and "q' = q\<lparr>mq_read := mq_advance q (mq_read q), mq_used := mq_used q - 1\<rparr>"
    and "m' = copy_bytes m d (mq_read q) (unat (mq_msg_size q))"
  shows "msgq_ring q' (Suc r)" and "mq_msgs q m r = bytes_at m' d (unat (mq_msg_size q)) # mq_msgs q' m' (Suc r)"
    and "unat (mq_used q') + 1 = unat (mq_used q)"
proof -
  let ?n = "unat (mq_msg_size q)" and ?u = "unat (mq_used q)"
  show u: "unat (mq_used q') + 1 = ?u"
    using assms(2) by (simp add: assms(4) unat_minus_one word_gt_0 unat_gt_0 Suc_leI)
  have sl: "slot q' = slot q" by (simp add: assms(4) slot_def fun_eq_iff)
  have rd: "mq_read q = slot q r" using assms(1) by (simp add: msgq_ring_def)
  have "mq_write q' = slot q (Suc r + unat (mq_used q'))"
    using assms(1) u by (simp add: msgq_ring_def assms(4) u [symmetric])
  moreover have "mq_used q' \<le> mq_max_msgs q" using assms(1) u by (simp add: msgq_ring_def word_le_nat_alt)
  ultimately show "msgq_ring q' (Suc r)"
    using assms(1) rd advance_slot [OF assms(1), of r] sl by (simp add: msgq_ring_def) (simp add: assms(4))
  have keep: "bytes_at m' (slot q i) ?n = bytes_at m (slot q i) ?n" for i
    unfolding assms(5) using slot_range [OF assms(1), of i] assms(3)
    by (intro bytes_copy_other) (auto simp: outside_def)
  have "mq_msgs q m r = map (\<lambda>i. bytes_at m (slot q (r + i)) ?n) (0 # map Suc [0..<unat (mq_used q')])"
    using u by (simp add: mq_msgs_def map_Suc_upt upt_conv_Cons)
  then show "mq_msgs q m r = bytes_at m' d ?n # mq_msgs q' m' (Suc r)"
    using keep rd by (simp add: mq_msgs_def sl assms(5) comp_def) (simp add: assms(4))
qed

section \<open>Correctness\<close>

text \<open>
  C30. Putting a message into a queue that is not full hands it to the first waiting reader, whose buffer
  then holds the message and whose get returns 0, or, with no reader waiting, appends it to the
  queued messages. Wrap-around of the ring buffer is included, and the invariants are kept.\<close>

theorem k_msgq_put_appends:
  assumes "queues_ok k" and "msgq_inv q r k" and "pended_on (threads k (current k)) = None"
    and "mq_used q < mq_max_msgs q"
  shows "\<exists>q' m' k'. k_msgq_put q data timeout m k = (Done 0, q', m', k') \<and> queues_ok k' \<and> msgq_inv q' r k'
    \<and> (case waitq k (mq_wait_q q) of
         [] \<Rightarrow> mq_msgs q' m' r = mq_msgs q m r @ [bytes_at m data (unat (mq_msg_size q))]
       | t # ts \<Rightarrow> q' = q \<and> bytes_at m' (data_of k t) (unat (mq_msg_size q)) = bytes_at m data (unat (mq_msg_size q))
           \<and> waitq k' (mq_wait_q q) = ts \<and> k_msgq_resume t k' = 0)"
proof (cases "waitq k (mq_wait_q q)")
  case Nil
  have ring: "msgq_ring q r" using assms(2) by (simp add: msgq_inv_def)
  show ?thesis
    using assms(1,4) Nil msgs_write(1) [OF ring assms(4) refl] ring_write [OF ring assms(4) refl]
    by (simp add: k_msgq_put_def wq.unpend_none msgq_inv_def)
next
  case (Cons t ts)
  obtain k1 where k1: "z_unpend_first_thread (mq_wait_q q) k = (Some t, k1)"
    "woken k (mq_wait_q q) ts t 0 (data_of k t) (z_reschedule (z_ready_thread t (z_set_thread_return_value t 0 k1)))"
    "swap_data (threads k1 t) = data_of k t"
    by (rule wake_first [OF assms(1) Cons assms(3), where v = 0 and d = 0]) (rule that)
  then show ?thesis
    using assms(2,4) Cons wokenD(1-3) [OF k1(2)] by (auto simp: k_msgq_put_def msgq_inv_def k_msgq_resume_def ret_of_def)
qed

text \<open>
  Getting from a queue that is not empty returns the oldest message and removes it; when a writer waits
  (the queue was full), its message takes the freed place at the end and its put returns 0.\<close>

theorem k_msgq_get_oldest:
  assumes "queues_ok k" and "msgq_inv q r k" and "pended_on (threads k (current k)) = None"
    and "0 < mq_used q" and "outside q data"
    and "\<forall>t\<in>set (waitq k (mq_wait_q q)). data_of k t + unat (mq_msg_size q) \<le> data \<or> data + unat (mq_msg_size q) \<le> data_of k t"
  shows "\<exists>q' m' k'. k_msgq_get q data timeout m k = (Done 0, q', m', k') \<and> queues_ok k' \<and> msgq_inv q' (Suc r) k'
    \<and> bytes_at m' data (unat (mq_msg_size q)) = hd (mq_msgs q m r)
    \<and> mq_msgs q' m' (Suc r) = tl (mq_msgs q m r)
        @ (case waitq k (mq_wait_q q) of [] \<Rightarrow> [] | t # ts \<Rightarrow> [bytes_at m (data_of k t) (unat (mq_msg_size q))])
    \<and> (\<forall>t ts. waitq k (mq_wait_q q) = t # ts \<longrightarrow> waitq k' (mq_wait_q q) = ts \<and> k_msgq_resume t k' = 0)"
proof -
  let ?n = "unat (mq_msg_size q)"
  have ring: "msgq_ring q r" using assms(2) by (simp add: msgq_inv_def)
  define q1 m1 where q1: "q1 = q\<lparr>mq_read := mq_advance q (mq_read q), mq_used := mq_used q - 1\<rparr>"
    and m1: "m1 = copy_bytes m data (mq_read q) ?n"
  note d = msgs_drop [OF ring assms(4,5) q1 m1]
  have lt: "mq_used q1 < mq_max_msgs q1"
    using d(3) ring by (simp add: msgq_ring_def word_less_nat_alt word_le_nat_alt) (simp add: q1)
  have f: "mq_msg_size q1 = mq_msg_size q" "mq_wait_q q1 = mq_wait_q q" by (simp_all add: q1)
  show ?thesis
  proof (cases "waitq k (mq_wait_q q)")
    case Nil
    have "k_msgq_get q data timeout m k = (Done 0, q1, m1, k)"
      using assms(4) Nil by (simp add: k_msgq_get_def wq.unpend_none Let_def q1 m1)
    with d(1,2) assms(1) Nil show ?thesis by (simp add: msgq_inv_def f)
  next
    case (Cons t ts)
    obtain k1 where k1: "z_unpend_first_thread (mq_wait_q q) k = (Some t, k1)"
      "woken k (mq_wait_q q) ts t 0 (data_of k t) (z_reschedule (z_ready_thread t (z_set_thread_return_value t 0 k1)))"
      "swap_data (threads k1 t) = data_of k t"
      by (rule wake_first [OF assms(1) Cons assms(3), where v = 0 and d = 0]) (rule that)
    let ?k = "z_reschedule (z_ready_thread t (z_set_thread_return_value t 0 k1))"
    define q2 m2 where q2: "q2 = q1\<lparr>mq_write := mq_advance q1 (mq_write q1), mq_used := mq_used q1 + 1\<rparr>"
      and m2: "m2 = copy_bytes m1 (mq_write q1) (data_of k t) (unat (mq_msg_size q1))"
    note w = msgs_write(1) [OF d(1) lt q2, of m1 "data_of k t", folded m2] and rw = ring_write [OF d(1) lt q2]
    have run: "k_msgq_get q data timeout m k = (Done 0, q2, m2, ?k)"
      using assms(4) k1(1,3) by (simp add: k_msgq_get_def Let_def q1 m1 q2 m2)
    have src: "bytes_at m1 (data_of k t) ?n = bytes_at m (data_of k t) ?n"
      unfolding m1 using assms(6) Cons by (intro bytes_copy_other) simp
    have dst: "bytes_at m2 data ?n = bytes_at m1 data ?n"
    proof -
      have "mq_write q1 = slot q1 (Suc r + unat (mq_used q1))" using d(1) by (simp add: msgq_ring_def)
      then have "mq_start q \<le> mq_write q1" "mq_write q1 + ?n \<le> mq_end q"
        using slot_range [OF d(1), of "Suc r + unat (mq_used q1)"] by (simp_all add: q1)
      then show ?thesis unfolding m2 using assms(5) f(1)
        by (intro bytes_copy_other) (auto simp: outside_def)
    qed
    have "mq_used q = mq_max_msgs q" using assms(2,4) Cons by (auto simp: msgq_inv_def)
    moreover have "mq_used q2 = mq_used q" by (simp add: q2 q1)
    ultimately have "mq_used q2 = mq_max_msgs q2" by (simp add: q2 q1)
    then have "msgq_inv q2 (Suc r) ?k" using rw by (simp add: msgq_inv_def)
    with run wokenD(1-3) [OF k1(2)] w src dst d(2) f Cons show ?thesis
      by (simp add: k_msgq_resume_def ret_of_def)
  qed
qed


lemma purge_loop_wakes:
  assumes "queues_ok k" and "waitq k w = ts"
  shows "queues_ok (purge_loop (length ts) w k) \<and> waitq (purge_loop (length ts) w k) w = []
    \<and> current (purge_loop (length ts) w k) = current k
    \<and> (\<forall>t. ret_of (purge_loop (length ts) w k) t = (if t \<in> set ts then - ENOMSG else ret_of k t))"
  using assms
proof (induction ts arbitrary: k)
  case (Cons t ts)
  obtain k1 where k1: "z_unpend_first_thread w k = (Some t, k1)"
    "queues_ok (z_ready_thread t (z_set_thread_return_value t (- ENOMSG) k1))"
    "waitq (z_ready_thread t (z_set_thread_return_value t (- ENOMSG) k1)) = (waitq k)(w := ts)"
    "ret_of (z_ready_thread t (z_set_thread_return_value t (- ENOMSG) k1)) = (ret_of k)(t := - ENOMSG)"
    "current (z_ready_thread t (z_set_thread_return_value t (- ENOMSG) k1)) = current k"
    by (rule wq.hand_over [OF Cons.prems, where v = "- ENOMSG"]) (rule that)
  let ?k = "z_ready_thread t (z_set_thread_return_value t (- ENOMSG) k1)"
  have "waitq ?k w = ts" using fun_cong [OF k1(3), of w] by simp
  from Cons.IH [OF k1(2) this] k1(1,4,5) show ?case by simp
qed simp

text \<open>Purging empties the queue and wakes every waiting thread with \<open>-ENOMSG\<close>; the loop ends.\<close>

theorem k_msgq_purge_empties:
  assumes "queues_ok k" and "msgq_inv q r k" and "pended_on (threads k (current k)) = None"
  shows "\<exists>q' k'. k_msgq_purge q k = (q', k') \<and> queues_ok k' \<and> msgq_inv q' (r + unat (mq_used q)) k'
    \<and> mq_msgs q' m (r + unat (mq_used q)) = [] \<and> waitq k' (mq_wait_q q) = []
    \<and> (\<forall>t\<in>set (waitq k (mq_wait_q q)). k_msgq_resume t k' = - ENOMSG)"
proof -
  let ?w = "mq_wait_q q"
  let ?k = "purge_loop (length (waitq k ?w)) ?w k"
  note p = purge_loop_wakes [OF assms(1) refl, of ?w]
  have "t \<noteq> current k" if "t \<in> set (waitq k ?w)" for t
    using queues_okD(3) [OF assms(1), of t ?w] assms(3) that by auto
  then have "\<forall>t\<in>set (waitq k ?w). ret_of (z_reschedule ?k) t = - ENOMSG" using p by (simp add: reschedule_ret)
  moreover have "msgq_ring (q\<lparr>mq_used := 0, mq_read := mq_write q\<rparr>) (r + unat (mq_used q))"
    using assms(2) by (simp add: msgq_inv_def msgq_ring_def slot_def)
  ultimately show ?thesis using p
    by (simp add: k_msgq_purge_def queues_ok_reschedule msgq_inv_def mq_msgs_def k_msgq_resume_def ret_of_def)
qed

text \<open>A queue of four 2-byte messages at 100, holding one message; threads 2 and 3 wait on queue 7, not on it.\<close>

definition demo_msgq :: "u32 \<Rightarrow> wqid \<Rightarrow> msgq" where
  "demo_msgq u w = \<lparr>mq_msg_size = 2, mq_max_msgs = 4, mq_start = 100, mq_end = 108, mq_read = 106,
     mq_write = 100 + 2 * ((3 + unat u) mod 4), mq_used = u, mq_wait_q = w, mq_alloc = False\<rparr>"

lemma demo_msgq_ring: "u \<le> 4 \<Longrightarrow> msgq_ring (demo_msgq u w) 3"
  by (simp add: msgq_ring_def demo_msgq_def slot_def)

lemma demo_msgq_inv: "msgq_inv (demo_msgq 1 9) 3 demo_kernel" "msgq_inv (demo_msgq 0 7) 3 demo_kernel"
  by (simp_all add: msgq_inv_def demo_msgq_ring) (simp_all add: demo_msgq_def demo_sel)

theorem k_msgq_put_appends_witness:
  "\<exists>q' m' k'. k_msgq_put (demo_msgq 1 9) 500 K_NO_WAIT (\<lambda>a. of_nat a) demo_kernel = (Done 0, q', m', k')
     \<and> mq_msgs q' m' 3 = [[106, 107], [244, 245]]"
proof -
  have u: "mq_used (demo_msgq 1 9) < mq_max_msgs (demo_msgq 1 9)" by (simp add: demo_msgq_def)
  have "mq_msgs (demo_msgq 1 9) (\<lambda>a. of_nat a) 3 = [[106, 107]]" "bytes_at (\<lambda>a. of_nat a) 500 2 = [244, 245]"
    by (simp_all add: mq_msgs_def demo_msgq_def bytes_at_def slot_def upt_conv_Cons)
  with k_msgq_put_appends [OF demo_queues_ok demo_msgq_inv(1) _ u, of 500 K_NO_WAIT "\<lambda>a. of_nat a"] show ?thesis
    by (auto simp: demo_sel demo_msgq_def)
qed

theorem k_msgq_get_oldest_witness:
  "\<exists>q' m' k'. k_msgq_get (demo_msgq 1 9) 500 K_NO_WAIT (\<lambda>a. of_nat a) demo_kernel = (Done 0, q', m', k')
     \<and> bytes_at m' 500 2 = [106, 107] \<and> mq_msgs q' m' 4 = []"
proof -
  have "mq_msgs (demo_msgq 1 9) (\<lambda>a. of_nat a) 3 = [[106, 107]]"
    by (simp add: mq_msgs_def demo_msgq_def bytes_at_def slot_def upt_conv_Cons)
  with k_msgq_get_oldest [OF demo_queues_ok demo_msgq_inv(1), of 500 K_NO_WAIT "\<lambda>a. of_nat a"] show ?thesis
    by (auto simp: demo_sel demo_msgq_def outside_def)
qed

theorem k_msgq_purge_empties_witness:
  "\<exists>q' k'. k_msgq_purge (demo_msgq 0 7) demo_kernel = (q', k') \<and> waitq k' 7 = []
     \<and> k_msgq_resume 2 k' = - ENOMSG \<and> k_msgq_resume 3 k' = - ENOMSG"
  using k_msgq_purge_empties [OF demo_queues_ok demo_msgq_inv(2), where m = "\<lambda>_. 0"] by (auto simp: demo_sel demo_msgq_def)

end
