(* ===== verification/KQueue.thy ===== *)
theory KQueue
  imports KSched
begin

text \<open>
  Queues (the base of FIFOs and LIFOs), \<^verbatim>\<open>kernel/queue.c\<close> without
  \<^verbatim>\<open>CONFIG_POLL\<close>. The linked list of nodes is a list; a node is an item put in
  directly, or an allocated \<^verbatim>\<open>struct alloc_node\<close> with the address of the item.
  \<^verbatim>\<open>z_thread_malloc\<close> is a parameter (the address it returns, if any); \<^verbatim>\<open>k_free\<close>
  is the address handed back.
\<close>

datatype qnode = Direct nat | Alloc nat nat

record queue =
  data_q :: "qnode list"
  q_wait_q :: wqid

fun node_addr :: "qnode \<Rightarrow> nat" where
  "node_addr (Direct d) = d"
| "node_addr (Alloc a d) = a"

text \<open>The item of a node and, if the node is to be freed, the address to free.\<close>

definition z_queue_node_peek :: "qnode option \<Rightarrow> bool \<Rightarrow> nat \<times> nat option" where
  "z_queue_node_peek node needs_free =
     (case node of None \<Rightarrow> (0, None) | Some (Direct d) \<Rightarrow> (d, None)
      | Some (Alloc a d) \<Rightarrow> (d, if needs_free then Some a else None))"

definition k_queue_init :: "wqid \<Rightarrow> 'a kernel_scheme \<Rightarrow> queue \<times> 'a kernel_scheme" where
  "k_queue_init w k = (\<lparr>data_q = [], q_wait_q = w\<rparr>, set_list (WaitQ w) [] k)"

definition prepare_thread_to_run :: "tid \<Rightarrow> nat \<Rightarrow> 'a kernel_scheme \<Rightarrow> 'a kernel_scheme" where
  "prepare_thread_to_run t data k = z_set_thread_return_value_with_data t 0 data (z_ready_thread t k)"

definition k_queue_cancel_wait :: "queue \<Rightarrow> 'a kernel_scheme \<Rightarrow> 'a kernel_scheme" where
  "k_queue_cancel_wait q k =
     z_reschedule (case z_unpend_first_thread (q_wait_q q) k of
       (Some t, k) \<Rightarrow> prepare_thread_to_run t 0 k | (None, k) \<Rightarrow> k)"

text \<open>\<^verbatim>\<open>sys_sflist_insert\<close>: at the head for a null \<open>prev\<close>, else after the node at \<open>prev\<close>.\<close>

fun insert_after :: "nat \<Rightarrow> qnode \<Rightarrow> qnode list \<Rightarrow> qnode list option" where
  "insert_after p n [] = None"
| "insert_after p n (x # xs) =
     (if node_addr x = p then Some (x # n # xs) else map_option (Cons x) (insert_after p n xs))"

definition sflist_insert :: "nat \<Rightarrow> qnode \<Rightarrow> qnode list \<Rightarrow> qnode list option" where
  "sflist_insert prev n xs = (if prev = 0 then Some (n # xs) else insert_after prev n xs)"

definition peek_tail :: "queue \<Rightarrow> nat" where
  "peek_tail q = (if data_q q = [] then 0 else node_addr (last (data_q q)))"

text \<open>
  \<open>anode\<close> is \<open>None\<close> without allocation, else what the allocator returns. The
  result is \<open>None\<close> if \<open>prev\<close> is no node of the list.
\<close>

definition queue_insert ::
  "queue \<Rightarrow> nat \<Rightarrow> nat \<Rightarrow> nat option option \<Rightarrow> 'a kernel_scheme \<Rightarrow> (int \<times> queue \<times> 'a kernel_scheme) option" where
  "queue_insert q prev data anode k =
     (case z_unpend_first_thread (q_wait_q q) k of
        (Some t, k) \<Rightarrow> Some (0, q, z_reschedule (prepare_thread_to_run t data k))
      | (None, k) \<Rightarrow>
        (case anode of Some None \<Rightarrow> Some (- ENOMEM, q, k)
         | Some (Some a) \<Rightarrow> map_option (\<lambda>l. (0, q\<lparr>data_q := l\<rparr>, z_reschedule k)) (sflist_insert prev (Alloc a data) (data_q q))
         | None \<Rightarrow> map_option (\<lambda>l. (0, q\<lparr>data_q := l\<rparr>, z_reschedule k)) (sflist_insert prev (Direct data) (data_q q))))"

definition k_queue_insert where
  "k_queue_insert q prev data k = map_option snd (queue_insert q prev data None k)"

definition k_queue_append where
  "k_queue_append q data k = map_option snd (queue_insert q (peek_tail q) data None k)"

definition k_queue_prepend where
  "k_queue_prepend q data k = map_option snd (queue_insert q 0 data None k)"

definition k_queue_alloc_append where
  "k_queue_alloc_append q data anode k = queue_insert q (peek_tail q) data (Some anode) k"

definition k_queue_alloc_prepend where
  "k_queue_alloc_prepend q data anode k = queue_insert q 0 data (Some anode) k"

text \<open>
  The loop of \<^verbatim>\<open>k_queue_append_list\<close>: the items still to hand out, and the waiting thread taken
  from the wait queue for the next of them.
\<close>

fun append_list_loop ::
  "wqid \<Rightarrow> nat list \<Rightarrow> tid option \<Rightarrow> 'a kernel_scheme \<Rightarrow> nat list \<times> 'a kernel_scheme" where
  "append_list_loop w (d # ds) (Some t) k =
     (case z_unpend_first_thread w (prepare_thread_to_run t d k) of (t', k) \<Rightarrow> append_list_loop w ds t' k)"
| "append_list_loop w [] thread k = ([], k)"
| "append_list_loop w ds None k = (ds, k)"

definition k_queue_append_list :: "queue \<Rightarrow> nat list \<Rightarrow> 'a kernel_scheme \<Rightarrow> queue \<times> 'a kernel_scheme" where
  "k_queue_append_list q ds k =
     (let (thread, k) = (if ds \<noteq> [] then z_unpend_first_thread (q_wait_q q) k else (None, k));
          (rest, k) = append_list_loop (q_wait_q q) ds thread k
      in (q\<lparr>data_q := data_q q @ map Direct rest\<rparr>, z_reschedule k))"

definition k_queue_merge_slist :: "queue \<Rightarrow> nat list \<Rightarrow> 'a kernel_scheme \<Rightarrow> nat list \<times> queue \<times> 'a kernel_scheme" where
  "k_queue_merge_slist q list k = ([], k_queue_append_list q list k)"

definition k_queue_get ::
  "queue \<Rightarrow> int \<Rightarrow> 'a kernel_scheme \<Rightarrow> (nat \<times> nat option) outcome \<times> queue \<times> 'a kernel_scheme" where
  "k_queue_get q timeout k =
     (case data_q q of
        n # ns \<Rightarrow> (Done (z_queue_node_peek (Some n) True), q\<lparr>data_q := ns\<rparr>, k)
      | [] \<Rightarrow> if timeout = K_NO_WAIT then (Done (0, None), q, k)
              else (Blocked, q, z_pend_curr (Some (q_wait_q q)) timeout k))"

definition k_queue_get_resume :: "tid \<Rightarrow> 'a kernel_scheme \<Rightarrow> nat" where
  "k_queue_get_resume t k = (if swap_retval (threads k t) \<noteq> 0 then 0 else swap_data (threads k t))"

section \<open>The queue as a list of items\<close>

definition items :: "queue \<Rightarrow> nat list" where
  "items q = map (\<lambda>n. fst (z_queue_node_peek (Some n) True)) (data_q q)"

text \<open>Nodes have distinct addresses, none of them null, and nobody waits while there are items.\<close>

definition queue_inv :: "queue \<Rightarrow> 'a kernel_scheme \<Rightarrow> bool" where
  "queue_inv q k \<longleftrightarrow> distinct (map node_addr (data_q q)) \<and> 0 \<notin> set (map node_addr (data_q q))
     \<and> (waitq k (q_wait_q q) \<noteq> [] \<longrightarrow> data_q q = [])"

lemma insert_after_last:
  "distinct (map node_addr xs) \<Longrightarrow> xs \<noteq> [] \<Longrightarrow> insert_after (node_addr (last xs)) n xs = Some (xs @ [n])"
proof (induction xs)
  case (Cons x xs)
  then show ?case by (cases "xs = []") (auto simp: image_iff)
qed simp

lemma insert_at_tail: "queue_inv q k \<Longrightarrow> sflist_insert (peek_tail q) n (data_q q) = Some (data_q q @ [n])"
  unfolding queue_inv_def peek_tail_def sflist_insert_def
  by (auto simp: insert_after_last)

text \<open>
  Appending hands the item to the first waiting thread, whose get then returns it, or adds it at the
  end of the queue; with an allocated node, a failed allocation reports \<open>-ENOMEM\<close> and changes nothing
  (and no allocation is needed when a thread waits). A get returns the oldest item and frees its node.\<close>

theorem k_queue_fifo:
  assumes "queues_ok k" and "queue_inv q k" and "pended_on (threads k (current k)) = None"
  shows "\<exists>r q' k'. k_queue_alloc_append q data anode k = Some (r, q', k') \<and> queues_ok k'
    \<and> (case waitq k (q_wait_q q) of
         t # ts \<Rightarrow> r = 0 \<and> q' = q \<and> waitq k' (q_wait_q q) = ts \<and> k_queue_get_resume t k' = data
       | [] \<Rightarrow> case anode of
           None \<Rightarrow> r = - ENOMEM \<and> q' = q \<and> k' = k
         | Some a \<Rightarrow> r = 0 \<and> items q' = items q @ [data]
             \<and> (\<exists>q''. k_queue_get q' timeout k' = (Done (hd (items q'), snd (z_queue_node_peek (Some (hd (data_q q'))) True)), q'', k')
                  \<and> items q'' = tl (items q')))"
proof (cases "waitq k (q_wait_q q)")
  case Nil
  show ?thesis
  proof (cases anode)
    case None
    then show ?thesis using Nil assms(1) by (simp add: k_queue_alloc_append_def queue_insert_def wq.unpend_none)
  next
    case (Some a)
    obtain n ns where l: "data_q q @ [Alloc a data] = n # ns" by (cases "data_q q @ [Alloc a data]") auto
    have i: "items (q\<lparr>data_q := data_q q @ [Alloc a data]\<rparr>) = items q @ [data]"
      by (simp add: items_def z_queue_node_peek_def)
    have "hd (items q @ [data]) = fst (z_queue_node_peek (Some n) True)" "tl (items q @ [data]) = items (q\<lparr>data_q := ns\<rparr>)"
      unfolding i [symmetric] l by (simp_all add: items_def)
    moreover have "k_queue_get (q\<lparr>data_q := n # ns\<rparr>) timeout k' = (Done (z_queue_node_peek (Some n) True), q\<lparr>data_q := ns\<rparr>, k')"
      for k' :: "'a kernel_scheme"
      by (simp add: k_queue_get_def)
    ultimately show ?thesis
      using Some Nil assms(1) insert_at_tail [OF assms(2), of "Alloc a data"] i l
      by (simp add: k_queue_alloc_append_def queue_insert_def wq.unpend_none queues_ok_reschedule)
  qed
next
  case (Cons t ts)
  obtain k1 where k1: "z_unpend_first_thread (q_wait_q q) k = (Some t, k1)"
    "woken k (q_wait_q q) ts t 0 data (z_reschedule (z_set_thread_return_value_with_data t 0 data (z_ready_thread t k1)))"
    by (rule wake_first [OF assms(1) Cons assms(3), where v = 0 and d = data]) (rule that)
  then show ?thesis
    using Cons wokenD(1-4) [OF k1(2)]
    by (simp add: k_queue_alloc_append_def queue_insert_def prepare_thread_to_run_def k_queue_get_resume_def ret_of_def data_of_def)
qed

text \<open>The reference: a thread is taken from the wait queue only when there is an item for it.\<close>

fun hand_list :: "wqid \<Rightarrow> nat list \<Rightarrow> 'a kernel_scheme \<Rightarrow> nat list \<times> 'a kernel_scheme" where
  "hand_list w [] k = ([], k)"
| "hand_list w (d # ds) k =
     (case z_unpend_first_thread w k of (None, k) \<Rightarrow> (d # ds, k)
      | (Some t, k) \<Rightarrow> hand_list w ds (prepare_thread_to_run t d k))"

text \<open>The code takes one thread more than that when the items run out.\<close>

lemma append_list_loop_eq:
  "ds \<noteq> [] \<Longrightarrow>
   (case z_unpend_first_thread w k of (thread, k) \<Rightarrow> append_list_loop w ds thread k) =
   (case hand_list w ds k of (rest, k') \<Rightarrow> (rest, if rest = [] then snd (z_unpend_first_thread w k') else k'))"
proof (induction ds arbitrary: k)
  case (Cons d ds)
  then show ?case by (cases "ds = []") (auto split: prod.splits option.splits)
qed simp

text \<open>Handing a list of items to the waiting threads, one each, in the order of the wait queue.\<close>

lemma hand_list_hands_out:
  assumes "queues_ok k" and "waitq k w = ts"
  shows "\<exists>k'. hand_list w ds k = (drop (length ts) ds, k') \<and> queues_ok k' \<and> current k' = current k
    \<and> waitq k' = (waitq k)(w := drop (length ds) ts)
    \<and> (\<forall>t. ret_data k' t = (case map_of (zip ts ds) t of Some d \<Rightarrow> (0, d) | None \<Rightarrow> ret_data k t))"
  using assms
proof (induction ds arbitrary: k ts)
  case Nil
  then show ?case by (auto simp: fun_eq_iff)
next
  case (Cons d ds)
  show ?case
  proof (cases ts)
    case Nil
    then show ?thesis using Cons.prems by (auto simp: wqd.unpend_none fun_eq_iff)
  next
    case (Cons t us)
    note w = Cons.prems(2) [unfolded Cons]
    obtain k1 where k1: "z_unpend_first_thread w k = (Some t, k1)"
      "queues_ok (set_ret_data t (0, d) (z_ready_thread t k1))"
      "waitq (set_ret_data t (0, d) (z_ready_thread t k1)) = (waitq k)(w := us)"
      "ret_data (set_ret_data t (0, d) (z_ready_thread t k1)) = (ret_data k)(t := (0, d))"
      "current (set_ret_data t (0, d) (z_ready_thread t k1)) = current k"
      by (rule wqd.hand_over [OF Cons.prems(1) w, where v = "(0, d)"]) (rule that)
    let ?k = "set_ret_data t (0, d) (z_ready_thread t k1)"
    have wu: "waitq ?k w = us" using fun_cong [OF k1(3), of w] by simp
    have tu: "t \<notin> set us" using queues_okD(1) [OF Cons.prems(1), of "WaitQ w"] w by simp
    obtain k' where k': "hand_list w ds ?k = (drop (length us) ds, k')" "queues_ok k'" "current k' = current k"
      "waitq k' = (waitq ?k)(w := drop (length ds) us)"
      "\<forall>x. ret_data k' x = (case map_of (zip us ds) x of Some e \<Rightarrow> (0, e) | None \<Rightarrow> ret_data ?k x)"
      using Cons.IH [OF k1(2) wu] unfolding k1(5) by blast
    have "map_of (zip us ds) t = None" using tu by (auto simp: map_of_eq_None_iff dest: set_zip_leftD)
    then have "ret_data k' x = (case map_of (zip ts (d # ds)) x of Some e \<Rightarrow> (0, e) | None \<Rightarrow> ret_data k x)" for x
      using k'(5) k1(4) Cons by (auto simp: split: option.split)
    moreover have "hand_list w (d # ds) k = hand_list w ds ?k"
      using k1(1) by (simp add: prepare_thread_to_run_def set_ret_data_def)
    moreover have "waitq k' = (waitq k)(w := drop (length (d # ds)) ts)" unfolding k'(4) k1(3) using Cons by simp
    ultimately show ?thesis using k'(1-3) Cons by (simp add: fun_upd_def del: hand_list.simps)
  qed
qed


text \<open>The whole call, when the list is not empty.\<close>

lemma append_list_state:
  assumes "queues_ok k" and "waitq k (q_wait_q q) = ts" and "ds \<noteq> []"
  obtains k1 k2 where "hand_list (q_wait_q q) ds k = (drop (length ts) ds, k1)"
    and "k_queue_append_list q ds k = (q\<lparr>data_q := data_q q @ map Direct (drop (length ts) ds)\<rparr>, z_reschedule k2)"
    and "k2 = (if length ds \<le> length ts then snd (z_unpend_first_thread (q_wait_q q) k1) else k1)"
    and "queues_ok k1" and "current k1 = current k" and "waitq k1 (q_wait_q q) = drop (length ds) ts"
    and "queues_ok k2" and "current k2 = current k" and "waitq k2 (q_wait_q q) = drop (Suc (length ds)) ts"
    and "\<And>t. ret_data k2 t = (case map_of (zip ts ds) t of Some d \<Rightarrow> (0, d) | None \<Rightarrow> ret_data k t)"
proof -
  let ?w = "q_wait_q q"
  obtain k1 where k1: "hand_list ?w ds k = (drop (length ts) ds, k1)" "queues_ok k1" "current k1 = current k"
    "waitq k1 = (waitq k)(?w := drop (length ds) ts)"
    "\<forall>t. ret_data k1 t = (case map_of (zip ts ds) t of Some d \<Rightarrow> (0, d) | None \<Rightarrow> ret_data k t)"
    using hand_list_hands_out [OF assms(1,2)] by blast
  let ?k2 = "if length ds \<le> length ts then snd (z_unpend_first_thread ?w k1) else k1"
  have e: "k_queue_append_list q ds k
      = (q\<lparr>data_q := data_q q @ map Direct (drop (length ts) ds)\<rparr>, z_reschedule ?k2)"
    using append_list_loop_eq [OF assms(3), of ?w k] assms(3)
    by (simp add: k_queue_append_list_def k1(1) split: prod.splits)
  have w1: "waitq k1 ?w = drop (length ds) ts" using fun_cong [OF k1(4), of ?w] by simp
  have k2: "queues_ok ?k2 \<and> current ?k2 = current k \<and> waitq ?k2 ?w = drop (Suc (length ds)) ts \<and> ret_data ?k2 = ret_data k1"
  proof (cases "drop (length ds) ts")
    case Nil
    then show ?thesis using k1(2,3) w1 wqd.unpend_none [of k1 ?w] by (simp del: fun_upd_apply)
  next
    case (Cons t us)
    have "drop (Suc (length ds)) ts = us" using Cons by (metis drop_Suc list.sel(3) tl_drop)
    moreover have "length ds \<le> length ts" using Cons by (metis drop_all linear list.distinct(1))
    ultimately show ?thesis using wqd.unpend_some [OF k1(2), of ?w t us] w1 Cons k1(3) by fastforce
  qed
  show ?thesis by (rule that [OF k1(1) e refl k1(2,3) w1]) (use k1(5) k2 in simp_all)
qed

text \<open>A list of items appended at once goes, in order, to the waiting threads in the order of the wait queue,
  one item each, and the items left over are appended to the queue. The threads left over go on waiting, except
  that the call takes one of them out of the wait queue when the items run out.\<close>

theorem k_queue_append_list_hands_out:
  assumes "queues_ok k" and "pended_on (threads k (current k)) = None" and "waitq k (q_wait_q q) = ts" and "ds \<noteq> []"
  shows "\<exists>q' k'. k_queue_append_list q ds k = (q', k') \<and> queues_ok k'
    \<and> items q' = items q @ drop (length ts) ds \<and> waitq k' (q_wait_q q) = drop (Suc (length ds)) ts
    \<and> (\<forall>i. i < length ts \<and> i < length ds \<longrightarrow> k_queue_get_resume (ts ! i) k' = ds ! i)"
proof -
  obtain k1 k2 where k2: "k_queue_append_list q ds k = (q\<lparr>data_q := data_q q @ map Direct (drop (length ts) ds)\<rparr>, z_reschedule k2)"
    "queues_ok k2" "current k2 = current k" "waitq k2 (q_wait_q q) = drop (Suc (length ds)) ts"
    "\<And>t. ret_data k2 t = (case map_of (zip ts ds) t of Some d \<Rightarrow> (0, d) | None \<Rightarrow> ret_data k t)"
    by (rule append_list_state [OF assms(1,3,4)]) (rule that)
  have d: "distinct ts" using queues_okD(1) [OF assms(1), of "WaitQ (q_wait_q q)"] assms(3) by simp
  have "k_queue_get_resume (ts ! i) (z_reschedule k2) = ds ! i" if i: "i < length ts" "i < length ds" for i
  proof -
    have "ts ! i \<noteq> current k" using queues_okD(3) [OF assms(1), of "ts ! i" "q_wait_q q"] assms(2,3) i by auto
    moreover have "map_of (zip ts ds) (ts ! i) = Some (ds ! i)"
      using d i by (intro map_of_is_SomeI) (auto simp: set_zip map_fst_zip_take distinct_take intro!: exI [of _ i])
    then have "ret_data k2 (ts ! i) = (0, ds ! i)" using k2(5) by simp
    ultimately have "ret_of (z_reschedule k2) (ts ! i) = 0" "data_of (z_reschedule k2) (ts ! i) = ds ! i"
      using k2(3) by (simp_all add: ret_data_def reschedule_ret reschedule_data)
    then show ?thesis by (simp add: k_queue_get_resume_def ret_of_def data_of_def)
  qed
  moreover have "items (q\<lparr>data_q := data_q q @ map Direct xs\<rparr>) = items q @ xs" for xs
    by (simp add: items_def comp_def z_queue_node_peek_def)
  ultimately show ?thesis using k2(1,2,4) by (simp add: queues_ok_reschedule)
qed

text \<open>
  C31. With fewer items than waiting threads, the first waiter that gets no item is taken out of the wait
  queue and never made ready: afterwards it is in no queue and no longer pending, so a later insertion finds
  neither it nor anything that would run it again.\<close>

theorem k_queue_append_list_loses_waiter:
  assumes "queues_ok k" and "waitq k (q_wait_q q) = ts" and "ds \<noteq> []" and "length ds < length ts"
  shows "(\<forall>l. ts ! length ds \<notin> set (qlists (snd (k_queue_append_list q ds k)) l))
    \<and> pended_on (threads (snd (k_queue_append_list q ds k)) (ts ! length ds)) = None"
proof -
  let ?t = "ts ! length ds" let ?w = "q_wait_q q"
  obtain k1 k2 where k: "k_queue_append_list q ds k = (q\<lparr>data_q := data_q q @ map Direct (drop (length ts) ds)\<rparr>, z_reschedule k2)"
    "k2 = (if length ds \<le> length ts then snd (z_unpend_first_thread ?w k1) else k1)"
    "queues_ok k1" "waitq k1 ?w = drop (length ds) ts" "queues_ok k2"
    by (rule append_list_state [OF assms(1-3)]) (rule that)
  have w: "waitq k1 ?w = ?t # drop (Suc (length ds)) ts" using k(4) assms(4) by (simp add: Cons_nth_drop_Suc)
  have k2: "k2 = snd (z_abort_thread_timeout ?t (z_unpend_thread_no_timeout ?t k1))"
    using k(2) assms(4) w by (simp add: unpend_first_eq)
  have p: "pended_on (threads k2 ?t) = None" unfolding k2 by simp
  moreover have "?t \<notin> set (runq k2)"
    using unpend_first_some [OF k(3) w] k(2) assms(4) queues_okD(2) [OF k(5), of ?t] by (auto simp: wakeable_def)
  moreover have "?t \<notin> set (waitq k2 v)" for v using queues_okD(3) [OF k(5), of ?t v] p by simp
  ultimately have "?t \<notin> set (qlists k2 l)" for l by (cases l) simp_all
  moreover have "pended_on (threads (z_reschedule k2) ?t) = None" using p by (cases "?t = current k2") (simp_all add: z_reschedule_def z_swap_def)
  ultimately show ?thesis using k(1) by simp
qed

lemma demo_queue_inv: "queue_inv \<lparr>data_q = [], q_wait_q = 7\<rparr> demo_kernel"
  "queue_inv \<lparr>data_q = [Direct 640], q_wait_q = 9\<rparr> demo_kernel"
  by (simp_all add: queue_inv_def demo_sel)

theorem k_queue_append_list_hands_out_witness:
  "\<exists>q' k'. k_queue_append_list \<lparr>data_q = [], q_wait_q = 7\<rparr> [640, 656, 672] demo_kernel = (q', k')
     \<and> items q' = [672] \<and> waitq k' 7 = [] \<and> k_queue_get_resume 2 k' = 640 \<and> k_queue_get_resume 3 k' = 656"
proof -
  have "waitq demo_kernel (q_wait_q \<lparr>data_q = [], q_wait_q = 7\<rparr>) = [2, 3]" by (simp add: demo_sel)
  from k_queue_append_list_hands_out [OF demo_queues_ok _ this, of "[640, 656, 672]"]
  obtain q' k' where "k_queue_append_list \<lparr>data_q = [], q_wait_q = 7\<rparr> [640, 656, 672] demo_kernel = (q', k')"
    "items q' = [672]" "waitq k' 7 = []"
    and r: "\<forall>i. i < 2 \<and> i < 3 \<longrightarrow> k_queue_get_resume ([2, 3] ! i) k' = [640, 656, 672] ! i"
    by (auto simp: demo_sel items_def)
  moreover from spec [OF r, of 0] spec [OF r, of 1] have "k_queue_get_resume 2 k' = 640" "k_queue_get_resume 3 k' = 656"
    by simp_all
  ultimately show ?thesis by blast
qed

theorem k_queue_append_list_loses_waiter_witness:
  "\<forall>l. 3 \<notin> set (qlists (snd (k_queue_append_list \<lparr>data_q = [], q_wait_q = 7\<rparr> [640] demo_kernel)) l)"
proof -
  have "waitq demo_kernel (q_wait_q \<lparr>data_q = [], q_wait_q = 7\<rparr>) = [2, 3]" by (simp add: demo_sel)
  from k_queue_append_list_loses_waiter [OF demo_queues_ok this, of "[640]"] show ?thesis by simp
qed

theorem k_queue_fifo_witness:
  "\<exists>q' k'. k_queue_alloc_append \<lparr>data_q = [Direct 640], q_wait_q = 9\<rparr> 656 (Some 800) demo_kernel = Some (0, q', k')
     \<and> items q' = [640, 656] \<and> (\<exists>q''. k_queue_get q' K_NO_WAIT k' = (Done (640, None), q'', k') \<and> items q'' = [656])"
proof -
  have i: "items \<lparr>data_q = [Direct 640], q_wait_q = 9\<rparr> = [640]" by (simp add: items_def z_queue_node_peek_def)
  have a: "k_queue_alloc_append \<lparr>data_q = [Direct 640], q_wait_q = 9\<rparr> 656 (Some 800) demo_kernel
      = Some (0, \<lparr>data_q = [Direct 640, Alloc 800 656], q_wait_q = 9\<rparr>, z_reschedule demo_kernel)"
    by (simp add: k_queue_alloc_append_def queue_insert_def wq.unpend_none demo_sel peek_tail_def sflist_insert_def)
  from k_queue_fifo [OF demo_queues_ok demo_queue_inv(2), of 656 "Some 800" K_NO_WAIT] show ?thesis
    by (auto simp: a i demo_sel z_queue_node_peek_def)
qed

end
