(* ===== verification/KTimer.thy ===== *)
theory KTimer
  imports KClock
begin

text \<open>
  Timers, \<^verbatim>\<open>kernel/timer.c\<close>. The timers are a table in an extension of the
  kernel state, since their callback runs inside \<^verbatim>\<open>z_clock_announce\<close>. The
  expiry and stop functions of the application are parameters, called when
  the timer has one.
\<close>

record ktimer =
  tm_period :: int
  tm_status :: u32
  tm_wait_q :: wqid
  tm_expiry :: bool
  tm_stop :: bool

record tkernel = kernel +
  timers :: "nat \<Rightarrow> ktimer"

definition upd_timer :: "nat \<Rightarrow> (ktimer \<Rightarrow> ktimer) \<Rightarrow> 'a tkernel_scheme \<Rightarrow> 'a tkernel_scheme" where
  "upd_timer n f k = k\<lparr>timers := (timers k)(n := f (timers k n))\<rparr>"

definition z_timer_expiration_handler ::
  "(nat \<Rightarrow> 'a tkernel_scheme \<Rightarrow> 'a tkernel_scheme) \<Rightarrow> nat \<Rightarrow> 'a tkernel_scheme \<Rightarrow> 'a tkernel_scheme" where
  "z_timer_expiration_handler expiry n k =
     (let k = (if tm_period (timers k n) > 0 then z_add_timeout (Tmr n) (tm_period (timers k n)) k else k);
          k = upd_timer n (\<lambda>t. t\<lparr>tm_status := tm_status t + 1\<rparr>) k;
          k = (if tm_expiry (timers k n) then expiry n k else k)
      in case waitq k (tm_wait_q (timers k n)) of [] \<Rightarrow> k
         | th # _ \<Rightarrow> z_set_thread_return_value th 0 (z_ready_thread th (z_unpend_thread_no_timeout th k)))"

definition k_timer_init :: "nat \<Rightarrow> wqid \<Rightarrow> bool \<Rightarrow> bool \<Rightarrow> int \<Rightarrow> 'a tkernel_scheme \<Rightarrow> 'a tkernel_scheme" where
  "k_timer_init n w expiry_fn stop_fn junk k =
     set_list (WaitQ w) [] (upd_timer n (\<lambda>_. \<lparr>tm_period = junk, tm_status = 0, tm_wait_q = w, tm_expiry = expiry_fn,
       tm_stop = stop_fn\<rparr>) k)"

definition k_timer_start :: "nat \<Rightarrow> int \<Rightarrow> int \<Rightarrow> 'a tkernel_scheme \<Rightarrow> 'a tkernel_scheme" where
  "k_timer_start n duration period k =
     (let k = snd (z_abort_timeout (Tmr n) k);
          k = upd_timer n (\<lambda>t. t\<lparr>tm_period := z_ms_to_ticks period, tm_status := 0\<rparr>) k
      in z_add_timeout (Tmr n) (z_ms_to_ticks duration) k)"

definition k_timer_stop ::
  "(nat \<Rightarrow> 'a tkernel_scheme \<Rightarrow> 'a tkernel_scheme) \<Rightarrow> nat \<Rightarrow> 'a tkernel_scheme \<Rightarrow> 'a tkernel_scheme" where
  "k_timer_stop stop n k =
     (case z_abort_timeout (Tmr n) k of (r, k) \<Rightarrow>
      if r \<noteq> 0 then k
      else (let k = (if tm_stop (timers k n) then stop n k else k)
            in case z_unpend1_no_timeout (tm_wait_q (timers k n)) k of
                 (None, k) \<Rightarrow> k | (Some th, k) \<Rightarrow> z_reschedule (z_ready_thread th k)))"

definition k_timer_status_get :: "nat \<Rightarrow> 'a tkernel_scheme \<Rightarrow> u32 \<times> 'a tkernel_scheme" where
  "k_timer_status_get n k = (tm_status (timers k n), upd_timer n (\<lambda>t. t\<lparr>tm_status := 0\<rparr>) k)"

text \<open>\<^verbatim>\<open>k_timer_status_sync\<close> up to the point where it waits, and the rest of it after the wait.\<close>

definition k_timer_status_sync :: "nat \<Rightarrow> 'a tkernel_scheme \<Rightarrow> u32 outcome \<times> 'a tkernel_scheme" where
  "k_timer_status_sync n k =
     (let result = tm_status (timers k n) in
      if result = 0 \<and> \<not> z_is_inactive_timeout k (Tmr n)
      then (Blocked, z_pend_curr (Some (tm_wait_q (timers k n))) K_FOREVER k)
      else (Done result, upd_timer n (\<lambda>t. t\<lparr>tm_status := 0\<rparr>) k))"

definition k_timer_status_sync_resume :: "nat \<Rightarrow> 'a tkernel_scheme \<Rightarrow> u32 \<times> 'a tkernel_scheme" where
  "k_timer_status_sync_resume n k = k_timer_status_get n k"

text \<open>The callback of each timeout, in a system with threads and timers.\<close>

definition timer_fn ::
  "(nat \<Rightarrow> 'a tkernel_scheme \<Rightarrow> 'a tkernel_scheme) \<Rightarrow> toid \<Rightarrow> 'a tkernel_scheme \<Rightarrow> 'a tkernel_scheme" where
  "timer_fn expiry to k =
     (case to of Thr t \<Rightarrow> z_thread_timeout t k | Tmr n \<Rightarrow> z_timer_expiration_handler expiry n k | Wrk _ \<Rightarrow> k)"

section \<open>What the operations leave alone\<close>

text \<open>The fields of the extension follow the extension as a whole.\<close>

lemma timers_more: "kernel.more k = kernel.more k' \<Longrightarrow> timers k = timers k'" for k k' :: "'a tkernel_scheme"
  by (cases k, cases k') simp

lemma upd_timer_sel [simp]:
  "threads (upd_timer n f k) = threads k" "qlists (upd_timer n f k) = qlists k"
  "timeout_list (upd_timer n f k) = timeout_list k" "dticks (upd_timer n f k) = dticks k"
  "curr_tick (upd_timer n f k) = curr_tick k" "announce_remaining (upd_timer n f k) = announce_remaining k"
  "hw_elapsed (upd_timer n f k) = hw_elapsed k" "current (upd_timer n f k) = current k"
  "idle_thread (upd_timer n f k) = idle_thread k"
  "timers (upd_timer n f k) = (timers k)(n := f (timers k n))"
  by (simp_all add: upd_timer_def)

lemma timers_sel [simp]:
  fixes k :: "'a tkernel_scheme"
  shows "timers (z_add_timeout to d k) = timers k" "timers (z_thread_timeout t k) = timers k"
    "timers (z_ready_thread t k) = timers k" "timers (z_unpend_thread_no_timeout t k) = timers k"
    "timers (z_set_thread_return_value t v k) = timers k" "timers (z_time_slice d k) = timers k"
    "timers (fire_state to k) = timers k"
  by (rule timers_more; simp)+


section \<open>Timers in the timeout queue\<close>

text \<open>Periods and the ticks not yet announced are in range.\<close>

definition periods_ok :: "'a tkernel_scheme \<Rightarrow> bool" where
  "periods_ok k \<longleftrightarrow> 0 \<le> hw_elapsed k \<and> hw_elapsed k < 2 ^ 30 \<and> (\<forall>n. tm_period (timers k n) < 2 ^ 30)"

lemma fire_state_elapsed [simp]: "hw_elapsed (fire_state t k) = hw_elapsed k"
  by (simp add: fire_state_def remove_timeout_def Let_def split: option.split)

lemma insert_abs_due: "0 < d \<Longrightarrow> filter (\<lambda>(_, x). x \<le> 0) (insert_abs to d xs) = filter (\<lambda>(_, x). x \<le> (0 :: int)) xs"
  by (induction to d xs rule: insert_abs.induct) auto

lemma rearm_timeouts:
  assumes "timeouts_ok k" and "periods_ok k" and "Tmr n \<notin> set (timeout_list k)" and "0 < tm_period (timers k n)"
  shows "timeouts_ok (z_add_timeout (Tmr n) (tm_period (timers k n)) k)"
    and "length (timeout_list (z_add_timeout (Tmr n) (tm_period (timers k n)) k)) = Suc (length (timeout_list k))"
    and "due_now (z_add_timeout (Tmr n) (tm_period (timers k n)) k) = due_now k"
    and "expiries (z_add_timeout (Tmr n) (tm_period (timers k n)) k)
      = insert_abs (Tmr n) (tm_period (timers k n) + elapsed k) (expiries k)"
proof -
  let ?p = "tm_period (timers k n)"
  let ?k = "z_add_timeout (Tmr n) ?p k"
  have e: "0 \<le> elapsed k" "elapsed k < 2 ^ 30" using assms(2) by (auto simp: elapsed_def periods_ok_def)
  have "?p < 2 ^ 30" using assms(2) by (simp add: periods_ok_def)
  then have "max 1 ?p + elapsed k \<le> INT_MAX" using e by (simp add: INT_MAX_def max_def)
  note a = add_timeout_expiries [OF assms(1,3) e(1) this]
  show "timeouts_ok ?k" by (rule a(3))
  show ex: "expiries ?k = insert_abs (Tmr n) (?p + elapsed k) (expiries k)" using a(1) assms(4) by (simp add: max_def)
  have "distinct (timeout_list ?k)" "distinct (timeout_list k)" using a(3) assms(1) by (simp_all add: timeouts_ok_def)
  then show "length (timeout_list ?k) = Suc (length (timeout_list k))"
    using a(2) assms(3) by (metis card_insert_disjoint distinct_card finite_set)
  show "due_now ?k = due_now k" unfolding due_now_def ex using e(1) assms(4) by (subst insert_abs_due) simp_all
qed

text \<open>What a timer relies on: its expiry function leaves the clock, the timeouts and the timers' periods alone.\<close>

locale timer_expiry =
  fixes expiry :: "nat \<Rightarrow> 'a tkernel_scheme \<Rightarrow> 'a tkernel_scheme"
  assumes expiry_same: "timeout_list (expiry n k) = timeout_list k" "dticks (expiry n k) = dticks k"
      "curr_tick (expiry n k) = curr_tick k" "announce_remaining (expiry n k) = announce_remaining k"
      "hw_elapsed (expiry n k) = hw_elapsed k" "tm_period (timers (expiry n k) i) = tm_period (timers k i)"
begin

lemma handler_clock:
  "curr_tick (z_timer_expiration_handler expiry n k) = curr_tick k"
  "announce_remaining (z_timer_expiration_handler expiry n k) = announce_remaining k"
  "hw_elapsed (z_timer_expiration_handler expiry n k) = hw_elapsed k"
  "tm_period (timers (z_timer_expiration_handler expiry n k) i) = tm_period (timers k i)"
  by (auto simp: z_timer_expiration_handler_def Let_def expiry_same split: list.split)

lemma handler_timeouts:
  "timeout_list (z_timer_expiration_handler expiry n k) = timeout_list (if tm_period (timers k n) > 0
     then z_add_timeout (Tmr n) (tm_period (timers k n)) k else k)"
  "dticks (z_timer_expiration_handler expiry n k) = dticks (if tm_period (timers k n) > 0
     then z_add_timeout (Tmr n) (tm_period (timers k n)) k else k)"
  by (auto simp: z_timer_expiration_handler_def Let_def expiry_same split: list.split)

lemma handler_ok:
  assumes "periods_ok k" and "timeouts_ok k" and "Tmr n \<notin> set (timeout_list k)"
  shows "timeouts_ok (z_timer_expiration_handler expiry n k) \<and> periods_ok (z_timer_expiration_handler expiry n k)
    \<and> length (timeout_list (z_timer_expiration_handler expiry n k)) \<le> Suc (length (timeout_list k))
    \<and> due_now (z_timer_expiration_handler expiry n k) \<le> due_now k"
proof -
  let ?h = "z_timer_expiration_handler expiry n k"
  let ?a = "if tm_period (timers k n) > 0 then z_add_timeout (Tmr n) (tm_period (timers k n)) k else k"
  have "timeouts_ok ?a" using rearm_timeouts(1) [OF assms(2,1,3)] assms(2) by simp
  then have "timeouts_ok ?h" by (rule timeouts_ok_cong) (rule handler_timeouts)+
  moreover have "expiries ?h = expiries ?a" by (rule expiries_cong) (rule handler_timeouts)+
  then have "due_now ?h = due_now ?a" by (simp only: due_now_def)
  moreover have "periods_ok ?h" using assms(1) by (simp add: periods_ok_def handler_clock)
  ultimately show ?thesis
    unfolding handler_timeouts using rearm_timeouts(2,3) [OF assms(2,1,3)] by simp
qed

end

lemma thread_timeout_elapsed [simp]: "hw_elapsed (z_thread_timeout t k) = hw_elapsed k"
  by (simp add: z_thread_timeout_def Let_def)

sublocale timer_expiry \<subseteq> clk: bounded_callbacks "timer_fn expiry" periods_ok
proof unfold_locales
  fix k :: "'a tkernel_scheme" and t
  assume k: "periods_ok k" "timeouts_ok k" "t \<notin> set (timeout_list k)"
  have thr: "timeouts_ok (z_thread_timeout x k)" "due_now (z_thread_timeout x k) = due_now k" for x
    using timeouts_ok_cong [OF k(2), of "z_thread_timeout x k"] expiries_cong [of "z_thread_timeout x k" k] by (simp_all add: due_now_def)
  show "timeouts_ok (timer_fn expiry t k) \<and> periods_ok (timer_fn expiry t k)"
    using k thr handler_ok by (cases t) (auto simp: timer_fn_def periods_ok_def)
  show "length (timeout_list (timer_fn expiry t k)) \<le> Suc (length (timeout_list k)) \<and> due_now (timer_fn expiry t k) \<le> due_now k"
    using k thr handler_ok by (cases t) (auto simp: timer_fn_def)
next
  fix k :: "'a tkernel_scheme" and t
  show "curr_tick (timer_fn expiry t k) = curr_tick k" "announce_remaining (timer_fn expiry t k) = announce_remaining k"
    by (simp_all add: timer_fn_def handler_clock split: toid.split)
qed (simp_all add: periods_ok_def)

text \<open>Timers without an expiry function.\<close>

interpretation plain: timer_expiry "\<lambda>n k. k"
  by unfold_locales simp_all


section \<open>Correctness\<close>

text \<open>With periodic timers, which re-arm themselves in their callback, an announcement still returns: the
  loop needs no more rounds than the ticks times the timeouts. The clock advances by exactly the
  announced ticks and no timeout is left overdue.\<close>

theorem announce_with_timers:
  assumes "periods_ok k" and "timeouts_ok k" and "0 \<le> ticks"
    and "nat ticks * Suc (length (timeout_list k)) + length (timeout_list k) < n"
  shows "\<exists>k'. z_clock_announce n (timer_fn (\<lambda>n k. k)) ticks k = Some k' \<and> timeouts_ok k' \<and> announce_remaining k' = 0
    \<and> curr_tick k' = (curr_tick k + nat ticks) mod 2 ^ 64 \<and> (\<forall>(t, x)\<in>set (expiries k'). 0 < x)"
  by (rule plain.clk.announce_accounts [OF assms])

text \<open>How often a timer with period \<open>p\<close>, due in \<open>x\<close> ticks, expires within \<open>r\<close> ticks.\<close>

definition expirations :: "int \<Rightarrow> int \<Rightarrow> int \<Rightarrow> nat" where
  "expirations x p r = (if x \<le> r then Suc (nat ((r - x) div p)) else 0)"

lemma expirations_step: "0 < p \<Longrightarrow> x \<le> r \<Longrightarrow> expirations x p r = Suc (expirations p p (r - x))"
proof -
  assume p: "0 < p" "x \<le> r"
  show ?thesis
  proof (cases "p \<le> r - x")
    case True
    have "(r - x - p) div p + 1 = (r - x) div p"
      using div_add_self2 [of p "r - x - p"] p(1) by simp
    moreover have "0 \<le> (r - x - p) div p" using True p(1) by (simp add: pos_imp_zdiv_nonneg_iff)
    ultimately show ?thesis using True p by (simp add: expirations_def)
  next
    case False
    then have "(r - x) div p = 0" using p by (simp add: div_pos_pos_trivial)
    then show ?thesis using False p by (simp add: expirations_def)
  qed
qed

lemma fire_state_qlists [simp]: "qlists (fire_state t k) = qlists k"
  by (simp add: fire_state_def remove_timeout_def Let_def split: option.split)

text \<open>A lone periodic timer that fires: it is queued again, one period ahead.\<close>

lemma lone_timer_fires:
  assumes "timeouts_ok k" and "timeout_list k = [Tmr n]" and "tm_period (timers k n) = p" and "0 < p" "p < 2 ^ 30"
    and "hw_elapsed k = 0" and "waitq k (tm_wait_q (timers k n)) = []" and "tm_expiry (timers k n) = False"
  defines "k' \<equiv> timer_fn (\<lambda>n k. k) (Tmr n) (fire_state (Tmr n) k)"
  shows "timeout_list k' = [Tmr n]" and "dticks k' (Tmr n) = p" and "timeouts_ok k'"
    and "announce_remaining k' = announce_remaining k - dticks k (Tmr n)"
    and "timers k' = (timers k)(n := (timers k n)\<lparr>tm_status := tm_status (timers k n) + 1\<rparr>)"
    and "hw_elapsed k' = 0" and "qlists k' = qlists k"
proof -
  let ?f = "fire_state (Tmr n) k"
  note f = fire_state_timeouts [OF assms(1,2)]
  have el: "elapsed ?f = 0" using assms(6) by (simp add: elapsed_def)
  have s: "s32 (max 1 p + 0) = p" using assms(4,5) by (simp add: s32_id max_def)
  have k': "k' = upd_timer n (\<lambda>t. t\<lparr>tm_status := tm_status t + 1\<rparr>) (z_add_timeout (Tmr n) p ?f)"
    using assms(3,4,7,8) by (simp add: k'_def timer_fn_def z_timer_expiration_handler_def Let_def)
  have tl: "timeout_list k' = [Tmr n]" "dticks k' = (dticks ?f)(Tmr n := p)"
    using el s f(2) by (simp_all add: k' z_add_timeout_def Let_def z_clock_set_timeout_def)
  then show "timeout_list k' = [Tmr n]" "dticks k' (Tmr n) = p" by simp_all
  show "timeouts_ok k'" using tl assms(4,5) by (simp add: timeouts_ok_def expiries_def INT_MAX_def)
  show "timers k' = (timers k)(n := (timers k n)\<lparr>tm_status := tm_status (timers k n) + 1\<rparr>)" by (simp add: k')
qed (use assms(6) in \<open>simp_all add: k'_def timer_fn_def z_timer_expiration_handler_def Let_def assms(7,8)\<close>)

lemma lone_timer_loop:
  assumes "timeouts_ok k" and "timeout_list k = [Tmr n]" and "tm_period (timers k n) = p" and "0 < p" "p < 2 ^ 30"
    and "hw_elapsed k = 0" and "waitq k (tm_wait_q (timers k n)) = []" and "tm_expiry (timers k n) = False"
    and "0 \<le> announce_remaining k" and "nat (announce_remaining k) + of_bool (dticks k (Tmr n) = 0) < m"
    and "dticks k (Tmr n) = x" and "announce_remaining k = r"
  shows "\<exists>k'. announce_loop m (timer_fn (\<lambda>n k. k)) k = Some k' \<and> timeout_list k' = [Tmr n]
    \<and> dticks k' (Tmr n) - announce_remaining k' = x + int (expirations x p r) * p - r
    \<and> tm_status (timers k' n) = tm_status (timers k n) + of_nat (expirations x p r)"
  using assms
proof (induction m arbitrary: k x r)
  case (Suc m)
  show ?case
  proof (cases "x \<le> r")
    case False
    then show ?thesis using Suc.prems by (simp add: announce_loop_round expirations_def del: announce_loop.simps)
  next
    case True
    let ?k = "timer_fn (\<lambda>n k. k) (Tmr n) (fire_state (Tmr n) k)"
    note l = lone_timer_fires [OF Suc.prems(1-8)]
    have x0: "0 \<le> x" using Suc.prems(1,2,11) by (simp add: timeouts_ok_def)
    have "nat (r - x) < m" using x0 True Suc.prems(10,11,12) by (cases "x = 0") auto
    then have "\<exists>k'. announce_loop m (timer_fn (\<lambda>n k. k)) ?k = Some k' \<and> timeout_list k' = [Tmr n]
      \<and> dticks k' (Tmr n) - announce_remaining k' = p + int (expirations p p (r - x)) * p - (r - x)
      \<and> tm_status (timers k' n) = tm_status (timers ?k n) + of_nat (expirations p p (r - x))"
      using True Suc.prems(3-8,11,12) l by (intro Suc.IH) simp_all
    moreover have "tm_status (timers ?k n) = tm_status (timers k n) + 1" using l(5) by simp
    moreover have "announce_loop (Suc m) (timer_fn (\<lambda>n k. k)) k = announce_loop m (timer_fn (\<lambda>n k. k)) ?k"
      using True Suc.prems(2,11,12) by (simp add: announce_loop_round del: announce_loop.simps)
    ultimately show ?thesis using expirations_step [OF Suc.prems(4) True] by (auto simp: algebra_simps)
  qed
qed simp


lemma time_slice_waitq: "waitq k w = [] \<Longrightarrow> waitq (z_time_slice d k) w = []"
  by (simp add: z_time_slice_def z_move_thread_to_end_of_prio_q_def Let_def)

text \<open>
  A periodic timer keeps time: announcing any number of ticks at once counts, in its status, exactly the
  expirations that fall into them (one at the due time and one every period after that), and
  leaves it due at the next multiple of the period. No expiration is lost or repeated.\<close>

theorem periodic_timer_exact:
  assumes "timeouts_ok k" and "timeout_list k = [Tmr n]" and "tm_period (timers k n) = p" and "0 < p" "p < 2 ^ 30"
    and "hw_elapsed k = 0" and "waitq k (tm_wait_q (timers k n)) = []" and "tm_expiry (timers k n) = False"
    and "0 \<le> ticks" and "nat ticks + 1 < m"
  shows "\<exists>k'. z_clock_announce m (timer_fn (\<lambda>n k. k)) ticks k = Some k'
    \<and> tm_status (timers k' n) = tm_status (timers k n) + of_nat (expirations (dticks k (Tmr n)) p ticks)
    \<and> expiries k' = [(Tmr n, dticks k (Tmr n) + int (expirations (dticks k (Tmr n)) p ticks) * p - ticks)]"
proof -
  let ?k = "(z_time_slice ticks k)\<lparr>announce_remaining := ticks\<rparr>"
  have ok: "timeouts_ok ?k" using assms(1) by (rule timeouts_ok_cong) simp_all
  have t: "timers ?k = timers k" by simp
  have "nat (announce_remaining ?k) + of_bool (dticks ?k (Tmr n) = 0) < m" using assms(10) by simp
  then obtain k1 where k1: "announce_loop m (timer_fn (\<lambda>n k. k)) ?k = Some k1" "timeout_list k1 = [Tmr n]"
    "dticks k1 (Tmr n) - announce_remaining k1
      = dticks k (Tmr n) + int (expirations (dticks k (Tmr n)) p ticks) * p - ticks"
    "tm_status (timers k1 n) = tm_status (timers k n) + of_nat (expirations (dticks k (Tmr n)) p ticks)"
    using lone_timer_loop [OF ok, of n p m "dticks k (Tmr n)" ticks] assms(2-9) time_slice_waitq [OF assms(7), of ticks] by auto
  then show ?thesis
    by (simp add: z_clock_announce_def Let_def to_first_def z_clock_set_timeout_def expiries_def)
qed

text \<open>Timer 6 with a period of 4 ticks, due in 2; nobody waits on its queue 9.\<close>

definition demo_timers :: tkernel where
  "demo_timers = (kernel.extend demo_kernel (tkernel.fields (\<lambda>_. \<lparr>tm_period = 4, tm_status = 0, tm_wait_q = 9,
       tm_expiry = False, tm_stop = False\<rparr>)))
     \<lparr>timeout_list := [Tmr 6], dticks := (\<lambda>_. 0)(Tmr 6 := 2)\<rparr>"

lemma demo_timers_sel:
  "timeout_list demo_timers = [Tmr 6]" "dticks demo_timers = (\<lambda>_. 0)(Tmr 6 := 2)" "hw_elapsed demo_timers = 0"
  "timers demo_timers = (\<lambda>_. \<lparr>tm_period = 4, tm_status = 0, tm_wait_q = 9, tm_expiry = False, tm_stop = False\<rparr>)"
  "waitq demo_timers 9 = []" "curr_tick demo_timers = 0"
  by (simp_all add: demo_timers_def kernel.defs tkernel.defs demo_kernel_def)

lemma demo_timers_ok: "timeouts_ok demo_timers" "periods_ok demo_timers"
  by (simp_all add: timeouts_ok_def expiries_def demo_timers_sel INT_MAX_def periods_ok_def)

theorem periodic_timer_exact_witness:
  "\<exists>k'. z_clock_announce 13 (timer_fn (\<lambda>n k. k)) 11 demo_timers = Some k' \<and> tm_status (timers k' 6) = 3
     \<and> expiries k' = [(Tmr 6, 3)]"
  using periodic_timer_exact [OF demo_timers_ok(1), of 6 4 11 13]
  by (auto simp: demo_timers_sel expirations_def)

theorem announce_with_timers_witness:
  "\<exists>k'. z_clock_announce 24 (timer_fn (\<lambda>n k. k)) 11 demo_timers = Some k' \<and> timeouts_ok k' \<and> curr_tick k' = 11"
  using announce_with_timers [OF demo_timers_ok(2,1), of 11 24] by (auto simp: demo_timers_sel)

end
