(* ===== verification/KDlist.thy ===== *)
theory KDlist
  imports Prelude
begin

text \<open>
  Doubly linked lists, \<^verbatim>\<open>include/misc/dlist.h\<close>, on a store of nodes. Nodes are addresses, 0 is
  \<^verbatim>\<open>NULL\<close>; a list is a node whose \<^verbatim>\<open>next\<close> and \<^verbatim>\<open>prev\<close> are its head and tail, and the
  nodes of a list form a ring with it. \<open>dlist h l xs\<close> says which nodes, in which order, the list at \<open>l\<close>
  holds. The rest of the kernel's model uses the list \<open>xs\<close> in place of the ring; the theorems here justify that
  and show where it stops being justified.
\<close>

record dheap =
  dn_next :: "nat \<Rightarrow> nat"
  dn_prev :: "nat \<Rightarrow> nat"

definition set_next :: "nat \<Rightarrow> nat \<Rightarrow> dheap \<Rightarrow> dheap" where
  "set_next p v h = h\<lparr>dn_next := (dn_next h)(p := v)\<rparr>"

definition set_prev :: "nat \<Rightarrow> nat \<Rightarrow> dheap \<Rightarrow> dheap" where
  "set_prev p v h = h\<lparr>dn_prev := (dn_prev h)(p := v)\<rparr>"

section \<open>The functions\<close>

definition sys_dlist_init :: "nat \<Rightarrow> dheap \<Rightarrow> dheap" where
  "sys_dlist_init list h = set_prev list list (set_next list list h)"

definition sys_dnode_init :: "nat \<Rightarrow> dheap \<Rightarrow> dheap" where
  "sys_dnode_init node h = set_prev node 0 (set_next node 0 h)"

definition sys_dnode_is_linked :: "dheap \<Rightarrow> nat \<Rightarrow> bool" where
  "sys_dnode_is_linked h node \<longleftrightarrow> dn_next h node \<noteq> 0"

definition sys_dlist_is_head :: "dheap \<Rightarrow> nat \<Rightarrow> nat \<Rightarrow> bool" where
  "sys_dlist_is_head h list node \<longleftrightarrow> dn_next h list = node"

definition sys_dlist_is_tail :: "dheap \<Rightarrow> nat \<Rightarrow> nat \<Rightarrow> bool" where
  "sys_dlist_is_tail h list node \<longleftrightarrow> dn_prev h list = node"

definition sys_dlist_is_empty :: "dheap \<Rightarrow> nat \<Rightarrow> bool" where
  "sys_dlist_is_empty h list \<longleftrightarrow> dn_next h list = list"

definition sys_dlist_has_multiple_nodes :: "dheap \<Rightarrow> nat \<Rightarrow> bool" where
  "sys_dlist_has_multiple_nodes h list \<longleftrightarrow> dn_next h list \<noteq> dn_prev h list"

definition sys_dlist_peek_head :: "dheap \<Rightarrow> nat \<Rightarrow> nat" where
  "sys_dlist_peek_head h list = (if sys_dlist_is_empty h list then 0 else dn_next h list)"

definition sys_dlist_peek_head_not_empty :: "dheap \<Rightarrow> nat \<Rightarrow> nat" where
  "sys_dlist_peek_head_not_empty h list = dn_next h list"

definition sys_dlist_peek_next_no_check :: "dheap \<Rightarrow> nat \<Rightarrow> nat \<Rightarrow> nat" where
  "sys_dlist_peek_next_no_check h list node = (if node = dn_prev h list then 0 else dn_next h node)"

definition sys_dlist_peek_next :: "dheap \<Rightarrow> nat \<Rightarrow> nat \<Rightarrow> nat" where
  "sys_dlist_peek_next h list node = (if node \<noteq> 0 then sys_dlist_peek_next_no_check h list node else 0)"

definition sys_dlist_peek_prev_no_check :: "dheap \<Rightarrow> nat \<Rightarrow> nat \<Rightarrow> nat" where
  "sys_dlist_peek_prev_no_check h list node = (if node = dn_next h list then 0 else dn_prev h node)"

definition sys_dlist_peek_prev :: "dheap \<Rightarrow> nat \<Rightarrow> nat \<Rightarrow> nat" where
  "sys_dlist_peek_prev h list node = (if node \<noteq> 0 then sys_dlist_peek_prev_no_check h list node else 0)"

definition sys_dlist_peek_tail :: "dheap \<Rightarrow> nat \<Rightarrow> nat" where
  "sys_dlist_peek_tail h list = (if sys_dlist_is_empty h list then 0 else dn_prev h list)"

definition sys_dlist_append :: "nat \<Rightarrow> nat \<Rightarrow> dheap \<Rightarrow> dheap" where
  "sys_dlist_append list node h =
     (let h = set_next node list h;
          h = set_prev node (dn_prev h list) h;
          h = set_next (dn_prev h list) node h
      in set_prev list node h)"

definition sys_dlist_prepend :: "nat \<Rightarrow> nat \<Rightarrow> dheap \<Rightarrow> dheap" where
  "sys_dlist_prepend list node h =
     (let h = set_next node (dn_next h list) h;
          h = set_prev node list h;
          h = set_prev (dn_next h list) node h
      in set_next list node h)"

definition sys_dlist_insert :: "nat \<Rightarrow> nat \<Rightarrow> dheap \<Rightarrow> dheap" where
  "sys_dlist_insert successor node h =
     (let h = set_prev node (dn_prev h successor) h;
          h = set_next node successor h;
          h = set_next (dn_prev h successor) node h
      in set_prev successor node h)"

definition sys_dlist_insert_after :: "nat \<Rightarrow> nat \<Rightarrow> nat \<Rightarrow> dheap \<Rightarrow> dheap" where
  "sys_dlist_insert_after list insert_point node h =
     (if insert_point = 0 then sys_dlist_prepend list node h
      else (let h = set_next node (dn_next h insert_point) h;
                h = set_prev node insert_point h;
                h = set_prev (dn_next h insert_point) node h
            in set_next insert_point node h))"

definition sys_dlist_insert_before :: "nat \<Rightarrow> nat \<Rightarrow> nat \<Rightarrow> dheap \<Rightarrow> dheap" where
  "sys_dlist_insert_before list insert_point node h =
     (if insert_point = 0 then sys_dlist_append list node h
      else (let h = set_prev node (dn_prev h insert_point) h;
                h = set_next node insert_point h;
                h = set_next (dn_prev h insert_point) node h
            in set_prev insert_point node h))"

text \<open>
  The search of \<^verbatim>\<open>sys_dlist_insert_at\<close>, which is also the loop of \<^verbatim>\<open>z_priq_dumb_add\<close>. The fuel bounds the
  nodes looked at; a ring of \<open>n\<close> nodes needs \<open>n + 1\<close>.
\<close>

fun find_pos :: "nat \<Rightarrow> (nat \<Rightarrow> bool) \<Rightarrow> dheap \<Rightarrow> nat \<Rightarrow> nat \<Rightarrow> nat option" where
  "find_pos 0 cond h list pos = None"
| "find_pos (Suc f) cond h list pos =
     (if pos \<noteq> 0 \<and> \<not> cond pos then find_pos f cond h list (sys_dlist_peek_next h list pos) else Some pos)"

definition sys_dlist_insert_at :: "nat \<Rightarrow> nat \<Rightarrow> nat \<Rightarrow> (nat \<Rightarrow> bool) \<Rightarrow> dheap \<Rightarrow> dheap option" where
  "sys_dlist_insert_at f list node cond h =
     (if sys_dlist_is_empty h list then Some (sys_dlist_append list node h)
      else case find_pos f cond h list (sys_dlist_peek_head h list) of None \<Rightarrow> None
        | Some pos \<Rightarrow> Some (if pos \<noteq> 0 then sys_dlist_insert pos node h else sys_dlist_append list node h))"

definition sys_dlist_remove :: "nat \<Rightarrow> dheap \<Rightarrow> dheap" where
  "sys_dlist_remove node h =
     (let h = set_next (dn_prev h node) (dn_next h node) h;
          h = set_prev (dn_next h node) (dn_prev h node) h
      in sys_dnode_init node h)"

definition sys_dlist_get :: "nat \<Rightarrow> dheap \<Rightarrow> nat \<times> dheap" where
  "sys_dlist_get list h =
     (if \<not> sys_dlist_is_empty h list then (dn_next h list, sys_dlist_remove (dn_next h list) h) else (0, h))"

lemma set_sel [simp]:
  "dn_next (set_next p v h) = (dn_next h)(p := v)" "dn_prev (set_next p v h) = dn_prev h"
  "dn_next (set_prev p v h) = dn_next h" "dn_prev (set_prev p v h) = (dn_prev h)(p := v)"
  by (simp_all add: set_next_def set_prev_def)

section \<open>Rings\<close>

text \<open>Neighbours in the list are linked, forwards and backwards.\<close>

fun seg :: "dheap \<Rightarrow> nat list \<Rightarrow> bool" where
  "seg h (a # b # xs) \<longleftrightarrow> dn_next h a = b \<and> dn_prev h b = a \<and> seg h (b # xs)"
| "seg h _ \<longleftrightarrow> True"

definition dlist :: "dheap \<Rightarrow> nat \<Rightarrow> nat list \<Rightarrow> bool" where
  "dlist h l xs \<longleftrightarrow> 0 \<notin> set (l # xs) \<and> distinct (l # xs) \<and> seg h (l # xs @ [l])"

lemma seg_append:
  "seg h (us @ vs) \<longleftrightarrow> seg h us \<and> seg h vs
     \<and> (us \<noteq> [] \<and> vs \<noteq> [] \<longrightarrow> dn_next h (last us) = hd vs \<and> dn_prev h (hd vs) = last us)"
proof (induction us)
  case (Cons a us)
  then show ?case by (cases us; cases vs) auto
qed simp

text \<open>A segment does not depend on links out of it.\<close>

lemma seg_cong:
  "(\<And>x. x \<in> set (butlast us) \<Longrightarrow> dn_next h' x = dn_next h x) \<Longrightarrow>
   (\<And>x. x \<in> set (tl us) \<Longrightarrow> dn_prev h' x = dn_prev h x) \<Longrightarrow> seg h' us = seg h us"
  by (induction h us rule: seg.induct) auto

lemma dlistD:
  assumes "dlist h l xs"
  shows "0 \<notin> set (l # xs)" and "distinct (l # xs)" and "seg h (l # xs @ [l])"
    and "dn_next h l = hd (xs @ [l])" and "dn_prev h l = last (l # xs)"
proof -
  show d: "0 \<notin> set (l # xs)" "distinct (l # xs)" and s: "seg h (l # xs @ [l])"
    using assms by (simp_all add: dlist_def)
  show "dn_next h l = hd (xs @ [l])" using s by (cases xs) auto
  show "dn_prev h l = last (l # xs)" using s seg_append [of h "l # xs" "[l]"] by simp
qed

text \<open>Around a place in the ring.\<close>

lemma dlist_split:
  "dlist h l (xs @ ys) \<longleftrightarrow> 0 \<notin> set (l # xs @ ys) \<and> distinct (l # xs @ ys) \<and> seg h (l # xs) \<and> seg h (ys @ [l])
     \<and> dn_next h (last (l # xs)) = hd (ys @ [l]) \<and> dn_prev h (hd (ys @ [l])) = last (l # xs)"
  using seg_append [of h "l # xs" "ys @ [l]"] by (auto simp: dlist_def)

text \<open>The two halves around a place do not notice links written at the place and at \<open>x\<close>.\<close>

lemma halves_frame:
  assumes d: "distinct (l # xs @ ys)" and x: "x \<notin> set (l # xs @ ys)"
    and n: "\<And>z. z \<noteq> x \<Longrightarrow> z \<noteq> last (l # xs) \<Longrightarrow> dn_next h' z = dn_next h z"
    and p: "\<And>z. z \<noteq> x \<Longrightarrow> z \<noteq> hd (ys @ [l]) \<Longrightarrow> dn_prev h' z = dn_prev h z"
  shows "seg h' (l # xs) = seg h (l # xs)" and "seg h' (ys @ [l]) = seg h (ys @ [l])"
    and "last (l # xs) \<noteq> x" and "hd (ys @ [l]) \<noteq> x"
proof -
  have l: "last (l # xs) \<in> set (l # xs)" by (rule last_in_set) simp
  have r: "hd (ys @ [l]) \<in> set (ys @ [l])" by (rule hd_in_set) simp
  show "last (l # xs) \<noteq> x" "hd (ys @ [l]) \<noteq> x" using l r x by auto
  have "distinct (butlast (l # xs) @ [last (l # xs)])" using d by (simp del: butlast.simps last.simps)
  then have bl: "z \<noteq> last (l # xs) \<and> z \<noteq> x" if "z \<in> set (butlast (l # xs))" for z
    using that x in_set_butlastD [of z "l # xs"] by auto
  show "seg h' (l # xs) = seg h (l # xs)"
  proof (rule seg_cong)
    fix z assume "z \<in> set (tl (l # xs))"
    then have "z \<noteq> x" "z \<noteq> hd (ys @ [l])" using x d r by auto
    then show "dn_prev h' z = dn_prev h z" by (rule p)
  qed (use bl n in blast)
  show "seg h' (ys @ [l]) = seg h (ys @ [l])"
  proof (rule seg_cong)
    fix z assume "z \<in> set (butlast (ys @ [l]))"
    then have "z \<noteq> x" "z \<noteq> last (l # xs)" using x d l by auto
    then show "dn_next h' z = dn_next h z" by (rule n)
  next
    fix z assume "z \<in> set (tl (ys @ [l]))"
    then have "z \<noteq> x" "z \<noteq> hd (ys @ [l])" using x d by (cases ys; auto)+
    then show "dn_prev h' z = dn_prev h z" by (rule p)
  qed
qed

text \<open>Putting \<open>x\<close> between two neighbours of a ring, whatever the order of the writes.\<close>

lemma link_between:
  assumes d: "dlist h l (xs @ ys)" and x: "x \<noteq> 0" "x \<notin> set (l # xs @ ys)"
    and n: "dn_next h' = (dn_next h)(x := hd (ys @ [l]), last (l # xs) := x)"
    and p: "dn_prev h' = (dn_prev h)(x := last (l # xs), hd (ys @ [l]) := x)"
  shows "dlist h' l (xs @ x # ys)"
proof -
  note D = d [unfolded dlist_split]
  have "dn_next h' z = dn_next h z" if "z \<noteq> x" "z \<noteq> last (l # xs)" for z using n that by simp
  moreover have "dn_prev h' z = dn_prev h z" if "z \<noteq> x" "z \<noteq> hd (ys @ [l])" for z using p that by simp
  moreover have "distinct (l # xs @ ys)" using D by blast
  ultimately have f: "seg h' (l # xs) = seg h (l # xs)" "seg h' (ys @ [l]) = seg h (ys @ [l])"
    "last (l # xs) \<noteq> x" "hd (ys @ [l]) \<noteq> x"
    using halves_frame [OF _ x(2), of h' h] by blast+
  have "seg h' ([x] @ (ys @ [l]))" using D f n p unfolding seg_append [of h' "[x]"] by (simp add: last_ConsL del: last.simps)
  then have "seg h' ((l # xs) @ ([x] @ (ys @ [l])))"
    using D f n p unfolding seg_append [of h' "l # xs"] by (simp del: last.simps)
  then show ?thesis using D x by (auto simp: dlist_def)
qed

text \<open>Taking \<open>x\<close> out again.\<close>

lemma unlink_between:
  assumes d: "dlist h l (xs @ x # ys)"
    and n: "dn_next h' = (dn_next h)(last (l # xs) := hd (ys @ [l]), x := v)"
    and p: "dn_prev h' = (dn_prev h)(hd (ys @ [l]) := last (l # xs), x := w)"
  shows "dlist h' l (xs @ ys)"
proof -
  note D = d [unfolded dlist_split]
  have x: "x \<notin> set (l # xs @ ys)" and di: "distinct (l # xs @ ys)" using D by auto
  have s: "seg h (ys @ [l])" using D seg_append [of h "[x]" "ys @ [l]"] by simp
  have "dn_next h' z = dn_next h z" if "z \<noteq> x" "z \<noteq> last (l # xs)" for z using n that by simp
  moreover have "dn_prev h' z = dn_prev h z" if "z \<noteq> x" "z \<noteq> hd (ys @ [l])" for z using p that by simp
  ultimately have f: "seg h' (l # xs) = seg h (l # xs)" "seg h' (ys @ [l]) = seg h (ys @ [l])"
    "last (l # xs) \<noteq> x" "hd (ys @ [l]) \<noteq> x"
    using halves_frame [OF di x, of h' h] by blast+
  show ?thesis using D di f n p s unfolding dlist_split by (simp del: last.simps)
qed

section \<open>The functions on lists\<close>

lemma around:
  assumes "dlist h l (xs @ x # ys)"
  shows "dn_next h x = hd (ys @ [l])" and "dn_prev h x = last (l # xs)"
    and "dn_next h (last (l # xs)) = x" and "dn_prev h (hd (ys @ [l])) = x"
proof -
  note D = assms [unfolded dlist_split]
  show "dn_prev h x = last (l # xs)" "dn_next h (last (l # xs)) = x" using D by simp_all
  have "seg h ([x] @ (ys @ [l]))" using D by simp
  then show "dn_next h x = hd (ys @ [l])" "dn_prev h (hd (ys @ [l])) = x" unfolding seg_append by simp_all
qed

lemma dlist_init: "l \<noteq> 0 \<Longrightarrow> dlist (sys_dlist_init l h) l []"
  by (simp add: dlist_def sys_dlist_init_def)

lemma dlist_append:
  assumes "dlist h l xs" and "x \<noteq> 0" and "x \<notin> set (l # xs)"
  shows "dlist (sys_dlist_append l x h) l (xs @ [x])"
proof -
  have e: "dn_prev h l = last (l # xs)" by (rule dlistD(5) [OF assms(1)])
  have "last (l # xs) \<in> set (l # xs)" by (rule last_in_set) simp
  then have "last (l # xs) \<noteq> x" using assms(3) by blast
  with e show ?thesis
    using assms by (intro link_between [of h l xs "[]"])
      (auto simp: sys_dlist_append_def Let_def fun_upd_twist simp del: last.simps)
qed

lemma dlist_insert:
  assumes "dlist h l (xs @ y # ys)" and "x \<noteq> 0" and "x \<notin> set (l # xs @ y # ys)"
  shows "dlist (sys_dlist_insert y x h) l (xs @ x # y # ys)"
proof -
  have e: "dn_prev h y = last (l # xs)" by (rule around(2) [OF assms(1)])
  have "last (l # xs) \<in> set (l # xs)" by (rule last_in_set) simp
  then have "last (l # xs) \<noteq> x" using assms(3) by auto
  with e show ?thesis
    using assms by (intro link_between [of h l xs "y # ys"])
      (auto simp: sys_dlist_insert_def Let_def fun_upd_twist simp del: last.simps)
qed

lemma dlist_prepend:
  assumes "dlist h l xs" and "x \<noteq> 0" and "x \<notin> set (l # xs)"
  shows "dlist (sys_dlist_prepend l x h) l (x # xs)"
proof -
  have e: "dn_next h l = hd (xs @ [l])" by (rule dlistD(4) [OF assms(1)])
  have "hd (xs @ [l]) \<in> set (xs @ [l])" by (rule hd_in_set) simp
  then have "hd (xs @ [l]) \<noteq> x" using assms(3) by auto
  with e show ?thesis
    using assms by (intro link_between [of h l "[]" xs, simplified])
      (auto simp: sys_dlist_prepend_def Let_def fun_upd_twist)
qed

lemma dlist_remove:
  assumes "dlist h l (xs @ x # ys)"
  shows "dlist (sys_dlist_remove x h) l (xs @ ys)"
proof -
  note a = around [OF assms]
  have "x \<notin> set (l # xs)" using assms by (auto simp: dlist_def)
  moreover have "last (l # xs) \<in> set (l # xs)" by (rule last_in_set) simp
  ultimately have "last (l # xs) \<noteq> x" by blast
  with a show ?thesis
    by (intro unlink_between [OF assms]) (auto simp: sys_dlist_remove_def sys_dnode_init_def Let_def simp del: last.simps)
qed

text \<open>What the observers see of the list.\<close>

lemma dlist_observe:
  assumes "dlist h l xs"
  shows "sys_dlist_is_empty h l \<longleftrightarrow> xs = []"
    and "sys_dlist_peek_head h l = (if xs = [] then 0 else hd xs)"
    and "sys_dlist_peek_tail h l = (if xs = [] then 0 else last xs)"
    and "sys_dlist_has_multiple_nodes h l \<longleftrightarrow> length xs > 1"
proof -
  note D = dlistD [OF assms]
  show e: "sys_dlist_is_empty h l \<longleftrightarrow> xs = []" using D(2,4) by (cases xs) (auto simp: sys_dlist_is_empty_def)
  show "sys_dlist_peek_head h l = (if xs = [] then 0 else hd xs)" using e D(4) by (simp add: sys_dlist_peek_head_def)
  show "sys_dlist_peek_tail h l = (if xs = [] then 0 else last xs)" using e D(5) by (simp add: sys_dlist_peek_tail_def)
  show "sys_dlist_has_multiple_nodes h l \<longleftrightarrow> length xs > 1"
  proof (cases xs rule: rev_cases)
    case (snoc ys y)
    then show ?thesis using D(2,4,5) by (cases ys) (auto simp: sys_dlist_has_multiple_nodes_def)
  qed (use D(4,5) in \<open>simp add: sys_dlist_has_multiple_nodes_def\<close>)
qed

lemma dlist_peek_next:
  assumes "dlist h l (xs @ x # ys)"
  shows "sys_dlist_peek_next h l x = (if ys = [] then 0 else hd ys)"
    and "sys_dlist_peek_prev h l x = (if xs = [] then 0 else last xs)"
    and "sys_dnode_is_linked h x"
proof -
  note D = dlistD [OF assms] and a = around [OF assms]
  have "dn_prev h l = x \<longleftrightarrow> ys = []" using D(2,5) last_in_set [of ys] by (cases "ys = []") (auto simp del: last_in_set)
  then show "sys_dlist_peek_next h l x = (if ys = [] then 0 else hd ys)"
    using a(1) D(1) by (auto simp: sys_dlist_peek_next_def sys_dlist_peek_next_no_check_def)
  have "dn_next h l = x \<longleftrightarrow> xs = []" using D(2,4) by (cases xs) auto
  then show "sys_dlist_peek_prev h l x = (if xs = [] then 0 else last xs)"
    using a(2) D(1) by (auto simp: sys_dlist_peek_prev_def sys_dlist_peek_prev_no_check_def)
  have "hd (ys @ [l]) \<in> set (ys @ [l])" by (rule hd_in_set) simp
  then have "hd (ys @ [l]) \<noteq> 0" using D(1) by (metis Un_iff list.set_intros set_append set_ConsD empty_set emptyE list.set(2) insert_iff)
  then show "sys_dnode_is_linked h x" using a(1) by (simp add: sys_dnode_is_linked_def)
qed

text \<open>The search stops at the first node that meets the condition, or at the end.\<close>

lemma find_pos_spec:
  assumes "dlist h l (xs @ ys)" and "length ys < f"
  shows "find_pos f cond h l (if ys = [] then 0 else hd ys)
    = Some (case dropWhile (\<lambda>y. \<not> cond y) ys of [] \<Rightarrow> 0 | y # _ \<Rightarrow> y)"
  using assms
proof (induction ys arbitrary: xs f)
  case Nil
  then show ?case by (cases f) simp_all
next
  case (Cons y ys)
  obtain g where f: "f = Suc g" "length ys < g" using Cons.prems(2) by (cases f) auto
  have "y \<noteq> 0" using Cons.prems(1) by (auto simp: dlist_def)
  moreover have "find_pos g cond h l (if ys = [] then 0 else hd ys)
      = Some (case dropWhile (\<lambda>y. \<not> cond y) ys of [] \<Rightarrow> 0 | y # _ \<Rightarrow> y)"
    using Cons.IH [of "xs @ [y]" g] Cons.prems(1) f(2) by simp
  ultimately show ?case using f(1) dlist_peek_next(1) [OF Cons.prems(1)] by simp
qed

lemma dlist_insert_at:
  assumes d: "dlist h l xs" and x: "x \<noteq> 0" "x \<notin> set (l # xs)" and f: "length xs < f"
  shows "\<exists>h'. sys_dlist_insert_at f l x cond h = Some h'
    \<and> dlist h' l (takeWhile (\<lambda>y. \<not> cond y) xs @ x # dropWhile (\<lambda>y. \<not> cond y) xs)"
proof (cases "xs = []")
  case True
  then show ?thesis using dlist_append [OF d x] dlist_observe(1) [OF d] by (simp add: sys_dlist_insert_at_def)
next
  case False
  let ?t = "takeWhile (\<lambda>y. \<not> cond y) xs" and ?d = "dropWhile (\<lambda>y. \<not> cond y) xs"
  have p: "find_pos f cond h l (sys_dlist_peek_head h l) = Some (case ?d of [] \<Rightarrow> 0 | y # _ \<Rightarrow> y)"
    using find_pos_spec [of h l "[]" xs f cond] d f False dlist_observe(2) [OF d] by simp
  show ?thesis
  proof (cases ?d)
    case Nil
    then have t: "?t = xs" by (metis append_Nil2 takeWhile_dropWhile_id)
    have "sys_dlist_insert_at f l x cond h = Some (sys_dlist_append l x h)"
      using p Nil False dlist_observe(1) [OF d] by (simp only: sys_dlist_insert_at_def) simp
    then show ?thesis using dlist_append [OF d x] unfolding t Nil by blast
  next
    case (Cons y ys)
    have e: "xs = ?t @ y # ys" using Cons by (metis takeWhile_dropWhile_id)
    have "dlist h l (?t @ y # ys)" using d e by simp
    moreover have "x \<notin> set (l # ?t @ y # ys)" using x(2) e by simp
    moreover have "y \<noteq> 0" using d e by (metis dlistD(1) in_set_conv_decomp list.set_intros(2))
    ultimately show ?thesis
      using p Cons False dlist_insert [of h l ?t y ys x] x(1) dlist_observe(1) [OF d] by (simp add: sys_dlist_insert_at_def)
  qed
qed

lemma dlist_get:
  assumes "dlist h l (x # xs)"
  shows "sys_dlist_get l h = (x, sys_dlist_remove x h)" and "dlist (sys_dlist_remove x h) l xs"
    and "\<not> sys_dnode_is_linked (sys_dlist_remove x h) x"
  using dlist_observe(1) [OF assms] dlistD(4) [OF assms] dlist_remove [of h l "[]" x xs] assms
  by (simp_all add: sys_dlist_get_def sys_dnode_is_linked_def sys_dlist_remove_def sys_dnode_init_def Let_def)

section \<open>Correctness\<close>

text \<open>Inserting next to a given node of the ring.\<close>

lemma dlist_insert_after:
  assumes "dlist h l (xs @ y # ys)" and "x \<noteq> 0" and "x \<notin> set (l # xs @ y # ys)"
  shows "dlist (sys_dlist_insert_after l y x h) l (xs @ y # x # ys)"
proof -
  have y: "y \<noteq> 0" "y \<noteq> x" using assms by (auto simp: dlist_def)
  have e: "dn_next h y = hd (ys @ [l])" by (rule around(1) [OF assms(1)])
  have "hd (ys @ [l]) \<in> set (ys @ [l])" by (rule hd_in_set) simp
  then have "hd (ys @ [l]) \<noteq> x" using assms(3) by auto
  with e y have "dlist (sys_dlist_insert_after l y x h) l ((xs @ [y]) @ x # ys)"
    using assms by (intro link_between [of h l "xs @ [y]" ys])
      (auto simp: sys_dlist_insert_after_def Let_def fun_upd_twist)
  then show ?thesis by simp
qed

lemma dlist_insert_before:
  assumes "dlist h l (xs @ y # ys)" and "x \<noteq> 0" and "x \<notin> set (l # xs @ y # ys)"
  shows "dlist (sys_dlist_insert_before l y x h) l (xs @ x # y # ys)"
proof -
  have "y \<noteq> 0" using assms(1) by (auto simp: dlist_def)
  then have "sys_dlist_insert_before l y x h = sys_dlist_insert y x h"
    by (simp add: sys_dlist_insert_before_def sys_dlist_insert_def)
  then show ?thesis using dlist_insert [OF assms] by simp
qed

lemma remove_unlinks: "\<not> sys_dnode_is_linked (sys_dlist_remove y h) y"
  by (simp add: sys_dnode_is_linked_def sys_dlist_remove_def sys_dnode_init_def Let_def)

lemma dlist_ends:
  assumes "dlist h l (xs @ y # ys)"
  shows "sys_dlist_is_head h l y \<longleftrightarrow> xs = []" and "sys_dlist_is_tail h l y \<longleftrightarrow> ys = []"
proof -
  note D = dlistD [OF assms]
  show "sys_dlist_is_head h l y \<longleftrightarrow> xs = []" using D(2,4) by (cases xs) (auto simp: sys_dlist_is_head_def)
  show "sys_dlist_is_tail h l y \<longleftrightarrow> ys = []"
    using D(2,5) last_in_set [of ys] by (cases "ys = []") (auto simp: sys_dlist_is_tail_def simp del: last_in_set)
qed

text \<open>
  C20. The operations that change a ring of nodes are the corresponding operations on the list of its nodes, the empty
  ring included. A new node goes to the end, to the front, before the first node that meets a condition (the search ends), or
  before or after a given node, where no given node means the end or the front. Removing takes out exactly the given node, which is
  unlinked afterwards; getting takes the first node, and returns \<^verbatim>\<open>NULL\<close> and changes nothing when there is none.\<close>

theorem sys_dlist_refines:
  assumes "dlist h l zs" and "x \<noteq> 0" and "x \<notin> set (l # zs)" and "length zs < f"
  shows "dlist (sys_dlist_append l x h) l (zs @ [x])
    \<and> dlist (sys_dlist_prepend l x h) l (x # zs)
    \<and> (\<exists>h'. sys_dlist_insert_at f l x cond h = Some h'
         \<and> dlist h' l (takeWhile (\<lambda>z. \<not> cond z) zs @ x # dropWhile (\<lambda>z. \<not> cond z) zs))
    \<and> dlist (sys_dlist_insert_after l 0 x h) l (x # zs) \<and> dlist (sys_dlist_insert_before l 0 x h) l (zs @ [x])
    \<and> (\<forall>xs y ys. zs = xs @ y # ys \<longrightarrow>
         dlist (sys_dlist_insert y x h) l (xs @ x # y # ys)
         \<and> dlist (sys_dlist_insert_after l y x h) l (xs @ y # x # ys) \<and> dlist (sys_dlist_insert_before l y x h) l (xs @ x # y # ys)
         \<and> dlist (sys_dlist_remove y h) l (xs @ ys) \<and> \<not> sys_dnode_is_linked (sys_dlist_remove y h) y)
    \<and> (case sys_dlist_get l h of (node, h') \<Rightarrow>
         if zs = [] then node = 0 \<and> h' = h else node = hd zs \<and> dlist h' l (tl zs) \<and> \<not> sys_dnode_is_linked h' node)"
proof -
  have g: "case sys_dlist_get l h of (node, h') \<Rightarrow>
      if zs = [] then node = 0 \<and> h' = h else node = hd zs \<and> dlist h' l (tl zs) \<and> \<not> sys_dnode_is_linked h' node"
  proof (cases zs)
    case Nil
    then show ?thesis using dlist_observe(1) [OF assms(1)] by (simp add: sys_dlist_get_def)
  next
    case (Cons z zs')
    then show ?thesis using dlist_get [of h l z zs'] assms(1) by simp
  qed
  have z: "sys_dlist_insert_after l 0 x h = sys_dlist_prepend l x h" "sys_dlist_insert_before l 0 x h = sys_dlist_append l x h"
    by (simp_all add: sys_dlist_insert_after_def sys_dlist_insert_before_def)
  show ?thesis
    unfolding z
  proof (intro conjI allI impI)
    fix xs y ys
    assume e: "zs = xs @ y # ys"
    note d = assms(1) [unfolded e] and n = assms(3) [unfolded e]
    show "dlist (sys_dlist_insert y x h) l (xs @ x # y # ys)" "dlist (sys_dlist_insert_after l y x h) l (xs @ y # x # ys)"
      "dlist (sys_dlist_insert_before l y x h) l (xs @ x # y # ys)" "dlist (sys_dlist_remove y h) l (xs @ ys)"
      using dlist_insert [OF d assms(2) n] dlist_insert_after [OF d assms(2) n] dlist_insert_before [OF d assms(2) n]
        dlist_remove [OF d] by simp_all
    show "\<not> sys_dnode_is_linked (sys_dlist_remove y h) y" by (rule remove_unlinks)
  qed (fact dlist_append [OF assms(1-3)] dlist_prepend [OF assms(1-3)] dlist_insert_at [OF assms] g)+
qed

text \<open>
  What the functions that only look at a ring return: whether it is empty or has several nodes, its first and last node, and
  the neighbours of a node, \<^verbatim>\<open>NULL\<close> at the ends.\<close>

theorem sys_dlist_peeks:
  assumes "dlist h l zs"
  shows "(sys_dlist_is_empty h l \<longleftrightarrow> zs = []) \<and> (sys_dlist_has_multiple_nodes h l \<longleftrightarrow> length zs > 1)
    \<and> sys_dlist_peek_head h l = (if zs = [] then 0 else hd zs) \<and> sys_dlist_peek_tail h l = (if zs = [] then 0 else last zs)
    \<and> (\<forall>xs y ys. zs = xs @ y # ys \<longrightarrow> sys_dlist_peek_next h l y = (if ys = [] then 0 else hd ys)
         \<and> sys_dlist_peek_prev h l y = (if xs = [] then 0 else last xs) \<and> sys_dnode_is_linked h y
         \<and> (sys_dlist_is_head h l y \<longleftrightarrow> xs = []) \<and> (sys_dlist_is_tail h l y \<longleftrightarrow> ys = []))"
proof (intro conjI allI impI)
  fix xs y ys
  assume "zs = xs @ y # ys"
  then have d: "dlist h l (xs @ y # ys)" using assms by simp
  show "sys_dlist_peek_next h l y = (if ys = [] then 0 else hd ys)"
    "sys_dlist_peek_prev h l y = (if xs = [] then 0 else last xs)" "sys_dnode_is_linked h y"
    "sys_dlist_is_head h l y \<longleftrightarrow> xs = []" "sys_dlist_is_tail h l y \<longleftrightarrow> ys = []"
    using dlist_peek_next [OF d] dlist_ends [OF d] by simp_all
qed (use dlist_observe [OF assms] in simp_all)

text \<open>A list is unaffected by operations on nodes it does not contain.\<close>

lemma dlist_frame:
  assumes "dlist h l xs" and "\<And>z. z \<in> set (l # xs) \<Longrightarrow> dn_next h' z = dn_next h z \<and> dn_prev h' z = dn_prev h z"
  shows "dlist h' l xs"
proof -
  have "seg h' (l # xs @ [l]) = seg h (l # xs @ [l])"
    using assms(2) by (intro seg_cong) (auto dest: in_set_butlastD)
  then show ?thesis using assms(1) by (simp add: dlist_def)
qed

text \<open>Appending a node that the list already holds at its front corrupts the list: going through it from its
  head now ends after that node, so the nodes behind it are lost although they count as linked, and the store holds
  no list at that address any more. The callers have to keep a linked node from being inserted again.\<close>

lemma append_linked_state:
  assumes "dlist h l (x # xs)" and "xs \<noteq> []"
  shows "sys_dlist_peek_head (sys_dlist_append l x h) l = x \<and> sys_dlist_peek_next (sys_dlist_append l x h) l x = 0
    \<and> (\<forall>y \<in> set xs. sys_dnode_is_linked (sys_dlist_append l x h) y)
    \<and> \<not> (\<exists>zs. dlist (sys_dlist_append l x h) l zs)"
proof -
  let ?h = "sys_dlist_append l x h"
  note D = dlistD [OF assms(1)]
  have p: "dn_prev h l = last xs" using D(5) assms(2) by simp
  have "last xs \<in> set xs" using assms(2) by simp
  then have ne: "last xs \<noteq> x" "last xs \<noteq> l" "l \<noteq> x" using D(2) by auto
  have n: "dn_next ?h = (dn_next h)(x := l, last xs := x)" "dn_prev ?h = (dn_prev h)(x := last xs, l := x)"
    using p ne by (auto simp: sys_dlist_append_def Let_def)
  have hd: "dn_next ?h l = x" using D(4) n(1) ne by simp
  have "sys_dlist_peek_head ?h l = x" using hd ne by (simp add: sys_dlist_peek_head_def sys_dlist_is_empty_def)
  moreover have "sys_dlist_peek_next ?h l x = 0" using n(2) by (simp add: sys_dlist_peek_next_def sys_dlist_peek_next_no_check_def)
  moreover have "sys_dnode_is_linked ?h y" if y: "y \<in> set xs" for y
  proof -
    obtain us vs where "xs = us @ y # vs" using split_list [OF y] by blast
    then have "sys_dnode_is_linked h y" using dlist_peek_next(3) [of h l "x # us" y vs] assms(1) by simp
    moreover have "y \<noteq> x" using y D(2) by auto
    ultimately show ?thesis using n(1) D(1) by (simp add: sys_dnode_is_linked_def)
  qed
  moreover have "\<not> dlist ?h l zs" for zs
  proof
    assume d: "dlist ?h l zs"
    have "hd (zs @ [l]) = x" using dlistD(4) [OF d] hd by simp
    then obtain ws where "zs = x # ws" using ne by (cases zs) auto
    then have "dn_prev ?h x = l" using around(2) [of ?h l "[]" x ws] d by simp
    then show False using n(2) ne by simp
  qed
  ultimately show ?thesis by blast
qed

text \<open>Two nodes in a list at 16.\<close>

definition demo_ring :: dheap where
  "demo_ring = sys_dlist_append 16 48 (sys_dlist_append 16 32 (sys_dlist_init 16 \<lparr>dn_next = \<lambda>_. 0, dn_prev = \<lambda>_. 0\<rparr>))"

lemma demo_ring_dlist: "dlist demo_ring 16 [32, 48]"
  using dlist_append [OF dlist_append [OF dlist_init [of 16], of 32], of 48] by (simp add: demo_ring_def)

theorem sys_dlist_refines_witness:
  "dlist (sys_dlist_append 16 64 demo_ring) 16 [32, 48, 64]
   \<and> (\<exists>h'. sys_dlist_insert_at 3 16 64 (\<lambda>n. n > 32) demo_ring = Some h' \<and> dlist h' 16 [32, 64, 48])
   \<and> dlist (sys_dlist_remove 48 demo_ring) 16 [32] \<and> dlist (sys_dlist_insert_after 16 32 64 demo_ring) 16 [32, 64, 48]
   \<and> fst (sys_dlist_get 16 (sys_dlist_init 16 demo_ring)) = 0"
proof -
  note R = sys_dlist_refines [OF demo_ring_dlist, of 64 3 "\<lambda>n. n > 32"]
  have A: "\<forall>xs y ys. [32, 48] = xs @ y # ys \<longrightarrow> dlist (sys_dlist_remove y demo_ring) 16 (xs @ ys)
      \<and> dlist (sys_dlist_insert_after 16 y 64 demo_ring) 16 (xs @ y # 64 # ys)"
    using R by simp
  have "dlist (sys_dlist_remove 48 demo_ring) 16 [32]" "dlist (sys_dlist_insert_after 16 32 64 demo_ring) 16 [32, 64, 48]"
    using A [rule_format, of "[32]" 48 "[]"] A [rule_format, of "[]" 32 "[48]"] by simp_all
  moreover have "fst (sys_dlist_get 16 (sys_dlist_init 16 demo_ring)) = 0"
    using sys_dlist_refines [OF dlist_init [of 16 demo_ring], of 64 3 "\<lambda>n. n > 32"] by auto
  ultimately show ?thesis using R by simp
qed

theorem sys_dlist_peeks_witness:
  "sys_dlist_peek_head demo_ring 16 = 32 \<and> sys_dlist_peek_next demo_ring 16 32 = 48 \<and> sys_dlist_is_tail demo_ring 16 48"
proof -
  note P = sys_dlist_peeks [OF demo_ring_dlist]
  have A: "\<forall>xs y ys. [32, 48] = xs @ y # ys \<longrightarrow> sys_dlist_peek_next demo_ring 16 y = (if ys = [] then 0 else hd ys)
      \<and> (sys_dlist_is_tail demo_ring 16 y \<longleftrightarrow> ys = [])"
    using P by simp
  have "sys_dlist_peek_next demo_ring 16 32 = 48" "sys_dlist_is_tail demo_ring 16 48"
    using A [rule_format, of "[32]" 48 "[]"] A [rule_format, of "[]" 32 "[48]"] by simp_all
  then show ?thesis using P by simp
qed

end
