(* ===== verification/KThread.thy ===== *)
theory KThread
  imports KSched KDlist
begin

text \<open>
  Threads: \<^verbatim>\<open>kernel/thread.c\<close>, \<^verbatim>\<open>kernel/thread_abort.c\<close> and \<^verbatim>\<open>z_new_thread\<close> of
  \<^verbatim>\<open>arch/riscv32/core/thread.c\<close>, without thread names, monitor and custom data, which the
  configuration leaves out. The part of \<^verbatim>\<open>struct k_thread\<close> that the scheduler does not look at is in an
  extension of the kernel state, with the stack frames written for new threads. The abort function of a
  thread is a parameter, called when the thread has one.
\<close>

record esf =
  esf_a0 :: u32
  esf_a1 :: u32
  esf_a2 :: u32
  esf_a3 :: u32
  esf_mepc :: u32
  esf_mstatus :: u32

record tcb =
  saved_sp :: u32
  has_fn_abort :: bool
  init_data :: nat
  resource_pool :: nat

record thkernel = kernel +
  tcbs :: "tid \<Rightarrow> tcb"
  frames :: "nat \<Rightarrow> esf"
  entry_wrapper :: u32

definition upd_tcb :: "tid \<Rightarrow> (tcb \<Rightarrow> tcb) \<Rightarrow> 'a thkernel_scheme \<Rightarrow> 'a thkernel_scheme" where
  "upd_tcb t f k = k\<lparr>tcbs := (tcbs k)(t := f (tcbs k t))\<rparr>"

definition K_ESSENTIAL :: u8 where "K_ESSENTIAL = 1"
definition K_USER :: u8 where "K_USER = 4"
definition STACK_ALIGN :: u32 where "STACK_ALIGN = 16"
definition sizeof_esf :: u32 where "sizeof_esf = 80"
definition SOC_MSTATUS_DEF_RESTORE :: u32 where "SOC_MSTATUS_DEF_RESTORE = 0x1880"

definition STACK_ROUND_DOWN :: "u32 \<Rightarrow> u32" where
  "STACK_ROUND_DOWN x = x AND NOT (STACK_ALIGN - 1)"

section \<open>Essential threads\<close>

definition k_is_in_isr :: "'a kernel_scheme \<Rightarrow> bool" where
  "k_is_in_isr k = z_is_in_isr k"

definition z_thread_essential_set :: "'a kernel_scheme \<Rightarrow> 'a kernel_scheme" where
  "z_thread_essential_set k = upd_thread (current k) (\<lambda>th. th\<lparr>user_options := user_options th OR K_ESSENTIAL\<rparr>) k"

definition z_thread_essential_clear :: "'a kernel_scheme \<Rightarrow> 'a kernel_scheme" where
  "z_thread_essential_clear k =
     upd_thread (current k) (\<lambda>th. th\<lparr>user_options := user_options th AND NOT K_ESSENTIAL\<rparr>) k"

definition z_is_thread_essential :: "'a kernel_scheme \<Rightarrow> bool" where
  "z_is_thread_essential k \<longleftrightarrow> user_options (threads k (current k)) AND K_ESSENTIAL = K_ESSENTIAL"

section \<open>New threads\<close>

text \<open>\<^verbatim>\<open>z_init_thread_timeout\<close> marks the timeout's node as unlinked, which it is for a thread that is not waiting.\<close>

definition z_init_thread_base :: "tid \<Rightarrow> int \<Rightarrow> tflag set \<Rightarrow> u32 \<Rightarrow> 'a kernel_scheme \<Rightarrow> 'a kernel_scheme" where
  "z_init_thread_base t priority initial_state options k =
     upd_thread t (\<lambda>th. th\<lparr>user_options := ucast options, thread_state := initial_state, prio := s8 priority,
       sched_locked := 0\<rparr>) k"

definition z_new_thread_init :: "tid \<Rightarrow> int \<Rightarrow> u32 \<Rightarrow> 'a thkernel_scheme \<Rightarrow> 'a thkernel_scheme" where
  "z_new_thread_init t priority options k =
     upd_tcb t (\<lambda>c. c\<lparr>init_data := 0, has_fn_abort := False\<rparr>) (z_init_thread_base t priority {F_PRESTART} options k)"

definition z_new_thread ::
  "tid \<Rightarrow> u32 \<Rightarrow> u32 \<Rightarrow> u32 \<Rightarrow> u32 \<Rightarrow> u32 \<Rightarrow> u32 \<Rightarrow> int \<Rightarrow> u32 \<Rightarrow> 'a thkernel_scheme \<Rightarrow> 'a thkernel_scheme" where
  "z_new_thread t stack_memory stack_size thread_func arg1 arg2 arg3 priority options k =
     (let k = z_new_thread_init t priority options k;
          stack_init = STACK_ROUND_DOWN (stack_memory + stack_size - sizeof_esf);
          k = k\<lparr>frames := (frames k)(unat stack_init := \<lparr>esf_a0 = thread_func, esf_a1 = arg1, esf_a2 = arg2,
                esf_a3 = arg3, esf_mepc = entry_wrapper k, esf_mstatus = SOC_MSTATUS_DEF_RESTORE\<rparr>)\<rparr>
      in upd_tcb t (\<lambda>c. c\<lparr>saved_sp := stack_init\<rparr>) k)"

definition z_setup_new_thread ::
  "tid \<Rightarrow> u32 \<Rightarrow> u32 \<Rightarrow> u32 \<Rightarrow> u32 \<Rightarrow> u32 \<Rightarrow> u32 \<Rightarrow> int \<Rightarrow> u32 \<Rightarrow> 'a thkernel_scheme \<Rightarrow> 'a thkernel_scheme" where
  "z_setup_new_thread t stack stack_size entry p1 p2 p3 priority options k =
     (let k = z_new_thread t stack stack_size entry p1 p2 p3 priority options k
      in upd_tcb t (\<lambda>c. c\<lparr>resource_pool := resource_pool (tcbs k (current k))\<rparr>) k)"

definition k_thread_start :: "tid \<Rightarrow> 'a kernel_scheme \<Rightarrow> 'a kernel_scheme" where
  "k_thread_start t k =
     (if z_has_thread_started k t then k
      else z_reschedule (z_ready_thread t (z_reset_thread_states t {F_PRESTART} k)))"

definition schedule_new_thread :: "tid \<Rightarrow> int \<Rightarrow> 'a kernel_scheme \<Rightarrow> 'a kernel_scheme" where
  "schedule_new_thread t delay k =
     (if delay = 0 then k_thread_start t k
      else z_add_thread_timeout t (s32 (TICK_ALIGN + z_ms_to_ticks delay)) k)"

definition k_thread_create ::
  "tid \<Rightarrow> u32 \<Rightarrow> u32 \<Rightarrow> u32 \<Rightarrow> u32 \<Rightarrow> u32 \<Rightarrow> u32 \<Rightarrow> int \<Rightarrow> u32 \<Rightarrow> int \<Rightarrow> 'a thkernel_scheme \<Rightarrow> tid \<times> 'a thkernel_scheme" where
  "k_thread_create t stack stack_size entry p1 p2 p3 priority options delay k =
     (let k = z_setup_new_thread t stack stack_size entry p1 p2 p3 priority options k;
          k = (if delay \<noteq> K_FOREVER then schedule_new_thread t delay k else k)
      in (t, k))"

text \<open>Statically defined threads; the scheduler is locked while they are started.\<close>

record static_thread =
  st_thread :: tid
  st_stack :: u32
  st_stack_size :: u32
  st_entry :: u32
  st_p1 :: u32
  st_p2 :: u32
  st_p3 :: u32
  st_prio :: int
  st_options :: u32
  st_delay :: int
  st_addr :: nat

definition setup_static :: "static_thread \<Rightarrow> 'a thkernel_scheme \<Rightarrow> 'a thkernel_scheme" where
  "setup_static d k =
     upd_tcb (st_thread d) (\<lambda>c. c\<lparr>init_data := st_addr d\<rparr>)
       (z_setup_new_thread (st_thread d) (st_stack d) (st_stack_size d) (st_entry d) (st_p1 d) (st_p2 d) (st_p3 d)
          (st_prio d) (st_options d) k)"

definition start_static :: "static_thread \<Rightarrow> 'a thkernel_scheme \<Rightarrow> 'a thkernel_scheme" where
  "start_static d k = (if st_delay d \<noteq> K_FOREVER then schedule_new_thread (st_thread d) (st_delay d) k else k)"

definition z_init_static_threads :: "static_thread list \<Rightarrow> 'a thkernel_scheme \<Rightarrow> 'a thkernel_scheme" where
  "z_init_static_threads ds k = k_sched_unlock (fold start_static ds (k_sched_lock (fold setup_static ds k)))"

section \<open>Suspension and abort\<close>

definition z_thread_single_suspend :: "tid \<Rightarrow> 'a kernel_scheme \<Rightarrow> 'a kernel_scheme" where
  "z_thread_single_suspend t k =
     z_set_thread_states t {F_SUSPENDED} (if z_is_thread_ready k t then z_remove_thread_from_ready_q t k else k)"

definition k_thread_suspend :: "tid \<Rightarrow> 'a kernel_scheme \<Rightarrow> 'a kernel_scheme" where
  "k_thread_suspend t k =
     (let k' = z_thread_single_suspend t k in if t = current k then z_reschedule k' else k')"

definition z_thread_single_resume :: "tid \<Rightarrow> 'a kernel_scheme \<Rightarrow> 'a kernel_scheme" where
  "z_thread_single_resume t k = z_ready_thread t (z_reset_thread_states t {F_SUSPENDED} k)"

definition k_thread_resume :: "tid \<Rightarrow> 'a kernel_scheme \<Rightarrow> 'a kernel_scheme" where
  "k_thread_resume t k = z_reschedule (z_thread_single_resume t k)"

definition z_thread_single_abort ::
  "(tid \<Rightarrow> 'a thkernel_scheme \<Rightarrow> 'a thkernel_scheme) \<Rightarrow> tid \<Rightarrow> 'a thkernel_scheme \<Rightarrow> 'a thkernel_scheme" where
  "z_thread_single_abort fn_abort t k =
     (let k = (if has_fn_abort (tcbs k t) then fn_abort t k else k);
          k = (if z_is_thread_ready k t then z_remove_thread_from_ready_q t k
               else (let k = (if z_is_thread_pending k t then z_unpend_thread_no_timeout t k else k)
                     in if z_is_thread_timeout_active k t then snd (z_abort_thread_timeout t k) else k))
      in z_set_thread_states t {F_DEAD} k)"

definition k_thread_abort ::
  "(tid \<Rightarrow> 'a thkernel_scheme \<Rightarrow> 'a thkernel_scheme) \<Rightarrow> tid \<Rightarrow> 'a thkernel_scheme \<Rightarrow> 'a thkernel_scheme" where
  "k_thread_abort fn_abort t k = z_reschedule (z_thread_single_abort fn_abort t k)"

section \<open>The run queue as a ring\<close>

text \<open>
  \<^verbatim>\<open>z_priq_dumb_add\<close> on the nodes of the threads, which have the threads' names as addresses; \<open>f\<close> bounds
  the nodes the loop looks at.
\<close>

definition priq_dumb_add_ring :: "'a kernel_scheme \<Rightarrow> nat \<Rightarrow> nat \<Rightarrow> tid \<Rightarrow> dheap \<Rightarrow> dheap option" where
  "priq_dumb_add_ring k f pq t h =
     (case find_pos f (z_is_t1_higher_prio_than_t2 k t) h pq (sys_dlist_peek_head h pq) of None \<Rightarrow> None
      | Some pos \<Rightarrow> Some (if pos \<noteq> 0 then sys_dlist_insert pos t h else sys_dlist_append pq t h))"

section \<open>Busy waiting\<close>

text \<open>
  \<open>cyc\<close> is the cycle counter at each reading. The loop has fuel; the reading after which it ends is the
  result.
\<close>

definition cycles_to_wait :: "u32 \<Rightarrow> u32" where
  "cycles_to_wait usec = ucast ((ucast usec :: u64) * 133000000 div 1000000)"

fun busy_loop :: "nat \<Rightarrow> (nat \<Rightarrow> u32) \<Rightarrow> u32 \<Rightarrow> u32 \<Rightarrow> nat \<Rightarrow> nat option" where
  "busy_loop 0 cyc start n i = None"
| "busy_loop (Suc f) cyc start n i = (if cyc i - start \<ge> n then Some i else busy_loop f cyc start n (i + 1))"

definition k_busy_wait :: "nat \<Rightarrow> (nat \<Rightarrow> u32) \<Rightarrow> u32 \<Rightarrow> nat option" where
  "k_busy_wait f cyc usec = busy_loop f cyc (cyc 0) (cycles_to_wait usec) 1"

section \<open>Keeping the queues in order\<close>

text \<open>One thread leaves all queues, whatever becomes of its state.\<close>

lemma queues_ok_drop:
  assumes ok: "queues_ok k" and ql: "\<And>l. qlists k' l = remove1 t (qlists k l)"
    and th: "\<And>x. x \<noteq> t \<Longrightarrow> threads k' x = threads k x"
    and t: "F_QUEUED \<notin> tstate k' t" "pended_on (threads k' t) = None"
    and to: "set (timeout_list k') \<subseteq> insert (Thr t) (set (timeout_list k))"
    and i: "idle_thread k' = idle_thread k"
  shows "queues_ok k'"
proof -
  note D = queues_okD [OF ok]
  have mem: "x \<in> set (qlists k' l) \<longleftrightarrow> x \<in> set (qlists k l) \<and> x \<noteq> t" for x l using D(1) [of l] by (auto simp: ql)
  have "distinct (qlists k' l)" for l using D(1) [of l] by (simp add: ql)
  moreover have "x \<in> set (runq k') \<longleftrightarrow> F_QUEUED \<in> tstate k' x" for x
    using D(2) [of x] t(1) th [of x] by (cases "x = t") (simp_all add: mem)
  moreover have "x \<in> set (waitq k' w) \<longleftrightarrow> pended_on (threads k' x) = Some w" for x w
    using D(3) [of x w] t(2) th [of x] by (cases "x = t") (simp_all add: mem)
  moreover have "pended_on (threads k' x) \<noteq> None \<longrightarrow> F_PENDING \<in> tstate k' x" for x
    using D(4) [of x] t(2) th [of x] by (cases "x = t") auto
  moreover have "z_is_thread_ready k' x" if "x \<in> set (runq k')" for x
    using that D(5) [of x] th [of x] to unfolding mem by (auto simp: ready_def2)
  moreover have "map (tprio k') (runq k') = map (tprio k) (remove1 t (runq k))"
    using th D(1) [of RunQ] by (auto simp: ql)
  then have "sorted (map (tprio k') (runq k'))" using sorted_remove1_map [OF D(6)] by simp
  moreover have "idle_thread k' \<notin> set (qlists k' l)" for l using D(7) by (simp add: mem i)
  ultimately show ?thesis unfolding queues_ok_def by blast
qed

text \<open>A thread that is not ready may change its state as long as it stays not ready.\<close>

lemma queues_ok_flags:
  assumes ok: "queues_ok k" and "t \<notin> set (runq k)" and "F_QUEUED \<notin> fs" and "F_PENDING \<notin> fs"
  shows "queues_ok (z_set_thread_states t fs k)" and "queues_ok (z_reset_thread_states t fs k)"
proof -
  note D = queues_okD [OF ok]
  have q: "F_QUEUED \<notin> tstate k t" using D(2) assms(2) by blast
  have "queues_ok (upd_thread t (\<lambda>th. th\<lparr>thread_state := st\<rparr>) k)" (is "queues_ok ?k")
    if st: "F_QUEUED \<notin> st" "F_PENDING \<in> st \<longleftrightarrow> F_PENDING \<in> tstate k t" for st
  proof -
    have "x \<in> set (runq ?k) \<longleftrightarrow> F_QUEUED \<in> tstate ?k x" for x using D(2) [of x] q st(1) by simp
    moreover have "pended_on (threads ?k x) \<noteq> None \<longrightarrow> F_PENDING \<in> tstate ?k x" for x
      using D(4) [of x] st(2) by auto
    moreover have "z_is_thread_ready ?k x" if "x \<in> set (runq ?k)" for x
      using that D(5) [of x] assms(2) by (auto simp: ready_def2)
    moreover have "map (tprio ?k) (runq ?k) = map (tprio k) (runq k)" by simp
    then have "sorted (map (tprio ?k) (runq ?k))" using D(6) by (simp only:)
    moreover have "x \<in> set (waitq ?k w) \<longleftrightarrow> pended_on (threads ?k x) = Some w" for x w using D(3) [of x w] by simp
    moreover have "distinct (qlists ?k l)" "idle_thread ?k \<notin> set (qlists ?k l)" for l using D(1,7) by simp_all
    ultimately show ?thesis unfolding queues_ok_def by blast
  qed
  from this [of "tstate k t \<union> fs"] this [of "tstate k t - fs"] q assms(3,4)
  show "queues_ok (z_set_thread_states t fs k)" "queues_ok (z_reset_thread_states t fs k)"
    by (simp_all add: z_set_thread_states_def z_reset_thread_states_def upd_thread_def)
qed

text \<open>The extension of the state is left alone by the scheduler.\<close>

lemma ext_more: "kernel.more k = kernel.more k' \<Longrightarrow> tcbs k = tcbs k' \<and> frames k = frames k'" for k k' :: "'a thkernel_scheme"
  by (cases k, cases k') simp

lemma upd_tcb_sel [simp]:
  "threads (upd_tcb t f k) = threads k" "qlists (upd_tcb t f k) = qlists k" "current (upd_tcb t f k) = current k"
  "timeout_list (upd_tcb t f k) = timeout_list k" "idle_thread (upd_tcb t f k) = idle_thread k"
  "frames (upd_tcb t f k) = frames k" "tcbs (upd_tcb t f k) = (tcbs k)(t := f (tcbs k t))"
  "nested (upd_tcb t f k) = nested k"
  by (simp_all add: upd_tcb_def)

lemma thread_start_more [simp]: "kernel.more (schedule_new_thread t d k) = kernel.more k"
  by (simp add: schedule_new_thread_def k_thread_start_def)

section \<open>Creation\<close>

text \<open>A thread object that is not in use.\<close>

definition unused :: "'a kernel_scheme \<Rightarrow> tid \<Rightarrow> bool" where
  "unused k t \<longleftrightarrow> (\<forall>l. t \<notin> set (qlists k l)) \<and> pended_on (threads k t) = None \<and> Thr t \<notin> set (timeout_list k)
     \<and> t \<noteq> idle_thread k \<and> t \<noteq> current k"

lemma stack_frame_fits:
  assumes "unat stk + unat sz < 4294967296" and "96 \<le> unat sz"
  shows "unat stk \<le> unat (STACK_ROUND_DOWN (stk + sz - sizeof_esf))"
    and "unat (STACK_ROUND_DOWN (stk + sz - sizeof_esf)) + 80 \<le> unat stk + unat sz"
    and "unat (STACK_ROUND_DOWN (stk + sz - sizeof_esf)) mod 16 = 0"
proof -
  let ?x = "stk + sz - sizeof_esf"
  have a: "unat (stk + sz) = unat stk + unat sz" using assms(1) by (simp add: unat_u32_add)
  have "unat sizeof_esf = 80" by (simp add: sizeof_esf_def)
  moreover have "sizeof_esf \<le> stk + sz" using a assms(2) by (simp add: word_le_nat_alt sizeof_esf_def)
  ultimately have x: "unat ?x = unat stk + unat sz - 80" using a by (simp add: unat_sub)
  have "STACK_ROUND_DOWN ?x = ?x AND NOT (mask 4)" by (simp add: STACK_ROUND_DOWN_def STACK_ALIGN_def mask_eq_exp_minus_1)
  also have "\<dots> = push_bit 4 (drop_bit 4 ?x)" by (rule bit_word_eqI) (auto simp: bit_simps)
  finally have r: "unat (STACK_ROUND_DOWN ?x) = 16 * (unat ?x div 16)"
    by (simp add: unat_align16)
  show "unat (STACK_ROUND_DOWN ?x) mod 16 = 0" unfolding r by simp
  have "16 * (unat ?x div 16) \<le> unat ?x" "unat ?x < 16 * (unat ?x div 16) + 16"
    using mult_div_mod_eq [of 16 "unat ?x"] mod_less_divisor [of 16 "unat ?x"] by linarith+
  then show "unat stk \<le> unat (STACK_ROUND_DOWN ?x)" "unat (STACK_ROUND_DOWN ?x) + 80 \<le> unat stk + unat sz"
    unfolding r x using assms(2) by linarith+
qed

lemma setup_sel [simp]:
  "threads (z_setup_new_thread t stk sz e p1 p2 p3 pr opt k) = (threads k)(t := (threads k t)
     \<lparr>user_options := ucast opt, thread_state := {F_PRESTART}, prio := s8 pr, sched_locked := 0\<rparr>)"
  "qlists (z_setup_new_thread t stk sz e p1 p2 p3 pr opt k) = qlists k"
  "timeout_list (z_setup_new_thread t stk sz e p1 p2 p3 pr opt k) = timeout_list k"
  "idle_thread (z_setup_new_thread t stk sz e p1 p2 p3 pr opt k) = idle_thread k"
  "current (z_setup_new_thread t stk sz e p1 p2 p3 pr opt k) = current k"
  "saved_sp (tcbs (z_setup_new_thread t stk sz e p1 p2 p3 pr opt k) t) = STACK_ROUND_DOWN (stk + sz - sizeof_esf)"
  "frames (z_setup_new_thread t stk sz e p1 p2 p3 pr opt k) (unat (STACK_ROUND_DOWN (stk + sz - sizeof_esf)))
     = \<lparr>esf_a0 = e, esf_a1 = p1, esf_a2 = p2, esf_a3 = p3, esf_mepc = entry_wrapper k,
        esf_mstatus = SOC_MSTATUS_DEF_RESTORE\<rparr>"
  by (simp_all add: z_setup_new_thread_def z_new_thread_def z_new_thread_init_def z_init_thread_base_def Let_def
      upd_tcb_def upd_thread_def)

lemma reschedule_state [simp]:
  "tstate (z_reschedule k) t = tstate k t" "tprio (z_reschedule k) t = tprio k t"
  "pended_on (threads (z_reschedule k) t) = pended_on (threads k t)"
  by (simp_all add: z_reschedule_def z_swap_def)

lemma reset_states_sel [simp]:
  "tprio (z_reset_thread_states t fs k) x = tprio k x"
  by (simp add: z_reset_thread_states_def)

lemma queues_ok_add_timeout:
  assumes "queues_ok k" and "t \<notin> set (runq k)"
  shows "queues_ok (z_add_timeout (Thr t) d k)"
proof -
  note D = queues_okD [OF assms(1)]
  let ?k = "z_add_timeout (Thr t) d k"
  have "z_is_thread_ready ?k x" if "x \<in> set (runq k)" for x
    using that D(5) [of x] assms(2) by (auto simp: ready_def2 set_add_timeout)
  then show ?thesis using assms(1) by (simp add: queues_ok_def)
qed

text \<open>
  A created thread is runnable at once, after its delay, or not before it is started, as its delay says, at
  the priority given; the queues stay in order. Its first stack frame lies inside its stack, aligned, and
  makes the thread enter its function with its arguments through the entry wrapper.\<close>

theorem k_thread_create_spec:
  assumes "queues_ok k" and "unused k t" and "unat stk + unat sz < 4294967296" and "96 \<le> unat sz"
  shows "\<exists>k'. k_thread_create t stk sz e p1 p2 p3 pr opt delay k = (t, k') \<and> queues_ok k' \<and> tprio k' t = s8 pr
    \<and> (t \<in> set (runq k') \<longleftrightarrow> delay = 0) \<and> (F_PRESTART \<in> tstate k' t \<longleftrightarrow> delay \<noteq> 0)
    \<and> (Thr t \<in> set (timeout_list k') \<longleftrightarrow> delay \<noteq> 0 \<and> delay \<noteq> K_FOREVER)
    \<and> (let sp = saved_sp (tcbs k' t); fr = frames k' (unat sp) in
         unat stk \<le> unat sp \<and> unat sp + 80 \<le> unat stk + unat sz \<and> unat sp mod 16 = 0
         \<and> esf_a0 fr = e \<and> esf_a1 fr = p1 \<and> esf_a2 fr = p2 \<and> esf_a3 fr = p3 \<and> esf_mepc fr = entry_wrapper k)"
proof -
  let ?k = "z_setup_new_thread t stk sz e p1 p2 p3 pr opt k"
  let ?k' = "if delay \<noteq> K_FOREVER then schedule_new_thread t delay ?k else ?k"
  note u = assms(2) [unfolded unused_def]
  have ok: "queues_ok ?k" using u by (intro queues_ok_drop [OF assms(1), where t = t]) (auto simp: remove1_idem)
  have r: "z_is_thread_ready (z_reset_thread_states t {F_PRESTART} ?k) t"
    using u by (simp add: ready_def2 z_reset_thread_states_def)
  have ok': "queues_ok (z_ready_thread t (z_reset_thread_states t {F_PRESTART} ?k))"
    using u queues_ok_flags(2) [OF ok, of t "{F_PRESTART}"]
    by (intro queues_ok_ready) (simp_all add: z_reset_thread_states_def)
  have q: "queues_ok ?k' \<and> tprio ?k' t = s8 pr \<and> (t \<in> set (runq ?k') \<longleftrightarrow> delay = 0)
      \<and> (F_PRESTART \<in> tstate ?k' t \<longleftrightarrow> delay \<noteq> 0)
      \<and> (Thr t \<in> set (timeout_list ?k') \<longleftrightarrow> delay \<noteq> 0 \<and> delay \<noteq> K_FOREVER)"
  proof (cases "delay = 0")
    case True
    have "\<not> z_has_thread_started ?k t" by (simp add: z_has_thread_started_def)
    then have "schedule_new_thread t 0 ?k = z_reschedule (z_ready_thread t (z_reset_thread_states t {F_PRESTART} ?k))"
      by (simp add: schedule_new_thread_def k_thread_start_def)
    then show ?thesis
      using True r u queues_ok_reschedule [OF ok'] by (simp add: K_FOREVER_def reschedule_state)
  next
    case False
    then show ?thesis using ok u by (simp add: schedule_new_thread_def z_add_thread_timeout_def set_add_timeout queues_ok_add_timeout)
  qed
  have m: "tcbs ?k' = tcbs ?k \<and> frames ?k' = frames ?k" using ext_more [of ?k' ?k] by simp
  show ?thesis
    using q m stack_frame_fits [OF assms(3,4)] by (simp add: k_thread_create_def Let_def)
qed

section \<open>Abort\<close>

text \<open>Threads the running system holds: ready ones are queued, pending ones wait on a queue.\<close>

definition in_use :: "'a kernel_scheme \<Rightarrow> tid \<Rightarrow> bool" where
  "in_use k t \<longleftrightarrow> (z_is_thread_ready k t \<longrightarrow> t \<in> set (runq k)) \<and> (F_PENDING \<in> tstate k t \<longrightarrow> pended_on (threads k t) \<noteq> None)
     \<and> t \<noteq> idle_thread k"

lemma set_states_sel [simp]:
  "threads (z_set_thread_states t fs k) = (threads k)(t := (threads k t)\<lparr>thread_state := tstate k t \<union> fs\<rparr>)"
  "qlists (z_set_thread_states t fs k) = qlists k" "current (z_set_thread_states t fs k) = current k"
  "timeout_list (z_set_thread_states t fs k) = timeout_list k" "idle_thread (z_set_thread_states t fs k) = idle_thread k"
  "nested (z_set_thread_states t fs k) = nested k" "ready_cache (z_set_thread_states t fs k) = ready_cache k"
  by (simp_all add: z_set_thread_states_def)

text \<open>Out of the run queue, with the choice of the next thread made among the others.\<close>

lemma remove_ready_choice:
  assumes "queues_ok k" and "t \<in> set (runq k)" and "t = current k"
  shows "ready_cache (z_remove_thread_from_ready_q t k) = (case remove1 t (runq k) of [] \<Rightarrow> idle_thread k | x # _ \<Rightarrow> x)"
  using assms queues_okD(2) [OF assms(1), of t]
  by (simp add: z_remove_thread_from_ready_q_def Let_def z_is_thread_queued_def update_cache_choice should_preempt_def
      next_up_def z_priq_dumb_best_def z_reset_thread_states_def split: list.split)

lemma single_abort_state:
  assumes "queues_ok k" and "in_use k t" and "distinct (timeout_list k)" and "\<not> has_fn_abort (tcbs k t)"
  shows "queues_ok (z_thread_single_abort fn t k)" and "t \<notin> set (qlists (z_thread_single_abort fn t k) l)"
    and "Thr t \<notin> set (timeout_list (z_thread_single_abort fn t k))"
    and "F_DEAD \<in> tstate (z_thread_single_abort fn t k) t"
    and "current (z_thread_single_abort fn t k) = current k" and "nested (z_thread_single_abort fn t k) = nested k"
proof -
  let ?k = "z_thread_single_abort fn t k"
  note D = queues_okD [OF assms(1)] and u = assms(2) [unfolded in_use_def]
  have "(\<forall>l. qlists ?k l = remove1 t (qlists k l)) \<and> (\<forall>x. x \<noteq> t \<longrightarrow> threads ?k x = threads k x)
      \<and> F_QUEUED \<notin> tstate ?k t \<and> pended_on (threads ?k t) = None \<and> timeout_list ?k = remove1 (Thr t) (timeout_list k)"
  proof (cases "z_is_thread_ready k t")
    case True
    then have t: "t \<in> set (runq k)" using u by blast
    then have "F_QUEUED \<in> tstate k t" "t \<notin> set (waitq k w)" for w
      using D(2) queues_ok_waiting(1) [OF assms(1)] by blast+
    moreover from this(2) have "pended_on (threads k t) = None" using D(3) [of t] by (metis not_None_eq)
    moreover have "Thr t \<notin> set (timeout_list k)" using True by (simp add: ready_def2)
    ultimately show ?thesis
      using True assms(4) by (simp add: z_thread_single_abort_def Let_def z_is_thread_queued_def remove1_idem)
  next
    case False
    then have t: "t \<notin> set (runq k)" using D(5) by blast
    then have q: "F_QUEUED \<notin> tstate k t" using D(2) by blast
    have p: "pended_on (threads k t) = None" if "F_PENDING \<notin> tstate k t" using D(4) [of t] that by (cases "pended_on (threads k t)") auto
    then have "t \<notin> set (qlists k l)" if "F_PENDING \<notin> tstate k t" for l
      using that t D(3) [of t] by (cases l) auto
    with False q p assms(4) show ?thesis
      by (auto simp: z_thread_single_abort_def Let_def z_is_thread_pending_def remove1_idem z_is_thread_timeout_active_def
          z_is_inactive_timeout_def is_linked_def)
  qed
  then have f: "\<And>l. qlists ?k l = remove1 t (qlists k l)" "\<And>x. x \<noteq> t \<Longrightarrow> threads ?k x = threads k x"
    "F_QUEUED \<notin> tstate ?k t" "pended_on (threads ?k t) = None" "timeout_list ?k = remove1 (Thr t) (timeout_list k)"
    by blast+
  have i: "idle_thread ?k = idle_thread k" using assms(4) by (simp add: z_thread_single_abort_def Let_def)
  have "set (timeout_list ?k) \<subseteq> insert (Thr t) (set (timeout_list k))" using f(5) set_remove1_subset by fastforce
  then show "queues_ok ?k" using f(2-4) i by (intro queues_ok_drop [OF assms(1) f(1)])
  show "t \<notin> set (qlists ?k l)" using D(1) [of l] by (simp add: f(1))
  show "Thr t \<notin> set (timeout_list ?k)" using assms(3) by (simp add: f(5))
  show "F_DEAD \<in> tstate ?k t" "current ?k = current k" "nested ?k = nested k"
    using assms(4) by (simp_all add: z_thread_single_abort_def Let_def)
qed

text \<open>
  C22. An aborted thread is dead and in no queue, its timeout is cancelled, and the other threads' queues stay in
  order; a thread that aborts itself never continues: the best of the remaining threads runs, or the idle thread.\<close>

theorem k_thread_abort_spec:
  assumes "queues_ok k" and "in_use k t" and "distinct (timeout_list k)" and "\<not> has_fn_abort (tcbs k t)"
  shows "queues_ok (k_thread_abort fn t k) \<and> (\<forall>l. t \<notin> set (qlists (k_thread_abort fn t k) l))
    \<and> Thr t \<notin> set (timeout_list (k_thread_abort fn t k)) \<and> F_DEAD \<in> tstate (k_thread_abort fn t k) t
    \<and> (t = current k \<and> t \<in> set (runq k) \<and> \<not> z_is_in_isr k \<longrightarrow>
         current (k_thread_abort fn t k) = (case runq (k_thread_abort fn t k) of [] \<Rightarrow> idle_thread k | x # _ \<Rightarrow> x)
         \<and> current (k_thread_abort fn t k) \<noteq> t)"
proof -
  note a = single_abort_state [OF assms, of fn]
  have "current (k_thread_abort fn t k) = (case runq (k_thread_abort fn t k) of [] \<Rightarrow> idle_thread k | x # _ \<Rightarrow> x)
      \<and> current (k_thread_abort fn t k) \<noteq> t"
    if c: "t = current k" "t \<in> set (runq k)" "\<not> z_is_in_isr k"
  proof -
    have r: "z_is_thread_ready k t" by (rule queues_okD(5) [OF assms(1) c(2)])
    then have e: "z_thread_single_abort fn t k = z_set_thread_states t {F_DEAD} (z_remove_thread_from_ready_q t k)"
      using assms(4) by (simp add: z_thread_single_abort_def Let_def)
    have "F_QUEUED \<in> tstate k t" using c(2) queues_okD(2) [OF assms(1)] by blast
    then have "runq (z_thread_single_abort fn t k) = remove1 t (runq k)" by (simp add: e z_is_thread_queued_def)
    moreover have "current (k_thread_abort fn t k) = (case remove1 t (runq k) of [] \<Rightarrow> idle_thread k | x # _ \<Rightarrow> x)"
      using c(3) remove_ready_choice [OF assms(1) c(2,1)] unfolding k_thread_abort_def e
      by (simp add: z_reschedule_def z_is_in_isr_def)
    moreover have "t \<notin> set (remove1 t (runq k))" using queues_okD(1) [OF assms(1), of RunQ] by simp
    ultimately show ?thesis using assms(2) by (auto simp: k_thread_abort_def in_use_def split: list.splits)
  qed
  moreover have "queues_ok (k_thread_abort fn t k)" "\<forall>l. t \<notin> set (qlists (k_thread_abort fn t k) l)"
    "Thr t \<notin> set (timeout_list (k_thread_abort fn t k))" "F_DEAD \<in> tstate (k_thread_abort fn t k) t"
    using a by (simp_all add: k_thread_abort_def queues_ok_reschedule)
  ultimately show ?thesis by blast
qed

section \<open>Suspension\<close>

text \<open>
  A suspended thread leaves the run queue, and the scheduler does not choose it; resuming it puts it back
  behind the threads of its priority.\<close>

theorem suspend_resume:
  assumes "queues_ok k" and "t \<in> set (runq k)" and "t \<noteq> current k"
  shows "queues_ok (k_thread_suspend t k) \<and> t \<notin> set (runq (k_thread_suspend t k))
    \<and> F_SUSPENDED \<in> tstate (k_thread_suspend t k) t \<and> next_up (k_thread_suspend t k) \<noteq> t
    \<and> queues_ok (k_thread_resume t (k_thread_suspend t k))
    \<and> runq (k_thread_resume t (k_thread_suspend t k)) = priq_insert k t (remove1 t (runq k))"
proof -
  note D = queues_okD [OF assms(1)]
  have r: "z_is_thread_ready k t" by (rule D(5) [OF assms(2)])
  have q: "F_QUEUED \<in> tstate k t" using D(2) assms(2) by blast
  have w: "t \<notin> set (waitq k v)" for v using queues_ok_waiting(1) [OF assms(1)] assms(2) by blast
  have i: "t \<noteq> idle_thread k" using D(7) assms(2) by blast
  let ?k = "k_thread_suspend t k"
  have e: "?k = z_set_thread_states t {F_SUSPENDED} (z_remove_thread_from_ready_q t k)"
    using r assms(3) by (simp add: k_thread_suspend_def z_thread_single_suspend_def)
  have p: "pended_on (threads k t) = None" using w D(3) [of t] by (metis not_None_eq)
  have ok: "queues_ok ?k"
    unfolding e by (rule queues_ok_drop [OF assms(1), where t = t]) (use q p in \<open>auto simp: z_is_thread_queued_def\<close>)
  have n: "t \<notin> set (runq ?k)" and s: "F_SUSPENDED \<in> tstate ?k t" and qk: "F_QUEUED \<notin> tstate ?k t"
    using D(1) [of RunQ] q by (simp_all add: e z_is_thread_queued_def)
  have "next_up ?k \<in> insert (idle_thread k) (set (runq ?k))"
    by (simp add: next_up_def z_priq_dumb_best_def e split: list.split)
  then have "next_up ?k \<noteq> t" using n i by (metis insertE)
  moreover have ok1: "queues_ok (z_reset_thread_states t {F_SUSPENDED} ?k)" using queues_ok_flags(2) [OF ok n] by simp
  then have "queues_ok (k_thread_resume t ?k)"
    using qk i unfolding k_thread_resume_def z_thread_single_resume_def
    by (intro queues_ok_reschedule queues_ok_ready) (simp_all add: z_reset_thread_states_def e)
  moreover have "runq (k_thread_resume t ?k) = priq_insert k t (remove1 t (runq k))"
  proof -
    have "z_is_thread_ready (z_reset_thread_states t {F_SUSPENDED} ?k) t"
      using r by (auto simp: ready_def2 z_reset_thread_states_def e z_is_thread_queued_def)
    moreover have "priq_insert (z_reset_thread_states t {F_SUSPENDED} ?k) t ts = priq_insert k t ts" for ts
      by (induction ts) (simp_all add: z_is_t1_higher_prio_than_t2_def e)
    ultimately show ?thesis
      using q by (simp add: k_thread_resume_def z_thread_single_resume_def z_reset_thread_states_def e z_is_thread_queued_def)
  qed
  ultimately show ?thesis using ok n s by blast
qed

section \<open>Rings and lists\<close>

lemma priq_insert_split:
  "priq_insert k t ts = takeWhile (\<lambda>x. \<not> z_is_t1_higher_prio_than_t2 k t x) ts
     @ t # dropWhile (\<lambda>x. \<not> z_is_t1_higher_prio_than_t2 k t x) ts"
  by (induction ts) simp_all

lemma ring_add_eq:
  "dlist h pq ts \<Longrightarrow> length ts < f \<Longrightarrow>
   priq_dumb_add_ring k f pq t h = sys_dlist_insert_at f pq t (z_is_t1_higher_prio_than_t2 k t) h"
proof -
  assume d: "dlist h pq ts" and f: "length ts < f"
  obtain g where g: "f = Suc g" using f by (cases f) simp_all
  note o = dlist_observe [OF d]
  show ?thesis
  proof (cases "ts = []")
    case True
    then show ?thesis using o g by (simp add: priq_dumb_add_ring_def sys_dlist_insert_at_def)
  next
    case False
    then show ?thesis using o by (simp add: priq_dumb_add_ring_def sys_dlist_insert_at_def)
  qed
qed

text \<open>
  C21. On the linked nodes, adding a thread to a priority queue ends and puts it right before the first thread of a
  numerically larger, that is lower, priority. The others keep their order; a queue sorted by priority stays sorted, with the new thread
  the last of those of its priority. The list is the one that the scheduler's model computes.\<close>

theorem priq_ring_refines:
  assumes "dlist h pq ts" and "t \<noteq> 0" and "t \<notin> set (pq # ts)" and "length ts < f"
  shows "let ts' = takeWhile (\<lambda>x. tprio k x \<le> tprio k t) ts @ t # dropWhile (\<lambda>x. tprio k x \<le> tprio k t) ts in
    (\<exists>h'. priq_dumb_add_ring k f pq t h = Some h' \<and> dlist h' pq ts') \<and> priq_insert k t ts = ts'
    \<and> (sorted (map (tprio k) ts) \<longrightarrow> sorted (map (tprio k) ts')
         \<and> filter (\<lambda>x. tprio k x = tprio k t) ts' = filter (\<lambda>x. tprio k x = tprio k t) ts @ [t])"
proof -
  have e: "priq_insert k t ts = takeWhile (\<lambda>x. tprio k x \<le> tprio k t) ts @ t # dropWhile (\<lambda>x. tprio k x \<le> tprio k t) ts" for ts
    by (induction ts) (auto simp: z_is_t1_higher_prio_than_t2_def)
  have "\<exists>h'. priq_dumb_add_ring k f pq t h = Some h' \<and> dlist h' pq (priq_insert k t ts)"
    using dlist_insert_at [OF assms, of "z_is_t1_higher_prio_than_t2 k t"]
    by (simp add: ring_add_eq [OF assms(1,4)] priq_insert_split)
  moreover have "sorted (map (tprio k) (priq_insert k t ts))
      \<and> filter (\<lambda>x. tprio k x = tprio k t) (priq_insert k t ts) = filter (\<lambda>x. tprio k x = tprio k t) ts @ [t]"
    if "sorted (map (tprio k) ts)"
    using sorted_priq_insert [OF that] priq_insert_fifo [OF that, of "tprio k t" t] by simp
  ultimately show ?thesis unfolding e by simp
qed

text \<open>
  Resuming a thread that is not suspended is not without effect: the thread at the head of the run queue is
  inserted a second time, which cuts the threads of its priority behind it off the run queue and leaves no
  well-formed queue.\<close>

theorem resume_ready_corrupts:
  assumes "queues_ok k" and "runq k = t # ts" and "ts \<noteq> []" and "\<forall>x\<in>set ts. tprio k x = tprio k t"
    and "dlist h pq (runq k)" and "length (runq k) < f"
  shows "runq (k_thread_resume t k) = priq_insert k t (runq k)
    \<and> (\<exists>h'. priq_dumb_add_ring k f pq t h = Some h' \<and> sys_dlist_peek_head h' pq = t
         \<and> sys_dlist_peek_next h' pq t = 0 \<and> \<not> (\<exists>xs. dlist h' pq xs))"
proof -
  have "z_is_thread_ready k t" using queues_okD(5) [OF assms(1)] assms(2) by simp
  then have "z_is_thread_ready (z_reset_thread_states t {F_SUSPENDED} k) t"
    by (auto simp: ready_def2 z_reset_thread_states_def)
  moreover have "priq_insert (z_reset_thread_states t {F_SUSPENDED} k) t us = priq_insert k t us" for us
    by (induction us) (simp_all add: z_is_t1_higher_prio_than_t2_def)
  ultimately have r: "runq (k_thread_resume t k) = priq_insert k t (runq k)"
    by (simp add: k_thread_resume_def z_thread_single_resume_def z_reset_thread_states_def)
  have d: "dropWhile (\<lambda>x. \<not> z_is_t1_higher_prio_than_t2 k t x) (t # ts) = []"
    using assms(4) by (auto simp: z_is_t1_higher_prio_than_t2_def)
  have "find_pos f (z_is_t1_higher_prio_than_t2 k t) h pq (sys_dlist_peek_head h pq) = Some 0"
    using find_pos_spec [of h pq "[]" "t # ts" f "z_is_t1_higher_prio_than_t2 k t"] assms(2,5,6) d
      dlist_observe(2) [OF assms(5)] by simp
  then have "priq_dumb_add_ring k f pq t h = Some (sys_dlist_append pq t h)" by (simp add: priq_dumb_add_ring_def)
  moreover have c: "dlist h pq (t # ts)" using assms(2,5) by simp
  have "sys_dlist_peek_head (sys_dlist_append pq t h) pq = t" "sys_dlist_peek_next (sys_dlist_append pq t h) pq t = 0"
    "\<not> (\<exists>xs. dlist (sys_dlist_append pq t h) pq xs)"
    using append_linked_state [OF c assms(3)] by blast+
  ultimately show ?thesis using r by blast
qed

text \<open>The end of a timeout cancels a suspension: a sleeping or waiting thread that was suspended is in the run
  queue after its timeout, although nobody resumed it.\<close>

theorem timeout_cancels_suspension:
  assumes "queues_ok k" and "F_SUSPENDED \<in> tstate k t" and "tstate k t \<subseteq> {F_SUSPENDED, F_PENDING}"
    and "F_PENDING \<in> tstate k t \<longrightarrow> pended_on (threads k t) \<noteq> None" and "Thr t \<notin> set (timeout_list k)"
  shows "t \<in> set (runq (z_thread_timeout t k)) \<and> F_SUSPENDED \<notin> tstate (z_thread_timeout t k) t"
proof -
  let ?k = "if pended_on (threads k t) \<noteq> None then z_unpend_thread_no_timeout t k else k"
  have p: "F_PENDING \<notin> tstate ?k t"
    using assms(4) by auto
  have "tstate ?k t \<subseteq> {F_SUSPENDED, F_PENDING}" using assms(3) by auto
  with p have "z_is_thread_ready (z_reset_thread_states t {F_SUSPENDED} (z_reset_thread_states t {F_PRESTART} ?k)) t"
    using assms(5) by (auto simp: ready_def2 z_reset_thread_states_def)
  then show ?thesis by (simp add: z_thread_timeout_def Let_def z_reset_thread_states_def)
qed

section \<open>Busy waiting\<close>

lemma busy_loop_spec:
  assumes "busy_loop f cyc start n i = Some j"
  shows "i \<le> j \<and> n \<le> cyc j - start \<and> (\<forall>m. i \<le> m \<and> m < j \<longrightarrow> cyc m - start < n)"
  using assms
proof (induction f arbitrary: i)
  case (Suc f)
  show ?case
  proof (cases "cyc i - start \<ge> n")
    case True
    then show ?thesis using Suc.prems by fastforce
  next
    case False
    then have "busy_loop f cyc start n (i + 1) = Some j" using Suc.prems by simp
    from Suc.IH [OF this] False show ?thesis by (auto simp: not_le) (metis Suc_leI le_less not_le)
  qed
qed simp

lemma busy_loop_ends:
  "i \<le> j \<Longrightarrow> j < i + f \<Longrightarrow> n \<le> cyc j - start \<Longrightarrow> busy_loop f cyc start n i \<noteq> None"
proof (induction f arbitrary: i)
  case (Suc f)
  then show ?case by (cases "i = j") auto
qed simp

lemma cycles_exact:
  assumes "unat usec * 133 < 4294967296"
  shows "unat (cycles_to_wait usec) = unat usec * 133"
proof -
  have "unat (ucast usec :: u64) * 133000000 < 18446744073709551616"
    unfolding unat_up64 using unat_u32_less [of usec] by linarith
  then have "unat ((ucast usec :: u64) * 133000000) = unat usec * 133000000"
    by (simp add: unat_word_ariths unat_up64)
  then have e: "unat ((ucast usec :: u64) * 133000000 div 1000000) = unat usec * 133"
    by (simp add: unat_div)
  then show ?thesis using assms unfolding cycles_to_wait_def by (simp add: unat_low32)
qed

text \<open>
  A busy wait ends with the first reading of the cycle counter at which at least the requested time has
  passed since the first one, also when the counter wraps around, as long as the time fits the counter: fewer
  than \<open>2^32\<close> cycles of 133 MHz.\<close>

theorem k_busy_wait_waits:
  assumes "unat usec * 133 < 4294967296" and "1 \<le> j" and "j \<le> f" and "unat usec * 133 \<le> unat (cyc j - cyc 0)"
  shows "\<exists>i. k_busy_wait f cyc usec = Some i \<and> unat usec * 133 \<le> unat (cyc i - cyc 0)
    \<and> (\<forall>m. 1 \<le> m \<and> m < i \<longrightarrow> unat (cyc m - cyc 0) < unat usec * 133)"
proof -
  note c = cycles_exact [OF assms(1)]
  have "cycles_to_wait usec \<le> cyc j - cyc 0" using assms(4) c by (simp add: word_le_nat_alt)
  then obtain i where i: "k_busy_wait f cyc usec = Some i"
    using busy_loop_ends [of 1 j f "cycles_to_wait usec" cyc "cyc 0"] assms(2,3) by (auto simp: k_busy_wait_def)
  then show ?thesis
    using busy_loop_spec [of f cyc "cyc 0" "cycles_to_wait usec" 1 i] c
    by (auto simp: k_busy_wait_def word_le_nat_alt word_less_nat_alt)
qed

text \<open>A request of 32.292988 seconds is cut to its low 32 bits: the wait ends after 108 cycles.\<close>

theorem k_busy_wait_truncates: "cycles_to_wait 32292988 = 108"
  by (simp add: cycles_to_wait_def)

section \<open>Examples\<close>

definition demo_threads :: "unit thkernel_scheme" where
  "demo_threads = kernel.extend (demo_kernel\<lparr>threads := (threads demo_kernel)(5 := base_thread\<lparr>thread_state := {F_QUEUED}\<rparr>),
       qlists := (qlists demo_kernel)(RunQ := [4, 5])\<rparr>)
     \<lparr>tcbs = (\<lambda>_. \<lparr>saved_sp = 0, has_fn_abort = False, init_data = 0, resource_pool = 0\<rparr>),
      frames = (\<lambda>_. \<lparr>esf_a0 = 0, esf_a1 = 0, esf_a2 = 0, esf_a3 = 0, esf_mepc = 0, esf_mstatus = 0\<rparr>), entry_wrapper = 0x1000\<rparr>"

lemma demo_threads_sel:
  "threads demo_threads = (threads demo_kernel)(5 := base_thread\<lparr>thread_state := {F_QUEUED}\<rparr>)"
  "qlists demo_threads = (qlists demo_kernel)(RunQ := [4, 5])" "current demo_threads = 4" "idle_thread demo_threads = 0"
  "nested demo_threads = 0" "timeout_list demo_threads = []" "\<not> has_fn_abort (tcbs demo_threads t)"
  "entry_wrapper demo_threads = 0x1000"
  by (simp_all add: demo_threads_def kernel.defs demo_kernel_def)

lemma demo_threads_ok: "queues_ok demo_threads"
  by (auto simp: queues_ok_def demo_threads_sel demo_kernel_def base_thread_def ready_def2)

theorem k_thread_create_spec_witness:
  "\<exists>k'. k_thread_create 9 0x8000 0x400 0x2000 1 2 3 7 0 0 demo_threads = (9, k') \<and> queues_ok k' \<and> 9 \<in> set (runq k')"
proof -
  have "unused demo_threads 9"
    by (auto simp: unused_def demo_threads_sel demo_kernel_def base_thread_def)
  from k_thread_create_spec [OF demo_threads_ok this, of "0x8000" "0x400" "0x2000" 1 2 3 7 0 0] show ?thesis by auto
qed

theorem k_thread_abort_spec_witness:
  "F_DEAD \<in> tstate (k_thread_abort (\<lambda>_ k. k) 4 demo_threads) 4 \<and> current (k_thread_abort (\<lambda>_ k. k) 4 demo_threads) \<noteq> 4"
proof -
  have "in_use demo_threads 4" by (simp add: in_use_def demo_threads_sel demo_kernel_def)
  from k_thread_abort_spec [OF demo_threads_ok this, of "\<lambda>_ k. k"] show ?thesis by (simp add: demo_threads_sel z_is_in_isr_def)
qed

theorem suspend_resume_witness:
  "5 \<notin> set (runq (k_thread_suspend 5 demo_threads))
   \<and> runq (k_thread_resume 5 (k_thread_suspend 5 demo_threads)) = [4, 5]"
proof -
  have "priq_insert demo_threads 5 (remove1 5 (runq demo_threads)) = [4, 5]"
    by (simp add: demo_threads_sel z_is_t1_higher_prio_than_t2_def demo_kernel_def base_thread_def)
  with suspend_resume [OF demo_threads_ok, of 5] show ?thesis by (simp add: demo_threads_sel)
qed

theorem priq_ring_refines_witness:
  "\<exists>h'. priq_dumb_add_ring demo_threads 3 16 64 demo_ring = Some h' \<and> dlist h' 16 (priq_insert demo_threads 64 [32, 48])"
  using priq_ring_refines [OF demo_ring_dlist, of 64 3 demo_threads] by (simp add: Let_def)

theorem resume_ready_corrupts_witness:
  "\<exists>h h'. dlist h 16 [4, 5] \<and> priq_dumb_add_ring demo_threads 3 16 4 h = Some h' \<and> sys_dlist_peek_next h' 16 4 = 0
     \<and> runq (k_thread_resume 4 demo_threads) = [4, 5, 4]"
proof -
  have r: "runq demo_threads = [4, 5]" by (simp add: demo_threads_sel)
  have p: "\<forall>x\<in>set [5]. tprio demo_threads x = tprio demo_threads 4"
    by (simp add: demo_threads_sel demo_kernel_def base_thread_def)
  then have i: "priq_insert demo_threads 4 [4, 5] = [4, 5, 4]" by (simp add: z_is_t1_higher_prio_than_t2_def)
  obtain h where d: "dlist h 16 [4, 5]"
    using dlist_append [OF dlist_append [OF dlist_init [of 16 demo_ring], of 4], of 5] by auto
  from resume_ready_corrupts [OF demo_threads_ok r _ p, of h 16 3, unfolded r i] d show ?thesis by auto
qed

theorem timeout_cancels_suspension_witness:
  "6 \<in> set (runq (z_thread_timeout 6 (z_set_thread_states 6 {F_SUSPENDED} demo_kernel)))"
proof -
  let ?k = "z_set_thread_states 6 {F_SUSPENDED} demo_kernel"
  have "queues_ok ?k" using queues_ok_flags(1) [OF demo_queues_ok, of 6 "{F_SUSPENDED}"] by (simp add: demo_sel)
  moreover have "tstate demo_kernel 6 = {}" by (simp add: demo_kernel_def base_thread_def)
  ultimately show ?thesis using timeout_cancels_suspension [of ?k 6] by (simp add: demo_sel)
qed

theorem k_busy_wait_waits_witness:
  "\<exists>i. k_busy_wait 2 (\<lambda>i. of_nat (1000 * i) - 500) 7 = Some i"
  using k_busy_wait_waits [of 7 1 2 "\<lambda>i. of_nat (1000 * i) - 500"] by auto

end
