(* ===== verification/KWork.thy ===== *)
theory KWork
  imports KThread KQueue
begin

text \<open>
  Work queues, \<^verbatim>\<open>kernel/work_q.c\<close>, \<^verbatim>\<open>lib/os/work_q.c\<close> and the inline functions of \<^verbatim>\<open>kernel.h\<close>. Work items and
  work queues are numbers; a work item's number is the address of its node in a queue, and a delayed work item and
  the work item inside it have the same address. The loop of the worker thread is cut where it waits for an item;
  handlers are a parameter.
\<close>

record work =
  wk_handler :: nat
  wk_pending :: bool

record wkernel = thkernel +
  works :: "nat \<Rightarrow> work"
  work_q_of :: "nat \<Rightarrow> nat option"
  wqueues :: "nat \<Rightarrow> queue"
  wq_threads :: "nat \<Rightarrow> tid"

definition EADDRINUSE :: int where "EADDRINUSE = 48"

definition upd_work :: "nat \<Rightarrow> (work \<Rightarrow> work) \<Rightarrow> 'a wkernel_scheme \<Rightarrow> 'a wkernel_scheme" where
  "upd_work n f k = k\<lparr>works := (works k)(n := f (works k n))\<rparr>"

definition set_queue :: "nat \<Rightarrow> queue \<Rightarrow> 'a wkernel_scheme \<Rightarrow> 'a wkernel_scheme" where
  "set_queue q qu k = k\<lparr>wqueues := (wqueues k)(q := qu)\<rparr>"

definition set_work_q :: "nat \<Rightarrow> nat option \<Rightarrow> 'a wkernel_scheme \<Rightarrow> 'a wkernel_scheme" where
  "set_work_q n v k = k\<lparr>work_q_of := (work_q_of k)(n := v)\<rparr>"

section \<open>Work items\<close>

definition k_work_init :: "nat \<Rightarrow> nat \<Rightarrow> 'a wkernel_scheme \<Rightarrow> 'a wkernel_scheme" where
  "k_work_init n handler k = upd_work n (\<lambda>_. \<lparr>wk_handler = handler, wk_pending = False\<rparr>) k"

definition k_work_pending :: "nat \<Rightarrow> 'a wkernel_scheme \<Rightarrow> bool" where
  "k_work_pending n k \<longleftrightarrow> wk_pending (works k n)"

definition set_pending :: "bool \<Rightarrow> nat \<Rightarrow> 'a wkernel_scheme \<Rightarrow> 'a wkernel_scheme" where
  "set_pending b n k = upd_work n (\<lambda>w. w\<lparr>wk_pending := b\<rparr>) k"

definition k_work_submit_to_queue :: "nat \<Rightarrow> nat \<Rightarrow> 'a wkernel_scheme \<Rightarrow> 'a wkernel_scheme option" where
  "k_work_submit_to_queue q n k =
     (if wk_pending (works k n) then Some k
      else map_option (\<lambda>(qu, k). set_queue q qu k) (k_queue_append (wqueues k q) n (set_pending True n k)))"

definition k_work_submit_to_user_queue ::
  "nat \<Rightarrow> nat \<Rightarrow> nat option \<Rightarrow> 'a wkernel_scheme \<Rightarrow> (int \<times> 'a wkernel_scheme) option" where
  "k_work_submit_to_user_queue q n anode k =
     (if wk_pending (works k n) then Some (- EBUSY, k)
      else map_option (\<lambda>(r, qu, k).
          let k = set_queue q qu k in (r, if r \<noteq> 0 then set_pending False n k else k))
        (k_queue_alloc_append (wqueues k q) n anode (set_pending True n k)))"

text \<open>\<open>main\<close> is the address of \<^verbatim>\<open>z_work_q_main\<close>, \<open>addr\<close> that of the work queue.\<close>

definition k_work_q_start ::
  "nat \<Rightarrow> wqid \<Rightarrow> u32 \<Rightarrow> u32 \<Rightarrow> int \<Rightarrow> u32 \<Rightarrow> u32 \<Rightarrow> 'a wkernel_scheme \<Rightarrow> 'a wkernel_scheme" where
  "k_work_q_start q w stack stack_size priority main addr k =
     (case k_queue_init w k of (qu, k) \<Rightarrow>
      snd (k_thread_create (wq_threads k q) stack stack_size main addr 0 0 priority 0 0 (set_queue q qu k)))"

section \<open>The worker\<close>

text \<open>One round of the loop for the item \<open>n\<close> that \<^verbatim>\<open>k_queue_get\<close> returned.\<close>

definition work_q_run ::
  "(nat \<Rightarrow> nat \<Rightarrow> 'a wkernel_scheme \<Rightarrow> 'a wkernel_scheme) \<Rightarrow> nat \<Rightarrow> 'a wkernel_scheme \<Rightarrow> 'a wkernel_scheme" where
  "work_q_run handlers n k =
     (if n = 0 then k
      else let handler = wk_handler (works k n);
               k = (if wk_pending (works k n) then handlers handler n (set_pending False n k) else k)
           in k_yield k)"

definition z_work_q_main ::
  "(nat \<Rightarrow> nat \<Rightarrow> 'a wkernel_scheme \<Rightarrow> 'a wkernel_scheme) \<Rightarrow> nat \<Rightarrow> 'a wkernel_scheme \<Rightarrow> unit outcome \<times> 'a wkernel_scheme" where
  "z_work_q_main handlers q k =
     (case k_queue_get (wqueues k q) K_FOREVER k of
        (Done (n, free), qu, k) \<Rightarrow> (Done (), work_q_run handlers n (set_queue q qu k))
      | (Blocked, qu, k) \<Rightarrow> (Blocked, set_queue q qu k))"

definition z_work_q_main_resume ::
  "(nat \<Rightarrow> nat \<Rightarrow> 'a wkernel_scheme \<Rightarrow> 'a wkernel_scheme) \<Rightarrow> tid \<Rightarrow> 'a wkernel_scheme \<Rightarrow> 'a wkernel_scheme" where
  "z_work_q_main_resume handlers t k = work_q_run handlers (k_queue_get_resume t k) k"

section \<open>Delayed work\<close>

definition work_timeout :: "nat \<Rightarrow> 'a wkernel_scheme \<Rightarrow> 'a wkernel_scheme option" where
  "work_timeout n k = (case work_q_of k n of None \<Rightarrow> None | Some q \<Rightarrow> k_work_submit_to_queue q n k)"

text \<open>\<^verbatim>\<open>z_init_timeout\<close> marks the timeout as not linked.\<close>

definition k_delayed_work_init :: "nat \<Rightarrow> nat \<Rightarrow> 'a wkernel_scheme \<Rightarrow> 'a wkernel_scheme" where
  "k_delayed_work_init n handler k = set_work_q n None (k_work_init n handler k)"

fun find_and_remove :: "nat \<Rightarrow> qnode list \<Rightarrow> bool \<times> qnode list" where
  "find_and_remove a [] = (False, [])"
| "find_and_remove a (x # xs) =
     (if node_addr x = a then (True, xs) else case find_and_remove a xs of (r, ys) \<Rightarrow> (r, x # ys))"

definition k_queue_remove :: "queue \<Rightarrow> nat \<Rightarrow> bool \<times> queue" where
  "k_queue_remove qu a = (case find_and_remove a (data_q qu) of (r, l) \<Rightarrow> (r, qu\<lparr>data_q := l\<rparr>))"

text \<open>The result is \<open>None\<close> where the code would follow a null \<^verbatim>\<open>work_q\<close>.\<close>

definition work_cancel :: "nat \<Rightarrow> 'a wkernel_scheme \<Rightarrow> (int \<times> 'a wkernel_scheme) option" where
  "work_cancel n k =
     (if k_work_pending n k
      then (case work_q_of k n of None \<Rightarrow> None
            | Some q \<Rightarrow>
              (case k_queue_remove (wqueues k q) n of (removed, qu) \<Rightarrow>
               if \<not> removed then Some (- EINVAL, k)
               else Some (0, set_pending False n (set_work_q n None (set_queue q qu k)))))
      else Some (0, set_pending False n (set_work_q n None (snd (z_abort_timeout (Wrk n) k)))))"

definition k_delayed_work_submit_to_queue ::
  "nat \<Rightarrow> nat \<Rightarrow> int \<Rightarrow> 'a wkernel_scheme \<Rightarrow> (int \<times> 'a wkernel_scheme) option" where
  "k_delayed_work_submit_to_queue q n delay k =
     (if work_q_of k n \<noteq> None \<and> work_q_of k n \<noteq> Some q then Some (- EADDRINUSE, k)
      else case (if work_q_of k n = Some q then work_cancel n k else Some (0, k)) of None \<Rightarrow> None
      | Some (err, k) \<Rightarrow>
        if err < 0 then Some (err, k)
        else (let k = set_work_q n (Some q) k in
          if delay = 0 then map_option (\<lambda>k. (0, k)) (k_work_submit_to_queue q n k)
          else Some (err, z_add_timeout (Wrk n) (s32 (TICK_ALIGN + z_ms_to_ticks delay)) k)))"

definition k_delayed_work_cancel :: "nat \<Rightarrow> 'a wkernel_scheme \<Rightarrow> (int \<times> 'a wkernel_scheme) option" where
  "k_delayed_work_cancel n k = (if work_q_of k n = None then Some (- EINVAL, k) else work_cancel n k)"

section \<open>Submitting work\<close>

text \<open>
  Every work queue is in order, an item in a queue is pending, and it is in one queue only.
\<close>

definition work_inv :: "'a wkernel_scheme \<Rightarrow> bool" where
  "work_inv k \<longleftrightarrow> queues_ok k
     \<and> (\<forall>q. queue_inv (wqueues k q) k)
     \<and> (\<forall>q. \<forall>a\<in>set (map node_addr (data_q (wqueues k q))). wk_pending (works k a))
     \<and> (\<forall>p q a. a \<in> set (map node_addr (data_q (wqueues k p))) \<and> a \<in> set (map node_addr (data_q (wqueues k q))) \<longrightarrow> p = q)
     \<and> (\<forall>p q. q_wait_q (wqueues k p) = q_wait_q (wqueues k q) \<longrightarrow> p = q)"

lemma wk_sel [simp]:
  "works (set_queue q qu k) = works k" "wqueues (set_queue q qu k) = (wqueues k)(q := qu)"
  "work_q_of (set_queue q qu k) = work_q_of k" "work_q_of (set_pending b n k) = work_q_of k"
  "works (set_pending b n k) = (works k)(n := (works k n)\<lparr>wk_pending := b\<rparr>)" "wqueues (set_pending b n k) = wqueues k"
  "works (set_work_q n v k) = works k" "wqueues (set_work_q n v k) = wqueues k"
  "work_q_of (set_work_q n v k) = (work_q_of k)(n := v)"
  by (simp_all add: set_queue_def set_pending_def upd_work_def set_work_q_def)

lemma ext_sel [simp]:
  "threads (set_queue q qu k) = threads k" "qlists (set_queue q qu k) = qlists k" "current (set_queue q qu k) = current k"
  "timeout_list (set_queue q qu k) = timeout_list k" "idle_thread (set_queue q qu k) = idle_thread k"
  "threads (set_pending b n k) = threads k" "qlists (set_pending b n k) = qlists k" "current (set_pending b n k) = current k"
  "timeout_list (set_pending b n k) = timeout_list k" "idle_thread (set_pending b n k) = idle_thread k"
  "threads (set_work_q n v k) = threads k" "qlists (set_work_q n v k) = qlists k" "current (set_work_q n v k) = current k"
  "timeout_list (set_work_q n v k) = timeout_list k" "idle_thread (set_work_q n v k) = idle_thread k"
  by (simp_all add: set_queue_def set_pending_def upd_work_def set_work_q_def)

lemma queues_ok_ext:
  "queues_ok (set_queue q qu k) = queues_ok k" "queues_ok (set_pending b n k) = queues_ok k"
  "queues_ok (set_work_q n v k) = queues_ok k"
  by (simp_all add: queues_ok_def ready_def2)

lemma work_more: "kernel.more k = kernel.more k' \<Longrightarrow> works k = works k' \<and> wqueues k = wqueues k' \<and> work_q_of k = work_q_of k'"
  for k k' :: "'a wkernel_scheme"
  by (cases k, cases k') simp

lemma unpend_first_more: "z_unpend_first_thread w k = (r, k') \<Longrightarrow> kernel.more k' = kernel.more k"
  by (auto simp: z_unpend_first_thread_def z_unpend1_no_timeout_def split: option.splits prod.splits)

lemma append_effect:
  assumes "queues_ok k" and "queue_inv qu k" and "pended_on (threads k (current k)) = None"
  obtains qu' k' where "k_queue_append qu d k = Some (qu', k')" and "queues_ok k'" and "kernel.more k' = kernel.more k"
    and "case waitq k (q_wait_q qu) of
           [] \<Rightarrow> qu' = qu\<lparr>data_q := data_q qu @ [Direct d]\<rparr> \<and> waitq k' = waitq k
         | t # ts \<Rightarrow> qu' = qu \<and> waitq k' = (waitq k)(q_wait_q qu := ts) \<and> k_queue_get_resume t k' = d"
proof (cases "waitq k (q_wait_q qu)")
  case Nil
  then have "k_queue_append qu d k = Some (qu\<lparr>data_q := data_q qu @ [Direct d]\<rparr>, z_reschedule k)"
    using insert_at_tail [OF assms(2)] by (simp add: k_queue_append_def queue_insert_def wq.unpend_none)
  then show ?thesis using that queues_ok_reschedule [OF assms(1)] Nil by (simp add: fun_eq_iff)
next
  case (Cons t ts)
  obtain k1 where k1: "z_unpend_first_thread (q_wait_q qu) k = (Some t, k1)"
    "woken k (q_wait_q qu) ts t 0 d (z_reschedule (z_set_thread_return_value_with_data t 0 d (z_ready_thread t k1)))"
    by (rule wake_first [OF assms(1) Cons assms(3), where v = 0 and d = d]) (rule that)
  let ?k = "z_reschedule (z_set_thread_return_value_with_data t 0 d (z_ready_thread t k1))"
  have "k_queue_append qu d k = Some (qu, ?k)"
    using k1(1) by (simp add: k_queue_append_def queue_insert_def prepare_thread_to_run_def)
  moreover have "kernel.more ?k = kernel.more k"
    using unpend_first_more [OF k1(1)] by (simp add: z_set_thread_return_value_with_data_def)
  moreover have "k_queue_get_resume t ?k = d"
    using wokenD(3,4) [OF k1(2)] by (simp add: k_queue_get_resume_def ret_of_def data_of_def)
  ultimately show ?thesis using that wokenD(1) [OF k1(2)] k1(2) Cons by (simp add: woken_def)
qed

lemma work_invD:
  assumes "work_inv k"
  shows "queues_ok k" and "queue_inv (wqueues k q) k"
    and "a \<in> node_addr ` set (data_q (wqueues k q)) \<Longrightarrow> wk_pending (works k a)"
    and "a \<in> node_addr ` set (data_q (wqueues k p)) \<Longrightarrow> a \<in> node_addr ` set (data_q (wqueues k q)) \<Longrightarrow> p = q"
    and "q_wait_q (wqueues k p) = q_wait_q (wqueues k q) \<Longrightarrow> p = q"
  using assms unfolding work_inv_def set_map by blast+

lemma work_invI:
  assumes "queues_ok k" and "\<And>q. queue_inv (wqueues k q) k"
    and "\<And>q a. a \<in> node_addr ` set (data_q (wqueues k q)) \<Longrightarrow> wk_pending (works k a)"
    and "\<And>p q a. a \<in> node_addr ` set (data_q (wqueues k p)) \<Longrightarrow> a \<in> node_addr ` set (data_q (wqueues k q)) \<Longrightarrow> p = q"
    and "\<And>p q. q_wait_q (wqueues k p) = q_wait_q (wqueues k q) \<Longrightarrow> p = q"
  shows "work_inv k"
  using assms unfolding work_inv_def set_map by blast

text \<open>The invariant after an item is marked pending and its queue has kept it, or has handed it to a waiting thread.\<close>

lemma work_inv_queued:
  fixes k k1 :: "'a wkernel_scheme"
  assumes inv: "work_inv k" and np: "\<not> wk_pending (works k n)" and n: "n \<noteq> 0"
    and k1: "queues_ok k1" "works k1 = works (set_pending True n k)" "wqueues k1 = wqueues k"
    and q: "qu' = (wqueues k q)\<lparr>data_q := data_q (wqueues k q) @ [Direct n]\<rparr>" "waitq k1 = waitq k"
    and Nil: "waitq k (q_wait_q (wqueues k q)) = []"
  shows "work_inv (set_queue q qu' k1)" (is "work_inv ?k'")
proof -
  note D = work_invD [OF inv] and m = k1(2,3)
  have fresh: "n \<notin> node_addr ` set (data_q (wqueues k x))" for x using D(3) np by blast
  have i1: "queue_inv (wqueues ?k' x) ?k'" for x
    using D(2) [of x] D(2) [of q] fresh [of q] n Nil q(2) by (simp add: queue_inv_def m q(1) fun_eq_iff)
  have i2: "wk_pending (works ?k' b)" if "b \<in> node_addr ` set (data_q (wqueues ?k' x))" for b x
    using that D(3) [of b x] D(3) [of b q] by (auto simp: m q(1) split: if_splits)
  have i3: "x = y" if "b \<in> node_addr ` set (data_q (wqueues ?k' x))" "b \<in> node_addr ` set (data_q (wqueues ?k' y))" for b x y
    using that D(4) [of b x y] fresh by (auto simp: m q(1) split: if_splits)
  have i4: "x = y" if "q_wait_q (wqueues ?k' x) = q_wait_q (wqueues ?k' y)" for x y
  proof (rule D(5))
    have "q_wait_q (wqueues ?k' z) = q_wait_q (wqueues k z)" for z by (simp add: m q(1))
    then show "q_wait_q (wqueues k x) = q_wait_q (wqueues k y)" using that by metis
  qed
  show ?thesis by (rule work_invI [OF _ i1 i2 i3 i4]) (simp_all add: queues_ok_ext k1(1))
qed

lemma work_inv_handed:
  fixes k k1 :: "'a wkernel_scheme"
  assumes inv: "work_inv k" and np: "\<not> wk_pending (works k n)" and n: "n \<noteq> 0"
    and k1: "queues_ok k1" "works k1 = works (set_pending True n k)" "wqueues k1 = wqueues k"
    and q: "qu' = wqueues k q" "waitq k1 = (waitq k)(q_wait_q (wqueues k q) := ts)"
    and Cons: "waitq k (q_wait_q (wqueues k q)) = t # ts"
  shows "work_inv (set_queue q qu' k1)" (is "work_inv ?k'")
proof -
  note D = work_invD [OF inv] and m = k1(2,3)
  have e: "wqueues ?k' = wqueues k" by (simp add: m q(1))
  have "data_q (wqueues k x) = []" if "waitq ?k' (q_wait_q (wqueues k x)) \<noteq> []" for x
  proof -
    have "waitq k (q_wait_q (wqueues k x)) \<noteq> []"
      using that fun_cong [OF q(2), of "q_wait_q (wqueues k x)"] Cons by (auto split: if_splits)
    then show ?thesis using D(2) [of x] by (simp add: queue_inv_def)
  qed
  then have i1: "queue_inv (wqueues ?k' x) ?k'" for x using D(2) [of x] by (simp add: queue_inv_def e del: wk_sel)
  have i2: "wk_pending (works ?k' b)" if "b \<in> node_addr ` set (data_q (wqueues ?k' x))" for b x
    using that D(3) [of b x] unfolding e by (auto simp: m)
  have i4: "x = y" if "q_wait_q (wqueues ?k' x) = q_wait_q (wqueues ?k' y)" for x y
    using that unfolding e by (rule D(5))
  have i3: "x = y" if "b \<in> node_addr ` set (data_q (wqueues ?k' x))" "b \<in> node_addr ` set (data_q (wqueues ?k' y))" for b x y
    using that unfolding e by (rule D(4))
  show ?thesis by (rule work_invI [OF _ i1 i2 i3 i4]) (simp_all add: queues_ok_ext k1(1))
qed

text \<open>
  C32. Submitting a work item that is not pending queues it exactly once: it goes to the worker that waits for
  an item, or to the end of the queue, and is marked as pending; the work queues stay in order. A second
  submission before the worker took the item changes nothing.
\<close>

theorem work_submitted_once:
  assumes "work_inv k" and "\<not> wk_pending (works k n)" and "n \<noteq> 0" and "pended_on (threads k (current k)) = None"
  shows "\<exists>k'. k_work_submit_to_queue q n k = Some k' \<and> work_inv k' \<and> wk_pending (works k' n)
    \<and> (case waitq k (q_wait_q (wqueues k q)) of
         [] \<Rightarrow> items (wqueues k' q) = items (wqueues k q) @ [n]
       | t # ts \<Rightarrow> wqueues k' = wqueues k \<and> k_queue_get_resume t k' = n)
    \<and> k_work_submit_to_queue p n k' = Some k'"
proof -
  let ?k = "set_pending True n k" and ?w = "q_wait_q (wqueues k q)"
  note D = work_invD [OF assms(1)]
  have k0: "queues_ok ?k" "queue_inv (wqueues k q) ?k" "pended_on (threads ?k (current ?k)) = None"
    using D(1) D(2) [of q] assms(4) by (simp_all add: queues_ok_ext queue_inv_def)
  obtain qu' k1 where a: "k_queue_append (wqueues k q) n ?k = Some (qu', k1)" "queues_ok k1" "kernel.more k1 = kernel.more ?k"
    "case waitq ?k ?w of [] \<Rightarrow> qu' = (wqueues k q)\<lparr>data_q := data_q (wqueues k q) @ [Direct n]\<rparr> \<and> waitq k1 = waitq ?k
       | t # ts \<Rightarrow> qu' = wqueues k q \<and> waitq k1 = (waitq ?k)(?w := ts) \<and> k_queue_get_resume t k1 = n"
    by (rule append_effect [OF k0, where d = n]) (rule that)
  let ?k' = "set_queue q qu' k1"
  have m: "works k1 = works ?k" "wqueues k1 = wqueues k" using work_more [OF a(3)] by simp_all
  have r: "k_queue_get_resume t ?k' = k_queue_get_resume t k1" for t by (simp add: k_queue_get_resume_def)
  have "work_inv ?k'"
  proof (cases "waitq k ?w")
    case Nil
    then show ?thesis using a(4) by (intro work_inv_queued [OF assms(1-3) a(2) m]) simp_all
  next
    case (Cons t ts)
    then show ?thesis using a(4) by (intro work_inv_handed [OF assms(1-3) a(2) m _ _ Cons]) simp_all
  qed
  moreover have "k_work_submit_to_queue q n k = Some ?k'" using assms(2) a(1) by (simp add: k_work_submit_to_queue_def)
  moreover have "wk_pending (works ?k' n)" by (simp add: m)
  moreover from this have "k_work_submit_to_queue p n ?k' = Some ?k'" by (simp add: k_work_submit_to_queue_def)
  moreover have "case waitq k ?w of [] \<Rightarrow> items (wqueues ?k' q) = items (wqueues k q) @ [n]
       | t # ts \<Rightarrow> wqueues ?k' = wqueues k \<and> k_queue_get_resume t ?k' = n"
    using a(4) m(2) r by (auto simp: items_def z_queue_node_peek_def split: list.splits)
  ultimately show ?thesis by blast
qed

section \<open>Running work\<close>

lemma yield_frame [simp]:
  "kernel.more (k_yield k) = kernel.more k" "timeout_list (k_yield k) = timeout_list k"
  by (simp_all add: k_yield_def Let_def)

lemma yield_works [simp]:
  "works (k_yield k) = works k" "wqueues (k_yield k) = wqueues k" "work_q_of (k_yield k) = work_q_of k"
  for k :: "'a wkernel_scheme"
  using work_more [of "k_yield k" k] by simp_all

text \<open>
  The worker takes the oldest item of its queue. It runs the item's handler when the item is still pending, after
  clearing that mark, so that the handler can submit the item again; an item that was cancelled in between
  is skipped.
\<close>

theorem worker_runs_oldest:
  assumes "data_q (wqueues k q) = Direct n # rest" and "n \<noteq> 0"
    and "k1 = set_queue q ((wqueues k q)\<lparr>data_q := rest\<rparr>) k"
  shows "z_work_q_main handlers q k
    = (Done (), k_yield (if wk_pending (works k n) then handlers (wk_handler (works k n)) n (set_pending False n k1) else k1))"
  using assms by (simp add: z_work_q_main_def k_queue_get_def z_queue_node_peek_def work_q_run_def)

section \<open>Delayed work\<close>

lemma ext_timeouts [simp]:
  "expiries (set_work_q n v k) = expiries k" "expiries (set_pending b n k) = expiries k"
  "elapsed (set_work_q n v k) = elapsed k" "timeouts_ok (set_work_q n v k) = timeouts_ok k"
  by (simp_all add: set_work_q_def set_pending_def upd_work_def expiries_def elapsed_def timeouts_ok_def)

lemma abort_more: "kernel.more (snd (z_abort_timeout to k)) = kernel.more k"
  by (simp add: z_abort_timeout_def remove_timeout_def Let_def split: option.splits)

text \<open>
  Submitting a delayed work item starts its countdown: a timeout for the delay is added, in order of expiry, and
  the item remembers its queue. Cancelling it before it expires takes the timeout away again and detaches
  the item; nothing else has changed.
\<close>

theorem delayed_work_cancel:
  assumes "work_q_of k n = None" and "\<not> wk_pending (works k n)" and "delay \<noteq> 0"
    and "timeouts_ok k" and "Wrk n \<notin> set (timeout_list k)" and "0 \<le> elapsed k"
    and "ticks = s32 (TICK_ALIGN + z_ms_to_ticks delay)" and "max 1 ticks + elapsed k \<le> INT_MAX"
  shows "\<exists>k' k''. k_delayed_work_submit_to_queue q n delay k = Some (0, k') \<and> work_q_of k' n = Some q
    \<and> expiries k' = insert_abs (Wrk n) (max 1 ticks + elapsed k) (expiries k) \<and> timeouts_ok k'
    \<and> work_timeout n k' = k_work_submit_to_queue q n k'
    \<and> k_delayed_work_cancel n k' = Some (0, k'') \<and> work_q_of k'' = work_q_of k \<and> works k'' = works k
    \<and> expiries k'' = expiries k"
proof -
  let ?k = "set_work_q n (Some q) k"
  let ?k' = "z_add_timeout (Wrk n) ticks ?k"
  let ?k'' = "set_pending False n (set_work_q n None (snd (z_abort_timeout (Wrk n) ?k')))"
  note a = add_timeout_expiries [of ?k "Wrk n" ticks]
  have k: "expiries ?k' = insert_abs (Wrk n) (max 1 ticks + elapsed k) (expiries k)" "timeouts_ok ?k'"
    "Wrk n \<in> set (timeout_list ?k')"
    using a assms(4-6,8) by simp_all
  have m: "work_q_of ?k' = (work_q_of k)(n := Some q)" "works ?k' = works k"
    using work_more [of ?k' ?k] by simp_all
  have m2: "work_q_of (snd (z_abort_timeout (Wrk n) ?k')) = work_q_of ?k'" "works (snd (z_abort_timeout (Wrk n) ?k')) = works ?k'"
    using work_more [OF abort_more] by blast+
  have "Wrk n \<notin> fst ` set (expiries k)"
    using assms(5) fst_abs_times [of "dticks k" 0 "timeout_list k"] by (metis expiries_def list.set_map)
  then have "expiries (snd (z_abort_timeout (Wrk n) ?k')) = expiries k"
    using remove_timeout_expiries(1) [OF k(2,3)] filter_insert_abs [of "Wrk n" "expiries k"] k(1,3)
    by (simp add: z_abort_timeout_def is_linked_def)
  moreover have "k_delayed_work_submit_to_queue q n delay k = Some (0, ?k')"
    using assms(1,3,7) by (simp add: k_delayed_work_submit_to_queue_def)
  moreover have "k_delayed_work_cancel n ?k' = Some (0, ?k'')"
    using assms(2) m by (simp add: k_delayed_work_cancel_def work_cancel_def k_work_pending_def)
  moreover have "work_q_of ?k'' = work_q_of k" using assms(1) m m2 by (simp add: fun_eq_iff)
  moreover have "works ?k'' = works k" using assms(2) m m2 by (auto simp: fun_eq_iff)
  ultimately show ?thesis using k m by (auto simp: work_timeout_def)
qed

text \<open>
  A delayed work item whose handler has run stays attached to its queue. Cancelling it then reports success, and
  submitting it to another queue fails with -EADDRINUSE although it is not pending; according to the
  documentation the first returns -EINVAL, and the second fails only for a pending item.
\<close>

theorem completed_work_stays_attached:
  assumes "work_q_of k n = Some q" and "wk_pending (works k n)" and "n \<noteq> 0" and "p \<noteq> q"
    and "k' = work_q_run (\<lambda>h n k. k) n k"
  shows "\<not> k_work_pending n k' \<and> (\<exists>k''. k_delayed_work_cancel n k' = Some (0, k''))
    \<and> k_delayed_work_submit_to_queue p n delay k' = Some (- EADDRINUSE, k')"
proof -
  have "work_q_of k' n = Some q" "\<not> wk_pending (works k' n)" using assms by (simp_all add: work_q_run_def)
  then show ?thesis using assms(4)
    by (simp add: k_delayed_work_cancel_def work_cancel_def k_work_pending_def k_delayed_work_submit_to_queue_def)
qed

section \<open>Examples\<close>

text \<open>Work queue \<open>q\<close> waits on wait queue \<open>q\<close>; item 9 is pending and in queue 5.\<close>

definition demo_work :: "unit wkernel_scheme" where
  "demo_work = thkernel.extend demo_threads
     \<lparr>works = (\<lambda>n. \<lparr>wk_handler = n, wk_pending = (n = 9)\<rparr>), work_q_of = (\<lambda>n. if n = 9 then Some 5 else None),
      wqueues = (\<lambda>q. \<lparr>data_q = (if q = 5 then [Direct 9] else []), q_wait_q = q\<rparr>), wq_threads = (\<lambda>q. 20 + q)\<rparr>"

lemma demo_work_sel:
  "threads demo_work = threads demo_threads" "qlists demo_work = qlists demo_threads" "current demo_work = 4"
  "idle_thread demo_work = 0" "timeout_list demo_work = []" "works demo_work = (\<lambda>n. \<lparr>wk_handler = n, wk_pending = (n = 9)\<rparr>)"
  "work_q_of demo_work = (\<lambda>n. if n = 9 then Some 5 else None)"
  "wqueues demo_work = (\<lambda>q. \<lparr>data_q = (if q = 5 then [Direct 9] else []), q_wait_q = q\<rparr>)"
  "expiries demo_work = []" "elapsed demo_work = 0" "timeouts_ok demo_work"
  by (simp_all add: demo_work_def demo_threads_def thkernel.defs kernel.defs demo_kernel_def expiries_def elapsed_def timeouts_ok_def)

lemma demo_work_inv: "work_inv demo_work"
proof -
  have "queues_ok demo_work"
    using demo_threads_ok by (simp add: queues_ok_def demo_work_sel ready_def2 demo_threads_sel)
  moreover have "waitq demo_work 5 = []" by (simp add: demo_work_sel demo_threads_sel demo_sel)
  ultimately show ?thesis by (intro work_invI) (auto simp: queue_inv_def demo_work_sel split: if_splits)
qed

theorem work_submitted_once_witness:
  "\<exists>k'. k_work_submit_to_queue 5 8 demo_work = Some k' \<and> items (wqueues k' 5) = [9, 8] \<and> k_work_submit_to_queue 5 8 k' = Some k'"
proof -
  have "waitq demo_work 5 = []" "items (wqueues demo_work 5) = [9]" "q_wait_q (wqueues demo_work 5) = 5"
    "pended_on (threads demo_work (current demo_work)) = None" "\<not> wk_pending (works demo_work 8)"
    by (simp_all add: demo_work_sel demo_threads_sel demo_sel items_def z_queue_node_peek_def demo_kernel_def base_thread_def)
  then show ?thesis using work_submitted_once [OF demo_work_inv, of 8 5 5] by auto
qed

theorem worker_runs_oldest_witness:
  "fst (z_work_q_main (\<lambda>h n k. k) 5 demo_work) = Done ()
    \<and> \<not> wk_pending (works (snd (z_work_q_main (\<lambda>h n k. k) 5 demo_work)) 9)"
  using worker_runs_oldest [of demo_work 5 9 "[]" _ "\<lambda>h n k. k", OF _ _ refl] by (simp add: demo_work_sel)

theorem delayed_work_cancel_witness:
  "\<exists>k' k''. k_delayed_work_submit_to_queue 5 8 100 demo_work = Some (0, k') \<and> k_delayed_work_cancel 8 k' = Some (0, k'')
    \<and> expiries k' = [(Wrk 8, 11)] \<and> expiries k'' = []"
proof -
  have t: "s32 (TICK_ALIGN + z_ms_to_ticks 100) = 11" by code_simp
  from delayed_work_cancel [of demo_work 8 100 11 5] show ?thesis by (auto simp: demo_work_sel t INT_MAX_def)
qed

theorem completed_work_stays_attached_witness:
  "k_delayed_work_submit_to_queue 6 9 0 (work_q_run (\<lambda>h n k. k) 9 demo_work) = Some (- EADDRINUSE, work_q_run (\<lambda>h n k. k) 9 demo_work)"
  using completed_work_stays_attached [of demo_work 9 5 6 _ 0, OF _ _ _ _ refl] by (simp add: demo_work_sel)

end
