(* ===== verification/KRingBuf.thy ===== *)
theory KRingBuf
  imports Prelude
begin

text \<open>
  Ring buffers, \<^verbatim>\<open>lib/os/ring_buffer.c\<close> and the inline functions of \<^verbatim>\<open>include/ring_buffer.h\<close>, in
  both modes: items of 32-bit words with a header, and bytes. The buffer's memory is a function of the index;
  the arrays of the caller are functions too. A buffer of size \<open>S\<close> holds at most \<open>S - 1\<close> entries; the
  abstract view is the list of the entries from head to tail. The fields of the two modes share memory in the
  code; a buffer is used in one mode only, and here they are separate.
\<close>

record 'v ring_buf =
  rb_head :: u32
  rb_tail :: u32
  rb_dropped :: u32
  rb_tmp_tail :: u32
  rb_tmp_head :: u32
  rb_size :: u32
  rb_buf :: "nat \<Rightarrow> 'v"
  rb_mask :: u32

section \<open>The inline functions\<close>

definition is_power_of_two :: "u32 \<Rightarrow> bool" where
  "is_power_of_two x \<longleftrightarrow> x \<noteq> 0 \<and> x AND (x - 1) = 0"

definition ring_buf_init :: "u32 \<Rightarrow> (nat \<Rightarrow> 'v) \<Rightarrow> 'v ring_buf" where
  "ring_buf_init sz data = \<lparr>rb_head = 0, rb_tail = 0, rb_dropped = 0, rb_tmp_tail = 0, rb_tmp_head = 0,
     rb_size = sz, rb_buf = data, rb_mask = (if is_power_of_two sz then sz - 1 else 0)\<rparr>"

definition z_ring_buf_custom_space_get :: "u32 \<Rightarrow> u32 \<Rightarrow> u32 \<Rightarrow> u32" where
  "z_ring_buf_custom_space_get sz head tail =
     (if tail < head then head - tail - 1 else (sz - tail) + head - 1)"

definition ring_buf_is_empty :: "'v ring_buf \<Rightarrow> bool" where
  "ring_buf_is_empty b \<longleftrightarrow> rb_head b = rb_tail b"

definition ring_buf_space_get :: "'v ring_buf \<Rightarrow> u32" where
  "ring_buf_space_get b = z_ring_buf_custom_space_get (rb_size b) (rb_head b) (rb_tail b)"

section \<open>Items\<close>

text \<open>\<^verbatim>\<open>struct ring_element\<close>: the bit fields fill one word.\<close>

definition ring_element :: "u16 \<Rightarrow> u8 \<Rightarrow> u8 \<Rightarrow> u32" where
  "ring_element ty len val = ucast ty OR push_bit 16 (ucast len) OR push_bit 24 (ucast val)"

definition re_type :: "u32 \<Rightarrow> u16" where "re_type w = ucast w"
definition re_length :: "u32 \<Rightarrow> u8" where "re_length w = ucast (drop_bit 16 w)"
definition re_value :: "u32 \<Rightarrow> u8" where "re_value w = ucast (drop_bit 24 w)"

definition rb_index :: "'v ring_buf \<Rightarrow> u32 \<Rightarrow> u32" where
  "rb_index b x = (if rb_mask b \<noteq> 0 then x AND rb_mask b else x mod rb_size b)"

text \<open>The copying loops, with \<open>i\<close> counting up to the number of words.\<close>

fun put_words :: "nat \<Rightarrow> u32 \<Rightarrow> (nat \<Rightarrow> u32) \<Rightarrow> u32 ring_buf \<Rightarrow> u32 ring_buf" where
  "put_words 0 i data b = b"
| "put_words (Suc n) i data b =
     put_words n (i + 1) data (b\<lparr>rb_buf := (rb_buf b)(unat (rb_index b (i + rb_tail b + 1)) := data (unat i))\<rparr>)"

fun get_words :: "nat \<Rightarrow> u32 \<Rightarrow> u32 ring_buf \<Rightarrow> (nat \<Rightarrow> u32) \<Rightarrow> (nat \<Rightarrow> u32)" where
  "get_words 0 i b data = data"
| "get_words (Suc n) i b data =
     get_words n (i + 1) b (data(unat i := rb_buf b (unat (rb_index b (i + rb_head b + 1)))))"

definition ring_buf_item_put ::
  "u32 ring_buf \<Rightarrow> u16 \<Rightarrow> u8 \<Rightarrow> (nat \<Rightarrow> u32) \<Rightarrow> u8 \<Rightarrow> int \<times> u32 ring_buf" where
  "ring_buf_item_put b ty val data size32 =
     (if ring_buf_space_get b \<ge> ucast size32 + 1
      then (let b = b\<lparr>rb_buf := (rb_buf b)(unat (rb_tail b) := ring_element ty size32 val)\<rparr>;
                b = put_words (unat size32) 0 data b
            in (0, b\<lparr>rb_tail := rb_index b (rb_tail b + ucast size32 + 1)\<rparr>))
      else (- EMSGSIZE, b\<lparr>rb_dropped := rb_dropped b + 1\<rparr>))"

text \<open>The result, the new \<^verbatim>\<open>*size32\<close>, and what is written to \<^verbatim>\<open>*type\<close>, \<^verbatim>\<open>*value\<close> and \<^verbatim>\<open>data\<close>.\<close>

definition ring_buf_item_get ::
  "u32 ring_buf \<Rightarrow> u8 \<Rightarrow> (nat \<Rightarrow> u32) \<Rightarrow> int \<times> u8 \<times> (u16 \<times> u8) option \<times> (nat \<Rightarrow> u32) \<times> u32 ring_buf" where
  "ring_buf_item_get b size32 data =
     (if ring_buf_is_empty b then (- EAGAIN, size32, None, data, b)
      else let header = rb_buf b (unat (rb_head b)) in
        if re_length header > size32 then (- EMSGSIZE, re_length header, None, data, b)
        else (0, re_length header, Some (re_type header, re_value header),
              get_words (unat (re_length header)) 0 b data,
              b\<lparr>rb_head := rb_index b (rb_head b + ucast (re_length header) + 1)\<rparr>))"

section \<open>Bytes\<close>

definition wrap :: "u32 \<Rightarrow> u32 \<Rightarrow> u32" where
  "wrap val m = (if val \<ge> m then val - m else val)"

text \<open>The claimed part of the buffer is given by its first index and its length.\<close>

definition ring_buf_put_claim :: "'v ring_buf \<Rightarrow> u32 \<Rightarrow> u32 \<times> u32 \<times> 'v ring_buf" where
  "ring_buf_put_claim b sz =
     (let space = z_ring_buf_custom_space_get (rb_size b) (rb_head b) (rb_tmp_tail b);
          sz = min sz space;
          trail_size = rb_size b - rb_tmp_tail b;
          allocated = min trail_size sz
      in (allocated, rb_tmp_tail b, b\<lparr>rb_tmp_tail := wrap (rb_tmp_tail b + allocated) (rb_size b)\<rparr>))"

definition ring_buf_put_finish :: "'v ring_buf \<Rightarrow> u32 \<Rightarrow> int \<times> 'v ring_buf" where
  "ring_buf_put_finish b sz =
     (if sz > ring_buf_space_get b then (- EINVAL, b)
      else (let tail = wrap (rb_tail b + sz) (rb_size b) in (0, b\<lparr>rb_tail := tail, rb_tmp_tail := tail\<rparr>)))"

definition rb_store :: "nat \<Rightarrow> (nat \<Rightarrow> 'v) \<Rightarrow> nat \<Rightarrow> 'v ring_buf \<Rightarrow> 'v ring_buf" where
  "rb_store dst data n b = b\<lparr>rb_buf := (\<lambda>a. if dst \<le> a \<and> a < dst + n then data (a - dst) else rb_buf b a)\<rparr>"

lemma put_claim_le: "ring_buf_put_claim b sz = (p, dst, b') \<Longrightarrow> p \<le> sz"
  by (auto simp: ring_buf_put_claim_def Let_def min_le_iff_disj)

function put_loop :: "'v ring_buf \<Rightarrow> (nat \<Rightarrow> 'v) \<Rightarrow> u32 \<Rightarrow> u32 \<Rightarrow> u32 \<times> 'v ring_buf" where
  "put_loop b data sz tot =
     (case ring_buf_put_claim b sz of (partial, dst, b) \<Rightarrow>
      let b = rb_store (unat dst) data (unat partial) b;
          tot = tot + partial; sz = sz - partial; data = (\<lambda>i. data (unat partial + i))
      in if sz \<noteq> 0 \<and> partial \<noteq> 0 then put_loop b data sz tot else (tot, b))"
  by auto
termination
  by (relation "measure (\<lambda>(b, data, sz, tot). unat sz)") (auto dest!: put_claim_le [OF sym] intro!: unat_sub_less)

declare put_loop.simps [simp del]

definition ring_buf_put :: "'v ring_buf \<Rightarrow> (nat \<Rightarrow> 'v) \<Rightarrow> u32 \<Rightarrow> u32 \<times> 'v ring_buf" where
  "ring_buf_put b data sz =
     (case put_loop b data sz 0 of (tot, b) \<Rightarrow> (tot, snd (ring_buf_put_finish b tot)))"

definition ring_buf_get_claim :: "'v ring_buf \<Rightarrow> u32 \<Rightarrow> u32 \<times> u32 \<times> 'v ring_buf" where
  "ring_buf_get_claim b sz =
     (let space = (rb_size b - 1) - z_ring_buf_custom_space_get (rb_size b) (rb_tmp_head b) (rb_tail b);
          trail_size = rb_size b - rb_tmp_head b;
          granted_size = min sz space;
          granted_size = min trail_size granted_size
      in (granted_size, rb_tmp_head b, b\<lparr>rb_tmp_head := wrap (rb_tmp_head b + granted_size) (rb_size b)\<rparr>))"

definition ring_buf_get_finish :: "'v ring_buf \<Rightarrow> u32 \<Rightarrow> int \<times> 'v ring_buf" where
  "ring_buf_get_finish b sz =
     (let allocated = (rb_size b - 1) - ring_buf_space_get b in
      if sz > allocated then (- EINVAL, b)
      else (let head = wrap (rb_head b + sz) (rb_size b) in (0, b\<lparr>rb_head := head, rb_tmp_head := head\<rparr>)))"

lemma get_claim_le: "ring_buf_get_claim b sz = (p, src, b') \<Longrightarrow> p \<le> sz"
  by (auto simp: ring_buf_get_claim_def Let_def min_le_iff_disj)

text \<open>The caller's array is the list of the bytes read so far.\<close>

function get_loop :: "'v ring_buf \<Rightarrow> 'v list \<Rightarrow> u32 \<Rightarrow> u32 \<Rightarrow> u32 \<times> 'v list \<times> 'v ring_buf" where
  "get_loop b out sz tot =
     (case ring_buf_get_claim b sz of (partial, src, b) \<Rightarrow>
      let out = out @ map (rb_buf b) [unat src ..< unat src + unat partial];
          tot = tot + partial; sz = sz - partial
      in if sz \<noteq> 0 \<and> partial \<noteq> 0 then get_loop b out sz tot else (tot, out, b))"
  by auto
termination
  by (relation "measure (\<lambda>(b, out, sz, tot). unat sz)") (auto dest!: get_claim_le [OF sym] intro!: unat_sub_less)

declare get_loop.simps [simp del]

definition ring_buf_get :: "'v ring_buf \<Rightarrow> u32 \<Rightarrow> u32 \<times> 'v list \<times> 'v ring_buf" where
  "ring_buf_get b sz =
     (case get_loop b [] sz 0 of (tot, out, b) \<Rightarrow> (tot, out, snd (ring_buf_get_finish b tot)))"

section \<open>The buffer as a list\<close>

abbreviation rb_S :: "'v ring_buf \<Rightarrow> nat" where
  "rb_S b \<equiv> unat (rb_size b)"

definition rb_used :: "'v ring_buf \<Rightarrow> nat" where
  "rb_used b = ring_used (rb_S b) (unat (rb_head b)) (unat (rb_tail b))"

definition contents :: "'v ring_buf \<Rightarrow> 'v list" where
  "contents b = window (rb_buf b) (rb_S b) (unat (rb_head b)) (rb_used b)"

text \<open>The indices are in range, and half the range of indices is enough for the buffer.\<close>

definition rb_inv :: "'v ring_buf \<Rightarrow> bool" where
  "rb_inv b \<longleftrightarrow> 0 < rb_S b \<and> rb_S b \<le> 2147483648 \<and> unat (rb_head b) < rb_S b \<and> unat (rb_tail b) < rb_S b"

text \<open>No claim is open.\<close>

definition rb_quiet :: "'v ring_buf \<Rightarrow> bool" where
  "rb_quiet b \<longleftrightarrow> rb_tmp_tail b = rb_tail b \<and> rb_tmp_head b = rb_head b"

lemma space_nat:
  assumes "unat h < unat sz" and "unat t < unat sz"
  shows "unat (z_ring_buf_custom_space_get sz h t) = unat sz - 1 - ring_used (unat sz) (unat h) (unat t)"
proof (cases "t < h")
  case True
  then have l: "unat t < unat h" by (simp add: word_less_nat_alt)
  then have "unat (h - t) = unat h - unat t" by (simp add: unat_u32_sub)
  then have "unat (h - t - 1) = unat h - unat t - 1" using l by (simp add: unat_u32_sub)
  with True l assms show ?thesis by (simp add: z_ring_buf_custom_space_get_def ring_used_def)
next
  case False
  then have l: "unat h \<le> unat t" by (simp add: word_less_nat_alt)
  have a: "unat (sz - t) = unat sz - unat t" using assms(2) by (simp add: unat_u32_sub)
  then have "unat (sz - t) + unat h < 4294967296" using l assms(2) unat_u32_less [of sz] by linarith
  then have b: "unat (sz - t + h) = unat sz - unat t + unat h" using a by (simp add: unat_u32_add)
  have "unat (sz - t + h - 1) = unat sz - unat t + unat h - 1" using b assms(2) by (simp add: unat_u32_sub)
  with False l assms show ?thesis by (simp add: z_ring_buf_custom_space_get_def ring_used_def)
qed

lemma wrap_nat:
  assumes "unat m \<le> 2147483648" and "unat x < unat m" and "unat n \<le> unat m"
  shows "unat (wrap (x + n) m) = (unat x + unat n) mod unat m"
proof -
  have "unat (x + n) = unat x + unat n" using assms by (simp add: unat_u32_add)
  then show ?thesis using assms(2,3)
    by (simp add: wrap_def word_le_nat_alt unat_u32_sub le_mod_geq)
qed

lemma unat_min: "unat (min a b :: u32) = min (unat a) (unat b)"
  by (simp add: min_def word_le_nat_alt)

text \<open>A claim in terms of natural numbers.\<close>

lemma put_claim_nat:
  assumes "rb_inv b" and "unat (rb_tmp_tail b) < rb_S b"
    and "u = ring_used (rb_S b) (unat (rb_head b)) (unat (rb_tmp_tail b))"
  obtains w x where "ring_buf_put_claim b sz = (w, rb_tmp_tail b, b\<lparr>rb_tmp_tail := x\<rparr>)"
    and "unat w = min (rb_S b - unat (rb_tmp_tail b)) (min (unat sz) (rb_S b - 1 - u))"
    and "unat x = (unat (rb_tmp_tail b) + unat w) mod rb_S b"
proof -
  let ?w = "min (rb_size b - rb_tmp_tail b) (min sz (z_ring_buf_custom_space_get (rb_size b) (rb_head b) (rb_tmp_tail b)))"
  have w: "unat ?w = min (rb_S b - unat (rb_tmp_tail b)) (min (unat sz) (rb_S b - 1 - u))"
    using assms by (simp add: unat_min unat_u32_sub space_nat rb_inv_def)
  then have "unat ?w \<le> rb_S b" by linarith
  then have "unat (wrap (rb_tmp_tail b + ?w) (rb_size b)) = (unat (rb_tmp_tail b) + unat ?w) mod rb_S b"
    using assms(1,2) by (intro wrap_nat) (simp_all add: rb_inv_def)
  moreover have "ring_buf_put_claim b sz
      = (?w, rb_tmp_tail b, b\<lparr>rb_tmp_tail := wrap (rb_tmp_tail b + ?w) (rb_size b)\<rparr>)"
    by (simp only: ring_buf_put_claim_def Let_def)
  ultimately show ?thesis using w that by blast
qed

lemma map_upt_add: "map f [0..<m + n] = map f [0..<m] @ map (\<lambda>i. f (m + i)) [0..<n]"
  by (induction n) simp_all

lemma put_loop_spec:
  assumes "rb_inv b" and "unat (rb_tmp_tail b) < rb_S b"
    and "u = ring_used (rb_S b) (unat (rb_head b)) (unat (rb_tmp_tail b))" and "n = min (unat sz) (rb_S b - 1 - u)"
  shows "\<exists>x f. put_loop b data sz tot = (tot + of_nat n, b\<lparr>rb_tmp_tail := x, rb_buf := f\<rparr>)
    \<and> unat x = (unat (rb_tmp_tail b) + n) mod rb_S b
    \<and> window f (rb_S b) (unat (rb_head b)) (u + n) = window (rb_buf b) (rb_S b) (unat (rb_head b)) u @ map data [0..<n]"
  using assms
proof (induction b data sz tot arbitrary: u n rule: put_loop.induct)
  case (1 b data sz tot)
  let ?S = "rb_S b" and ?t = "unat (rb_tmp_tail b)" and ?h = "unat (rb_head b)"
  obtain w x where c: "ring_buf_put_claim b sz = (w, rb_tmp_tail b, b\<lparr>rb_tmp_tail := x\<rparr>)"
    "unat w = min (?S - ?t) (min (unat sz) (?S - 1 - u))" "unat x = (?t + unat w) mod ?S"
    by (rule put_claim_nat [OF "1.prems"(1-3), of sz]) (rule that)
  let ?b = "rb_store ?t data (unat w) (b\<lparr>rb_tmp_tail := x\<rparr>)"
  have h: "?h < ?S" "0 < ?S" using "1.prems"(1) by (simp_all add: rb_inv_def)
  have u: "u < ?S" "(?h + u) mod ?S = ?t" using h "1.prems"(2,3) ring_used_less ring_used_end by simp_all
  have wu: "u + unat w < ?S" "?t + unat w \<le> ?S" using c(2) u(1) "1.prems"(2) by linarith+
  have win: "window (rb_buf ?b) ?S ?h (u + unat w) = window (rb_buf b) ?S ?h u @ map data [0..<unat w]"
    using u wu h by (intro window_store [where d = ?t]) (simp_all add: rb_store_def)
  have le: "w \<le> sz" using put_claim_le [OF c(1)] .
  have inv: "rb_inv ?b" "unat (rb_tmp_tail ?b) < rb_S ?b" and fs: "rb_S ?b = ?S" "rb_head ?b = rb_head b" "rb_tmp_tail ?b = x"
    using "1.prems"(1) c(3) h by (simp_all add: rb_inv_def rb_store_def)
  have u': "u + unat w = ring_used (rb_S ?b) (unat (rb_head ?b)) (unat (rb_tmp_tail ?b))"
    using ring_used_grow [OF h(1) "1.prems"(2), of "unat w"] wu(1) "1.prems"(3) c(3) fs by simp
  show ?case
  proof (cases "sz - w \<noteq> 0 \<and> w \<noteq> 0")
    case False
    have n: "n = unat w"
    proof (cases "w = 0")
      case True
      then show ?thesis using c(2) "1.prems"(2,4) by (simp add: min_def split: if_splits)
    next
      case False': False
      then have "sz = w" using False by simp
      then show ?thesis using c(2) "1.prems"(4) by simp
    qed
    have "put_loop b data sz tot = (tot + of_nat n, ?b)" using False c(1) n by (auto simp: put_loop.simps [of b] Let_def)
    moreover have "?b = b\<lparr>rb_tmp_tail := x, rb_buf := rb_buf ?b\<rparr>" by (simp add: rb_store_def)
    ultimately show ?thesis using win c(3) n by metis
  next
    case True
    let ?n = "min (unat (sz - w)) (?S - 1 - (u + unat w))"
    have "unat (sz - w) = unat sz - unat w" "unat w \<le> unat sz" using le by (simp_all add: unat_u32_sub word_le_nat_alt)
    then have n: "n = unat w + ?n" using c(2) unfolding "1.prems"(4) by linarith
    obtain y f where I: "put_loop ?b (\<lambda>i. data (unat w + i)) (sz - w) (tot + w) = (tot + w + of_nat ?n, ?b\<lparr>rb_tmp_tail := y, rb_buf := f\<rparr>)"
      "unat y = (unat x + ?n) mod ?S"
      "window f ?S ?h (u + unat w + ?n) = window (rb_buf ?b) ?S ?h (u + unat w) @ map (\<lambda>i. data (unat w + i)) [0..<?n]"
      using "1.IH" [OF c(1) [symmetric] refl refl refl refl refl True inv u' refl] fs by auto
    have "put_loop b data sz tot = (tot + of_nat n, b\<lparr>rb_tmp_tail := y, rb_buf := f\<rparr>)"
      using True c(1) I(1) n by (simp add: put_loop.simps [of b] Let_def rb_store_def)
    moreover have "unat y = (?t + n) mod ?S" using I(2) c(3) n by (simp add: mod_add_left_eq add.assoc)
    moreover have "map data [0..<n] = map data [0..<unat w] @ map (\<lambda>i. data (unat w + i)) [0..<?n]"
      unfolding n by (rule map_upt_add)
    then have "window f ?S ?h (u + n) = window (rb_buf b) ?S ?h u @ map data [0..<n]"
      using I(3) win n by (simp add: add.assoc)
    ultimately show ?thesis by blast
  qed
qed

lemma get_claim_nat:
  assumes "rb_inv b" and "unat (rb_tmp_head b) < rb_S b"
    and "u = ring_used (rb_S b) (unat (rb_tmp_head b)) (unat (rb_tail b))"
  obtains w x where "ring_buf_get_claim b sz = (w, rb_tmp_head b, b\<lparr>rb_tmp_head := x\<rparr>)"
    and "unat w = min (rb_S b - unat (rb_tmp_head b)) (min (unat sz) u)"
    and "unat x = (unat (rb_tmp_head b) + unat w) mod rb_S b"
proof -
  let ?sp = "z_ring_buf_custom_space_get (rb_size b) (rb_tmp_head b) (rb_tail b)"
  let ?w = "min (rb_size b - rb_tmp_head b) (min sz (rb_size b - 1 - ?sp))"
  have t: "unat (rb_tail b) < rb_S b" "0 < rb_S b" using assms(1) by (simp_all add: rb_inv_def)
  have u: "u < rb_S b" using assms(2,3) t ring_used_less by simp
  have sp: "unat ?sp = rb_S b - 1 - u" using space_nat [OF assms(2) t(1)] assms(3) by simp
  have "unat (rb_size b - 1) = rb_S b - 1" using t(2) by (simp add: unat_u32_sub)
  then have "unat (rb_size b - 1 - ?sp) = u" using sp u by (simp add: unat_u32_sub)
  then have w: "unat ?w = min (rb_S b - unat (rb_tmp_head b)) (min (unat sz) u)"
    using assms(2) by (simp add: unat_min unat_u32_sub)
  then have "unat ?w \<le> rb_S b" by linarith
  then have "unat (wrap (rb_tmp_head b + ?w) (rb_size b)) = (unat (rb_tmp_head b) + unat ?w) mod rb_S b"
    using assms(1,2) by (intro wrap_nat) (simp_all add: rb_inv_def)
  moreover have "ring_buf_get_claim b sz
      = (?w, rb_tmp_head b, b\<lparr>rb_tmp_head := wrap (rb_tmp_head b + ?w) (rb_size b)\<rparr>)"
    by (simp only: ring_buf_get_claim_def Let_def)
  ultimately show ?thesis using w that by blast
qed

lemma window_take: "n \<le> u \<Longrightarrow> take n (window f S h u) = window f S h n"
  by (simp add: window_def take_map)

lemma window_add: "window f S h (m + n) = window f S h m @ window f S ((h + m) mod S) n"
  unfolding window_def by (subst map_upt_add) (simp add: mod_add_left_eq add.assoc)

lemma get_loop_spec:
  assumes "rb_inv b" and "unat (rb_tmp_head b) < rb_S b"
    and "u = ring_used (rb_S b) (unat (rb_tmp_head b)) (unat (rb_tail b))" and "n = min (unat sz) u"
  shows "\<exists>x. get_loop b out sz tot
      = (tot + of_nat n, out @ window (rb_buf b) (rb_S b) (unat (rb_tmp_head b)) n, b\<lparr>rb_tmp_head := x\<rparr>)
    \<and> unat x = (unat (rb_tmp_head b) + n) mod rb_S b"
  using assms
proof (induction b out sz tot arbitrary: u n rule: get_loop.induct)
  case (1 b out sz tot)
  let ?S = "rb_S b" and ?h = "unat (rb_tmp_head b)"
  obtain w x where c: "ring_buf_get_claim b sz = (w, rb_tmp_head b, b\<lparr>rb_tmp_head := x\<rparr>)"
    "unat w = min (?S - ?h) (min (unat sz) u)" "unat x = (?h + unat w) mod ?S"
    by (rule get_claim_nat [OF "1.prems"(1-3), of sz]) (rule that)
  let ?b = "b\<lparr>rb_tmp_head := x\<rparr>" and ?out = "out @ map (rb_buf b) [?h ..< ?h + unat w]"
  have t: "unat (rb_tail b) < ?S" "0 < ?S" using "1.prems"(1) by (simp_all add: rb_inv_def)
  have wu: "unat w \<le> u" "?h + unat w \<le> ?S" using c(2) "1.prems"(2) by linarith+
  have win: "map (rb_buf b) [?h ..< ?h + unat w] = window (rb_buf b) ?S ?h (unat w)"
    by (rule window_straight [OF wu(2), symmetric])
  have le: "w \<le> sz" using get_claim_le [OF c(1)] .
  have inv: "rb_inv ?b" "unat (rb_tmp_head ?b) < rb_S ?b" using "1.prems"(1) c(3) t by (simp_all add: rb_inv_def)
  have u': "u - unat w = ring_used (rb_S ?b) (unat (rb_tmp_head ?b)) (unat (rb_tail ?b))"
    using ring_used_shrink [OF "1.prems"(2) t(1), of "unat w"] wu(1) "1.prems"(3) c(3) by simp
  show ?case
  proof (cases "sz - w \<noteq> 0 \<and> w \<noteq> 0")
    case False
    have n: "n = unat w"
    proof (cases "w = 0")
      case True
      then show ?thesis using c(2) "1.prems"(2,4) by (simp add: min_def split: if_splits)
    next
      case False': False
      then have "sz = w" using False by simp
      then show ?thesis using c(2) "1.prems"(4) by simp
    qed
    have "get_loop b out sz tot = (tot + of_nat n, ?out, ?b)"
      using False c(1) n by (auto simp: get_loop.simps [of b] Let_def)
    then show ?thesis using win c(3) n by auto
  next
    case True
    let ?n = "min (unat (sz - w)) (u - unat w)"
    have "unat (sz - w) = unat sz - unat w" "unat w \<le> unat sz" using le by (simp_all add: unat_u32_sub word_le_nat_alt)
    then have n: "n = unat w + ?n" using wu(1) unfolding "1.prems"(4) by linarith
    obtain y where I: "get_loop ?b ?out (sz - w) (tot + w)
        = (tot + w + of_nat ?n, ?out @ window (rb_buf b) ?S (unat x) ?n, ?b\<lparr>rb_tmp_head := y\<rparr>)"
      "unat y = (unat x + ?n) mod ?S"
      using "1.IH" [OF c(1) [symmetric] refl refl refl refl True inv u' refl] by auto
    have "window (rb_buf b) ?S ?h n = window (rb_buf b) ?S ?h (unat w) @ window (rb_buf b) ?S (unat x) ?n"
      unfolding n c(3) by (rule window_add)
    then have "get_loop b out sz tot = (tot + of_nat n, out @ window (rb_buf b) ?S ?h n, b\<lparr>rb_tmp_head := y\<rparr>)"
      using True c(1) I(1) n win by (simp add: get_loop.simps [of b] Let_def)
    moreover have "unat y = (?h + n) mod ?S" using I(2) c(3) n by (simp add: mod_add_left_eq add.assoc)
    ultimately show ?thesis by blast
  qed
qed

lemma contents_len [simp]: "length (contents b) = rb_used b"
  by (simp add: contents_def)

lemma rb_used_bound: "rb_inv b \<Longrightarrow> rb_used b < rb_S b"
  by (simp add: rb_inv_def rb_used_def ring_used_less)

lemma ring_buf_put_nat:
  fixes data :: "nat \<Rightarrow> 'v"
  assumes "rb_inv b" and "rb_quiet b" and n: "n = min (unat sz) (rb_S b - 1 - rb_used b)"
  shows "\<exists>t f. ring_buf_put b data sz = (of_nat n, b\<lparr>rb_tail := t, rb_tmp_tail := t, rb_buf := f\<rparr>)
    \<and> unat t = (unat (rb_tail b) + n) mod rb_S b
    \<and> window f (rb_S b) (unat (rb_head b)) (rb_used b + n) = contents b @ map data [0..<n]"
proof -
  let ?S = "rb_S b"
  have i: "?S \<le> 2147483648" "unat (rb_head b) < ?S" "unat (rb_tail b) < ?S" "rb_tmp_tail b = rb_tail b"
    using assms(1,2) by (simp_all add: rb_inv_def rb_quiet_def)
  have u: "rb_used b = ring_used ?S (unat (rb_head b)) (unat (rb_tail b))" by (simp add: rb_used_def)
  obtain x f where p: "put_loop b data sz 0 = (of_nat n, b\<lparr>rb_tmp_tail := x, rb_buf := f\<rparr>)"
    and w: "window f ?S (unat (rb_head b)) (rb_used b + n) = contents b @ map data [0..<n]"
    using put_loop_spec [OF assms(1) _ _ n, of data 0] i u by (auto simp: contents_def)
  have nS: "n < ?S" using n i(2) by linarith
  then have n': "unat (of_nat n :: u32) = n" using i(1) by (simp add: unat_of_nat_u32)
  let ?b = "b\<lparr>rb_tmp_tail := x, rb_buf := f\<rparr>" and ?t = "wrap (rb_tail b + of_nat n) (rb_size b)"
  have "unat (ring_buf_space_get ?b) = ?S - 1 - rb_used b"
    using space_nat [OF i(2,3)] u by (simp add: ring_buf_space_get_def)
  then have "\<not> (of_nat n > ring_buf_space_get ?b)" using n n' by (simp add: word_less_nat_alt)
  then have "ring_buf_put b data sz = (of_nat n, b\<lparr>rb_tail := ?t, rb_tmp_tail := ?t, rb_buf := f\<rparr>)"
    using p by (simp add: ring_buf_put_def ring_buf_put_finish_def Let_def)
  moreover have "unat ?t = (unat (rb_tail b) + n) mod ?S"
    using wrap_nat [OF i(1,3), of "of_nat n"] n' nS by simp
  ultimately show ?thesis using w by blast
qed

lemma ring_buf_get_nat:
  assumes "rb_inv b" and "rb_quiet b" and n: "n = min (unat sz) (rb_used b)"
  shows "\<exists>h. ring_buf_get b sz = (of_nat n, take n (contents b), b\<lparr>rb_head := h, rb_tmp_head := h\<rparr>)
    \<and> unat h = (unat (rb_head b) + n) mod rb_S b"
proof -
  let ?S = "rb_S b"
  have i: "?S \<le> 2147483648" "unat (rb_head b) < ?S" "unat (rb_tail b) < ?S" "rb_tmp_head b = rb_head b" "0 < ?S"
    using assms(1,2) by (simp_all add: rb_inv_def rb_quiet_def)
  have u: "rb_used b = ring_used ?S (unat (rb_head b)) (unat (rb_tail b))" by (simp add: rb_used_def)
  have nS: "n < ?S" "n \<le> rb_used b" using n rb_used_bound [OF assms(1)] by linarith+
  obtain x where p: "get_loop b [] sz 0 = (of_nat n, window (rb_buf b) ?S (unat (rb_head b)) n, b\<lparr>rb_tmp_head := x\<rparr>)"
    using get_loop_spec [OF assms(1) _ _ n, of "[]" 0] i u by auto
  have w: "window (rb_buf b) ?S (unat (rb_head b)) n = take n (contents b)"
    unfolding contents_def by (rule window_take [OF nS(2), symmetric])
  have n': "unat (of_nat n :: u32) = n" using i(1) nS by (simp add: unat_of_nat_u32)
  let ?b = "b\<lparr>rb_tmp_head := x\<rparr>" and ?h = "wrap (rb_head b + of_nat n) (rb_size b)"
  have sp: "unat (ring_buf_space_get ?b) = ?S - 1 - rb_used b"
    using space_nat [OF i(2,3)] u by (simp add: ring_buf_space_get_def)
  have "unat (rb_size b - 1) = ?S - 1" using i(5) by (simp add: unat_u32_sub)
  then have "unat (rb_size b - 1 - ring_buf_space_get ?b) = rb_used b"
    using sp rb_used_bound [OF assms(1)] by (simp add: unat_u32_sub)
  then have "\<not> (of_nat n > rb_size b - 1 - ring_buf_space_get ?b)" using nS n' by (simp add: word_less_nat_alt)
  then have "ring_buf_get b sz = (of_nat n, take n (contents b), b\<lparr>rb_head := ?h, rb_tmp_head := ?h\<rparr>)"
    using p w by (simp add: ring_buf_get_def ring_buf_get_finish_def Let_def)
  moreover have "unat ?h = (unat (rb_head b) + n) mod ?S"
    using wrap_nat [OF i(1,2), of "of_nat n"] n' nS by simp
  ultimately show ?thesis by blast
qed

text \<open>
  C23. A ring buffer of bytes is a bounded queue. \<^verbatim>\<open>ring_buf_put\<close> appends as many of the caller's bytes
  as fit below size minus one, wrapping around the end of the array, and returns how many;
  \<^verbatim>\<open>ring_buf_get\<close> returns that many of the oldest bytes and removes them. Both keep the indices in range and
  leave no claim open.
\<close>

theorem ring_buf_refines:
  assumes "rb_inv b" and "rb_quiet b"
  shows "(let n = min (unat sz) (rb_S b - 1 - length (contents b)) in
        case ring_buf_put b data sz of (r, b') \<Rightarrow> unat r = n \<and> contents b' = contents b @ map data [0..<n]
          \<and> rb_inv b' \<and> rb_quiet b' \<and> rb_size b' = rb_size b)
    \<and> (let n = min (unat sz) (length (contents b)) in
        case ring_buf_get b sz of (r, out, b') \<Rightarrow> unat r = n \<and> out = take n (contents b)
          \<and> contents b' = drop n (contents b) \<and> rb_inv b' \<and> rb_quiet b' \<and> rb_size b' = rb_size b)"
proof -
  let ?S = "rb_S b"
  have i: "?S \<le> 2147483648" "unat (rb_head b) < ?S" "unat (rb_tail b) < ?S" "0 < ?S"
    using assms(1) by (simp_all add: rb_inv_def)
  define n m where n: "n = min (unat sz) (?S - 1 - rb_used b)" and m: "m = min (unat sz) (rb_used b)"
  have l: "rb_used b + n < ?S" "m \<le> rb_used b" "m < ?S" using n m rb_used_bound [OF assms(1)] by linarith+
  have nm: "unat (of_nat n :: u32) = n" "unat (of_nat m :: u32) = m" using l i(1) by (simp_all add: unat_of_nat_u32)
  obtain t f where p: "ring_buf_put b data sz = (of_nat n, b\<lparr>rb_tail := t, rb_tmp_tail := t, rb_buf := f\<rparr>)"
    "unat t = (unat (rb_tail b) + n) mod ?S"
    "window f ?S (unat (rb_head b)) (rb_used b + n) = contents b @ map data [0..<n]"
    using ring_buf_put_nat [OF assms n] by blast
  have "rb_used (b\<lparr>rb_tail := t, rb_tmp_tail := t, rb_buf := f\<rparr>) = rb_used b + n"
    using ring_used_grow [OF i(2,3)] l(1) p(2) by (simp add: rb_used_def)
  then have cp: "contents (b\<lparr>rb_tail := t, rb_tmp_tail := t, rb_buf := f\<rparr>) = contents b @ map data [0..<n]"
    using p(3) by (simp add: contents_def)
  obtain h where g: "ring_buf_get b sz = (of_nat m, take m (contents b), b\<lparr>rb_head := h, rb_tmp_head := h\<rparr>)"
    "unat h = (unat (rb_head b) + m) mod ?S"
    using ring_buf_get_nat [OF assms m] by blast
  have "rb_used (b\<lparr>rb_head := h, rb_tmp_head := h\<rparr>) = rb_used b - m"
    using ring_used_shrink [OF i(2,3)] l(2) g(2) by (simp add: rb_used_def)
  then have cg: "contents (b\<lparr>rb_head := h, rb_tmp_head := h\<rparr>) = drop m (contents b)"
    using window_drop [OF l(2)] g(2) by (simp add: contents_def)
  show ?thesis using p(1,2) g nm cp cg i assms n m by (simp add: Let_def rb_inv_def rb_quiet_def)
qed

section \<open>Items as a queue\<close>

text \<open>The bit trick finds the powers of two, and the mask then is the remainder.\<close>

lemma power_of_two:
  assumes "is_power_of_two x"
  obtains k where "unat x = 2 ^ k" and "x - 1 = mask k"
proof -
  have x: "unat x \<noteq> 0" "x AND (x - 1) = 0" using assms by (simp_all add: is_power_of_two_def unat_eq_0)
  then obtain k where k: "2 ^ k \<le> unat x" "unat x < 2 ^ (k + 1)" using ex_power_ivl1 [of 2 "unat x"] by auto
  have top: "bit (m :: nat) k" if "2 ^ k \<le> m" "m < 2 ^ (k + 1)" for m
  proof -
    have "m div 2 ^ k = 1" using that by (intro div_nat_eqI) simp_all
    then show ?thesis by (simp add: bit_iff_odd)
  qed
  have s: "unat (x - 1) = unat x - 1" using x(1) by (simp add: unat_u32_sub)
  have "unat x = 2 ^ k"
  proof (rule ccontr)
    assume "unat x \<noteq> 2 ^ k"
    then have "bit (unat (x - 1)) k" "bit (unat x) k" using k s by (auto intro!: top)
    then have "bit (x AND (x - 1)) k" by (simp add: bit_and_iff bit_unsigned_iff)
    then show False using x(2) by simp
  qed
  moreover have "x = of_nat (unat x)" by simp
  then have "x = 2 ^ k" using calculation by (metis of_nat_numeral of_nat_power)
  then have "x - 1 = mask k" by (simp add: mask_eq_decr_exp)
  ultimately show thesis using that by blast
qed

definition rb_masked :: "'v ring_buf \<Rightarrow> bool" where
  "rb_masked b \<longleftrightarrow> rb_mask b = (if is_power_of_two (rb_size b) then rb_size b - 1 else 0)"

lemma rb_index_mod:
  assumes "rb_masked b"
  shows "unat (rb_index b x) = unat x mod rb_S b"
proof (cases "rb_mask b = 0")
  case False
  then have p: "is_power_of_two (rb_size b)" "rb_mask b = rb_size b - 1"
    using assms by (simp_all add: rb_masked_def split: if_splits)
  obtain k where "rb_S b = 2 ^ k" "rb_size b - 1 = mask k" by (rule power_of_two [OF p(1)]) (rule that)
  with False p(2) show ?thesis by (simp add: rb_index_def unat_and_mask)
qed (simp add: rb_index_def unat_mod_distrib)

lemma rb_index_nat:
  assumes "rb_masked b" and "rb_inv b" and "unat x < rb_S b" and "i < 256"
  shows "unat (rb_index b (of_nat i + x + 1)) = (unat x + Suc i) mod rb_S b"
proof -
  have "rb_S b \<le> 2147483648" using assms(2) by (simp add: rb_inv_def)
  then have l: "unat x < 2147483648" using assms(3) by linarith
  have "unat (of_nat i + x + 1) = unat x + Suc i"
    using l assms(4) by (simp add: unat_u32_add unat_of_nat_u32)
  then show ?thesis using rb_index_mod [OF assms(1)] by simp
qed

lemma rb_index_cong: "rb_mask b' = rb_mask b \<Longrightarrow> rb_size b' = rb_size b \<Longrightarrow> rb_index b' x = rb_index b x"
  by (simp add: rb_index_def)

lemma put_words_frame: "put_words n i data b = b\<lparr>rb_buf := rb_buf (put_words n i data b)\<rparr>"
proof (induction n arbitrary: i b)
  case (Suc n)
  show ?case by (simp, subst Suc.IH) simp
qed simp

lemma put_words_window:
  assumes "rb_masked b" and "rb_inv b" and "u + 1 + i + n < rb_S b" and "i + n < 256"
    and "(unat (rb_head b) + u) mod rb_S b = unat (rb_tail b)"
  shows "window (rb_buf (put_words n (of_nat i) data b)) (rb_S b) (unat (rb_head b)) (u + 1 + i + n)
    = window (rb_buf b) (rb_S b) (unat (rb_head b)) (u + 1 + i) @ map data [i ..< i + n]"
  using assms
proof (induction n arbitrary: i b)
  case (Suc n)
  let ?S = "rb_S b" and ?h = "unat (rb_head b)" and ?d = "unat (rb_index b (of_nat i + rb_tail b + 1))"
  let ?b = "b\<lparr>rb_buf := (rb_buf b)(?d := data i)\<rparr>"
  have S: "0 < ?S" "unat (rb_tail b) < ?S" using Suc.prems(2) by (simp_all add: rb_inv_def)
  have "?d = (unat (rb_tail b) + Suc i) mod ?S"
    using rb_index_nat [OF Suc.prems(1,2) S(2)] Suc.prems(4) by simp
  then have d: "?d = (?h + (u + 1 + i)) mod ?S"
    using mod_add_left_eq [of "?h + u" ?S "Suc i"] Suc.prems(5) by (simp add: add.assoc)
  have dS: "?d < ?S" using d S(1) by simp
  have one: "window (rb_buf ?b) ?S ?h (u + 1 + i + 1) = window (rb_buf b) ?S ?h (u + 1 + i) @ map (\<lambda>_. data i) [0..<1]"
  proof (rule window_store [where d = ?d])
    show "?d + 1 \<le> ?S" using dS by simp
  qed (use Suc.prems(3) d S(1) in auto)
  have "window (rb_buf (put_words n (of_nat (Suc i)) data ?b)) (rb_S ?b) (unat (rb_head ?b)) (u + 1 + Suc i + n)
      = window (rb_buf ?b) (rb_S ?b) (unat (rb_head ?b)) (u + 1 + Suc i) @ map data [Suc i ..< Suc i + n]"
    using Suc.prems by (intro Suc.IH) (simp_all add: rb_masked_def rb_inv_def)
  moreover have "unat (of_nat i :: u32) = i" using Suc.prems(4) by (simp add: unat_of_nat_u32)
  ultimately show ?case using one by (simp add: upt_rec [of i] add.commute [of 1])
qed simp

lemma get_words_nth:
  assumes "rb_masked b" and "rb_inv b" and "i + n < 256"
  shows "get_words n (of_nat i) b data a
    = (if i \<le> a \<and> a < i + n then rb_buf b ((unat (rb_head b) + Suc a) mod rb_S b) else data a)"
  using assms(3)
proof (induction n arbitrary: i data)
  case (Suc n)
  have "unat (rb_index b (of_nat i + rb_head b + 1)) = (unat (rb_head b) + Suc i) mod rb_S b"
    using Suc.prems assms by (intro rb_index_nat) (simp_all add: rb_inv_def)
  moreover have "unat (of_nat i :: u32) = i" using Suc.prems by (simp add: unat_of_nat_u32)
  moreover have "(of_nat i + 1 :: u32) = of_nat (Suc i)" by simp
  ultimately show ?case using Suc.IH [of "Suc i"] Suc.prems
    by (simp del: of_nat_Suc)
qed auto

text \<open>An item is its type, its value and its words; the buffer holds the items one after the other.\<close>

type_synonym item = "u16 \<times> u8 \<times> u32 list"

definition item_words :: "item \<Rightarrow> u32 list" where
  "item_words it = (case it of (ty, val, ws) \<Rightarrow> ring_element ty (of_nat (length ws)) val # ws)"

definition item_ok :: "item \<Rightarrow> bool" where
  "item_ok it \<longleftrightarrow> length (snd (snd it)) < 256"

definition rb_holds :: "u32 ring_buf \<Rightarrow> item list \<Rightarrow> bool" where
  "rb_holds b its \<longleftrightarrow> rb_inv b \<and> rb_masked b \<and> list_all item_ok its \<and> contents b = concat (map item_words its)"

lemma ring_element_fields:
  "re_type (ring_element ty len val) = ty" "re_length (ring_element ty len val) = len"
  "re_value (ring_element ty len val) = val"
  by (rule bit_word_eqI, auto simp: re_type_def re_length_def re_value_def ring_element_def bit_simps dest: bit_imp_le_length)+

lemma item_put_contents:
  assumes "rb_inv b" and "rb_masked b" and fit: "rb_used b + unat len + 1 < rb_S b"
  shows "\<exists>b'. ring_buf_item_put b ty val data len = (0, b') \<and> rb_inv b' \<and> rb_masked b' \<and> rb_size b' = rb_size b
    \<and> contents b' = contents b @ ring_element ty len val # map data [0 ..< unat len]"
proof -
  let ?S = "rb_S b" and ?h = "unat (rb_head b)" and ?n = "unat len"
  let ?c = "b\<lparr>rb_buf := (rb_buf b)(unat (rb_tail b) := ring_element ty len val)\<rparr>"
  let ?d = "put_words ?n 0 data ?c"
  let ?b = "?d\<lparr>rb_tail := rb_index ?d (rb_tail ?d + ucast len + 1)\<rparr>"
  have i: "?S \<le> 2147483648" "?h < ?S" "unat (rb_tail b) < ?S" "0 < ?S" using assms(1) by (simp_all add: rb_inv_def)
  have l: "?n < 256" using unsigned_less [of len] by simp
  have fin: "(?h + rb_used b) mod ?S = unat (rb_tail b)" unfolding rb_used_def by (rule ring_used_end [OF i(2,3)])
  have f: "rb_head ?d = rb_head b" "rb_tail ?d = rb_tail b" "rb_size ?d = rb_size b" "rb_mask ?d = rb_mask b"
    by (subst put_words_frame, simp)+
  have u: "unat (ucast len :: u32) = ?n" using l by (simp add: unsigned_ucast_eq take_bit_nat_eq_self)
  have sp: "ucast len + 1 \<le> ring_buf_space_get b"
    using space_nat [OF i(2,3)] fit u l by (simp add: word_le_nat_alt unat_u32_add ring_buf_space_get_def rb_used_def)
  have one: "window (rb_buf ?c) ?S ?h (rb_used b + 1) = contents b @ map (\<lambda>_. ring_element ty len val) [0..<1]"
    unfolding contents_def using fit fin i by (intro window_store [where d = "unat (rb_tail b)"]) auto
  have w: "window (rb_buf ?d) ?S ?h (rb_used b + 1 + 0 + ?n)
      = window (rb_buf ?c) ?S ?h (rb_used b + 1 + 0) @ map data [0 ..< 0 + ?n]"
    using put_words_window [of ?c "rb_used b" 0 ?n data] assms fit l fin by (simp add: rb_masked_def rb_inv_def)
  have "ucast len = (of_nat ?n :: u32)" by simp
  then have t: "unat (rb_tail ?b) = (unat (rb_tail b) + Suc ?n) mod ?S"
    using rb_index_nat [OF assms(2,1) i(3) l] f(2) rb_index_cong [OF f(4,3)] by (simp add: add.commute add.left_commute)
  have "rb_used ?b = rb_used b + Suc ?n"
    using ring_used_grow [OF i(2,3), of "Suc ?n"] fit f t by (simp add: rb_used_def)
  then have "contents ?b = contents b @ ring_element ty len val # map data [0 ..< ?n]"
    using w one f by (simp add: contents_def)
  moreover have "rb_inv ?b" "rb_masked ?b" using assms f t i by (simp_all add: rb_inv_def rb_masked_def)
  moreover have "ring_buf_item_put b ty val data len = (0, ?b)" using sp by (simp add: ring_buf_item_put_def Let_def)
  ultimately show ?thesis using f by auto
qed

lemma item_get_contents:
  assumes "rb_inv b" and "rb_masked b" and c: "contents b = ring_element ty len val # ws @ rest"
    and "length ws = unat len" and "len \<le> lim"
  shows "\<exists>b' data'. ring_buf_item_get b lim data = (0, len, Some (ty, val), data', b') \<and> rb_inv b' \<and> rb_masked b'
    \<and> contents b' = rest \<and> map data' [0 ..< unat len] = ws"
proof -
  let ?S = "rb_S b" and ?h = "unat (rb_head b)" and ?n = "unat len"
  let ?b = "b\<lparr>rb_head := rb_index b (rb_head b + ucast len + 1)\<rparr>"
  have i: "?h < ?S" "unat (rb_tail b) < ?S" "0 < ?S" using assms(1) by (simp_all add: rb_inv_def)
  have l: "?n < 256" using unsigned_less [of len] by simp
  have used: "rb_used b = Suc (?n + length rest)" using c assms(4) by (metis contents_len length_Cons length_append)
  have at: "rb_buf b ((?h + k) mod ?S) = (ring_element ty len val # ws @ rest) ! k" if "k < rb_used b" for k
    using that c unfolding contents_def window_def by (metis (mono_tags, lifting) add_0 diff_zero length_upt nth_map nth_upt)
  have hd: "rb_buf b ?h = ring_element ty len val" using at [of 0] used i(1) by simp
  have ne: "\<not> ring_buf_is_empty b" using used by (auto simp: ring_buf_is_empty_def rb_used_def ring_used_def)
  have "ucast len = (of_nat ?n :: u32)" by simp
  then have t: "unat (rb_head ?b) = (?h + Suc ?n) mod ?S"
    using rb_index_nat [OF assms(2,1) i(1) l] by (simp add: add.commute add.left_commute)
  have "rb_used ?b = rb_used b - Suc ?n"
    using ring_used_shrink [OF i(1,2), of "Suc ?n"] used t by (simp add: rb_used_def)
  then have "contents ?b = drop (Suc ?n) (contents b)"
    using window_drop [of "Suc ?n" "rb_used b"] used t by (simp add: contents_def)
  then have "contents ?b = rest" using c assms(4) by simp
  moreover have "map (get_words ?n 0 b data) [0 ..< ?n] = ws"
  proof (rule nth_equalityI)
    fix k assume "k < length (map (get_words ?n 0 b data) [0 ..< ?n])"
    then have k: "k < ?n" by simp
    then have "get_words ?n 0 b data k = rb_buf b ((?h + Suc k) mod ?S)"
      using get_words_nth [OF assms(2,1), of 0 ?n data k] l by simp
    then show "map (get_words ?n 0 b data) [0 ..< ?n] ! k = ws ! k"
      using at [of "Suc k"] k used assms(4) by (simp add: nth_append)
  qed (simp add: assms(4))
  moreover have "rb_inv ?b" "rb_masked ?b" using assms(1,2) t i by (simp_all add: rb_inv_def rb_masked_def)
  moreover have "ring_buf_item_get b lim data = (0, len, Some (ty, val), get_words ?n 0 b data, ?b)"
    using ne hd assms(5) by (simp add: ring_buf_item_get_def ring_element_fields Let_def not_less)
  ultimately show ?thesis by blast
qed

lemma item_put_refines:
  assumes "rb_holds b its" and "data_words = map data [0 ..< unat len]"
  shows "(if length (contents b) + unat len + 1 < rb_S b
        then fst (ring_buf_item_put b ty val data len) = 0
          \<and> rb_holds (snd (ring_buf_item_put b ty val data len)) (its @ [(ty, val, data_words)])
        else ring_buf_item_put b ty val data len = (- EMSGSIZE, b\<lparr>rb_dropped := rb_dropped b + 1\<rparr>))"
proof -
  have h: "rb_inv b" "rb_masked b" "list_all item_ok its" "contents b = concat (map item_words its)"
    using assms(1) by (simp_all add: rb_holds_def)
  have i: "unat (rb_head b) < rb_S b" "unat (rb_tail b) < rb_S b" using h(1) by (simp_all add: rb_inv_def)
  have l: "unat len < 256" using unsigned_less [of len] by simp
  show ?thesis
  proof (cases "rb_used b + unat len + 1 < rb_S b")
    case True
    obtain b' where "ring_buf_item_put b ty val data len = (0, b')" "rb_inv b'" "rb_masked b'"
      "contents b' = contents b @ ring_element ty len val # map data [0 ..< unat len]"
      using item_put_contents [OF h(1,2) True] by blast
    moreover have "length (contents b) + unat len + 1 < rb_S b" using True by simp
    ultimately show ?thesis using h(3,4) l
      by (simp add: rb_holds_def item_words_def item_ok_def assms(2) del: contents_len)
  next
    case False
    have "unat (ucast len + 1 :: u32) = unat len + 1"
      using l by (simp add: unat_u32_add unsigned_ucast_eq take_bit_nat_eq_self)
    then have "\<not> ucast len + 1 \<le> ring_buf_space_get b"
      using False space_nat [OF i] rb_used_bound [OF h(1)] by (simp add: word_le_nat_alt ring_buf_space_get_def rb_used_def)
    with False show ?thesis by (simp add: ring_buf_item_put_def)
  qed
qed

lemma item_get_refines:
  assumes "rb_holds b its"
  shows "(case its of [] \<Rightarrow> ring_buf_item_get b lim out = (- EAGAIN, lim, None, out, b)
        | (ty', val', ws) # rest \<Rightarrow>
          (if length ws \<le> unat lim
           then \<exists>b' out'. ring_buf_item_get b lim out = (0, of_nat (length ws), Some (ty', val'), out', b')
             \<and> map out' [0 ..< length ws] = ws \<and> rb_holds b' rest
           else ring_buf_item_get b lim out = (- EMSGSIZE, of_nat (length ws), None, out, b)))"
proof -
  have h: "rb_inv b" "rb_masked b" "list_all item_ok its" "contents b = concat (map item_words its)"
    using assms(1) by (simp_all add: rb_holds_def)
  have i: "unat (rb_head b) < rb_S b" "unat (rb_tail b) < rb_S b" using h(1) by (simp_all add: rb_inv_def)
  show ?thesis
  proof (cases its)
    case Nil
    then have "rb_used b = 0" using h(4) by (metis concat.simps(1) contents_len list.map(1) list.size(3))
    then have "ring_buf_is_empty b" using i by (auto simp: ring_buf_is_empty_def rb_used_def ring_used_def word_unat_eq_iff split: if_splits)
    with Nil show ?thesis by (simp add: ring_buf_item_get_def)
  next
    case (Cons it rest)
    obtain ty' val' ws where it: "it = (ty', val', ws)" by (cases it)
    define n :: u8 where "n = of_nat (length ws)"
    have ws: "length ws < 256" "unat n = length ws"
      using h(3) by (simp_all add: Cons it item_ok_def n_def unat_of_nat take_bit_nat_eq_self)
    have c: "contents b = ring_element ty' n val' # ws @ concat (map item_words rest)"
      using h(4) by (simp add: Cons it item_words_def n_def)
    show ?thesis
    proof (cases "length ws \<le> unat lim")
      case True
      then have "n \<le> lim" using ws by (simp add: word_le_nat_alt)
      then obtain b' out' where "ring_buf_item_get b lim out = (0, n, Some (ty', val'), out', b')" "rb_inv b'"
        "rb_masked b'" "contents b' = concat (map item_words rest)" "map out' [0 ..< unat n] = ws"
        using item_get_contents [OF h(1,2) c ws(2) [symmetric]] by blast
      with True ws(2) h(3) show ?thesis by (simp add: Cons it rb_holds_def n_def)
    next
      case False
      have u: "rb_used b \<noteq> 0" using c by (metis contents_len length_0_conv list.distinct(1))
      then have "contents b ! 0 = rb_buf b (unat (rb_head b))" using i by (simp add: contents_def window_def)
      then have "rb_buf b (unat (rb_head b)) = ring_element ty' n val'" using c by simp
      moreover have "\<not> ring_buf_is_empty b" using u by (auto simp: ring_buf_is_empty_def rb_used_def ring_used_def)
      ultimately show ?thesis using False ws(2)
        by (simp add: Cons it ring_buf_item_get_def ring_element_fields Let_def word_less_nat_alt n_def)
    qed
  qed
qed

text \<open>
  C24. A ring buffer of items is a queue of items. \<^verbatim>\<open>ring_buf_item_put\<close> appends the item's type, value and
  words when they fit below size minus one and otherwise counts a dropped item and returns -EMSGSIZE;
  \<^verbatim>\<open>ring_buf_item_get\<close> takes the oldest item back with the same type, value and words when the caller's array
  is long enough, and otherwise returns -EMSGSIZE with the length needed and removes nothing; on an empty buffer it
  returns -EAGAIN. This holds whether or not the size is a power of two.
\<close>

theorem ring_buf_item_refines:
  assumes "rb_holds b its" and "data_words = map data [0 ..< unat len]"
  shows "(if length (contents b) + unat len + 1 < rb_S b
        then fst (ring_buf_item_put b ty val data len) = 0
          \<and> rb_holds (snd (ring_buf_item_put b ty val data len)) (its @ [(ty, val, data_words)])
        else ring_buf_item_put b ty val data len = (- EMSGSIZE, b\<lparr>rb_dropped := rb_dropped b + 1\<rparr>))
    \<and> (case its of [] \<Rightarrow> ring_buf_item_get b lim out = (- EAGAIN, lim, None, out, b)
        | (ty', val', ws) # rest \<Rightarrow>
          (if length ws \<le> unat lim
           then \<exists>b' out'. ring_buf_item_get b lim out = (0, of_nat (length ws), Some (ty', val'), out', b')
             \<and> map out' [0 ..< length ws] = ws \<and> rb_holds b' rest
           else ring_buf_item_get b lim out = (- EMSGSIZE, of_nat (length ws), None, out, b)))"
  using item_put_refines [OF assms] item_get_refines [OF assms(1)] ..

lemma ring_buf_init_ok:
  assumes "0 < unat sz" and "unat sz \<le> 2147483648"
  shows "rb_inv (ring_buf_init sz f)" "rb_quiet (ring_buf_init sz f)" "contents (ring_buf_init sz f) = []"
    "rb_masked (ring_buf_init sz f)" "rb_size (ring_buf_init sz f) = sz"
  using assms by (simp_all add: ring_buf_init_def rb_inv_def rb_quiet_def rb_masked_def contents_def window_def
      rb_used_def ring_used_def)

lemma ring_buf_init_holds: "0 < unat sz \<Longrightarrow> unat sz \<le> 2147483648 \<Longrightarrow> rb_holds (ring_buf_init sz f) []"
  by (simp add: rb_holds_def ring_buf_init_ok)

theorem ring_buf_refines_witness:
  "rb_inv (ring_buf_init 4 (\<lambda>_. 0 :: u8)) \<and> rb_quiet (ring_buf_init 4 (\<lambda>_. 0 :: u8))
    \<and> fst (ring_buf_put (ring_buf_init 4 (\<lambda>_. 0 :: u8)) of_nat 7) = 3
    \<and> contents (snd (ring_buf_put (ring_buf_init 4 (\<lambda>_. 0 :: u8)) of_nat 7)) = [0, 1, 2]"
  using ring_buf_refines [of "ring_buf_init 4 (\<lambda>_. 0 :: u8)" 7 of_nat]
  by (simp add: ring_buf_init_ok case_prod_beta upt_rec word_unat_eq_iff)

theorem ring_buf_item_refines_witness:
  "rb_holds (ring_buf_init 6 (\<lambda>_. 0)) []
    \<and> rb_holds (snd (ring_buf_item_put (ring_buf_init 6 (\<lambda>_. 0)) 7 9 of_nat 2)) [(7, 9, [0, 1])]
    \<and> fst (ring_buf_item_put (ring_buf_init 6 (\<lambda>_. 0)) 7 9 of_nat 5) = - EMSGSIZE"
  using ring_buf_item_refines [of "ring_buf_init 6 (\<lambda>_. 0)" "[]" "[0, 1]" of_nat 2 7 9]
    ring_buf_item_refines [of "ring_buf_init 6 (\<lambda>_. 0)" "[]" "map of_nat [0 ..< 5]" of_nat 5 7 9]
  by (simp add: ring_buf_init_holds ring_buf_init_ok upt_rec)

end
