(* ===== verification/KCrc.thy ===== *)
theory KCrc
  imports Prelude
begin

text \<open>
  Checksums, \<^verbatim>\<open>lib/os/crc16_sw.c\<close>, \<^verbatim>\<open>crc32_sw.c\<close>, \<^verbatim>\<open>crc8_sw.c\<close> and \<^verbatim>\<open>crc7_sw.c\<close>. A message is the list of its
  bytes. The reference is a shift register that divides by the polynomial one bit at a time, from the low or
  from the high end; its steps are linear over exclusive or, which reduces a whole byte to a table of 256 entries.
\<close>

section \<open>The code\<close>

text \<open>\<^verbatim>\<open>crc16\<close>: the bits of a byte from the high end, then the padding.\<close>

definition crc16_bit :: "u16 \<Rightarrow> u16 \<Rightarrow> bool \<Rightarrow> u16" where
  "crc16_bit polynomial crc b =
     (let divide = crc AND 0x8000;
          crc = push_bit 1 crc OR of_bool b
      in if divide \<noteq> 0 then crc XOR polynomial else crc)"

fun crc16_bits :: "nat \<Rightarrow> nat \<Rightarrow> u8 \<Rightarrow> u16 \<Rightarrow> u16 \<Rightarrow> u16" where
  "crc16_bits 0 b x polynomial crc = crc"
| "crc16_bits (Suc n) b x polynomial crc =
     crc16_bits n (b + 1) x polynomial (crc16_bit polynomial crc (x AND drop_bit b 0x80 \<noteq> 0))"

fun crc16_loop :: "u8 list \<Rightarrow> u16 \<Rightarrow> u16 \<Rightarrow> u16" where
  "crc16_loop [] polynomial crc = crc"
| "crc16_loop (x # xs) polynomial crc = crc16_loop xs polynomial (crc16_bits 8 0 x polynomial crc)"

definition crc16 :: "u8 list \<Rightarrow> u16 \<Rightarrow> u16 \<Rightarrow> bool \<Rightarrow> u16" where
  "crc16 src polynomial initial_value pad =
     crc16_loop (src @ replicate (if pad then 2 else 0) 0) polynomial initial_value"

fun crc16_ccitt :: "u16 \<Rightarrow> u8 list \<Rightarrow> u16" where
  "crc16_ccitt seed [] = seed"
| "crc16_ccitt seed (x # src) =
     (let e = ucast seed XOR x :: u8; f = e XOR push_bit 4 e;
          seed = drop_bit 8 seed XOR push_bit 8 (ucast f) XOR push_bit 3 (ucast f) XOR drop_bit 4 (ucast f)
      in crc16_ccitt seed src)"

fun crc16_itu_t :: "u16 \<Rightarrow> u8 list \<Rightarrow> u16" where
  "crc16_itu_t seed [] = seed"
| "crc16_itu_t seed (x # src) =
     (let seed = drop_bit 8 seed OR push_bit 8 seed;
          seed = seed XOR ucast x;
          seed = seed XOR drop_bit 4 (seed AND 0xff);
          seed = seed XOR push_bit 12 seed;
          seed = seed XOR push_bit 5 (seed AND 0xff)
      in crc16_itu_t seed src)"

definition crc32_step :: "u32 \<Rightarrow> u32" where
  "crc32_step crc = drop_bit 1 crc XOR (0xEDB88320 AND - (crc AND 1))"

fun crc32_loop :: "u32 \<Rightarrow> u8 list \<Rightarrow> u32" where
  "crc32_loop crc [] = crc"
| "crc32_loop crc (x # xs) = crc32_loop ((crc32_step ^^ 8) (crc XOR ucast x)) xs"

definition crc32_ieee_update :: "u32 \<Rightarrow> u8 list \<Rightarrow> u32" where
  "crc32_ieee_update crc data = NOT (crc32_loop (NOT crc) data)"

definition crc32_ieee :: "u8 list \<Rightarrow> u32" where
  "crc32_ieee data = crc32_ieee_update 0 data"

definition crc8_ccitt_small_table :: "u8 list" where
  "crc8_ccitt_small_table = [0x00, 0x07, 0x0e, 0x09, 0x1c, 0x1b, 0x12, 0x15,
     0x38, 0x3f, 0x36, 0x31, 0x24, 0x23, 0x2a, 0x2d]"

definition crc8_nibble :: "u8 \<Rightarrow> u8" where
  "crc8_nibble val = push_bit 4 val XOR crc8_ccitt_small_table ! unat (drop_bit 4 val)"

fun crc8_ccitt :: "u8 \<Rightarrow> u8 list \<Rightarrow> u8" where
  "crc8_ccitt val [] = val"
| "crc8_ccitt val (x # xs) = crc8_ccitt (crc8_nibble (crc8_nibble (val XOR x))) xs"

fun crc7_be :: "u8 \<Rightarrow> u8 list \<Rightarrow> u8" where
  "crc7_be seed [] = seed"
| "crc7_be seed (x # src) =
     (let e = seed XOR x; f = e XOR drop_bit 4 e XOR drop_bit 7 e
      in crc7_be (push_bit 1 f XOR push_bit 4 f) src)"

section \<open>Shift registers\<close>

definition shr_step :: "'a::len word \<Rightarrow> 'a word \<Rightarrow> 'a word" where
  "shr_step P x = drop_bit 1 x XOR (if bit x 0 then P else 0)"

definition shl_step :: "'a::len word \<Rightarrow> 'a word \<Rightarrow> 'a word" where
  "shl_step P x = push_bit 1 x XOR (if bit x (LENGTH('a) - 1) then P else 0)"

text \<open>The checksum by single steps: a byte is added at the end the register shifts out of.\<close>

fun shr_crc :: "'a::len word \<Rightarrow> 'a word \<Rightarrow> u8 list \<Rightarrow> 'a word" where
  "shr_crc P crc [] = crc"
| "shr_crc P crc (x # xs) = shr_crc P ((shr_step P ^^ 8) (crc XOR ucast x)) xs"

fun shl_crc :: "'a::len word \<Rightarrow> 'a word \<Rightarrow> u8 list \<Rightarrow> 'a word" where
  "shl_crc P crc [] = crc"
| "shl_crc P crc (x # xs) = shl_crc P ((shl_step P ^^ 8) (crc XOR push_bit (LENGTH('a) - 8) (ucast x))) xs"

lemma shr_step_xor: "shr_step P (a XOR b) = shr_step P a XOR shr_step P b"
  by (rule bit_word_eqI) (auto simp: shr_step_def bit_simps)

lemma shl_step_xor: "shl_step P (a XOR b) = shl_step P a XOR shl_step P b"
  by (rule bit_word_eqI) (auto simp: shl_step_def bit_simps)

lemma shr_pow_xor: "(shr_step P ^^ n) (a XOR b) = (shr_step P ^^ n) a XOR (shr_step P ^^ n) b"
  by (induction n) (simp_all add: shr_step_xor)

lemma shl_pow_xor: "(shl_step P ^^ n) (a XOR b) = (shl_step P ^^ n) a XOR (shl_step P ^^ n) b"
  by (induction n) (simp_all add: shl_step_xor)

text \<open>While only zeros are shifted out, the register just shifts.\<close>

lemma shr_pow_shift:
  fixes y :: "'a::len word"
  assumes "\<And>i. bit y i \<Longrightarrow> i + n < LENGTH('a)"
  shows "(shr_step P ^^ n) (push_bit n y) = y"
  using assms
proof (induction n)
  case (Suc n)
  have "shr_step P (push_bit (Suc n) y) = push_bit n y"
  proof (rule bit_word_eqI)
    fix i assume "i < LENGTH('a)"
    then show "bit (shr_step P (push_bit (Suc n) y)) i \<longleftrightarrow> bit (push_bit n y) i"
      using Suc.prems [of "i - n"] by (auto simp: shr_step_def bit_simps simp del: push_bit_Suc)
  qed
  moreover have "(shr_step P ^^ n) (push_bit n y) = y" using Suc by (metis add_Suc_right Suc_lessD)
  ultimately show ?case by (simp add: funpow_Suc_right del: funpow.simps push_bit_Suc)
qed simp

lemma shl_pow_shift:
  fixes y :: "'a::len word"
  assumes "\<And>i. bit y i \<Longrightarrow> i + n < LENGTH('a)"
  shows "(shl_step P ^^ n) y = push_bit n y"
  using assms
proof (induction n)
  case (Suc n)
  have "\<not> bit (push_bit n y) (LENGTH('a) - 1)" using Suc.prems by (auto simp: bit_simps dest!: Suc.prems)
  then have "shl_step P (push_bit n y) = push_bit (Suc n) y" by (simp add: shl_step_def del: push_bit_Suc)
  moreover have "(shl_step P ^^ n) y = push_bit n y" using Suc by (metis add_Suc_right Suc_lessD)
  ultimately show ?case by (simp del: push_bit_Suc)
qed simp

text \<open>A byte's worth of steps: the byte that is shifted out selects a word that is added to the rest.\<close>

lemma shr_byte: "(shr_step P ^^ 8) (s :: u16) = drop_bit 8 s XOR (shr_step P ^^ 8) (ucast (ucast s :: u8))"
proof -
  have "s = push_bit 8 (drop_bit 8 s) XOR ucast (ucast s :: u8)" by (rule bit_word_eqI) (auto simp: bit_simps)
  then have "(shr_step P ^^ 8) s = (shr_step P ^^ 8) (push_bit 8 (drop_bit 8 s)) XOR (shr_step P ^^ 8) (ucast (ucast s :: u8))"
    using shr_pow_xor by metis
  moreover have "(shr_step P ^^ 8) (push_bit 8 (drop_bit 8 s)) = drop_bit 8 s"
    by (rule shr_pow_shift) (auto simp: bit_simps dest: bit_imp_le_length)
  ultimately show ?thesis by simp
qed

lemma shl_byte: "(shl_step P ^^ 8) (s :: u16) = push_bit 8 s XOR (shl_step P ^^ 8) (push_bit 8 (ucast (ucast (drop_bit 8 s) :: u8)))"
proof -
  have "s = ucast (ucast s :: u8) XOR push_bit 8 (ucast (ucast (drop_bit 8 s) :: u8))"
    by (rule bit_word_eqI) (auto simp: bit_simps)
  then have "(shl_step P ^^ 8) s = (shl_step P ^^ 8) (ucast (ucast s :: u8)) XOR (shl_step P ^^ 8) (push_bit 8 (ucast (ucast (drop_bit 8 s) :: u8)))"
    using shl_pow_xor by metis
  moreover have "(shl_step P ^^ 8) (ucast (ucast s :: u8) :: u16) = push_bit 8 (ucast (ucast s :: u8))"
    by (rule shl_pow_shift) (auto simp: bit_simps dest: bit_imp_le_length)
  moreover have "push_bit 8 (ucast (ucast s :: u8)) = push_bit 8 s" by (rule bit_word_eqI) (auto simp: bit_simps)
  ultimately show ?thesis by simp
qed

text \<open>Two linear functions are equal when they are equal on the single bits.\<close>

definition linear :: "(u8 \<Rightarrow> 'a::len word) \<Rightarrow> bool" where
  "linear F \<longleftrightarrow> (\<forall>a b. F (a XOR b) = F a XOR F b)"

lemma linear_eqI:
  assumes "linear F" and "linear G" and b: "list_all (\<lambda>n. F (2 ^ n) = G (2 ^ n)) [0 ..< 8]"
  shows "F e = G e"
proof -
  have z: "H 0 = 0" if "linear H" for H :: "u8 \<Rightarrow> 'a word"
    using that unfolding linear_def by (metis bit.xor_self)
  note z0 = z [OF assms(1)] z [OF assms(2)]
  have "F (e AND mask n) = G (e AND mask n)" if "n \<le> 8" for n using that
  proof (induction n)
    case (Suc n)
    have d: "e AND mask (Suc n) = (e AND mask n) XOR (if bit e n then 2 ^ n else 0)"
      by (rule bit_word_eqI) (auto simp: bit_simps less_Suc_eq)
    have "F (2 ^ n) = G (2 ^ n)" using b Suc.prems by (simp add: list_all_iff)
    then show ?case using Suc assms(1,2) z0 unfolding d by (simp add: linear_def)
  qed (simp add: z0)
  moreover have "e AND mask 8 = e" by (rule bit_word_eqI) (auto simp: bit_simps dest: bit_imp_le_length)
  ultimately show ?thesis by (metis order_refl)
qed

lemma linear_xor: "linear F \<Longrightarrow> linear G \<Longrightarrow> linear (\<lambda>e. F e XOR G e)"
  by (simp add: linear_def xor.assoc xor.left_commute)

lemma linear_push: "linear F \<Longrightarrow> linear (\<lambda>e. push_bit n (F e))"
  by (simp add: linear_def push_bit_xor)

lemma linear_drop: "linear F \<Longrightarrow> linear (\<lambda>e. drop_bit n (F e))"
  by (simp add: linear_def drop_bit_xor)

lemma linear_ucast: "linear F \<Longrightarrow> linear (\<lambda>e. ucast (F e))"
  by (simp add: linear_def unsigned_xor_eq)

lemma linear_shr: "linear F \<Longrightarrow> linear (\<lambda>e. (shr_step P ^^ n) (F e))"
  by (simp add: linear_def shr_pow_xor)

lemma linear_shl: "linear F \<Longrightarrow> linear (\<lambda>e. (shl_step P ^^ n) (F e))"
  by (simp add: linear_def shl_pow_xor)

lemma linear_id: "linear (\<lambda>e. e)"
  by (simp add: linear_def)

lemmas linear_intros = linear_xor linear_push linear_drop linear_ucast linear_shr linear_shl linear_id

definition ccitt_word :: "u8 \<Rightarrow> u16" where
  "ccitt_word e = push_bit 8 (ucast (e XOR push_bit 4 e)) XOR push_bit 3 (ucast (e XOR push_bit 4 e))
     XOR drop_bit 4 (ucast (e XOR push_bit 4 e))"

definition itu_word :: "u8 \<Rightarrow> u16" where
  "itu_word e = ucast (e XOR drop_bit 4 e) XOR push_bit 12 (ucast (e XOR drop_bit 4 e))
     XOR push_bit 5 (ucast (e XOR drop_bit 4 e))"

lemma ccitt_table: "(shr_step 0x8408 ^^ 8) (ucast (e :: u8)) = ccitt_word e"
proof (rule linear_eqI)
  show "linear ccitt_word" unfolding ccitt_word_def by (intro linear_intros)
qed (intro linear_intros, code_simp)

lemma itu_table: "(shl_step 0x1021 ^^ 8) (push_bit 8 (ucast (e :: u8))) = itu_word e"
proof (rule linear_eqI)
  show "linear itu_word" unfolding itu_word_def by (intro linear_intros)
qed (intro linear_intros, code_simp)

definition crc7_word :: "u8 \<Rightarrow> u8" where
  "crc7_word e = push_bit 1 (e XOR drop_bit 4 e XOR drop_bit 7 e) XOR push_bit 4 (e XOR drop_bit 4 e XOR drop_bit 7 e)"

lemma crc7_table: "(shl_step 0x12 ^^ 8) e = crc7_word e"
proof (rule linear_eqI [of "\<lambda>e. (shl_step 0x12 ^^ 8) e" crc7_word e])
  show "linear crc7_word" unfolding crc7_word_def by (intro linear_intros)
qed (intro linear_intros, code_simp)

lemma crc8_nibble_steps: "crc8_nibble v = (shl_step 0x07 ^^ 4) v"
proof -
  have "v = (v AND mask 4) XOR push_bit 4 (drop_bit 4 v)" by (rule bit_word_eqI) (auto simp: bit_simps)
  then have "(shl_step 7 ^^ 4) v = (shl_step 7 ^^ 4) (v AND mask 4) XOR (shl_step 7 ^^ 4) (push_bit 4 (drop_bit 4 v))"
    using shl_pow_xor by metis
  moreover have "(shl_step 7 ^^ 4) (v AND mask 4) = push_bit 4 (v AND mask 4)"
    by (rule shl_pow_shift) (auto simp: bit_simps)
  moreover have "push_bit 4 (v AND mask 4) = push_bit 4 v"
    by (rule bit_word_eqI) (auto simp: bit_simps dest: bit_imp_le_length)
  moreover have "list_all (\<lambda>n. crc8_ccitt_small_table ! n = (shl_step 7 ^^ 4) (push_bit 4 (of_nat n))) [0 ..< 16]" by code_simp
  moreover have "unat v < 256" using unsigned_less [of v] by simp
  then have "unat (drop_bit 4 v) < 16" by (simp add: unat_shift_right)
  ultimately show ?thesis by (simp add: crc8_nibble_def list_all_iff)
qed

lemma crc8_table: "(shl_step 0x07 ^^ 8) e = crc8_nibble (crc8_nibble e)"
  using funpow_add [of 4 4 "shl_step (7 :: u8)"] by (simp add: crc8_nibble_steps)

section \<open>The routines compute the checksums\<close>

lemma crc16_ccitt_eq: "crc16_ccitt seed src = shr_crc 0x8408 seed src"
proof (induction seed src rule: crc16_ccitt.induct)
  case (2 seed x src)
  have "drop_bit 8 (seed XOR ucast x) = drop_bit 8 seed"
    by (rule bit_word_eqI) (auto simp: bit_simps dest: bit_imp_le_length)
  moreover have "ucast (seed XOR ucast x) = (ucast seed XOR x)" by (rule bit_word_eqI) (auto simp: bit_simps)
  ultimately have "(shr_step 0x8408 ^^ 8) (seed XOR ucast x) = drop_bit 8 seed XOR ccitt_word (ucast seed XOR x)"
    by (subst shr_byte) (simp add: ccitt_table)
  then show ?case using 2 by (simp add: Let_def ccitt_word_def xor.assoc)
qed simp

lemma itu_byte:
  "(let s = drop_bit 8 seed OR push_bit 8 seed; s = s XOR ucast (x :: u8); s = s XOR drop_bit 4 (s AND 0xff);
        s = s XOR push_bit 12 s in s XOR push_bit 5 (s AND 0xff))
    = push_bit 8 seed XOR itu_word (ucast (drop_bit 8 (seed :: u16)) XOR x)"
proof -
  have m: "(0xff :: u16) = mask 8" by code_simp
  define t where "t = (ucast (drop_bit 8 seed) XOR x :: u8)"
  define f :: u16 where "f = ucast (t XOR drop_bit 4 t)"
  have a: "(drop_bit 8 seed OR push_bit 8 seed) XOR ucast x = push_bit 8 seed XOR ucast t"
    by (rule bit_word_eqI) (auto simp: t_def bit_simps dest: bit_imp_le_length)
  have b: "drop_bit 4 ((push_bit 8 seed XOR ucast t) AND mask 8) = ucast (drop_bit 4 t)"
    by (rule bit_word_eqI) (auto simp: bit_simps dest: bit_imp_le_length)
  have c: "(push_bit 8 seed XOR ucast t) XOR ucast (drop_bit 4 t) = push_bit 8 seed XOR f"
    by (simp add: f_def unsigned_xor_eq xor.assoc)
  have d: "push_bit 12 (push_bit 8 seed XOR f) = push_bit 12 f"
    by (rule bit_word_eqI) (auto simp: bit_simps)
  have e: "((push_bit 8 seed XOR f) XOR push_bit 12 f) AND mask 8 = f"
    by (rule bit_word_eqI) (auto simp: f_def bit_simps dest: bit_imp_le_length)
  show ?thesis unfolding Let_def m a b c d e by (simp add: itu_word_def f_def t_def xor.assoc)
qed

lemma crc16_itu_t_eq: "crc16_itu_t seed src = shl_crc 0x1021 seed src"
proof (induction seed src rule: crc16_itu_t.induct)
  case (2 seed x src)
  have "push_bit 8 (seed XOR push_bit 8 (ucast x)) = push_bit 8 seed"
    by (rule bit_word_eqI) (auto simp: bit_simps)
  moreover have "ucast (drop_bit 8 (seed XOR push_bit 8 (ucast x))) = (ucast (drop_bit 8 seed) XOR x)"
    by (rule bit_word_eqI) (auto simp: bit_simps dest: bit_imp_le_length)
  ultimately have "(shl_step 0x1021 ^^ 8) (seed XOR push_bit 8 (ucast x)) = push_bit 8 seed XOR itu_word (ucast (drop_bit 8 seed) XOR x)"
    by (subst shl_byte) (simp add: itu_table)
  then show ?case using 2 itu_byte [of seed x] by (simp add: Let_def)
qed simp

lemma crc8_ccitt_eq: "crc8_ccitt val xs = shl_crc 0x07 val xs"
  by (induction val xs rule: crc8_ccitt.induct) (simp_all add: crc8_table)

lemma crc7_be_eq: "crc7_be seed src = shl_crc 0x12 seed src"
proof (induction seed src rule: crc7_be.induct)
  case (2 seed x src)
  have "seed XOR push_bit (LENGTH(8) - 8) (ucast x) = seed XOR x" by simp
  then show ?case unfolding crc7_be.simps shl_crc.simps Let_def
    using 2 [OF refl refl] by (simp only: crc7_table crc7_word_def)
qed simp

lemma crc32_step_eq: "crc32_step x = shr_step 0xEDB88320 x"
proof (cases "bit x 0")
  case True
  then have "x AND 1 = 1" by (simp add: and_one_eq odd_iff_mod_2_eq_one bit_0)
  with True show ?thesis by (simp add: crc32_step_def shr_step_def)
next
  case False
  then have "x AND 1 = 0" by (simp add: and_one_eq even_iff_mod_2_eq_zero bit_0)
  with False show ?thesis by (simp add: crc32_step_def shr_step_def)
qed

lemma crc32_loop_eq: "crc32_loop crc xs = shr_crc 0xEDB88320 crc xs"
proof -
  have "crc32_step = shr_step 0xEDB88320" by (rule ext) (rule crc32_step_eq)
  then show ?thesis by (induction crc xs rule: crc32_loop.induct) simp_all
qed

text \<open>
  C33. The checksum routines, which work on whole bytes with shifts or a table, divide by their polynomial bit by bit:
  0x8408 (reflected 0x1021), 0x1021, 0x07, 0x12 (0x09 in the upper seven bits) and 0xEDB88320 for the CRC-32.
\<close>

theorem crc_bitwise:
  "crc16_ccitt seed src = shr_crc 0x8408 seed src \<and> crc16_itu_t seed src = shl_crc 0x1021 seed src
    \<and> crc8_ccitt val src = shl_crc 0x07 val src \<and> crc7_be val src = shl_crc 0x12 val src
    \<and> crc32_ieee_update crc src = NOT (shr_crc 0xEDB88320 (NOT crc) src)"
  by (simp add: crc16_ccitt_eq crc16_itu_t_eq crc8_ccitt_eq crc7_be_eq crc32_ieee_update_def crc32_loop_eq)

subsection \<open>Feeding bits at the low end\<close>

lemma crc16_bit_eq: "crc16_bit P crc b = shl_step P crc XOR of_bool b"
proof -
  have "crc AND 0x8000 \<noteq> 0 \<longleftrightarrow> bit crc 15" using and_exp_eq_0_iff_not_bit [of crc 15] by simp
  moreover have "push_bit 1 crc OR of_bool b = push_bit 1 crc XOR of_bool b"
    by (rule bit_word_eqI) (cases b; auto simp: bit_simps bit_1_iff bit_0 intro!: Nat.gr0I)
  moreover have "shl_step P crc = push_bit 1 crc XOR (if bit crc 15 then P else 0)"
    by (simp add: shl_step_def numeral_eq_Suc)
  ultimately show ?thesis by (auto simp: crc16_bit_def Let_def xor.commute xor.left_commute)
qed

text \<open>The step with a bit at the high end.\<close>

definition top_bit :: "u16 \<Rightarrow> u16 \<Rightarrow> bool \<Rightarrow> u16" where
  "top_bit P crc b = shl_step P (crc XOR push_bit 15 (of_bool b))"

lemma low_to_top: "(shl_step P ^^ 16) (crc16_bit P crc b) = top_bit P ((shl_step P ^^ 16) crc) b"
proof -
  have "(shl_step P ^^ 15) (of_bool b) = push_bit 15 (of_bool b)"
    by (rule shl_pow_shift) (cases b; auto simp: bit_1_iff)
  then have o: "(shl_step P ^^ 16) (of_bool b) = shl_step P (push_bit 15 (of_bool b))"
    by (simp add: numeral_eq_Suc)
  have "(shl_step P ^^ 16) (shl_step P crc) = shl_step P ((shl_step P ^^ 16) crc)" by (simp add: funpow_swap1)
  then show ?thesis using o by (simp add: crc16_bit_eq top_bit_def shl_pow_xor shl_step_xor)
qed

fun top_bits :: "nat \<Rightarrow> nat \<Rightarrow> u8 \<Rightarrow> u16 \<Rightarrow> u16 \<Rightarrow> u16" where
  "top_bits 0 b x P crc = crc"
| "top_bits (Suc n) b x P crc = top_bits n (b + 1) x P (top_bit P crc (x AND drop_bit b 0x80 \<noteq> 0))"

lemma bits_to_top: "(shl_step P ^^ 16) (crc16_bits n b x P crc) = top_bits n b x P ((shl_step P ^^ 16) crc)"
  by (induction n arbitrary: b crc) (simp_all add: low_to_top)

lemma top_bits_step:
  assumes "n \<le> 8"
  shows "top_bits n (8 - n) x P crc = (shl_step P ^^ n) (crc XOR push_bit (16 - n) (ucast (x AND mask n)))"
  using assms
proof (induction n arbitrary: crc)
  case (Suc n)
  let ?b = "x AND drop_bit (8 - Suc n) 0x80 \<noteq> 0"
  let ?l = "ucast (x AND mask n) :: u16"
  have "drop_bit (8 - Suc n) (0x80 :: u8) = 2 ^ n"
  proof -
    have "n = 0 \<or> n = 1 \<or> n = 2 \<or> n = 3 \<or> n = 4 \<or> n = 5 \<or> n = 6 \<or> n = 7" using Suc.prems by linarith
    then show ?thesis by (elim disjE) (simp_all add: drop_bit_eq_div)
  qed
  then have b: "?b \<longleftrightarrow> bit x n" using and_exp_eq_0_iff_not_bit [of x n] by simp
  have s: "push_bit (16 - n) ?l = shl_step P (push_bit (16 - Suc n) ?l)"
  proof -
    have "\<not> bit (push_bit (16 - Suc n) ?l) 15" using Suc.prems by (auto simp: bit_simps)
    moreover have "16 - n = Suc (16 - Suc n)" using Suc.prems by simp
    ultimately show ?thesis by (simp add: shl_step_def del: push_bit_Suc)
  qed
  have u: "push_bit 15 (of_bool (bit x n)) XOR push_bit (16 - Suc n) ?l = push_bit (16 - Suc n) (ucast (x AND mask (Suc n)))"
  proof (rule bit_word_eqI)
    fix i assume "i < LENGTH(16)"
    then have "i = 15 \<or> i < 15" by auto
    then show "bit (push_bit 15 (of_bool (bit x n)) XOR push_bit (16 - Suc n) ?l) i
        \<longleftrightarrow> bit (push_bit (16 - Suc n) (ucast (x AND mask (Suc n))) :: u16) i"
      using Suc.prems by (elim disjE) (auto simp: bit_simps bit_1_iff less_Suc_eq)
  qed
  have "top_bits (Suc n) (8 - Suc n) x P crc = top_bits n (8 - n) x P (top_bit P crc (bit x n))"
  proof -
    have "8 - Suc n + 1 = 8 - n" using Suc.prems by simp
    then show ?thesis unfolding top_bits.simps b by simp
  qed
  also have "\<dots> = (shl_step P ^^ n) (shl_step P (crc XOR push_bit 15 (of_bool (bit x n))) XOR shl_step P (push_bit (16 - Suc n) ?l))"
    using Suc s by (simp add: top_bit_def)
  also have "\<dots> = (shl_step P ^^ Suc n) (crc XOR push_bit (16 - Suc n) (ucast (x AND mask (Suc n))))"
    unfolding u [symmetric] by (simp add: funpow_Suc_right xor.assoc flip: shl_step_xor del: funpow.simps)
  finally show ?case .
qed simp

lemma crc16_byte_top:
  "(shl_step P ^^ 16) (crc16_bits 8 0 x P crc) = (shl_step P ^^ 8) ((shl_step P ^^ 16) crc XOR push_bit 8 (ucast x))"
proof -
  have "x AND mask 8 = x" by (rule bit_word_eqI) (auto simp: bit_simps dest: bit_imp_le_length)
  then show ?thesis using top_bits_step [of 8 x P "(shl_step P ^^ 16) crc"] by (simp add: bits_to_top)
qed

lemma crc16_loop_top: "(shl_step P ^^ 16) (crc16_loop xs P crc) = shl_crc P ((shl_step P ^^ 16) crc) xs"
  by (induction xs arbitrary: crc) (simp_all add: crc16_byte_top)

lemma crc16_zero_byte: "crc16_bits n b 0 P crc = (shl_step P ^^ n) crc"
  by (induction n arbitrary: b crc) (simp_all add: crc16_bit_eq funpow_swap1)

lemma crc16_loop_append: "crc16_loop (xs @ ys) P crc = crc16_loop ys P (crc16_loop xs P crc)"
  by (induction xs arbitrary: crc) simp_all

lemma crc16_pad_eq: "crc16 src P init True = shl_crc P ((shl_step P ^^ 16) init) src"
proof -
  have "replicate 2 (0 :: u8) = [0, 0]" by (simp add: numeral_2_eq_2)
  then have "crc16 src P init True = (shl_step P ^^ 8) ((shl_step P ^^ 8) (crc16_loop src P init))"
    by (simp add: crc16_def crc16_loop_append crc16_zero_byte)
  also have "\<dots> = (shl_step P ^^ 16) (crc16_loop src P init)"
    using funpow_add [of 8 8 "shl_step P"] by simp
  finally show ?thesis by (simp add: crc16_loop_top)
qed

text \<open>
  \<^verbatim>\<open>crc16\<close> feeds the message and, with padding, two zero bytes at the low end of the register. For every
  polynomial this is the checksum that adds the bytes at the high end, started from the initial value after 16
  steps; with polynomial 0x1021 and initial value 0 it agrees with \<^verbatim>\<open>crc16_itu_t\<close>.
\<close>

theorem crc16_padded:
  "crc16 src P init True = shl_crc P ((shl_step P ^^ 16) init) src \<and> crc16 src 0x1021 0 True = crc16_itu_t 0 src"
proof -
  have "(shl_step P ^^ n) 0 = 0" for P :: u16 and n by (induction n) (simp_all add: shl_step_def)
  then show ?thesis by (simp add: crc16_pad_eq crc16_itu_t_eq)
qed

section \<open>Error detection\<close>

lemma shr_step_zero:
  fixes P :: u32
  assumes "bit P 31" and "shr_step P z = 0"
  shows "z = 0"
proof -
  have "bit (shr_step P z) 31 \<longleftrightarrow> bit z 32 \<noteq> bit z 0" using assms(1) by (simp add: shr_step_def bit_simps)
  moreover have "\<not> bit z 32" by (auto dest: bit_imp_le_length)
  ultimately have z0: "\<not> bit z 0" using assms(2) by simp
  then have "bit z (Suc i) \<longleftrightarrow> bit (shr_step P z) i" for i by (simp add: shr_step_def bit_simps)
  with z0 assms(2) have "\<not> bit z i" for i by (cases i) simp_all
  then show ?thesis by (intro bit_word_eqI) simp
qed

lemma shr_step_inj:
  fixes P :: u32
  assumes "bit P 31" and "shr_step P x = shr_step P y"
  shows "x = y"
proof -
  have "shr_step P (x XOR y) = 0" using assms(2) by (simp add: shr_step_xor)
  then have "x XOR y = 0" by (rule shr_step_zero [OF assms(1)])
  then have "x XOR (x XOR y) = x" by simp
  then show ?thesis by (simp flip: xor.assoc)
qed

lemma shr_pow_inj: "bit (P :: u32) 31 \<Longrightarrow> (shr_step P ^^ n) x = (shr_step P ^^ n) y \<Longrightarrow> x = y"
  by (induction n) (auto dest: shr_step_inj)

lemma shr_crc_inj: "bit (P :: u32) 31 \<Longrightarrow> shr_crc P c xs = shr_crc P d xs \<Longrightarrow> c = d"
proof (induction xs arbitrary: c d)
  case (Cons x xs)
  then have "(shr_step P ^^ 8) (c XOR ucast x) = (shr_step P ^^ 8) (d XOR ucast x)" by simp
  then have "c XOR ucast x = d XOR ucast x" by (rule shr_pow_inj [OF Cons.prems(1)])
  then have "(c XOR ucast x) XOR ucast x = (d XOR ucast x) XOR ucast x" by simp
  then show ?case by (simp add: xor.assoc)
qed simp

lemma shr_crc_append: "shr_crc P c (xs @ ys) = shr_crc P (shr_crc P c xs) ys"
  by (induction xs arbitrary: c) simp_all

fun le_word :: "u8 list \<Rightarrow> u32" where
  "le_word [] = 0"
| "le_word (x # xs) = ucast x XOR push_bit 8 (le_word xs)"

lemma le_word_bits: "bit (le_word xs) i \<Longrightarrow> i < 8 * length xs"
  by (induction xs arbitrary: i) (fastforce simp: bit_simps dest: bit_imp_le_length)+

lemma shr_crc_word:
  assumes "length xs \<le> 4"
  shows "shr_crc P c xs = (shr_step P ^^ (8 * length xs)) (c XOR le_word xs)"
  using assms
proof (induction xs arbitrary: c)
  case (Cons x xs)
  have "(shr_step P ^^ 8) (push_bit 8 (le_word xs)) = le_word xs"
    using Cons.prems by (intro shr_pow_shift) (auto dest!: le_word_bits)
  moreover have "(shr_step P ^^ 8) (c XOR le_word (x # xs))
      = (shr_step P ^^ 8) (c XOR ucast x) XOR (shr_step P ^^ 8) (push_bit 8 (le_word xs))"
    unfolding le_word.simps xor.assoc [symmetric] by (rule shr_pow_xor)
  ultimately have "(shr_step P ^^ 8) (c XOR ucast x) XOR le_word xs = (shr_step P ^^ 8) (c XOR le_word (x # xs))"
    by simp
  moreover have "(shr_step P ^^ (8 * length xs)) ((shr_step P ^^ 8) z) = (shr_step P ^^ (8 * length (x # xs))) z" for z
    using funpow_add [of "8 * length xs" 8 "shr_step P"] by (simp add: add.commute)
  ultimately show ?case using Cons by simp
qed simp

lemma le_word_inj: "length xs = length ys \<Longrightarrow> length xs \<le> 4 \<Longrightarrow> le_word xs = le_word ys \<Longrightarrow> xs = ys"
proof (induction xs ys rule: list_induct2)
  case (Cons x xs y ys)
  have l: "ucast (le_word (z # zs)) = z" for z zs by (rule bit_word_eqI) (auto simp: bit_simps)
  have h: "drop_bit 8 (le_word (z # zs)) = le_word zs" if "length zs < 4" for z zs
    using that by (intro bit_word_eqI) (auto simp: bit_simps dest: le_word_bits bit_imp_le_length)
  have "x = y" using l [of x xs] l [of y ys] Cons.prems by simp
  moreover have "length xs < 4" "length ys < 4" using Cons by simp_all
  then have "le_word xs = le_word ys" using h [of xs x] h [of ys y] Cons.prems(2) by metis
  ultimately show ?case using Cons by simp
qed simp

text \<open>
  The CRC-32 can be computed piecewise, and it detects every error burst of up to 32 bits: two messages of the same
  length that differ only within four consecutive bytes have different checksums.
\<close>

theorem crc32_detects_bursts:
  assumes "length as = length bs" and "length as \<le> 4" and "as \<noteq> bs"
  shows "crc32_ieee_update crc (xs @ ys) = crc32_ieee_update (crc32_ieee_update crc xs) ys
    \<and> crc32_ieee_update crc (xs @ as @ ys) \<noteq> crc32_ieee_update crc (xs @ bs @ ys)"
proof -
  have P: "bit (0xEDB88320 :: u32) 31" by code_simp
  have "shr_crc 0xEDB88320 c as \<noteq> shr_crc 0xEDB88320 c bs" for c :: u32
  proof
    assume "shr_crc 0xEDB88320 c as = shr_crc 0xEDB88320 c bs"
    then have "(shr_step 0xEDB88320 ^^ (8 * length as)) (c XOR le_word as) = (shr_step 0xEDB88320 ^^ (8 * length as)) (c XOR le_word bs)"
      using shr_crc_word [of as] shr_crc_word [of bs] assms(1,2) by simp
    then have "c XOR le_word as = c XOR le_word bs" by (rule shr_pow_inj [OF P])
    then have "c XOR (c XOR le_word as) = c XOR (c XOR le_word bs)" by simp
    then have "le_word as = le_word bs" by (simp flip: xor.assoc)
    then show False using le_word_inj assms by blast
  qed
  then have "shr_crc 0xEDB88320 c (xs @ as @ ys) \<noteq> shr_crc 0xEDB88320 c (xs @ bs @ ys)" for c :: u32
    unfolding shr_crc_append using shr_crc_inj [OF P] by blast
  then show ?thesis by (simp add: crc32_ieee_update_def crc32_loop_eq shr_crc_append)
qed

theorem crc32_detects_bursts_witness:
  "crc32_ieee_update 0 ([1, 2] @ [3, 4] @ [5]) \<noteq> crc32_ieee_update 0 ([1, 2] @ [4, 3] @ [5])"
  using crc32_detects_bursts [of "[3, 4]" "[4, 3]" 0 "[1, 2]" "[5]"] by simp

end
