(* ===== verification/KSystem.thy ===== *)
theory KSystem
  imports KThread KMutex KClock
begin

text \<open>
  The kernel as a system: every sequence of kernel calls, made by the running thread or by an interrupt
  handler. A step is one call of an operation of \<open>KSched\<close>, \<open>KThread\<close>, \<open>KSem\<close> or \<open>KClock\<close>, under the
  conditions the code asserts or documents for the call. Interrupts do not nest on this core; entry and
  exit of an interrupt are those of \<^verbatim>\<open>arch/riscv32/core/isr.S\<close>.
\<close>

section \<open>Interrupts\<close>

definition irq_enter :: "'a kernel_scheme \<Rightarrow> 'a kernel_scheme" where
  "irq_enter k = k\<lparr>nested := nested k + 1\<rparr>"

definition irq_exit :: "'a kernel_scheme \<Rightarrow> 'a kernel_scheme" where
  "irq_exit k =
     (let k = k\<lparr>nested := nested k - 1\<rparr>
      in if ready_cache k = current k then k else z_swap k)"

section \<open>The scheduler's invariant\<close>

text \<open>
  \<open>cache_ok\<close>: the cached choice of the next thread is the best queued thread or, when the running thread must not be
  preempted, the running thread.
  \<open>base_inv X\<close>: the queues are in order; the threads of \<open>X\<close> are queued when they are ready and wait on a
  queue when they are pending; the idle thread can always run and can be preempted; only threads have timeouts.
  \<open>sched_inv X\<close>: moreover the running thread is such a thread, with no timeout and not pending.
\<close>

definition cache_ok :: "'a kernel_scheme \<Rightarrow> bool" where
  "cache_ok k \<longleftrightarrow> ready_cache k = next_up k \<or> ready_cache k = current k \<and> \<not> should_preempt k (next_up k) False"

definition base_inv :: "tid set \<Rightarrow> 'a kernel_scheme \<Rightarrow> bool" where
  "base_inv X k \<longleftrightarrow> queues_ok k \<and> distinct (timeout_list k) \<and> (\<forall>t\<in>X. t \<noteq> idle_thread k \<longrightarrow> in_use k t)
     \<and> \<not> z_is_thread_prevented_from_running k (idle_thread k) \<and> is_preempt k (idle_thread k)
     \<and> Thr (idle_thread k) \<notin> set (timeout_list k) \<and> (\<forall>to\<in>set (timeout_list k). \<exists>t. to = Thr t)"

definition sched_inv :: "tid set \<Rightarrow> 'a kernel_scheme \<Rightarrow> bool" where
  "sched_inv X k \<longleftrightarrow> base_inv (insert (current k) X) k
     \<and> Thr (current k) \<notin> set (timeout_list k) \<and> F_PENDING \<notin> tstate k (current k)"

definition kernel_ok :: "tid set \<Rightarrow> 'a kernel_scheme \<Rightarrow> bool" where
  "kernel_ok X k \<longleftrightarrow> sched_inv X k \<and> cache_ok k
     \<and> (nested k = 0 \<longrightarrow> current k = ready_cache k \<or> \<not> should_preempt k (next_up k) False)"

lemma base_invD:
  assumes "base_inv X k"
  shows "queues_ok k" and "distinct (timeout_list k)" and "t \<in> X \<Longrightarrow> t \<noteq> idle_thread k \<Longrightarrow> in_use k t"
    and "\<not> z_is_thread_prevented_from_running k (idle_thread k)" and "is_preempt k (idle_thread k)"
    and "Thr (idle_thread k) \<notin> set (timeout_list k)" and "to \<in> set (timeout_list k) \<Longrightarrow> \<exists>t. to = Thr t"
  using assms unfolding base_inv_def by blast+

lemma sched_invD:
  assumes "sched_inv X k"
  shows "base_inv (insert (current k) X) k" and "queues_ok k" and "distinct (timeout_list k)"
    and "t \<in> X \<Longrightarrow> t \<noteq> idle_thread k \<Longrightarrow> in_use k t" and "current k \<noteq> idle_thread k \<Longrightarrow> in_use k (current k)"
    and "Thr (current k) \<notin> set (timeout_list k)" and "F_PENDING \<notin> tstate k (current k)"
  using assms unfolding sched_inv_def base_inv_def by blast+

lemma kernel_okD:
  assumes "kernel_ok X k"
  shows "sched_inv X k" and "cache_ok k"
    and "nested k = 0 \<Longrightarrow> current k = ready_cache k \<or> \<not> should_preempt k (next_up k) False"
  using assms unfolding kernel_ok_def by blast+

text \<open>Whether a thread is settled depends on its own fields and its timeout only.\<close>

lemma in_use_iff:
  assumes "queues_ok k"
  shows "in_use k t \<longleftrightarrow> (z_is_thread_ready k t \<longrightarrow> F_QUEUED \<in> tstate k t)
    \<and> (F_PENDING \<in> tstate k t \<longrightarrow> pended_on (threads k t) \<noteq> None) \<and> t \<noteq> idle_thread k"
  using queues_okD(2) [OF assms] by (simp add: in_use_def)

text \<open>\<open>touched t k k'\<close>: only thread \<open>t\<close> and its timeout may differ.\<close>

definition touched :: "tid \<Rightarrow> 'a kernel_scheme \<Rightarrow> 'a kernel_scheme \<Rightarrow> bool" where
  "touched t k k' \<longleftrightarrow> (\<forall>x. x \<noteq> t \<longrightarrow> threads k' x = threads k x \<and> (Thr x \<in> set (timeout_list k') \<longleftrightarrow> Thr x \<in> set (timeout_list k)))
     \<and> distinct (timeout_list k') \<and> set (timeout_list k') \<subseteq> insert (Thr t) (set (timeout_list k))
     \<and> idle_thread k' = idle_thread k \<and> current k' = current k \<and> nested k' = nested k"

lemma touchedD:
  assumes "touched t k k'"
  shows "x \<noteq> t \<Longrightarrow> threads k' x = threads k x"
    and "x \<noteq> t \<Longrightarrow> Thr x \<in> set (timeout_list k') \<longleftrightarrow> Thr x \<in> set (timeout_list k)"
    and "distinct (timeout_list k')" and "set (timeout_list k') \<subseteq> insert (Thr t) (set (timeout_list k))"
    and "idle_thread k' = idle_thread k" and "current k' = current k" and "nested k' = nested k"
  using assms unfolding touched_def by blast+

lemma base_inv_touched:
  assumes inv: "base_inv X k" and q: "queues_ok k'" and to: "touched t k k'" and t: "t \<noteq> idle_thread k"
    and Y: "Y \<subseteq> insert t X" and u: "t \<in> Y \<Longrightarrow> in_use k' t"
  shows "base_inv Y k'"
proof -
  note D = base_invD [OF inv] and T = touchedD [OF to]
  have "in_use k' x" if "x \<in> Y" "x \<noteq> idle_thread k" for x
  proof (cases "x = t")
    case False
    have "in_use k x" using that D(3) Y False by blast
    then show ?thesis using T(1) [OF False] T(2) [OF False] T(5)
      by (simp add: in_use_iff [OF q] in_use_iff [OF D(1)] ready_def2)
  qed (use u that in simp)
  moreover have "\<not> z_is_thread_prevented_from_running k' (idle_thread k)" "is_preempt k' (idle_thread k)"
    "Thr (idle_thread k) \<notin> set (timeout_list k')"
    using D(4,5,6) t T(1) [of "idle_thread k"] T(2) [of "idle_thread k"]
    by (simp_all add: z_is_thread_prevented_from_running_def is_preempt_def)
  moreover have "\<exists>x. to = Thr x" if "to \<in> set (timeout_list k')" for to
    using that T(4) D(7) by (metis insert_iff subsetD)
  ultimately show ?thesis using q T(3,5) unfolding base_inv_def by simp
qed

lemma sched_inv_touched:
  assumes inv: "sched_inv X k" and q: "queues_ok k'" and to: "touched t k k'" and t: "t \<noteq> idle_thread k"
    and Y: "Y \<subseteq> insert t X" and u: "t \<in> insert (current k) Y \<Longrightarrow> in_use k' t"
    and cu: "t = current k \<Longrightarrow> Thr t \<notin> set (timeout_list k') \<and> F_PENDING \<notin> tstate k' t"
  shows "sched_inv Y k'"
proof -
  note D = sched_invD [OF inv] and T = touchedD [OF to]
  have "base_inv (insert (current k) Y) k'" using Y u by (intro base_inv_touched [OF D(1) q to t]) auto
  moreover have "Thr (current k) \<notin> set (timeout_list k')" "F_PENDING \<notin> tstate k' (current k)"
    using D(6,7) cu T(1) [of "current k"] T(2) [of "current k"] by (cases "t = current k"; simp)+
  ultimately show ?thesis unfolding sched_inv_def T(6) by blast
qed

lemma sched_inv_same:
  assumes "sched_inv X k" and "qlists k' = qlists k" and "timeout_list k' = timeout_list k"
    and "idle_thread k' = idle_thread k" and "current k' = current k"
    and "\<And>t. tstate k' t = tstate k t \<and> pended_on (threads k' t) = pended_on (threads k t) \<and> tprio k' t = tprio k t"
    and "sched_locked (threads k' (idle_thread k)) = sched_locked (threads k (idle_thread k))"
  shows "sched_inv X k'"
proof -
  have "queues_ok k'" using sched_invD(2) [OF assms(1)] assms(2-6) by (intro queues_ok_same [of k k']) simp_all
  then show ?thesis using assms
    by (simp add: sched_inv_def base_inv_def in_use_def ready_def2 z_is_thread_prevented_from_running_def is_preempt_def preempt_def)
qed

lemma should_preempt_cong:
  assumes "current k' = current k" and "tstate k' (current k) \<inter> {F_PENDING, F_PRESTART, F_DEAD, F_DUMMY, F_SUSPENDED} = {}
      \<longleftrightarrow> tstate k (current k) \<inter> {F_PENDING, F_PRESTART, F_DEAD, F_DUMMY, F_SUSPENDED} = {}"
    and "preempt (threads k' (current k)) = preempt (threads k (current k))"
  shows "should_preempt k' x b = should_preempt k y b"
  using assms by (simp add: should_preempt_def z_is_thread_prevented_from_running_def is_preempt_def)

lemma next_up_cong: "runq k' = runq k \<Longrightarrow> idle_thread k' = idle_thread k \<Longrightarrow> next_up k' = next_up k"
  by (simp add: next_up_def z_priq_dumb_best_def split: list.split)

lemma cache_ok_cong:
  assumes "cache_ok k" and "current k' = current k" and "runq k' = runq k" and "idle_thread k' = idle_thread k"
    and "ready_cache k' = ready_cache k"
    and "tstate k' (current k) \<inter> {F_PENDING, F_PRESTART, F_DEAD, F_DUMMY, F_SUSPENDED} = {}
      \<longleftrightarrow> tstate k (current k) \<inter> {F_PENDING, F_PRESTART, F_DEAD, F_DUMMY, F_SUSPENDED} = {}"
    and "preempt (threads k' (current k)) = preempt (threads k (current k))"
  shows "cache_ok k'"
  using assms(1) should_preempt_cong [OF assms(2,6,7), of "next_up k'" False "next_up k"]
    next_up_cong [OF assms(3,4)] assms(2,5) by (simp add: cache_ok_def)

lemma cache_ok_update: "cache_ok (update_cache False k)"
proof -
  have "next_up (update_cache False k) = next_up k" by (rule next_up_cong) simp_all
  moreover have "should_preempt (update_cache False k) x False = should_preempt k x False" for x
    by (rule should_preempt_cong) simp_all
  ultimately show ?thesis by (simp add: cache_ok_def update_cache_choice)
qed

lemma cache_best_update: "ready_cache (update_cache True k) = next_up (update_cache True k)"
  using next_up_cong [of "update_cache True k" k] by (simp add: update_cache_choice should_preempt_def)

section \<open>Context switches\<close>

lemma next_up_member: "next_up k \<in> insert (idle_thread k) (set (runq k))"
  by (simp add: next_up_def z_priq_dumb_best_def split: list.split)

lemma current_ready:
  assumes "sched_inv X k" and "\<not> z_is_thread_prevented_from_running k (current k)"
  shows "current k \<in> insert (idle_thread k) (set (runq k))"
  using sched_invD(5,6) [OF assms(1)] assms(2)
  by (auto simp: in_use_def z_is_thread_ready_def z_is_thread_timeout_active_def z_is_inactive_timeout_def is_linked_def)

lemma cache_member:
  assumes "sched_inv X k" and "cache_ok k"
  shows "ready_cache k \<in> insert (idle_thread k) (set (runq k))"
  using next_up_member [of k] current_ready [OF assms(1)] assms(2)
  by (auto simp: cache_ok_def should_preempt_def)

text \<open>A switch to a queued thread, or to the idle thread, whatever the outgoing thread has become.\<close>

lemma sched_inv_swap:
  assumes "base_inv X k" and "ready_cache k \<in> insert (idle_thread k) (set (runq k))"
  shows "sched_inv X (z_swap k)"
proof -
  note D = base_invD [OF assms(1)]
  have q: "queues_ok (z_swap k)" by (rule queues_ok_swap [OF D(1)])
  have th: "tstate (z_swap k) t = tstate k t" "pended_on (threads (z_swap k) t) = pended_on (threads k t)"
    "preempt (threads (z_swap k) t) = preempt (threads k t)" for t by (simp_all add: preempt_def)
  have u: "in_use (z_swap k) t = in_use k t" for t by (simp add: in_use_def ready_def2)
  have c: "ready_cache k \<noteq> idle_thread k \<Longrightarrow> in_use k (ready_cache k)"
    using assms(2) queues_ok_waiting(1) [OF D(1)] D(1) queues_okD(5) [OF D(1)]
    by (auto simp: in_use_def ready_def2 queues_okD(7))
  have "Thr (ready_cache k) \<notin> set (timeout_list k)" "F_PENDING \<notin> tstate k (ready_cache k)"
    using assms(2) D(4,6) queues_okD(5) [OF D(1), of "ready_cache k"]
    by (auto simp: ready_def2 z_is_thread_prevented_from_running_def)
  moreover have "base_inv (insert (ready_cache k) X) (z_swap k)"
    using q D c u th unfolding base_inv_def
    by (simp add: z_is_thread_prevented_from_running_def is_preempt_def del: swap_sel(16))
  ultimately show ?thesis by (auto simp: sched_inv_def)
qed

lemma kernel_ok_swap:
  assumes "base_inv X k" and "ready_cache k = next_up k"
  shows "kernel_ok X (z_swap k)"
proof -
  have "next_up (z_swap k) = next_up k" by (rule next_up_cong) simp_all
  then have "cache_ok (z_swap k)" using assms(2) by (simp add: cache_ok_def)
  moreover have "sched_inv X (z_swap k)" using assms next_up_member [of k] by (intro sched_inv_swap) simp_all
  ultimately show ?thesis by (simp add: kernel_ok_def)
qed

lemma kernel_ok_swap_cached:
  assumes "sched_inv X k" and "cache_ok k"
  shows "kernel_ok X (z_swap k)"
proof (cases "ready_cache k = next_up k")
  case True
  have "base_inv X k" using sched_invD(1) [OF assms(1)] by (simp add: base_inv_def)
  then show ?thesis using True by (rule kernel_ok_swap)
next
  case False
  then have c: "ready_cache k = current k" using assms(2) by (simp add: cache_ok_def)
  have "cache_ok (z_swap k)" using c by (intro cache_ok_cong [OF assms(2)]) (simp_all add: preempt_def)
  moreover have "base_inv X k" using sched_invD(1) [OF assms(1)] by (simp add: base_inv_def)
  then have "sched_inv X (z_swap k)" using cache_member [OF assms] by (rule sched_inv_swap)
  ultimately show ?thesis by (simp add: kernel_ok_def)
qed

lemma kernel_ok_reschedule:
  assumes "sched_inv X k" and "cache_ok k"
  shows "kernel_ok X (z_reschedule k)"
  using assms kernel_ok_swap_cached [OF assms] by (auto simp: z_reschedule_def z_is_in_isr_def kernel_ok_def)

lemma kernel_ok_irq:
  assumes "kernel_ok X k"
  shows "kernel_ok X (irq_enter k)" and "nested k = 1 \<Longrightarrow> kernel_ok X (irq_exit k)"
proof -
  note K = kernel_okD [OF assms]
  have *: "sched_inv X (k\<lparr>nested := n\<rparr>)" "cache_ok (k\<lparr>nested := n\<rparr>)" for n
    by (rule sched_inv_same [OF K(1)], simp_all) (rule cache_ok_cong [OF K(2)], simp_all)
  from * [of "nested k + 1"] show "kernel_ok X (irq_enter k)" by (simp add: irq_enter_def kernel_ok_def)
  show "kernel_ok X (irq_exit k)" if "nested k = 1"
    using * [of 0] kernel_ok_swap_cached [OF *, of 0] that by (simp add: irq_exit_def kernel_ok_def Let_def)
qed

section \<open>Threads that become ready\<close>

lemma ready_after [simp]: "z_is_thread_ready (z_ready_thread t k) x = z_is_thread_ready k x"
  by (auto simp: ready_def2)

lemma touched_ready: "touched t k k1 \<Longrightarrow> touched t k (z_ready_thread t k1)"
  by (simp add: touched_def)

text \<open>
  A thread changes so that it may have become ready, and \<^verbatim>\<open>z_ready_thread\<close> is called for it.
\<close>

lemma woken_ok:
  assumes inv: "sched_inv X k" and ca: "cache_ok k" and to: "touched t k k1" and q: "queues_ok k1"
    and t: "t \<noteq> idle_thread k" "F_QUEUED \<notin> tstate k1 t" "t \<in> Y \<Longrightarrow> F_PENDING \<in> tstate k1 t \<Longrightarrow> pended_on (threads k1 t) \<noteq> None"
    and r: "runq k1 = runq k" "ready_cache k1 = ready_cache k" and Y: "Y \<subseteq> insert t X"
    and cu: "t = current k \<Longrightarrow> Thr t \<notin> set (timeout_list k1) \<and> F_PENDING \<notin> tstate k1 t
      \<and> preempt (threads k1 t) = preempt (threads k t)
      \<and> (z_is_thread_prevented_from_running k1 t \<longrightarrow> z_is_thread_prevented_from_running k t)"
  shows "sched_inv Y (z_ready_thread t k1)" and "cache_ok (z_ready_thread t k1)"
proof -
  note T = touchedD [OF to]
  have q2: "queues_ok (z_ready_thread t k1)" using q t T(5) by (intro queues_ok_ready) simp_all
  have "in_use (z_ready_thread t k1) t" if "t \<in> insert (current k) Y"
    unfolding in_use_iff [OF q2] using t T(5) cu that by auto
  then show "sched_inv Y (z_ready_thread t k1)"
    using cu by (intro sched_inv_touched [OF inv q2 touched_ready [OF to] t(1) Y]) simp_all
  show "cache_ok (z_ready_thread t k1)"
  proof (cases "z_is_thread_ready k1 t")
    case True
    then show ?thesis by (simp add: z_ready_thread_def z_add_thread_to_ready_q_def cache_ok_update)
  next
    case False
    have "tstate k1 (current k) \<inter> {F_PENDING, F_PRESTART, F_DEAD, F_DUMMY, F_SUSPENDED} = {}
      \<longleftrightarrow> tstate k (current k) \<inter> {F_PENDING, F_PRESTART, F_DEAD, F_DUMMY, F_SUSPENDED} = {}"
    proof (cases "t = current k")
      case True
      then show ?thesis using cu False unfolding ready_def2 z_is_thread_prevented_from_running_def by blast
    qed (use T(1) in simp)
    moreover have "preempt (threads k1 (current k)) = preempt (threads k (current k))"
      using cu T(1) [of "current k"] by (cases "t = current k") simp_all
    ultimately have "cache_ok k1" using T(5,6) r by (intro cache_ok_cong [OF ca]) simp_all
    then show ?thesis using False by (simp add: z_ready_thread_def)
  qed
qed

text \<open>Clearing flags of a thread that is not queued, and then readying it.\<close>

lemma cleared_ok:
  assumes inv: "sched_inv X k" and ca: "cache_ok k" and t: "t \<noteq> idle_thread k" "t \<notin> set (runq k)"
    and fs: "F_QUEUED \<notin> fs" "F_PENDING \<notin> fs" and u: "in_use k t"
  shows "sched_inv X (z_ready_thread t (z_reset_thread_states t fs k))"
    and "cache_ok (z_ready_thread t (z_reset_thread_states t fs k))"
proof -
  note D = sched_invD [OF inv]
  let ?k = "z_reset_thread_states t fs k"
  have q: "queues_ok ?k" by (rule queues_ok_flags(2) [OF D(2) t(2) fs])
  have nq: "F_QUEUED \<notin> tstate k t" using t(2) queues_okD(2) [OF D(2)] by blast
  have to: "touched t k ?k" using D(3) by (auto simp: touched_def)
  have "Thr t \<notin> set (timeout_list ?k) \<and> F_PENDING \<notin> tstate ?k t \<and> preempt (threads ?k t) = preempt (threads k t)
      \<and> (z_is_thread_prevented_from_running ?k t \<longrightarrow> z_is_thread_prevented_from_running k t)" if "t = current k"
    using that D(6,7) by (auto simp: preempt_def z_is_thread_prevented_from_running_def)
  moreover have "F_PENDING \<in> tstate ?k t \<Longrightarrow> pended_on (threads ?k t) \<noteq> None"
    using u fs by (auto simp: in_use_def)
  ultimately show "sched_inv X (z_ready_thread t ?k)" "cache_ok (z_ready_thread t ?k)"
    using nq by (auto intro!: woken_ok [OF inv ca to q t(1), where Y = X])
qed

text \<open>The first waiter of a queue is taken out and readied.\<close>

lemma unpend_ready_ok:
  assumes inv: "sched_inv X k" and ca: "cache_ok k" and t: "t \<in> set (waitq k w)"
  shows "sched_inv X (z_ready_thread t (snd (z_abort_thread_timeout t (z_unpend_thread_no_timeout t k))))"
    and "cache_ok (z_ready_thread t (snd (z_abort_thread_timeout t (z_unpend_thread_no_timeout t k))))"
proof -
  note D = sched_invD [OF inv] and W = queues_ok_waiting [OF sched_invD(2) [OF inv] t]
  let ?k = "snd (z_abort_thread_timeout t (z_unpend_thread_no_timeout t k))"
  have to: "touched t k ?k" using D(3) by (auto simp: touched_def)
  have "t \<noteq> current k" using W(2) D(7) by blast
  then show "sched_inv X (z_ready_thread t ?k)" "cache_ok (z_ready_thread t ?k)"
    using W by (auto intro!: woken_ok [OF inv ca to queues_ok_unpend [OF D(2) t] W(4), where Y = X] simp: remove1_idem)
qed

text \<open>The timeout of a thread has left the queue, and its callback runs.\<close>

lemma thread_timeout_ok:
  fixes k k1 :: "'a kernel_scheme"
  assumes inv: "sched_inv X k" and ca: "cache_ok k" and t: "Thr t \<in> set (timeout_list k)"
    and k1: "timeout_list k1 = remove1 (Thr t) (timeout_list k)" "threads k1 = threads k" "qlists k1 = qlists k"
      "idle_thread k1 = idle_thread k" "current k1 = current k" "nested k1 = nested k" "ready_cache k1 = ready_cache k"
  shows "sched_inv X (z_thread_timeout t k1)" and "cache_ok (z_thread_timeout t k1)"
proof -
  note D = sched_invD [OF inv] and Q = queues_okD [OF sched_invD(2) [OF inv]]
  define k2 where "k2 = (if pended_on (threads k1 t) \<noteq> None then z_unpend_thread_no_timeout t k1 else k1)"
  let ?k = "z_reset_thread_states t {F_SUSPENDED} (z_reset_thread_states t {F_PRESTART} k2)"
  have i: "t \<noteq> idle_thread k" using t base_invD(6) [OF D(1)] by blast
  then have u: "t \<in> X \<Longrightarrow> F_PENDING \<in> tstate k t \<Longrightarrow> pended_on (threads k t) \<noteq> None"
    using D(4) by (auto simp: in_use_def)
  have c: "t \<noteq> current k" using t D(6) by blast
  have nr: "t \<notin> set (runq k)" using t Q(5) [of t] by (auto simp: ready_def2)
  then have nq: "F_QUEUED \<notin> tstate k t" using Q(2) by blast
  have th: "threads k2 x = (if x = t \<and> pended_on (threads k t) \<noteq> None
      then (threads k t)\<lparr>thread_state := tstate k t - {F_PENDING}, pended_on := None\<rparr> else threads k x)" for x
    by (simp add: k2_def k1)
  have sel: "timeout_list k2 = remove1 (Thr t) (timeout_list k)" "idle_thread k2 = idle_thread k" "current k2 = current k"
    "nested k2 = nested k" "ready_cache k2 = ready_cache k" by (simp_all add: k2_def k1)
  have nw: "t \<notin> set (qlists k l)" if "pended_on (threads k t) = None" for l
    using that nr Q(3) [of t] by (cases l) auto
  then have ql: "qlists k2 l = remove1 t (qlists k l)" for l
    by (cases "pended_on (threads k t)") (simp_all add: k2_def k1 remove1_idem)
  have q: "queues_ok ?k"
    using nq by (intro queues_ok_drop [OF D(2), of _ t]) (auto simp: ql th sel dest: set_remove1_subset [THEN subsetD])
  have to: "touched t k ?k" using D(3) by (auto simp: touched_def th sel)
  have "F_QUEUED \<notin> tstate ?k t" "t \<in> X \<Longrightarrow> F_PENDING \<in> tstate ?k t \<Longrightarrow> pended_on (threads ?k t) \<noteq> None"
    using nq u by (cases "pended_on (threads k t)"; simp add: th)+
  then have "sched_inv X (z_ready_thread t ?k) \<and> cache_ok (z_ready_thread t ?k)"
    using nr c woken_ok [OF inv ca to q i, where Y = X] by (simp add: sel ql remove1_idem subset_insertI)
  then show "sched_inv X (z_thread_timeout t k1)" "cache_ok (z_thread_timeout t k1)"
    by (simp_all add: z_thread_timeout_def Let_def k2_def)
qed

section \<open>Threads that stop being ready\<close>

lemma distinct_insert_timeout:
  "distinct ts \<Longrightarrow> to \<notin> set ts \<Longrightarrow> distinct (fst (insert_timeout ds to d ts))"
proof (induction ts arbitrary: d)
  case (Cons t ts)
  obtain l ds' where i: "insert_timeout ds to (d - ds t) ts = (l, ds')" by fastforce
  have "set l = insert to (set ts)" using set_insert_timeout [of ds to "d - ds t" ts] i by simp
  with Cons.IH [of "d - ds t"] Cons.prems i show ?case by auto
qed simp

lemma distinct_add_timeout:
  assumes "distinct (timeout_list k)" and "to \<notin> set (timeout_list k)"
  shows "distinct (timeout_list (z_add_timeout to n k))"
  using distinct_insert_timeout [OF assms, of "dticks k" "s32 (max 1 n + elapsed k)"]
  by (cases "insert_timeout (dticks k) to (s32 (max 1 n + elapsed k)) (timeout_list k)")
    (simp add: z_add_timeout_def z_clock_set_timeout_def Let_def)

text \<open>After a thread has left the run queue, the best of the others is the choice if it was the running one.\<close>

lemma removed_next:
  assumes "queues_ok k" and "t \<in> set (runq k)"
  shows "runq (z_remove_thread_from_ready_q t k) = remove1 t (runq k)"
    and "t = current k \<Longrightarrow> ready_cache (z_remove_thread_from_ready_q t k) = next_up (z_remove_thread_from_ready_q t k)"
    and "t \<noteq> current k \<Longrightarrow> cache_ok (z_remove_thread_from_ready_q t k)"
  using assms queues_okD(2) [OF assms(1), of t]
  by (simp_all add: z_remove_thread_from_ready_q_def Let_def z_is_thread_queued_def cache_best_update cache_ok_update)

lemma removed_queues_ok:
  assumes "queues_ok k" and "t \<in> set (runq k)"
    and k': "\<And>l. qlists k' l = qlists (z_remove_thread_from_ready_q t k) l" "\<And>x. x \<noteq> t \<Longrightarrow> threads k' x = threads k x"
      "F_QUEUED \<notin> tstate k' t" "pended_on (threads k' t) = pended_on (threads k t)"
      "set (timeout_list k') \<subseteq> insert (Thr t) (set (timeout_list k))" "idle_thread k' = idle_thread k"
  shows "queues_ok k'"
proof -
  note Q = queues_okD [OF assms(1)]
  have "pended_on (threads k t) = None"
    using assms(2) Q(3) [of t] queues_ok_waiting(1) [OF assms(1)] by (metis not_None_eq)
  with assms(2) k' Q(2) [of t] show ?thesis
    by (intro queues_ok_drop [OF assms(1), of _ t]) (simp_all add: z_is_thread_queued_def)
qed

text \<open>With the running thread still in place, the removal of another one does not change the choice.\<close>

lemma still_current:
  assumes ok: "kernel_ok X k" and n: "nested k = 0" and t: "t \<noteq> current k"
    and k': "runq k' = remove1 t (runq k)" "idle_thread k' = idle_thread k" "current k' = current k" "cache_ok k'"
      "threads k' (current k) = threads k (current k)"
  shows "current k' = ready_cache k' \<or> \<not> should_preempt k' (next_up k') False"
proof -
  note K = kernel_okD [OF ok]
  have sp: "should_preempt k' x False = should_preempt k y False" for x y
    using k'(3,5) by (intro should_preempt_cong) simp_all
  show ?thesis
  proof (cases "should_preempt k (next_up k) False")
    case True
    then have "next_up k = current k" using K(2) K(3) [OF n] by (auto simp: cache_ok_def)
    then have "next_up k' = next_up k" using t k'(1,2)
      by (auto simp: next_up_def z_priq_dumb_best_def split: list.splits)
    then show ?thesis using k'(3,4) \<open>next_up k = current k\<close> by (auto simp: cache_ok_def)
  next
    case False
    then show ?thesis using sp [of "next_up k'" "next_up k"] by simp
  qed
qed

text \<open>A thread is prevented from running; if it was ready, it has been taken out of the run queue.\<close>

lemma stopped_ok:
  assumes inv: "sched_inv X k" and ca: "cache_ok k" and u: "in_use k t" and to: "touched t k k'" and q: "queues_ok k'"
    and pr: "z_is_thread_prevented_from_running k' t"
    and p: "F_PENDING \<in> tstate k' t \<Longrightarrow> F_PENDING \<in> tstate k t \<and> pended_on (threads k' t) \<noteq> None"
    and tl: "set (timeout_list k') \<subseteq> set (timeout_list k)"
    and r: "z_is_thread_ready k t \<Longrightarrow> runq k' = remove1 t (runq k)
        \<and> ready_cache k' = ready_cache (z_remove_thread_from_ready_q t k)"
      "\<not> z_is_thread_ready k t \<Longrightarrow> runq k' = runq k \<and> ready_cache k' = ready_cache k"
  shows "sched_inv X k'" and "cache_ok k'"
proof -
  note D = sched_invD [OF inv] and T = touchedD [OF to]
  have i: "t \<noteq> idle_thread k" using u by (simp add: in_use_def)
  have "in_use k' t" unfolding in_use_iff [OF q] using pr p i T(5)
    by (auto simp: ready_def2 z_is_thread_prevented_from_running_def)
  then show "sched_inv X k'" using D(6,7) p tl by (intro sched_inv_touched [OF inv q to i]) auto
  let ?r = "z_remove_thread_from_ready_q t k"
  define k0 where "k0 = (if z_is_thread_ready k t then ?r else k)"
  have t: "t \<in> set (runq k)" if "z_is_thread_ready k t" using that u by (simp add: in_use_def)
  have r0: "runq k' = runq k0" "ready_cache k' = ready_cache k0" "idle_thread k' = idle_thread k0" "current k' = current k0"
    using r removed_next(1) [OF D(2) t] T(5,6) by (simp_all add: k0_def)
  show "cache_ok k'"
  proof (cases "t = current k")
    case True
    then have "should_preempt k' x False" for x using pr T(6) by (simp add: should_preempt_def)
    moreover have "ready_cache k0 = next_up k0"
    proof (cases "z_is_thread_ready k t")
      case False
      then have "should_preempt k (next_up k) False"
        using True D(6) by (auto simp: should_preempt_def ready_def2 z_is_thread_prevented_from_running_def)
      then show ?thesis using ca False by (simp add: cache_ok_def k0_def)
    qed (use removed_next(2) [OF D(2) t True] in \<open>simp add: k0_def\<close>)
    ultimately show ?thesis using next_up_cong [OF r0(1,3)] r0(2) by (simp add: cache_ok_def)
  next
    case False
    have "cache_ok k0" using ca removed_next(3) [OF D(2) t False] by (simp add: k0_def)
    then show ?thesis using r0 False T(1) [of "current k"]
      by (rule_tac cache_ok_cong [of k0]) (simp_all add: k0_def)
  qed
qed

lemma suspended_ok:
  assumes inv: "sched_inv X k" and ca: "cache_ok k" and u: "in_use k t"
  shows "sched_inv X (z_thread_single_suspend t k)" and "cache_ok (z_thread_single_suspend t k)"
proof -
  note D = sched_invD [OF inv] and Q = queues_okD [OF sched_invD(2) [OF inv]]
  let ?k = "z_thread_single_suspend t k"
  have to: "touched t k ?k" using D(3) by (auto simp: touched_def z_thread_single_suspend_def)
  have sel: "F_SUSPENDED \<in> tstate ?k t" "F_PENDING \<in> tstate ?k t \<longleftrightarrow> F_PENDING \<in> tstate k t"
    "pended_on (threads ?k t) = pended_on (threads k t)" "timeout_list ?k = timeout_list k"
    by (simp_all add: z_thread_single_suspend_def)
  have t: "t \<in> set (runq k)" if "z_is_thread_ready k t" using that u by (simp add: in_use_def)
  have q: "queues_ok ?k"
  proof (cases "z_is_thread_ready k t")
    case True
    with Q(2) [of t] show ?thesis
      by (intro removed_queues_ok [OF D(2) t]) (simp_all add: z_thread_single_suspend_def z_is_thread_queued_def subset_insertI)
  next
    case False
    then have "t \<notin> set (runq k)" using Q(5) by blast
    from queues_ok_flags(1) [OF D(2) this, of "{F_SUSPENDED}"] False show ?thesis by (simp add: z_thread_single_suspend_def)
  qed
  have "z_is_thread_prevented_from_running ?k t" using sel(1) by (auto simp: z_is_thread_prevented_from_running_def)
  moreover have "z_is_thread_queued k t" if "z_is_thread_ready k t" using t [OF that] Q(2) by (simp add: z_is_thread_queued_def)
  ultimately show "sched_inv X ?k" "cache_ok ?k"
    using u sel t by (auto intro!: stopped_ok [OF inv ca u to q] simp: in_use_def, auto simp: z_thread_single_suspend_def)
qed

lemma aborted_ok:
  assumes inv: "sched_inv X k" and ca: "cache_ok k" and u: "in_use k t" and f: "\<not> has_fn_abort (tcbs k t)"
  shows "sched_inv X (z_thread_single_abort fn t k)" and "cache_ok (z_thread_single_abort fn t k)"
proof -
  note D = sched_invD [OF inv] and Q = queues_okD [OF sched_invD(2) [OF inv]]
  let ?k = "z_thread_single_abort fn t k"
  note a = single_abort_state [OF D(2) u D(3) f, of fn]
  have def: "?k = z_set_thread_states t {F_DEAD} (if z_is_thread_ready k t then z_remove_thread_from_ready_q t k
      else (let k = (if z_is_thread_pending k t then z_unpend_thread_no_timeout t k else k)
            in if z_is_thread_timeout_active k t then snd (z_abort_thread_timeout t k) else k))"
    using f by (simp add: z_thread_single_abort_def)
  have to: "touched t k ?k" using D(3) by (auto simp: touched_def def Let_def)
  have t: "t \<in> set (runq k)" "z_is_thread_queued k t" if "z_is_thread_ready k t"
    using that u Q(2) by (simp_all add: in_use_def z_is_thread_queued_def)
  have nt: "t \<notin> set (runq k)" if "\<not> z_is_thread_ready k t" using that Q(5) by blast
  have p: "F_PENDING \<notin> tstate ?k t" by (auto simp: def Let_def z_is_thread_pending_def ready_def2)
  have tl: "set (timeout_list ?k) \<subseteq> set (timeout_list k)"
    using set_remove1_subset by (auto simp: def Let_def dest: set_remove1_subset [THEN subsetD])
  have "z_is_thread_prevented_from_running ?k t" using a(4) by (auto simp: z_is_thread_prevented_from_running_def)
  moreover have "runq ?k = remove1 t (runq k) \<and> ready_cache ?k = ready_cache (z_remove_thread_from_ready_q t k)"
    if "z_is_thread_ready k t" using that t by (simp add: def)
  moreover have "runq ?k = runq k \<and> ready_cache ?k = ready_cache k" if "\<not> z_is_thread_ready k t"
    using that nt by (simp add: def Let_def remove1_idem)
  ultimately show "sched_inv X ?k" "cache_ok ?k" using p tl by (blast intro!: stopped_ok [OF inv ca u to a(1)])+
qed

text \<open>The running thread of a sound kernel outside interrupts is the idle thread or is queued.\<close>

lemma running_queued:
  assumes "kernel_ok X k" and "nested k = 0"
  shows "current k \<in> insert (idle_thread k) (set (runq k))"
  using cache_member [OF kernel_okD(1,2) [OF assms(1)]] current_ready [OF kernel_okD(1) [OF assms(1)]] kernel_okD(3) [OF assms]
  by (auto simp: should_preempt_def)

lemma pend_curr_ok:
  assumes ok: "kernel_ok X k" and n: "nested k = 0" and i: "current k \<noteq> idle_thread k"
  shows "kernel_ok X (z_pend_curr (Some w) timeout k)"
proof -
  let ?c = "current k" and ?k = "pend (current k) (Some w) timeout k"
  note inv = kernel_okD(1) [OF ok]
  note D = sched_invD [OF inv] and Q = queues_okD [OF sched_invD(2) [OF inv]]
  have r: "?c \<in> set (runq k)" using running_queued [OF ok n] i by simp
  have pn: "pended_on (threads k ?c) = None" using D(7) Q(4) by (cases "pended_on (threads k ?c)") auto
  have q: "queues_ok ?k" by (rule queues_ok_pend [OF D(2) pn i])
  have "distinct (timeout_list ?k)"
    using D(3,6) by (auto simp: pend_def Let_def z_add_thread_timeout_def intro!: distinct_add_timeout)
  moreover have "Thr x \<in> set (timeout_list ?k) \<longleftrightarrow> Thr x \<in> set (timeout_list k)" if "x \<noteq> ?c" for x
    using pend_timeouts(1) [of ?c "Some w" timeout k] pend_timeouts(2) [of k ?c "Some w" timeout] that by auto
  ultimately have to: "touched ?c k ?k"
    using pend_timeouts(1) by (simp add: touched_def pend_eq [OF D(2)])
  have "in_use ?k ?c" unfolding in_use_iff [OF q] using i by (simp add: pend_eq [OF D(2)] ready_def2)
  then have b: "base_inv X ?k" by (intro base_inv_touched [OF D(1) q to i]) auto
  have "F_QUEUED \<in> tstate k ?c" using r Q(2) by blast
  then have "runq ?k = remove1 ?c (runq k)" by (simp add: pend_lists [OF D(2)])
  then have "next_up ?k = next_up (z_remove_thread_from_ready_q ?c k)"
    using removed_next(1) [OF D(2) r] by (intro next_up_cong) simp_all
  moreover have "ready_cache ?k = ready_cache (z_remove_thread_from_ready_q ?c k)" by (simp add: pend_def Let_def)
  ultimately have "ready_cache ?k = next_up ?k" using removed_next(2) [OF D(2) r] by simp
  with b show ?thesis unfolding z_pend_curr_def by (rule kernel_ok_swap)
qed

lemma yield_ok:
  assumes ok: "kernel_ok X k" and n: "nested k = 0"
  shows "kernel_ok X (k_yield k)"
proof (cases "current k = idle_thread k")
  case True
  then show ?thesis using kernel_ok_swap_cached [OF kernel_okD(1,2) [OF ok]] by (simp add: k_yield_def is_idle_def)
next
  case False
  let ?k = "z_priq_dumb_add RunQ (current k) (z_priq_dumb_remove (current k) k)"
  note D = sched_invD [OF kernel_okD(1) [OF ok]]
  have r: "current k \<in> set (runq k)" using running_queued [OF ok n] False by simp
  have q: "queues_ok ?k" by (rule queues_ok_requeue [OF D(2) r])
  have "touched (current k) k ?k" using D(3) by (auto simp: touched_def)
  moreover have "in_use ?k (current k)" unfolding in_use_iff [OF q]
    using False D(5) [unfolded in_use_iff [OF D(2)]] by (simp add: ready_def2)
  ultimately have b: "base_inv X ?k" using False by (intro base_inv_touched [OF D(1) q]) auto
  then have "base_inv X (update_cache True ?k)"
    by (simp add: base_inv_def queues_ok_update_cache in_use_def ready_def2 z_is_thread_prevented_from_running_def is_preempt_def
        del: priq_sel)
  then have "kernel_ok X (z_swap (update_cache True ?k))" using cache_best_update by (rule kernel_ok_swap)
  then show ?thesis using False by (simp add: k_yield_def is_idle_def Let_def)
qed

lemma sleep_ok:
  assumes ok: "kernel_ok X k" and n: "nested k = 0" and i: "current k \<noteq> idle_thread k"
  shows "kernel_ok X (snd (k_sleep d k))"
proof (cases "d = 0")
  case False
  define c where "c = current k"
  define ticks where "ticks = s32 (TICK_ALIGN + z_ms_to_ticks d)"
  let ?r = "z_remove_thread_from_ready_q c k"
  let ?k = "z_set_thread_states c {F_SUSPENDED} (z_add_thread_timeout c ticks ?r)"
  note D = sched_invD [OF kernel_okD(1) [OF ok]] and Q = queues_okD [OF sched_invD(2) [OF kernel_okD(1) [OF ok]]]
  have r: "c \<in> set (runq k)" using running_queued [OF ok n] i by (simp add: c_def)
  have fq: "F_QUEUED \<in> tstate k c" using r Q(2) by blast
  have q: "queues_ok ?k" by (rule removed_queues_ok [OF D(2) r])
    (simp_all add: fq z_is_thread_queued_def z_add_thread_timeout_def set_add_timeout)
  have "distinct (timeout_list ?k)"
    using D(3,6) by (simp add: z_add_thread_timeout_def distinct_add_timeout c_def)
  then have to: "touched c k ?k" by (simp add: touched_def z_add_thread_timeout_def set_add_timeout)
  have "in_use ?k c" unfolding in_use_iff [OF q] using D(7) i by (simp add: ready_def2 c_def)
  then have b: "base_inv X ?k" using i by (intro base_inv_touched [OF D(1) q to]) (auto simp: c_def)
  have "next_up ?k = next_up ?r" by (rule next_up_cong) simp_all
  then have "ready_cache ?k = next_up ?k" using removed_next(2) [OF D(2) r] by (simp add: c_def)
  with b have "kernel_ok X (z_swap ?k)" by (rule kernel_ok_swap)
  then show ?thesis using False by (simp add: k_sleep_def Let_def c_def ticks_def)
qed (use yield_ok [OF ok n] in \<open>simp add: k_sleep_def\<close>)

lemma sched_inv_update_cache: "sched_inv X (update_cache b k) \<longleftrightarrow> sched_inv X k"
  by (auto elim!: sched_inv_same)

lemma suspend_ok:
  assumes ok: "kernel_ok X k" and u: "in_use k t"
  shows "kernel_ok X (k_thread_suspend t k)"
proof (cases "t = current k")
  case True
  then show ?thesis
    using kernel_ok_reschedule [OF suspended_ok [OF kernel_okD(1,2) [OF ok] u]] by (simp add: k_thread_suspend_def Let_def)
next
  case False
  note D = sched_invD [OF kernel_okD(1) [OF ok]] and K = kernel_okD [OF ok]
  let ?k = "z_thread_single_suspend t k"
  note s = suspended_ok [OF K(1,2) u]
  have "current ?k = ready_cache ?k \<or> \<not> should_preempt ?k (next_up ?k) False" if "nested k = 0"
  proof (cases "z_is_thread_ready k t")
    case True
    then have "t \<in> set (runq k)" using u by (simp add: in_use_def)
    with True removed_next(1) [OF D(2) this] have "runq ?k = remove1 t (runq k)" by (simp add: z_thread_single_suspend_def)
    with False True show ?thesis
      by (intro still_current [OF ok that False _ _ _ s(2)]) (simp_all add: z_thread_single_suspend_def)
  next
    case not_ready: False
    then have "should_preempt ?k (next_up ?k) False = should_preempt k (next_up k) False" using False
      by (intro should_preempt_cong) (simp_all add: z_thread_single_suspend_def)
    then show ?thesis using K(3) [OF that] not_ready by (simp add: z_thread_single_suspend_def)
  qed
  moreover have "nested ?k = nested k" by (simp add: z_thread_single_suspend_def)
  ultimately show ?thesis using s False by (simp add: k_thread_suspend_def Let_def kernel_ok_def)
qed

section \<open>The other calls\<close>

lemma resume_ok:
  assumes ok: "kernel_ok X k" and u: "in_use k t" and f: "F_SUSPENDED \<in> tstate k t \<or> \<not> z_is_thread_ready k t"
  shows "kernel_ok X (k_thread_resume t k)"
proof -
  note K = kernel_okD [OF ok]
  have "t \<notin> set (runq k)" using queues_okD(5) [OF sched_invD(2) [OF K(1)]] f by (auto simp: ready_def2)
  from cleared_ok [OF K(1,2) _ this _ _ u, of "{F_SUSPENDED}"] u show ?thesis
    by (simp add: k_thread_resume_def z_thread_single_resume_def in_use_def kernel_ok_reschedule)
qed

lemma start_ok:
  assumes ok: "kernel_ok X k" and u: "in_use k t"
  shows "kernel_ok X (k_thread_start t k)"
proof (cases "z_has_thread_started k t")
  case False
  note K = kernel_okD [OF ok]
  have "t \<notin> set (runq k)"
    using queues_okD(5) [OF sched_invD(2) [OF K(1)]] False by (auto simp: ready_def2 z_has_thread_started_def)
  from cleared_ok [OF K(1,2) _ this _ _ u, of "{F_PRESTART}"] u False show ?thesis
    by (simp add: k_thread_start_def in_use_def kernel_ok_reschedule)
qed (use ok in \<open>simp add: k_thread_start_def\<close>)

lemma wakeup_ok:
  assumes ok: "kernel_ok X k"
  shows "kernel_ok X (k_wakeup t k)"
proof (cases "z_is_thread_pending k t \<or> Thr t \<notin> set (timeout_list k)")
  case True
  then show ?thesis using ok
    by (auto simp: k_wakeup_def z_abort_thread_timeout_def z_abort_timeout_def is_linked_def EINVAL_def)
next
  case False
  then have t: "Thr t \<in> set (timeout_list k)" and p: "F_PENDING \<notin> tstate k t" by (simp_all add: z_is_thread_pending_def)
  note K = kernel_okD [OF ok]
  note D = sched_invD [OF K(1)] and Q = queues_okD [OF sched_invD(2) [OF K(1)]]
  let ?k = "z_reset_thread_states t {F_SUSPENDED} (snd (z_abort_thread_timeout t k))"
  have i: "t \<noteq> idle_thread k" "t \<noteq> current k" using t D(6) base_invD(6) [OF D(1)] by auto
  have nr: "t \<notin> set (runq k)" using t Q(5) [of t] by (auto simp: ready_def2)
  then have nq: "F_QUEUED \<notin> tstate k t" using Q(2) by blast
  have pn: "pended_on (threads k t) = None" using p Q(4) by (cases "pended_on (threads k t)") auto
  then have nl: "t \<notin> set (qlists k l)" for l using nr Q(3) [of t] by (cases l) auto
  have "set (timeout_list ?k) \<subseteq> insert (Thr t) (set (timeout_list k))" using set_remove1_subset by fastforce
  then have q: "queues_ok ?k" using nq pn nl by (intro queues_ok_drop [OF D(2), of _ t]) (simp_all add: remove1_idem)
  have to: "touched t k ?k" using D(3) by (auto simp: touched_def)
  have "sched_inv X (z_ready_thread t ?k) \<and> cache_ok (z_ready_thread t ?k)"
    using i nq p woken_ok [OF K(1,2) to q i(1), where Y = X] by (simp add: subset_insertI)
  then have "kernel_ok X (z_reschedule (z_ready_thread t ?k))" by (intro kernel_ok_reschedule) simp_all
  moreover have "z_abort_thread_timeout t k = (0, snd (z_abort_thread_timeout t k))"
    using t by (simp add: z_abort_thread_timeout_def z_abort_timeout_def is_linked_def)
  ultimately show ?thesis using False
    by (cases "z_abort_thread_timeout t k") (simp add: k_wakeup_def z_reschedule_def Let_def split: if_splits)
qed

lemma abort_ok:
  assumes ok: "kernel_ok X k" and u: "in_use k t" and f: "\<not> has_fn_abort (tcbs k t)"
  shows "kernel_ok X (k_thread_abort fn t k)"
  unfolding k_thread_abort_def
  by (intro kernel_ok_reschedule aborted_ok [OF kernel_okD(1,2) [OF ok] u f])

lemma setup_sel2 [simp]:
  "nested (z_setup_new_thread t stk sz e p1 p2 p3 pr opt k) = nested k"
  "ready_cache (z_setup_new_thread t stk sz e p1 p2 p3 pr opt k) = ready_cache k"
  by (simp_all add: z_setup_new_thread_def z_new_thread_def z_new_thread_init_def z_init_thread_base_def Let_def
      upd_tcb_def upd_thread_def)

lemma setup_ok:
  assumes ok: "kernel_ok X k" and un: "unused k t"
  shows "kernel_ok (insert t X) (z_setup_new_thread t stk sz e p1 p2 p3 pr opt k)" (is "kernel_ok _ ?k")
    and "in_use (z_setup_new_thread t stk sz e p1 p2 p3 pr opt k) t"
proof -
  note K = kernel_okD [OF ok]
  note D = sched_invD [OF K(1)] and Q = queues_okD [OF sched_invD(2) [OF K(1)]]
  note U = un [unfolded unused_def]
  have q: "queues_ok ?k" using U by (intro queues_ok_drop [OF D(2), of _ t]) (simp_all add: remove1_idem subset_insertI)
  have to: "touched t k ?k" using D(3) by (auto simp: touched_def)
  show u: "in_use ?k t" using U by (simp add: in_use_def ready_def2)
  have "sched_inv (insert t X) ?k" using U u by (intro sched_inv_touched [OF K(1) q to]) auto
  moreover have "cache_ok ?k" using U by (intro cache_ok_cong [OF K(2)]) auto
  moreover have "should_preempt ?k (next_up ?k) False = should_preempt k (next_up k) False"
    using U by (intro should_preempt_cong) auto
  ultimately show "kernel_ok (insert t X) ?k" using K(3) by (simp add: kernel_ok_def)
qed

lemma delay_ok:
  assumes ok: "kernel_ok X k" and u: "in_use k t" and f: "F_PRESTART \<in> tstate k t" "t \<noteq> current k" "Thr t \<notin> set (timeout_list k)"
  shows "kernel_ok X (z_add_thread_timeout t n k)" (is "kernel_ok X ?k")
proof -
  note K = kernel_okD [OF ok]
  note D = sched_invD [OF K(1)]
  have nr: "t \<notin> set (runq k)" using queues_okD(5) [OF D(2)] f by (auto simp: ready_def2)
  have q: "queues_ok ?k" unfolding z_add_thread_timeout_def by (rule queues_ok_add_timeout [OF D(2) nr])
  have to: "touched t k ?k" using D(3) f
    by (auto simp: touched_def z_add_thread_timeout_def set_add_timeout intro!: distinct_add_timeout)
  have i: "t \<noteq> idle_thread k" using u by (simp add: in_use_def)
  have "in_use ?k t" unfolding in_use_iff [OF q] using f u i by (auto simp: ready_def2 in_use_def)
  then have "sched_inv X ?k" using f by (intro sched_inv_touched [OF K(1) q to i]) auto
  moreover have "cache_ok ?k" by (intro cache_ok_cong [OF K(2)]) simp_all
  moreover have "should_preempt ?k (next_up ?k) False = should_preempt k (next_up k) False" by (intro should_preempt_cong) simp_all
  ultimately show ?thesis using K(3) by (simp add: kernel_ok_def)
qed

lemma create_ok:
  assumes ok: "kernel_ok X k" and un: "unused k t"
  shows "kernel_ok (insert t X) (snd (k_thread_create t stk sz e p1 p2 p3 pr opt delay k))"
proof -
  let ?k = "z_setup_new_thread t stk sz e p1 p2 p3 pr opt k"
  note s = setup_ok [OF assms, of stk sz e p1 p2 p3 pr opt]
  have "kernel_ok (insert t X) (z_add_thread_timeout t n ?k)" for n
    using un by (intro delay_ok [OF s]) (simp_all add: unused_def)
  with s start_ok [OF s] show ?thesis by (simp add: k_thread_create_def schedule_new_thread_def Let_def)
qed

lemma base_inv_update_cache: "base_inv X (update_cache b k) \<longleftrightarrow> base_inv X k"
  by (simp add: base_inv_def queues_ok_update_cache in_use_def ready_def2 z_is_thread_prevented_from_running_def is_preempt_def)

lemma priority_set_ok:
  assumes ok: "kernel_ok X k" and n: "nested k = 0" and u: "in_use k t"
  shows "kernel_ok X (k_thread_priority_set t p k)"
proof -
  note K = kernel_okD [OF ok]
  note D = sched_invD [OF K(1)]
  let ?k' = "z_thread_priority_set t p k"
  have i: "t \<noteq> idle_thread k" using u by (simp add: in_use_def)
  have q: "queues_ok ?k'" using u by (intro queues_ok_prio [OF D(2)]) (simp add: in_use_def)
  have "kernel_ok X ?k'"
  proof (cases "z_is_thread_ready k t")
    case True
    let ?k = "z_priq_dumb_add RunQ t (upd_thread t (\<lambda>th. th\<lparr>prio := s8 p\<rparr>) (z_priq_dumb_remove t k))"
    have l: "sched_locked (threads (update_cache True ?k) (current (update_cache True ?k))) = sched_locked (threads k (current k))"
      by simp
    have e: "?k' = (if sched_locked (threads k (current k)) = 0 then z_swap (update_cache True ?k) else update_cache True ?k)"
      using True n l by (auto simp: z_thread_priority_set_def Let_def z_reschedule_def z_is_in_isr_def)
    have q1: "queues_ok ?k" by (rule queues_ok_same [OF q]) (simp_all add: e)
    have to: "touched t k ?k" using D(3) by (auto simp: touched_def)
    have "in_use ?k t" unfolding in_use_iff [OF q1] using u i [symmetric] True
      by (simp add: in_use_iff [OF D(2)] ready_def2)
    then have b: "base_inv X ?k" and inv: "sched_inv X (update_cache True ?k)"
      using D(6,7) unfolding sched_inv_update_cache
      by (auto intro!: base_inv_touched [OF D(1) q1 to i] sched_inv_touched [OF K(1) q1 to i])
    show ?thesis
    proof (cases "sched_locked (threads k (current k)) = 0")
      case True
      have "base_inv X (update_cache True ?k)" using b by (simp only: base_inv_update_cache)
      then have "kernel_ok X (z_swap (update_cache True ?k))" using cache_best_update by (rule kernel_ok_swap)
      then show ?thesis unfolding e using True by simp
    next
      case False
      let ?u = "update_cache True ?k"
      have "0 < uint (sched_locked (threads k (current k)))" using False by (simp add: order_less_le uint_0_iff)
      moreover have "sched_locked (threads ?u (current k)) = sched_locked (threads k (current k))" by simp
      ultimately have "\<not> is_preempt ?u (current k)" by (simp add: is_preempt_def preempt_def del: update_cache_sel priq_sel)
      moreover have "current k \<noteq> idle_thread k" using False base_invD(5) [OF D(1)] \<open>0 < uint _\<close> by (auto simp: is_preempt_def preempt_def)
      then have "z_is_thread_ready k (current k)" using running_queued [OF ok n] queues_okD(5) [OF D(2)] by blast
      ultimately have "\<not> should_preempt ?u (next_up ?u) False"
        by (auto simp: should_preempt_def z_is_thread_ready_def z_is_thread_prevented_from_running_def)
      then show ?thesis unfolding e using False inv cache_best_update [of ?k] by (simp add: kernel_ok_def cache_ok_def)
    qed
  next
    case False
    have e: "?k' = upd_thread t (\<lambda>th. th\<lparr>prio := s8 p\<rparr>) k" using False by (simp add: z_thread_priority_set_def Let_def)
    have c: "t \<noteq> current k" using running_queued [OF ok n] queues_okD(5) [OF D(2), of t] False i by auto
    have to: "touched t k ?k'" using D(3) by (auto simp: touched_def e)
    have "in_use ?k' t" unfolding in_use_iff [OF q] using u by (simp add: in_use_iff [OF D(2)] ready_def2 e)
    then have "sched_inv X ?k'" using c by (intro sched_inv_touched [OF K(1) q to i]) auto
    moreover have "cache_ok ?k'" using c by (intro cache_ok_cong [OF K(2)]) (simp_all add: e)
    moreover have "should_preempt ?k' (next_up ?k') False = should_preempt k (next_up k) False"
      using c by (intro should_preempt_cong) (simp_all add: e)
    ultimately show ?thesis using K(3) [OF n] by (simp add: kernel_ok_def e)
  qed
  then show ?thesis by (simp add: k_thread_priority_set_def)
qed

lemma sched_lock_ok:
  assumes ok: "kernel_ok X k" and n: "nested k = 0" and i: "current k \<noteq> idle_thread k"
    and l: "sched_locked (threads k (current k)) \<noteq> 1"
  shows "kernel_ok X (k_sched_lock k)"
proof -
  note K = kernel_okD [OF ok]
  note D = sched_invD [OF K(1)]
  have r: "z_is_thread_ready k (current k)" using running_queued [OF ok n] queues_okD(5) [OF D(2)] i by blast
  have "0 < uint (sched_locked (threads k (current k)) - 1)"
    using l by (simp add: order_less_le uint_0_iff)
  moreover have "0 \<le> tprio k (current k) mod 256" by simp
  ultimately have "\<not> is_preempt (z_sched_lock k) (current k)"
    by (simp add: is_preempt_def preempt_def)
  then have ns: "\<not> should_preempt (z_sched_lock k) x False" for x
    using r by (simp add: should_preempt_def z_is_thread_ready_def z_is_thread_prevented_from_running_def)
  have sel: "current (z_sched_lock k) = current k" "ready_cache (z_sched_lock k) = ready_cache k" "nested (z_sched_lock k) = nested k"
    by (simp_all add: z_sched_lock_def)
  moreover have "next_up (z_sched_lock k) = next_up k" by (rule next_up_cong) (simp_all add: z_sched_lock_def)
  ultimately have "cache_ok (z_sched_lock k)" using ns K(2) K(3) [OF n] by (auto simp: cache_ok_def)
  moreover have "sched_inv X (z_sched_lock k)" using i by (intro sched_inv_same [OF K(1)]) (simp_all add: z_sched_lock_def)
  ultimately show ?thesis using sel ns by (simp add: k_sched_lock_def kernel_ok_def)
qed

lemma sched_unlock_ok:
  assumes ok: "kernel_ok X k" and n: "nested k = 0" and i: "current k \<noteq> idle_thread k"
  shows "kernel_ok X (k_sched_unlock k)"
proof -
  let ?k = "upd_thread (current k) (\<lambda>th. th\<lparr>sched_locked := sched_locked th + 1\<rparr>) k"
  have "sched_inv X ?k" using i by (intro sched_inv_same [OF kernel_okD(1) [OF ok]]) simp_all
  then have "base_inv X ?k" by (simp add: sched_inv_def base_inv_def)
  then have "base_inv X (update_cache True ?k)" by (simp only: base_inv_update_cache)
  then have "kernel_ok X (z_swap (update_cache True ?k))" using cache_best_update by (rule kernel_ok_swap)
  then show ?thesis using n by (simp add: k_sched_unlock_def z_reschedule_def z_is_in_isr_def)
qed

section \<open>The timer interrupt\<close>

lemma reset_slice_ok:
  assumes "sched_inv X k" and "cache_ok k"
  shows "sched_inv X (reset_time_slice k)" and "cache_ok (reset_time_slice k)"
  using sched_inv_same [OF assms(1), of "reset_time_slice k"] cache_ok_cong [OF assms(2), of "reset_time_slice k"] by simp_all

lemma time_slice_ok:
  assumes inv: "sched_inv X k" and ca: "cache_ok k" and r: "\<not> z_is_thread_prevented_from_running k (current k)"
  shows "sched_inv X (z_time_slice ticks k)" and "cache_ok (z_time_slice ticks k)"
proof -
  note D = sched_invD [OF inv]
  let ?c = "current k"
  have "sched_inv X (z_move_thread_to_end_of_prio_q ?c k) \<and> cache_ok (z_move_thread_to_end_of_prio_q ?c k)" if "sliceable k ?c"
  proof -
    let ?k = "z_priq_dumb_add RunQ ?c (z_priq_dumb_remove ?c k)"
    have i: "?c \<noteq> idle_thread k" and pr: "is_preempt k ?c" using that by (simp_all add: sliceable_def is_idle_def)
    have rq: "?c \<in> set (runq k)" using current_ready [OF inv r] i by simp
    have q: "queues_ok ?k" by (rule queues_ok_requeue [OF D(2) rq])
    have fq: "F_QUEUED \<in> tstate k ?c" using rq queues_okD(2) [OF D(2)] by blast
    have e: "z_set_thread_states ?c {F_QUEUED} ?k = ?k"
      using fq by (simp add: z_set_thread_states_def upd_thread_def insert_absorb)
    have m: "z_move_thread_to_end_of_prio_q ?c k = update_cache True ?k"
      unfolding z_move_thread_to_end_of_prio_q_def Let_def e by simp
    have "touched ?c k ?k" using D(3) by (auto simp: touched_def)
    moreover have "in_use ?k ?c" unfolding in_use_iff [OF q] using i fq D(5) [OF i] by (simp add: in_use_def)
    ultimately have "sched_inv X ?k" using i D(6,7) by (intro sched_inv_touched [OF inv q]) auto
    moreover have "cache_ok (update_cache True ?k)"
    proof -
      have "should_preempt (update_cache True ?k) x False" for x
        using pr by (simp add: should_preempt_def is_preempt_def)
      then show ?thesis using cache_best_update [of ?k] by (simp add: cache_ok_def)
    qed
    ultimately show ?thesis unfolding m sched_inv_update_cache by blast
  qed
  moreover have "sched_inv X (k\<lparr>slice_ticks := v\<rparr>)" "cache_ok (k\<lparr>slice_ticks := v\<rparr>)" for v
    using sched_inv_same [OF inv, of "k\<lparr>slice_ticks := v\<rparr>"] cache_ok_cong [OF ca, of "k\<lparr>slice_ticks := v\<rparr>"] by simp_all
  ultimately show "sched_inv X (z_time_slice ticks k)" "cache_ok (z_time_slice ticks k)"
    using inv ca by (auto simp: z_time_slice_def intro: reset_slice_ok)
qed

lemma thread_fn_Thr: "thread_fn (Thr t) k = z_thread_timeout t k"
  by (simp add: thread_fn_def)

lemma announce_loop_ok:
  assumes "sched_inv X k" and "cache_ok k" and "announce_loop n thread_fn k = Some k'"
  shows "sched_inv X k' \<and> cache_ok k' \<and> nested k' = nested k \<and> (\<forall>w. set (waitq k' w) \<subseteq> set (waitq k w))"
  using assms
proof (induction n arbitrary: k)
  case (Suc n)
  show ?case
  proof (cases "timeout_list k")
    case Nil
    then show ?thesis using Suc.prems by (simp add: announce_loop_round del: announce_loop.simps)
  next
    case (Cons to ts)
    then obtain t where to: "to = Thr t" using base_invD(7) [OF sched_invD(1) [OF Suc.prems(1)], of to] by auto
    show ?thesis
    proof (cases "dticks k to \<le> announce_remaining k")
      case True
      let ?k = "z_thread_timeout t (fire_state (Thr t) k)"
      have sel: "threads (fire_state (Thr t) k) = threads k" "qlists (fire_state (Thr t) k) = qlists k"
        "nested (fire_state (Thr t) k) = nested k"
        by (simp_all add: fire_state_def)
      have "sched_inv X ?k" "cache_ok ?k"
        using Cons to by (auto intro!: thread_timeout_ok [OF Suc.prems(1,2), of t] simp: fire_state_def)
      moreover have "announce_loop n thread_fn ?k = Some k'"
        using Suc.prems(3) Cons True to by (simp add: announce_loop_round thread_fn_Thr del: announce_loop.simps)
      moreover have "nested ?k = nested k" "\<forall>w. set (waitq ?k w) \<subseteq> set (waitq k w)"
        using set_remove1_subset by (auto simp: z_thread_timeout_def Let_def sel dest: set_remove1_subset [THEN subsetD])
      ultimately show ?thesis using Suc.IH [of ?k] by (metis subset_trans)
    next
      case False
      then show ?thesis using Suc.prems Cons by (simp add: announce_loop_round del: announce_loop.simps)
    qed
  qed
qed simp

text \<open>The handler of the timer interrupt announces ticks; the fuel is one round for each timeout and one to stop.\<close>

definition timer_irq :: "int \<Rightarrow> 'a kernel_scheme \<Rightarrow> 'a kernel_scheme option" where
  "timer_irq ticks k = map_option irq_exit (z_clock_announce (Suc (length (timeout_list k))) thread_fn ticks (irq_enter k))"

lemma slice_waitq: "waitq (z_time_slice ticks k) w = waitq k w" if "queues_ok k" "current k \<in> insert (idle_thread k) (set (runq k))"
proof (cases "current k \<in> set (runq k)")
  case True
  then have "current k \<notin> set (waitq k w)" using queues_ok_waiting(1) [OF that(1)] by blast
  then show ?thesis by (simp add: z_time_slice_def z_move_thread_to_end_of_prio_q_def Let_def remove1_idem)
next
  case False
  then show ?thesis using that(2) by (simp add: z_time_slice_def sliceable_def is_idle_def)
qed

lemma timer_irq_ok:
  assumes ok: "kernel_ok X k" and n: "nested k = 0" and k': "timer_irq ticks k = Some k'"
  shows "kernel_ok X k' \<and> nested k' = 0 \<and> (\<forall>w. set (waitq k' w) \<subseteq> set (waitq k w))"
proof -
  define k1 where "k1 = irq_enter k"
  have k1: "kernel_ok X k1" unfolding k1_def by (rule kernel_ok_irq(1) [OF ok])
  have sel: "current k1 = current k" "runq k1 = runq k" "idle_thread k1 = idle_thread k" "nested k1 = 1" "qlists k1 = qlists k" "threads k1 = threads k"
    using n by (simp_all add: k1_def irq_enter_def)
  note K = kernel_okD [OF k1]
  note c = running_queued [OF ok n]
  have "\<not> z_is_thread_prevented_from_running k1 (current k1)"
    using c queues_okD(5) [OF sched_invD(2) [OF kernel_okD(1) [OF ok]]] base_invD(4) [OF sched_invD(1) [OF K(1)]] sel
    by (auto simp: z_is_thread_prevented_from_running_def ready_def2)
  note t = time_slice_ok [OF K(1,2) this, of ticks]
  define k2 where "k2 = (z_time_slice ticks k1)\<lparr>announce_remaining := ticks\<rparr>"
  have k2: "sched_inv X k2" "cache_ok k2"
    unfolding k2_def by (rule sched_inv_same [OF t(1)], simp_all) (rule cache_ok_cong [OF t(2)], simp_all)
  have n2: "nested k2 = 1" using sel by (simp add: k2_def z_time_slice_def z_move_thread_to_end_of_prio_q_def Let_def)
  have w2: "waitq k2 w = waitq k w" for w
    using slice_waitq [of k1 ticks w] sched_invD(2) [OF K(1)] c sel by (simp add: k2_def)
  obtain k3 where k3: "announce_loop (Suc (length (timeout_list k))) thread_fn k2 = Some k3"
    and e: "k' = irq_exit (let k = (case to_first k3 of None \<Rightarrow> k3
                  | Some t \<Rightarrow> k3\<lparr>dticks := (dticks k3)(t := dticks k3 t - announce_remaining k3)\<rparr>);
             k = k\<lparr>curr_tick := nat ((int (curr_tick k) + announce_remaining k) mod 2 ^ 64),
                   announce_remaining := 0\<rparr>
         in z_clock_set_timeout (next_timeout k) False k)" (is "_ = irq_exit ?k4")
    using k' unfolding timer_irq_def z_clock_announce_def Let_def k1_def [symmetric] k2_def [symmetric]
    by (auto split: option.splits simp del: announce_loop.simps)
  note l = announce_loop_ok [OF k2 k3]
  define k4 where "k4 = ?k4"
  have s4: "threads k4 = threads k3" "qlists k4 = qlists k3" "timeout_list k4 = timeout_list k3" "current k4 = current k3"
    "idle_thread k4 = idle_thread k3" "nested k4 = nested k3" "ready_cache k4 = ready_cache k3"
    by (simp_all add: k4_def Let_def z_clock_set_timeout_def split: option.split)
  have k4: "k' = irq_exit k4" using e by (simp only: k4_def)
  have i3: "sched_inv X k3" "cache_ok k3" using l by blast+
  have "sched_inv X k4" by (rule sched_inv_same [OF i3(1)]) (simp_all only: s4)
  moreover have "cache_ok k4" by (rule cache_ok_cong [OF i3(2)]) (simp_all only: s4)
  ultimately have "kernel_ok X k4" using l n2 s4(6) by (simp add: kernel_ok_def)
  then have "kernel_ok X k'" unfolding k4 using l n2 s4(6) by (intro kernel_ok_irq(2)) simp_all
  moreover have "nested k' = 0" "qlists k' = qlists k3"
    unfolding k4 using l n2 s4 by (simp_all add: irq_exit_def Let_def)
  ultimately show ?thesis using l w2 by simp
qed

section \<open>Semaphores\<close>

lemma sem_give_ok:
  assumes ok: "kernel_ok X k"
  shows "kernel_ok X (snd (k_sem_give s k))" and "sem_wait_q (fst (k_sem_give s k)) = sem_wait_q s"
    and "waitq (snd (k_sem_give s k)) w = (if w = sem_wait_q s then tl (waitq k w) else waitq k w)"
    and "nested (snd (k_sem_give s k)) = nested k"
proof -
  note K = kernel_okD [OF ok]
  have "kernel_ok X (snd (k_sem_give s k)) \<and> sem_wait_q (fst (k_sem_give s k)) = sem_wait_q s
    \<and> waitq (snd (k_sem_give s k)) w = (if w = sem_wait_q s then tl (waitq k w) else waitq k w)
    \<and> nested (snd (k_sem_give s k)) = nested k"
  proof (cases "waitq k (sem_wait_q s)")
    case Nil
    then show ?thesis using kernel_ok_reschedule [OF K(1,2)]
      by (simp add: k_sem_give_def do_sem_give_def unpend_first_eq increment_count_up_to_limit_def)
  next
    case (Cons t ts)
    then have t: "t \<in> set (waitq k (sem_wait_q s))" by simp
    let ?r = "z_ready_thread t (snd (z_abort_thread_timeout t (z_unpend_thread_no_timeout t k)))"
    note u = unpend_ready_ok [OF K(1,2) t]
    have "sched_inv X (z_set_thread_return_value t 0 ?r)" by (rule sched_inv_same [OF u(1)]) simp_all
    moreover have "cache_ok (z_set_thread_return_value t 0 ?r)" by (rule cache_ok_cong [OF u(2)]) (simp_all add: preempt_def)
    ultimately have "kernel_ok X (z_reschedule (z_set_thread_return_value t 0 ?r))" by (rule kernel_ok_reschedule)
    moreover have "do_sem_give s k = (s, z_set_thread_return_value t 0 ?r)"
      using Cons by (simp add: do_sem_give_def unpend_first_eq)
    moreover have "t \<notin> set (waitq k w)" if "w \<noteq> sem_wait_q s"
      using that queues_okD(3) [OF sched_invD(2) [OF K(1)], of t] t by auto
    ultimately show ?thesis using Cons by (simp add: k_sem_give_def remove1_idem)
  qed
  then show "kernel_ok X (snd (k_sem_give s k))" "sem_wait_q (fst (k_sem_give s k)) = sem_wait_q s"
    "waitq (snd (k_sem_give s k)) w = (if w = sem_wait_q s then tl (waitq k w) else waitq k w)"
    "nested (snd (k_sem_give s k)) = nested k" by blast+
qed

lemma sem_give_count:
  assumes "sem_count s \<le> sem_limit s"
  shows "unat (sem_count (fst (k_sem_give s k)))
      = (if waitq k (sem_wait_q s) = [] then min (unat (sem_count s) + 1) (unat (sem_limit s)) else unat (sem_count s))"
    and "sem_limit (fst (k_sem_give s k)) = sem_limit s"
  using unat_inc_limit [OF assms]
  by (auto simp: k_sem_give_def do_sem_give_def unpend_first_eq increment_count_up_to_limit_def split: list.split)

lemma sem_take_ok:
  assumes ok: "kernel_ok X k" and g: "nested k \<noteq> 0 \<or> current k = idle_thread k \<Longrightarrow> timeout = K_NO_WAIT"
    and r: "k_sem_take s timeout k = (r, s', k')"
  shows "kernel_ok X k'" and "sem_wait_q s' = sem_wait_q s" and "sem_limit s' = sem_limit s" and "nested k' = nested k"
    and "w \<noteq> sem_wait_q s \<Longrightarrow> set (waitq k' w) \<subseteq> set (waitq k w)"
    and "set (waitq k' (sem_wait_q s)) \<noteq> {} \<Longrightarrow> waitq k (sem_wait_q s) = [] \<Longrightarrow> sem_count s = 0"
    and "unat (sem_count s') + (if r = Done 0 then 1 else 0) = unat (sem_count s)"
proof -
  note D = sched_invD [OF kernel_okD(1) [OF ok]]
  have pos: "unat (sem_count s - 1) + 1 = unat (sem_count s)" if "sem_count s > 0"
    using that by (simp add: unat_minus_one word_gt_0 unat_gt_0 Suc_leI)
  show "kernel_ok X k'"
    using r ok g pend_curr_ok [OF ok, of "sem_wait_q s" timeout] by (auto simp: k_sem_take_def split: if_splits)
  show "sem_wait_q s' = sem_wait_q s" "sem_limit s' = sem_limit s" "nested k' = nested k"
    "unat (sem_count s') + (if r = Done 0 then 1 else 0) = unat (sem_count s)"
    using r pos by (auto simp: k_sem_take_def z_pend_curr_def EBUSY_def word_gt_0 split: if_splits)
  show "set (waitq k' w) \<subseteq> set (waitq k w)" if "w \<noteq> sem_wait_q s"
    using r that set_remove1_subset by (fastforce simp: k_sem_take_def z_pend_curr_def pend_lists [OF D(2)] split: if_splits)
  show "sem_count s = 0" if "set (waitq k' (sem_wait_q s)) \<noteq> {}" "waitq k (sem_wait_q s) = []"
    using r that by (auto simp: k_sem_take_def word_gt_0 split: if_splits)
qed

section \<open>The system\<close>

text \<open>
  Its state is that of the kernel, of a family of semaphores, and the set of the threads created so far. The label of
  a step tells which call it is, which threads a give woke from the semaphore's wait queue and what a take returned.

  A step may be taken under the conditions that the code asserts (no waiting in an interrupt handler and none by the idle
  thread; no \<^verbatim>\<open>K_FOREVER\<close> for a sleep; no count of scheduler locks running over) and these: threads are created in unused
  thread structures, the idle thread is not suspended, aborted or given a priority, no thread has an abort callback
  (nothing in the repository sets one), and \<^verbatim>\<open>k_thread_resume\<close> is not called for a thread that is ready. The last call is
  documented as harmless, but the code inserts the ready thread into the run queue a second time; that it corrupts the queue is the theorem
  \<open>resume_ready_corrupts\<close> of \<open>KThread\<close>. The calls are those of the scheduler, threads, semaphores and the clock; mutexes,
  queues and the other objects have theories of their own.
\<close>

record system =
  kern :: "unit thkernel_scheme"
  sems :: "nat \<Rightarrow> sem"
  made :: "tid set"

datatype event =
    SemGive nat "tid set" | SemTake nat "int outcome" | SemReset nat
  | Yield | Sleep int | Wakeup tid | Suspend tid | Resume tid | Start tid | Create tid | Abort tid
  | SetPriority tid int | SchedLock | SchedUnlock | EnterIsr | ExitIsr | TimerIrq int

text \<open>The threads that waited for the semaphore before a call and do not wait any more after it.\<close>

definition unpended_by :: "sem \<Rightarrow> 'a kernel_scheme \<Rightarrow> 'a kernel_scheme \<Rightarrow> tid set" where
  "unpended_by s k k' = set (waitq k (sem_wait_q s)) - set (waitq k' (sem_wait_q s))"

inductive sys_step :: "system \<Rightarrow> event \<Rightarrow> system \<Rightarrow> bool" where
  give: "k_sem_give (sems S i) (kern S) = (s', k') \<Longrightarrow>
    sys_step S (SemGive i (unpended_by (sems S i) (kern S) k')) (S\<lparr>kern := k', sems := (sems S)(i := s')\<rparr>)"
| take: "(z_is_in_isr (kern S) \<or> current (kern S) = idle_thread (kern S) \<longrightarrow> timeout = K_NO_WAIT) \<Longrightarrow>
    k_sem_take (sems S i) timeout (kern S) = (r, s', k') \<Longrightarrow>
    sys_step S (SemTake i r) (S\<lparr>kern := k', sems := (sems S)(i := s')\<rparr>)"
| reset: "sys_step S (SemReset i) (S\<lparr>sems := (sems S)(i := k_sem_reset (sems S i))\<rparr>)"
| yielding: "\<not> z_is_in_isr (kern S) \<Longrightarrow> sys_step S Yield (S\<lparr>kern := k_yield (kern S)\<rparr>)"
| sleep: "\<not> z_is_in_isr (kern S) \<Longrightarrow> current (kern S) \<noteq> idle_thread (kern S) \<Longrightarrow> duration \<noteq> K_FOREVER \<Longrightarrow>
    sys_step S (Sleep duration) (S\<lparr>kern := snd (k_sleep duration (kern S))\<rparr>)"
| wakeup: "sys_step S (Wakeup t) (S\<lparr>kern := k_wakeup t (kern S)\<rparr>)"
| suspend: "t \<in> made S \<Longrightarrow> t \<noteq> idle_thread (kern S) \<Longrightarrow>
    sys_step S (Suspend t) (S\<lparr>kern := k_thread_suspend t (kern S)\<rparr>)"
| resume: "t \<in> made S \<Longrightarrow> t \<noteq> idle_thread (kern S) \<Longrightarrow>
    F_SUSPENDED \<in> tstate (kern S) t \<or> \<not> z_is_thread_ready (kern S) t \<Longrightarrow>
    sys_step S (Resume t) (S\<lparr>kern := k_thread_resume t (kern S)\<rparr>)"
| start: "t \<in> made S \<Longrightarrow> t \<noteq> idle_thread (kern S) \<Longrightarrow> sys_step S (Start t) (S\<lparr>kern := k_thread_start t (kern S)\<rparr>)"
| create: "\<not> z_is_in_isr (kern S) \<Longrightarrow> unused (kern S) t \<Longrightarrow>
    k_thread_create t stack stack_size entry p1 p2 p3 priority options delay (kern S) = (t', k') \<Longrightarrow>
    sys_step S (Create t) (S\<lparr>kern := k', made := insert t (made S)\<rparr>)"
| abort: "t \<in> made S \<Longrightarrow> t \<noteq> idle_thread (kern S) \<Longrightarrow> \<not> has_fn_abort (tcbs (kern S) t) \<Longrightarrow>
    sys_step S (Abort t) (S\<lparr>kern := k_thread_abort fn t (kern S)\<rparr>)"
| set_priority: "\<not> z_is_in_isr (kern S) \<Longrightarrow> t \<in> made S \<Longrightarrow> t \<noteq> idle_thread (kern S) \<Longrightarrow>
    sys_step S (SetPriority t p) (S\<lparr>kern := k_thread_priority_set t p (kern S)\<rparr>)"
| lock: "\<not> z_is_in_isr (kern S) \<Longrightarrow> current (kern S) \<noteq> idle_thread (kern S) \<Longrightarrow>
    sched_locked (threads (kern S) (current (kern S))) \<noteq> 1 \<Longrightarrow>
    sys_step S SchedLock (S\<lparr>kern := k_sched_lock (kern S)\<rparr>)"
| unlock: "\<not> z_is_in_isr (kern S) \<Longrightarrow> current (kern S) \<noteq> idle_thread (kern S) \<Longrightarrow>
    sched_locked (threads (kern S) (current (kern S))) \<noteq> 0 \<Longrightarrow>
    sys_step S SchedUnlock (S\<lparr>kern := k_sched_unlock (kern S)\<rparr>)"
| enter: "\<not> z_is_in_isr (kern S) \<Longrightarrow> sys_step S EnterIsr (S\<lparr>kern := irq_enter (kern S)\<rparr>)"
| exit: "z_is_in_isr (kern S) \<Longrightarrow> sys_step S ExitIsr (S\<lparr>kern := irq_exit (kern S)\<rparr>)"
| timer: "\<not> z_is_in_isr (kern S) \<Longrightarrow> timer_irq ticks (kern S) = Some k' \<Longrightarrow>
    sys_step S (TimerIrq ticks) (S\<lparr>kern := k'\<rparr>)"

text \<open>The sequences of steps of a labelled step relation.\<close>

inductive run :: "('s \<Rightarrow> 'e \<Rightarrow> 's \<Rightarrow> bool) \<Rightarrow> 's \<Rightarrow> 'e list \<Rightarrow> 's \<Rightarrow> bool" for step where
  run_nil: "run step S [] S"
| run_snoc: "run step S es S' \<Longrightarrow> step S' e S'' \<Longrightarrow> run step S (es @ [e]) S''"

lemma run_one: "step S e S' \<Longrightarrow> run step S [e] S'"
  using run_snoc [OF run_nil, of step S e S'] by simp

text \<open>
  The kernel has started: the main thread runs and is alone in the run queue, nothing waits, and the semaphores,
  on wait queues of their own, hold no more than their limits.
\<close>

definition booted :: "system \<Rightarrow> bool" where
  "booted S \<longleftrightarrow> (let k = kern S; c = current k in
     c \<noteq> idle_thread k \<and> nested k = 0 \<and> ready_cache k = c \<and> made S = {c} \<and> timeout_list k = []
     \<and> qlists k = (\<lambda>_. [])(RunQ := [c]) \<and> tstate k c = {F_QUEUED} \<and> tstate k (idle_thread k) = {}
     \<and> is_preempt k (idle_thread k) \<and> (\<forall>t. pended_on (threads k t) = None) \<and> (\<forall>t. t \<noteq> c \<longrightarrow> F_QUEUED \<notin> tstate k t)
     \<and> (\<forall>i. sem_count (sems S i) \<le> sem_limit (sems S i)) \<and> inj (\<lambda>i. sem_wait_q (sems S i)))"

definition system_ok :: "system \<Rightarrow> bool" where
  "system_ok S \<longleftrightarrow> kernel_ok (made S) (kern S) \<and> nested (kern S) \<le> 1
     \<and> (\<forall>i. sem_inv (sems S i) (kern S)) \<and> inj (\<lambda>i. sem_wait_q (sems S i))"

lemma booted_ok: "booted S \<Longrightarrow> system_ok S"
proof -
  assume "booted S"
  note b = this [unfolded booted_def Let_def]
  let ?k = "kern S"
  have q: "queues_ok ?k" using b by (auto simp: queues_ok_def ready_def2 z_is_t1_higher_prio_than_t2_def)
  have "sched_inv (made S) ?k"
    using b q by (auto simp: sched_inv_def base_inv_def in_use_def ready_def2 z_is_thread_prevented_from_running_def)
  moreover have "cache_ok ?k" using b by (simp add: cache_ok_def next_up_def z_priq_dumb_best_def)
  ultimately show ?thesis using b by (auto simp: system_ok_def kernel_ok_def sem_inv_def)
qed

text \<open>The calls that are not about semaphores make nobody wait, and return in the mode they were called in.\<close>

lemmas call_defs = k_yield_def k_sleep_def k_wakeup_def k_thread_suspend_def z_thread_single_suspend_def k_thread_resume_def
  z_thread_single_resume_def k_thread_start_def schedule_new_thread_def k_thread_create_def k_thread_priority_set_def
  z_thread_priority_set_def k_sched_lock_def z_sched_lock_def k_sched_unlock_def

lemma call_nested [simp]:
  "nested (k_yield k) = nested k" "nested (snd (k_sleep d k)) = nested k" "nested (k_wakeup t k) = nested k"
  "nested (k_thread_suspend t k) = nested k" "nested (k_thread_resume t k) = nested k" "nested (k_thread_start t k) = nested k"
  "nested (k_thread_priority_set t p k) = nested k" "nested (k_sched_lock k) = nested k" "nested (k_sched_unlock k) = nested k"
  "nested (snd (k_thread_create t stk sz e p1 p2 p3 pr opt delay h)) = nested h"
  using abort_thread_timeout_sel(5) [of t k]
  by (auto simp: call_defs Let_def simp del: abort_thread_timeout_sel(5) split: prod.split)

lemma call_waiters:
  "set (waitq (k_yield k) w) \<subseteq> set (waitq k w)" "set (waitq (snd (k_sleep d k)) w) \<subseteq> set (waitq k w)"
  "set (waitq (k_wakeup t k) w) \<subseteq> set (waitq k w)"
  "set (waitq (k_thread_suspend t k) w) \<subseteq> set (waitq k w)" "set (waitq (k_thread_resume t k) w) \<subseteq> set (waitq k w)"
  "set (waitq (k_thread_start t k) w) \<subseteq> set (waitq k w)"
  "set (waitq (k_thread_priority_set t p k) w) \<subseteq> set (waitq k w)" "set (waitq (k_sched_lock k) w) \<subseteq> set (waitq k w)"
  "set (waitq (k_sched_unlock k) w) \<subseteq> set (waitq k w)"
  "set (waitq (snd (k_thread_create t stk sz e p1 p2 p3 pr opt delay h)) w) \<subseteq> set (waitq h w)"
  using abort_thread_timeout_sel(2) [of t k]
  by (auto simp: call_defs Let_def simp del: abort_thread_timeout_sel(2) dest: set_remove1_subset [THEN subsetD] split: prod.split)

lemma sem_inv_shrink: "sem_inv s k \<Longrightarrow> set (waitq k' (sem_wait_q s)) \<subseteq> set (waitq k (sem_wait_q s)) \<Longrightarrow> sem_inv s k'"
  by (cases "waitq k (sem_wait_q s)") (simp_all add: sem_inv_def)

lemma system_ok_kern:
  assumes ok: "system_ok S" and k: "kernel_ok X k'" and n: "nested k' \<le> 1"
    and w: "\<And>w. set (waitq k' w) \<subseteq> set (waitq (kern S) w)"
  shows "system_ok (S\<lparr>kern := k', made := X\<rparr>)"
proof -
  have "sem_inv (sems S i) k'" for i
    using ok by (intro sem_inv_shrink [OF _ w]) (simp add: system_ok_def)
  then show ?thesis using ok k n by (simp add: system_ok_def)
qed

text \<open>A semaphore and the kernel change together.\<close>

lemma system_ok_sem:
  assumes ok: "system_ok S" and k: "kernel_ok (made S) k'" and n: "nested k' \<le> 1"
    and s: "sem_inv s' k'" "sem_wait_q s' = sem_wait_q (sems S i)"
    and w: "\<And>w. w \<noteq> sem_wait_q (sems S i) \<Longrightarrow> set (waitq k' w) \<subseteq> set (waitq (kern S) w)"
  shows "system_ok (S\<lparr>kern := k', sems := (sems S)(i := s')\<rparr>)"
proof -
  have i: "inj (\<lambda>i. sem_wait_q (sems S i))" using ok by (simp add: system_ok_def)
  have "sem_inv (((sems S)(i := s')) j) k'" for j
  proof (cases "j = i")
    case False
    then have "set (waitq k' (sem_wait_q (sems S j))) \<subseteq> set (waitq (kern S) (sem_wait_q (sems S j)))"
      using injD [OF i, of j i] by (intro w) blast
    then show ?thesis using ok False sem_inv_shrink [of "sems S j" "kern S" k'] by (simp add: system_ok_def)
  qed (use s in simp)
  moreover have "(\<lambda>j. sem_wait_q (((sems S)(i := s')) j)) = (\<lambda>j. sem_wait_q (sems S j))" using s(2) by auto
  ultimately show ?thesis using i k n by (simp add: system_ok_def)
qed

lemma system_ok_upd: "system_ok (S\<lparr>kern := k', made := made S\<rparr>) \<Longrightarrow> system_ok (S\<lparr>kern := k'\<rparr>)"
  by (simp add: system_ok_def)

lemma system_okD:
  assumes "system_ok S"
  shows "kernel_ok (made S) (kern S)" and "\<not> z_is_in_isr (kern S) \<Longrightarrow> nested (kern S) = 0"
    and "t \<in> made S \<Longrightarrow> t \<noteq> idle_thread (kern S) \<Longrightarrow> in_use (kern S) t" and "nested (kern S) \<le> 1"
    and "sem_inv (sems S i) (kern S)" and "inj (\<lambda>i. sem_wait_q (sems S i))"
  using assms sched_invD(4) [OF kernel_okD(1), of "made S" "kern S" t] by (simp_all add: system_ok_def z_is_in_isr_def)

lemma call_ok:
  assumes "system_ok S" and "kernel_ok (made S) k'" and "nested k' = nested (kern S)"
    and "\<And>w. set (waitq k' w) \<subseteq> set (waitq (kern S) w)"
  shows "system_ok (S\<lparr>kern := k'\<rparr>)"
  using system_okD(4) [OF assms(1)] assms(3) by (intro system_ok_upd system_ok_kern [OF assms(1,2) _ assms(4)]) simp

lemma give_step_ok:
  assumes ok: "system_ok S" and g: "k_sem_give (sems S i) (kern S) = (s', k')"
  shows "system_ok (S\<lparr>kern := k', sems := (sems S)(i := s')\<rparr>)"
proof -
  let ?s = "sems S i" and ?k = "kern S"
  have k: "kernel_ok (made S) ?k" and i: "sem_inv ?s ?k" and n: "nested ?k \<le> 1" using ok by (simp_all add: system_ok_def)
  have e: "s' = fst (k_sem_give ?s ?k)" "k' = snd (k_sem_give ?s ?k)" using g by simp_all
  note G = sem_give_ok [OF k, of ?s, folded e] and C = sem_give_count [of ?s ?k, folded e]
  have le: "sem_count ?s \<le> sem_limit ?s" using i by (simp add: sem_inv_def)
  have w: "waitq k' (sem_wait_q s') = tl (waitq ?k (sem_wait_q ?s))" using G(2,3) by simp
  have "sem_inv s' k'"
  proof (cases "waitq ?k (sem_wait_q ?s)")
    case Nil
    then show ?thesis using C [OF le] w le by (simp add: sem_inv_def word_le_nat_alt)
  next
    case (Cons t ts)
    then have "unat (sem_count s') = 0" using C(1) [OF le] i by (simp add: sem_inv_def)
    then show ?thesis using C(2) [OF le] by (simp add: sem_inv_def unat_eq_0)
  qed
  then show ?thesis using G n by (intro system_ok_sem [OF ok]) simp_all
qed

lemma take_step_ok:
  assumes ok: "system_ok S"
    and g: "z_is_in_isr (kern S) \<or> current (kern S) = idle_thread (kern S) \<longrightarrow> timeout = K_NO_WAIT"
    and r: "k_sem_take (sems S i) timeout (kern S) = (r, s', k')"
  shows "system_ok (S\<lparr>kern := k', sems := (sems S)(i := s')\<rparr>)"
proof -
  let ?s = "sems S i" and ?k = "kern S"
  have k: "kernel_ok (made S) ?k" and i: "sem_inv ?s ?k" and n: "nested ?k \<le> 1" using ok by (simp_all add: system_ok_def)
  have g': "nested ?k \<noteq> 0 \<or> current ?k = idle_thread ?k \<Longrightarrow> timeout = K_NO_WAIT" using g by (simp add: z_is_in_isr_def)
  note T = sem_take_ok [OF k g' r]
  have "unat (sem_count s') \<le> unat (sem_count ?s)" using T(7) by linarith
  moreover have "sem_count ?s = 0" if "waitq k' (sem_wait_q ?s) \<noteq> []"
    using that T(6) i by (cases "waitq ?k (sem_wait_q ?s)") (simp_all add: sem_inv_def)
  ultimately have "sem_inv s' k'" using i T(2,3) by (auto simp: sem_inv_def word_le_nat_alt unat_eq_0)
  then show ?thesis using T n by (intro system_ok_sem [OF ok]) simp_all
qed

lemma sys_step_ok:
  assumes "sys_step S e S'" and "system_ok S"
  shows "system_ok S'"
  using assms
proof (induction rule: sys_step.induct)
  case (give S i s' k')
  then show ?case by (intro give_step_ok)
next
  case (take S timeout i r s' k')
  then show ?case by (intro take_step_ok)
next
  case (reset S i)
  note D = system_okD [OF reset]
  have "sem_inv (k_sem_reset (sems S i)) (kern S)" using D(5) [of i] by (simp add: sem_inv_def k_sem_reset_def)
  with D show ?case using system_ok_sem [OF reset D(1), of "k_sem_reset (sems S i)" i] by (simp add: k_sem_reset_def)
next
  case (abort t S fn)
  note D = system_okD [OF abort(4)]
  note I = sched_invD [OF kernel_okD(1) [OF D(1)]] and u = D(3) [OF abort(1,2)]
  have "set (waitq (k_thread_abort fn t (kern S)) w) \<subseteq> set (waitq (kern S) w)" for w
    using abort(3) by (auto simp: k_thread_abort_def z_thread_single_abort_def Let_def dest: set_remove1_subset [THEN subsetD])
  moreover have "nested (k_thread_abort fn t (kern S)) = nested (kern S)"
    by (simp add: k_thread_abort_def single_abort_state(6) [OF I(2) u I(3) abort(3)])
  ultimately show ?case using abort_ok [OF D(1) u abort(3)] by (intro call_ok [OF abort(4)])
next
  case (create S t stack stack_size entry p1 p2 p3 priority options delay t' k')
  note D = system_okD [OF create(4)]
  have e: "k' = snd (k_thread_create t stack stack_size entry p1 p2 p3 priority options delay (kern S))"
    using create(3) by simp
  have "kernel_ok (insert t (made S)) k'" unfolding e by (rule create_ok [OF D(1) create(2)])
  moreover have "nested k' = nested (kern S)" "\<And>w. set (waitq k' w) \<subseteq> set (waitq (kern S) w)"
    unfolding e using call_waiters(10) by simp_all
  ultimately show ?case using D(4) by (intro system_ok_kern [OF create(4)]) simp_all
next
  case (exit S)
  note D = system_okD [OF exit(2)]
  have n: "nested (kern S) = 1" using D(4) exit(1) by (simp add: z_is_in_isr_def)
  show ?case using kernel_ok_irq(2) [OF D(1) n] n
    by (intro system_ok_upd system_ok_kern [OF exit(2)]) (simp_all add: irq_exit_def Let_def)
next
  case (timer S ticks k')
  note D = system_okD [OF timer(3)]
  from timer_irq_ok [OF D(1) D(2) [OF timer(1)] timer(2)] show ?case
    by (intro system_ok_upd system_ok_kern [OF timer(3)]) simp_all
next
  case (enter S)
  note D = system_okD [OF enter(2)]
  show ?case using kernel_ok_irq(1) [OF D(1)] D(2) [OF enter(1)]
    by (intro system_ok_upd system_ok_kern [OF enter(2)]) (simp_all add: irq_enter_def)
next
  case (yielding S)
  note D = system_okD [OF yielding(2)]
  show ?case by (rule call_ok [OF yielding(2) yield_ok [OF D(1) D(2) [OF yielding(1)]] _ call_waiters(1)]) simp
next
  case (sleep S duration)
  note D = system_okD [OF sleep(4)]
  show ?case by (rule call_ok [OF sleep(4) sleep_ok [OF D(1) D(2) [OF sleep(1)] sleep(2)] _ call_waiters(2)]) simp
next
  case (wakeup S t)
  show ?case by (rule call_ok [OF wakeup wakeup_ok [OF system_okD(1) [OF wakeup]] _ call_waiters(3)]) simp
next
  case (suspend t S)
  note D = system_okD [OF suspend(3)]
  show ?case by (rule call_ok [OF suspend(3) suspend_ok [OF D(1) D(3) [OF suspend(1,2)]] _ call_waiters(4)]) simp
next
  case (resume t S)
  note D = system_okD [OF resume(4)]
  show ?case by (rule call_ok [OF resume(4) resume_ok [OF D(1) D(3) [OF resume(1,2)] resume(3)] _ call_waiters(5)]) simp
next
  case (start t S)
  note D = system_okD [OF start(3)]
  show ?case by (rule call_ok [OF start(3) start_ok [OF D(1) D(3) [OF start(1,2)]] _ call_waiters(6)]) simp
next
  case (set_priority S t p)
  note D = system_okD [OF set_priority(4)]
  show ?case
    by (rule call_ok [OF set_priority(4) priority_set_ok [OF D(1) D(2) [OF set_priority(1)] D(3) [OF set_priority(2,3)]]
          _ call_waiters(7)]) simp
next
  case (lock S)
  note D = system_okD [OF lock(4)]
  show ?case by (rule call_ok [OF lock(4) sched_lock_ok [OF D(1) D(2) [OF lock(1)] lock(2,3)] _ call_waiters(8)]) simp
next
  case (unlock S)
  note D = system_okD [OF unlock(4)]
  show ?case by (rule call_ok [OF unlock(4) sched_unlock_ok [OF D(1) D(2) [OF unlock(1)] unlock(2)] _ call_waiters(9)]) simp
qed

section \<open>Every sequence of calls\<close>

text \<open>
  What holds at the start and is kept by every step holds after every sequence of steps, and what a step adds to a
  stock is bounded by what its label says it brings and takes.
\<close>

locale invariant_system =
  fixes init :: "'s \<Rightarrow> bool" and step :: "'s \<Rightarrow> 'e \<Rightarrow> 's \<Rightarrow> bool" and inv :: "'s \<Rightarrow> bool"
  assumes init_inv: "init S \<Longrightarrow> inv S" and step_inv: "inv S \<Longrightarrow> step S e S' \<Longrightarrow> inv S'"
begin

lemma run_inv: "run step S es S' \<Longrightarrow> init S \<Longrightarrow> inv S'"
  by (induction rule: run.induct) (auto intro: init_inv step_inv)

lemma run_balance:
  fixes stock :: "'s \<Rightarrow> nat"
  assumes "\<And>S e S'. inv S \<Longrightarrow> step S e S' \<Longrightarrow> stock S' + out e \<le> stock S + inn e"
    and "run step S es S'" and "init S"
  shows "stock S' + sum_list (map out es) \<le> stock S + sum_list (map inn es)"
  using assms(2,3)
proof (induction rule: run.induct)
  case (run_snoc S es S' e S'')
  have "inv S'" by (rule run_inv [OF run_snoc(1,4)])
  from assms(1) [OF this run_snoc(2)] run_snoc(3) [OF run_snoc(4)] show ?case by simp
qed simp

end

interpretation kernel_calls: invariant_system booted sys_step system_ok
  by unfold_locales (auto intro: booted_ok sys_step_ok)

fun given :: "nat \<Rightarrow> event \<Rightarrow> nat" where
  "given i (SemGive j r) = (if i = j then 1 else 0)"
| "given i _ = 0"

fun acquired :: "nat \<Rightarrow> event \<Rightarrow> nat" where
  "acquired i (SemGive j ts) = (if i = j then card ts else 0)"
| "acquired i (SemTake j r) = (if i = j \<and> r = Done 0 then 1 else 0)"
| "acquired i _ = 0"

lemma step_units:
  assumes "system_ok S" and "sys_step S e S'"
  shows "unat (sem_count (sems S' i)) + acquired i e \<le> unat (sem_count (sems S i)) + given i e"
  using assms(2,1)
proof (induction rule: sys_step.induct)
  case (give S j s' k')
  have "sem_count (sems S j) \<le> sem_limit (sems S j)" using system_okD(5) [OF give(2)] by (simp add: sem_inv_def)
  from sem_give_count(1) [OF this, of "kern S"] give(1)
  have c: "unat (sem_count s') = (if waitq (kern S) (sem_wait_q (sems S j)) = []
      then min (unat (sem_count (sems S j)) + 1) (unat (sem_limit (sems S j))) else unat (sem_count (sems S j)))" by simp
  have "card (set ts - set (tl ts)) \<le> (if ts = [] then 0 else 1)" for ts :: "tid list"
  proof (cases ts)
    case (Cons t us)
    then have "set ts - set (tl ts) \<subseteq> {t}" by auto
    then have "card (set ts - set (tl ts)) \<le> card {t}" by (intro card_mono) simp_all
    then show ?thesis using Cons by simp
  qed simp
  moreover have "waitq k' (sem_wait_q (sems S j)) = tl (waitq (kern S) (sem_wait_q (sems S j)))"
    using sem_give_ok(3) [OF system_okD(1) [OF give(2)], of "sems S j" "sem_wait_q (sems S j)"] give(1) by simp
  ultimately have "card (unpended_by (sems S j) (kern S) k') \<le> (if waitq (kern S) (sem_wait_q (sems S j)) = [] then 0 else 1)"
    unfolding unpended_by_def by metis
  then show ?case using c by (simp split: if_splits)
next
  case (take S timeout j r s' k')
  have "unat (sem_count s') + (if r = Done 0 then 1 else 0) = unat (sem_count (sems S j))"
    using take(1) by (intro sem_take_ok(7) [OF system_okD(1) [OF take(3)] _ take(2)]) (auto simp: z_is_in_isr_def)
  then show ?case by (simp split: if_splits)
qed (simp_all add: k_sem_reset_def)

lemma system_runs:
  assumes "booted S\<^sub>0" and "run sys_step S\<^sub>0 es S" and "t \<in> made S" and "t \<noteq> idle_thread (kern S)"
  shows "queues_ok (kern S)" and "z_is_thread_ready (kern S) t \<Longrightarrow> t \<in> set (runq (kern S))"
    and "F_PENDING \<in> tstate (kern S) t \<Longrightarrow> \<exists>w. t \<in> set (waitq (kern S) w)" and "sem_inv (sems S i) (kern S)"
proof -
  note D = system_okD [OF kernel_calls.run_inv [OF assms(2,1)]]
  note u = D(3) [OF assms(3,4)]
  show q: "queues_ok (kern S)" by (rule sched_invD(2) [OF kernel_okD(1) [OF D(1)]])
  show "z_is_thread_ready (kern S) t \<Longrightarrow> t \<in> set (runq (kern S))" using u by (simp add: in_use_def)
  show "\<exists>w. t \<in> set (waitq (kern S) w)" if "F_PENDING \<in> tstate (kern S) t"
    using u that queues_okD(3) [OF q, of t] by (auto simp: in_use_def)
  show "sem_inv (sems S i) (kern S)" by (rule D(5))
qed

lemma system_best:
  assumes "system_ok S" and "\<not> z_is_in_isr (kern S)"
  shows "(current (kern S) = idle_thread (kern S) \<longrightarrow> runq (kern S) = [])
    \<and> (current (kern S) \<noteq> idle_thread (kern S) \<longrightarrow>
         current (kern S) \<in> set (runq (kern S)) \<and> z_is_thread_ready (kern S) (current (kern S)))
    \<and> (is_preempt (kern S) (current (kern S)) \<longrightarrow>
         (\<forall>t\<in>set (runq (kern S)). tprio (kern S) (current (kern S)) \<le> tprio (kern S) t))"
proof -
  let ?k = "kern S"
  note D = system_okD [OF assms(1)]
  note n = D(2) [OF assms(2)] and K = kernel_okD [OF D(1)]
  note I = sched_invD [OF K(1)] and r = running_queued [OF D(1) D(2) [OF assms(2)]]
  have best: "next_up ?k = current ?k" if "is_preempt ?k (current ?k)"
    using that K(2) K(3) [OF n] by (auto simp: cache_ok_def should_preempt_def)
  have "runq ?k = []" if "current ?k = idle_thread ?k"
    using best base_invD(5) [OF I(1)] that queues_okD(7) [OF I(2), of RunQ]
    by (auto simp: next_up_def z_priq_dumb_best_def split: list.splits)
  moreover have "\<forall>t\<in>set (runq ?k). tprio ?k (current ?k) \<le> tprio ?k t" if "is_preempt ?k (current ?k)"
    using next_up_best [OF I(2)] best [OF that] by simp
  ultimately show ?thesis using r queues_okD(5) [OF I(2)] by auto
qed

text \<open>
  C8. After every sequence of calls of the scheduler, thread, semaphore and clock functions and of interrupts, except
  \<^verbatim>\<open>k_thread_resume\<close> of a thread that is ready, no thread is lost: a created thread that is ready is in the run queue, one
  that is pending is on a wait queue, the queues are in order, and every semaphore holds no more than its limit and nothing while
  threads wait for it. (The excepted call corrupts the run queue.)\<close>

theorem no_thread_lost:
  assumes "booted S\<^sub>0" and "run sys_step S\<^sub>0 es S"
  shows "queues_ok (kern S) \<and> (\<forall>i. sem_inv (sems S i) (kern S))
    \<and> (\<forall>t\<in>made S. t \<noteq> idle_thread (kern S) \<longrightarrow>
         (z_is_thread_ready (kern S) t \<longrightarrow> t \<in> set (runq (kern S)))
         \<and> (F_PENDING \<in> tstate (kern S) t \<longrightarrow> (\<exists>w. t \<in> set (waitq (kern S) w))))"
proof -
  note D = system_okD [OF kernel_calls.run_inv [OF assms(2,1)]]
  have "queues_ok (kern S)" by (rule sched_invD(2) [OF kernel_okD(1) [OF D(1)]])
  then show ?thesis using system_runs [OF assms] D(5) by blast
qed

text \<open>
  C9. After every sequence of calls of the scheduler, thread, semaphore and clock functions and of interrupts, except
  \<^verbatim>\<open>k_thread_resume\<close> of a thread that is ready, and outside interrupt handlers, the processor is never idle while a thread is ready, the running thread is ready and queued, and, unless it is
  cooperative or holds the scheduler lock, no queued thread has a better priority.\<close>

theorem best_thread_runs:
  assumes "booted S\<^sub>0" and "run sys_step S\<^sub>0 es S" and "\<not> z_is_in_isr (kern S)"
  shows "(current (kern S) = idle_thread (kern S) \<longrightarrow> runq (kern S) = [])
    \<and> (current (kern S) \<noteq> idle_thread (kern S) \<longrightarrow>
         current (kern S) \<in> set (runq (kern S)) \<and> z_is_thread_ready (kern S) (current (kern S)))
    \<and> (is_preempt (kern S) (current (kern S)) \<longrightarrow>
         (\<forall>t\<in>set (runq (kern S)). tprio (kern S) (current (kern S)) \<le> tprio (kern S) t))"
  by (rule system_best [OF kernel_calls.run_inv [OF assms(2,1)] assms(3)])

text \<open>
  C10. Over every sequence of calls of the scheduler, thread, semaphore and clock functions and of interrupts, except
  \<^verbatim>\<open>k_thread_resume\<close> of a thread that is ready, a semaphore lets through at most as many takers as it held at the start and
  was given: those whose take returned 0 at once, and all that a give removed from its wait queue.\<close>

theorem semaphore_conserves_units:
  assumes "booted S\<^sub>0" and "run sys_step S\<^sub>0 es S"
  shows "unat (sem_count (sems S i)) + sum_list (map (acquired i) es)
    \<le> unat (sem_count (sems S\<^sub>0 i)) + sum_list (map (given i) es)"
  by (rule kernel_calls.run_balance [OF step_units assms(2,1)])

text \<open>
  Unlocking the scheduler once switches to the best queued thread even when the running thread has locked it
  more than once, or is cooperative, and so still must not be preempted.\<close>

theorem inner_unlock_preempts:
  assumes "\<not> z_is_in_isr k" and "runq k = t # ts" and "t \<noteq> current k"
  shows "current (k_sched_unlock k) = t
    \<and> sched_locked (threads (k_sched_unlock k) (current k)) = sched_locked (threads k (current k)) + 1"
proof -
  have "next_up (upd_thread (current k) (\<lambda>th. th\<lparr>sched_locked := sched_locked th + 1\<rparr>) k) = t"
    using assms(2) by (simp add: next_up_def z_priq_dumb_best_def)
  then show ?thesis using assms(1)
    by (simp add: k_sched_unlock_def z_reschedule_def z_is_in_isr_def update_cache_choice should_preempt_def)
qed

text \<open>
  Setting a priority while the running thread holds the scheduler lock leaves the best queued thread as the cached choice; the call
  itself does not switch, but the next interrupt preempts the running thread although it still holds the lock.\<close>

theorem locked_priority_set_preempts:
  assumes "nested k = 0" and "sched_locked (threads k (current k)) \<noteq> 0" and "z_is_thread_ready k t"
    and "runq (k_thread_priority_set t p k) = u # us" and "u \<noteq> current k"
  shows "let k' = k_thread_priority_set t p k in current k' = current k
    \<and> current (irq_exit (irq_enter k')) = u \<and> sched_locked (threads (irq_exit (irq_enter k')) (current k)) \<noteq> 0"
proof -
  let ?k = "update_cache True (z_priq_dumb_add RunQ t (upd_thread t (\<lambda>th. th\<lparr>prio := s8 p\<rparr>) (z_priq_dumb_remove t k)))"
  have l: "sched_locked (threads ?k (current k)) = sched_locked (threads k (current k))" "current ?k = current k" "nested ?k = nested k"
    by simp_all
  have e: "k_thread_priority_set t p k = ?k"
    using assms(2,3) l by (simp add: k_thread_priority_set_def z_thread_priority_set_def Let_def)
  have "ready_cache ?k = next_up ?k" by (rule cache_best_update)
  also have "\<dots> = u" using assms(4) unfolding e by (simp add: next_up_def z_priq_dumb_best_def)
  finally have "ready_cache ?k = u" .
  then show ?thesis unfolding e Let_def
    using assms(1,2,5) l by (simp add: irq_exit_def irq_enter_def Let_def del: update_cache_sel priq_sel)
qed

section \<open>An example system\<close>

text \<open>Thread 4 runs, semaphore 0 holds one unit of at most two, and the others none.\<close>

definition demo_system :: system where
  "demo_system = \<lparr>kern = demo_threads\<lparr>threads := (\<lambda>_. base_thread)(4 := base_thread\<lparr>thread_state := {F_QUEUED}\<rparr>),
       qlists := (\<lambda>_. [])(RunQ := [4])\<rparr>,
     sems = (\<lambda>i. \<lparr>sem_count = (if i = 0 then 1 else 0), sem_limit = 2, sem_wait_q = i\<rparr>), made = {4}\<rparr>"

lemma demo_cache: "ready_cache demo_threads = 4"
  by (simp add: demo_threads_def kernel.defs demo_kernel_def)

lemma demo_booted: "booted demo_system"
  by (auto simp: booted_def Let_def demo_system_def demo_threads_sel demo_cache base_thread_def is_preempt_def preempt_def
      inj_def)

text \<open>It waits for semaphore 1, and is woken by a give.\<close>

lemma demo_runs:
  "\<exists>S. run sys_step demo_system [SemTake 1 Blocked] S \<and> \<not> z_is_in_isr (kern S) \<and> made S = {4} \<and> idle_thread (kern S) = 0"
  "\<exists>S. run sys_step demo_system [SemTake 1 Blocked, SemGive 1 {4}] S"
proof -
  define k where "k = z_pend_curr (Some 1) 30 (kern demo_system)"
  define S where "S = demo_system\<lparr>kern := k, sems := (sems demo_system)(1 := sems demo_system 1)\<rparr>"
  have "sys_step demo_system (SemTake 1 Blocked) S" unfolding S_def
    by (rule sys_step.take [where timeout = 30])
      (simp_all add: k_def k_sem_take_def demo_system_def demo_threads_sel z_is_in_isr_def K_NO_WAIT_def)
  then have r: "run sys_step demo_system [SemTake 1 Blocked] S" by (rule run_one)
  have "queues_ok (kern demo_system)" using booted_ok [OF demo_booted] sched_invD(2) kernel_okD(1) system_okD(1) by blast
  then have w: "waitq k 1 = [4]" "sem_wait_q (sems S 1) = 1"
    by (simp_all add: k_def S_def z_pend_curr_def pend_lists demo_system_def demo_threads_sel)
  have "\<not> z_is_in_isr k" "idle_thread k = 0" "made demo_system = {4}"
    by (simp_all add: k_def z_pend_curr_def z_is_in_isr_def demo_system_def demo_threads_sel)
  with r show "\<exists>S. run sys_step demo_system [SemTake 1 Blocked] S \<and> \<not> z_is_in_isr (kern S) \<and> made S = {4} \<and> idle_thread (kern S) = 0"
    by (intro exI [of _ S]) (simp add: S_def)
  have kS: "kern S = k" by (simp add: S_def)
  have "kernel_ok (made S) k" using system_okD(1) [OF kernel_calls.run_inv [OF r demo_booted]] by (simp add: kS)
  from sem_give_ok(3) [OF this, of "sems S 1" 1] have "unpended_by (sems S 1) k (snd (k_sem_give (sems S 1) k)) = {4}"
    by (simp add: unpended_by_def w [simplified])
  then have "\<exists>S'. sys_step S (SemGive 1 {4}) S'"
    using sys_step.give [of S 1 "fst (k_sem_give (sems S 1) k)" "snd (k_sem_give (sems S 1) k)"] by (auto simp: kS)
  with r show "\<exists>S. run sys_step demo_system [SemTake 1 Blocked, SemGive 1 {4}] S"
    using run_snoc [of sys_step demo_system "[SemTake 1 Blocked]" S "SemGive 1 {4}"] by auto
qed

theorem no_thread_lost_witness:
  "\<exists>S. run sys_step demo_system [SemTake 1 Blocked] S \<and> queues_ok (kern S) \<and> sem_inv (sems S 1) (kern S)
     \<and> (z_is_thread_ready (kern S) 4 \<longrightarrow> 4 \<in> set (runq (kern S)))"
proof -
  obtain S where S: "run sys_step demo_system [SemTake 1 Blocked] S" "made S = {4}" "idle_thread (kern S) = 0"
    using demo_runs(1) by blast
  from no_thread_lost [OF demo_booted S(1)] S show ?thesis by auto
qed

theorem best_thread_runs_witness:
  "\<exists>S. run sys_step demo_system [SemTake 1 Blocked] S \<and> (current (kern S) = 0 \<longrightarrow> runq (kern S) = [])"
proof -
  obtain S where S: "run sys_step demo_system [SemTake 1 Blocked] S" "\<not> z_is_in_isr (kern S)" "idle_thread (kern S) = 0"
    using demo_runs(1) by blast
  from best_thread_runs [OF demo_booted S(1,2)] S show ?thesis by auto
qed

theorem semaphore_conserves_units_witness:
  "\<exists>S. run sys_step demo_system [SemTake 1 Blocked, SemGive 1 {4}] S \<and> sem_count (sems S 1) = 0"
proof -
  obtain S where S: "run sys_step demo_system [SemTake 1 Blocked, SemGive 1 {4}] S" using demo_runs(2) by blast
  from semaphore_conserves_units [OF demo_booted S, of 1] S show ?thesis by (auto simp: demo_system_def unat_eq_0)
qed

theorem inner_unlock_preempts_witness:
  "current (k_sched_unlock (demo_kernel\<lparr>threads := (threads demo_kernel)(4 := base_thread\<lparr>sched_locked := 254\<rparr>),
      qlists := (qlists demo_kernel)(RunQ := [5, 4])\<rparr>)) = 5"
  using inner_unlock_preempts [of "demo_kernel\<lparr>threads := (threads demo_kernel)(4 := base_thread\<lparr>sched_locked := 254\<rparr>),
      qlists := (qlists demo_kernel)(RunQ := [5, 4])\<rparr>" 5 "[4]"]
  by (simp add: z_is_in_isr_def demo_sel)

abbreviation demo_locked :: "unit kernel_scheme" where
  "demo_locked \<equiv> demo_kernel\<lparr>threads := (threads demo_kernel)(4 := base_thread\<lparr>thread_state := {F_QUEUED}, sched_locked := 255\<rparr>,
     5 := base_thread\<lparr>thread_state := {F_QUEUED}\<rparr>), qlists := (qlists demo_kernel)(RunQ := [4, 5])\<rparr>"

theorem locked_priority_set_preempts_witness:
  "current demo_locked = 4 \<and> current (irq_exit (irq_enter (k_thread_priority_set 5 (- 1) demo_locked))) = 5"
proof -
  have "runq (k_thread_priority_set 5 (- 1) demo_locked) = [5, 4]"
    by (simp add: k_thread_priority_set_def z_thread_priority_set_def Let_def ready_def2 demo_sel z_is_t1_higher_prio_than_t2_def
        base_thread_def s8_def)
  then show ?thesis using locked_priority_set_preempts [of demo_locked 5 "- 1" 5 "[4]"]
    by (simp add: demo_sel Let_def ready_def2 base_thread_def)
qed

end
