(* ===== verification/KBase64.thy ===== *)
theory KBase64
  imports Prelude
begin

text \<open>
  Base64, \<^verbatim>\<open>lib/os/base64.c\<close>. The source is the list of its bytes, fewer than \<open>2\<^sup>3\<^sup>2\<close>. A call yields its
  return value, what it stores into \<^verbatim>\<open>*olen\<close>, if it does, and the bytes it writes to \<^verbatim>\<open>dst\<close>, in order from
  the start; \<open>dst\<close> says whether that pointer is not null.
\<close>

unbundle bit_operations_syntax

definition base64_enc_map :: "u8 list" where
  "base64_enc_map = [65, 66, 67, 68, 69, 70, 71, 72, 73, 74, 75, 76, 77, 78, 79, 80, 81, 82, 83, 84, 85, 86, 87, 88, 89, 90,
     97, 98, 99, 100, 101, 102, 103, 104, 105, 106, 107, 108, 109, 110, 111, 112, 113, 114, 115, 116, 117, 118, 119, 120, 121, 122,
     48, 49, 50, 51, 52, 53, 54, 55, 56, 57, 43, 47]"

definition base64_dec_map :: "u8 list" where
  "base64_dec_map = [
     127, 127, 127, 127, 127, 127, 127, 127, 127, 127,
     127, 127, 127, 127, 127, 127, 127, 127, 127, 127,
     127, 127, 127, 127, 127, 127, 127, 127, 127, 127,
     127, 127, 127, 127, 127, 127, 127, 127, 127, 127,
     127, 127, 127,  62, 127, 127, 127,  63,  52,  53,
      54,  55,  56,  57,  58,  59,  60,  61, 127, 127,
     127,  64, 127, 127, 127,   0,   1,   2,   3,   4,
       5,   6,   7,   8,   9,  10,  11,  12,  13,  14,
      15,  16,  17,  18,  19,  20,  21,  22,  23,  24,
      25, 127, 127, 127, 127, 127, 127,  26,  27,  28,
      29,  30,  31,  32,  33,  34,  35,  36,  37,  38,
      39,  40,  41,  42,  43,  44,  45,  46,  47,  48,
      49,  50,  51, 127, 127, 127, 127, 127]"

definition BASE64_SIZE_T_MAX :: u32 where "BASE64_SIZE_T_MAX = - 1"

abbreviation ch_eq :: u8 where "ch_eq \<equiv> 61"
abbreviation ch_sp :: u8 where "ch_sp \<equiv> 32"
abbreviation ch_cr :: u8 where "ch_cr \<equiv> 13"
abbreviation ch_lf :: u8 where "ch_lf \<equiv> 10"

section \<open>Encoding\<close>

definition enc_char :: "u32 \<Rightarrow> u8" where
  "enc_char k = base64_enc_map ! unat (k AND 0x3F)"

definition enc_tail :: "u8 list \<Rightarrow> u8 list" where
  "enc_tail src =
     (case src of [] \<Rightarrow> []
      | C1 # rest \<Rightarrow>
          let C1 = ucast C1; C2 = (case rest of [] \<Rightarrow> 0 | C2 # _ \<Rightarrow> ucast C2)
          in [enc_char (drop_bit 2 C1), enc_char (push_bit 4 (C1 AND 3) + drop_bit 4 C2),
              if rest \<noteq> [] then enc_char (push_bit 2 (C2 AND 15)) else ch_eq, ch_eq])"

fun enc_loop :: "u8 list \<Rightarrow> u8 list" where
  "enc_loop (b1 # b2 # b3 # src) =
     (let C1 = ucast b1; C2 = ucast b2; C3 = ucast b3
      in [enc_char (drop_bit 2 C1), enc_char (push_bit 4 (C1 AND 3) + drop_bit 4 C2),
          enc_char (push_bit 2 (C2 AND 15) + drop_bit 6 C3), enc_char C3] @ enc_loop src)"
| "enc_loop src = enc_tail src"

definition base64_encode :: "bool \<Rightarrow> u32 \<Rightarrow> u8 list \<Rightarrow> int \<times> u32 option \<times> u8 list" where
  "base64_encode dst dlen src =
     (let slen = of_nat (length src) :: u32 in
      if slen = 0 then (0, Some 0, [])
      else let n = slen div 3 + (if slen mod 3 \<noteq> 0 then 1 else 0) in
      if n > (BASE64_SIZE_T_MAX - 1) div 4 then (- ENOMEM, Some BASE64_SIZE_T_MAX, [])
      else let n = n * 4 in
      if dlen < n + 1 \<or> \<not> dst then (- ENOMEM, Some (n + 1), [])
      else let p = enc_loop src in (0, Some (of_nat (length p)), p @ [0]))"

section \<open>Decoding\<close>

text \<open>
  The first pass over the rest of the source, with the number \<open>n\<close> of characters so far and \<open>j\<close> of padding
  characters; they do not exceed the length of the source.
\<close>

lemma dropWhile_shorter: "dropWhile P xs = c # cs \<Longrightarrow> length cs < length xs"
  using length_dropWhile_le [of P xs] by simp

function dec_check :: "u8 list \<Rightarrow> nat \<Rightarrow> nat \<Rightarrow> int + nat \<times> nat" where
  "dec_check src n j =
     (let x = length (takeWhile ((=) ch_sp) src) in
      case dropWhile ((=) ch_sp) src of [] \<Rightarrow> Inr (n, j)
      | c # cs \<Rightarrow>
          if c = ch_cr \<and> cs \<noteq> [] \<and> hd cs = ch_lf then dec_check cs n j
          else if c = ch_lf then dec_check cs n j
          else if x \<noteq> 0 then Inl (- EINVAL)
          else let j = (if c = ch_eq then j + 1 else j) in
          if c = ch_eq \<and> j > 2 then Inl (- EINVAL)
          else if c > 127 \<or> base64_dec_map ! unat c = 127 then Inl (- EINVAL)
          else if base64_dec_map ! unat c < 64 \<and> j \<noteq> 0 then Inl (- EINVAL)
          else dec_check cs (n + 1) j)"
  by pat_completeness auto
termination
  by (relation "measure (\<lambda>(src, n, j). length src)") (auto dest: dropWhile_shorter)

declare dec_check.simps [simp del]

fun dec_loop :: "u8 list \<Rightarrow> u32 \<Rightarrow> u32 \<Rightarrow> nat \<Rightarrow> u8 list" where
  "dec_loop [] j x n = []"
| "dec_loop (c # src) j x n =
     (if c = ch_cr \<or> c = ch_lf \<or> c = ch_sp then dec_loop src j x n
      else let v = base64_dec_map ! unat c;
               j = j - (if v = 64 then 1 else 0);
               x = push_bit 6 x OR (ucast v AND 0x3F)
           in if n + 1 = 4
              then (if j > 0 then [ucast (drop_bit 16 x)] else []) @ (if j > 1 then [ucast (drop_bit 8 x)] else [])
                   @ (if j > 2 then [ucast x] else []) @ dec_loop src j x 0
              else dec_loop src j x (n + 1))"

definition dec_size :: "nat \<Rightarrow> nat \<Rightarrow> u32" where
  "dec_size n j = (let n = of_nat n :: u32 in 6 * drop_bit 3 n + drop_bit 3 (6 * (n AND 7) + 7) - of_nat j)"

definition base64_decode :: "bool \<Rightarrow> u32 \<Rightarrow> u8 list \<Rightarrow> int \<times> u32 option \<times> u8 list" where
  "base64_decode dst dlen src =
     (case dec_check src 0 0 of Inl e \<Rightarrow> (e, None, [])
      | Inr (n, j) \<Rightarrow>
          if n = 0 then (0, Some 0, [])
          else let n = dec_size n j in
          if \<not> dst \<or> dlen < n then (- ENOMEM, Some n, [])
          else let p = dec_loop src 3 0 0 in (0, Some (of_nat (length p)), p))"

section \<open>The code\<close>

lemma dec_enc_map: "k < 64 \<Longrightarrow> unat (base64_enc_map ! k) < 128 \<and> base64_dec_map ! unat (base64_enc_map ! k) = of_nat k"
proof -
  have "\<forall>k\<in>set [0..<64]. unat (base64_enc_map ! k) < 128 \<and> base64_dec_map ! unat (base64_enc_map ! k) = of_nat k"
    by code_simp
  then show "k < 64 \<Longrightarrow> ?thesis" by simp
qed

lemma dec_map_range: "\<forall>v\<in>set base64_dec_map. v \<le> 64 \<or> v = 127"
  by code_simp

lemma dec_map_eq: "base64_dec_map ! 61 = 64" and len_dec_map: "length base64_dec_map = 128"
  by code_simp+

lemma dec_map_64: "c < 128 \<Longrightarrow> base64_dec_map ! c = 64 \<longleftrightarrow> c = 61"
proof -
  have "\<forall>c\<in>set [0..<128]. base64_dec_map ! c = 64 \<longleftrightarrow> c = 61" by code_simp
  then show "c < 128 \<Longrightarrow> ?thesis" by simp
qed

lemma sextet_or:
  "push_bit 4 (ucast a AND 3) + drop_bit 4 (ucast b) = (push_bit 4 (ucast a AND 3) OR drop_bit 4 (ucast b) :: u32)"
  "push_bit 2 (ucast b AND 15) + drop_bit 6 (ucast c) = (push_bit 2 (ucast b AND 15) OR drop_bit 6 (ucast c) :: u32)"
  for a b c :: u8
  by (rule disjunctive_add_eq_or, rule bit_word_eqI, auto simp: bit_simps dest: bit_imp_le_length)+

definition join4 :: "u32 \<Rightarrow> u32 \<Rightarrow> u32 \<Rightarrow> u32 \<Rightarrow> u32 \<Rightarrow> u32" where
  "join4 x k1 k2 k3 k4 = push_bit 6 (push_bit 6 (push_bit 6 (push_bit 6 x OR (k1 AND 0x3F)) OR (k2 AND 0x3F)) OR (k3 AND 0x3F)) OR (k4 AND 0x3F)"

lemma nat_less_8: "n < 8 \<Longrightarrow> n = 0 \<or> n = 1 \<or> n = 2 \<or> n = 3 \<or> n = 4 \<or> n = 5 \<or> n = 6 \<or> n = (7::nat)" by linarith

lemma len_u8: "LENGTH(8) = 8" by simp
lemma join4_bytes:
  fixes a b c :: u8
  shows "ucast (drop_bit 16 (join4 x (drop_bit 2 (ucast a)) (push_bit 4 (ucast a AND 3) + drop_bit 4 (ucast b)) k3 k4)) = a"
    and "ucast (drop_bit 8 (join4 x k1 (push_bit 4 (ucast a AND 3) + drop_bit 4 (ucast b)) (push_bit 2 (ucast b AND 15) + drop_bit 6 (ucast c)) k4)) = b"
    and "ucast (join4 x k1 k2 (push_bit 2 (ucast b AND 15) + drop_bit 6 (ucast c)) (ucast c)) = c"
  unfolding sextet_or join4_def
  by (rule bit_word_eqI, drule nat_less_8 [unfolded len_u8 [symmetric]], elim disjE;
      (simp add: bit_simps)?; (auto simp: eval_nat_numeral dest: bit_imp_le_length; fail)?)+

lemma and_63: "k AND 0x3F = take_bit 6 k" for k :: "'a :: len word"
  by (simp add: take_bit_eq_mask mask_eq_exp_minus_1)

text \<open>A character of the encoding: it is in the decoding table with its value and is no white space.\<close>

lemma enc_char_props:
  shows "unat (enc_char k) < 128" and "base64_dec_map ! unat (enc_char k) = ucast (k AND 0x3F)"
    and "base64_dec_map ! unat (enc_char k) < 64"
    and "enc_char k \<noteq> ch_eq" "enc_char k \<noteq> ch_cr" "enc_char k \<noteq> ch_lf" "enc_char k \<noteq> ch_sp"
proof -
  have l: "unat (k AND 0x3F) < 64" unfolding and_63 using take_bit_nat_less_exp [of 6 "unat k"] by (simp add: unsigned_take_bit_eq)
  note d = dec_enc_map [OF l, folded enc_char_def]
  show "unat (enc_char k) < 128" using d by blast
  show v: "base64_dec_map ! unat (enc_char k) = ucast (k AND 0x3F)" using conjunct2 [OF d] unfolding of_nat_unat .
  have "unat (ucast (k AND 0x3F) :: u8) \<le> unat (k AND 0x3F)"
    by (simp only: unsigned_ucast_eq take_bit_nat_less_eq_self)
  then show s: "base64_dec_map ! unat (enc_char k) < 64" unfolding v using l by (simp add: word_less_nat_alt)
  have "\<not> base64_dec_map ! unat ch_eq < 64" "\<not> base64_dec_map ! unat ch_cr < 64" "\<not> base64_dec_map ! unat ch_lf < 64"
    "\<not> base64_dec_map ! unat ch_sp < 64"
    by code_simp+
  with s show "enc_char k \<noteq> ch_eq" "enc_char k \<noteq> ch_cr" "enc_char k \<noteq> ch_lf" "enc_char k \<noteq> ch_sp" by metis+
qed

section \<open>One character\<close>

lemma check_nil [simp]: "dec_check [] n j = Inr (n, j)"
  by (simp add: dec_check.simps)

lemma check_char [simp]: "dec_check (enc_char k # cs) n 0 = dec_check cs (n + 1) 0"
  using enc_char_props [of k]
  by (subst dec_check.simps) (auto simp: word_less_nat_alt not_less)

lemma check_pad [simp]: "j < 2 \<Longrightarrow> dec_check (ch_eq # cs) n j = dec_check cs (n + 1) (j + 1)"
  by (subst dec_check.simps) (simp add: dec_map_eq)

lemma dec_loop_char:
  "dec_loop (enc_char k # cs) j x n =
     (let x = push_bit 6 x OR (k AND 0x3F)
      in if n + 1 = 4 then (if j > 0 then [ucast (drop_bit 16 x)] else []) @ (if j > 1 then [ucast (drop_bit 8 x)] else [])
           @ (if j > 2 then [ucast x] else []) @ dec_loop cs j x 0
         else dec_loop cs j x (n + 1))"
proof -
  have "ucast (ucast (k AND 0x3F) :: u8) AND 0x3F = k AND 0x3F"
    unfolding and_63 by (rule bit_word_eqI) (auto simp: bit_simps)
  moreover have "(ucast (k AND 0x3F) :: u8) \<noteq> 64" using enc_char_props(2,3) [of k] by auto
  ultimately show ?thesis using enc_char_props(5-7) [of k] by (simp add: enc_char_props(2) Let_def)
qed

lemma dec_loop_pad:
  "dec_loop (ch_eq # cs) j x n =
     (let x = push_bit 6 x; j = j - 1
      in if n + 1 = 4 then (if j > 0 then [ucast (drop_bit 16 x)] else []) @ (if j > 1 then [ucast (drop_bit 8 x)] else [])
           @ (if j > 2 then [ucast x] else []) @ dec_loop cs j x 0
         else dec_loop cs j x (n + 1))"
  by (simp add: dec_map_eq Let_def)

section \<open>Decoding what was encoded\<close>

lemma dec_loop_group:
  "dec_loop ([enc_char k1, enc_char k2, enc_char k3, enc_char k4] @ cs) 3 x 0 =
     [ucast (drop_bit 16 (join4 x k1 k2 k3 k4)), ucast (drop_bit 8 (join4 x k1 k2 k3 k4)), ucast (join4 x k1 k2 k3 k4)]
       @ dec_loop cs 3 (join4 x k1 k2 k3 k4) 0"
  by (simp add: dec_loop_char Let_def join4_def del: dec_loop.simps(2))

lemma enc_loop_length: "length (enc_loop xs) = 4 * ((length xs + 2) div 3)"
proof (induction xs rule: enc_loop.induct)
  case (1 a b c xs)
  have "(length xs + 5) div 3 = (length xs + 2) div 3 + 1" by presburger
  with 1 show ?case by (simp add: Let_def add.commute)
qed (simp_all add: enc_tail_def Let_def)

lemma check_enc: "dec_check (enc_loop xs) n 0 = Inr (n + length (enc_loop xs), (3 - length xs mod 3) mod 3)"
  by (induction xs arbitrary: n rule: enc_loop.induct) (simp_all add: enc_tail_def Let_def)

lemma decode_tail:
  "dec_loop (enc_tail [a]) 3 x 0 = [a]" "dec_loop (enc_tail [a, b]) 3 x 0 = [a, b]"
proof -
  have "dec_loop (enc_tail [a]) 3 x 0 =
      [ucast (drop_bit 16 (join4 x (drop_bit 2 (ucast a)) (push_bit 4 (ucast a AND 3) + drop_bit 4 (ucast (0 :: u8))) 0 0))]"
    by (simp add: enc_tail_def Let_def dec_loop_char dec_loop_pad join4_def del: dec_loop.simps(2))
  then show "dec_loop (enc_tail [a]) 3 x 0 = [a]" by (simp only: join4_bytes)
  let ?j = "join4 x (drop_bit 2 (ucast a)) (push_bit 4 (ucast a AND 3) + drop_bit 4 (ucast b)) (push_bit 2 (ucast b AND 15) + drop_bit 6 (ucast (0 :: u8))) 0"
  have "dec_loop (enc_tail [a, b]) 3 x 0 = [ucast (drop_bit 16 ?j), ucast (drop_bit 8 ?j)]"
    by (simp add: enc_tail_def Let_def dec_loop_char dec_loop_pad join4_def del: dec_loop.simps(2))
  then show "dec_loop (enc_tail [a, b]) 3 x 0 = [a, b]" by (simp only: join4_bytes)
qed

lemma decode_encode: "dec_loop (enc_loop xs) 3 x 0 = xs"
proof (induction xs arbitrary: x rule: enc_loop.induct)
  case (1 a b c xs)
  show ?case unfolding enc_loop.simps Let_def dec_loop_group using 1 by (simp only: join4_bytes append.simps)
qed (simp_all add: decode_tail enc_tail_def [of "[]"])

section \<open>Sizes\<close>

lemma unat_6_7: "unat y < 8 \<Longrightarrow> unat (6 * y + 7) = 6 * unat y + 7" for y :: u32
  by (simp add: unat_word_ariths)

lemma size_formula: "6 * (n div 8) + (6 * (n mod 8) + 7) div 8 = 3 * (n div 4) + n mod 4" for n :: nat
proof -
  define q r where "q = n div 8" and "r = n mod 8"
  have n: "n = r + 4 * (2 * q)" and "r < 8" by (simp_all add: q_def r_def)
  then have "r \<in> {0, 1, 2, 3, 4, 5, 6, 7}" by auto
  moreover have "n div 4 = 2 * q + r div 4" "n mod 4 = r mod 4"
    unfolding n by (simp_all only: div_mult_self2 mod_mult_self2)
  ultimately show ?thesis unfolding q_def [symmetric] r_def [symmetric] by auto
qed

lemma dec_size_nat:
  assumes "n < 2 ^ 32" and "j \<le> 3 * (n div 4) + n mod 4"
  shows "unat (dec_size n j) = 3 * (n div 4) + n mod 4 - j"
proof -
  let ?n = "of_nat n :: u32"
  have u: "unat ?n = n" using assms(1) by (simp add: unat_of_nat take_bit_nat_eq_self)
  have m: "?n AND 7 = take_bit 3 ?n" by (simp add: take_bit_eq_mask mask_eq_exp_minus_1)
  have a: "unat (drop_bit 3 ?n) = n div 8" by (simp add: unat_div u drop_bit_eq_div)
  have b: "unat (?n AND 7) = n mod 8" unfolding m by (simp add: unat_mod u take_bit_eq_mod)
  have c: "unat (6 * (?n AND 7) + 7) = 6 * (n mod 8) + 7"
    by (rule unat_6_7 [of "?n AND 7", unfolded b]) simp
  note e = size_formula [of n]
  have "unat (6 * drop_bit 3 ?n + drop_bit 3 (6 * (?n AND 7) + 7)) = 6 * (n div 8) + (6 * (n mod 8) + 7) div 8"
  proof -
    have "unat (6 * drop_bit 3 ?n) = 6 * (n div 8)"
      using assms(1) a by (simp only: unat_word_ariths) simp
    moreover have "unat (drop_bit 3 (6 * (?n AND 7) + 7)) = (6 * (n mod 8) + 7) div 8"
      unfolding drop_bit_eq_div unat_div c by simp
    ultimately show ?thesis using assms(1) by (subst unat_u32_add) simp_all
  qed
  then have "unat (6 * drop_bit 3 ?n + drop_bit 3 (6 * (?n AND 7) + 7)) = 3 * (n div 4) + n mod 4" using e by simp
  moreover have "unat (of_nat j :: u32) = j" using assms by (simp add: unat_of_nat take_bit_nat_eq_self)
  ultimately show ?thesis using assms(2) by (simp add: dec_size_def Let_def unat_sub word_le_nat_alt)
qed

text \<open>
  How many bytes the second pass has written after \<open>n\<close> characters of which the last \<open>j\<close> are padding: three for a
  group of four, less the padding in it.
\<close>

definition written :: "nat \<Rightarrow> nat \<Rightarrow> nat" where
  "written n j = 3 * (n div 4) - (j - n mod 4)"

lemma dec_loop_spaces: "dec_loop src j x n = dec_loop (dropWhile ((=) ch_sp) src) j x n"
  by (induction src) auto

lemma mod4_cases:
  fixes n :: nat
  obtains q r where "n = 4 * q + r" "r < 4" "n mod 4 = r" "n div 4 = q"
    "(n + 1) mod 4 = (if r = 3 then 0 else r + 1)" "(n + 1) div 4 = (if r = 3 then q + 1 else q)"
proof -
  have "n = 4 * (n div 4) + n mod 4" "n mod 4 < 4" by simp_all
  then show ?thesis by (rule that) (simp_all, presburger+)
qed

lemma written_char: "written (n + 1) 0 = written n 0 + (if n mod 4 + 1 = 4 then 3 else 0)"
  by (rule mod4_cases [of n]) (simp add: written_def)

lemma written_pad:
  assumes "j < 2" and "j \<le> n"
  shows "written (n + 1) (j + 1) = written n j + (if n mod 4 + 1 = 4 then 2 - j else 0)"
  using assms by (rule_tac mod4_cases [of n]) (auto simp: written_def)

lemma written_le:
  assumes "j \<le> 2" and "j \<le> n"
  shows "j \<le> 3 * (n div 4) + n mod 4" and "written n j \<le> 3 * (n div 4) + n mod 4 - j"
proof -
  define q r where "q = n div 4" and "r = n mod 4"
  have "n = 4 * q + r" by (simp add: q_def r_def)
  then show "j \<le> 3 * (n div 4) + n mod 4" "written n j \<le> 3 * (n div 4) + n mod 4 - j"
    using assms unfolding written_def q_def [symmetric] r_def [symmetric] by linarith+
qed

lemma check_cases:
  assumes "dec_check src n j = Inr r"
  obtains (finished) "dropWhile ((=) ch_sp) src = []" "r = (n, j)"
  | (skip) c cs where "dropWhile ((=) ch_sp) src = c # cs" "c = ch_cr \<or> c = ch_lf" "dec_check cs n j = Inr r"
  | (pad) cs where "dropWhile ((=) ch_sp) src = ch_eq # cs" "j < 2" "dec_check cs (n + 1) (j + 1) = Inr r"
  | (chr) c cs where "dropWhile ((=) ch_sp) src = c # cs" "c \<noteq> ch_cr" "c \<noteq> ch_lf" "c \<noteq> ch_sp" "base64_dec_map ! unat c < 64"
      "j = 0" "dec_check cs (n + 1) 0 = Inr r"
proof (cases "dropWhile ((=) ch_sp) src")
  case Nil
  with assms show ?thesis by (intro finished) (simp_all add: dec_check.simps [of src])
next
  case (Cons c cs)
  have sp: "c \<noteq> ch_sp" using Cons hd_dropWhile [of "(=) ch_sp" src] by auto
  note e = assms [unfolded dec_check.simps [of src] Let_def Cons list.case]
  consider (ws) "c = ch_cr \<and> cs \<noteq> [] \<and> hd cs = ch_lf \<or> c = ch_lf" | (eq) "c = ch_eq"
    | (other) "\<not> (c = ch_cr \<and> cs \<noteq> [] \<and> hd cs = ch_lf)" "c \<noteq> ch_lf" "c \<noteq> ch_eq" by blast
  then show ?thesis
  proof cases
    case ws
    with e show ?thesis by (intro skip [OF Cons]) auto
  next
    case eq
    with e have "j < 2" "dec_check cs (n + 1) (j + 1) = Inr r" by (auto split: if_splits)
    with eq Cons show ?thesis by (intro pad) simp_all
  next
    case other
    let ?v = "base64_dec_map ! unat c"
    from e other have v: "\<not> c > 127" "?v \<noteq> 127" "?v < 64 \<longrightarrow> j = 0" "dec_check cs (n + 1) j = Inr r"
      by (auto split: if_splits)
    have l: "unat c < 128" using v(1) by (simp add: word_less_nat_alt not_less)
    then have "?v \<in> set base64_dec_map" by (simp add: len_dec_map)
    then have "?v \<le> 64" using dec_map_range v(2) by blast
    moreover have "?v \<noteq> 64" using dec_map_64 [OF l] other(3) by (simp add: word_unat_eq_iff)
    ultimately have s: "?v < 64" by simp
    moreover have "base64_dec_map ! unat ch_cr = 127" by code_simp
    then have "c \<noteq> ch_cr" using v(2) by metis
    ultimately show ?thesis using v sp other(2) by (intro chr [OF Cons]) simp_all
  qed
qed

lemma check_error:
  assumes "dec_check src n j = Inl e"
  shows "e = - EINVAL"
  using assms
  by (induction src n j rule: dec_check.induct)
    (erule_tac P = "_ = Inl _" in rev_mp, subst dec_check.simps, auto simp: Let_def split: list.splits if_splits)

lemma dec_loop_length:
  assumes "dec_check src n j = Inr (n', j')" and "j \<le> 2" and "j \<le> n"
  shows "length (dec_loop src (3 - of_nat j) x (n mod 4)) + written n j = written n' j' \<and> j' \<le> 2 \<and> j' \<le> n'
    \<and> n' \<le> n + length src"
  using assms
proof (induction "length src" arbitrary: src n j x rule: less_induct)
  case less
  have sp: "dec_loop src (3 - of_nat j) x (n mod 4) = dec_loop (dropWhile ((=) ch_sp) src) (3 - of_nat j) x (n mod 4)"
    by (rule dec_loop_spaces)
  have m: "(n + 1) mod 4 = (if n mod 4 + 1 = 4 then 0 else n mod 4 + 1)" by presburger
  from less.prems(1) show ?case
  proof (cases rule: check_cases)
    case finished
    then show ?thesis unfolding sp finished(1) using less.prems by simp
  next
    case (skip c cs)
    note l = dropWhile_shorter [OF skip(1)]
    from less.hyps [OF l skip(3) less.prems(2,3), of x] show ?thesis unfolding sp skip(1) using skip(2) l by auto
  next
    case (pad cs)
    note l = dropWhile_shorter [OF pad(1)]
    have j: "3 - of_nat (j + 1) = (3 - of_nat j - 1 :: u32)" by simp
    have j2: "j = 0 \<or> j = 1" using pad(2) by linarith
    from less.hyps [OF l pad(3), of "push_bit 6 x"] pad(2) less.prems(3) l
    show ?thesis unfolding sp pad(1) dec_loop_pad Let_def j m written_pad [OF pad(2) less.prems(3)]
      using j2 by (auto split: if_splits)
  next
    case (chr c cs)
    note l = dropWhile_shorter [OF chr(1)]
    let ?x = "push_bit 6 x OR (ucast (base64_dec_map ! unat c) AND 0x3F)"
    have "base64_dec_map ! unat c \<noteq> 64" using chr(5) by auto
    with less.hyps [OF l chr(7), of ?x] l
    show ?thesis unfolding sp chr(1) using chr(2-4,6) m written_char [of n]
      by (auto simp: Let_def split: if_splits)
  qed
qed

section \<open>Correctness\<close>

lemma enc_div3: "n div 3 + (if n mod 3 \<noteq> 0 then 1 else 0) = (n + 2) div 3" for n :: nat
  by presburger

lemma pad3: "3 * ((n + 2) div 3) - (3 - n mod 3) mod 3 = n" "(3 - n mod 3) mod 3 \<le> 3 * ((n + 2) div 3)" for n :: nat
proof -
  define q r where "q = n div 3" and "r = n mod 3"
  have n: "n = r + 3 * q" and "r < 3" by (simp_all add: q_def r_def)
  then have "r \<in> {0, 1, 2}" by auto
  moreover have "n + 2 = (r + 2) + 3 * q" using n by simp
  then have "(n + 2) div 3 = q + (r + 2) div 3" by (simp only: div_mult_self2)
  ultimately show "3 * ((n + 2) div 3) - (3 - n mod 3) mod 3 = n" "(3 - n mod 3) mod 3 \<le> 3 * ((n + 2) div 3)"
    unfolding r_def [symmetric] using n by auto
qed

lemma encode_eq:
  assumes "src \<noteq> []" and "4 * ((length src + 2) div 3) + 1 < 2 ^ 32"
  shows "base64_encode dst dlen src =
    (if unat dlen < 4 * ((length src + 2) div 3) + 1 \<or> \<not> dst then (- ENOMEM, Some (of_nat (4 * ((length src + 2) div 3) + 1)), [])
     else (0, Some (of_nat (length (enc_loop src))), enc_loop src @ [0]))"
proof -
  let ?l = "of_nat (length src) :: u32" and ?n = "(length src + 2) div 3"
  have t: "3 * (length src div 3) \<le> length src" by simp
  have "length src < 3 * ?n + 1" by simp
  then have l: "length src < 2 ^ 32" using assms(2) by linarith
  have u: "unat ?l = length src" using l by (simp add: unat_of_nat take_bit_nat_eq_self)
  have z: "?l mod 3 \<noteq> 0 \<longleftrightarrow> length src mod 3 \<noteq> 0" by (simp add: word_unat_eq_iff unat_mod u)
  have "unat (?l div 3 + (if ?l mod 3 \<noteq> 0 then 1 else 0)) = length src div 3 + (if length src mod 3 \<noteq> 0 then 1 else 0)"
    using l t unfolding z by (subst unat_u32_add) (simp_all add: unat_div u, linarith)
  then have n: "unat (?l div 3 + (if ?l mod 3 \<noteq> 0 then 1 else 0)) = ?n" unfolding enc_div3 .
  define w where "w = ?l div 3 + (if ?l mod 3 \<noteq> 0 then 1 else 0)"
  have w: "unat w = ?n" using n by (simp add: w_def)
  have m: "unat ((BASE64_SIZE_T_MAX - 1) div 4) = 1073741823" by (simp add: BASE64_SIZE_T_MAX_def unat_div)
  have "\<not> w > (BASE64_SIZE_T_MAX - 1) div 4" unfolding word_less_nat_alt m w using assms(2) by simp
  moreover have w4: "unat (w * 4 + 1) = 4 * ?n + 1" using assms(2) by (simp add: unat_word_ariths w)
  then have "dlen < w * 4 + 1 \<longleftrightarrow> unat dlen < 4 * ?n + 1" by (simp add: word_less_nat_alt)
  moreover have "w * 4 + 1 = of_nat (4 * ?n + 1)" using w4 by (metis of_nat_unat ucast_id)
  moreover have "?l \<noteq> 0" using assms(1) u by (metis length_0_conv unat_0)
  ultimately show ?thesis unfolding base64_encode_def Let_def w_def by simp
qed

text \<open>
  C34. Decoding the encoding of some bytes gives the bytes back; the encoding takes four characters for every three
  bytes begun and a terminator.\<close>

theorem base64_roundtrip:
  assumes "src \<noteq> []" and "4 * ((length src + 2) div 3) + 1 \<le> unat dlen" and "length src \<le> unat dlen'"
  shows "\<exists>txt. base64_encode True dlen src = (0, Some (of_nat (length txt)), txt @ [0])
    \<and> length txt = 4 * ((length src + 2) div 3) \<and> base64_decode True dlen' txt = (0, Some (of_nat (length src)), src)"
proof -
  let ?n = "(length src + 2) div 3" and ?j = "(3 - length src mod 3) mod 3"
  have "unat dlen < 2 ^ 32" using unat_u32_less [of dlen] by simp
  then have b1: "4 * ?n + 1 < 2 ^ 32" and b: "4 * ?n < 2 ^ 32" using assms(2) by linarith+
  have c: "dec_check (enc_loop src) 0 0 = Inr (4 * ?n, ?j)" using check_enc [of src 0] by (simp add: enc_loop_length)
  note e = pad3 [of "length src"]
  then have "unat (dec_size (4 * ?n) ?j) = length src" using b by (subst dec_size_nat) simp_all
  then have "\<not> dlen' < dec_size (4 * ?n) ?j" using assms(3) by (simp add: word_less_nat_alt)
  moreover have "?n \<noteq> 0" using assms(1) by (cases src) simp_all
  ultimately have "base64_decode True dlen' (enc_loop src) = (0, Some (of_nat (length src)), src)"
    by (simp add: base64_decode_def c decode_encode Let_def)
  then show ?thesis using encode_eq [OF assms(1), of True dlen] assms(2) b1 enc_loop_length [of src] by (intro exI [of _ "enc_loop src"]) simp
qed

text \<open>
  Decoding any input writes at most \<^verbatim>\<open>dlen\<close> bytes, the number reported in \<^verbatim>\<open>*olen\<close>. When it refuses for want of space it
  writes nothing, and the size it reports is enough for the same input. An invalid input changes nothing, not
  even \<^verbatim>\<open>*olen\<close>.\<close>

theorem base64_decode_bounded:
  assumes "length src < 2 ^ 32" and "base64_decode dst dlen src = (r, ol, out)"
  shows "length out \<le> unat dlen
    \<and> (r = 0 \<and> ol = Some (of_nat (length out))
       \<or> r = - ENOMEM \<and> out = [] \<and> (\<exists>n. ol = Some n \<and> (\<forall>dlen'. n \<le> dlen' \<longrightarrow> fst (base64_decode True dlen' src) = 0))
       \<or> r = - EINVAL \<and> out = [] \<and> ol = None)"
proof (cases "dec_check src 0 0")
  case (Inl e)
  moreover have "e = - EINVAL" using check_error [OF Inl] .
  ultimately show ?thesis using assms(2) by (simp add: base64_decode_def)
next
  case (Inr nj)
  obtain n j where nj: "nj = (n, j)" by (cases nj)
  have "dec_check src 0 0 = Inr (n, j)" using Inr nj by simp
  note L = dec_loop_length [OF this, of 0, simplified]
  have le: "j \<le> 3 * (n div 4) + n mod 4" and "written n j \<le> 3 * (n div 4) + n mod 4 - j"
    using L by (intro written_le; blast)+
  moreover have "unat (dec_size n j) = 3 * (n div 4) + n mod 4 - j" using L assms(1) le by (intro dec_size_nat) linarith+
  moreover have "length (dec_loop src 3 0 0) = written n j" using L by (simp add: written_def)
  ultimately have b: "length (dec_loop src 3 0 0) \<le> unat (dec_size n j)" by simp
  show ?thesis
  proof (cases "\<not> dst \<or> dlen < dec_size n j")
    case True
    then show ?thesis using assms(2) Inr nj by (auto simp: base64_decode_def Let_def split: if_splits)
  next
    case False
    then have "unat (dec_size n j) \<le> unat dlen" by (simp add: word_less_nat_alt not_less)
    then show ?thesis using assms(2) Inr nj b False by (auto simp: base64_decode_def Let_def split: if_splits)
  qed
qed

text \<open>
  Encoding into a buffer that is too small, or to none, writes nothing and reports the size that is enough.\<close>

theorem base64_encode_sizes:
  assumes "src \<noteq> []" and "4 * ((length src + 2) div 3) + 1 < 2 ^ 32" and "unat dlen < 4 * ((length src + 2) div 3) + 1 \<or> \<not> dst"
  shows "\<exists>n. base64_encode dst dlen src = (- ENOMEM, Some n, []) \<and> unat n = 4 * ((length src + 2) div 3) + 1
    \<and> fst (base64_encode True n src) = 0"
proof -
  let ?n = "4 * ((length src + 2) div 3) + 1"
  have u: "unat (of_nat ?n :: u32) = ?n" using assms(2) by (simp only: unat_of_nat) simp
  then show ?thesis using encode_eq [OF assms(1,2), of dst dlen] encode_eq [OF assms(1,2), of True "of_nat ?n"] assms(3)
    by (intro exI [of _ "of_nat ?n"]) (simp del: of_nat_add of_nat_mult)
qed

section \<open>Examples\<close>

theorem base64_roundtrip_witness:
  "\<exists>txt. base64_encode True 9 [0x4d, 0x61, 0x6e, 0x20] = (0, Some (of_nat (length txt)), txt @ [0]) \<and> length txt = 8
     \<and> base64_decode True 4 txt = (0, Some 4, [0x4d, 0x61, 0x6e, 0x20])"
  using base64_roundtrip [of "[0x4d, 0x61, 0x6e, 0x20]" 9 4] by simp

theorem base64_decode_bounded_witness:
  "base64_decode True 2 [0x54, 0x51, 0x3d, 0x3d, 0x20] = (0, Some 1, [0x4d]) \<and> length [0x4d :: u8] \<le> unat (2 :: u32)"
proof -
  have "base64_decode True 2 [0x54, 0x51, 0x3d, 0x3d, 0x20] = (0, Some 1, [0x4d])" by code_simp
  from base64_decode_bounded [OF _ this] this show ?thesis by simp
qed

theorem base64_encode_sizes_witness:
  "\<exists>n. base64_encode True 4 [0x4d] = (- ENOMEM, Some n, []) \<and> unat n = 5 \<and> fst (base64_encode True n [0x4d]) = 0"
  using base64_encode_sizes [of "[0x4d]" 4 True] by simp

end
