(* ===== verification/KMemPool.thy ===== *)
theory KMemPool
  imports KSched
begin

text \<open>
  The memory pools: the allocator of \<^verbatim>\<open>lib/os/mempool.c\<close>, which splits blocks into quarters and recombines
  them, and \<^verbatim>\<open>kernel/mempool.c\<close>, which lets threads wait for blocks. A level's free list is the list of the
  addresses of its blocks: the ring of nodes that the code links through the first bytes of the free blocks themselves is this list
  here (\<open>KDlist\<close> shows that the ring operations are those of the list), and the lemma \<open>free_nodes_apart\<close> shows that no
  node ever lies in a block in use. The free bits are words with an address: in the level's
  own structure (\<open>Inline\<close>, where only word 0 exists) or behind the buffer (\<open>Behind\<close>). The sections between the places
  where the code lets interrupts in are run without any.
\<close>

unbundle bit_operations_syntax

datatype bit_word = Inline nat nat | Behind nat

record mpool =
  mp_buf :: nat
  mp_max_sz :: nat
  mp_n_max :: nat
  mp_n_levels :: nat
  mp_max_inline :: int
  mp_bits_p :: "nat \<Rightarrow> nat"
  mp_words :: "bit_word \<Rightarrow> u32"
  mp_free :: "nat \<Rightarrow> nat list"

definition ALIGN4 :: "nat \<Rightarrow> nat" where
  "ALIGN4 n = (n + 3) div 4 * 4"

definition block_ptr :: "mpool \<Rightarrow> nat \<Rightarrow> nat \<Rightarrow> nat" where
  "block_ptr p lsz block = mp_buf p + lsz * block"

definition block_num :: "mpool \<Rightarrow> nat \<Rightarrow> nat \<Rightarrow> nat" where
  "block_num p block sz = (block - mp_buf p) div sz"

definition get_bit_ptr :: "mpool \<Rightarrow> nat \<Rightarrow> nat \<Rightarrow> bit_word \<times> nat" where
  "get_bit_ptr p level bn =
     (if int level \<le> mp_max_inline p then Inline level (bn div 32) else Behind (mp_bits_p p level + bn div 32), bn mod 32)"

definition set_free_bit :: "nat \<Rightarrow> nat \<Rightarrow> mpool \<Rightarrow> mpool" where
  "set_free_bit level bn p =
     (case get_bit_ptr p level bn of (w, b) \<Rightarrow> p\<lparr>mp_words := (mp_words p)(w := mp_words p w OR push_bit b 1)\<rparr>)"

definition clear_free_bit :: "nat \<Rightarrow> nat \<Rightarrow> mpool \<Rightarrow> mpool" where
  "clear_free_bit level bn p =
     (case get_bit_ptr p level bn of (w, b) \<Rightarrow> p\<lparr>mp_words := (mp_words p)(w := mp_words p w AND NOT (push_bit b 1))\<rparr>)"

definition partner_bits :: "mpool \<Rightarrow> nat \<Rightarrow> nat \<Rightarrow> u32" where
  "partner_bits p level bn =
     (case get_bit_ptr p level bn of (w, b) \<Rightarrow> drop_bit (4 * (b div 4)) (mp_words p w) AND 0xf)"

definition buf_size :: "mpool \<Rightarrow> nat" where
  "buf_size p = mp_n_max p * mp_max_sz p"

definition block_fits :: "mpool \<Rightarrow> nat \<Rightarrow> nat \<Rightarrow> bool" where
  "block_fits p block bsz \<longleftrightarrow> block + bsz - 1 - mp_buf p < buf_size p"

definition list_append :: "nat \<Rightarrow> nat \<Rightarrow> mpool \<Rightarrow> mpool" where
  "list_append level block p = p\<lparr>mp_free := (mp_free p)(level := mp_free p level @ [block])\<rparr>"

text \<open>\<^verbatim>\<open>sys_dlist_remove\<close> unlinks a node from the list it is in; a node is in the free list of its level.\<close>

definition list_remove :: "nat \<Rightarrow> nat \<Rightarrow> mpool \<Rightarrow> mpool" where
  "list_remove level block p = p\<lparr>mp_free := (mp_free p)(level := remove1 block (mp_free p level))\<rparr>"

section \<open>Initialisation\<close>

fun init_levels :: "nat \<Rightarrow> nat \<Rightarrow> nat \<Rightarrow> nat \<Rightarrow> mpool \<Rightarrow> mpool" where
  "init_levels 0 i sz bits p = p"
| "init_levels (Suc n) i sz bits p =
     (let nblocks = buf_size p div sz;
          p = p\<lparr>mp_free := (mp_free p)(i := [])\<rparr>
      in if nblocks < 32 then init_levels n (i + 1) (ALIGN4 (sz div 4)) bits (p\<lparr>mp_max_inline := int i\<rparr>)
         else init_levels n (i + 1) (ALIGN4 (sz div 4)) (bits + (nblocks + 31) div 32)
                (p\<lparr>mp_bits_p := (mp_bits_p p)(i := bits)\<rparr>))"

fun init_blocks :: "nat \<Rightarrow> nat \<Rightarrow> mpool \<Rightarrow> mpool" where
  "init_blocks 0 i p = p"
| "init_blocks (Suc n) i p =
     init_blocks n (i + 1) (set_free_bit 0 i (list_append 0 (block_ptr p (mp_max_sz p) i) p))"

definition z_sys_mem_pool_base_init :: "mpool \<Rightarrow> mpool" where
  "z_sys_mem_pool_base_init p =
     (let p = init_levels (mp_n_levels p) 0 (mp_max_sz p) 0 (p\<lparr>mp_max_inline := - 1\<rparr>)
      in init_blocks (mp_n_max p) 0 p)"

section \<open>Allocation and freeing\<close>

definition block_alloc :: "nat \<Rightarrow> nat \<Rightarrow> mpool \<Rightarrow> nat option \<times> mpool" where
  "block_alloc l lsz p =
     (case mp_free p l of [] \<Rightarrow> (None, p)
      | block # rest \<Rightarrow> (Some block, clear_free_bit l (block_num p block lsz) (p\<lparr>mp_free := (mp_free p)(l := rest)\<rparr>)))"

text \<open>The sizes of the levels, which the callers collect in an array.\<close>

fun lsizes :: "mpool \<Rightarrow> nat \<Rightarrow> nat" where
  "lsizes p 0 = ALIGN4 (mp_max_sz p)"
| "lsizes p (Suc i) = ALIGN4 (lsizes p i div 4)"

definition take_partner :: "nat \<Rightarrow> nat \<Rightarrow> nat \<Rightarrow> mpool \<Rightarrow> mpool" where
  "take_partner level lsz b p =
     (if block_fits p (block_ptr p lsz b) lsz then list_remove level (block_ptr p lsz b) (clear_free_bit level b p) else p)"

fun bfree_recombine :: "nat \<Rightarrow> (nat \<Rightarrow> nat) \<Rightarrow> nat \<Rightarrow> mpool \<Rightarrow> mpool" where
  "bfree_recombine level ls bn p =
     (let lsz = ls level;
          p = list_append level (block_ptr p lsz bn) (set_free_bit level bn p)
      in case level of 0 \<Rightarrow> p
         | Suc level' \<Rightarrow>
             if partner_bits p level bn \<noteq> 0xf then p
             else bfree_recombine level' ls (bn div 4) (fold (take_partner level lsz) (map ((+) (bn div 4 * 4)) [0, 1, 2, 3]) p))"

definition break_one :: "nat \<Rightarrow> nat \<Rightarrow> nat \<Rightarrow> nat \<Rightarrow> nat \<Rightarrow> mpool \<Rightarrow> mpool" where
  "break_one l lsz bn block i p =
     (let p = set_free_bit (l + 1) (4 * bn + i) p
      in if block_fits p (lsz * i + block) lsz then list_append (l + 1) (lsz * i + block) p else p)"

definition block_break :: "nat \<Rightarrow> nat \<Rightarrow> (nat \<Rightarrow> nat) \<Rightarrow> mpool \<Rightarrow> mpool" where
  "block_break block l ls p = fold (break_one l (ls (l + 1)) (block_num p block (ls l)) block) [1, 2, 3] p"

fun alloc_level :: "nat \<Rightarrow> nat \<Rightarrow> nat option \<Rightarrow> nat \<Rightarrow> mpool \<Rightarrow> nat option" where
  "alloc_level 0 i alloc_l req p = alloc_l"
| "alloc_level (Suc n) i alloc_l req p =
     (if lsizes p i < req then alloc_l else alloc_level n (i + 1) (Some i) req p)"

fun break_down :: "nat \<Rightarrow> nat \<Rightarrow> nat \<Rightarrow> mpool \<Rightarrow> mpool" where
  "break_down 0 from_l data p = p"
| "break_down (Suc n) from_l data p = break_down n (from_l + 1) data (block_break data from_l (lsizes p) p)"

fun search_up :: "nat \<Rightarrow> nat \<Rightarrow> mpool \<Rightarrow> nat option \<times> mpool" where
  "search_up i alloc_l p =
     (case block_alloc i (lsizes p i) p of (Some data, p) \<Rightarrow> (Some data, break_down (alloc_l - i) i data p)
      | (None, p) \<Rightarrow> (case i of 0 \<Rightarrow> (None, p) | Suc i \<Rightarrow> search_up i alloc_l p))"

text \<open>The return value is an error or the level, the number and the address of the block.\<close>

definition z_sys_mem_pool_block_alloc :: "nat \<Rightarrow> mpool \<Rightarrow> (int + nat \<times> nat \<times> nat) \<times> mpool" where
  "z_sys_mem_pool_block_alloc req p =
     (case alloc_level (mp_n_levels p) 0 None req p of None \<Rightarrow> (Inl (- ENOMEM), p)
      | Some alloc_l \<Rightarrow>
          (case search_up alloc_l alloc_l p of (None, p) \<Rightarrow> (Inl (- ENOMEM), p)
           | (Some data, p) \<Rightarrow> (Inr (alloc_l, block_num p data (lsizes p alloc_l), data), p)))"

definition z_sys_mem_pool_block_free :: "nat \<Rightarrow> nat \<Rightarrow> mpool \<Rightarrow> mpool" where
  "z_sys_mem_pool_block_free level block p = bfree_recombine level (lsizes p) block p"

section \<open>The geometry of a pool\<close>

text \<open>
  The sizes quarter evenly: the largest block is a multiple of four to the number of levels. No two free bits share a
  place, and those of inline levels fit into one word.
\<close>

definition quarters :: "mpool \<Rightarrow> bool" where
  "quarters p \<longleftrightarrow> 0 < mp_n_levels p \<and> (\<exists>m > 0. mp_max_sz p = 4 ^ mp_n_levels p * m)"

abbreviation nblk :: "mpool \<Rightarrow> nat \<Rightarrow> nat" where
  "nblk p l \<equiv> mp_n_max p * 4 ^ l"

abbreviation blk :: "mpool \<Rightarrow> nat \<Rightarrow> nat \<Rightarrow> nat" where
  "blk p l b \<equiv> block_ptr p (lsizes p l) b"

definition bits_apart :: "mpool \<Rightarrow> bool" where
  "bits_apart p \<longleftrightarrow> (\<forall>l l' b b'. l < mp_n_levels p \<longrightarrow> l' < mp_n_levels p \<longrightarrow> b < nblk p l \<longrightarrow> b' < nblk p l' \<longrightarrow>
     fst (get_bit_ptr p l b) = fst (get_bit_ptr p l' b') \<longrightarrow> l = l' \<and> b div 32 = b' div 32)"

definition free_bit :: "mpool \<Rightarrow> nat \<Rightarrow> nat \<Rightarrow> bool" where
  "free_bit p l b = bit (mp_words p (fst (get_bit_ptr p l b))) (b mod 32)"

definition same_shape :: "mpool \<Rightarrow> mpool \<Rightarrow> bool" where
  "same_shape p p' \<longleftrightarrow> mp_buf p' = mp_buf p \<and> mp_max_sz p' = mp_max_sz p \<and> mp_n_max p' = mp_n_max p
     \<and> mp_n_levels p' = mp_n_levels p \<and> mp_max_inline p' = mp_max_inline p \<and> mp_bits_p p' = mp_bits_p p"

lemma same_shapeD:
  assumes "same_shape p p'"
  shows "mp_n_max p' = mp_n_max p" and "mp_n_levels p' = mp_n_levels p" and "lsizes p' l = lsizes p l"
    and "block_ptr p' lsz b = block_ptr p lsz b" and "block_num p' a lsz = block_num p a lsz"
    and "get_bit_ptr p' l b = get_bit_ptr p l b" and "block_fits p' a lsz = block_fits p a lsz"
    and "quarters p' = quarters p" and "bits_apart p' = bits_apart p"
proof -
  show g: "get_bit_ptr p' l b = get_bit_ptr p l b" for l b using assms by (simp add: same_shape_def get_bit_ptr_def)
  show "lsizes p' l = lsizes p l" using assms by (induction l) (simp_all add: same_shape_def)
  show "bits_apart p' = bits_apart p" using assms by (simp add: same_shape_def bits_apart_def g)
qed (use assms in \<open>simp_all add: same_shape_def block_ptr_def block_num_def block_fits_def buf_size_def quarters_def\<close>)

lemma same_shape_refl [simp]: "same_shape p p"
  by (simp add: same_shape_def)

lemma same_shape_trans: "same_shape p p' \<Longrightarrow> same_shape p' p'' \<Longrightarrow> same_shape p p''"
  by (simp add: same_shape_def)

lemma same_shape_ops [simp]:
  "same_shape p (set_free_bit l b p)" "same_shape p (clear_free_bit l b p)" "same_shape p (list_append l a p)"
  "same_shape p (list_remove l a p)" "same_shape p (p\<lparr>mp_free := f\<rparr>)"
  by (simp_all add: same_shape_def set_free_bit_def clear_free_bit_def list_append_def list_remove_def split: prod.split)

lemma free_ops [simp]:
  "mp_free (set_free_bit l b p) = mp_free p" "mp_free (clear_free_bit l b p) = mp_free p"
  "mp_words (list_append l a p) = mp_words p" "mp_words (list_remove l a p) = mp_words p"
  "mp_free (list_append l a p) = (mp_free p)(l := mp_free p l @ [a])"
  "mp_free (list_remove l a p) = (mp_free p)(l := remove1 a (mp_free p l))"
  by (simp_all add: set_free_bit_def clear_free_bit_def list_append_def list_remove_def split: prod.split)

lemma lsizes_exact:
  assumes "quarters p" and "l < mp_n_levels p"
  shows "lsizes p l * 4 ^ l = mp_max_sz p" and "0 < lsizes p l" and "Suc l < mp_n_levels p \<Longrightarrow> lsizes p l = 4 * lsizes p (Suc l)"
proof -
  obtain m where m: "0 < m" "mp_max_sz p = 4 ^ mp_n_levels p * m" using assms(1) by (auto simp: quarters_def)
  have e: "lsizes p l = 4 ^ (mp_n_levels p - l) * m" if "l < mp_n_levels p" for l
    using that
  proof (induction l)
    case 0
    then have "4 ^ mp_n_levels p = 4 * (4 ^ (mp_n_levels p - 1) :: nat)" by (simp flip: power_Suc)
    then show ?case using m by (simp add: ALIGN4_def)
  next
    case (Suc l)
    have "mp_n_levels p - l = Suc (Suc (mp_n_levels p - Suc (Suc l)))" "mp_n_levels p - Suc l = Suc (mp_n_levels p - Suc (Suc l))"
      using Suc.prems by simp_all
    then show ?case using Suc by (simp add: ALIGN4_def)
  qed
  show "0 < lsizes p l" using e [OF assms(2)] m by simp
  have "(4 :: nat) ^ (mp_n_levels p - l) * 4 ^ l = 4 ^ mp_n_levels p"
    using assms(2) by (simp flip: power_add)
  then show "lsizes p l * 4 ^ l = mp_max_sz p" using e [OF assms(2)] m(2) by (simp add: mult_ac)
  show "lsizes p l = 4 * lsizes p (Suc l)" if "Suc l < mp_n_levels p"
  proof -
    have "mp_n_levels p - l = Suc (mp_n_levels p - Suc l)" using that by simp
    then show ?thesis using e [OF assms(2)] e [OF that] by simp
  qed
qed

declare lsizes.simps(2) [simp del]

lemma blk_num:
  assumes "quarters p" and "l < mp_n_levels p"
  shows "block_num p (blk p l b) (lsizes p l) = b" and "block_fits p (blk p l b) (lsizes p l) \<longleftrightarrow> b < nblk p l"
    and "inj (blk p l)" and "blk p l b = blk p l b' \<longleftrightarrow> b = b'"
proof -
  note z = lsizes_exact [OF assms]
  show "block_num p (blk p l b) (lsizes p l) = b" using z(2) by (simp add: block_num_def block_ptr_def)
  have "buf_size p = lsizes p l * nblk p l" using z(1) by (simp add: buf_size_def mult_ac flip: z(1))
  moreover have "lsizes p l * b + lsizes p l - 1 < lsizes p l * nblk p l \<longleftrightarrow> b < nblk p l"
  proof
    assume "lsizes p l * b + lsizes p l - 1 < lsizes p l * nblk p l"
    then have "lsizes p l * b < lsizes p l * nblk p l" using z(2) by linarith
    then show "b < nblk p l" by simp
  next
    assume "b < nblk p l"
    then have "lsizes p l * (b + 1) \<le> lsizes p l * nblk p l" by (intro mult_le_mono2) simp
    then show "lsizes p l * b + lsizes p l - 1 < lsizes p l * nblk p l" using z(2) by (simp add: algebra_simps)
  qed
  ultimately show "block_fits p (blk p l b) (lsizes p l) \<longleftrightarrow> b < nblk p l"
    by (simp add: block_fits_def block_ptr_def add.assoc)
  show "inj (blk p l)" "blk p l b = blk p l b' \<longleftrightarrow> b = b'" using z(2) by (auto simp: inj_def block_ptr_def)
qed

section \<open>The free bits\<close>

lemma free_bit_ops:
  assumes "bits_apart p" and "l < mp_n_levels p" "b < nblk p l" and "l' < mp_n_levels p" "b' < nblk p l'"
  shows "free_bit (set_free_bit l b p) l' b' \<longleftrightarrow> (l', b') = (l, b) \<or> free_bit p l' b'"
    and "free_bit (clear_free_bit l b p) l' b' \<longleftrightarrow> (l', b') \<noteq> (l, b) \<and> free_bit p l' b'"
proof -
  have g: "get_bit_ptr (set_free_bit l b p) l' b' = get_bit_ptr p l' b'" "get_bit_ptr (clear_free_bit l b p) l' b' = get_bit_ptr p l' b'"
    by (rule same_shapeD(6), simp)+
  have a: "l = l' \<and> b div 32 = b' div 32" if "fst (get_bit_ptr p l b) = fst (get_bit_ptr p l' b')"
    using assms that unfolding bits_apart_def by blast
  have d: "b = b'" if "b div 32 = b' div 32" "b mod 32 = b' mod 32" using that by (metis div_mult_mod_eq)
  let ?w = "fst (get_bit_ptr p l b)" and ?w' = "fst (get_bit_ptr p l' b')"
  have ws: "mp_words (set_free_bit l b p) = (mp_words p)(?w := mp_words p ?w OR push_bit (b mod 32) 1)"
    "mp_words (clear_free_bit l b p) = (mp_words p)(?w := mp_words p ?w AND NOT (push_bit (b mod 32) 1))"
    by (simp_all add: set_free_bit_def clear_free_bit_def get_bit_ptr_def)
  have m: "b mod 32 < 32" "b' mod 32 < 32" by simp_all
  have s: "(l', b') = (l, b) \<longleftrightarrow> ?w' = ?w \<and> b' mod 32 = b mod 32" using a d by auto
  have b1: "bit (x OR push_bit i 1) j \<longleftrightarrow> j = i \<or> bit x j" "bit (x AND NOT (push_bit i 1)) j \<longleftrightarrow> j \<noteq> i \<and> bit x j"
    if "j < 32" for x :: u32 and i j
    using that by (auto simp: bit_simps dest: bit_imp_le_length)
  show "free_bit (set_free_bit l b p) l' b' \<longleftrightarrow> (l', b') = (l, b) \<or> free_bit p l' b'"
    unfolding s unfolding free_bit_def g ws using b1 [OF m(2)] by simp
  show "free_bit (clear_free_bit l b p) l' b' \<longleftrightarrow> (l', b') \<noteq> (l, b) \<and> free_bit p l' b'"
    unfolding s unfolding free_bit_def g ws using b1 [OF m(2)] by simp
qed

lemma partner_bits_full:
  "partner_bits p l b = 0xf \<longleftrightarrow> (\<forall>i<4. free_bit p l (4 * (b div 4) + i))"
proof -
  define w where "w = mp_words p (fst (get_bit_ptr p l b))"
  define o4 where "o4 = 4 * (b mod 32 div 4)"
  have o: "o4 \<le> 28" by (simp add: o4_def)
  have i: "(4 * (b div 4) + i) div 32 = b div 32" "(4 * (b div 4) + i) mod 32 = o4 + i" if "i < 4" for i
  proof -
    have "b div 32 = b div 4 div 8" using div_mult2_eq [of b 4 8] by simp
    moreover have "b mod 32 div 4 = b div 4 mod 8" using mod_mult2_eq [of b 4 8] by simp
    ultimately have e: "4 * (b div 4) + i = (o4 + i) + 32 * (b div 32)"
      unfolding o4_def using div_mult_mod_eq [of "b div 4" 8] by linarith
    have "o4 + i < 32" using o that by linarith
    then show "(4 * (b div 4) + i) div 32 = b div 32" "(4 * (b div 4) + i) mod 32 = o4 + i"
      unfolding e by (simp_all only: div_mult_self2 mod_mult_self2) simp_all
  qed
  then have f: "free_bit p l (4 * (b div 4) + i) \<longleftrightarrow> bit w (o4 + i)" if "i < 4" for i
    using that by (simp add: free_bit_def get_bit_ptr_def w_def)
  have "partner_bits p l b = drop_bit o4 w AND 0xf" by (simp add: partner_bits_def get_bit_ptr_def w_def o4_def)
  also have "\<dots> = take_bit 4 (drop_bit o4 w)" by (simp add: take_bit_eq_mask mask_eq_exp_minus_1)
  finally have "partner_bits p l b = 0xf \<longleftrightarrow> take_bit 4 (drop_bit o4 w) = (mask 4 :: u32)" by (simp add: mask_eq_exp_minus_1)
  also have "\<dots> \<longleftrightarrow> (\<forall>i<4. bit w (o4 + i))"
    using o by (auto simp: bit_eq_iff bit_simps dest: bit_imp_le_length) (metis less_trans numeral_less_iff
      semiring_norm(76) semiring_norm(78))
  finally show ?thesis using f by simp
qed

section \<open>The abstract pool\<close>

text \<open>
  A forest of blocks: block \<open>(l, b)\<close> of level \<open>l\<close> is free, in use by a caller, or split into the four blocks
  \<open>(l + 1, 4 b), \<dots>, (l + 1, 4 b + 3)\<close>; other blocks do not exist.
\<close>

datatype bstate = Free | Used | Split

type_synonym forest = "nat \<times> nat \<Rightarrow> bstate option"

definition forest_ok :: "nat \<Rightarrow> nat \<Rightarrow> forest \<Rightarrow> bool" where
  "forest_ok n L f \<longleftrightarrow> (\<forall>b. f (0, b) \<noteq> None \<longleftrightarrow> b < n) \<and> (\<forall>l b. f (Suc l, b) \<noteq> None \<longleftrightarrow> f (l, b div 4) = Some Split)
     \<and> (\<forall>l b. f (l, b) = Some Split \<longrightarrow> Suc l < L)"

definition represents :: "mpool \<Rightarrow> forest \<Rightarrow> bool" where
  "represents p f \<longleftrightarrow> (\<forall>l b. l < mp_n_levels p \<longrightarrow> b < nblk p l \<longrightarrow> (free_bit p l b \<longleftrightarrow> f (l, b) = Some Free))
     \<and> (\<forall>l < mp_n_levels p. distinct (mp_free p l) \<and> set (mp_free p l) = blk p l ` {b. f (l, b) = Some Free})"

definition pool_inv :: "mpool \<Rightarrow> forest \<Rightarrow> bool" where
  "pool_inv p f \<longleftrightarrow> quarters p \<and> bits_apart p \<and> forest_ok (mp_n_max p) (mp_n_levels p) f \<and> represents p f"

text \<open>Four free partners are always merged.\<close>

definition merged :: "forest \<Rightarrow> bool" where
  "merged f \<longleftrightarrow> (\<forall>l b. f (l, b) = Some Split \<longrightarrow> (\<exists>i<4. f (Suc l, 4 * b + i) \<noteq> Some Free))"

definition used :: "forest \<Rightarrow> (nat \<times> nat) set" where
  "used f = {x. f x = Some Used}"

lemma forest_okD:
  assumes "forest_ok n L f"
  shows "f (0, b) \<noteq> None \<longleftrightarrow> b < n" and "f (Suc l, b) \<noteq> None \<longleftrightarrow> f (l, b div 4) = Some Split"
    and "f (l, b) = Some Split \<Longrightarrow> Suc l < L"
  using assms unfolding forest_ok_def by blast+

lemma pool_invD:
  assumes "pool_inv p f"
  shows "quarters p" and "bits_apart p" and "forest_ok (mp_n_max p) (mp_n_levels p) f" and "0 < mp_n_levels p"
    and "l < mp_n_levels p \<Longrightarrow> b < nblk p l \<Longrightarrow> free_bit p l b \<longleftrightarrow> f (l, b) = Some Free"
    and "l < mp_n_levels p \<Longrightarrow> distinct (mp_free p l)"
    and "l < mp_n_levels p \<Longrightarrow> set (mp_free p l) = blk p l ` {b. f (l, b) = Some Free}"
  using assms unfolding pool_inv_def represents_def quarters_def by blast+

lemma forest_range:
  assumes "forest_ok n L f" and "0 < L" and "f (l, b) \<noteq> None"
  shows "l < L" and "b < n * 4 ^ l"
proof -
  have "l < L \<and> b < n * 4 ^ l"
    using assms(3)
  proof (induction l arbitrary: b)
    case 0
    then show ?case using forest_okD(1) [OF assms(1)] assms(2) by simp
  next
    case (Suc l)
    then have s: "f (l, b div 4) = Some Split" using forest_okD(2) [OF assms(1)] by blast
    then have "b div 4 < n * 4 ^ l" using Suc.IH [of "b div 4"] by simp
    then have "b < 4 * (n * 4 ^ l)" by (simp add: less_mult_imp_div_less div_less_iff_less_mult)
    then show ?case using forest_okD(3) [OF assms(1) s] by (simp add: mult_ac)
  qed
  then show "l < L" "b < n * 4 ^ l" by blast+
qed

lemma forest_swap:
  assumes "forest_ok n L f" and "f x \<noteq> None" and "f x \<noteq> Some Split" and "s \<noteq> Split"
  shows "forest_ok n L (f(x := Some s))"
proof -
  have "(f(x := Some s)) y \<noteq> None \<longleftrightarrow> f y \<noteq> None" "(f(x := Some s)) y = Some Split \<longleftrightarrow> f y = Some Split" for y
    using assms(2-4) by auto
  then show ?thesis using assms(1) by (simp only: forest_ok_def) blast
qed

lemma pool_inv_step:
  assumes inv: "pool_inv p f" and sh: "same_shape p p'" and fo: "forest_ok (mp_n_max p) (mp_n_levels p) f'"
    and fb: "\<And>l b. l < mp_n_levels p \<Longrightarrow> b < nblk p l \<Longrightarrow> free_bit p' l b \<longleftrightarrow> f' (l, b) = Some Free"
    and fl: "\<And>l. l < mp_n_levels p \<Longrightarrow> distinct (mp_free p' l) \<and> set (mp_free p' l) = blk p l ` {b. f' (l, b) = Some Free}"
  shows "pool_inv p' f'"
  using pool_invD(1,2) [OF inv] fo fb fl unfolding pool_inv_def represents_def
  by (simp add: same_shapeD [OF sh])

section \<open>Taking and splitting a block\<close>

lemma take_block:
  assumes inv: "pool_inv p f" and l: "l < mp_n_levels p" and a: "mp_free p l = a # rest"
  obtains b p' where "a = blk p l b" "f (l, b) = Some Free" "block_alloc l (lsizes p l) p = (Some a, p')" "same_shape p p'"
    "pool_inv p' (f((l, b) := Some Used))"
proof -
  note D = pool_invD [OF inv]
  have "a \<in> blk p l ` {b. f (l, b) = Some Free}" using D(7) [OF l] a by auto
  then obtain b where b: "a = blk p l b" "f (l, b) = Some Free" by blast
  have r: "b < nblk p l" using forest_range(2) [OF D(3,4)] b(2) by blast
  define p1 where "p1 = p\<lparr>mp_free := (mp_free p)(l := rest)\<rparr>"
  define p' where "p' = clear_free_bit l b p1"
  have sh: "same_shape p p1" "same_shape p1 p'" "same_shape p p'"
    by (simp_all add: p1_def p'_def same_shape_trans [of _ "p\<lparr>mp_free := (mp_free p)(l := rest)\<rparr>"])
  have n: "block_num p a (lsizes p l) = b" using blk_num(1) [OF D(1) l] b(1) by simp
  have e: "block_alloc l (lsizes p l) p = (Some a, p')"
    using a n by (simp add: block_alloc_def p'_def p1_def)
  have "forest_ok (mp_n_max p) (mp_n_levels p) (f((l, b) := Some Used))"
    using b(2) by (intro forest_swap [OF D(3)]) simp_all
  moreover have "free_bit p' l' b' \<longleftrightarrow> (f((l, b) := Some Used)) (l', b') = Some Free"
    if "l' < mp_n_levels p" "b' < nblk p l'" for l' b'
  proof -
    have "free_bit p' l' b' \<longleftrightarrow> (l', b') \<noteq> (l, b) \<and> free_bit p1 l' b'"
      unfolding p'_def using D(2) l r that by (intro free_bit_ops(2)) (simp_all add: same_shapeD [OF sh(1)])
    moreover have "free_bit p1 l' b' = free_bit p l' b'"
      using same_shapeD(6) [OF sh(1), of l' b'] by (simp add: free_bit_def p1_def)
    ultimately show ?thesis using D(5) [OF that] by simp
  qed
  moreover have "distinct (mp_free p' l') \<and> set (mp_free p' l') = blk p l' ` {b'. (f((l, b) := Some Used)) (l', b') = Some Free}"
    if "l' < mp_n_levels p" for l'
  proof (cases "l' = l")
    case True
    have "set rest = set (mp_free p l) - {a}" using D(6) [OF l] a by auto
    also have "\<dots> = blk p l ` ({b. f (l, b) = Some Free} - {b})"
      using D(7) [OF l] b(1) blk_num(3) [OF D(1) l] by (simp add: image_set_diff)
    also have "{b. f (l, b) = Some Free} - {b} = {b'. (f((l, b) := Some Used)) (l, b') = Some Free}" by auto
    finally show ?thesis using True D(6) [OF l] a by (simp add: p'_def p1_def)
  qed (use D(6,7) [OF that] in \<open>simp add: p'_def p1_def\<close>)
  ultimately have "pool_inv p' (f((l, b) := Some Used))" by (intro pool_inv_step [OF inv sh(3)])
  with b e sh(3) show ?thesis by (rule that)
qed

definition split_at :: "nat \<Rightarrow> nat \<Rightarrow> forest \<Rightarrow> forest" where
  "split_at l b f = f((l, b) := Some Split, (Suc l, 4 * b) := Some Used, (Suc l, 4 * b + 1) := Some Free,
     (Suc l, 4 * b + 2) := Some Free, (Suc l, 4 * b + 3) := Some Free)"

lemma div4_cases: "b' div 4 = b \<longleftrightarrow> b' = 4 * b \<or> b' = 4 * b + 1 \<or> b' = 4 * b + 2 \<or> b' = 4 * b + 3" for b b' :: nat
  by auto

lemma split_at_apply:
  "split_at l b f (l', b') = (if (l', b') = (l, b) then Some Split
     else if l' = Suc l \<and> b' div 4 = b then Some (if b' mod 4 = 0 then Used else Free) else f (l', b'))"
  by (auto simp: split_at_def div4_cases)

lemma put_block:
  assumes inv: "pool_inv p f" and u: "f (l, b) = Some Used"
  defines "p' \<equiv> list_append l (blk p l b) (set_free_bit l b p)"
  shows "pool_inv p' (f((l, b) := Some Free))" and "same_shape p p'"
proof -
  note D = pool_invD [OF inv]
  have l: "l < mp_n_levels p" and r: "b < nblk p l" using forest_range [OF D(3,4), of l b] u by simp_all
  show sh: "same_shape p p'" unfolding p'_def by (meson same_shape_ops same_shape_trans)
  have "forest_ok (mp_n_max p) (mp_n_levels p) (f((l, b) := Some Free))" using u by (intro forest_swap [OF D(3)]) simp_all
  moreover have "free_bit p' l' b' \<longleftrightarrow> (f((l, b) := Some Free)) (l', b') = Some Free"
    if "l' < mp_n_levels p" "b' < nblk p l'" for l' b'
  proof -
    have "free_bit p' l' b' = free_bit (set_free_bit l b p) l' b'"
      using same_shapeD(6) [OF same_shape_ops(3)] by (simp add: free_bit_def p'_def)
    then show ?thesis using free_bit_ops(1) [OF D(2) l r that] D(5) [OF that] by auto
  qed
  moreover have "distinct (mp_free p' l') \<and> set (mp_free p' l') = blk p l' ` {b'. (f((l, b) := Some Free)) (l', b') = Some Free}"
    if l': "l' < mp_n_levels p" for l'
  proof (cases "l' = l")
    case True
    have "blk p l b \<notin> set (mp_free p l)" using D(7) [OF l] u by (auto simp: blk_num(4) [OF D(1) l])
    moreover have "{b'. (f((l, b) := Some Free)) (l, b') = Some Free} = insert b {b'. f (l, b') = Some Free}" by auto
    ultimately show ?thesis using True D(6,7) [OF l] by (simp add: p'_def)
  qed (use D(6,7) [OF l'] in \<open>simp add: p'_def\<close>)
  ultimately show "pool_inv p' (f((l, b) := Some Free))" by (intro pool_inv_step [OF inv sh])
qed

text \<open>Splitting alone: four quarters in use in place of the block, which the pool's data do not show.\<close>

definition quartered :: "nat \<Rightarrow> nat \<Rightarrow> forest \<Rightarrow> forest" where
  "quartered l b f = f((l, b) := Some Split, (Suc l, 4 * b) := Some Used, (Suc l, 4 * b + 1) := Some Used,
     (Suc l, 4 * b + 2) := Some Used, (Suc l, 4 * b + 3) := Some Used)"

lemma quartered_apply:
  "quartered l b f (l', b') = (if (l', b') = (l, b) then Some Split else if l' = Suc l \<and> b' div 4 = b then Some Used else f (l', b'))"
  by (auto simp: quartered_def div4_cases)

lemma quartered_inv:
  assumes inv: "pool_inv p f" and u: "f (l, b) = Some Used" and l: "Suc l < mp_n_levels p"
  shows "pool_inv p (quartered l b f)"
proof -
  note D = pool_invD [OF inv] and F = forest_okD [OF pool_invD(3) [OF inv]]
  have none: "f (Suc l, b') = None" if "b' div 4 = b" for b' using F(2) [of l b'] u that by auto
  have "quartered l b f (0, b') \<noteq> None \<longleftrightarrow> b' < mp_n_max p" for b' using F(1) [of b'] u by (auto simp: quartered_apply)
  moreover have "quartered l b f (Suc l', b') \<noteq> None \<longleftrightarrow> quartered l b f (l', b' div 4) = Some Split" for l' b'
    using F(2) [of l' b'] F(2) [of l "b' div 4"] u by (auto simp: quartered_apply)
  moreover have "Suc l' < mp_n_levels p" if "quartered l b f (l', b') = Some Split" for l' b'
    using that F(3) [of l' b'] l by (auto simp: quartered_apply split: if_splits)
  ultimately have "forest_ok (mp_n_max p) (mp_n_levels p) (quartered l b f)" unfolding forest_ok_def by blast
  moreover have "quartered l b f (l', b') = Some Free \<longleftrightarrow> f (l', b') = Some Free" for l' b'
    using u none [of b'] by (auto simp: quartered_apply)
  ultimately show ?thesis using D(5-7) by (intro pool_inv_step [OF inv same_shape_refl]) simp_all
qed

lemma break_block:
  assumes inv: "pool_inv p f" and u: "f (l, b) = Some Used" and l: "Suc l < mp_n_levels p"
  shows "pool_inv (block_break (blk p l b) l (lsizes p) p) (split_at l b f)"
    and "same_shape p (block_break (blk p l b) l (lsizes p) p)"
proof -
  note D = pool_invD [OF inv]
  have l0: "l < mp_n_levels p" using l by simp
  have ptr: "lsizes p (Suc l) * i + blk p l b = blk p (Suc l) (4 * b + i)" for i
    using lsizes_exact(3) [OF D(1) l0 l] by (simp add: block_ptr_def algebra_simps)
  have one: "pool_inv (break_one l (lsizes p (Suc l)) b (blk p l b) i q) (g((Suc l, 4 * b + i) := Some Free))
      \<and> same_shape p (break_one l (lsizes p (Suc l)) b (blk p l b) i q)"
    if "pool_inv q g" "same_shape p q" "g (Suc l, 4 * b + i) = Some Used" for i q g
  proof -
    note S = same_shapeD [OF that(2)] and P = put_block [OF that(1,3)] and E = pool_invD(3,4) [OF that(1)]
    have "4 * b + i < nblk p (Suc l)" using forest_range(2) [OF E, of "Suc l" "4 * b + i"] that(3) by (simp add: S)
    then have "block_fits (set_free_bit (Suc l) (4 * b + i) q) (blk p (Suc l) (4 * b + i)) (lsizes p (Suc l))"
      using blk_num(2) [OF D(1) l] same_shapeD(7) [OF same_shape_trans [OF that(2) same_shape_ops(1)]] by blast
    then have "break_one l (lsizes p (Suc l)) b (blk p l b) i q = list_append (Suc l) (blk q (Suc l) (4 * b + i)) (set_free_bit (Suc l) (4 * b + i) q)"
      by (simp add: break_one_def ptr S Let_def)
    then show ?thesis using P same_shape_trans [OF that(2) P(2)] by simp
  qed
  have q0: "quartered l b f (Suc l, 4 * b + i) = Some Used" if "i < 4" for i using that by (simp add: quartered_apply)
  note o1 = one [OF quartered_inv [OF assms] same_shape_refl q0, of 1]
  note o2 = one [OF conjunct1 [OF o1] conjunct2 [OF o1], of 2] note o3 = one [OF conjunct1 [OF o2] conjunct2 [OF o2], of 3]
  have e: "block_break (blk p l b) l (lsizes p) p = fold (break_one l (lsizes p (Suc l)) b (blk p l b)) [1, 2, 3] p"
    using blk_num(1) [OF D(1) l0, of b] by (simp add: block_break_def)
  have "split_at l b f = (quartered l b f)((Suc l, 4 * b + 1) := Some Free, (Suc l, 4 * b + 2) := Some Free, (Suc l, 4 * b + 3) := Some Free)"
    by (auto simp: split_at_def quartered_def fun_eq_iff)
  then show "pool_inv (block_break (blk p l b) l (lsizes p) p) (split_at l b f)"
      "same_shape p (block_break (blk p l b) l (lsizes p) p)"
    unfolding e using o3 q0 [of 2] q0 [of 3] by simp_all
qed

section \<open>Giving back and merging blocks\<close>

definition merge_at :: "nat \<Rightarrow> nat \<Rightarrow> forest \<Rightarrow> forest" where
  "merge_at l c f = f((l, c) := Some Used, (Suc l, 4 * c) := None, (Suc l, 4 * c + 1) := None,
     (Suc l, 4 * c + 2) := None, (Suc l, 4 * c + 3) := None)"

lemma merge_at_apply:
  "merge_at l c f (l', b') = (if (l', b') = (l, c) then Some Used else if l' = Suc l \<and> b' div 4 = c then None else f (l', b'))"
  by (auto simp: merge_at_def div4_cases)

lemma forest_merge:
  assumes ok: "forest_ok n L f" and s: "f (l, c) = Some Split" and fr: "\<And>b. b div 4 = c \<Longrightarrow> f (Suc l, b) = Some Free"
  shows "forest_ok n L (merge_at l c f)"
proof -
  note D = forest_okD [OF ok]
  have "merge_at l c f (0, b') \<noteq> None \<longleftrightarrow> b' < n" for b' using D(1) [of b'] s by (auto simp: merge_at_apply)
  moreover have "merge_at l c f (Suc l', b') \<noteq> None \<longleftrightarrow> merge_at l c f (l', b' div 4) = Some Split" for l' b'
    using D(2) [of l' b'] fr [of "b' div 4"] s by (auto simp: merge_at_apply)
  moreover have "Suc l' < L" if "merge_at l c f (l', b') = Some Split" for l' b'
    using that D(3) [of l' b'] by (auto simp: merge_at_apply split: if_splits)
  ultimately show ?thesis unfolding forest_ok_def by blast
qed

lemma merge_blocks:
  assumes inv: "pool_inv p f" and l: "Suc l < mp_n_levels p" and s: "f (l, c) = Some Split"
    and fr: "\<And>b. b div 4 = c \<Longrightarrow> f (Suc l, b) = Some Free"
  defines "p' \<equiv> fold (take_partner (Suc l) (lsizes p (Suc l))) (map ((+) (c * 4)) [0, 1, 2, 3]) p"
  shows "pool_inv p' (merge_at l c f)" and "same_shape p p'"
proof -
  note D = pool_invD [OF inv]
  let ?bs = "map ((+) (c * 4)) [0, 1, 2, 3]"
  have r: "b < nblk p (Suc l)" if "b \<in> set ?bs" for b
    using forest_range(2) [OF D(3,4), of "Suc l" b] fr [of b] that by auto
  have step: "take_partner (Suc l) (lsizes p (Suc l)) b q = list_remove (Suc l) (blk p (Suc l) b) (clear_free_bit (Suc l) b q)"
    if "b < nblk p (Suc l)" "same_shape p q" for b q
    using that blk_num(2) [OF D(1) l, of b] by (simp add: take_partner_def same_shapeD [OF that(2)])
  have gen: "same_shape p (fold (take_partner (Suc l) (lsizes p (Suc l))) bs q)
      \<and> (\<forall>l' b'. l' < mp_n_levels p \<longrightarrow> b' < nblk p l' \<longrightarrow>
           (free_bit (fold (take_partner (Suc l) (lsizes p (Suc l))) bs q) l' b' \<longleftrightarrow> \<not> (l' = Suc l \<and> b' \<in> set bs) \<and> free_bit q l' b'))
      \<and> mp_free (fold (take_partner (Suc l) (lsizes p (Suc l))) bs q)
          = (mp_free q)(Suc l := fold remove1 (map (blk p (Suc l)) bs) (mp_free q (Suc l)))"
    if "\<forall>b\<in>set bs. b < nblk p (Suc l)" "same_shape p q" for bs q
    using that
  proof (induction bs arbitrary: q)
    case (Cons b bs)
    let ?q = "list_remove (Suc l) (blk p (Suc l) b) (clear_free_bit (Suc l) b q)"
    have sh: "same_shape p ?q" using Cons.prems(2) by (meson same_shape_ops same_shape_trans)
    have fb: "free_bit ?q l' b' \<longleftrightarrow> (l', b') \<noteq> (Suc l, b) \<and> free_bit q l' b'" if "l' < mp_n_levels p" "b' < nblk p l'" for l' b'
    proof -
      have "free_bit ?q l' b' = free_bit (clear_free_bit (Suc l) b q) l' b'"
        using same_shapeD(6) [OF same_shape_ops(4)] by (simp add: free_bit_def)
      then show ?thesis using free_bit_ops(2) [of q "Suc l" b l' b'] D(2) l that Cons.prems
        by (simp add: same_shapeD [OF Cons.prems(2)])
    qed
    from Cons.IH [OF _ sh] Cons.prems(1) show ?case
      using step [of b q] Cons.prems by (auto simp: fb)
  qed simp
  have "\<forall>b\<in>set ?bs. b < nblk p (Suc l)" using r by blast
  note g = gen [OF this same_shape_refl, folded p'_def]
  show sh: "same_shape p p'" using g by blast
  have set4: "b \<in> set ?bs \<longleftrightarrow> b div 4 = c" for b by (auto simp: div4_cases)
  have "free_bit p' l' b' \<longleftrightarrow> merge_at l c f (l', b') = Some Free" if "l' < mp_n_levels p" "b' < nblk p l'" for l' b'
    using g that D(5) [OF that] s unfolding merge_at_apply set4 [symmetric] by auto
  moreover have "distinct (mp_free p' l') \<and> set (mp_free p' l') = blk p l' ` {b'. merge_at l c f (l', b') = Some Free}"
    if l': "l' < mp_n_levels p" for l'
  proof (cases "l' = Suc l")
    case True
    have rem: "distinct xs \<Longrightarrow> distinct (fold remove1 ys xs) \<and> set (fold remove1 ys xs) = set xs - set ys" for xs ys :: "nat list"
      by (induction ys arbitrary: xs) auto
    have "set (mp_free p' (Suc l)) = blk p (Suc l) ` {b. f (Suc l, b) = Some Free} - blk p (Suc l) ` set ?bs"
      using g rem [OF D(6) [OF l], of "map (blk p (Suc l)) ?bs"] D(7) [OF l] by simp
    also have "\<dots> = blk p (Suc l) ` ({b. f (Suc l, b) = Some Free} - set ?bs)"
      using blk_num(3) [OF D(1) l] by (simp only: image_set_diff)
    also have "{b. f (Suc l, b) = Some Free} - set ?bs = {b'. merge_at l c f (Suc l, b') = Some Free}"
      using set4 by (auto simp: merge_at_apply)
    finally show ?thesis using True g rem [OF D(6) [OF l], of "map (blk p (Suc l)) ?bs"] by simp
  next
    case False
    then have "{b'. merge_at l c f (l', b') = Some Free} = {b'. f (l', b') = Some Free}" using s by (auto simp: merge_at_apply)
    then show ?thesis using D(6,7) [OF l'] False g by simp
  qed
  ultimately show "pool_inv p' (merge_at l c f)"
    by (intro pool_inv_step [OF inv sh forest_merge [OF D(3) s fr]])
qed

section \<open>Allocation\<close>

lemma used_split:
  assumes "forest_ok n L f" and "f (l, b) = Some Used"
  shows "used (split_at l b f) = insert (Suc l, 4 * b) (used f - {(l, b)})"
proof -
  have "f (Suc l, b') = None" if "b' div 4 = b" for b' using forest_okD(2) [OF assms(1), of l b'] assms(2) that by auto
  then show ?thesis using assms(2) by (auto simp: used_def split_at_apply split: if_splits)
qed

lemma merged_split: "merged f \<Longrightarrow> f (l, b) = Some Used \<Longrightarrow> merged (split_at l b f)"
  unfolding merged_def
proof (intro allI impI)
  fix l' b'
  assume m: "\<forall>l b. f (l, b) = Some Split \<longrightarrow> (\<exists>i<4. f (Suc l, 4 * b + i) \<noteq> Some Free)" and u: "f (l, b) = Some Used"
    and s: "split_at l b f (l', b') = Some Split"
  show "\<exists>i<4. split_at l b f (Suc l', 4 * b' + i) \<noteq> Some Free"
  proof (cases "(l', b') = (l, b)")
    case True
    then show ?thesis by (intro exI [of _ 0]) (simp add: split_at_apply)
  next
    case False
    then have "f (l', b') = Some Split" using s by (auto simp: split_at_apply split: if_splits)
    then obtain i where "i < 4" "f (Suc l', 4 * b' + i) \<noteq> Some Free" using m by blast
    moreover have "(4 * b' + i) div 4 = b'" using \<open>i < 4\<close> by simp
    ultimately show ?thesis using False by (intro exI [of _ i]) (auto simp: split_at_apply)
  qed
qed

lemma merged_take: "merged f \<Longrightarrow> f x \<noteq> Some Split \<Longrightarrow> merged (f(x := Some Used))"
  unfolding merged_def by (metis bstate.distinct(5) bstate.distinct(1) fun_upd_apply option.inject)

lemma break_down_inv:
  assumes "pool_inv p f" and "f (l, b) = Some Used" and "l + n < mp_n_levels p" and "merged f"
  shows "\<exists>f'. pool_inv (break_down n l (blk p l b) p) f' \<and> merged f' \<and> same_shape p (break_down n l (blk p l b) p)
    \<and> used f' = insert (l + n, b * 4 ^ n) (used f - {(l, b)}) \<and> blk p (l + n) (b * 4 ^ n) = blk p l b"
  using assms
proof (induction n arbitrary: l b p f)
  case 0
  then show ?case by (intro exI [of _ f]) (auto simp: used_def)
next
  case (Suc n)
  note D = pool_invD [OF Suc.prems(1)]
  have l: "Suc l < mp_n_levels p" "l < mp_n_levels p" using Suc.prems(3) by simp_all
  let ?p = "block_break (blk p l b) l (lsizes p) p" and ?f = "split_at l b f"
  note br = break_block [OF Suc.prems(1,2) l(1)]
  have c: "blk p (Suc l) (4 * b) = blk p l b" using lsizes_exact(3) [OF D(1) l(2,1)] by (simp add: block_ptr_def)
  have u: "?f (Suc l, 4 * b) = Some Used" by (simp add: split_at_apply)
  have "Suc l + n < mp_n_levels ?p" using Suc.prems(3) same_shapeD(2) [OF br(2)] by simp
  from Suc.IH [OF br(1) u this merged_split [OF Suc.prems(4,2)]]
  obtain f' where f': "pool_inv (break_down n (Suc l) (blk ?p (Suc l) (4 * b)) ?p) f'" "merged f'"
    "same_shape ?p (break_down n (Suc l) (blk ?p (Suc l) (4 * b)) ?p)"
    "used f' = insert (Suc l + n, 4 * b * 4 ^ n) (used ?f - {(Suc l, 4 * b)})"
    "blk ?p (Suc l + n) (4 * b * 4 ^ n) = blk ?p (Suc l) (4 * b)" by blast
  have e: "blk ?p (Suc l) (4 * b) = blk p l b" using c by (simp add: same_shapeD [OF br(2)])
  have "f (Suc l, 4 * b) = None" using forest_okD(2) [OF D(3), of l "4 * b"] Suc.prems(2) by auto
  then have "used f' = insert (l + Suc n, b * 4 ^ Suc n) (used f - {(l, b)})"
    using f'(4) used_split [OF D(3) Suc.prems(2)] by (auto simp: used_def mult_ac)
  moreover have "blk p (l + Suc n) (b * 4 ^ Suc n) = blk p l b"
    using f'(5) e by (simp add: same_shapeD [OF br(2)] mult_ac)
  ultimately show ?case using f'(1-3) same_shape_trans [OF br(2) f'(3)] unfolding e
    by (intro exI [of _ f']) simp
qed

declare search_up.simps [simp del] and bfree_recombine.simps [simp del]

text \<open>Everything above an existing block is split.\<close>

lemma ancestor_split:
  assumes "forest_ok n L f" and "f (l + Suc d, b) \<noteq> None"
  shows "f (l, b div 4 ^ Suc d) = Some Split"
  using assms(2)
proof (induction d arbitrary: b)
  case 0
  then show ?case using forest_okD(2) [OF assms(1), of l b] by simp
next
  case (Suc d)
  then have "f (l + Suc d, b div 4) = Some Split" using forest_okD(2) [OF assms(1), of "l + Suc d" b] by simp
  moreover have "b div 4 div 4 ^ Suc d = b div 4 ^ Suc (Suc d)" by (simp flip: div_mult2_eq)
  ultimately show ?case using Suc.IH [of "b div 4"] by simp
qed

lemma found_inv:
  assumes inv: "pool_inv p f" and m: "merged f" and i: "i \<le> al" "al < mp_n_levels p" and ne: "mp_free p i \<noteq> []"
  obtains b f' p' where "search_up i al p = (Some (blk p al b), p')" "pool_inv p' f'" "merged f'" "same_shape p p'"
    "used f' = insert (al, b) (used f)" "(al, b) \<notin> used f"
proof -
  note D = pool_invD [OF inv]
  obtain a rest where a: "mp_free p i = a # rest" using ne by (cases "mp_free p i") simp_all
  obtain b p1 where b: "a = blk p i b" "f (i, b) = Some Free" "block_alloc i (lsizes p i) p = (Some a, p1)" "same_shape p p1"
    "pool_inv p1 (f((i, b) := Some Used))"
    using take_block [OF inv _ a] i by (metis le_less_trans)
  let ?f = "f((i, b) := Some Used)" and ?n = "al - i"
  have n: "i + ?n = al" using i by simp
  have m1: "merged ?f" using b(2) by (intro merged_take [OF m]) simp
  have "i + ?n < mp_n_levels p1" using i same_shapeD(2) [OF b(4)] n by simp
  from break_down_inv [OF b(5) _ this m1, of b]
  obtain f' where f': "pool_inv (break_down ?n i (blk p1 i b) p1) f'" "merged f'" "same_shape p1 (break_down ?n i (blk p1 i b) p1)"
    "used f' = insert (al, b * 4 ^ ?n) (used ?f - {(i, b)})" "blk p1 al (b * 4 ^ ?n) = blk p1 i b"
    unfolding n by auto
  have e: "blk p1 i b = blk p i b" "blk p1 al (b * 4 ^ ?n) = blk p al (b * 4 ^ ?n)" by (simp_all add: same_shapeD [OF b(4)])
  have "search_up i al p = (Some (blk p al (b * 4 ^ ?n)), break_down ?n i (blk p1 i b) p1)"
    using b(1,3) e f'(5) by (subst search_up.simps) simp
  moreover have "used ?f - {(i, b)} = used f" using b(2) by (auto simp: used_def)
  moreover have "(al, b * 4 ^ ?n) \<notin> used f"
  proof (cases ?n)
    case 0
    then show ?thesis using b(2) n by (simp add: used_def)
  next
    case (Suc d)
    then have "f (al, b * 4 ^ ?n) = None"
      using ancestor_split [OF D(3), of i d "b * 4 ^ ?n"] b(2) n by (cases "f (al, b * 4 ^ ?n)") auto
    then show ?thesis by (simp add: used_def)
  qed
  ultimately show ?thesis using f'(1,2,4) same_shape_trans [OF b(4) f'(3)] by (intro that) simp_all
qed

lemma search_up_inv:
  assumes "pool_inv p f" and "merged f" and "i \<le> al" and "al < mp_n_levels p"
  shows "(\<exists>b f' p'. search_up i al p = (Some (blk p al b), p') \<and> pool_inv p' f' \<and> merged f' \<and> same_shape p p'
        \<and> used f' = insert (al, b) (used f) \<and> (al, b) \<notin> used f)
    \<or> search_up i al p = (None, p) \<and> (\<forall>l\<le>i. mp_free p l = [])"
  using assms(3)
proof (induction i)
  case 0
  show ?case
  proof (cases "mp_free p 0 = []")
    case True
    then show ?thesis by (simp add: search_up.simps block_alloc_def)
  next
    case False
    from found_inv [OF assms(1,2) 0 assms(4) this] show ?thesis by metis
  qed
next
  case (Suc i)
  show ?case
  proof (cases "mp_free p (Suc i) = []")
    case True
    then have "search_up (Suc i) al p = search_up i al p" by (subst search_up.simps) (simp add: block_alloc_def)
    then show ?thesis using Suc True by (auto simp: le_Suc_eq)
  next
    case False
    from found_inv [OF assms(1,2) Suc.prems assms(4) this] show ?thesis by metis
  qed
qed

lemma alloc_level_spec:
  assumes "alloc_level n i al req p = r" and "case al of None \<Rightarrow> i = 0 | Some a \<Rightarrow> Suc a = i \<and> req \<le> lsizes p a"
  shows "case r of None \<Rightarrow> al = None \<and> (n = 0 \<or> lsizes p 0 < req)
    | Some a \<Rightarrow> a < i + n \<and> req \<le> lsizes p a \<and> (Suc a < i + n \<longrightarrow> lsizes p (Suc a) < req)"
  using assms
proof (induction n arbitrary: i al)
  case 0
  then show ?case by (auto split: option.splits)
next
  case (Suc n)
  show ?case
  proof (cases "lsizes p i < req")
    case True
    then show ?thesis using Suc.prems by (auto split: option.splits)
  next
    case False
    then have "alloc_level n (i + 1) (Some i) req p = r" using Suc.prems(1) by simp
    from Suc.IH [OF this] False show ?thesis by (simp split: option.splits)
  qed
qed

lemma lsizes_mono:
  assumes "quarters p" and "l \<le> l'" and "l' < mp_n_levels p"
  shows "lsizes p l' \<le> lsizes p l"
  using assms(2,3)
proof (induction l' rule: dec_induct)
  case (step n)
  then show ?case using lsizes_exact(3) [OF assms(1), of n] by simp
qed simp

section \<open>Correctness\<close>

lemma alloc_inv:
  assumes inv: "pool_inv p f" and m: "merged f"
  shows "case z_sys_mem_pool_block_alloc req p of
      (Inr (l, b, data), p') \<Rightarrow> same_shape p p' \<and> l < mp_n_levels p \<and> data = blk p l b \<and> req \<le> lsizes p l
        \<and> (Suc l < mp_n_levels p \<longrightarrow> lsizes p (Suc l) < req)
        \<and> (\<exists>f'. pool_inv p' f' \<and> merged f' \<and> used f' = insert (l, b) (used f) \<and> (l, b) \<notin> used f)
    | (Inl e, p') \<Rightarrow> e = - ENOMEM \<and> p' = p \<and> (\<forall>l b. f (l, b) = Some Free \<longrightarrow> lsizes p l < req)"
proof -
  note D = pool_invD [OF inv]
  have range: "l < mp_n_levels p" if "f (l, b) = Some Free" for l b using forest_range(1) [OF D(3,4), of l b] that by simp
  show ?thesis
  proof (cases "alloc_level (mp_n_levels p) 0 None req p")
    case None
    then have "lsizes p 0 < req" using alloc_level_spec [OF None] D(4) by simp
    then have "lsizes p l < req" if "f (l, b) = Some Free" for l b
      using le_less_trans [OF lsizes_mono [OF D(1) le0 range [OF that]]] by blast
    then show ?thesis using None by (simp add: z_sys_mem_pool_block_alloc_def)
  next
    case (Some al)
    have a: "al < mp_n_levels p" "req \<le> lsizes p al" "Suc al < mp_n_levels p \<longrightarrow> lsizes p (Suc al) < req"
      using alloc_level_spec [OF Some] by simp_all
    from search_up_inv [OF inv m order.refl a(1)] show ?thesis
    proof (elim disjE exE conjE)
      fix b f' p'
      assume s: "search_up al al p = (Some (blk p al b), p')" "pool_inv p' f'" "merged f'" "same_shape p p'"
        "used f' = insert (al, b) (used f)" "(al, b) \<notin> used f"
      have "block_num p' (blk p al b) (lsizes p' al) = b"
        using blk_num(1) [OF D(1) a(1)] by (simp add: same_shapeD [OF s(4)])
      then show ?thesis using s a Some by (auto simp: z_sys_mem_pool_block_alloc_def)
    next
      assume s: "search_up al al p = (None, p)" "\<forall>l\<le>al. mp_free p l = []"
      have "lsizes p l < req" if "f (l, b) = Some Free" for l b
      proof -
        have "l \<le> al \<longrightarrow> mp_free p l \<noteq> []" using D(7) [OF range [OF that]] that by auto
        then have "al < l" using s(2) by auto
        then show ?thesis using a(3) lsizes_mono [OF D(1), of "Suc al" l] range [OF that] by simp
      qed
      then show ?thesis using s(1) Some by (simp add: z_sys_mem_pool_block_alloc_def)
    qed
  qed
qed

text \<open>An allocation succeeds only by taking a free block of at least the requested size.\<close>

lemma search_up_none: "\<forall>l\<le>i. mp_free p l = [] \<Longrightarrow> search_up i al p = (None, p)"
proof (induction i)
  case (Suc i)
  then have "search_up (Suc i) al p = search_up i al p" by (subst search_up.simps) (simp add: block_alloc_def)
  then show ?case using Suc by simp
qed (simp add: search_up.simps block_alloc_def)

lemma alloc_takes_free:
  assumes inv: "pool_inv p f" and r: "z_sys_mem_pool_block_alloc req p = (Inr y, p')"
  shows "\<exists>l b. f (l, b) = Some Free \<and> req \<le> lsizes p l"
proof -
  note D = pool_invD [OF inv]
  obtain al where al: "alloc_level (mp_n_levels p) 0 None req p = Some al" "search_up al al p \<noteq> (None, p)"
    using r by (auto simp: z_sys_mem_pool_block_alloc_def split: option.splits prod.splits)
  have a: "al < mp_n_levels p" "req \<le> lsizes p al" using alloc_level_spec [OF al(1)] by simp_all
  obtain l where l: "l \<le> al" "mp_free p l \<noteq> []" using search_up_none al(2) by blast
  then obtain b where "f (l, b) = Some Free" using D(7) [of l] a(1) by fastforce
  moreover have "req \<le> lsizes p l" using a lsizes_mono [OF D(1) l(1) a(1)] by simp
  ultimately show ?thesis by blast
qed

lemma quad_all: "(\<forall>i<4. P (4 * c + i)) \<longleftrightarrow> (\<forall>b. b div 4 = c \<longrightarrow> P b)" for c :: nat
proof -
  have "\<exists>i<4. b = 4 * (b div 4) + i" for b :: nat by (intro exI [of _ "b mod 4"]) simp
  then show ?thesis by (metis div_mult_self4 div_less add_0_right zero_neq_numeral)
qed

lemma partners_full:
  assumes inv: "pool_inv p f" and s: "f (l, b div 4) = Some Split"
  shows "partner_bits p (Suc l) b = 0xf \<longleftrightarrow> (\<forall>b'. b' div 4 = b div 4 \<longrightarrow> f (Suc l, b') = Some Free)"
proof -
  note D = pool_invD [OF inv]
  let ?c = "b div 4"
  have "free_bit p (Suc l) (4 * ?c + i) \<longleftrightarrow> f (Suc l, 4 * ?c + i) = Some Free" if "i < 4" for i
  proof -
    have "f (Suc l, 4 * ?c + i) \<noteq> None" using forest_okD(2) [OF D(3), of l "4 * ?c + i"] s that by simp
    then have "4 * ?c + i < nblk p (Suc l)" by (rule forest_range(2) [OF D(3,4)])
    then show ?thesis using D(5) forest_okD(3) [OF D(3) s] by blast
  qed
  then have "partner_bits p (Suc l) b = 0xf \<longleftrightarrow> (\<forall>i<4. f (Suc l, 4 * ?c + i) = Some Free)" unfolding partner_bits_full by simp
  also have "\<dots> \<longleftrightarrow> (\<forall>b'. b' div 4 = ?c \<longrightarrow> f (Suc l, b') = Some Free)" by (rule quad_all)
  finally show ?thesis .
qed

text \<open>A block that joins the free ones leaves the forest merged unless its partners are all free, and then merging them does.\<close>

lemma merged_put:
  assumes m: "merged f" and u: "f (Suc l, b) = Some Used" and nf: "b' div 4 = b div 4" "f (Suc l, b') \<noteq> Some Free" "b' \<noteq> b"
  shows "merged (f((Suc l, b) := Some Free))"
  unfolding merged_def
proof (intro allI impI)
  let ?f = "f((Suc l, b) := Some Free)"
  fix l' c
  assume "?f (l', c) = Some Split"
  then have f: "f (l', c) = Some Split" by (auto split: if_splits)
  show "\<exists>i<4. ?f (Suc l', 4 * c + i) \<noteq> Some Free"
  proof (cases "(l', c) = (l, b div 4)")
    case True
    have "4 * (b div 4) + b' mod 4 = b'" using nf(1) by (metis mult_div_mod_eq)
    with nf True show ?thesis by (intro exI [of _ "b' mod 4"]) simp
  next
    case False
    obtain i where i: "i < 4" "f (Suc l', 4 * c + i) \<noteq> Some Free" using m f unfolding merged_def by blast
    have "(Suc l', 4 * c + i) \<noteq> (Suc l, b)" using False i(1) by auto
    then show ?thesis using i by (intro exI [of _ i]) simp
  qed
qed

lemma merged_merge:
  assumes m: "merged f" and s: "f (l, c) = Some Split" and fr: "\<And>b'. b' div 4 = c \<Longrightarrow> b' \<noteq> b \<Longrightarrow> f (Suc l, b') = Some Free"
    and b: "b div 4 = c"
  shows "merged (merge_at l c (f((Suc l, b) := Some Free)))" (is "merged ?g")
    and "used (merge_at l c (f((Suc l, b) := Some Free))) = insert (l, c) (used f - {(Suc l, b)})"
proof -
  show "merged ?g" unfolding merged_def
  proof (intro allI impI)
    fix l' c'
    assume "?g (l', c') = Some Split"
    then have ne: "(l', c') \<noteq> (l, c)" and "f (l', c') = Some Split" by (auto simp: merge_at_apply split: if_splits)
    then obtain i where i: "i < 4" "f (Suc l', 4 * c' + i) \<noteq> Some Free" using m unfolding merged_def by blast
    have "(Suc l', 4 * c' + i) \<noteq> (Suc l, b)" using ne i(1) b by auto
    then show "\<exists>i<4. ?g (Suc l', 4 * c' + i) \<noteq> Some Free"
      using i ne by (intro exI [of _ i]) (auto simp: merge_at_apply)
  qed
  show "used ?g = insert (l, c) (used f - {(Suc l, b)})"
  proof -
    have "f (Suc l, b') \<noteq> Some Used" if "b' div 4 = c" "b' \<noteq> b" for b' using fr [OF that] by simp
    then have "?g x = Some Used \<longleftrightarrow> x = (l, c) \<or> f x = Some Used \<and> x \<noteq> (Suc l, b)" for x
      using s b by (cases x) (auto simp: merge_at_apply)
    then show ?thesis by (auto simp: used_def)
  qed
qed

lemma free_inv:
  assumes "pool_inv p f" and "merged f" and "(l, b) \<in> used f" and "\<And>l. ls l = lsizes p l"
  shows "\<exists>f'. pool_inv (bfree_recombine l ls b p) f' \<and> merged f' \<and> used f' = used f - {(l, b)}
    \<and> same_shape p (bfree_recombine l ls b p)"
  using assms
proof (induction l arbitrary: b p f)
  case 0
  let ?p = "list_append 0 (blk p 0 b) (set_free_bit 0 b p)"
  have u: "f (0, b) = Some Used" using 0 by (simp add: used_def)
  have "merged (f((0, b) := Some Free))" using 0(2) u unfolding merged_def by auto
  moreover have "bfree_recombine 0 ls b p = ?p"
    using 0(4) same_shapeD(4) [OF same_shape_ops(1)] by (subst bfree_recombine.simps) simp
  moreover have "used (f((0, b) := Some Free)) = used f - {(0, b)}" by (auto simp: used_def)
  ultimately show ?case using put_block [OF 0(1) u] by metis
next
  case (Suc l)
  have u: "f (Suc l, b) = Some Used" using Suc.prems by (simp add: used_def)
  let ?p = "list_append (Suc l) (blk p (Suc l) b) (set_free_bit (Suc l) b p)" and ?f = "f((Suc l, b) := Some Free)" and ?c = "b div 4"
  let ?q = "fold (take_partner (Suc l) (lsizes p (Suc l))) (map ((+) (?c * 4)) [0, 1, 2, 3]) ?p" and ?g = "merge_at l ?c ?f"
  note put = put_block [OF Suc.prems(1) u] and D = pool_invD [OF Suc.prems(1)]
  have s: "f (l, ?c) = Some Split" using forest_okD(2) [OF D(3), of l b] u by simp
  have e: "bfree_recombine (Suc l) ls b p = (if partner_bits ?p (Suc l) b \<noteq> 0xf then ?p else bfree_recombine l ls ?c ?q)"
    using Suc.prems(4) same_shapeD(4) [OF same_shape_ops(1)] by (subst bfree_recombine.simps) (simp add: Let_def)
  have part: "partner_bits ?p (Suc l) b = 0xf \<longleftrightarrow> (\<forall>b'. b' div 4 = ?c \<longrightarrow> ?f (Suc l, b') = Some Free)"
    using s by (intro partners_full [OF put(1)]) simp
  show ?case
  proof (cases "partner_bits ?p (Suc l) b = 0xf")
    case False
    then obtain b' where "b' div 4 = ?c" "f (Suc l, b') \<noteq> Some Free" "b' \<noteq> b" using part by (auto split: if_splits)
    then have "merged ?f" by (rule merged_put [OF Suc.prems(2) u])
    moreover have "used ?f = used f - {(Suc l, b)}" by (auto simp: used_def)
    ultimately show ?thesis using False e put by metis
  next
    case True
    have fr: "\<And>b'. b' div 4 = ?c \<Longrightarrow> ?f (Suc l, b') = Some Free" using True part by blast
    have frn: "f (Suc l, b') = Some Free" if "b' div 4 = ?c" "b' \<noteq> b" for b' using fr [OF that(1)] that(2) by simp
    have ls: "lsizes ?p (Suc l) = lsizes p (Suc l)" by (rule same_shapeD(3) [OF put(2)])
    have sl: "Suc l < mp_n_levels ?p" "?f (l, ?c) = Some Split"
      using forest_okD(3) [OF D(3) s] s by (simp_all add: same_shapeD [OF put(2)])
    have m: "pool_inv ?q ?g" "same_shape ?p ?q" by (rule merge_blocks [OF put(1) sl, unfolded ls], erule fr)+
    have q: "same_shape p ?q" by (rule same_shape_trans [OF put(2) m(2)])
    have g: "merged ?g" "used ?g = insert (l, ?c) (used f - {(Suc l, b)})"
      by (rule merged_merge [OF Suc.prems(2) s _ refl], erule (1) frn)+
    have in_g: "(l, ?c) \<in> used ?g" and lq: "ls l' = lsizes ?q l'" for l'
      using g(2) Suc.prems(4) [of l'] same_shapeD(3) [OF q] by simp_all
    obtain f' where f': "pool_inv (bfree_recombine l ls ?c ?q) f'" "merged f'" "used f' = used ?g - {(l, ?c)}"
      "same_shape ?q (bfree_recombine l ls ?c ?q)"
      using Suc.IH [OF m(1) g(1) in_g lq] by blast
    have "used f' = used f - {(Suc l, b)}" using f'(3) s unfolding g(2) by (auto simp: used_def)
    moreover have "bfree_recombine (Suc l) ls b p = bfree_recombine l ls ?c ?q" using e True by simp
    ultimately show ?thesis using f'(1,2) same_shape_trans [OF q f'(4)] by metis
  qed
qed

lemma all_free:
  assumes ok: "forest_ok n L f" and m: "merged f" and u: "used f = {}" and b: "b < n"
  shows "f (0, b) = Some Free"
proof -
  have "f (l, b) \<noteq> Some Split" if "l < L" for l b
    using that
  proof (induction "L - l" arbitrary: l b)
    case (Suc d)
    show ?case
    proof
      assume s: "f (l, b) = Some Split"
      then have l: "Suc l < L" by (rule forest_okD(3) [OF ok])
      obtain i where i: "i < 4" "f (Suc l, 4 * b + i) \<noteq> Some Free" using m s unfolding merged_def by blast
      have "f (Suc l, 4 * b + i) \<noteq> None" using forest_okD(2) [OF ok, of l "4 * b + i"] s i(1) by simp
      moreover have "f (Suc l, 4 * b + i) \<noteq> Some Used" using u by (auto simp: used_def)
      ultimately have "f (Suc l, 4 * b + i) = Some Split" using i(2) by (metis bstate.exhaust not_None_eq)
      moreover have "d = L - Suc l" using Suc.hyps(2) by simp
      ultimately show False using Suc.hyps(1) [of "Suc l" "4 * b + i"] l by simp
    qed
  qed simp
  moreover have "f (0, b) = Some Split \<Longrightarrow> 0 < L" using forest_okD(3) [OF ok, of 0 b] by simp
  moreover have "f (0, b) \<noteq> None" using forest_okD(1) [OF ok] b by simp
  moreover have "f (0, b) \<noteq> Some Used" using u by (auto simp: used_def)
  ultimately show ?thesis by (cases "f (0, b)"; cases "the (f (0, b))") auto
qed

section \<open>The initial pool\<close>

definition level_words :: "mpool \<Rightarrow> nat \<Rightarrow> nat" where
  "level_words p l = (nblk p l + 31) div 32"

text \<open>What the loop over the levels has established for the levels below \<open>i\<close>.\<close>

definition levels_set :: "nat \<Rightarrow> nat \<Rightarrow> mpool \<Rightarrow> bool" where
  "levels_set i bits p \<longleftrightarrow> mp_max_inline p < int i \<and> (\<forall>j<i. mp_free p j = []) \<and> (\<forall>j<i. int j \<le> mp_max_inline p \<longleftrightarrow> nblk p j < 32)
     \<and> (\<forall>j<i. 32 \<le> nblk p j \<longrightarrow> mp_bits_p p j + level_words p j \<le> bits)
     \<and> (\<forall>j j'. j < j' \<longrightarrow> j' < i \<longrightarrow> 32 \<le> nblk p j \<longrightarrow> mp_bits_p p j + level_words p j \<le> mp_bits_p p j')"

lemma init_levels_fields [simp]:
  "mp_buf (init_levels n i sz bits p) = mp_buf p" "mp_max_sz (init_levels n i sz bits p) = mp_max_sz p"
  "mp_n_max (init_levels n i sz bits p) = mp_n_max p" "mp_n_levels (init_levels n i sz bits p) = mp_n_levels p"
  "mp_words (init_levels n i sz bits p) = mp_words p"
  by (induction n arbitrary: i sz bits p) (simp_all add: Let_def)

lemma lsizes_cong: "mp_max_sz p' = mp_max_sz p \<Longrightarrow> lsizes p' l = lsizes p l"
  by (induction l) (simp_all add: lsizes.simps(2))

lemma init_levels_set:
  assumes "quarters p" and "i + n = mp_n_levels p" and "n > 0 \<longrightarrow> sz = lsizes p i" and "levels_set i bits p"
  shows "\<exists>bits'. levels_set (mp_n_levels p) bits' (init_levels n i sz bits p)"
  using assms
proof (induction n arbitrary: i sz bits p)
  case 0
  then show ?case by auto
next
  case (Suc n)
  have i: "i < mp_n_levels p" using Suc.prems(2) by simp
  note z = lsizes_exact [OF Suc.prems(1) i]
  have "buf_size p = lsizes p i * nblk p i" using z(1) by (simp add: buf_size_def mult_ac flip: z(1))
  then have nb: "buf_size p div sz = nblk p i" using Suc.prems(3) z(2) by simp
  define p1 where "p1 = p\<lparr>mp_free := (mp_free p)(i := [])\<rparr>"
  define p2 where "p2 = (if nblk p i < 32 then p1\<lparr>mp_max_inline := int i\<rparr> else p1\<lparr>mp_bits_p := (mp_bits_p p1)(i := bits)\<rparr>)"
  define bits' where "bits' = (if nblk p i < 32 then bits else bits + level_words p i)"
  have e: "init_levels (Suc n) i sz bits p = init_levels n (i + 1) (ALIGN4 (sz div 4)) bits' p2"
    using nb by (simp add: p2_def p1_def bits'_def level_words_def buf_size_def Let_def)
  have f: "mp_max_sz p2 = mp_max_sz p" "mp_n_max p2 = mp_n_max p" "mp_n_levels p2 = mp_n_levels p" by (simp_all add: p2_def p1_def)
  have mono: "nblk p j \<le> nblk p i" if "j < i" for j using that by (intro mult_le_mono2 power_increasing) simp_all
  note S = Suc.prems(4) [unfolded levels_set_def]
  have "levels_set (i + 1) bits' p2"
  proof (cases "nblk p i < 32")
    case True
    have nb: "nblk p j < 32" if "j < i + 1" for j
    proof (cases "j = i")
      case False
      then have "j < i" using that by simp
      from mono [OF this] True show ?thesis by (rule le_less_trans)
    qed (use True in simp)
    then show ?thesis using S True by (auto simp: levels_set_def p2_def p1_def bits'_def less_Suc_eq not_le [symmetric])
  next
    case False
    have p2: "p2 = p1\<lparr>mp_bits_p := (mp_bits_p p1)(i := bits)\<rparr>" and b: "bits' = bits + level_words p i"
      using False by (simp_all add: p2_def bits'_def)
    have lw: "level_words p2 j = level_words p j" for j by (simp add: level_words_def f)
    have q: "mp_bits_p p2 j = (if j = i then bits else mp_bits_p p j)" "mp_max_inline p2 = mp_max_inline p"
      "mp_free p2 j = (if j = i then [] else mp_free p j)" for j
      by (simp_all add: p2 p1_def)
    have le: "32 \<le> nblk p j \<Longrightarrow> j < i \<Longrightarrow> mp_bits_p p j + level_words p j \<le> bits" for j using S by blast
    show ?thesis unfolding levels_set_def f(2)
    proof (intro conjI allI impI)
      show "mp_max_inline p2 < int (i + 1)" using S q(2) by simp
      show "mp_free p2 j = []" if "j < i + 1" for j using S that unfolding q(3) by (auto simp: less_Suc_eq)
      show "int j \<le> mp_max_inline p2 \<longleftrightarrow> nblk p j < 32" if "j < i + 1" for j
        using S False that unfolding q(2) by (cases "j = i") auto
      show "mp_bits_p p2 j + level_words p2 j \<le> bits'" if "j < i + 1" "32 \<le> nblk p j" for j
        using le [of j] that unfolding q lw b by (cases "j = i") auto
      show "mp_bits_p p2 j + level_words p2 j \<le> mp_bits_p p2 j'" if "j < j'" "j' < i + 1" "32 \<le> nblk p j" for j j'
        using le [of j] S that unfolding q lw by (cases "j' = i") auto
    qed
  qed
  moreover have "quarters p2" using Suc.prems(1) f by (simp add: quarters_def)
  moreover have "ALIGN4 (sz div 4) = lsizes p2 (i + 1)" using Suc.prems(3) lsizes_cong [OF f(1), of "i + 1"] by (simp add: lsizes.simps(2))
  ultimately show ?case using Suc.IH [of p2 "i + 1" "ALIGN4 (sz div 4)" bits'] Suc.prems(2) unfolding e f(3) by simp
qed

lemma levels_apart:
  assumes "levels_set (mp_n_levels p) bits p"
  shows "bits_apart p"
  unfolding bits_apart_def
proof (intro allI impI)
  fix l l' b b'
  assume l: "l < mp_n_levels p" "l' < mp_n_levels p" and b: "b < nblk p l" "b' < nblk p l'"
    and e: "fst (get_bit_ptr p l b) = fst (get_bit_ptr p l' b')"
  note S = assms [unfolded levels_set_def]
  have inl: "int k \<le> mp_max_inline p \<longleftrightarrow> nblk p k < 32" if "k < mp_n_levels p" for k using S that by blast
  have w: "c div 32 < level_words p k" if "c < nblk p k" for c k
    using that unfolding level_words_def by (simp add: div_less_iff_less_mult)
  have ord: "mp_bits_p p k + level_words p k \<le> mp_bits_p p k'" if "k < k'" "k' < mp_n_levels p" "\<not> nblk p k < 32" for k k'
    using S that by (meson not_le)
  show "l = l' \<and> b div 32 = b' div 32"
  proof (cases "nblk p l < 32 \<or> nblk p l' < 32")
    case True
    then show ?thesis using e inl [OF l(1)] inl [OF l(2)] by (auto simp: get_bit_ptr_def split: if_splits)
  next
    case False
    then have eq: "mp_bits_p p l + b div 32 = mp_bits_p p l' + b' div 32"
      using e inl [OF l(1)] inl [OF l(2)] by (simp add: get_bit_ptr_def)
    have "\<not> l < l'" using eq ord [of l l'] w [OF b(1)] l False by fastforce
    moreover have "\<not> l' < l" using eq ord [of l' l] w [OF b(2)] l False by fastforce
    ultimately have "l = l'" by simp
    then show ?thesis using eq by simp
  qed
qed

text \<open>The first \<open>k\<close> largest blocks are on the free list, the others not yet.\<close>

definition first_free :: "nat \<Rightarrow> nat \<Rightarrow> forest" where
  "first_free n k = (\<lambda>(l, b). if l = 0 \<and> b < n then Some (if b < k then Free else Used) else None)"

lemma init_blocks_inv:
  assumes "pool_inv p (first_free (mp_n_max p) i)" and "i + n = mp_n_max p"
  shows "pool_inv (init_blocks n i p) (first_free (mp_n_max p) (mp_n_max p)) \<and> same_shape p (init_blocks n i p)"
  using assms
proof (induction n arbitrary: i p)
  case (Suc n)
  note D = pool_invD [OF Suc.prems(1)]
  define p' where "p' = list_append 0 (blk p 0 i) (set_free_bit 0 i p)"
  have z: "lsizes p 0 = mp_max_sz p" using lsizes_exact(1) [OF D(1,4)] by (simp del: lsizes.simps)
  have "set_free_bit 0 i (list_append 0 a p) = list_append 0 a (set_free_bit 0 i p)" for a
    by (cases p) (simp add: set_free_bit_def list_append_def get_bit_ptr_def)
  then have "init_blocks (Suc n) i p = init_blocks n (i + 1) p'" using z by (simp add: p'_def del: lsizes.simps)
  moreover have "first_free (mp_n_max p) i (0, i) = Some Used" using Suc.prems(2) by (simp add: first_free_def)
  from put_block [OF Suc.prems(1) this]
  have "pool_inv p' ((first_free (mp_n_max p) i)((0, i) := Some Free))" and sh: "same_shape p p'" unfolding p'_def by blast+
  moreover have "(first_free (mp_n_max p) i)((0, i) := Some Free) = first_free (mp_n_max p) (i + 1)"
    using Suc.prems(2) by (auto simp: first_free_def fun_eq_iff)
  ultimately show ?case using Suc.IH [of p' "i + 1"] Suc.prems(2) same_shape_trans [OF sh] by (simp add: same_shapeD(1) [OF sh])
qed simp

lemma base_init_inv:
  assumes "quarters p" and "\<And>w. mp_words p w = 0"
  shows "\<exists>f. pool_inv (z_sys_mem_pool_base_init p) f \<and> merged f \<and> used f = {} \<and> (\<forall>b < mp_n_max p. f (0, b) = Some Free)
    \<and> mp_n_max (z_sys_mem_pool_base_init p) = mp_n_max p"
proof -
  define p0 where "p0 = p\<lparr>mp_max_inline := - 1\<rparr>"
  define p1 where "p1 = init_levels (mp_n_levels p0) 0 (mp_max_sz p0) 0 p0"
  have q: "quarters p0" using assms(1) by (simp add: quarters_def p0_def)
  have L: "0 < mp_n_levels p0" using q by (simp add: quarters_def)
  have "levels_set 0 0 p0" by (simp add: levels_set_def p0_def)
  moreover have "mp_max_sz p0 = lsizes p0 0" using lsizes_exact(1) [OF q L] by (simp del: lsizes.simps)
  ultimately obtain bits where ls: "levels_set (mp_n_levels p1) bits p1"
    using init_levels_set [OF q, of 0 "mp_n_levels p0" "mp_max_sz p0" 0] unfolding p1_def by (auto simp del: lsizes.simps)
  have n: "mp_n_max p1 = mp_n_max p" by (simp add: p1_def p0_def)
  have fl: "mp_free p1 l = []" if "l < mp_n_levels p1" for l using ls that by (simp add: levels_set_def)
  have "quarters p1" using q by (simp add: quarters_def p1_def)
  moreover have "forest_ok (mp_n_max p1) (mp_n_levels p1) (first_free (mp_n_max p1) 0)" by (auto simp: forest_ok_def first_free_def)
  moreover have "represents p1 (first_free (mp_n_max p1) 0)"
    using fl assms(2) by (simp add: represents_def first_free_def free_bit_def) (simp add: p1_def p0_def)
  ultimately have "pool_inv p1 (first_free (mp_n_max p1) 0)" using levels_apart [OF ls] by (simp add: pool_inv_def)
  then have r: "pool_inv (init_blocks (mp_n_max p1) 0 p1) (first_free (mp_n_max p1) (mp_n_max p1))"
      "same_shape p1 (init_blocks (mp_n_max p1) 0 p1)"
    using init_blocks_inv [of p1 0 "mp_n_max p1"] by simp_all
  have "z_sys_mem_pool_base_init p = init_blocks (mp_n_max p1) 0 p1"
    by (simp add: z_sys_mem_pool_base_init_def p1_def p0_def Let_def)
  moreover have "merged (first_free m m)" "used (first_free m m) = {}" "b < m \<Longrightarrow> first_free m m (0, b) = Some Free" for m b
    by (auto simp: merged_def used_def first_free_def split: if_splits)
  ultimately show ?thesis using r same_shapeD(1) [OF r(2)] n by metis
qed

lemma block_free_inv:
  assumes "pool_inv p f" and "merged f" and "(l, b) \<in> used f"
  shows "\<exists>f'. pool_inv (z_sys_mem_pool_block_free l b p) f' \<and> merged f' \<and> used f' = used f - {(l, b)}
    \<and> (used f = {(l, b)} \<longrightarrow> (\<forall>b' < mp_n_max p. f' (0, b') = Some Free))"
proof -
  obtain f' where f': "pool_inv (z_sys_mem_pool_block_free l b p) f'" "merged f'" "used f' = used f - {(l, b)}"
    "same_shape p (z_sys_mem_pool_block_free l b p)"
    using free_inv [OF assms refl] unfolding z_sys_mem_pool_block_free_def by blast
  have "f' (0, b') = Some Free" if "used f = {(l, b)}" "b' < mp_n_max p" for b'
    using all_free [OF pool_invD(3) [OF f'(1)] f'(2), of b'] f'(3) that same_shapeD(1) [OF f'(4)] by simp
  then show ?thesis using f' by blast
qed

lemma used_in_buffer:
  assumes "pool_inv p f" and "(l, b) \<in> used f"
  shows "mp_buf p \<le> blk p l b" and "blk p l b + lsizes p l \<le> mp_buf p + buf_size p"
proof -
  note D = pool_invD [OF assms(1)]
  have l: "l < mp_n_levels p" "b < nblk p l" using forest_range [OF D(3,4), of l b] assms(2) by (simp_all add: used_def)
  have "blk p l b + lsizes p l - 1 - mp_buf p < buf_size p" using blk_num(2) [OF D(1) l(1)] l(2) by (simp add: block_fits_def)
  then show "blk p l b + lsizes p l \<le> mp_buf p + buf_size p" using lsizes_exact(2) [OF D(1) l(1)] by (simp add: block_ptr_def)
qed (simp add: block_ptr_def)

text \<open>No two blocks that are free or in use have a byte in common.\<close>

lemma leaf_blocks_apart:
  assumes "pool_inv p f" and "f (l, b) \<in> {Some Used, Some Free}" and "f (l', b') \<in> {Some Used, Some Free}" and "(l, b) \<noteq> (l', b')"
  shows "{blk p l b ..< blk p l b + lsizes p l} \<inter> {blk p l' b' ..< blk p l' b' + lsizes p l'} = {}"
proof -
  note D = pool_invD [OF assms(1)]
  have apart: "{blk p l b ..< blk p l b + lsizes p l} \<inter> {blk p l' b' ..< blk p l' b' + lsizes p l'} = {}"
    if "f (l, b) \<in> {Some Used, Some Free}" "f (l', b') \<in> {Some Used, Some Free}" "(l, b) \<noteq> (l', b')" "l \<le> l'" for l b l' b'
  proof -
    note t = that
    have L: "l < mp_n_levels p" "l' < mp_n_levels p"
      using forest_range(1) [OF D(3,4), of l b] forest_range(1) [OF D(3,4), of l' b'] t by auto
    obtain d where d: "l' = l + d" using t(4) by (metis le_Suc_ex)
    let ?s = "lsizes p l'"
    have "lsizes p l * 4 ^ l = ?s * 4 ^ l * 4 ^ d" using lsizes_exact(1) [OF D(1) L(1)] lsizes_exact(1) [OF D(1) L(2)] by (simp add: d power_add mult_ac)
    then have z: "lsizes p l = ?s * 4 ^ d" by simp
    have "b' div 4 ^ d \<noteq> b"
    proof (cases d)
      case 0
      then show ?thesis using t(3) d by simp
    next
      case (Suc e)
      then have "f (l, b' div 4 ^ d) = Some Split" using ancestor_split [OF D(3), of l e b'] t(2) d by fastforce
      then show ?thesis using t(1) by auto
    qed
    then consider "b' < b * 4 ^ d" | "(b + 1) * 4 ^ d \<le> b'"
      using div_nat_eqI [of "4 ^ d" b b'] by (metis add.commute leI mult.commute plus_1_eq_Suc)
    then show ?thesis
    proof cases
      case 1
      then have "?s * (b' + 1) \<le> ?s * (b * 4 ^ d)" by (intro mult_le_mono2) simp
      then show ?thesis by (auto simp: block_ptr_def z algebra_simps)
    next
      case 2
      then have "?s * ((b + 1) * 4 ^ d) \<le> ?s * b'" by (rule mult_le_mono2)
      then show ?thesis by (auto simp: block_ptr_def z algebra_simps)
    qed
  qed
  show ?thesis using apart [OF assms(2-4)] apart [OF assms(3,2)] assms(4) by (metis inf_commute linear)
qed

lemma used_blocks_apart:
  assumes "pool_inv p f" and "(l, b) \<in> used f" and "(l', b') \<in> used f" and "(l, b) \<noteq> (l', b')"
  shows "{blk p l b ..< blk p l b + lsizes p l} \<inter> {blk p l' b' ..< blk p l' b' + lsizes p l'} = {}"
  using leaf_blocks_apart [OF assms(1) _ _ assms(4)] assms(2,3) unfolding used_def by blast

text \<open>
  The nodes of the free lists, which the code keeps in the free blocks themselves, are nowhere inside a block in use: linking and
  unlinking them writes no byte of a block in use.
\<close>

lemma free_nodes_apart:
  assumes "pool_inv p f" and "l < mp_n_levels p" and "a \<in> set (mp_free p l)" and "(l', b') \<in> used f"
  shows "{a ..< a + lsizes p l} \<inter> {blk p l' b' ..< blk p l' b' + lsizes p l'} = {}"
proof -
  obtain b where b: "a = blk p l b" "f (l, b) = Some Free" using pool_invD(7) [OF assms(1,2)] assms(3) by blast
  moreover have "f (l', b') = Some Used" using assms(4) by (simp add: used_def)
  ultimately show ?thesis using leaf_blocks_apart [OF assms(1), of l b l' b'] by fastforce
qed

section \<open>The properties of the allocator\<close>

abbreviation demo_raw :: mpool where
  "demo_raw \<equiv> \<lparr>mp_buf = 1000, mp_max_sz = 64, mp_n_max = Suc (Suc 0), mp_n_levels = Suc (Suc 0),
     mp_max_inline = 0, mp_bits_p = \<lambda>_. 0, mp_words = \<lambda>_. 0, mp_free = \<lambda>_. []\<rparr>"

definition demo_pool :: mpool where
  "demo_pool = z_sys_mem_pool_base_init demo_raw"

abbreviation demo_taken :: "u32 \<Rightarrow> u32 \<Rightarrow> nat list \<Rightarrow> nat list \<Rightarrow> mpool" where
  "demo_taken w0 w1 f0 f1 \<equiv> \<lparr>mp_buf = 1000, mp_max_sz = 64, mp_n_max = 2, mp_n_levels = 2, mp_max_inline = 1, mp_bits_p = \<lambda>_. 0,
     mp_words = (\<lambda>_. 0)(Inline 0 0 := w0, Inline 1 0 := w1), mp_free = (\<lambda>_. [])(0 := f0, Suc 0 := f1)\<rparr>"

lemmas pool_exec = z_sys_mem_pool_block_alloc_def ALIGN4_def numeral_2_eq_2 search_up.simps [of "Suc 0"] search_up.simps [of 0]
  block_alloc_def clear_free_bit_def get_bit_ptr_def block_num_def block_break_def break_one_def set_free_bit_def buf_size_def
  block_fits_def list_append_def Let_def lsizes.simps

lemma demo_pool_eq: "demo_pool = demo_taken 3 0 [1000, 1064] []"
  by (simp add: demo_pool_def z_sys_mem_pool_base_init_def buf_size_def ALIGN4_def set_free_bit_def list_append_def
      get_bit_ptr_def block_ptr_def fun_eq_iff)

lemma demo_allocs:
  "z_sys_mem_pool_block_alloc 10 demo_pool = (Inr (1, 0, 1000), demo_taken 2 14 [1064] [1016, 1032, 1048])"
  "z_sys_mem_pool_block_alloc 16 (demo_taken 2 14 [1064] [1016, 1032, 1048]) = (Inr (1, 1, 1016), demo_taken 2 12 [1064] [1032, 1048])"
  unfolding demo_pool_eq by (simp_all add: pool_exec)

lemma quarters_I: "0 < mp_n_levels p \<Longrightarrow> mp_max_sz p = 4 ^ mp_n_levels p * Suc m \<Longrightarrow> quarters p"
  unfolding quarters_def by blast

lemma demo_raw_quarters: "quarters demo_raw"
  by (rule quarters_I [of _ 3]) simp_all

lemma demo_forests:
  obtains f g where "pool_inv demo_pool f" "merged f" "used f = {}"
    "pool_inv (demo_taken 2 14 [1064] [1016, 1032, 1048]) g" "merged g" "used g = {(1, 0)}"
proof -
  obtain f where f: "pool_inv demo_pool f" "merged f" "used f = {}"
    using base_init_inv [OF demo_raw_quarters] unfolding demo_pool_def by auto
  then show ?thesis using that alloc_inv [OF f(1,2), of 10] unfolding demo_allocs by auto
qed

text \<open>
  Initialising a pool whose sizes quarter evenly, with its free bits zero as the static initialisers leave them,
  gives a well-formed pool in which every largest block is free and nothing is in use.\<close>

theorem mem_pool_init_correct:
  assumes "quarters p" and "\<And>w. mp_words p w = 0"
  shows "\<exists>f. pool_inv (z_sys_mem_pool_base_init p) f \<and> merged f \<and> used f = {} \<and> (\<forall>b < mp_n_max p. f (0, b) = Some Free)
    \<and> mp_n_max (z_sys_mem_pool_base_init p) = mp_n_max p"
  using base_init_inv [OF assms] .

theorem mem_pool_init_correct_witness:
  "\<exists>f. pool_inv demo_pool f \<and> merged f \<and> used f = {} \<and> f (0, 1) = Some Free"
  using mem_pool_init_correct [OF demo_raw_quarters] unfolding demo_pool_def by auto

text \<open>
  C11. Allocating hands out a block that was not in use, of the smallest level that is large enough; nothing else in use
  changes. It fails, and changes nothing, only when no free block is large enough.\<close>

theorem mem_pool_alloc_correct:
  assumes "pool_inv p f" and "merged f"
  shows "case z_sys_mem_pool_block_alloc req p of
      (Inr (l, b, data), p') \<Rightarrow> l < mp_n_levels p \<and> data = blk p l b \<and> req \<le> lsizes p l
        \<and> (Suc l < mp_n_levels p \<longrightarrow> lsizes p (Suc l) < req)
        \<and> (\<exists>f'. pool_inv p' f' \<and> merged f' \<and> used f' = insert (l, b) (used f) \<and> (l, b) \<notin> used f)
    | (Inl e, p') \<Rightarrow> e = - ENOMEM \<and> p' = p \<and> (\<forall>l b. f (l, b) = Some Free \<longrightarrow> lsizes p l < req)"
  using alloc_inv [OF assms, of req] by (auto split: prod.splits sum.splits)

theorem mem_pool_alloc_correct_witness:
  "\<exists>p' f. z_sys_mem_pool_block_alloc 10 demo_pool = (Inr (1, 0, 1000), p') \<and> pool_inv p' f \<and> used f = {(1, 0)}"
proof -
  obtain f where "pool_inv demo_pool f" "merged f" "used f = {}" by (rule demo_forests)
  then show ?thesis using mem_pool_alloc_correct [of demo_pool f 10] unfolding demo_allocs by auto
qed

text \<open>
  C12. Freeing a block in use gives back exactly it and merges partners as far as they are free; when nothing is left
  in use, every block of the largest size is free again.\<close>

theorem mem_pool_free_correct:
  assumes "pool_inv p f" and "merged f" and "(l, b) \<in> used f"
  shows "\<exists>f'. pool_inv (z_sys_mem_pool_block_free l b p) f' \<and> merged f' \<and> used f' = used f - {(l, b)}
    \<and> (used f = {(l, b)} \<longrightarrow> (\<forall>b' < mp_n_max p. f' (0, b') = Some Free))"
  using block_free_inv [OF assms] .

theorem mem_pool_free_correct_witness:
  "\<exists>f. pool_inv (z_sys_mem_pool_block_free 1 0 (demo_taken 2 14 [1064] [1016, 1032, 1048])) f
    \<and> f (0, 0) = Some Free \<and> f (0, 1) = Some Free"
proof -
  obtain g where g: "pool_inv (demo_taken 2 14 [1064] [1016, 1032, 1048]) g" "merged g" "used g = {(1, 0)}" by (rule demo_forests)
  then show ?thesis using mem_pool_free_correct [OF g(1,2), of 1 0] by auto
qed

text \<open>
  C13. A block that is allocated lies within the pool's buffer with all its bytes, is large enough for the request, and has no
  byte in common with any block in use before; freeing another block leaves it so.\<close>

theorem mem_pool_blocks_apart:
  assumes "pool_inv p f" and "merged f" and "z_sys_mem_pool_block_alloc req p = (Inr (l, b, data), p')"
  shows "req \<le> lsizes p l \<and> mp_buf p \<le> data \<and> data + lsizes p l \<le> mp_buf p + buf_size p
    \<and> (\<forall>(l', b')\<in>used f. {data ..< data + lsizes p l} \<inter> {blk p l' b' ..< blk p l' b' + lsizes p l'} = {}
        \<and> (\<exists>f'. pool_inv (z_sys_mem_pool_block_free l' b' p') f' \<and> used f' = insert (l, b) (used f) - {(l', b')}))"
proof -
  note A = alloc_inv [OF assms(1,2), of req, unfolded assms(3)]
  have sh: "same_shape p p'" and d: "data = blk p l b" "req \<le> lsizes p l" using A by simp_all
  obtain f' where f': "pool_inv p' f'" "merged f'" "used f' = insert (l, b) (used f)" "(l, b) \<notin> used f" using A by auto
  note S = same_shapeD [OF sh]
  have e: "block_ptr p' = block_ptr p" "lsizes p' = lsizes p" "mp_buf p' = mp_buf p" "buf_size p' = buf_size p"
    using S sh by (simp_all add: fun_eq_iff block_ptr_def buf_size_def same_shape_def)
  have "(l, b) \<in> used f'" using f'(3) by simp
  note B = used_in_buffer [OF f'(1) this, unfolded e, folded d(1)]
  have "{data ..< data + lsizes p l} \<inter> {blk p l' b' ..< blk p l' b' + lsizes p l'} = {}" if "(l', b') \<in> used f" for l' b'
  proof -
    have "(l, b) \<in> used f'" "(l', b') \<in> used f'" "(l, b) \<noteq> (l', b')" using that f'(3,4) by auto
    then show ?thesis using used_blocks_apart [OF f'(1)] unfolding e d(1) by blast
  qed
  moreover have "\<exists>f''. pool_inv (z_sys_mem_pool_block_free l' b' p') f'' \<and> used f'' = insert (l, b) (used f) - {(l', b')}"
    if "(l', b') \<in> used f" for l' b'
    using block_free_inv [OF f'(1,2), of l' b'] that f'(3) by auto
  ultimately show ?thesis using B d(2) by blast
qed

theorem mem_pool_blocks_apart_witness:
  "\<exists>p' f. z_sys_mem_pool_block_alloc 16 (demo_taken 2 14 [1064] [1016, 1032, 1048]) = (Inr (1, 1, 1016), p')
    \<and> used f = {(1, 0)} \<and> {1016 ..< 1032} \<inter> {blk (demo_taken 2 14 [1064] [1016, 1032, 1048]) 1 0 ..<
        blk (demo_taken 2 14 [1064] [1016, 1032, 1048]) 1 0 + 16} = {}"
proof -
  obtain g where g: "pool_inv (demo_taken 2 14 [1064] [1016, 1032, 1048]) g" "merged g" "used g = {(1, 0)}" by (rule demo_forests)
  show ?thesis using mem_pool_blocks_apart [OF g(1,2), of 16] g(3) unfolding demo_allocs by fastforce
qed

end
