(* ===== verification/KHeap.thy ===== *)
theory KHeap
  imports KMemPool
begin

text \<open>
  What is built on the allocator of memory pools: the sizing macros of \<^verbatim>\<open>mempool_base.h\<close>, the pools of
  user-mode code (\<^verbatim>\<open>sys_mem_pool_alloc\<close>, the section under the pool's mutex), the kernel's pools with their waiting
  threads and the kernel heap (\<^verbatim>\<open>kernel/mempool.c\<close>). A block descriptor is the 32-bit word of its bit fields, in the
  first bytes of the block; \<open>m\<close> holds the bytes of the blocks in use and whatever lies outside the pools. The bytes of
  the free blocks are not part of it: there the code keeps the nodes of the free lists, which are the lists \<open>mp_free\<close> of the
  pool, so that what it writes into them (\<^verbatim>\<open>sys_dlist_get\<close>, \<^verbatim>\<open>sys_dlist_append\<close>) is the change of these lists. Pools go by their position in the list of pools.
\<close>

section \<open>The sizes of a static pool\<close>

definition Z_MPOOL_HAVE_LVL :: "nat \<Rightarrow> nat \<Rightarrow> nat \<Rightarrow> nat" where
  "Z_MPOOL_HAVE_LVL maxsz minsz l = (if drop_bit (2 * l) maxsz \<ge> minsz then 1 else 0)"

definition MPOOL_MINBLK :: nat where "MPOOL_MINBLK = 8"

definition Z_MPOOL_LVLS :: "nat \<Rightarrow> nat \<Rightarrow> nat" where
  "Z_MPOOL_LVLS maxsz minsz =
     sum_list (map (Z_MPOOL_HAVE_LVL maxsz (if minsz \<ge> MPOOL_MINBLK then minsz else MPOOL_MINBLK)) [0..<16])"

definition Z_MPOOL_LBIT_WORDS_UNCLAMPED :: "nat \<Rightarrow> nat \<Rightarrow> nat" where
  "Z_MPOOL_LBIT_WORDS_UNCLAMPED n_max l = (push_bit (2 * l) n_max + 31) div 32"

definition Z_MPOOL_LBIT_WORDS :: "nat \<Rightarrow> nat \<Rightarrow> nat" where
  "Z_MPOOL_LBIT_WORDS n_max l =
     (if Z_MPOOL_LBIT_WORDS_UNCLAMPED n_max l < 2 then 0 else Z_MPOOL_LBIT_WORDS_UNCLAMPED n_max l)"

definition Z_MPOOL_LBIT_BYTES :: "nat \<Rightarrow> nat \<Rightarrow> nat \<Rightarrow> nat \<Rightarrow> nat" where
  "Z_MPOOL_LBIT_BYTES maxsz minsz n_max l = (if Z_MPOOL_LVLS maxsz minsz \<ge> l then 4 * Z_MPOOL_LBIT_WORDS n_max l else 0)"

definition MPOOL_BITS_SIZE :: "nat \<Rightarrow> nat \<Rightarrow> nat \<Rightarrow> nat" where
  "MPOOL_BITS_SIZE maxsz minsz n_max = sum_list (map (Z_MPOOL_LBIT_BYTES maxsz minsz n_max) [0..<16])"

abbreviation behind_words :: "mpool \<Rightarrow> nat \<Rightarrow> nat" where
  "behind_words p l \<equiv> if nblk p l < 32 then 0 else level_words p l"

lemma init_levels_bits:
  assumes "quarters p" and "i + n = mp_n_levels p" and "n > 0 \<longrightarrow> sz = lsizes p i" and "i \<le> j" and "j < i + n" and "32 \<le> nblk p j"
  shows "mp_bits_p (init_levels n i sz bits p) j + level_words p j \<le> bits + (\<Sum>k = i..<i + n. behind_words p k)"
  using assms
proof (induction n arbitrary: i sz bits p)
  case (Suc n)
  have i: "i < mp_n_levels p" using Suc.prems(2) by simp
  note z = lsizes_exact [OF Suc.prems(1) i]
  have "buf_size p = lsizes p i * nblk p i" using z(1) by (simp add: buf_size_def mult_ac flip: z(1))
  then have nb: "buf_size p div sz = nblk p i" using Suc.prems(3) z(2) by simp
  define p2 where "p2 = (if nblk p i < 32 then p\<lparr>mp_free := (mp_free p)(i := []), mp_max_inline := int i\<rparr>
    else p\<lparr>mp_free := (mp_free p)(i := []), mp_bits_p := (mp_bits_p p)(i := bits)\<rparr>)"
  define bits' where "bits' = bits + behind_words p i"
  have e: "init_levels (Suc n) i sz bits p = init_levels n (i + 1) (ALIGN4 (sz div 4)) bits' p2"
    using nb by (simp add: p2_def bits'_def level_words_def buf_size_def Let_def)
  have f: "mp_max_sz p2 = mp_max_sz p" "mp_n_max p2 = mp_n_max p" "mp_n_levels p2 = mp_n_levels p" by (simp_all add: p2_def)
  have lw: "level_words p2 k = level_words p k" for k by (simp add: level_words_def f)
  have s: "(\<Sum>k = i..<i + Suc n. behind_words p k) = behind_words p i + (\<Sum>k = i + 1..<i + 1 + n. behind_words p k)"
    by (subst sum.atLeast_Suc_lessThan) simp_all
  show ?case
  proof (cases "j = i")
    case True
    have "mp_bits_p (init_levels n (i + 1) sz' b' q) j = mp_bits_p q j" for sz' b' q
    proof -
      have "mp_bits_p (init_levels n i' sz' b' q) j = mp_bits_p q j" if "j < i'" for i' sz' b' q
        using that by (induction n arbitrary: i' sz' b' q) (simp_all add: Let_def)
      then show ?thesis using True by simp
    qed
    then show ?thesis using True Suc.prems(6) unfolding e s by (simp add: p2_def)
  next
    case False
    have "quarters p2" using Suc.prems(1) f by (simp add: quarters_def)
    moreover have "ALIGN4 (sz div 4) = lsizes p2 (i + 1)" using Suc.prems(3) lsizes_cong [OF f(1), of "i + 1"] by (simp add: lsizes.simps(2))
    ultimately have "mp_bits_p (init_levels n (i + 1) (ALIGN4 (sz div 4)) bits' p2) j + level_words p2 j
        \<le> bits' + (\<Sum>k = i + 1..<i + 1 + n. behind_words p2 k)"
      using Suc.prems False by (intro Suc.IH) (simp_all add: f)
    then show ?thesis unfolding e s lw f(2) bits'_def by simp
  qed
qed simp

lemma words_covered:
  "(\<Sum>l<L. if n * 4 ^ l < 32 then 0 else Z_MPOOL_LBIT_WORDS_UNCLAMPED n l) \<le> (\<Sum>l<Suc L. Z_MPOOL_LBIT_WORDS n l)"
proof -
  let ?U = "Z_MPOOL_LBIT_WORDS_UNCLAMPED n" and ?W = "Z_MPOOL_LBIT_WORDS n"
  let ?B = "\<lambda>l. if n * 4 ^ l < 32 then 0 else ?U l"
  have U: "?U l = (n * 4 ^ l + 31) div 32" for l by (simp add: Z_MPOOL_LBIT_WORDS_UNCLAMPED_def push_bit_eq_mult power_mult)
  have tb: "?B l \<le> ?W l + (if n * 4 ^ l = 32 then 1 else 0)" for l
    unfolding Z_MPOOL_LBIT_WORDS_def U by auto
  show ?thesis
  proof (cases "\<exists>l<L. n * 4 ^ l = 32")
    case True
    then obtain l0 where l0: "l0 < L" "n * 4 ^ l0 = 32" by blast
    then have n0: "0 < n" by (cases n) simp_all
    have uniq: "n * 4 ^ l = 32 \<longleftrightarrow> l = l0" for l
    proof
      assume "n * 4 ^ l = 32"
      then have "n * 4 ^ l = n * 4 ^ l0" using l0(2) by simp
      then show "l = l0" using n0 by (simp add: power_inject_exp)
    qed (use l0 in simp)
    have "n * 4 ^ l0 < n * 4 ^ L" using n0 l0(1) by (intro mult_strict_left_mono power_strict_increasing) simp_all
    then have "1 \<le> ?W L" unfolding Z_MPOOL_LBIT_WORDS_def U using l0(2) by simp
    moreover have "(\<Sum>l<L. ?B l) \<le> (\<Sum>l<L. ?W l + (if l = l0 then 1 else 0))" using tb unfolding uniq by (intro sum_mono) simp
    moreover have "(\<Sum>l<L. ?W l + (if l = l0 then 1 else 0)) = (\<Sum>l<L. ?W l) + 1" using l0(1) by (simp add: sum.distrib sum.delta)
    ultimately show ?thesis by simp
  next
    case False
    have "(\<Sum>l<L. ?B l) \<le> (\<Sum>l<L. ?W l)"
    proof (rule sum_mono)
      fix l assume "l \<in> {..<L}"
      then have "n * 4 ^ l \<noteq> 32" using False by blast
      then show "?B l \<le> ?W l" using tb [of l] by simp
    qed
    then show ?thesis by simp
  qed
qed

lemma lvls_le: "maxsz < 2 ^ 32 \<Longrightarrow> Z_MPOOL_LVLS maxsz minsz \<le> 15"
proof -
  let ?h = "Z_MPOOL_HAVE_LVL maxsz (if minsz \<ge> MPOOL_MINBLK then minsz else MPOOL_MINBLK)"
  assume "maxsz < 2 ^ 32"
  then have "maxsz div 2 ^ 30 < 8" by (simp add: div_less_iff_less_mult)
  then have "?h 15 = 0" by (simp add: Z_MPOOL_HAVE_LVL_def MPOOL_MINBLK_def drop_bit_eq_div)
  moreover have "(\<Sum>l\<leftarrow>[0..<15]. ?h l) \<le> (\<Sum>l\<leftarrow>[0..<15]. 1)" by (intro sum_list_mono) (simp add: Z_MPOOL_HAVE_LVL_def)
  then have "(\<Sum>l\<leftarrow>[0..<15]. ?h l) \<le> 15" by (simp add: sum_list_triv del: upt_conv_Cons)
  moreover have "[0..<16] = [0..<15] @ [15]" by (simp add: upt_rec)
  ultimately show ?thesis unfolding Z_MPOOL_LVLS_def by simp
qed

lemma bits_size_ge:
  assumes "maxsz < 2 ^ 32"
  shows "4 * (\<Sum>l<Suc (Z_MPOOL_LVLS maxsz minsz). Z_MPOOL_LBIT_WORDS n l) \<le> MPOOL_BITS_SIZE maxsz minsz n"
proof -
  let ?L = "Z_MPOOL_LVLS maxsz minsz"
  have "MPOOL_BITS_SIZE maxsz minsz n = (\<Sum>l<16. Z_MPOOL_LBIT_BYTES maxsz minsz n l)"
    unfolding MPOOL_BITS_SIZE_def by (simp add: interv_sum_list_conv_sum_set_nat atLeast0LessThan del: upt_conv_Cons)
  also have "\<dots> \<ge> (\<Sum>l<Suc ?L. Z_MPOOL_LBIT_BYTES maxsz minsz n l)"
    using lvls_le [OF assms, of minsz] by (intro sum_mono2) auto
  also have "(\<Sum>l<Suc ?L. Z_MPOOL_LBIT_BYTES maxsz minsz n l) = (\<Sum>l<Suc ?L. 4 * Z_MPOOL_LBIT_WORDS n l)"
    by (intro sum.cong) (auto simp: Z_MPOOL_LBIT_BYTES_def)
  finally show ?thesis by (simp add: sum_distrib_left)
qed

text \<open>
  C14. The free bits fit where they are kept: a level with its bits inline uses only the one word it has, and the words
  behind the buffer lie in the space the pool's static definition reserves there. (Its sizing reserves nothing for a
  level of exactly 32 blocks, which the initialisation does put behind the buffer; the bits it reserves for one level
  more than there is make up for that.)\<close>

theorem mem_pool_bits_fit:
  assumes "quarters p" and "mp_max_sz p < 2 ^ 32" and "mp_n_levels p = Z_MPOOL_LVLS (mp_max_sz p) minsz"
    and "l < mp_n_levels p" and "b < nblk p l"
  shows "case fst (get_bit_ptr (z_sys_mem_pool_base_init p) l b) of
      Inline l' w \<Rightarrow> l' = l \<and> w = 0
    | Behind w \<Rightarrow> 4 * w + 4 \<le> MPOOL_BITS_SIZE (mp_max_sz p) minsz (mp_n_max p)"
proof -
  define p0 where "p0 = p\<lparr>mp_max_inline := - 1\<rparr>"
  define p1 where "p1 = init_levels (mp_n_levels p0) 0 (mp_max_sz p0) 0 p0"
  have q: "quarters p0" using assms(1) by (simp add: quarters_def p0_def)
  have L: "0 < mp_n_levels p0" using q by (simp add: quarters_def)
  have z: "mp_max_sz p0 = lsizes p0 0" using lsizes_exact(1) [OF q L] by (simp del: lsizes.simps)
  moreover have "levels_set 0 0 p0" by (simp add: levels_set_def p0_def)
  ultimately obtain bits where ls: "levels_set (mp_n_levels p1) bits p1"
    using init_levels_set [OF q, of 0 "mp_n_levels p0" "mp_max_sz p0" 0] unfolding p1_def by (auto simp del: lsizes.simps)
  have n: "mp_n_max p1 = mp_n_max p" "mp_n_levels p1 = mp_n_levels p" by (simp_all add: p1_def p0_def)
  have "mp_max_inline (init_blocks m i r) = mp_max_inline r \<and> mp_bits_p (init_blocks m i r) = mp_bits_p r" for m i r
    by (induction m arbitrary: i r) (simp_all add: set_free_bit_def list_append_def split: prod.split)
  then have g: "get_bit_ptr (z_sys_mem_pool_base_init p) l b = get_bit_ptr p1 l b"
    by (simp add: z_sys_mem_pool_base_init_def p1_def p0_def Let_def get_bit_ptr_def)
  have inl: "int l \<le> mp_max_inline p1 \<longleftrightarrow> nblk p l < 32" using ls assms(4) n by (simp add: levels_set_def)
  show ?thesis
  proof (cases "nblk p l < 32")
    case True
    then show ?thesis using inl assms(5) unfolding g by (simp add: get_bit_ptr_def)
  next
    case False
    let ?B = "\<lambda>k. if mp_n_max p * 4 ^ k < 32 then 0 else Z_MPOOL_LBIT_WORDS_UNCLAMPED (mp_n_max p) k"
    have lw: "level_words p0 k = Z_MPOOL_LBIT_WORDS_UNCLAMPED (mp_n_max p) k" for k
      by (simp add: level_words_def p0_def Z_MPOOL_LBIT_WORDS_UNCLAMPED_def push_bit_eq_mult power_mult)
    have "mp_bits_p p1 l + level_words p0 l \<le> 0 + (\<Sum>k = 0..<0 + mp_n_levels p0. behind_words p0 k)"
      unfolding p1_def using False assms(4) z by (intro init_levels_bits [OF q]) (simp_all add: p0_def del: lsizes.simps)
    then have "mp_bits_p p1 l + level_words p0 l \<le> (\<Sum>k<mp_n_levels p. ?B k)"
      unfolding lw by (simp add: p0_def atLeast0LessThan)
    moreover have "b div 32 < level_words p0 l" using assms(5) by (simp add: level_words_def p0_def div_less_iff_less_mult)
    moreover have "w + m \<le> s \<Longrightarrow> d < m \<Longrightarrow> 4 * (w + d) + 4 \<le> 4 * s" for w m s d :: nat by simp
    ultimately have "4 * (mp_bits_p p1 l + b div 32) + 4 \<le> 4 * (\<Sum>k<mp_n_levels p. ?B k)" by blast
    also have "\<dots> \<le> 4 * (\<Sum>k<Suc (mp_n_levels p). Z_MPOOL_LBIT_WORDS (mp_n_max p) k)" by (intro mult_le_mono2 words_covered)
    also have "\<dots> \<le> MPOOL_BITS_SIZE (mp_max_sz p) minsz (mp_n_max p)" unfolding assms(3) by (rule bits_size_ge [OF assms(2)])
    finally show ?thesis using False inl unfolding g by (simp add: get_bit_ptr_def)
  qed
qed

theorem mem_pool_bits_fit_witness:
  "case fst (get_bit_ptr (z_sys_mem_pool_base_init \<lparr>mp_buf = 1000, mp_max_sz = 256, mp_n_max = 2, mp_n_levels = 3, mp_max_inline = 0,
       mp_bits_p = \<lambda>_. 0, mp_words = \<lambda>_. 0, mp_free = \<lambda>_. []\<rparr>) 2 31) of
      Inline l' w \<Rightarrow> l' = 2 \<and> w = 0
    | Behind w \<Rightarrow> 4 * w + 4 \<le> MPOOL_BITS_SIZE 256 8 2"
proof -
  let ?p = "\<lparr>mp_buf = 1000, mp_max_sz = 256, mp_n_max = 2, mp_n_levels = 3, mp_max_inline = 0,
       mp_bits_p = \<lambda>_. 0, mp_words = \<lambda>_. 0, mp_free = \<lambda>_. []\<rparr>"
  have "Z_MPOOL_LVLS 256 8 = 3"
    by (simp add: Z_MPOOL_LVLS_def Z_MPOOL_HAVE_LVL_def MPOOL_MINBLK_def drop_bit_eq_div upt_rec)
  moreover have "quarters ?p" by (rule quarters_I [of _ 3]) simp_all
  ultimately show ?thesis using mem_pool_bits_fit [of ?p 8 2 31] by (simp cong: bit_word.case_cong)
qed

section \<open>Blocks that carry their descriptor\<close>

text \<open>
  What the clients rely on: a descriptor written into the first \<open>hdr\<close> bytes of a block is read back as long as
  these bytes are left alone, for pools and blocks whose numbers fit its fields.
\<close>

locale block_header =
  fixes hdr :: nat and max_pool :: nat and max_block :: nat
    and put_header :: "nat \<Rightarrow> nat \<Rightarrow> nat \<Rightarrow> nat \<Rightarrow> (nat \<Rightarrow> u8) \<Rightarrow> nat \<Rightarrow> u8"
    and get_header :: "(nat \<Rightarrow> u8) \<Rightarrow> nat \<Rightarrow> nat \<times> nat \<times> nat"
  assumes get_put: "i < max_pool \<Longrightarrow> l < 16 \<Longrightarrow> b < max_block \<Longrightarrow> get_header (put_header a i l b m) a = (i, l, b)"
    and put_local: "x < a \<or> a + hdr \<le> x \<Longrightarrow> put_header a i l b m x = m x"
    and get_local: "(\<And>j. j < hdr \<Longrightarrow> m (a + j) = m' (a + j)) \<Longrightarrow> get_header m a = get_header m' a"
begin

definition fits :: "nat \<Rightarrow> mpool \<Rightarrow> bool" where
  "fits i p \<longleftrightarrow> i < max_pool \<and> mp_n_levels p \<le> 16 \<and> (\<forall>l < mp_n_levels p. nblk p l \<le> max_block)"

lemma alloc_free_roundtrip:
  assumes inv: "pool_inv p f" "merged f" and fi: "fits i p" and al: "z_sys_mem_pool_block_alloc req p = (Inr (l, b, data), p')"
    and kept: "\<And>j. j < hdr \<Longrightarrow> m' (data + j) = put_header data i l b m (data + j)"
  shows "get_header m' data = (i, l, b)"
    and "\<exists>f'. pool_inv (z_sys_mem_pool_block_free l b p') f' \<and> merged f' \<and> used f' = used f"
proof -
  obtain f1 where L: "l < mp_n_levels p" and sh: "same_shape p p'" and f1: "pool_inv p' f1" "merged f1" "used f1 = insert (l, b) (used f)"
      "(l, b) \<notin> used f"
    using alloc_inv [OF inv, of req] al by auto
  have "f1 (l, b) = Some Used" using f1(3) by (auto simp: used_def)
  then have "b < nblk p l" using forest_range(2) [OF pool_invD(3,4) [OF f1(1)], of l b] by (simp add: same_shapeD [OF sh])
  then have "l < 16" "b < max_block" "i < max_pool" using fi L unfolding fits_def by (meson order.strict_trans2)+
  then show "get_header m' data = (i, l, b)" using get_put [of i l b data m] get_local [of m' data "put_header data i l b m"] kept by simp
  show "\<exists>f'. pool_inv (z_sys_mem_pool_block_free l b p') f' \<and> merged f' \<and> used f' = used f"
    using block_free_inv [OF f1(1,2), of l b] f1(3,4) by auto
qed

lemma alloc_region:
  assumes inv: "pool_inv p f" "merged f" and al: "z_sys_mem_pool_block_alloc req p = (Inr (l, b, data), p')" and h: "hdr \<le> req"
  shows "(l, b) \<notin> used f" and "data = blk p l b" and "data + req \<le> blk p l b + lsizes p l" and "mp_buf p \<le> data"
    and "\<exists>f'. pool_inv p' f' \<and> merged f' \<and> used f' = insert (l, b) (used f)"
    and "x < blk p l b \<or> blk p l b + lsizes p l \<le> x \<Longrightarrow> put_header data i l b m x = m x"
proof -
  note A = alloc_inv [OF inv, of req, unfolded al]
  show "(l, b) \<notin> used f" "data + req \<le> blk p l b + lsizes p l"
    "\<exists>f'. pool_inv p' f' \<and> merged f' \<and> used f' = insert (l, b) (used f)" using A by auto
  show d: "data = blk p l b" using A by simp
  then show "mp_buf p \<le> data" by (simp add: block_ptr_def)
  show "put_header data i l b m x = m x" if "x < blk p l b \<or> blk p l b + lsizes p l \<le> x"
    using that A h unfolding d by (intro put_local) auto
qed

end

section \<open>Pools of user-mode code\<close>

text \<open>\<^verbatim>\<open>struct sys_mem_pool_block\<close>: the pool's address and a word with 4 bits of level and 28 of block number.\<close>

definition put_sys_block :: "nat \<Rightarrow> nat \<Rightarrow> nat \<Rightarrow> nat \<Rightarrow> (nat \<Rightarrow> u8) \<Rightarrow> nat \<Rightarrow> u8" where
  "put_sys_block a pool level block m =
     put32 (put32 m a (of_nat pool)) (a + 4) (take_bit 4 (of_nat level) OR push_bit 4 (of_nat block))"

definition get_sys_block :: "(nat \<Rightarrow> u8) \<Rightarrow> nat \<Rightarrow> nat \<times> nat \<times> nat" where
  "get_sys_block m a =
     (unat (get32 m a), unat (take_bit 4 (get32 m (a + 4))), unat (drop_bit 4 (get32 m (a + 4))))"

definition sys_mem_pool_alloc ::
  "nat \<Rightarrow> u32 \<Rightarrow> (nat \<Rightarrow> mpool) \<Rightarrow> (nat \<Rightarrow> u8) \<Rightarrow> nat \<times> (nat \<Rightarrow> mpool) \<times> (nat \<Rightarrow> u8)" where
  "sys_mem_pool_alloc p size_b pools m =
     (let size_b = size_b + 8
      in case z_sys_mem_pool_block_alloc (unat size_b) (pools p) of
           (Inl e, base) \<Rightarrow> (0, pools(p := base), m)
         | (Inr (level, block, ret), base) \<Rightarrow> (ret + 8, pools(p := base), put_sys_block ret p level block m))"

definition sys_mem_pool_free :: "nat \<Rightarrow> (nat \<Rightarrow> mpool) \<Rightarrow> (nat \<Rightarrow> u8) \<Rightarrow> nat \<Rightarrow> mpool" where
  "sys_mem_pool_free ptr pools m =
     (if ptr = 0 then pools
      else case get_sys_block m (ptr - 8) of
        (p, level, block) \<Rightarrow> pools(p := z_sys_mem_pool_block_free level block (pools p)))"

lemma low_fields:
  fixes x y :: u32
  assumes "unat x < 2 ^ n" and "unat y < 2 ^ (32 - n)" and "n \<le> 32"
  shows "take_bit n (x OR push_bit n y) = x" and "drop_bit n (x OR push_bit n y) = y"
proof -
  have x: "take_bit n x = x" using assms(1) by (metis take_bit_nat_eq_self_iff unsigned_take_bit_eq word_unat_eq_iff)
  have y: "take_bit (32 - n) y = y" using assms(2) by (metis take_bit_nat_eq_self_iff unsigned_take_bit_eq word_unat_eq_iff)
  show "take_bit n (x OR push_bit n y) = x" by (simp add: x take_bit_push_bit)
  have "n + j < 32" if "bit y j" for j
  proof -
    have "j < 32 - n" using y that by (metis bit_take_bit_iff)
    then show ?thesis by simp
  qed
  moreover have "\<not> bit x (n + j)" for j using x by (metis bit_take_bit_iff not_add_less1)
  ultimately show "drop_bit n (x OR push_bit n y) = y"
    by (intro bit_word_eqI) (auto simp: bit_simps)
qed

interpretation sys_block: block_header 8 "2 ^ 32" "2 ^ 28" put_sys_block get_sys_block
proof unfold_locales
  fix i l b a :: nat and m :: "nat \<Rightarrow> u8"
  assume r: "i < 2 ^ 32" "l < 16" "b < 2 ^ 28"
  have "unat (of_nat i :: u32) = i" "unat (of_nat l :: u32) = l" "unat (of_nat b :: u32) = b"
    using r by (simp_all add: unat_of_nat_u32)
  moreover from this r have "take_bit 4 (of_nat l :: u32) = of_nat l"
    by (intro unat_u32_inj) (simp add: unsigned_take_bit_eq take_bit_nat_eq_self)
  ultimately show "get_sys_block (put_sys_block a i l b m) a = (i, l, b)"
    using low_fields [of "of_nat l" 4 "of_nat b"] r by (simp add: get_sys_block_def put_sys_block_def get32_put32_other)
next
  show "put_sys_block a i l b m x = m x" if "x < a \<or> a + 8 \<le> x" for x a i l b m
    using that by (auto simp: put_sys_block_def put32_other)
next
  show "get_sys_block m a = get_sys_block m' a" if "\<And>j. j < 8 \<Longrightarrow> m (a + j) = m' (a + j)" for a m m'
  proof -
    have "get32 m a = get32 m' a" by (rule get32_cong) (use that in simp)
    moreover have "get32 m (a + 4) = get32 m' (a + 4)"
      by (rule get32_cong) (use that [of "4 + _"] in \<open>simp add: add.assoc\<close>)
    ultimately show ?thesis by (simp add: get_sys_block_def)
  qed
qed


section \<open>Kernel pools\<close>

record kpool =
  kp_base :: mpool
  kp_wait_q :: wqid

text \<open>\<^verbatim>\<open>struct k_mem_block_id\<close>: 8 bits of pool number, 4 of level, 20 of block number.\<close>

definition k_mem_block_id :: "nat \<Rightarrow> nat \<Rightarrow> nat \<Rightarrow> u32" where
  "k_mem_block_id pool level block =
     take_bit 8 (of_nat pool) OR push_bit 8 (take_bit 4 (of_nat level) OR push_bit 4 (take_bit 20 (of_nat block)))"

definition id_fields :: "u32 \<Rightarrow> nat \<times> nat \<times> nat" where
  "id_fields w = (unat (take_bit 8 w), unat (take_bit 4 (drop_bit 8 w)), unat (drop_bit 12 w))"

definition k_mem_pool_init :: "nat \<Rightarrow> (nat \<Rightarrow> kpool) \<times> 'a kernel_scheme \<Rightarrow> (nat \<Rightarrow> kpool) \<times> 'a kernel_scheme" where
  "k_mem_pool_init i s =
     (case s of (pools, k) \<Rightarrow>
        (pools(i := (pools i)\<lparr>kp_base := z_sys_mem_pool_base_init (kp_base (pools i))\<rparr>), set_list (WaitQ (kp_wait_q (pools i))) [] k))"

definition init_static_pools :: "nat \<Rightarrow> (nat \<Rightarrow> kpool) \<times> 'a kernel_scheme \<Rightarrow> (nat \<Rightarrow> kpool) \<times> 'a kernel_scheme" where
  "init_static_pools n s = fold k_mem_pool_init [0..<n] s"

fun alloc_retry :: "nat \<Rightarrow> nat \<Rightarrow> mpool \<Rightarrow> (int + nat \<times> nat \<times> nat) \<times> mpool" where
  "alloc_retry 0 req p = (Inl (- EAGAIN), p)"
| "alloc_retry (Suc n) req p =
     (case z_sys_mem_pool_block_alloc req p of
        (Inl e, p) \<Rightarrow> if e = - EAGAIN then alloc_retry n req p else (Inl e, p)
      | (Inr r, p) \<Rightarrow> (Inr r, p))"

text \<open>
  One round of the loop of \<^verbatim>\<open>k_mem_pool_alloc\<close>, up to its wait: the call is over with a return value and the block,
  \<open>Inl\<close>, or its thread waits with a timeout, \<open>Inr\<close>.
\<close>

definition alloc_round ::
  "nat \<Rightarrow> nat \<Rightarrow> int \<Rightarrow> (nat \<Rightarrow> kpool) \<Rightarrow> 'a kernel_scheme
     \<Rightarrow> ((int \<times> (nat \<times> u32) option) + int) \<times> (nat \<Rightarrow> kpool) \<times> 'a kernel_scheme" where
  "alloc_round p size_b timeout pools k =
     (case alloc_retry 2 size_b (kp_base (pools p)) of (r, base) \<Rightarrow>
        let pools = pools(p := (pools p)\<lparr>kp_base := base\<rparr>)
        in case r of
             Inr (level, block, data) \<Rightarrow> (Inl (0, Some (data, k_mem_block_id p level block)), pools, k)
           | Inl e \<Rightarrow>
               let ret = (if e = - EAGAIN then - ENOMEM else e)
               in if timeout = K_NO_WAIT \<or> ret \<noteq> - ENOMEM then (Inl (ret, None), pools, k)
                  else (Inr timeout, pools, z_pend_curr (Some (kp_wait_q (pools p))) timeout k))"

definition alloc_end :: "int \<Rightarrow> 'a kernel_scheme \<Rightarrow> int" where
  "alloc_end timeout k = (if timeout > 0 then int (z_tick_get k) + z_ms_to_ticks timeout else 0)"

text \<open>The first component is the local \<^verbatim>\<open>end\<close>, which a waiting call resumes with.\<close>

definition k_mem_pool_alloc ::
  "nat \<Rightarrow> nat \<Rightarrow> int \<Rightarrow> (nat \<Rightarrow> kpool) \<Rightarrow> 'a kernel_scheme
     \<Rightarrow> int \<times> ((int \<times> (nat \<times> u32) option) + int) \<times> (nat \<Rightarrow> kpool) \<times> 'a kernel_scheme" where
  "k_mem_pool_alloc p size_b timeout pools k = (alloc_end timeout k, alloc_round p size_b timeout pools k)"

definition k_mem_pool_alloc_resume ::
  "int \<Rightarrow> nat \<Rightarrow> nat \<Rightarrow> int \<Rightarrow> (nat \<Rightarrow> kpool) \<Rightarrow> 'a kernel_scheme
     \<Rightarrow> ((int \<times> (nat \<times> u32) option) + int) \<times> (nat \<Rightarrow> kpool) \<times> 'a kernel_scheme" where
  "k_mem_pool_alloc_resume end_t p size_b timeout pools k =
     (if timeout \<noteq> K_FOREVER
      then let timeout = s32 (end_t - int (z_tick_get k))
           in if timeout < 0 then (Inl (- EAGAIN, None), pools, k) else alloc_round p size_b timeout pools k
      else alloc_round p size_b timeout pools k)"

definition k_mem_pool_free_id :: "u32 \<Rightarrow> (nat \<Rightarrow> kpool) \<Rightarrow> 'a kernel_scheme \<Rightarrow> (nat \<Rightarrow> kpool) \<times> 'a kernel_scheme" where
  "k_mem_pool_free_id w pools k =
     (case id_fields w of (p, level, block) \<Rightarrow>
        (pools(p := (pools p)\<lparr>kp_base := z_sys_mem_pool_block_free level block (kp_base (pools p))\<rparr>),
         case z_unpend_all (kp_wait_q (pools p)) k of (need_sched, k) \<Rightarrow> if need_sched then z_reschedule k else k))"

definition k_mem_pool_free :: "nat \<times> u32 \<Rightarrow> (nat \<Rightarrow> kpool) \<Rightarrow> 'a kernel_scheme \<Rightarrow> (nat \<Rightarrow> kpool) \<times> 'a kernel_scheme" where
  "k_mem_pool_free block = k_mem_pool_free_id (snd block)"

section \<open>The kernel heap\<close>

text \<open>
  The memory \<open>m\<close> that these functions are given and return stands for the blocks in use and for what lies outside the
  pools; the list nodes inside the free blocks change with \<open>mp_free\<close> in \<open>pools\<close> and are not in \<open>m\<close>.
\<close>

definition k_mem_pool_malloc ::
  "nat \<Rightarrow> u32 \<Rightarrow> (nat \<Rightarrow> kpool) \<Rightarrow> (nat \<Rightarrow> u8) \<Rightarrow> 'a kernel_scheme \<Rightarrow> nat \<times> (nat \<Rightarrow> kpool) \<times> (nat \<Rightarrow> u8) \<times> 'a kernel_scheme" where
  "k_mem_pool_malloc p size_b pools m k =
     (if unat size_b + 4 \<ge> 2 ^ 32 then (0, pools, m, k)
      else case k_mem_pool_alloc p (unat (size_b + 4)) K_NO_WAIT pools k of
        (end_t, Inl (ret, Some (data, w)), pools, k) \<Rightarrow> (data + 4, pools, put32 m data w, k)
      | (end_t, r, pools, k) \<Rightarrow> (0, pools, m, k))"

definition k_free :: "nat \<Rightarrow> (nat \<Rightarrow> kpool) \<Rightarrow> (nat \<Rightarrow> u8) \<Rightarrow> 'a kernel_scheme \<Rightarrow> (nat \<Rightarrow> kpool) \<times> 'a kernel_scheme" where
  "k_free ptr pools m k = (if ptr \<noteq> 0 then k_mem_pool_free_id (get32 m (ptr - 4)) pools k else (pools, k))"

text \<open>\<open>heap\<close> is the number of \<^verbatim>\<open>_heap_mem_pool\<close> among the pools.\<close>

definition k_malloc where
  "k_malloc heap size_b pools m k = k_mem_pool_malloc heap size_b pools m k"

definition k_calloc ::
  "nat \<Rightarrow> u32 \<Rightarrow> u32 \<Rightarrow> (nat \<Rightarrow> kpool) \<Rightarrow> (nat \<Rightarrow> u8) \<Rightarrow> 'a kernel_scheme \<Rightarrow> nat \<times> (nat \<Rightarrow> kpool) \<times> (nat \<Rightarrow> u8) \<times> 'a kernel_scheme" where
  "k_calloc heap nmemb size_b pools m k =
     (if unat nmemb * unat size_b \<ge> 2 ^ 32 then (0, pools, m, k)
      else let bounds = nmemb * size_b
           in case k_malloc heap bounds pools m k of
                (ret, pools, m, k) \<Rightarrow>
                  (ret, pools, if ret \<noteq> 0 then (\<lambda>a. if ret \<le> a \<and> a < ret + unat bounds then 0 else m a) else m, k))"

definition k_thread_system_pool_assign :: "nat \<Rightarrow> tid \<Rightarrow> (tid \<Rightarrow> nat option) \<Rightarrow> tid \<Rightarrow> nat option" where
  "k_thread_system_pool_assign heap t resource_pool = resource_pool(t := Some heap)"

definition z_thread_malloc where
  "z_thread_malloc resource_pool size_b pools m k =
     (case resource_pool (current k) of Some p \<Rightarrow> k_mem_pool_malloc p size_b pools m k | None \<Rightarrow> (0, pools, m, k))"

definition put_kernel_block :: "nat \<Rightarrow> nat \<Rightarrow> nat \<Rightarrow> nat \<Rightarrow> (nat \<Rightarrow> u8) \<Rightarrow> nat \<Rightarrow> u8" where
  "put_kernel_block a pool level block m = put32 m a (k_mem_block_id pool level block)"

definition get_kernel_block :: "(nat \<Rightarrow> u8) \<Rightarrow> nat \<Rightarrow> nat \<times> nat \<times> nat" where
  "get_kernel_block m a = id_fields (get32 m a)"

lemma take_of_nat: "n \<le> 32 \<Longrightarrow> x < 2 ^ n \<Longrightarrow> take_bit n (of_nat x :: u32) = of_nat x \<and> unat (of_nat x :: u32) = x"
proof -
  assume n: "n \<le> 32" "x < 2 ^ n"
  have "(2 :: nat) ^ n \<le> 2 ^ 32" using n(1) by (intro power_increasing) simp_all
  then have u: "unat (of_nat x :: u32) = x" using n(2) by (intro unat_of_nat_u32) simp
  moreover have "take_bit n (of_nat x :: u32) = of_nat x"
    using n(2) u by (intro unat_u32_inj) (simp add: unsigned_take_bit_eq take_bit_nat_eq_self)
  ultimately show ?thesis by simp
qed

lemma id_fields_id:
  assumes "i < 256" and "l < 16" and "b < 2 ^ 20"
  shows "id_fields (k_mem_block_id i l b) = (i, l, b)"
proof -
  let ?y = "of_nat l OR push_bit 4 (of_nat b) :: u32"
  note i = take_of_nat [of 8 i] and l = take_of_nat [of 4 l] and b = take_of_nat [of 20 b]
  have y: "take_bit 4 ?y = of_nat l" "drop_bit 4 ?y = of_nat b" using low_fields [of "of_nat l" 4 "of_nat b"] assms l b by simp_all
  have "take_bit 24 (of_nat l :: u32) = of_nat l" using take_of_nat [of 24 l] assms(2) by simp
  moreover have "take_bit 24 (push_bit 4 (of_nat b)) = push_bit 4 (take_bit 20 (of_nat b :: u32))" by (simp add: take_bit_push_bit)
  ultimately have "take_bit 24 ?y = ?y" using b assms(3) by (simp only: take_bit_or)
  then have "unat ?y < 2 ^ 24" by (metis take_bit_nat_less_exp unsigned_take_bit_eq)
  then have "take_bit 8 (k_mem_block_id i l b) = of_nat i" "drop_bit 8 (k_mem_block_id i l b) = ?y"
    using low_fields [of "of_nat i" 8 ?y] assms i l b by (simp_all add: k_mem_block_id_def)
  moreover from this(2) have "drop_bit 12 (k_mem_block_id i l b) = of_nat b"
    using y(2) drop_bit_drop_bit [of 4 8 "k_mem_block_id i l b"] by simp
  ultimately show ?thesis using y i l b assms by (simp add: id_fields_def)
qed

interpretation kernel_block: block_header 4 256 "2 ^ 20" put_kernel_block get_kernel_block
proof unfold_locales
  show "get_kernel_block (put_kernel_block a i l b m) a = (i, l, b)" if "i < 256" "l < 16" "b < 2 ^ 20" for i l b a m
    using id_fields_id [OF that] by (simp add: get_kernel_block_def put_kernel_block_def)
  show "put_kernel_block a i l b m x = m x" if "x < a \<or> a + 4 \<le> x" for x a i l b m
    using that by (simp add: put_kernel_block_def put32_other)
  show "get_kernel_block m a = get_kernel_block m' a" if "\<And>j. j < 4 \<Longrightarrow> m (a + j) = m' (a + j)" for a m m'
    using get32_cong [of m a m'] that by (simp add: get_kernel_block_def)
qed


section \<open>What the clients get\<close>

lemma alloc_retry_eq:
  assumes "pool_inv p f" and "merged f"
  shows "alloc_retry 2 req p = z_sys_mem_pool_block_alloc req p"
  using alloc_inv [OF assms, of req]
  by (auto simp: numeral_2_eq_2 ENOMEM_def EAGAIN_def split: prod.splits sum.splits)

text \<open>Without waiting, a kernel allocation is one of the pool allocator; the kernel's state stays as it is.\<close>

lemma malloc_eq:
  assumes "pool_inv (kp_base (pools p)) f" and "merged f"
  shows "k_mem_pool_malloc p size_b pools m k =
    (if unat size_b + 4 \<ge> 2 ^ 32 then (0, pools, m, k)
     else case z_sys_mem_pool_block_alloc (unat size_b + 4) (kp_base (pools p)) of
       (Inr (l, b, data), base) \<Rightarrow> (data + 4, pools(p := (pools p)\<lparr>kp_base := base\<rparr>), put_kernel_block data p l b m, k)
     | (Inl e, base) \<Rightarrow> (0, pools, m, k))"
proof (cases "unat size_b + 4 \<ge> 2 ^ 32")
  case False
  then have u: "unat (size_b + 4) = unat size_b + 4" by (subst unat_u32_add) simp_all
  show ?thesis using False alloc_retry_eq [OF assms] alloc_inv [OF assms, of "unat size_b + 4"]
    by (auto simp: k_mem_pool_malloc_def k_mem_pool_alloc_def alloc_round_def u put_kernel_block_def Let_def ENOMEM_def EAGAIN_def
        K_NO_WAIT_def split: prod.splits sum.splits)
qed (simp add: k_mem_pool_malloc_def)

text \<open>What a successful \<^verbatim>\<open>k_malloc\<close> does: it takes a block and writes its descriptor.\<close>

definition heap_block :: "mpool \<Rightarrow> nat \<times> nat \<Rightarrow> nat set" where
  "heap_block p x = {blk p (fst x) (snd x) ..< blk p (fst x) (snd x) + lsizes p (fst x)}"

lemma malloc_frame:
  assumes "pool_inv p f" and "merged f" and al: "z_sys_mem_pool_block_alloc (n + 4) p = (Inr (l, b, data), p')"
    and f': "pool_inv p' f'" "used f' = insert (l, b) (used f)"
  shows "\<forall>y\<in>used f. heap_block p (l, b) \<inter> heap_block p y = {}"
    and "\<forall>y\<in>used f. \<forall>x\<in>heap_block p y. put_kernel_block data i l b m x = m x"
    and "x < mp_buf p \<or> mp_buf p + buf_size p \<le> x \<Longrightarrow> put_kernel_block data i l b m x = m x"
    and "\<forall>l2 < mp_n_levels p. \<forall>a\<in>set (mp_free p' l2). \<forall>y\<in>used f'. {a ..< a + lsizes p l2} \<inter> heap_block p y = {}"
proof -
  note R = kernel_block.alloc_region [OF assms(1,2) al le_add2]
  have "same_shape p p'" using alloc_inv [OF assms(1,2), of "n + 4", unfolded al] by simp
  note S = same_shapeD [OF this]
  have e: "block_ptr p' = block_ptr p" "lsizes p' = lsizes p" "mp_n_levels p' = mp_n_levels p" "mp_buf p' = mp_buf p" "buf_size p' = buf_size p"
    using S \<open>same_shape p p'\<close> by (simp_all add: fun_eq_iff block_ptr_def buf_size_def same_shape_def)
  show dj: "\<forall>y\<in>used f. heap_block p (l, b) \<inter> heap_block p y = {}"
  proof
    fix y assume y: "y \<in> used f"
    then have "(l, b) \<in> used f'" "(fst y, snd y) \<in> used f'" "(l, b) \<noteq> (fst y, snd y)" using f'(2) R(1) by auto
    then show "heap_block p (l, b) \<inter> heap_block p y = {}" using used_blocks_apart [OF f'(1)] unfolding e heap_block_def fst_conv snd_conv by blast
  qed
  have R6: "put_kernel_block data i l b m x = m x" if "x \<notin> heap_block p (l, b)" for x using that R(6) by (auto simp: heap_block_def not_le not_less)
  show "\<forall>y\<in>used f. \<forall>x\<in>heap_block p y. put_kernel_block data i l b m x = m x" using dj R6 by blast
  show "put_kernel_block data i l b m x = m x" if "x < mp_buf p \<or> mp_buf p + buf_size p \<le> x"
    using that used_in_buffer [OF f'(1), of l b] f'(2) R(6) unfolding e by auto
  show "\<forall>l2 < mp_n_levels p. \<forall>a\<in>set (mp_free p' l2). \<forall>y\<in>used f'. {a ..< a + lsizes p l2} \<inter> heap_block p y = {}"
    using free_nodes_apart [OF f'(1)] unfolding e heap_block_def by (metis prod.collapse)
qed


abbreviation demo_pools :: "nat \<Rightarrow> kpool" where
  "demo_pools \<equiv> \<lambda>_. \<lparr>kp_base = demo_pool, kp_wait_q = 7\<rparr>"

lemma demo_malloc:
  "k_malloc 0 8 demo_pools (\<lambda>_. 0) demo_kernel =
     (1004, demo_pools(0 := \<lparr>kp_base = demo_taken 2 14 [1064] [1016, 1032, 1048], kp_wait_q = 7\<rparr>), put_kernel_block 1000 0 1 0 (\<lambda>_. 0), demo_kernel)"
proof -
  obtain f where f: "pool_inv demo_pool f" "merged f" by (rule demo_forests)
  have "z_sys_mem_pool_block_alloc 12 demo_pool = (Inr (1, 0, 1000), demo_taken 2 14 [1064] [1016, 1032, 1048])"
    unfolding demo_pool_eq by (simp add: pool_exec)
  then show ?thesis using malloc_eq [of demo_pools 0 f 8 "\<lambda>_. 0" demo_kernel] f by (simp add: k_malloc_def)
qed


text \<open>
  C16. \<^verbatim>\<open>k_free\<close> takes back what \<^verbatim>\<open>k_malloc\<close> gave out, whatever was written behind the descriptor meanwhile: the blocks in
  use are those from before, other pools are untouched, and every thread waiting for the pool is taken off its wait queue,
  and is in the run queue if waiting was all that kept it from running.\<close>

theorem k_malloc_free_roundtrip:
  fixes k k1 k2 :: "'a kernel_scheme"
  assumes "pool_inv (kp_base (pools h)) f" and "merged f" and "h < 256" and "mp_n_levels (kp_base (pools h)) \<le> 16"
    and "\<forall>l < mp_n_levels (kp_base (pools h)). nblk (kp_base (pools h)) l \<le> 2 ^ 20"
    and "k_malloc h size_b pools m k = (ptr, pools1, m1, k1)" and "ptr \<noteq> 0"
    and "\<forall>x. ptr - 4 \<le> x \<longrightarrow> x < ptr \<longrightarrow> m2 x = m1 x" and "queues_ok k2" and "distinct (timeout_list k2)"
  shows "case k_free ptr pools1 m2 k2 of (pools2, k3) \<Rightarrow>
    (\<exists>f2. pool_inv (kp_base (pools2 h)) f2 \<and> merged f2 \<and> used f2 = used f) \<and> (\<forall>i. i \<noteq> h \<longrightarrow> pools2 i = pools i)
    \<and> waitq k3 (kp_wait_q (pools h)) = []
    \<and> (\<forall>t \<in> set (waitq k2 (kp_wait_q (pools h))). pended_on (threads k3 t) = None \<and> F_PENDING \<notin> tstate k3 t
        \<and> (tstate k2 t = {F_PENDING} \<longrightarrow> t \<in> set (runq k3)))"
proof -
  let ?p = "kp_base (pools h)" and ?w = "kp_wait_q (pools h)"
  note me = malloc_eq [of pools h, OF assms(1,2)]
  obtain l b data p' where al: "z_sys_mem_pool_block_alloc (unat size_b + 4) ?p = (Inr (l, b, data), p')"
    and e: "ptr = data + 4" "pools1 = pools(h := (pools h)\<lparr>kp_base := p'\<rparr>)" "m1 = put_kernel_block data h l b m"
    using assms(6,7) by (auto simp: k_malloc_def me split: if_splits sum.splits prod.splits)
  have "kernel_block.fits h ?p" unfolding kernel_block.fits_def using assms(3-5) by blast
  moreover have kept: "m2 (data + j) = put_kernel_block data h l b m (data + j)" if "j < 4" for j
    using assms(8) that by (simp add: e)
  ultimately have hd: "get_kernel_block m2 data = (h, l, b)"
    and f2: "\<exists>f2. pool_inv (z_sys_mem_pool_block_free l b p') f2 \<and> merged f2 \<and> used f2 = used f"
    using kernel_block.alloc_free_roundtrip [OF assms(1,2) _ al, of h m2 m] by blast+
  obtain k' where k': "z_unpend_all ?w k2 = (waitq k2 ?w \<noteq> [], k')" "waitq k' ?w = []"
    "\<forall>t \<in> set (waitq k2 ?w). pended_on (threads k' t) = None \<and> F_PENDING \<notin> tstate k' t \<and> (tstate k2 t = {F_PENDING} \<longrightarrow> t \<in> set (runq k'))"
    using unpend_all_loop_spec [OF assms(9) refl assms(10), of ?w False] by (auto simp: z_unpend_all_def)
  have "k_free ptr pools1 m2 k2 = (pools1(h := (pools1 h)\<lparr>kp_base := z_sys_mem_pool_block_free l b p'\<rparr>),
      if waitq k2 ?w \<noteq> [] then z_reschedule k' else k')"
    using hd k'(1) by (simp add: k_free_def k_mem_pool_free_id_def get_kernel_block_def e)
  moreover have "waitq (z_reschedule k') ?w = waitq k' ?w" "pended_on (threads (z_reschedule k') t) = pended_on (threads k' t)"
      "tstate (z_reschedule k') t = tstate k' t" "runq (z_reschedule k') = runq k'" for t
    by (simp_all add: z_reschedule_def z_swap_def)
  ultimately show ?thesis using f2 k'(2,3) by (simp add: e)
qed

theorem k_malloc_free_roundtrip_witness:
  "case k_free 1004 (demo_pools(0 := \<lparr>kp_base = demo_taken 2 14 [1064] [1016, 1032, 1048], kp_wait_q = 7\<rparr>))
      ((put_kernel_block 1000 0 1 0 (\<lambda>_. 0))(1004 := 255)) demo_kernel of (pools2, k3) \<Rightarrow>
    (\<exists>f2. pool_inv (kp_base (pools2 0)) f2 \<and> used f2 = {}) \<and> waitq k3 7 = [] \<and> pended_on (threads k3 2) = None"
proof -
  obtain f where f: "pool_inv demo_pool f" "merged f" "used f = {}" by (rule demo_forests)
  have "\<forall>l < mp_n_levels demo_pool. nblk demo_pool l \<le> 2 ^ 20" "mp_n_levels demo_pool \<le> 16"
    unfolding demo_pool_eq by (auto simp: less_2_cases_iff)
  then show ?thesis
    using k_malloc_free_roundtrip [where ?m2.0 = "(put_kernel_block 1000 0 1 0 (\<lambda>_. 0))(1004 := 255)" and f = f,
        OF _ _ _ _ _ demo_malloc _ _ demo_queues_ok] f
    by (auto simp: demo_sel)
qed

text \<open>
  \<^verbatim>\<open>k_calloc\<close> refuses products that overflow; otherwise the memory it returns is zero and holds all the members.\<close>

theorem k_calloc_zeroed:
  assumes "pool_inv (kp_base (pools h)) f" and "merged f"
  shows "case k_calloc h nmemb size_b pools m k of (ptr, pools', m', k') \<Rightarrow>
    (unat nmemb * unat size_b \<ge> 2 ^ 32 \<longrightarrow> ptr = 0 \<and> pools' = pools \<and> m' = m) \<and>
    (ptr \<noteq> 0 \<longrightarrow> (\<forall>a. ptr \<le> a \<longrightarrow> a < ptr + unat nmemb * unat size_b \<longrightarrow> m' a = 0)
      \<and> (\<exists>l b. (l, b) \<notin> used f \<and> ptr = blk (kp_base (pools h)) l b + 4
           \<and> ptr + unat nmemb * unat size_b \<le> blk (kp_base (pools h)) l b + lsizes (kp_base (pools h)) l))"
proof (cases "unat nmemb * unat size_b \<ge> 2 ^ 32")
  case False
  note me = malloc_eq [of pools h, OF assms]
  have u: "unat (nmemb * size_b) = unat nmemb * unat size_b" using False by (simp add: unat_word_ariths)
  obtain r p' where r: "z_sys_mem_pool_block_alloc (unat (nmemb * size_b) + 4) (kp_base (pools h)) = (r, p')" by fastforce
  show ?thesis
  proof (cases r)
    case (Inr y)
    obtain l b data where y: "y = (l, b, data)" by (cases y)
    note A = kernel_block.alloc_region [OF assms r [unfolded Inr y] le_add2]
    then have "\<exists>l b. (l, b) \<notin> used f \<and> data = blk (kp_base (pools h)) l b
      \<and> data + 4 + unat nmemb * unat size_b \<le> blk (kp_base (pools h)) l b + lsizes (kp_base (pools h)) l"
      using u by (intro exI [of _ l] exI [of _ b]) auto
    then show ?thesis using False r Inr y by (auto simp: k_calloc_def k_malloc_def me u Let_def)
  qed (use False r in \<open>auto simp: k_calloc_def k_malloc_def me u Let_def\<close>)
qed (simp add: k_calloc_def)

theorem k_calloc_zeroed_witness:
  "case k_calloc 0 3 4 (\<lambda>_. \<lparr>kp_base = demo_pool, kp_wait_q = 9\<rparr>) (\<lambda>_. 7) demo_kernel of (ptr, pools', m', k') \<Rightarrow>
     ptr \<noteq> 0 \<longrightarrow> m' (ptr + 11) = 0"
proof -
  obtain f where f: "pool_inv demo_pool f" "merged f" by (rule demo_forests)
  then show ?thesis using k_calloc_zeroed [of "\<lambda>_. \<lparr>kp_base = demo_pool, kp_wait_q = 9\<rparr>" 0 f 3 4 "\<lambda>_. 7" demo_kernel] by auto
qed

lemma pend_curr_expiry:
  assumes "timeouts_ok k" and "Thr (current k) \<notin> set (timeout_list k)" and "0 \<le> elapsed k" and "0 < n" and "elapsed k + n + 10 \<le> INT_MAX"
  shows "(Thr (current k), elapsed k + 1 + (n + 9) div 10) \<in> set (expiries (z_pend_curr (Some w) n k))"
proof -
  let ?t = "current k"
  define k1 where "k1 = z_priq_dumb_add (WaitQ w) ?t (upd_thread ?t (\<lambda>th. th\<lparr>pended_on := Some w\<rparr>)
    (z_set_thread_states ?t {F_PENDING} (z_remove_thread_from_ready_q ?t k)))"
  have s: "timeout_list k1 = timeout_list k" "dticks k1 = dticks k" "elapsed k1 = elapsed k" by (simp_all add: k1_def elapsed_def)
  have n: "s32 (n + 9) = n + 9" using assms(3-5) by (intro s32_id) (simp_all add: INT_MAX_def)
  have "s32 (1 + (n + 9) div 10) = 1 + (n + 9) div 10" using assms(3-5) by (intro s32_id) (simp_all add: INT_MAX_def)
  then have ms: "s32 (TICK_ALIGN + z_ms_to_ticks n) = 1 + (n + 9) div 10" using assms(4) n by (simp add: TICK_ALIGN_def z_ms_to_ticks_def)
  have p: "pend ?t (Some w) n k = z_add_timeout (Thr ?t) (1 + (n + 9) div 10) k1"
    using assms(4) ms by (simp add: pend_def Let_def k1_def K_FOREVER_def z_add_thread_timeout_def)
  have "expiries (z_add_timeout (Thr ?t) (1 + (n + 9) div 10) k1) = insert_abs (Thr ?t) (max 1 (1 + (n + 9) div 10) + elapsed k1) (expiries k1)"
    using assms by (intro add_timeout_expiries) (auto simp: s timeouts_ok_def expiries_def)
  then have "(Thr ?t, elapsed k + 1 + (n + 9) div 10) \<in> set (expiries (pend ?t (Some w) n k))"
    using assms(4) by (simp add: p s insert_abs_set)
  then show ?thesis by (simp add: z_pend_curr_def expiries_def)
qed

text \<open>
  A waiting allocation that is woken without getting a block: exactly at its deadline it returns \<open>-ENOMEM\<close>, which the
  interface has for calls that did not wait. With \<open>r\<close> ticks left it waits again, but for \<open>r\<close> milliseconds, about a tenth
  of the time: the remaining ticks are passed on as milliseconds.\<close>

theorem pool_waiter_retries:
  assumes "pool_inv (kp_base (pools p)) f" and "merged f"
    and "fst (z_sys_mem_pool_block_alloc size_b (kp_base (pools p))) = Inl e"
    and "timeout \<noteq> K_FOREVER" and "end_t = int (z_tick_get k) + r" and "0 \<le> r"
    and "timeouts_ok k" and "Thr (current k) \<notin> set (timeout_list k)" and "0 \<le> elapsed k" and "elapsed k + r + 10 \<le> INT_MAX"
  shows "case k_mem_pool_alloc_resume end_t p size_b timeout pools k of (res, pools', k') \<Rightarrow> pools' = pools
    \<and> (if r = 0 then res = Inl (- ENOMEM, None) \<and> k' = k
       else res = Inr r \<and> (Thr (current k), elapsed k + 1 + (r + 9) div 10) \<in> set (expiries k'))"
proof -
  have al: "alloc_retry 2 size_b (kp_base (pools p)) = (Inl (- ENOMEM), kp_base (pools p))"
  proof -
    obtain p' where "z_sys_mem_pool_block_alloc size_b (kp_base (pools p)) = (Inl e, p')" using assms(3) by (metis prod.collapse)
    then show ?thesis using alloc_inv [OF assms(1,2), of size_b] alloc_retry_eq [OF assms(1,2), of size_b] by simp
  qed
  have s: "s32 r = r" using assms(6,9,10) by (intro s32_id) (simp_all add: INT_MAX_def)
  show ?thesis using al s assms(4-6) pend_curr_expiry [OF assms(7-9), of r] assms(10)
    by (simp add: k_mem_pool_alloc_resume_def alloc_round_def Let_def ENOMEM_def EAGAIN_def K_NO_WAIT_def)
qed

theorem pool_waiter_retries_witness:
  "case k_mem_pool_alloc_resume 40 0 100 500 (\<lambda>_. \<lparr>kp_base = demo_pool, kp_wait_q = 9\<rparr>) demo_kernel of (res, pools', k') \<Rightarrow>
     res = Inr 40 \<and> (Thr 4, 5) \<in> set (expiries k')"
proof -
  obtain f where f: "pool_inv demo_pool f" "merged f" by (rule demo_forests)
  have "fst (z_sys_mem_pool_block_alloc 100 demo_pool) = Inl (- ENOMEM)" unfolding demo_pool_eq by (simp add: pool_exec)
  moreover have "z_tick_get demo_kernel = 0" "elapsed demo_kernel = 0" "timeouts_ok demo_kernel"
    by (simp_all add: z_tick_get_def elapsed_def timeouts_ok_def expiries_def demo_kernel_def)
  ultimately show ?thesis
    using pool_waiter_retries [of "\<lambda>_. \<lparr>kp_base = demo_pool, kp_wait_q = 9\<rparr>" 0 f 100 "- ENOMEM" 500 40 demo_kernel 40] f
    by (auto simp: demo_sel K_FOREVER_def INT_MAX_def)
qed

text \<open>
  The user-mode allocator adds the size of its descriptor without looking for an overflow: a request of the largest
  sizes returns a pointer to a block that is smaller than the request whenever the pool has anything free.\<close>

theorem sys_mem_pool_alloc_wraps:
  assumes "pool_inv (pools p) f" and "merged f" and "2 ^ 32 - 8 \<le> unat size_b"
    and "mp_max_sz (pools p) < 2 ^ 32 - 8" and "\<forall>l < mp_n_levels (pools p). 8 \<le> lsizes (pools p) l" and "f x = Some Free"
  shows "case sys_mem_pool_alloc p size_b pools m of (ptr, pools', m') \<Rightarrow>
    ptr \<noteq> 0 \<and> (\<exists>l b. ptr = blk (pools p) l b + 8 \<and> lsizes (pools p) l < unat size_b)"
proof -
  let ?p = "pools p"
  note D = pool_invD [OF assms(1)]
  have ge: "4294967288 \<le> unat size_b" using assms(3) by simp
  have "unat size_b + 8 - 4294967296 < 8" using unat_u32_less [of size_b] by linarith
  moreover from this ge have "(unat size_b + 8) mod 4294967296 = unat size_b + 8 - 4294967296" by (subst le_mod_geq) simp_all
  ultimately have u: "unat (size_b + 8) < 8" by (simp add: unat_word_ariths)
  obtain r p' where r: "z_sys_mem_pool_block_alloc (unat (size_b + 8)) ?p = (r, p')" by fastforce
  note A = alloc_inv [OF assms(1,2), of "unat (size_b + 8)", unfolded r]
  obtain l0 b0 where x: "x = (l0, b0)" by (cases x)
  have "l0 < mp_n_levels ?p" using forest_range(1) [OF D(3,4), of l0 b0] assms(6) x by simp
  then have l8: "8 \<le> lsizes ?p l0" using assms(5) by blast
  have "r \<noteq> Inl e" for e
  proof
    assume "r = Inl e"
    then have "lsizes ?p l0 < unat (size_b + 8)" using A assms(6) x by auto
    then show False using l8 u by linarith
  qed
  then obtain l b data where y: "r = Inr (l, b, data)" by (metis sumE surj_pair)
  have l: "l < mp_n_levels ?p" "data = blk ?p l b" using A y by simp_all
  have "lsizes ?p l * 1 \<le> lsizes ?p l * 4 ^ l" by (intro mult_le_mono2) simp
  then have "lsizes ?p l < unat size_b" using lsizes_exact(1) [OF D(1) l(1)] assms(3,4) by simp
  then show ?thesis using r y l by (auto simp: sys_mem_pool_alloc_def)
qed

theorem sys_mem_pool_alloc_wraps_witness:
  "case sys_mem_pool_alloc 5 (- 6) (\<lambda>_. demo_pool) (\<lambda>_. 0) of (ptr, pools', m') \<Rightarrow>
    ptr \<noteq> 0 \<and> (\<exists>l b. ptr = blk demo_pool l b + 8 \<and> lsizes demo_pool l < unat (- 6 :: u32))"
proof -
  obtain f where f: "pool_inv demo_pool f" "merged f" "used f = {}" by (rule demo_forests)
  have "f (0, 0) = Some Free" using all_free [OF pool_invD(3) [OF f(1)] f(2,3), of 0] by (simp add: demo_pool_eq)
  moreover have "\<forall>l < mp_n_levels demo_pool. 8 \<le> lsizes demo_pool l" "mp_max_sz demo_pool < 2 ^ 32 - 8"
    unfolding demo_pool_eq by (auto simp: less_2_cases_iff lsizes.simps ALIGN4_def)
  ultimately show ?thesis using sys_mem_pool_alloc_wraps [of "\<lambda>_. demo_pool" 5 f "- 6" "(0, 0)" "\<lambda>_. 0"] f by simp
qed

text \<open>
  When the size with the descriptor does not overflow, the user-mode allocator returns memory for it inside one block that
  was not in use, and freeing the pointer, with the descriptor untouched, restores the blocks in use.\<close>

theorem sys_mem_pool_roundtrip:
  assumes "pool_inv (pools p) f" and "merged f" and "p < 2 ^ 32" and "mp_n_levels (pools p) \<le> 16"
    and "\<forall>l < mp_n_levels (pools p). nblk (pools p) l \<le> 2 ^ 28" and "unat size_b + 8 < 2 ^ 32"
    and "sys_mem_pool_alloc p size_b pools m = (ptr, pools1, m1)" and "ptr \<noteq> 0"
    and "\<forall>x. ptr - 8 \<le> x \<longrightarrow> x < ptr \<longrightarrow> m2 x = m1 x"
  shows "(\<exists>l b. (l, b) \<notin> used f \<and> ptr = blk (pools p) l b + 8 \<and> ptr + unat size_b \<le> blk (pools p) l b + lsizes (pools p) l)
    \<and> (\<exists>f2. pool_inv (sys_mem_pool_free ptr pools1 m2 p) f2 \<and> merged f2 \<and> used f2 = used f)
    \<and> (\<forall>i. i \<noteq> p \<longrightarrow> sys_mem_pool_free ptr pools1 m2 i = pools i)"
proof -
  have u: "unat (size_b + 8) = unat size_b + 8" using assms(6) by (subst unat_u32_add) simp_all
  obtain l b data p' where al: "z_sys_mem_pool_block_alloc (unat size_b + 8) (pools p) = (Inr (l, b, data), p')"
    and e: "ptr = data + 8" "pools1 = pools(p := p')" "m1 = put_sys_block data p l b m"
    using assms(7,8) by (auto simp: sys_mem_pool_alloc_def u split: sum.splits prod.splits)
  have fi: "sys_block.fits p (pools p)" unfolding sys_block.fits_def using assms(3-5) by blast
  have kept: "m2 (data + j) = put_sys_block data p l b m (data + j)" if "j < 8" for j using assms(9) that by (simp add: e)
  have hd: "get_sys_block m2 data = (p, l, b)" and f2: "\<exists>f2. pool_inv (z_sys_mem_pool_block_free l b p') f2 \<and> merged f2 \<and> used f2 = used f"
    using sys_block.alloc_free_roundtrip [OF assms(1,2) fi al, of m2 m] kept by blast+
  have fr: "sys_mem_pool_free ptr pools1 m2 = pools(p := z_sys_mem_pool_block_free l b p')"
    using hd by (simp add: sys_mem_pool_free_def e)
  note R = sys_block.alloc_region [OF assms(1,2) al le_add2]
  then have "\<exists>l b. (l, b) \<notin> used f \<and> ptr = blk (pools p) l b + 8 \<and> ptr + unat size_b \<le> blk (pools p) l b + lsizes (pools p) l"
    by (intro exI [of _ l] exI [of _ b]) (simp add: e)
  then show ?thesis using f2 unfolding fr by simp
qed

theorem sys_mem_pool_roundtrip_witness:
  "sys_mem_pool_alloc 5 3 (\<lambda>_. demo_pool) (\<lambda>_. 0) =
     (1008, (\<lambda>_. demo_pool)(5 := demo_taken 2 14 [1064] [1016, 1032, 1048]), put_sys_block 1000 5 1 0 (\<lambda>_. 0))
   \<and> (\<exists>f. pool_inv (sys_mem_pool_free 1008 ((\<lambda>_. demo_pool)(5 := demo_taken 2 14 [1064] [1016, 1032, 1048])) (put_sys_block 1000 5 1 0 (\<lambda>_. 0)) 5) f
       \<and> used f = {})"
proof -
  let ?m = "put_sys_block 1000 5 1 0 (\<lambda>_. 0)" and ?ps = "(\<lambda>_. demo_pool)(5 := demo_taken 2 14 [1064] [1016, 1032, 1048])"
  obtain f where f: "pool_inv demo_pool f" "merged f" "used f = {}" by (rule demo_forests)
  have "z_sys_mem_pool_block_alloc 11 demo_pool = (Inr (1, 0, 1000), demo_taken 2 14 [1064] [1016, 1032, 1048])"
    unfolding demo_pool_eq by (simp add: pool_exec)
  then have e: "sys_mem_pool_alloc 5 3 (\<lambda>_. demo_pool) (\<lambda>_. 0) = (1008, ?ps, ?m)"
    by (simp add: sys_mem_pool_alloc_def)
  have "\<forall>l < mp_n_levels demo_pool. nblk demo_pool l \<le> 2 ^ 28" "mp_n_levels demo_pool \<le> 16"
    unfolding demo_pool_eq by (auto simp: less_2_cases_iff)
  then show ?thesis using sys_mem_pool_roundtrip [of "\<lambda>_. demo_pool" 5 f 3 "\<lambda>_. 0" 1008 ?ps ?m ?m] f e by auto
qed

end
