(* ===== verification/KMbox.thy ===== *)
theory KMbox
  imports KHeap KSem KStack KThread
begin

text \<open>
  Mailboxes, \<^verbatim>\<open>kernel/mailbox.c\<close>, with asynchronous messages. Message descriptors have names: those of callers are
  numbers, the one in asynchronous descriptor \<open>d\<close> goes by the dummy thread \<open>d\<close> of that descriptor. The descriptor a
  waiting thread's \<^verbatim>\<open>swap_data\<close> points to is \<open>swap_msg\<close>. The fields kept for the legacy interface are left out.
  The kernel's state is a field of the state here, beside the memory pools, the semaphores, the stack of unused
  descriptors and the memory that messages are copied in.
\<close>

datatype msgid = Msg nat | AsyncMsg tid

record k_mbox_msg =
  mm_size :: nat
  mm_info :: u32
  mm_tx_data :: nat
  mm_tx_block :: "nat \<times> u32"
  mm_rx_source :: "tid option"
  mm_tx_target :: "tid option"
  mm_syncing :: "tid option"
  mm_async_sem :: "nat option"

record k_mbox =
  tx_msg_queue :: wqid
  rx_msg_queue :: wqid

record mbsys =
  mk :: kernel
  msgs :: "msgid \<Rightarrow> k_mbox_msg"
  swap_msg :: "tid \<Rightarrow> msgid"
  mpools :: "nat \<Rightarrow> kpool"
  msems :: "nat \<Rightarrow> sem"
  async_msg_free :: kstack
  async_words :: words
  mmem :: "nat \<Rightarrow> u8"

definition upd_msg :: "msgid \<Rightarrow> (k_mbox_msg \<Rightarrow> k_mbox_msg) \<Rightarrow> mbsys \<Rightarrow> mbsys" where
  "upd_msg a f s = s\<lparr>msgs := (msgs s)(a := f (msgs s a))\<rparr>"

definition on_kernel :: "(kernel \<Rightarrow> kernel) \<Rightarrow> mbsys \<Rightarrow> mbsys" where
  "on_kernel f s = s\<lparr>mk := f (mk s)\<rparr>"

section \<open>Set-up\<close>

definition mbox_async_alloc :: "mbsys \<Rightarrow> tid outcome \<times> mbsys" where
  "mbox_async_alloc s =
     (case k_stack_pop (async_msg_free s) K_FOREVER (async_words s) (mk s) of
        (Done (r, Some d), st, k) \<Rightarrow> (Done (unat d), s\<lparr>async_msg_free := st, mk := k\<rparr>)
      | (_, st, k) \<Rightarrow> (Blocked, s\<lparr>async_msg_free := st, mk := k\<rparr>))"

definition mbox_async_free :: "tid \<Rightarrow> mbsys \<Rightarrow> mbsys" where
  "mbox_async_free d s =
     (case k_stack_push (async_msg_free s) (of_nat d) (async_words s) (mk s) of
        (st, w, k) \<Rightarrow> s\<lparr>async_msg_free := st, async_words := w, mk := k\<rparr>)"

text \<open>\<open>ds\<close> are the dummy threads of the array of asynchronous descriptors.\<close>

definition init_mbox_module :: "tid list \<Rightarrow> mbsys \<Rightarrow> mbsys" where
  "init_mbox_module ds s =
     fold (\<lambda>d s. mbox_async_free d (on_kernel (z_init_thread_base d 0 {F_DUMMY} 0) s)) ds s"

definition k_mbox_init :: "k_mbox \<Rightarrow> mbsys \<Rightarrow> mbsys" where
  "k_mbox_init mb = on_kernel (\<lambda>k. set_list (WaitQ (rx_msg_queue mb)) [] (set_list (WaitQ (tx_msg_queue mb)) [] k))"

section \<open>Matching and disposing\<close>

text \<open>The updated descriptors when they match.\<close>

definition mbox_message_match :: "k_mbox_msg \<Rightarrow> k_mbox_msg \<Rightarrow> (k_mbox_msg \<times> k_mbox_msg) option" where
  "mbox_message_match tx_msg rx_msg =
     (if (mm_tx_target tx_msg = None \<or> mm_tx_target tx_msg = mm_tx_target rx_msg)
         \<and> (mm_rx_source rx_msg = None \<or> mm_rx_source rx_msg = mm_rx_source tx_msg)
      then (let rx = rx_msg\<lparr>mm_rx_source := mm_rx_source tx_msg, mm_info := mm_info tx_msg\<rparr>;
                tx = tx_msg\<lparr>mm_tx_target := mm_tx_target rx_msg, mm_info := mm_info rx_msg\<rparr>;
                rx = (if mm_size rx > mm_size tx then rx\<lparr>mm_size := mm_size tx\<rparr> else rx);
                rx = rx\<lparr>mm_tx_data := mm_tx_data tx, mm_tx_block := mm_tx_block tx\<rparr>;
                rx = (if mm_tx_data rx \<noteq> 0 then rx\<lparr>mm_tx_block := (0, snd (mm_tx_block rx))\<rparr>
                      else if fst (mm_tx_block rx) \<noteq> 0 then rx\<lparr>mm_tx_data := fst (mm_tx_block rx)\<rparr> else rx)
            in Some (tx, rx\<lparr>mm_syncing := mm_syncing tx\<rparr>))
      else None)"

definition is_dummy :: "tid \<Rightarrow> mbsys \<Rightarrow> bool" where
  "is_dummy t s \<longleftrightarrow> F_DUMMY \<in> tstate (mk s) t"

definition mbox_message_dispose :: "msgid \<Rightarrow> mbsys \<Rightarrow> mbsys" where
  "mbox_message_dispose rx_msg s =
     (case mm_syncing (msgs s rx_msg) of None \<Rightarrow> s
      | Some sending_thread \<Rightarrow>
          let s = (if fst (mm_tx_block (msgs s rx_msg)) \<noteq> 0
                   then (case k_mem_pool_free (mm_tx_block (msgs s rx_msg)) (mpools s) (mk s) of
                           (ps, k) \<Rightarrow> upd_msg rx_msg (\<lambda>m. m\<lparr>mm_tx_block := (0, snd (mm_tx_block m))\<rparr>) (s\<lparr>mpools := ps, mk := k\<rparr>))
                   else s);
              s = upd_msg rx_msg (\<lambda>m. m\<lparr>mm_syncing := None\<rparr>) s;
              tx_msg = swap_msg s sending_thread;
              s = upd_msg tx_msg (\<lambda>m. m\<lparr>mm_size := mm_size (msgs s rx_msg)\<rparr>) s
          in if is_dummy sending_thread s
             then (let async_sem = mm_async_sem (msgs s tx_msg);
                       s = mbox_async_free sending_thread s
                   in case async_sem of None \<Rightarrow> s
                      | Some sem \<Rightarrow> (case k_sem_give (msems s sem) (mk s) of
                          (se, k) \<Rightarrow> s\<lparr>msems := (msems s)(sem := se), mk := k\<rparr>))
             else on_kernel (\<lambda>k. z_reschedule (z_ready_thread sending_thread
                    (z_reset_thread_states sending_thread {F_PENDING} (z_set_thread_return_value sending_thread 0 k)))) s)"

section \<open>Sending\<close>

text \<open>The first of the threads \<open>ts\<close> whose receive descriptor matches, with both descriptors updated.\<close>

fun find_receiver :: "msgid \<Rightarrow> tid list \<Rightarrow> mbsys \<Rightarrow> (tid \<times> mbsys) option" where
  "find_receiver tx_msg [] s = None"
| "find_receiver tx_msg (t # ts) s =
     (let rx_msg = swap_msg s t
      in case mbox_message_match (msgs s tx_msg) (msgs s rx_msg) of
           Some (tx, rx) \<Rightarrow> Some (t, s\<lparr>msgs := (msgs s)(tx_msg := tx, rx_msg := rx)\<rparr>)
         | None \<Rightarrow> find_receiver tx_msg ts s)"

definition mbox_message_put :: "k_mbox \<Rightarrow> msgid \<Rightarrow> int \<Rightarrow> mbsys \<Rightarrow> int outcome \<times> mbsys" where
  "mbox_message_put mb tx_msg timeout s =
     (let s = upd_msg tx_msg (\<lambda>m. m\<lparr>mm_rx_source := Some (current (mk s))\<rparr>) s;
          sending_thread = the (mm_syncing (msgs s tx_msg));
          s = s\<lparr>swap_msg := (swap_msg s)(sending_thread := tx_msg)\<rparr>
      in case find_receiver tx_msg (waitq (mk s) (rx_msg_queue mb)) s of
           Some (receiving_thread, s) \<Rightarrow>
             let s = on_kernel (\<lambda>k. z_ready_thread receiving_thread
                       (z_set_thread_return_value receiving_thread 0 (z_unpend_thread receiving_thread k))) s
             in if is_dummy sending_thread s then (Done 0, on_kernel z_reschedule s)
                else (Blocked, on_kernel (z_pend_curr None K_FOREVER) s)
         | None \<Rightarrow>
             if timeout = K_NO_WAIT then (Done (- ENOMSG), s)
             else if is_dummy sending_thread s
             then (Done 0, on_kernel (z_pend_thread sending_thread (Some (tx_msg_queue mb)) K_FOREVER) s)
             else (Blocked, on_kernel (z_pend_curr (Some (tx_msg_queue mb)) timeout) s))"

text \<open>What a blocked send returns once its thread \<open>t\<close> runs again.\<close>

definition mbox_message_put_resume :: "tid \<Rightarrow> mbsys \<Rightarrow> int" where
  "mbox_message_put_resume t s = swap_retval (threads (mk s) t)"

definition k_mbox_put :: "k_mbox \<Rightarrow> nat \<Rightarrow> int \<Rightarrow> mbsys \<Rightarrow> int outcome \<times> mbsys" where
  "k_mbox_put mb tx_msg timeout s =
     mbox_message_put mb (Msg tx_msg) timeout (upd_msg (Msg tx_msg) (\<lambda>m. m\<lparr>mm_syncing := Some (current (mk s))\<rparr>) s)"

definition async_put :: "k_mbox \<Rightarrow> nat \<Rightarrow> nat option \<Rightarrow> tid \<Rightarrow> mbsys \<Rightarrow> int outcome \<times> mbsys" where
  "async_put mb tx_msg sem async s =
     (let s = on_kernel (upd_thread async (\<lambda>th. th\<lparr>prio := tprio (mk s) (current (mk s))\<rparr>)) s;
          s = s\<lparr>msgs := (msgs s)(AsyncMsg async := (msgs s (Msg tx_msg))\<lparr>mm_syncing := Some async, mm_async_sem := sem\<rparr>)\<rparr>
      in mbox_message_put mb (AsyncMsg async) K_FOREVER s)"

definition k_mbox_async_put :: "k_mbox \<Rightarrow> nat \<Rightarrow> nat option \<Rightarrow> mbsys \<Rightarrow> int outcome \<times> mbsys" where
  "k_mbox_async_put mb tx_msg sem s =
     (case mbox_async_alloc s of (Done d, s) \<Rightarrow> async_put mb tx_msg sem d s | (Blocked, s) \<Rightarrow> (Blocked, s))"

text \<open>The rest of it when its thread \<open>t\<close> waited for a descriptor.\<close>

definition k_mbox_async_put_resume :: "tid \<Rightarrow> k_mbox \<Rightarrow> nat \<Rightarrow> nat option \<Rightarrow> mbsys \<Rightarrow> int outcome \<times> mbsys" where
  "k_mbox_async_put_resume t mb tx_msg sem s = async_put mb tx_msg sem (swap_data (threads (mk s) t)) s"

section \<open>Receiving\<close>

definition k_mbox_data_get :: "msgid \<Rightarrow> nat \<Rightarrow> mbsys \<Rightarrow> mbsys" where
  "k_mbox_data_get rx_msg buffer s =
     (if buffer = 0 then mbox_message_dispose rx_msg (upd_msg rx_msg (\<lambda>m. m\<lparr>mm_size := 0\<rparr>) s)
      else (let m = msgs s rx_msg;
                s = (if mm_tx_data m \<noteq> 0 \<and> mm_size m > 0
                     then s\<lparr>mmem := (\<lambda>a. if buffer \<le> a \<and> a < buffer + mm_size m then mmem s (mm_tx_data m + (a - buffer)) else mmem s a)\<rparr>
                     else s)
            in mbox_message_dispose rx_msg s))"

text \<open>The end of \<^verbatim>\<open>k_mbox_data_block_get\<close>, with the result of the allocation.\<close>

definition data_block_finish :: "msgid \<Rightarrow> int \<times> (nat \<times> u32) option \<Rightarrow> mbsys \<Rightarrow> (int \<times> (nat \<times> u32) option) \<times> mbsys" where
  "data_block_finish rx_msg r s =
     (case r of (ret, Some block) \<Rightarrow> ((0, Some block), k_mbox_data_get rx_msg (fst block) s)
      | (ret, None) \<Rightarrow> ((ret, None), s))"

definition k_mbox_data_block_get ::
  "msgid \<Rightarrow> nat option \<Rightarrow> int \<Rightarrow> mbsys \<Rightarrow> (int \<times> (nat \<times> u32) option) outcome \<times> mbsys" where
  "k_mbox_data_block_get rx_msg pool timeout s =
     (case pool of
        None \<Rightarrow> (Done (0, None), mbox_message_dispose rx_msg (upd_msg rx_msg (\<lambda>m. m\<lparr>mm_size := 0\<rparr>) s))
      | Some p \<Rightarrow>
          if fst (mm_tx_block (msgs s rx_msg)) \<noteq> 0
          then (Done (0, Some (mm_tx_block (msgs s rx_msg))),
                mbox_message_dispose rx_msg (upd_msg rx_msg (\<lambda>m. m\<lparr>mm_tx_block := (0, snd (mm_tx_block m))\<rparr>) s))
          else (case k_mem_pool_alloc p (mm_size (msgs s rx_msg)) timeout (mpools s) (mk s) of
                  (end_t, Inl r, ps, k) \<Rightarrow> (case data_block_finish rx_msg r (s\<lparr>mpools := ps, mk := k\<rparr>) of (r, s) \<Rightarrow> (Done r, s))
                | (end_t, Inr t, ps, k) \<Rightarrow> (Blocked, s\<lparr>mpools := ps, mk := k\<rparr>)))"

definition mbox_message_data_check :: "msgid \<Rightarrow> nat \<Rightarrow> mbsys \<Rightarrow> int \<times> mbsys" where
  "mbox_message_data_check rx_msg buffer s =
     (0, if buffer \<noteq> 0 then k_mbox_data_get rx_msg buffer s
         else if mm_size (msgs s rx_msg) = 0 then mbox_message_dispose rx_msg s else s)"

fun find_sender :: "msgid \<Rightarrow> tid list \<Rightarrow> mbsys \<Rightarrow> (tid \<times> mbsys) option" where
  "find_sender rx_msg [] s = None"
| "find_sender rx_msg (t # ts) s =
     (let tx_msg = swap_msg s t
      in case mbox_message_match (msgs s tx_msg) (msgs s rx_msg) of
           Some (tx, rx) \<Rightarrow> Some (t, s\<lparr>msgs := (msgs s)(tx_msg := tx, rx_msg := rx)\<rparr>)
         | None \<Rightarrow> find_sender rx_msg ts s)"

definition k_mbox_get :: "k_mbox \<Rightarrow> nat \<Rightarrow> nat \<Rightarrow> int \<Rightarrow> mbsys \<Rightarrow> int outcome \<times> mbsys" where
  "k_mbox_get mb rx_msg buffer timeout s =
     (let s = upd_msg (Msg rx_msg) (\<lambda>m. m\<lparr>mm_tx_target := Some (current (mk s))\<rparr>) s
      in case find_sender (Msg rx_msg) (waitq (mk s) (tx_msg_queue mb)) s of
           Some (sending_thread, s) \<Rightarrow>
             (case mbox_message_data_check (Msg rx_msg) buffer (on_kernel (z_unpend_thread sending_thread) s) of
                (r, s) \<Rightarrow> (Done r, s))
         | None \<Rightarrow>
             if timeout = K_NO_WAIT then (Done (- ENOMSG), s)
             else (Blocked, on_kernel (z_pend_curr (Some (rx_msg_queue mb)) timeout)
                     (s\<lparr>swap_msg := (swap_msg s)(current (mk s) := Msg rx_msg)\<rparr>)))"

definition k_mbox_get_resume :: "tid \<Rightarrow> nat \<Rightarrow> nat \<Rightarrow> mbsys \<Rightarrow> int \<times> mbsys" where
  "k_mbox_get_resume t rx_msg buffer s =
     (let result = swap_retval (threads (mk s) t)
      in if result = 0 then mbox_message_data_check (Msg rx_msg) buffer s else (result, s))"

section \<open>Matching\<close>

definition compatible :: "k_mbox_msg \<Rightarrow> k_mbox_msg \<Rightarrow> bool" where
  "compatible tx rx \<longleftrightarrow> (mm_tx_target tx = None \<or> mm_tx_target tx = mm_tx_target rx)
     \<and> (mm_rx_source rx = None \<or> mm_rx_source rx = mm_rx_source tx)"

text \<open>What the receiver's descriptor says of a message after the match, and the sender's of its receiver.\<close>

definition delivered :: "k_mbox_msg \<Rightarrow> k_mbox_msg \<Rightarrow> k_mbox_msg \<Rightarrow> bool" where
  "delivered tx rx rx' \<longleftrightarrow> mm_rx_source rx' = mm_rx_source tx \<and> mm_info rx' = mm_info tx
     \<and> mm_size rx' = min (mm_size rx) (mm_size tx) \<and> mm_syncing rx' = mm_syncing tx
     \<and> mm_tx_data rx' = (if mm_tx_data tx \<noteq> 0 then mm_tx_data tx else fst (mm_tx_block tx))
     \<and> fst (mm_tx_block rx') = (if mm_tx_data tx \<noteq> 0 then 0 else fst (mm_tx_block tx))"

definition answered :: "k_mbox_msg \<Rightarrow> k_mbox_msg \<Rightarrow> k_mbox_msg" where
  "answered tx rx = tx\<lparr>mm_tx_target := mm_tx_target rx, mm_info := mm_info rx\<rparr>"

lemma match_iff: "mbox_message_match tx rx = None \<longleftrightarrow> \<not> compatible tx rx"
  by (simp add: mbox_message_match_def compatible_def Let_def)

lemma match_some:
  assumes "compatible tx rx"
  obtains rx' where "mbox_message_match tx rx = Some (answered tx rx, rx')" "delivered tx rx rx'" "mm_tx_target rx' = mm_tx_target rx"
proof -
  obtain rx' where "mbox_message_match tx rx = Some (answered tx rx, rx')" "delivered tx rx rx'" "mm_tx_target rx' = mm_tx_target rx"
    using assms by (simp add: mbox_message_match_def compatible_def delivered_def answered_def Let_def min_def)
  then show ?thesis by (rule that)
qed

lemma find_receiver_first:
  assumes "\<forall>u\<in>set ts. \<not> compatible (msgs s tx) (msgs s (swap_msg s u))"
  shows "find_receiver tx (ts @ rest) s = find_receiver tx rest s"
  using assms by (induction ts) (simp_all add: Let_def match_iff [THEN iffD2])

lemma find_sender_first:
  assumes "\<forall>u\<in>set ts. \<not> compatible (msgs s (swap_msg s u)) (msgs s rx)"
  shows "find_sender rx (ts @ rest) s = find_sender rx rest s"
  using assms by (induction ts) (simp_all add: Let_def match_iff [THEN iffD2])

lemma state_sel [simp]:
  "mk (upd_msg a f s) = mk s" "swap_msg (upd_msg a f s) = swap_msg s" "mmem (upd_msg a f s) = mmem s"
  "mpools (upd_msg a f s) = mpools s" "msgs (upd_msg a f s) = (msgs s)(a := f (msgs s a))"
  "mk (on_kernel g s) = g (mk s)" "swap_msg (on_kernel g s) = swap_msg s" "mmem (on_kernel g s) = mmem s"
  "mpools (on_kernel g s) = mpools s" "msgs (on_kernel g s) = msgs s"
  by (simp_all add: upd_msg_def on_kernel_def)

text \<open>Disposing of a message whose sender waits for that and whose data are not in a pool block.\<close>

lemma dispose_sync:
  assumes "mm_syncing (msgs s rx) = Some t" and "fst (mm_tx_block (msgs s rx)) = 0" and "\<not> is_dummy t s" and "swap_msg s t \<noteq> rx"
  shows "mk (mbox_message_dispose rx s) = z_reschedule (z_ready_thread t (z_reset_thread_states t {F_PENDING} (z_set_thread_return_value t 0 (mk s))))"
    and "msgs (mbox_message_dispose rx s) = (msgs s)(rx := (msgs s rx)\<lparr>mm_syncing := None\<rparr>,
      swap_msg s t := (msgs s (swap_msg s t))\<lparr>mm_size := mm_size (msgs s rx)\<rparr>)"
    and "mmem (mbox_message_dispose rx s) = mmem s" and "swap_msg (mbox_message_dispose rx s) = swap_msg s"
  using assms by (simp_all add: mbox_message_dispose_def Let_def is_dummy_def)

section \<open>The exchange\<close>

text \<open>A thread that waits in a queue and would be ready without that.\<close>

definition waits_in :: "mbsys \<Rightarrow> wqid \<Rightarrow> tid \<Rightarrow> bool" where
  "waits_in s w t \<longleftrightarrow> t \<in> set (waitq (mk s) w) \<and> tstate (mk s) t = {F_PENDING} \<and> t \<noteq> current (mk s)"

lemma wake_sender:
  assumes "queues_ok k" and "F_QUEUED \<notin> tstate k t" and "t \<noteq> idle_thread k" and "t \<noteq> current k"
    and "tstate k t \<subseteq> {F_PENDING}" and "Thr t \<notin> set (timeout_list k)" and "pended_on (threads k t) = None"
  defines "k' \<equiv> z_reschedule (z_ready_thread t (z_reset_thread_states t {F_PENDING} (z_set_thread_return_value t 0 k)))"
  shows "queues_ok k'" and "t \<in> set (runq k')" and "swap_retval (threads k' t) = 0" and "waitq k' w = waitq k w"
proof -
  define k1 where "k1 = z_reset_thread_states t {F_PENDING} (z_set_thread_return_value t 0 k)"
  have e: "tstate k1 t = {}" "swap_retval (threads k1 t) = 0" "current k1 = current k" "idle_thread k1 = idle_thread k"
    "timeout_list k1 = timeout_list k" "qlists k1 = qlists k"
    using assms(5) by (auto simp: k1_def z_reset_thread_states_def z_set_thread_return_value_def)
  have "t \<notin> set (qlists k l)" for l
    using queues_okD(2,3) [OF assms(1), of t] assms(2,7) by (cases l) auto
  then have "queues_ok k1"
    using assms(2,7) by (intro queues_ok_drop [OF assms(1), of _ t])
      (auto simp: k1_def z_reset_thread_states_def z_set_thread_return_value_def remove1_idem)
  moreover have r: "z_is_thread_ready k1 t" using e assms(6) by (simp add: ready_def2)
  ultimately show "queues_ok k'"
    unfolding k'_def k1_def [symmetric] using e assms(3) by (intro queues_ok_reschedule queues_ok_ready) simp_all
  show "t \<in> set (runq k')" "swap_retval (threads k' t) = 0" "waitq k' w = waitq k w"
    unfolding k'_def k1_def [symmetric] using r e assms(4) by (simp_all add: set_priq_insert z_reschedule_def z_swap_def)
qed

lemma get_finds:
  assumes w: "waitq (mk s) (tx_msg_queue mb) = ts1 @ t # ts2"
    and no: "\<forall>u\<in>set ts1. \<not> compatible (msgs s (swap_msg s u)) ((msgs s (Msg rx))\<lparr>mm_tx_target := Some (current (mk s))\<rparr>)"
    and co: "compatible (msgs s (swap_msg s t)) ((msgs s (Msg rx))\<lparr>mm_tx_target := Some (current (mk s))\<rparr>)"
    and ne: "\<forall>u\<in>set (ts1 @ [t]). swap_msg s u \<noteq> Msg rx"
  obtains rx' where "delivered (msgs s (swap_msg s t)) (msgs s (Msg rx)) rx'" "mm_tx_target rx' = Some (current (mk s))"
    "k_mbox_get mb rx buffer timeout s =
       (case mbox_message_data_check (Msg rx) buffer (on_kernel (z_unpend_thread t) (s\<lparr>msgs := (msgs s)(swap_msg s t :=
            (msgs s (swap_msg s t))\<lparr>mm_tx_target := Some (current (mk s)), mm_info := mm_info (msgs s (Msg rx))\<rparr>, Msg rx := rx')\<rparr>)) of
          (r, s) \<Rightarrow> (Done r, s))"
proof -
  let ?rx = "(msgs s (Msg rx))\<lparr>mm_tx_target := Some (current (mk s))\<rparr>" and ?s = "upd_msg (Msg rx) (\<lambda>m. m\<lparr>mm_tx_target := Some (current (mk s))\<rparr>) s"
  obtain rx' where r: "mbox_message_match (msgs s (swap_msg s t)) ?rx = Some (answered (msgs s (swap_msg s t)) ?rx, rx')"
    "delivered (msgs s (swap_msg s t)) ?rx rx'" "mm_tx_target rx' = mm_tx_target ?rx"
    by (rule match_some [OF co])
  have "find_sender (Msg rx) (ts1 @ t # ts2) ?s = find_sender (Msg rx) (t # ts2) ?s"
    using no ne by (intro find_sender_first) simp
  also have "\<dots> = Some (t, s\<lparr>msgs := (msgs s)(swap_msg s t :=
            (msgs s (swap_msg s t))\<lparr>mm_tx_target := Some (current (mk s)), mm_info := mm_info (msgs s (Msg rx))\<rparr>, Msg rx := rx')\<rparr>)"
    using r(1) ne by (simp add: Let_def upd_msg_def answered_def fun_upd_twist)
  finally have "k_mbox_get mb rx buffer timeout s =
       (case mbox_message_data_check (Msg rx) buffer (on_kernel (z_unpend_thread t) (s\<lparr>msgs := (msgs s)(swap_msg s t :=
            (msgs s (swap_msg s t))\<lparr>mm_tx_target := Some (current (mk s)), mm_info := mm_info (msgs s (Msg rx))\<rparr>, Msg rx := rx')\<rparr>)) of
          (r, s) \<Rightarrow> (Done r, s))"
    using w by (simp add: k_mbox_get_def Let_def)
  moreover have "delivered (msgs s (swap_msg s t)) (msgs s (Msg rx)) rx'" using r(2) by (simp add: delivered_def)
  ultimately show ?thesis using r(3) by (intro that [of rx']) simp_all
qed

text \<open>
  C28. A receiver with a buffer takes the message of the first waiting sender that fits: the bytes, as many as both sides
  allow, are in its buffer, its descriptor names the sender and carries the sender's information word, the sender is
  ready with return value 0 and reads the size taken and the receiver's word in its descriptor. Senders before it in
  the queue that do not fit keep waiting.\<close>

theorem k_mbox_get_completes:
  assumes "queues_ok (mk s)" and "distinct (timeout_list (mk s))"
    and "waitq (mk s) (tx_msg_queue mb) = ts1 @ t # ts2" and "waits_in s (tx_msg_queue mb) t"
    and "tx = msgs s (swap_msg s t)" and "rx = (msgs s (Msg r))\<lparr>mm_tx_target := Some (current (mk s))\<rparr>"
    and "\<forall>u\<in>set ts1. \<not> compatible (msgs s (swap_msg s u)) rx" and "compatible tx rx"
    and "\<forall>u\<in>set (ts1 @ [t]). swap_msg s u \<noteq> Msg r"
    and "mm_syncing tx = Some t" and "mm_tx_data tx \<noteq> 0" and "buffer \<noteq> 0"
    and "mm_tx_data tx + mm_size tx \<le> buffer \<or> buffer + mm_size tx \<le> mm_tx_data tx"
  shows "\<exists>s'. k_mbox_get mb r buffer timeout s = (Done 0, s') \<and> queues_ok (mk s')
    \<and> waitq (mk s') (tx_msg_queue mb) = ts1 @ ts2
    \<and> (\<forall>i < min (mm_size rx) (mm_size tx). mmem s' (buffer + i) = mmem s (mm_tx_data tx + i))
    \<and> mm_rx_source (msgs s' (Msg r)) = mm_rx_source tx \<and> mm_info (msgs s' (Msg r)) = mm_info tx
    \<and> mm_size (msgs s' (Msg r)) = min (mm_size rx) (mm_size tx)
    \<and> t \<in> set (runq (mk s')) \<and> mbox_message_put_resume t s' = 0
    \<and> mm_size (msgs s' (swap_msg s t)) = min (mm_size rx) (mm_size tx) \<and> mm_info (msgs s' (swap_msg s t)) = mm_info rx"
proof -
  let ?n = "min (mm_size rx) (mm_size tx)" and ?m = "swap_msg s t" and ?w = "tx_msg_queue mb"
  obtain rx' where d: "delivered tx (msgs s (Msg r)) rx'" and g: "k_mbox_get mb r buffer timeout s =
       (case mbox_message_data_check (Msg r) buffer (on_kernel (z_unpend_thread t) (s\<lparr>msgs := (msgs s)(?m :=
            tx\<lparr>mm_tx_target := Some (current (mk s)), mm_info := mm_info (msgs s (Msg r))\<rparr>, Msg r := rx')\<rparr>)) of (r, s) \<Rightarrow> (Done r, s))"
    using get_finds [OF assms(3) assms(7) [unfolded assms(6)] assms(8) [unfolded assms(5,6)] assms(9)] assms(5) by metis
  define s1 where "s1 = on_kernel (z_unpend_thread t) (s\<lparr>msgs := (msgs s)(?m :=
            tx\<lparr>mm_tx_target := Some (current (mk s)), mm_info := mm_info (msgs s (Msg r))\<rparr>, Msg r := rx')\<rparr>)"
  define s2 where "s2 = (if mm_tx_data rx' \<noteq> 0 \<and> mm_size rx' > 0
      then s1\<lparr>mmem := (\<lambda>a. if buffer \<le> a \<and> a < buffer + mm_size rx' then mmem s1 (mm_tx_data rx' + (a - buffer)) else mmem s1 a)\<rparr> else s1)"
  have x: "mm_syncing rx' = Some t" "fst (mm_tx_block rx') = 0" "mm_tx_data rx' = mm_tx_data tx" "mm_size rx' = ?n"
    "mm_rx_source rx' = mm_rx_source tx" "mm_info rx' = mm_info tx"
    using d assms(6,10,11) by (simp_all add: delivered_def)
  have w: "t \<in> set (waitq (mk s) ?w)" "tstate (mk s) t = {F_PENDING}" "t \<noteq> current (mk s)" using assms(4) by (simp_all add: waits_in_def)
  note U = unpend_state [OF assms(1,2) w(1,2)]
  have m: "?m \<noteq> Msg r" using assms(9) by simp
  have s2: "mk s2 = z_unpend_thread t (mk s)" "swap_msg s2 = swap_msg s" "msgs s2 (Msg r) = rx'"
    "msgs s2 ?m = tx\<lparr>mm_tx_target := Some (current (mk s)), mm_info := mm_info (msgs s (Msg r))\<rparr>"
    using m by (simp_all add: s2_def s1_def)
  have s1: "msgs s1 (Msg r) = rx'" "mmem s1 = mmem s" by (simp_all add: s1_def)
  have get: "k_mbox_get mb r buffer timeout s = (Done 0, mbox_message_dispose (Msg r) s2)"
    using assms(12) unfolding g s1_def [symmetric]
    by (simp add: mbox_message_data_check_def k_mbox_data_get_def s2_def Let_def s1)
  have nd: "\<not> is_dummy t s2" by (simp add: is_dummy_def s2 U)
  note P = dispose_sync [of s2 "Msg r" t, unfolded s2, OF x(1,2) nd m]
  let ?k = "z_unpend_thread t (mk s)"
  have "t \<noteq> idle_thread (mk s)" using queues_ok_waiting(4) [OF assms(1) w(1)] .
  then have c: "F_QUEUED \<notin> tstate ?k t" "t \<noteq> idle_thread ?k" "t \<noteq> current ?k" "tstate ?k t \<subseteq> {F_PENDING}" "Thr t \<notin> set (timeout_list ?k)"
    using U(2,4,7,8) w(3) by (simp_all add: ready_def2)
  note K = wake_sender [OF U(1) c U(5), folded P(1)]
  have "mmem s2 (buffer + i) = mmem s (mm_tx_data tx + i)" if "i < ?n" for i
    using that x(3,4) assms(11) s1(2) by (simp add: s2_def)
  moreover have "remove1 t (ts1 @ t # ts2) = ts1 @ ts2"
    using queues_okD(1) [OF assms(1), of "WaitQ ?w"] assms(3) by (simp add: remove1_append)
  ultimately show ?thesis unfolding get using K U(9) P(2,3) m x assms(3,6)
    by (simp add: mbox_message_put_resume_def s2)
qed

lemma mbox_hand_over:
  assumes "queues_ok k" and "distinct (timeout_list k)" and "t \<in> set (waitq k w)" and "tstate k t = {F_PENDING}"
  defines "k' \<equiv> z_ready_thread t (z_set_thread_return_value t 0 (z_unpend_thread t k))"
  shows "queues_ok k'" and "t \<in> set (runq k')" and "swap_retval (threads k' t) = 0" and "waitq k' w = remove1 t (waitq k w)"
    and "current k' = current k" and "x \<noteq> t \<Longrightarrow> threads k' x = threads k x" and "idle_thread k' = idle_thread k"
proof -
  note U = unpend_state [OF assms(1-4)]
  let ?k = "z_set_thread_return_value t 0 (z_unpend_thread t k)"
  have q: "queues_ok ?k" using U(1) by (rule queues_ok_retval)
  have f: "F_QUEUED \<notin> tstate ?k t" "t \<noteq> idle_thread ?k" "z_is_thread_ready ?k t"
    using U(2,4,8) queues_ok_waiting(4) [OF assms(1,3)] by (simp_all add: z_set_thread_return_value_def ready_def2)
  show "queues_ok k'" unfolding k'_def using q f(1,2) by (rule queues_ok_ready)
  show "t \<in> set (runq k')" "swap_retval (threads k' t) = 0" "waitq k' w = remove1 t (waitq k w)"
    "current k' = current k" "idle_thread k' = idle_thread k"
    unfolding k'_def using f(3) U(7-9) by (simp_all add: set_priq_insert z_set_thread_return_value_def)
  show "threads k' x = threads k x" if "x \<noteq> t"
    unfolding k'_def using U(6) [OF that] f(3) that by (simp add: z_set_thread_return_value_def)
qed

text \<open>
  C29. A sender that finds a receiver waiting hands its message to the first one that fits: the receiver's descriptor
  carries the message, the receiver is ready with return value 0, and receivers before it that do not fit keep
  waiting. The sender stops, pending and in no queue, until the receiver has disposed of the message.\<close>

theorem k_mbox_put_delivers:
  assumes "queues_ok (mk s)" and "distinct (timeout_list (mk s))"
    and "waitq (mk s) (rx_msg_queue mb) = ts1 @ t # ts2" and "waits_in s (rx_msg_queue mb) t"
    and "tx = (msgs s (Msg m))\<lparr>mm_syncing := Some (current (mk s)), mm_rx_source := Some (current (mk s))\<rparr>"
    and "rx = msgs s (swap_msg s t)" and "\<forall>u\<in>set ts1. \<not> compatible tx (msgs s (swap_msg s u))" and "compatible tx rx"
    and "\<forall>u\<in>set (ts1 @ [t]). swap_msg s u \<noteq> Msg m \<and> u \<noteq> current (mk s)"
    and "current (mk s) \<in> set (runq (mk s))"
  shows "\<exists>s'. k_mbox_put mb m timeout s = (Blocked, s') \<and> waitq (mk s') (rx_msg_queue mb) = ts1 @ ts2
    \<and> delivered tx rx (msgs s' (swap_msg s t)) \<and> mm_info (msgs s' (Msg m)) = mm_info rx
    \<and> t \<in> set (runq (mk s')) \<and> swap_retval (threads (mk s') t) = 0
    \<and> F_PENDING \<in> tstate (mk s') (current (mk s)) \<and> (\<forall>l. current (mk s) \<notin> set (qlists (mk s') l)) \<and> queues_ok (mk s')"
proof -
  let ?c = "current (mk s)" and ?w = "rx_msg_queue mb"
  define s1 where "s1 = s\<lparr>msgs := (msgs s)(Msg m := tx), swap_msg := (swap_msg s)(?c := Msg m)\<rparr>"
  have s1: "msgs s1 (Msg m) = tx" "mk s1 = mk s" "\<And>u. u \<in> set (ts1 @ [t]) \<Longrightarrow> swap_msg s1 u = swap_msg s u \<and> msgs s1 (swap_msg s u) = msgs s (swap_msg s u)"
    using assms(9) by (auto simp: s1_def)
  obtain rx' where r: "mbox_message_match tx rx = Some (answered tx rx, rx')" "delivered tx rx rx'" by (rule match_some [OF assms(8)])
  have "find_receiver (Msg m) (ts1 @ t # ts2) s1 = find_receiver (Msg m) (t # ts2) s1"
    using assms(7) s1(1,3) by (intro find_receiver_first) simp
  also have "\<dots> = Some (t, s1\<lparr>msgs := (msgs s1)(Msg m := answered tx rx, swap_msg s t := rx')\<rparr>)"
    using r(1) s1(1) s1(3) [of t] assms(6) by (simp add: Let_def)
  finally have fr: "find_receiver (Msg m) (waitq (mk s1) ?w) s1 = Some (t, s1\<lparr>msgs := (msgs s1)(Msg m := answered tx rx, swap_msg s t := rx')\<rparr>)"
    using s1(2) assms(3) by simp
  have w: "t \<in> set (waitq (mk s) ?w)" "tstate (mk s) t = {F_PENDING}" "t \<noteq> ?c" using assms(4) by (simp_all add: waits_in_def)
  note H = mbox_hand_over [OF assms(1,2) w(1,2)]
  define k1 where "k1 = z_ready_thread t (z_set_thread_return_value t 0 (z_unpend_thread t (mk s)))"
  have c: "F_QUEUED \<in> tstate (mk s) ?c" "z_is_thread_ready (mk s) ?c" using assms(1,10) queues_okD(2,5) by blast+
  have ck: "threads k1 ?c = threads (mk s) ?c" unfolding k1_def using w(3) by (intro H(6)) simp
  have nd: "F_DUMMY \<notin> tstate k1 ?c" "F_DUMMY \<notin> tstate (z_unpend_thread t (mk s)) ?c" "?c \<noteq> t"
    using c(2) ck unpend_state(6) [OF assms(1,2) w(1,2), of ?c] w(3) by (auto simp: ready_def2)
  have "k_mbox_put mb m timeout s = (Blocked, (s1\<lparr>msgs := (msgs s1)(Msg m := answered tx rx, swap_msg s t := rx')\<rparr>)\<lparr>mk := z_pend_curr None K_FOREVER k1\<rparr>)"
    using fr nd assms(5) by (simp add: k_mbox_put_def mbox_message_put_def Let_def upd_msg_def s1_def is_dummy_def on_kernel_def k1_def [symmetric])
  moreover have q: "qlists (z_pend_curr None K_FOREVER k1) l = remove1 ?c (qlists k1 l)" for l
    using c(1) ck H(5) by (simp add: z_pend_curr_def pend_def Let_def z_is_thread_queued_def k1_def)
  moreover have th: "threads (z_pend_curr None K_FOREVER k1) x = (if x = ?c then (threads (mk s) ?c)\<lparr>thread_state := tstate (mk s) ?c - {F_QUEUED} \<union> {F_PENDING},
      swap_retval := - EAGAIN\<rparr> else threads k1 x)" for x
    using c(1) ck H(5) by (simp add: z_pend_curr_def pend_def Let_def z_is_thread_queued_def k1_def z_swap_def z_set_thread_states_def)
  moreover have "pended_on (threads (mk s) ?c) = None"
    using queues_okD(4) [OF assms(1), of ?c] c(2) by (cases "pended_on (threads (mk s) ?c)") (auto simp: ready_def2)
  then have "queues_ok (z_pend_curr None K_FOREVER k1)"
    using q th by (intro queues_ok_drop [OF H(1), folded k1_def, of _ ?c]) (auto simp: z_pend_curr_def pend_def Let_def)
  moreover have "?c \<notin> set (remove1 ?c (qlists k1 l))" for l using queues_okD(1) [OF H(1), of l] by (simp add: k1_def)
  moreover have "?c \<notin> set (waitq (mk s) ?w)" using queues_okD(3) [OF assms(1)] \<open>pended_on (threads (mk s) ?c) = None\<close> by simp
  moreover have "remove1 t (ts1 @ t # ts2) = ts1 @ ts2"
    using queues_okD(1) [OF assms(1), of "WaitQ ?w"] assms(3) by (simp add: remove1_append)
  moreover have "Msg m \<noteq> swap_msg s t" using assms(9) by auto
  ultimately show ?thesis using r(2) H(2-4) w(3) assms(3) assms(9)
    by (simp add: answered_def k1_def [symmetric] remove1_idem)
qed

text \<open>
  A receiver without a buffer keeps the message for later, and its sender is neither pending nor in any queue: it
  counts as ready. Setting the sender's priority then puts it into the run queue, and its send returns \<open>-EAGAIN\<close>, though
  the receiver still refers to it and to its descriptor.\<close>

theorem mbox_sender_runs_early:
  assumes "queues_ok (mk s)" and "distinct (timeout_list (mk s))"
    and "waitq (mk s) (tx_msg_queue mb) = t # ts2" and "waits_in s (tx_msg_queue mb) t"
    and "tx = msgs s (swap_msg s t)" and "rx = (msgs s (Msg r))\<lparr>mm_tx_target := Some (current (mk s))\<rparr>"
    and "compatible tx rx" and "swap_msg s t \<noteq> Msg r" and "mm_syncing tx = Some t" and "0 < min (mm_size rx) (mm_size tx)"
    and "swap_retval (threads (mk s) t) = - EAGAIN"
  shows "\<exists>s'. k_mbox_get mb r 0 timeout s = (Done 0, s') \<and> z_is_thread_ready (mk s') t \<and> (\<forall>l. t \<notin> set (qlists (mk s') l))
    \<and> t \<in> set (runq (k_thread_priority_set t p (mk s')))
    \<and> mbox_message_put_resume t (on_kernel (k_thread_priority_set t p) s') = - EAGAIN
    \<and> mm_syncing (msgs s' (Msg r)) = Some t"
proof -
  obtain rx' where d: "delivered tx (msgs s (Msg r)) rx'" and g: "k_mbox_get mb r 0 timeout s =
       (case mbox_message_data_check (Msg r) 0 (on_kernel (z_unpend_thread t) (s\<lparr>msgs := (msgs s)(swap_msg s t :=
            tx\<lparr>mm_tx_target := Some (current (mk s)), mm_info := mm_info (msgs s (Msg r))\<rparr>, Msg r := rx')\<rparr>)) of (r, s) \<Rightarrow> (Done r, s))"
    using get_finds [of s mb "[]" t ts2 r 0 timeout] assms(3,5,6,7,8) by auto
  have w: "t \<in> set (waitq (mk s) (tx_msg_queue mb))" "tstate (mk s) t = {F_PENDING}" "t \<noteq> current (mk s)"
    using assms(4) by (simp_all add: waits_in_def)
  note U = unpend_state [OF assms(1,2) w(1,2)]
  let ?k = "z_unpend_thread t (mk s)"
  have "swap_retval (threads ?k t) = - EAGAIN" using assms(11) by (simp add: z_unpend_thread_def)
  then have "t \<in> set (runq (k_thread_priority_set t p ?k))" "swap_retval (threads (k_thread_priority_set t p ?k) t) = - EAGAIN"
    using U(4) by (simp_all add: k_thread_priority_set_def z_thread_priority_set_def Let_def set_priq_insert z_reschedule_def z_swap_def)
  moreover have "mm_size rx' \<noteq> 0" "mm_syncing rx' = Some t" using d assms(6,9,10) by (simp_all add: delivered_def)
  ultimately show ?thesis using U(3,4) unfolding g
    by (simp add: mbox_message_data_check_def mbox_message_put_resume_def)
qed

section \<open>An example\<close>

text \<open>Threads 2 and 3 wait on queue 7, with messages 12 and 13; thread 4 runs and has message 14.\<close>

definition demo_mbox :: mbsys where
  "demo_mbox = \<lparr>mk = demo_kernel,
     msgs = (\<lambda>_. \<lparr>mm_size = 8, mm_info = 5, mm_tx_data = 2000, mm_tx_block = (0, 0), mm_rx_source = None, mm_tx_target = None,
       mm_syncing = None, mm_async_sem = None\<rparr>)
       (Msg 12 := \<lparr>mm_size = 3, mm_info = 6, mm_tx_data = 1000, mm_tx_block = (0, 0), mm_rx_source = Some 2, mm_tx_target = None,
          mm_syncing = Some 2, mm_async_sem = None\<rparr>),
     swap_msg = (\<lambda>t. Msg (t + 10)), mpools = (\<lambda>_. \<lparr>kp_base = demo_pool, kp_wait_q = 9\<rparr>),
     msems = (\<lambda>_. \<lparr>sem_count = 0, sem_limit = 1, sem_wait_q = 8\<rparr>),
     async_msg_free = \<lparr>stk_base = 0, stk_next = 0, stk_top = 10, stk_wait_q = 11, stk_alloc = False\<rparr>,
     async_words = (\<lambda>_. 0), mmem = of_nat\<rparr>"

abbreviation mbox7 :: k_mbox where
  "mbox7 \<equiv> \<lparr>tx_msg_queue = 7, rx_msg_queue = 8\<rparr>"

lemma demo_mbox_facts:
  "queues_ok (mk demo_mbox)" "distinct (timeout_list (mk demo_mbox))" "waitq (mk demo_mbox) 7 = [2, 3]" "waits_in demo_mbox 7 2"
  "current (mk demo_mbox) = 4" "runq (mk demo_mbox) = [4]" "swap_retval (threads (mk demo_mbox) 2) = - EAGAIN"
  using demo_queues_ok by (simp_all add: demo_mbox_def demo_sel waits_in_def) (simp_all add: demo_kernel_def base_thread_def EAGAIN_def)

theorem k_mbox_get_completes_witness:
  "\<exists>s'. k_mbox_get mbox7 14 3000 K_FOREVER demo_mbox = (Done 0, s') \<and> waitq (mk s') 7 = [3] \<and> mmem s' 3002 = mmem demo_mbox 1002
    \<and> mm_info (msgs s' (Msg 14)) = 6 \<and> 2 \<in> set (runq (mk s')) \<and> mbox_message_put_resume 2 s' = 0"
proof -
  have m: "swap_msg demo_mbox 2 = Msg 12" "mm_size (msgs demo_mbox (Msg 12)) = 3" "mm_size (msgs demo_mbox (Msg 14)) = 8"
    "mm_info (msgs demo_mbox (Msg 12)) = 6" "mm_tx_data (msgs demo_mbox (Msg 12)) = 1000" "mm_syncing (msgs demo_mbox (Msg 12)) = Some 2"
    "compatible (msgs demo_mbox (Msg 12)) ((msgs demo_mbox (Msg 14))\<lparr>mm_tx_target := Some 4\<rparr>)"
    by (simp_all add: demo_mbox_def compatible_def)
  obtain s' where s': "k_mbox_get mbox7 14 3000 K_FOREVER demo_mbox = (Done 0, s')" "waitq (mk s') 7 = [3]"
    "\<forall>i<3. mmem s' (3000 + i) = mmem demo_mbox (1000 + i)" "mm_info (msgs s' (Msg 14)) = 6" "2 \<in> set (runq (mk s'))" "mbox_message_put_resume 2 s' = 0"
    using k_mbox_get_completes [of demo_mbox mbox7 "[]" 2 "[3]" _ _ 14 3000 K_FOREVER, OF _ _ _ _ refl refl] demo_mbox_facts m by auto
  then show ?thesis using spec [OF s'(3), of 2] by simp
qed

theorem mbox_sender_runs_early_witness:
  "\<exists>s'. k_mbox_get mbox7 14 0 K_FOREVER demo_mbox = (Done 0, s') \<and> 2 \<in> set (runq (k_thread_priority_set 2 1 (mk s')))
    \<and> mbox_message_put_resume 2 (on_kernel (k_thread_priority_set 2 1) s') = - EAGAIN"
  using mbox_sender_runs_early [of demo_mbox mbox7 2 "[3]" _ _ 14 K_FOREVER 1, OF _ _ _ _ refl refl] demo_mbox_facts
  by (auto simp: compatible_def) (auto simp: demo_mbox_def)

theorem k_mbox_put_delivers_witness:
  "\<exists>s'. k_mbox_put \<lparr>tx_msg_queue = 8, rx_msg_queue = 7\<rparr> 14 K_FOREVER demo_mbox = (Blocked, s') \<and> waitq (mk s') 7 = [2]
    \<and> mm_rx_source (msgs s' (Msg 13)) = Some 4 \<and> 3 \<in> set (runq (mk s'))"
proof -
  have "waits_in demo_mbox 7 3" using demo_mbox_facts(3,5) by (simp add: waits_in_def) (simp add: demo_mbox_def demo_kernel_def base_thread_def)
  then show ?thesis
    using k_mbox_put_delivers [of demo_mbox "\<lparr>tx_msg_queue = 8, rx_msg_queue = 7\<rparr>" "[2]" 3 "[]" _ 14 _ K_FOREVER, OF _ _ _ _ refl refl] demo_mbox_facts
    by (auto simp: compatible_def delivered_def) (auto simp: demo_mbox_def)
qed

end
