(* ===== verification/KPipe.thy ===== *)
theory KPipe
  imports KHeap KSem KStack KMsgq
begin

text \<open>
  Pipes, \<^verbatim>\<open>kernel/pipes.c\<close>, with asynchronous messages. The descriptor that the \<^verbatim>\<open>swap_data\<close> of a waiting thread, real
  or dummy, points to is \<open>descs\<close> of that thread. The kernel's state is a field of the state here, beside the
  descriptors, the memory, the memory pools, the semaphores and the stack of unused asynchronous descriptors. The
  calls copy with the scheduler locked; they are modelled without interrupts in between. Sizes are natural numbers: a buffer lies
  within the address space. The lemmas show that the buffer is a queue of bytes, and what the copy loops do with memory and
  descriptors when the areas involved do not overlap.
\<close>

record k_pipe_desc =
  pd_buffer :: nat
  pd_bytes :: nat
  pd_block :: "nat \<times> u32"
  pd_sem :: "nat option"

record k_pipe =
  pp_buffer :: nat
  pp_size :: nat
  pp_used :: nat
  pp_read :: nat
  pp_write :: nat
  pp_alloc :: bool
  pp_readers :: wqid
  pp_writers :: wqid

record psys =
  pk :: kernel
  descs :: "tid \<Rightarrow> k_pipe_desc"
  pmem :: "nat \<Rightarrow> u8"
  ppools :: "nat \<Rightarrow> kpool"
  psems :: "nat \<Rightarrow> sem"
  pipe_async_msgs :: kstack
  pipe_words :: words

definition on_pk :: "(kernel \<Rightarrow> kernel) \<Rightarrow> psys \<Rightarrow> psys" where
  "on_pk f s = s\<lparr>pk := f (pk s)\<rparr>"

definition EIO :: int where "EIO = 5"

section \<open>Asynchronous descriptors\<close>

definition pipe_async_alloc :: "psys \<Rightarrow> tid outcome \<times> psys" where
  "pipe_async_alloc s =
     (case k_stack_pop (pipe_async_msgs s) K_FOREVER (pipe_words s) (pk s) of
        (Done (r, Some d), st, k) \<Rightarrow> (Done (unat d), s\<lparr>pipe_async_msgs := st, pk := k\<rparr>)
      | (_, st, k) \<Rightarrow> (Blocked, s\<lparr>pipe_async_msgs := st, pk := k\<rparr>))"

definition pipe_async_free :: "tid \<Rightarrow> psys \<Rightarrow> psys" where
  "pipe_async_free d s =
     (case k_stack_push (pipe_async_msgs s) (of_nat d) (pipe_words s) (pk s) of
        (st, w, k) \<Rightarrow> s\<lparr>pipe_async_msgs := st, pipe_words := w, pk := k\<rparr>)"

definition pipe_async_finish :: "tid \<Rightarrow> psys \<Rightarrow> psys" where
  "pipe_async_finish d s =
     (let s = (case k_mem_pool_free (pd_block (descs s d)) (ppools s) (pk s) of (ps, k) \<Rightarrow> s\<lparr>ppools := ps, pk := k\<rparr>);
          s = (case pd_sem (descs s d) of None \<Rightarrow> s
               | Some sem \<Rightarrow> (case k_sem_give (psems s sem) (pk s) of (se, k) \<Rightarrow> s\<lparr>psems := (psems s)(sem := se), pk := k\<rparr>))
      in pipe_async_free d s)"

text \<open>\<open>ds\<close> are the dummy threads of the array of asynchronous descriptors.\<close>

definition init_pipes_module :: "tid list \<Rightarrow> psys \<Rightarrow> psys" where
  "init_pipes_module ds s =
     fold (\<lambda>d s. pipe_async_free d (on_pk (upd_thread d (\<lambda>th. th\<lparr>thread_state := {F_DUMMY}\<rparr>)) s)) ds s"

section \<open>Set-up\<close>

definition k_pipe_init :: "wqid \<Rightarrow> wqid \<Rightarrow> nat \<Rightarrow> nat \<Rightarrow> psys \<Rightarrow> k_pipe \<times> psys" where
  "k_pipe_init rq wq buffer size_b s =
     (\<lparr>pp_buffer = buffer, pp_size = size_b, pp_used = 0, pp_read = 0, pp_write = 0, pp_alloc = False, pp_readers = rq, pp_writers = wq\<rparr>,
      on_pk (\<lambda>k. set_list (WaitQ rq) [] (set_list (WaitQ wq) [] k)) s)"

text \<open>\<open>rp\<close> gives the resource pools of the threads.\<close>

definition k_pipe_alloc_init :: "(tid \<Rightarrow> nat option) \<Rightarrow> wqid \<Rightarrow> wqid \<Rightarrow> u32 \<Rightarrow> psys \<Rightarrow> int \<times> k_pipe option \<times> psys" where
  "k_pipe_alloc_init rp rq wq size_b s =
     (if size_b \<noteq> 0
      then (case z_thread_malloc rp size_b (ppools s) (pmem s) (pk s) of
              (buffer, ps, m, k) \<Rightarrow>
                let s = s\<lparr>ppools := ps, pmem := m, pk := k\<rparr>
                in if buffer \<noteq> 0 then (case k_pipe_init rq wq buffer (unat size_b) s of (p, s) \<Rightarrow> (0, Some (p\<lparr>pp_alloc := True\<rparr>), s))
                   else (- ENOMEM, None, s))
      else (case k_pipe_init rq wq 0 0 s of (p, s) \<Rightarrow> (0, Some p, s)))"

definition k_pipe_cleanup :: "k_pipe \<Rightarrow> psys \<Rightarrow> k_pipe \<times> psys" where
  "k_pipe_cleanup p s =
     (if pp_alloc p
      then (case k_free (pp_buffer p) (ppools s) (pmem s) (pk s) of (ps, k) \<Rightarrow> (p\<lparr>pp_buffer := 0, pp_alloc := False\<rparr>, s\<lparr>ppools := ps, pk := k\<rparr>))
      else (p, s))"

section \<open>The buffer\<close>

fun xfer_loop :: "nat \<Rightarrow> nat \<Rightarrow> nat \<Rightarrow> (nat \<Rightarrow> u8) \<Rightarrow> nat \<Rightarrow> u8" where
  "xfer_loop 0 dest src m = m"
| "xfer_loop (Suc n) dest src m = xfer_loop n (dest + 1) (src + 1) (m(dest := m src))"

definition pipe_xfer :: "nat \<Rightarrow> nat \<Rightarrow> nat \<Rightarrow> nat \<Rightarrow> (nat \<Rightarrow> u8) \<Rightarrow> nat \<times> (nat \<Rightarrow> u8)" where
  "pipe_xfer dest dest_size src src_size m = (let n = min dest_size src_size in (n, xfer_loop n dest src m))"

definition put_round :: "nat \<Rightarrow> nat \<Rightarrow> nat \<times> k_pipe \<times> (nat \<Rightarrow> u8) \<Rightarrow> nat \<times> k_pipe \<times> (nat \<Rightarrow> u8)" where
  "put_round src src_size st =
     (case st of (written, p, m) \<Rightarrow>
        let run_length = min (pp_size p - pp_used p) (pp_size p - pp_write p)
        in case pipe_xfer (pp_buffer p + pp_write p) run_length (src + written) (src_size - written) m of
             (n, m) \<Rightarrow> (written + n,
               p\<lparr>pp_used := pp_used p + n, pp_write := (if pp_write p + n = pp_size p then 0 else pp_write p + n)\<rparr>, m))"

definition pipe_buffer_put :: "k_pipe \<Rightarrow> nat \<Rightarrow> nat \<Rightarrow> (nat \<Rightarrow> u8) \<Rightarrow> nat \<times> k_pipe \<times> (nat \<Rightarrow> u8)" where
  "pipe_buffer_put p src src_size m = put_round src src_size (put_round src src_size (0, p, m))"

definition get_round :: "nat \<Rightarrow> nat \<Rightarrow> nat \<times> k_pipe \<times> (nat \<Rightarrow> u8) \<Rightarrow> nat \<times> k_pipe \<times> (nat \<Rightarrow> u8)" where
  "get_round dest dest_size st =
     (case st of (num, p, m) \<Rightarrow>
        let run_length = min (pp_used p) (pp_size p - pp_read p)
        in case pipe_xfer (dest + num) (dest_size - num) (pp_buffer p + pp_read p) run_length m of
             (n, m) \<Rightarrow> (num + n,
               p\<lparr>pp_used := pp_used p - n, pp_read := (if pp_read p + n = pp_size p then 0 else pp_read p + n)\<rparr>, m))"

definition pipe_buffer_get :: "k_pipe \<Rightarrow> nat \<Rightarrow> nat \<Rightarrow> (nat \<Rightarrow> u8) \<Rightarrow> nat \<times> k_pipe \<times> (nat \<Rightarrow> u8)" where
  "pipe_buffer_get p dest dest_size m = get_round dest dest_size (get_round dest dest_size (0, p, m))"

section \<open>The working set\<close>

fun count_waiting :: "(tid \<Rightarrow> k_pipe_desc) \<Rightarrow> nat \<Rightarrow> nat \<Rightarrow> tid list \<Rightarrow> nat" where
  "count_waiting ds bytes_to_xfer num [] = num"
| "count_waiting ds bytes_to_xfer num (t # ts) =
     (let num = num + pd_bytes (ds t) in if num \<ge> bytes_to_xfer then num else count_waiting ds bytes_to_xfer num ts)"

text \<open>The loop that fills \<^verbatim>\<open>xfer_list\<close>; every round unlinks the head of the queue, so its length bounds the rounds.\<close>

fun take_waiters :: "nat \<Rightarrow> wqid \<Rightarrow> nat \<Rightarrow> nat \<Rightarrow> tid list \<Rightarrow> psys \<Rightarrow> tid list \<times> tid option \<times> psys" where
  "take_waiters 0 w bytes_to_xfer num xs s = (xs, None, s)"
| "take_waiters (Suc fuel) w bytes_to_xfer num xs s =
     (case waitq (pk s) w of [] \<Rightarrow> (xs, None, s)
      | t # _ \<Rightarrow>
          let num = num + pd_bytes (descs s t)
          in if num > bytes_to_xfer then (xs, Some t, s)
             else take_waiters fuel w bytes_to_xfer num (xs @ [t]) (on_pk (z_unpend_thread t) s))"

definition pipe_xfer_prepare ::
  "wqid \<Rightarrow> nat \<Rightarrow> nat \<Rightarrow> nat \<Rightarrow> int \<Rightarrow> psys \<Rightarrow> (tid list \<times> tid option \<times> psys) option" where
  "pipe_xfer_prepare w pipe_space bytes_to_xfer min_xfer timeout s =
     (if timeout = K_NO_WAIT \<and> count_waiting (descs s) bytes_to_xfer 0 (waitq (pk s) w) + pipe_space < min_xfer then None
      else Some (take_waiters (length (waitq (pk s) w)) w bytes_to_xfer 0 [] s))"

definition pipe_return_code :: "nat \<Rightarrow> nat \<Rightarrow> nat \<Rightarrow> int" where
  "pipe_return_code min_xfer bytes_remaining bytes_requested =
     (if bytes_requested - bytes_remaining \<ge> min_xfer then 0 else - EAGAIN)"

definition pipe_thread_ready :: "tid \<Rightarrow> psys \<Rightarrow> psys" where
  "pipe_thread_ready t s =
     (if F_DUMMY \<in> tstate (pk s) t then pipe_async_finish t s else on_pk (z_ready_thread t) s)"

definition z_sched_unlock_no_reschedule :: "'a kernel_scheme \<Rightarrow> 'a kernel_scheme" where
  "z_sched_unlock_no_reschedule k = upd_thread (current k) (\<lambda>th. th\<lparr>sched_locked := sched_locked th + 1\<rparr>) k"

text \<open>After \<open>n\<close> bytes the position of a descriptor moves on.\<close>

definition advance_desc :: "tid \<Rightarrow> nat \<Rightarrow> psys \<Rightarrow> psys" where
  "advance_desc t n s =
     s\<lparr>descs := (descs s)(t := (descs s t)\<lparr>pd_buffer := pd_buffer (descs s t) + n, pd_bytes := pd_bytes (descs s t) - n\<rparr>)\<rparr>"

section \<open>Writing\<close>

text \<open>Copying to one reader, from position \<open>num\<close> of the data on.\<close>

definition feed_reader :: "nat \<Rightarrow> nat \<Rightarrow> tid \<Rightarrow> nat \<times> psys \<Rightarrow> nat \<times> psys" where
  "feed_reader data bytes_to_write t st =
     (case st of (num, s) \<Rightarrow>
        case pipe_xfer (pd_buffer (descs s t)) (pd_bytes (descs s t)) (data + num) (bytes_to_write - num) (pmem s) of
          (n, m) \<Rightarrow> (num + n, advance_desc t n (s\<lparr>pmem := m\<rparr>)))"

definition ready_reader :: "tid \<Rightarrow> nat \<times> psys \<Rightarrow> nat \<times> psys" where
  "ready_reader t st = (case st of (num, s) \<Rightarrow> (num, on_pk (z_ready_thread t) s))"

definition z_pipe_put_internal ::
  "tid option \<Rightarrow> nat \<Rightarrow> nat \<Rightarrow> nat \<Rightarrow> int \<Rightarrow> k_pipe \<Rightarrow> psys \<Rightarrow> (int \<times> nat) outcome \<times> k_pipe \<times> psys" where
  "z_pipe_put_internal async_desc data bytes_to_write min_xfer timeout p s =
     (case pipe_xfer_prepare (pp_readers p) (pp_size p - pp_used p) bytes_to_write min_xfer timeout s of
        None \<Rightarrow> (Done (- EIO, 0), p, s)
      | Some (xfer_list, reader, s) \<Rightarrow>
          let s = on_pk z_sched_lock s;
              st = fold (\<lambda>t st. ready_reader t (feed_reader data bytes_to_write t st)) xfer_list (0, s);
              st = (case reader of None \<Rightarrow> st | Some t \<Rightarrow> feed_reader data bytes_to_write t st)
          in case st of (num, s) \<Rightarrow>
             case pipe_buffer_put p (data + num) (bytes_to_write - num) (pmem s) of (n, p, m) \<Rightarrow>
             let num = num + n; s = s\<lparr>pmem := m\<rparr>
             in if num = bytes_to_write
                then (Done (0, num), p,
                      on_pk k_sched_unlock (case async_desc of None \<Rightarrow> s | Some d \<Rightarrow> pipe_async_finish d s))
                else (case async_desc of
                    Some d \<Rightarrow>
                      let s = on_pk z_sched_unlock_no_reschedule s;
                          s = s\<lparr>descs := (descs s)(d := (descs s d)\<lparr>pd_buffer := data + num, pd_bytes := bytes_to_write - num\<rparr>)\<rparr>
                      in (Done (0, num), p, on_pk (\<lambda>k. z_reschedule (z_pend_thread d (Some (pp_writers p)) K_FOREVER k)) s)
                  | None \<Rightarrow>
                      if timeout \<noteq> K_NO_WAIT
                      then (let c = current (pk s);
                                s = s\<lparr>descs := (descs s)(c := (descs s c)\<lparr>pd_buffer := data + num, pd_bytes := bytes_to_write - num\<rparr>)\<rparr>
                            in (Blocked, p, on_pk (\<lambda>k. z_pend_curr (Some (pp_writers p)) timeout (z_sched_unlock_no_reschedule k)) s))
                      else (Done (pipe_return_code min_xfer (bytes_to_write - num) bytes_to_write, num), p, on_pk k_sched_unlock s)))"

text \<open>What a call that waited returns once its thread \<open>t\<close> runs again, for both directions.\<close>

definition pipe_resume :: "tid \<Rightarrow> nat \<Rightarrow> nat \<Rightarrow> psys \<Rightarrow> int \<times> nat" where
  "pipe_resume t bytes min_xfer s =
     (pipe_return_code min_xfer (pd_bytes (descs s t)) bytes, bytes - pd_bytes (descs s t))"

definition k_pipe_put where
  "k_pipe_put data bytes_to_write min_xfer timeout p s = z_pipe_put_internal None data bytes_to_write min_xfer timeout p s"

definition block_put :: "tid \<Rightarrow> nat \<times> u32 \<Rightarrow> nat \<Rightarrow> nat option \<Rightarrow> k_pipe \<Rightarrow> psys \<Rightarrow> k_pipe \<times> psys" where
  "block_put d block bytes_to_write sem p s =
     (let s = s\<lparr>descs := (descs s)(d := (descs s d)\<lparr>pd_block := block, pd_sem := sem\<rparr>)\<rparr>;
          s = on_pk (\<lambda>k. upd_thread d (\<lambda>th. th\<lparr>prio := k_thread_priority_get (current k) k\<rparr>) k) s
      in snd (z_pipe_put_internal (Some d) (fst block) bytes_to_write bytes_to_write K_FOREVER p s))"

definition k_pipe_block_put :: "nat \<times> u32 \<Rightarrow> nat \<Rightarrow> nat option \<Rightarrow> k_pipe \<Rightarrow> psys \<Rightarrow> unit outcome \<times> k_pipe \<times> psys" where
  "k_pipe_block_put block bytes_to_write sem p s =
     (case pipe_async_alloc s of
        (Done d, s) \<Rightarrow> (Done (), block_put d block bytes_to_write sem p s)
      | (Blocked, s) \<Rightarrow> (Blocked, p, s))"

text \<open>The rest of it when its thread \<open>t\<close> waited for a descriptor.\<close>

definition k_pipe_block_put_resume :: "tid \<Rightarrow> nat \<times> u32 \<Rightarrow> nat \<Rightarrow> nat option \<Rightarrow> k_pipe \<Rightarrow> psys \<Rightarrow> k_pipe \<times> psys" where
  "k_pipe_block_put_resume t block bytes_to_write sem p s =
     block_put (swap_data (threads (pk s) t)) block bytes_to_write sem p s"

section \<open>Reading\<close>

text \<open>Copying from one writer to the reader.\<close>

definition drain_writer :: "nat \<Rightarrow> nat \<Rightarrow> tid \<Rightarrow> nat \<times> psys \<Rightarrow> nat \<times> psys" where
  "drain_writer data bytes_to_read t st =
     (case st of (num, s) \<Rightarrow>
        case pipe_xfer (data + num) (bytes_to_read - num) (pd_buffer (descs s t)) (pd_bytes (descs s t)) (pmem s) of
          (n, m) \<Rightarrow> (num + n, advance_desc t n (s\<lparr>pmem := m\<rparr>)))"

text \<open>The loop over the list while the request is open; the threads that it leaves.\<close>

fun drain_loop :: "nat \<Rightarrow> nat \<Rightarrow> tid list \<Rightarrow> nat \<times> psys \<Rightarrow> tid list \<times> nat \<times> psys" where
  "drain_loop data bytes_to_read [] st = ([], st)"
| "drain_loop data bytes_to_read (t # ts) st =
     (if fst st < bytes_to_read
      then (let st = drain_writer data bytes_to_read t st
            in if fst st = bytes_to_read then (t # ts, st)
               else drain_loop data bytes_to_read ts (fst st, pipe_thread_ready t (snd st)))
      else (t # ts, st))"

text \<open>Copying from one writer into the buffer.\<close>

definition refill :: "tid \<Rightarrow> k_pipe \<times> psys \<Rightarrow> k_pipe \<times> psys" where
  "refill t st =
     (case st of (p, s) \<Rightarrow>
        case pipe_buffer_put p (pd_buffer (descs s t)) (pd_bytes (descs s t)) (pmem s) of
          (n, p, m) \<Rightarrow> (p, advance_desc t n (s\<lparr>pmem := m\<rparr>)))"

definition ready_writer :: "tid \<Rightarrow> k_pipe \<times> psys \<Rightarrow> k_pipe \<times> psys" where
  "ready_writer t st = (case st of (p, s) \<Rightarrow> (p, pipe_thread_ready t s))"

definition k_pipe_get ::
  "nat \<Rightarrow> nat \<Rightarrow> nat \<Rightarrow> int \<Rightarrow> k_pipe \<Rightarrow> psys \<Rightarrow> (int \<times> nat) outcome \<times> k_pipe \<times> psys" where
  "k_pipe_get data bytes_to_read min_xfer timeout p s =
     (case pipe_xfer_prepare (pp_writers p) (pp_used p) bytes_to_read min_xfer timeout s of
        None \<Rightarrow> (Done (- EIO, 0), p, s)
      | Some (xfer_list, writer, s) \<Rightarrow>
          let s = on_pk z_sched_lock s
          in case pipe_buffer_get p data bytes_to_read (pmem s) of (num, p, m) \<Rightarrow>
             case drain_loop data bytes_to_read xfer_list (num, s\<lparr>pmem := m\<rparr>) of (rest, num, s) \<Rightarrow>
             case (case writer of Some t \<Rightarrow> if num < bytes_to_read then drain_writer data bytes_to_read t (num, s) else (num, s)
                   | None \<Rightarrow> (num, s)) of (num, s) \<Rightarrow>
             case fold (\<lambda>t st. ready_writer t (refill t st)) rest (p, s) of (p, s) \<Rightarrow>
             case (case writer of Some t \<Rightarrow> refill t (p, s) | None \<Rightarrow> (p, s)) of (p, s) \<Rightarrow>
             if num = bytes_to_read then (Done (0, num), p, on_pk k_sched_unlock s)
             else if timeout \<noteq> K_NO_WAIT
             then (let c = current (pk s);
                       s = s\<lparr>descs := (descs s)(c := (descs s c)\<lparr>pd_buffer := data + num, pd_bytes := bytes_to_read - num\<rparr>)\<rparr>
                   in (Blocked, p, on_pk (\<lambda>k. z_pend_curr (Some (pp_readers p)) timeout (z_sched_unlock_no_reschedule k)) s))
             else (Done (pipe_return_code min_xfer (bytes_to_read - num) bytes_to_read, num), p, on_pk k_sched_unlock s))"

section \<open>The buffer as a queue of bytes\<close>

definition spaced :: "nat \<Rightarrow> nat \<Rightarrow> nat \<Rightarrow> nat \<Rightarrow> bool" where
  "spaced a n b k \<longleftrightarrow> {a ..< a + n} \<inter> {b ..< b + k} = {}"

lemma spacedD: "spaced a n b k \<Longrightarrow> a \<le> x \<Longrightarrow> x < a + n \<Longrightarrow> \<not> (b \<le> x \<and> x < b + k)"
  by (auto simp: spaced_def)

lemma spaced_sub: "spaced a n b k \<Longrightarrow> a \<le> a' \<Longrightarrow> a' + n' \<le> a + n \<Longrightarrow> b \<le> b' \<Longrightarrow> b' + k' \<le> b + k \<Longrightarrow> spaced a' n' b' k'"
  by (auto simp: spaced_def)

lemma spaced_sym: "spaced a n b k \<longleftrightarrow> spaced b k a n"
  by (auto simp: spaced_def)

lemma bytes_at_len [simp]: "length (bytes_at m a n) = n"
  by (simp add: bytes_at_def)

lemma bytes_at_0 [simp]: "bytes_at m a 0 = []"
  by (simp add: bytes_at_def)

lemma bytes_at_cong: "(\<And>x. a \<le> x \<Longrightarrow> x < a + n \<Longrightarrow> m' x = m x) \<Longrightarrow> bytes_at m' a n = bytes_at m a n"
  by (simp add: bytes_at_def)

lemma bytes_copy_apart: "spaced a n d l \<Longrightarrow> bytes_at (copy_bytes m d s l) a n = bytes_at m a n"
  by (rule bytes_at_cong) (auto simp: copy_bytes_def dest: spacedD)

lemma bytes_at_append: "bytes_at m a (n + k) = bytes_at m a n @ bytes_at m (a + n) k"
  by (rule nth_equalityI) (simp_all add: bytes_at_def nth_append add.assoc)

lemma bytes_at_take: "j \<le> n \<Longrightarrow> take j (bytes_at m a n) = bytes_at m a j"
  by (simp add: bytes_at_def take_map)

lemma bytes_at_drop: "j \<le> n \<Longrightarrow> drop j (bytes_at m a n) = bytes_at m (a + j) (n - j)"
  by (simp add: bytes_at_def drop_map)

lemma xfer_loop_copy: "spaced dest n src n \<Longrightarrow> xfer_loop n dest src m = copy_bytes m dest src n"
proof (induction n arbitrary: dest src m)
  case (Suc n)
  have e: "xfer_loop n (dest + 1) (src + 1) (m(dest := m src)) = copy_bytes (m(dest := m src)) (dest + 1) (src + 1) n"
    by (rule Suc.IH, rule spaced_sub [OF Suc.prems]) simp_all
  have h: "dest < src \<or> src + Suc n \<le> dest"
    using spacedD [OF Suc.prems, of dest] by auto
  show ?case unfolding xfer_loop.simps e
  proof
    fix a
    show "copy_bytes (m(dest := m src)) (dest + 1) (src + 1) n a = copy_bytes m dest src (Suc n) a"
    proof (cases "dest < a \<and> a < dest + Suc n")
      case True
      then have "src + 1 + (a - (dest + 1)) = src + (a - dest)" "src + (a - dest) \<noteq> dest" using h by linarith+
      with True show ?thesis by (simp add: copy_bytes_def)
    qed (auto simp: copy_bytes_def)
  qed
qed (auto simp: copy_bytes_def fun_eq_iff)

definition pipe_ok :: "k_pipe \<Rightarrow> bool" where
  "pipe_ok p \<longleftrightarrow> pp_used p \<le> pp_size p \<and> (if pp_size p = 0 then pp_read p = 0 else pp_read p < pp_size p)
     \<and> pp_write p = (pp_read p + pp_used p) mod pp_size p"

lemma pipe_okD:
  assumes "pipe_ok p"
  shows "pp_used p \<le> pp_size p" and "pp_read p \<le> pp_size p" and "pp_write p \<le> pp_size p"
  using assms by (cases "pp_size p = 0"; simp add: pipe_ok_def less_imp_le)+

definition pipe_contents :: "k_pipe \<Rightarrow> (nat \<Rightarrow> u8) \<Rightarrow> u8 list" where
  "pipe_contents p m = window (\<lambda>i. m (pp_buffer p + i)) (pp_size p) (pp_read p) (pp_used p)"

lemma pipe_contents_len [simp]: "length (pipe_contents p m) = pp_used p"
  by (simp add: pipe_contents_def)

lemma pipe_contents_cong:
  assumes "pipe_ok p" and "\<And>x. pp_buffer p \<le> x \<Longrightarrow> x < pp_buffer p + pp_size p \<Longrightarrow> m' x = m x"
  shows "pipe_contents p m' = pipe_contents p m"
  using assms by (cases "pp_size p = 0") (simp_all add: pipe_contents_def window_def pipe_ok_def)

lemma pipe_contents_copy:
  "pipe_ok p \<Longrightarrow> spaced (pp_buffer p) (pp_size p) d l \<Longrightarrow> pipe_contents p (copy_bytes m d s l) = pipe_contents p m"
  by (rule pipe_contents_cong) (auto simp: copy_bytes_def dest: spacedD)

lemma put_round_spec:
  assumes "pipe_ok p" and "spaced (pp_buffer p) (pp_size p) src k" and "w \<le> k"
    and n_def: "n = min (min (pp_size p - pp_used p) (pp_size p - pp_write p)) (k - w)"
    and p'_def: "p' = p\<lparr>pp_used := pp_used p + n, pp_write := (if pp_write p + n = pp_size p then 0 else pp_write p + n)\<rparr>"
    and m'_def: "m' = copy_bytes m (pp_buffer p + pp_write p) (src + w) n"
  shows "put_round src k (w, p, m) = (w + n, p', m')" and "pipe_ok p'" and "pipe_contents p' m' = pipe_contents p m @ bytes_at m (src + w) n"
proof -
  note w = pipe_okD(3) [OF assms(1)]
  have "spaced (pp_buffer p + pp_write p) n (src + w) n"
    using assms(3) w by (intro spaced_sub [OF assms(2)]) (auto simp: n_def)
  then show "put_round src k (w, p, m) = (w + n, p', m')"
    by (simp add: put_round_def pipe_xfer_def Let_def xfer_loop_copy flip: n_def) (simp add: p'_def m'_def)
  show ok: "pipe_ok p'"
  proof (cases "pp_size p = 0")
    case False
    then have "pp_write p < pp_size p" using assms(1) by (simp add: pipe_ok_def)
    moreover have "n \<le> pp_size p - pp_write p" by (simp add: n_def)
    ultimately have "(if pp_write p + n = pp_size p then 0 else pp_write p + n) = (pp_write p + n) mod pp_size p" by auto
    also have "\<dots> = (pp_read p + (pp_used p + n)) mod pp_size p" using assms(1) by (simp add: pipe_ok_def mod_add_left_eq add.assoc)
    finally have "pp_write p' = (pp_read p' + pp_used p') mod pp_size p'" by (simp add: p'_def)
    moreover have "pp_used p + n \<le> pp_size p" using pipe_okD(1) [OF assms(1)] by (simp add: n_def)
    ultimately show ?thesis using False assms(1) by (simp add: pipe_ok_def p'_def)
  qed (use assms(1) in \<open>simp add: pipe_ok_def p'_def n_def\<close>)
  show "pipe_contents p' m' = pipe_contents p m @ bytes_at m (src + w) n"
  proof (cases "pp_size p = 0")
    case True
    then show ?thesis using assms(1) by (simp add: pipe_contents_def n_def p'_def pipe_ok_def window_def)
  next
    case False
    have "window (\<lambda>i. m' (pp_buffer p + i)) (pp_size p) (pp_read p) (pp_used p + n)
      = window (\<lambda>i. m (pp_buffer p + i)) (pp_size p) (pp_read p) (pp_used p) @ map (\<lambda>i. m (src + w + i)) [0..<n]"
    proof (rule window_store [where d = "pp_write p"])
      show "pp_used p + n \<le> pp_size p" using pipe_okD(1) [OF assms(1)] by (simp add: n_def)
      show "pp_write p + n \<le> pp_size p" using w by (simp add: n_def)
      show "pp_write p = (pp_read p + pp_used p) mod pp_size p" "0 < pp_size p" using assms(1) False by (simp_all add: pipe_ok_def)
    qed (simp add: m'_def copy_bytes_def)
    moreover have "map (\<lambda>i. m (src + w + i)) [0..<n] = bytes_at m (src + w) n"
      by (rule nth_equalityI) (simp_all add: bytes_at_def)
    ultimately show ?thesis by (simp add: pipe_contents_def p'_def)
  qed
qed

lemma get_round_spec:
  assumes "pipe_ok p" and "spaced (pp_buffer p) (pp_size p) dest k" and "j \<le> k"
    and n_def: "n = min (k - j) (min (pp_used p) (pp_size p - pp_read p))"
    and p'_def: "p' = p\<lparr>pp_used := pp_used p - n, pp_read := (if pp_read p + n = pp_size p then 0 else pp_read p + n)\<rparr>"
    and m'_def: "m' = copy_bytes m (dest + j) (pp_buffer p + pp_read p) n"
  shows "get_round dest k (j, p, m) = (j + n, p', m')" and "pipe_ok p'" and "pipe_contents p' m' = drop n (pipe_contents p m)"
    and "bytes_at m' (dest + j) n = take n (pipe_contents p m)"
proof -
  note r = pipe_okD(2) [OF assms(1)]
  have "spaced (dest + j) n (pp_buffer p + pp_read p) n"
    using assms(3) r by (intro spaced_sub [OF assms(2) [unfolded spaced_sym [of "pp_buffer p"]]]) (auto simp: n_def)
  then show "get_round dest k (j, p, m) = (j + n, p', m')"
    by (simp add: get_round_def pipe_xfer_def Let_def xfer_loop_copy flip: n_def) (simp add: p'_def m'_def)
  have e: "(if pp_read p + n = pp_size p then 0 else pp_read p + n) = (pp_read p + n) mod pp_size p" if "pp_size p \<noteq> 0"
  proof -
    have "n \<le> pp_size p - pp_read p" by (simp add: n_def)
    then show ?thesis using that assms(1) by (auto simp: pipe_ok_def)
  qed
  show "pipe_ok p'"
  proof (cases "pp_size p = 0")
    case False
    have "((pp_read p + n) mod pp_size p + (pp_used p - n)) mod pp_size p = (pp_read p + n + (pp_used p - n)) mod pp_size p"
      by (rule mod_add_left_eq)
    also have "pp_read p + n + (pp_used p - n) = pp_read p + pp_used p" by (simp add: n_def)
    finally have "pp_write p' = (pp_read p' + pp_used p') mod pp_size p'" using assms(1) e [OF False] by (simp add: p'_def pipe_ok_def)
    moreover have "(if pp_read p + n = pp_size p then 0 else pp_read p + n) < pp_size p" unfolding e [OF False] using False by simp
    moreover have "pp_used p - n \<le> pp_size p" using pipe_okD(1) [OF assms(1)] by simp
    ultimately show ?thesis using False assms(1) by (simp add: pipe_ok_def p'_def)
  qed (use assms(1) in \<open>simp add: pipe_ok_def p'_def n_def\<close>)
  have "pipe_contents p' m' = pipe_contents p' m"
    unfolding m'_def using \<open>pipe_ok p'\<close> assms(3)
    by (intro pipe_contents_copy spaced_sub [OF assms(2)]) (auto simp: p'_def n_def)
  also have "pipe_contents p' m = drop n (pipe_contents p m)"
  proof (cases "pp_size p = 0")
    case False
    have "n \<le> pp_used p" by (simp add: n_def)
    then show ?thesis using e [OF False] by (simp add: pipe_contents_def p'_def window_drop)
  qed (use assms(1) in \<open>simp add: pipe_contents_def p'_def n_def pipe_ok_def window_def\<close>)
  finally show "pipe_contents p' m' = drop n (pipe_contents p m)" .
  have "take n (pipe_contents p m) = window (\<lambda>i. m (pp_buffer p + i)) (pp_size p) (pp_read p) n"
    by (simp add: pipe_contents_def window_def take_map n_def)
  also have "\<dots> = map (\<lambda>i. m (pp_buffer p + i)) [pp_read p ..< pp_read p + n]"
    using r by (intro window_straight) (simp add: n_def)
  also have "\<dots> = bytes_at m (pp_buffer p + pp_read p) n"
    by (rule nth_equalityI) (simp_all add: bytes_at_def add.assoc)
  finally show "bytes_at m' (dest + j) n = take n (pipe_contents p m)" by (simp add: m'_def)
qed


definition same_area :: "k_pipe \<Rightarrow> k_pipe \<Rightarrow> bool" where
  "same_area p p' \<longleftrightarrow> pp_buffer p' = pp_buffer p \<and> pp_size p' = pp_size p"

lemma pipe_buffer_put_spec:
  assumes "pipe_ok p" and "spaced (pp_buffer p) (pp_size p) src k"
  obtains p' m' where "pipe_buffer_put p src k m = (min k (pp_size p - pp_used p), p', m')" "pipe_ok p'" "same_area p p'"
    "pipe_contents p' m' = pipe_contents p m @ bytes_at m src (min k (pp_size p - pp_used p))"
    "\<And>a. \<not> (pp_buffer p \<le> a \<and> a < pp_buffer p + pp_size p) \<Longrightarrow> m' a = m a"
    "pp_readers p' = pp_readers p" "pp_writers p' = pp_writers p"
proof -
  define n where "n = min (min (pp_size p - pp_used p) (pp_size p - pp_write p)) (k - 0)"
  define p1 where "p1 = p\<lparr>pp_used := pp_used p + n, pp_write := (if pp_write p + n = pp_size p then 0 else pp_write p + n)\<rparr>"
  define m1 where "m1 = copy_bytes m (pp_buffer p + pp_write p) (src + 0) n"
  have a: "put_round src k (0, p, m) = (n, p1, m1)" "pipe_ok p1" "pipe_contents p1 m1 = pipe_contents p m @ bytes_at m src n"
    using put_round_spec [OF assms le0 n_def p1_def m1_def] by simp_all
  define n2 where "n2 = min (min (pp_size p1 - pp_used p1) (pp_size p1 - pp_write p1)) (k - n)"
  define p2 where "p2 = p1\<lparr>pp_used := pp_used p1 + n2, pp_write := (if pp_write p1 + n2 = pp_size p1 then 0 else pp_write p1 + n2)\<rparr>"
  define m2 where "m2 = copy_bytes m1 (pp_buffer p1 + pp_write p1) (src + n) n2"
  have le: "n \<le> k" "n \<le> pp_size p - pp_write p" "n \<le> pp_size p - pp_used p" by (simp_all add: n_def)
  have n2: "n2 \<le> k - n" by (simp add: n2_def)
  have area: "pp_buffer p1 = pp_buffer p" "pp_size p1 = pp_size p" by (simp_all add: p1_def)
  have b: "put_round src k (n, p1, m1) = (n + n2, p2, m2)" "pipe_ok p2" "pipe_contents p2 m2 = pipe_contents p1 m1 @ bytes_at m1 (src + n) n2"
    using put_round_spec [OF a(2) _ le(1) n2_def p2_def m2_def] assms(2) by (simp_all add: area)
  have total: "n + n2 = min k (pp_size p - pp_used p)"
  proof (cases "pp_write p + n = pp_size p")
    case True
    then have "pp_write p1 = 0" "pp_used p1 = pp_used p + n" by (simp_all add: p1_def)
    then show ?thesis using le by (simp add: n2_def area)
  next
    case False
    then have "n = min (pp_size p - pp_used p) k" using pipe_okD(3) [OF assms(1)] n_def by linarith
    moreover from this have "n2 = 0" by (auto simp: n2_def p1_def min_def split: if_splits)
    ultimately show ?thesis by (simp add: min.commute)
  qed
  have "spaced src k (pp_buffer p + pp_write p) n"
    using le pipe_okD(3) [OF assms(1)] by (intro spaced_sub [OF assms(2) [unfolded spaced_sym [of "pp_buffer p"]]]) simp_all
  then have "spaced (src + n) n2 (pp_buffer p + pp_write p) n" by (rule spaced_sub) (use le(1) n2 in auto)
  then have "bytes_at m1 (src + n) n2 = bytes_at m (src + n) n2" by (simp add: m1_def bytes_copy_apart)
  with a(3) b(3) have "pipe_contents p2 m2 = pipe_contents p m @ bytes_at m src (n + n2)" by (simp add: bytes_at_append)
  moreover have "m2 x = m x" if "\<not> (pp_buffer p \<le> x \<and> x < pp_buffer p + pp_size p)" for x
    using that le pipe_okD(3) [OF assms(1)] pipe_okD(3) [OF a(2)] by (auto simp: m2_def m1_def copy_bytes_def area n2_def)
  ultimately show ?thesis
    using a(1) b(1,2) by (intro that [of p2 m2]) (simp_all add: pipe_buffer_put_def total same_area_def p2_def p1_def)
qed

lemma pipe_buffer_get_spec:
  assumes "pipe_ok p" and "spaced (pp_buffer p) (pp_size p) dest k"
  obtains p' m' where "pipe_buffer_get p dest k m = (min k (pp_used p), p', m')" "pipe_ok p'" "same_area p p'"
    "pipe_contents p' m' = drop k (pipe_contents p m)" "bytes_at m' dest (min k (pp_used p)) = take k (pipe_contents p m)"
    "\<And>a. \<not> (dest \<le> a \<and> a < dest + k) \<Longrightarrow> m' a = m a"
    "pp_readers p' = pp_readers p" "pp_writers p' = pp_writers p"
proof -
  define n where "n = min (k - 0) (min (pp_used p) (pp_size p - pp_read p))"
  define p1 where "p1 = p\<lparr>pp_used := pp_used p - n, pp_read := (if pp_read p + n = pp_size p then 0 else pp_read p + n)\<rparr>"
  define m1 where "m1 = copy_bytes m (dest + 0) (pp_buffer p + pp_read p) n"
  have a: "get_round dest k (0, p, m) = (n, p1, m1)" "pipe_ok p1" "pipe_contents p1 m1 = drop n (pipe_contents p m)"
    "bytes_at m1 dest n = take n (pipe_contents p m)"
    using get_round_spec [OF assms le0 n_def p1_def m1_def] by simp_all
  define n2 where "n2 = min (k - n) (min (pp_used p1) (pp_size p1 - pp_read p1))"
  define p2 where "p2 = p1\<lparr>pp_used := pp_used p1 - n2, pp_read := (if pp_read p1 + n2 = pp_size p1 then 0 else pp_read p1 + n2)\<rparr>"
  define m2 where "m2 = copy_bytes m1 (dest + n) (pp_buffer p1 + pp_read p1) n2"
  have le: "n \<le> k" "n \<le> pp_size p - pp_read p" "n \<le> pp_used p" by (simp_all add: n_def)
  have area: "pp_buffer p1 = pp_buffer p" "pp_size p1 = pp_size p" by (simp_all add: p1_def)
  have b: "get_round dest k (n, p1, m1) = (n + n2, p2, m2)" "pipe_ok p2" "pipe_contents p2 m2 = drop n2 (pipe_contents p1 m1)"
    "bytes_at m2 (dest + n) n2 = take n2 (pipe_contents p1 m1)"
    using get_round_spec [OF a(2) _ le(1) n2_def p2_def m2_def] assms(2) by (simp_all add: area)
  have total: "n + n2 = min k (pp_used p)"
  proof (cases "pp_read p + n = pp_size p")
    case True
    then have "pp_read p1 = 0" "pp_used p1 = pp_used p - n" by (simp_all add: p1_def)
    moreover have "pp_used p - n \<le> pp_size p" using pipe_okD(1) [OF assms(1)] by simp
    ultimately show ?thesis using le by (simp add: n2_def area)
  next
    case False
    then have "n = min (pp_used p) k" using pipe_okD(2) [OF assms(1)] n_def by linarith
    moreover from this have "n2 = 0" by (auto simp: n2_def p1_def min_def split: if_splits)
    ultimately show ?thesis by (simp add: min.commute)
  qed
  have "bytes_at m2 dest n = bytes_at m1 dest n"
    unfolding m2_def by (rule bytes_copy_apart) (simp add: spaced_def)
  with a(3,4) b(4) have "bytes_at m2 dest (n + n2) = take (n + n2) (pipe_contents p m)" by (simp add: bytes_at_append take_add)
  moreover have "pipe_contents p2 m2 = drop (n + n2) (pipe_contents p m)" using a(3) b(3) by (simp add: add.commute)
  moreover have "take (min k (pp_used p)) (pipe_contents p m) = take k (pipe_contents p m)" "drop (min k (pp_used p)) (pipe_contents p m) = drop k (pipe_contents p m)"
    by (simp_all add: min_def)
  moreover have "m2 x = m x" if "\<not> (dest \<le> x \<and> x < dest + k)" for x
    using that le by (auto simp: m2_def m1_def copy_bytes_def n2_def)
  ultimately show ?thesis
    using a(1) b(1,2) by (intro that [of p2 m2]) (simp_all add: pipe_buffer_get_def total same_area_def p2_def p1_def)
qed

section \<open>The transfers as functions of memory and descriptors\<close>

text \<open>The bytes that a writer still offers, and those of several writers in their order.\<close>

definition offered :: "(tid \<Rightarrow> k_pipe_desc) \<Rightarrow> (nat \<Rightarrow> u8) \<Rightarrow> tid \<Rightarrow> u8 list" where
  "offered ds m t = bytes_at m (pd_buffer (ds t)) (pd_bytes (ds t))"

definition stream :: "(tid \<Rightarrow> k_pipe_desc) \<Rightarrow> (nat \<Rightarrow> u8) \<Rightarrow> tid list \<Rightarrow> u8 list" where
  "stream ds m ts = concat (map (offered ds m) ts)"

definition advance :: "tid \<Rightarrow> nat \<Rightarrow> (tid \<Rightarrow> k_pipe_desc) \<Rightarrow> tid \<Rightarrow> k_pipe_desc" where
  "advance t n ds = ds(t := (ds t)\<lparr>pd_buffer := pd_buffer (ds t) + n, pd_bytes := pd_bytes (ds t) - n\<rparr>)"

fun drain :: "nat \<Rightarrow> nat \<Rightarrow> tid \<Rightarrow> nat \<times> (nat \<Rightarrow> u8) \<times> (tid \<Rightarrow> k_pipe_desc) \<Rightarrow> nat \<times> (nat \<Rightarrow> u8) \<times> (tid \<Rightarrow> k_pipe_desc)" where
  "drain data N t (num, m, ds) = (let n = min (N - num) (pd_bytes (ds t))
     in (num + n, xfer_loop n (data + num) (pd_buffer (ds t)) m, advance t n ds))"

fun top_up :: "tid \<Rightarrow> k_pipe \<times> (nat \<Rightarrow> u8) \<times> (tid \<Rightarrow> k_pipe_desc) \<Rightarrow> k_pipe \<times> (nat \<Rightarrow> u8) \<times> (tid \<Rightarrow> k_pipe_desc)" where
  "top_up t (p, m, ds) = (case pipe_buffer_put p (pd_buffer (ds t)) (pd_bytes (ds t)) m of
     (n, p', m') \<Rightarrow> (p', m', advance t n ds))"

fun feed :: "nat \<Rightarrow> nat \<Rightarrow> tid \<Rightarrow> nat \<times> (nat \<Rightarrow> u8) \<times> (tid \<Rightarrow> k_pipe_desc) \<Rightarrow> nat \<times> (nat \<Rightarrow> u8) \<times> (tid \<Rightarrow> k_pipe_desc)" where
  "feed data N t (num, m, ds) = (let n = min (pd_bytes (ds t)) (N - num)
     in (num + n, xfer_loop n (pd_buffer (ds t)) (data + num) m, advance t n ds))"

abbreviation clear_of :: "nat \<Rightarrow> nat \<Rightarrow> (tid \<Rightarrow> k_pipe_desc) \<Rightarrow> tid list \<Rightarrow> bool" where
  "clear_of a n ds ts \<equiv> \<forall>t\<in>set ts. spaced a n (pd_buffer (ds t)) (pd_bytes (ds t))"

lemma stream_Nil [simp]: "stream ds m [] = []" by (simp add: stream_def)

lemma stream_Cons [simp]: "stream ds m (t # ts) = offered ds m t @ stream ds m ts" by (simp add: stream_def)

lemma stream_append [simp]: "stream ds m (xs @ ys) = stream ds m xs @ stream ds m ys" by (simp add: stream_def)

lemma offered_len [simp]: "length (offered ds m t) = pd_bytes (ds t)" by (simp add: offered_def)

lemma stream_len: "length (stream ds m ts) = sum_list (map (\<lambda>t. pd_bytes (ds t)) ts)"
  by (induction ts) simp_all

lemma stream_cong:
  assumes "\<And>t. t \<in> set ts \<Longrightarrow> ds' t = ds t" and "clear_of a n ds ts" and "\<And>x. \<not> (a \<le> x \<and> x < a + n) \<Longrightarrow> m' x = m x"
  shows "stream ds' m' ts = stream ds m ts"
proof -
  have "offered ds' m' t = offered ds m t" if "t \<in> set ts" for t
    using assms that spacedD [of "pd_buffer (ds t)" "pd_bytes (ds t)" a n]
    by (simp add: offered_def) (rule bytes_at_cong, simp add: spaced_sym)
  then show ?thesis by (simp add: stream_def cong: map_cong)
qed

lemma advance_other [simp]: "x \<noteq> t \<Longrightarrow> advance t n ds x = ds x" by (simp add: advance_def)

lemma advance_0 [simp]: "advance t 0 ds = ds" by (simp add: advance_def)

lemma offered_advance: "n \<le> pd_bytes (ds t) \<Longrightarrow> offered (advance t n ds) m t = drop n (offered ds m t)"
  by (simp add: offered_def advance_def bytes_at_drop)

definition shrunk :: "(tid \<Rightarrow> k_pipe_desc) \<Rightarrow> (tid \<Rightarrow> k_pipe_desc) \<Rightarrow> bool" where
  "shrunk ds ds' \<longleftrightarrow> (\<forall>t. pd_buffer (ds t) \<le> pd_buffer (ds' t) \<and> pd_buffer (ds' t) + pd_bytes (ds' t) = pd_buffer (ds t) + pd_bytes (ds t))"

lemma shrunk_refl [simp]: "shrunk ds ds" by (simp add: shrunk_def)

lemma shrunk_trans: "shrunk ds ds1 \<Longrightarrow> shrunk ds1 ds2 \<Longrightarrow> shrunk ds ds2"
  unfolding shrunk_def by (metis le_trans)

lemma shrunk_advance: "n \<le> pd_bytes (ds t) \<Longrightarrow> shrunk ds (advance t n ds)"
  by (simp add: shrunk_def advance_def)

lemma clear_shrunk: "shrunk ds ds' \<Longrightarrow> clear_of a n ds ts \<Longrightarrow> clear_of a n ds' ts"
  unfolding shrunk_def by (metis spaced_sub order_refl)

lemma take_drop_chunk:
  assumes "n = min N (length xs)"
  shows "take N (xs @ ys) = take n xs @ take (N - n) ys" and "drop N (xs @ ys) = drop n xs @ drop (N - n) ys"
  using assms by (simp_all add: min_def)

lemma drain_fold:
  assumes "distinct ts" and "num \<le> N" and "clear_of data N ds ts" and "fold (drain data N) ts (num, m, ds) = (num', m', ds')"
  shows "num' = min N (num + length (stream ds m ts))
    \<and> bytes_at m' data num' = bytes_at m data num @ take (N - num) (stream ds m ts)
    \<and> stream ds' m' ts = drop (N - num) (stream ds m ts)
    \<and> (\<forall>x. \<not> (data \<le> x \<and> x < data + N) \<longrightarrow> m' x = m x) \<and> (\<forall>t. t \<notin> set ts \<longrightarrow> ds' t = ds t) \<and> shrunk ds ds'"
  using assms
proof (induction ts arbitrary: num m ds)
  case (Cons u us)
  define n where "n = min (N - num) (pd_bytes (ds u))"
  define m1 where "m1 = copy_bytes m (data + num) (pd_buffer (ds u)) n"
  define ds1 where "ds1 = advance u n ds"
  have "spaced (data + num) n (pd_buffer (ds u)) n"
    by (rule spaced_sub [of data N "pd_buffer (ds u)" "pd_bytes (ds u)"]) (use Cons.prems in \<open>auto simp: n_def\<close>)
  then have f: "fold (drain data N) us (num + n, m1, ds1) = (num', m', ds')"
    using Cons.prems(4) by (simp add: Let_def xfer_loop_copy flip: n_def m1_def ds1_def)
  have nle: "n \<le> pd_bytes (ds u)" "num + n \<le> N" "n = min (N - num) (length (offered ds m u))" "N - (num + n) = N - num - n"
    using Cons.prems(2) by (simp_all add: n_def)
  have eq: "ds1 x = ds x" if "x \<in> set us" for x using that Cons.prems(1) by (cases "x = u") (simp_all add: ds1_def)
  have s1: "shrunk ds ds1" using nle(1) by (simp add: ds1_def shrunk_advance)
  have c1: "clear_of data N ds1 (u # us)" by (rule clear_shrunk [OF s1 Cons.prems(3)])
  have mem: "m1 x = m x" if "\<not> (data \<le> x \<and> x < data + N)" for x
    using that nle(2) by (auto simp: m1_def copy_bytes_def)
  have S: "stream ds1 m1 us = stream ds m us"
    by (rule stream_cong [where a = data and n = N]) (use eq mem Cons.prems(3) in auto)
  have d: "distinct us" "u \<notin> set us" using Cons.prems(1) by simp_all
  have c1': "clear_of data N ds1 us" using c1 by simp
  have IH: "num' = min N (num + n + length (stream ds m us))" "bytes_at m' data num' = bytes_at m1 data (num + n) @ take (N - num - n) (stream ds m us)"
    "stream ds' m' us = drop (N - num - n) (stream ds m us)" "\<forall>x. \<not> (data \<le> x \<and> x < data + N) \<longrightarrow> m' x = m1 x"
    "\<forall>t. t \<notin> set us \<longrightarrow> ds' t = ds1 t" "shrunk ds1 ds'"
    using Cons.IH [OF d(1) nle(2) c1' f, unfolded S nle(4)] by blast+
  have b1: "bytes_at m1 data (num + n) = bytes_at m data num @ take n (offered ds m u)"
  proof -
    have "spaced data num (data + num) n" by (simp add: spaced_def)
    then show ?thesis using nle(1) by (simp add: m1_def bytes_at_append bytes_copy_apart offered_def bytes_at_take)
  qed
  have o: "offered ds' m' u = drop n (offered ds m u)"
  proof -
    have "stream ds' m' [u] = stream ds1 m [u]"
      by (rule stream_cong [where a = data and n = N]) (use IH(4,5) mem c1 d in auto)
    then show ?thesis using nle(1) by (simp add: ds1_def offered_advance)
  qed
  have "num' = min N (num + length (stream ds m (u # us)))"
    using IH(1) by (simp add: n_def)
  moreover have "bytes_at m' data num' = bytes_at m data num @ take (N - num) (stream ds m (u # us))"
    unfolding stream_Cons take_drop_chunk(1) [OF nle(3)] IH(2) b1 by simp
  moreover have "stream ds' m' (u # us) = drop (N - num) (stream ds m (u # us))"
    unfolding stream_Cons take_drop_chunk(2) [OF nle(3)] IH(3) o by simp
  moreover have "m' x = m x" if "\<not> (data \<le> x \<and> x < data + N)" for x using IH(4) mem that by simp
  moreover have "ds' t = ds t" if "t \<notin> set (u # us)" for t using IH(5) that by (simp add: ds1_def)
  moreover have "shrunk ds ds'" using IH(6) s1 by (blast intro: shrunk_trans)
  ultimately show ?case by blast
qed simp_all

lemma top_up_fold:
  assumes "distinct ts" and "pipe_ok p" and "clear_of (pp_buffer p) (pp_size p) ds ts" and "fold top_up ts (p, m, ds) = (p', m', ds')"
  shows "pipe_ok p' \<and> same_area p p' \<and> pipe_contents p' m' = pipe_contents p m @ take (pp_size p - pp_used p) (stream ds m ts)
    \<and> stream ds' m' ts = drop (pp_size p - pp_used p) (stream ds m ts)
    \<and> (\<forall>x. \<not> (pp_buffer p \<le> x \<and> x < pp_buffer p + pp_size p) \<longrightarrow> m' x = m x) \<and> (\<forall>t. t \<notin> set ts \<longrightarrow> ds' t = ds t)
    \<and> shrunk ds ds' \<and> pp_readers p' = pp_readers p \<and> pp_writers p' = pp_writers p"
  using assms
proof (induction ts arbitrary: p m ds)
  case (Cons u us)
  have cu: "spaced (pp_buffer p) (pp_size p) (pd_buffer (ds u)) (pd_bytes (ds u))" using Cons.prems(3) by simp
  define n where "n = min (pd_bytes (ds u)) (pp_size p - pp_used p)"
  define ds1 where "ds1 = advance u n ds"
  obtain p1 m1 where P: "pipe_buffer_put p (pd_buffer (ds u)) (pd_bytes (ds u)) m = (n, p1, m1)" "pipe_ok p1" "same_area p p1"
    "pipe_contents p1 m1 = pipe_contents p m @ bytes_at m (pd_buffer (ds u)) n"
    "\<And>a. \<not> (pp_buffer p \<le> a \<and> a < pp_buffer p + pp_size p) \<Longrightarrow> m1 a = m a"
    "pp_readers p1 = pp_readers p" "pp_writers p1 = pp_writers p"
    by (rule pipe_buffer_put_spec [OF Cons.prems(2) cu, of m]) (auto simp: n_def)
  have f: "fold top_up us (p1, m1, ds1) = (p', m', ds')"
    using Cons.prems(4) P(1) by (simp add: ds1_def)
  have ar: "pp_buffer p1 = pp_buffer p" "pp_size p1 = pp_size p" using P(3) by (simp_all add: same_area_def)
  have nle: "n \<le> pd_bytes (ds u)" "n = min (pp_size p - pp_used p) (length (offered ds m u))" by (simp_all add: n_def)
  have us: "pp_used p1 = pp_used p + n" using arg_cong [OF P(4), of length] by simp
  then have free: "pp_size p1 - pp_used p1 = pp_size p - pp_used p - n" by (simp add: ar)
  have eq: "ds1 x = ds x" if "x \<in> set us" for x using that Cons.prems(1) by (cases "x = u") (simp_all add: ds1_def)
  have s1: "shrunk ds ds1" using nle(1) by (simp add: ds1_def shrunk_advance)
  have c1: "clear_of (pp_buffer p) (pp_size p) ds1 (u # us)" by (rule clear_shrunk [OF s1 Cons.prems(3)])
  have S: "stream ds1 m1 us = stream ds m us"
    by (rule stream_cong [where a = "pp_buffer p" and n = "pp_size p"]) (use eq P(5) Cons.prems(3) in auto)
  have d: "distinct us" "u \<notin> set us" using Cons.prems(1) by simp_all
  have c1': "clear_of (pp_buffer p1) (pp_size p1) ds1 us" using c1 by (simp add: ar)
  have IH: "pipe_ok p'" "same_area p1 p'" "pipe_contents p' m' = pipe_contents p1 m1 @ take (pp_size p - pp_used p - n) (stream ds m us)"
    "stream ds' m' us = drop (pp_size p - pp_used p - n) (stream ds m us)"
    "\<forall>x. \<not> (pp_buffer p \<le> x \<and> x < pp_buffer p + pp_size p) \<longrightarrow> m' x = m1 x" "\<forall>t. t \<notin> set us \<longrightarrow> ds' t = ds1 t" "shrunk ds1 ds'"
    "pp_readers p' = pp_readers p1" "pp_writers p' = pp_writers p1"
    using Cons.IH [OF d(1) P(2) c1' f, unfolded S free, unfolded ar] by blast+
  have o: "offered ds' m' u = drop n (offered ds m u)"
  proof -
    have "stream ds' m' [u] = stream ds1 m [u]"
      by (rule stream_cong [where a = "pp_buffer p" and n = "pp_size p"]) (use IH(5,6) P(5) c1 d in auto)
    then show ?thesis using nle(1) by (simp add: ds1_def offered_advance)
  qed
  have "same_area p p'" using IH(2) by (simp add: same_area_def ar)
  moreover have "bytes_at m (pd_buffer (ds u)) n = take n (offered ds m u)" using nle(1) by (simp add: offered_def bytes_at_take)
  then have "pipe_contents p' m' = pipe_contents p m @ take (pp_size p - pp_used p) (stream ds m (u # us))"
    unfolding stream_Cons take_drop_chunk(1) [OF nle(2)] IH(3) P(4) by simp
  moreover have "stream ds' m' (u # us) = drop (pp_size p - pp_used p) (stream ds m (u # us))"
    unfolding stream_Cons take_drop_chunk(2) [OF nle(2)] IH(4) o by simp
  moreover have "m' x = m x" if "\<not> (pp_buffer p \<le> x \<and> x < pp_buffer p + pp_size p)" for x using IH(5) P(5) that by simp
  moreover have "ds' t = ds t" if "t \<notin> set (u # us)" for t using IH(6) that by (simp add: ds1_def)
  moreover have "shrunk ds ds'" using IH(7) s1 by (blast intro: shrunk_trans)
  moreover have "pp_readers p' = pp_readers p" "pp_writers p' = pp_writers p" using IH(8,9) P(6,7) by simp_all
  ultimately show ?case using IH(1) by blast
qed (simp_all add: same_area_def)

end
