(* ===== verification/KPipeIO.thy ===== *)
theory KPipeIO
  imports KPipe
begin

text \<open>
  Reading and writing pipes as a whole. The bytes in the buffer and those that waiting writers offer form one stream; \<open>k_pipe_get\<close>
  takes its first bytes and \<open>k_pipe_put\<close> extends it, whatever the threads that wait. The working set of \<open>pipe_xfer_prepare\<close> is
  exactly the threads whose requests are complete afterwards.
\<close>

section \<open>The working set and the wake-ups\<close>

lemma waitq_unpend: "waitq (z_unpend_thread t k) w = remove1 t (waitq k w)"
  by (simp add: z_unpend_thread_def)

lemma on_pk_sel [simp]:
  "pk (on_pk f s) = f (pk s)" "descs (on_pk f s) = descs s" "pmem (on_pk f s) = pmem s"
  by (simp_all add: on_pk_def)

lemma on_pk_on_pk [simp]: "on_pk f (on_pk g s) = on_pk (\<lambda>k. f (g k)) s"
  by (simp add: on_pk_def)

lemma on_pk_id [simp]: "on_pk (\<lambda>k. k) s = s"
  by (simp add: on_pk_def)

definition taken :: "(tid \<Rightarrow> k_pipe_desc) \<Rightarrow> nat \<Rightarrow> tid list \<Rightarrow> tid list \<Rightarrow> bool" where
  "taken ds N ts1 ts2 \<longleftrightarrow> sum_list (map (\<lambda>t. pd_bytes (ds t)) ts1) \<le> N
     \<and> (\<forall>t us. ts2 = t # us \<longrightarrow> N < sum_list (map (\<lambda>t. pd_bytes (ds t)) ts1) + pd_bytes (ds t))"

lemma take_waiters_spec:
  assumes "num \<le> N" and "length (waitq (pk s) w) \<le> fuel"
  shows "\<exists>ts1 ts2. waitq (pk s) w = ts1 @ ts2 \<and> taken (descs s) (N - num) ts1 ts2
    \<and> take_waiters fuel w N num xs s = (xs @ ts1, (case ts2 of [] \<Rightarrow> None | t # _ \<Rightarrow> Some t), on_pk (fold z_unpend_thread ts1) s)"
  using assms
proof (induction fuel arbitrary: num xs s)
  case 0
  then show ?case by (intro exI [of _ "[]"]) (simp_all add: taken_def)
next
  case (Suc fuel)
  show ?case
  proof (cases "waitq (pk s) w")
    case Nil
    then show ?thesis by (intro exI [of _ "[]"]) (simp_all add: taken_def)
  next
    case (Cons t us)
    show ?thesis
    proof (cases "num + pd_bytes (descs s t) > N")
      case True
      then show ?thesis using Cons Suc.prems(1) by (intro exI [of _ "[]"] exI [of _ "t # us"]) (simp_all add: taken_def Let_def less_diff_conv2 add.commute)
    next
      case False
      let ?s = "on_pk (z_unpend_thread t) s"
      have w: "waitq (pk ?s) w = us" using Cons by (simp add: waitq_unpend)
      obtain ts1 ts2 where I: "waitq (pk ?s) w = ts1 @ ts2"
        "take_waiters fuel w N (num + pd_bytes (descs s t)) (xs @ [t]) ?s
           = ((xs @ [t]) @ ts1, (case ts2 of [] \<Rightarrow> None | t # _ \<Rightarrow> Some t), on_pk (fold z_unpend_thread ts1) ?s)"
        "taken (descs ?s) (N - (num + pd_bytes (descs s t))) ts1 ts2"
        using Suc.IH [of "num + pd_bytes (descs s t)" ?s "xs @ [t]"] False w Cons Suc.prems(2) by fastforce
      show ?thesis
      proof (intro exI conjI)
        show "waitq (pk s) w = (t # ts1) @ ts2" using I(1) w Cons by simp
        show "take_waiters (Suc fuel) w N num xs s
          = (xs @ t # ts1, (case ts2 of [] \<Rightarrow> None | t # _ \<Rightarrow> Some t), on_pk (fold z_unpend_thread (t # ts1)) s)"
          using I(2) Cons False by (simp add: Let_def comp_def)
        show "taken (descs s) (N - num) (t # ts1) ts2" using I(3) False by (auto simp: taken_def)
      qed
    qed
  qed
qed

lemma pipe_xfer_prepare_spec:
  assumes "timeout = K_NO_WAIT \<longrightarrow> min_xfer \<le> count_waiting (descs s) N 0 (waitq (pk s) w) + space"
  obtains ts1 ts2 where "waitq (pk s) w = ts1 @ ts2" "taken (descs s) N ts1 ts2"
    "pipe_xfer_prepare w space N min_xfer timeout s
       = Some (ts1, (case ts2 of [] \<Rightarrow> None | t # _ \<Rightarrow> Some t), on_pk (fold z_unpend_thread ts1) s)"
proof -
  obtain ts1 ts2 where "waitq (pk s) w = ts1 @ ts2"
    "take_waiters (length (waitq (pk s) w)) w N 0 [] s = ([] @ ts1, (case ts2 of [] \<Rightarrow> None | t # _ \<Rightarrow> Some t), on_pk (fold z_unpend_thread ts1) s)"
    "taken (descs s) (N - 0) ts1 ts2"
    using take_waiters_spec [of 0 N s w "length (waitq (pk s) w)" "[]"] by auto
  then show ?thesis using assms by (intro that [of ts1 ts2]) (auto simp: pipe_xfer_prepare_def)
qed

lemma count_waiting_less:
  "x \<le> N \<Longrightarrow> count_waiting ds N num ts < x \<longleftrightarrow> num + sum_list (map (\<lambda>t. pd_bytes (ds t)) ts) < x"
proof (induction ts arbitrary: num)
  case (Cons t ts)
  show ?case
  proof (cases "N \<le> num + pd_bytes (ds t)")
    case False
    with Cons show ?thesis by (simp add: Let_def add.assoc)
  qed (use Cons.prems in \<open>simp add: Let_def\<close>)
qed simp

lemma ready_fold:
  assumes "distinct ts" and "\<forall>t\<in>set ts. z_is_thread_ready k t"
  shows "set (runq (fold z_ready_thread ts k)) = set (runq k) \<union> set ts"
    and "waitq (fold z_ready_thread ts k) w = waitq k w" and "current (fold z_ready_thread ts k) = current k"
  using assms
proof (induction ts arbitrary: k)
  case (Cons t ts)
  {
    case 1
    then have "\<forall>u\<in>set ts. z_is_thread_ready (z_ready_thread t k) u" by (auto simp: ready_def2)
    with 1 Cons.IH(1) show ?case by (auto simp: set_priq_insert)
  next
    case 2
    then have "\<forall>u\<in>set ts. z_is_thread_ready (z_ready_thread t k) u" by (auto simp: ready_def2)
    with 2 Cons.IH(2) show ?case by auto
  next
    case 3
    then have "\<forall>u\<in>set ts. z_is_thread_ready (z_ready_thread t k) u" by (auto simp: ready_def2)
    with 3 Cons.IH(3) show ?case by auto
  }
qed simp_all

lemma ready_unpend: "z_is_thread_ready k t \<Longrightarrow> z_is_thread_ready (z_unpend_thread u k) t"
  by (auto simp: ready_def2 z_unpend_thread_def dest: notin_set_remove1)

lemma ready_unpends: "z_is_thread_ready k t \<Longrightarrow> z_is_thread_ready (fold z_unpend_thread us k) t"
  by (induction us arbitrary: k) (simp_all add: ready_unpend)

lemma unpend_fold:
  assumes "queues_ok k" and "distinct (timeout_list k)" and "waitq k w = ts1 @ ts2" and "\<forall>t\<in>set ts1. tstate k t = {F_PENDING}"
  shows "(\<forall>t\<in>set ts1. z_is_thread_ready (fold z_unpend_thread ts1 k) t) \<and> waitq (fold z_unpend_thread ts1 k) w = ts2
    \<and> runq (fold z_unpend_thread ts1 k) = runq k \<and> current (fold z_unpend_thread ts1 k) = current k
    \<and> (\<forall>t. t \<notin> set ts1 \<longrightarrow> threads (fold z_unpend_thread ts1 k) t = threads k t)"
  using assms
proof (induction ts1 arbitrary: k)
  case (Cons t ts)
  have d: "distinct (t # ts @ ts2)" using queues_okD(1) [OF Cons.prems(1), of "WaitQ w"] Cons.prems(3) by simp
  have w: "t \<in> set (waitq k w)" "tstate k t = {F_PENDING}" using Cons.prems by simp_all
  note U = unpend_state [OF Cons.prems(1,2) w]
  have p: "\<forall>u\<in>set ts. tstate (z_unpend_thread t k) u = {F_PENDING}"
  proof
    fix u assume "u \<in> set ts"
    then have "u \<noteq> t" "tstate k u = {F_PENDING}" using d Cons.prems(4) by auto
    then show "tstate (z_unpend_thread t k) u = {F_PENDING}" by (simp add: U(6))
  qed
  have "waitq (z_unpend_thread t k) w = ts @ ts2" using U(9) Cons.prems(3) by simp
  from Cons.IH [OF U(1,12) this p] ready_unpends [OF U(4)] U(6,7,11) show ?case by simp
qed simp

text \<open>The kernel once the threads of the working set are ready.\<close>

definition woken_up :: "tid list \<Rightarrow> 'a kernel_scheme \<Rightarrow> 'a kernel_scheme" where
  "woken_up ts k = fold z_ready_thread ts (z_sched_lock (fold z_unpend_thread ts k))"

lemma woken_up_state:
  assumes "queues_ok k" and "distinct (timeout_list k)" and "waitq k w = ts1 @ ts2" and "\<forall>t\<in>set ts1. tstate k t = {F_PENDING}"
  shows "set (runq (woken_up ts1 k)) = set (runq k) \<union> set ts1" and "waitq (woken_up ts1 k) w = ts2" and "current (woken_up ts1 k) = current k"
proof -
  let ?k = "z_sched_lock (fold z_unpend_thread ts1 k)"
  have d: "distinct ts1" using queues_okD(1) [OF assms(1), of "WaitQ w"] assms(3) by simp
  have U: "\<forall>t\<in>set ts1. z_is_thread_ready ?k t" "waitq ?k w = ts2" "runq ?k = runq k" "current ?k = current k"
    using unpend_fold [OF assms] by (auto simp: z_sched_lock_def ready_def2)
  show "set (runq (woken_up ts1 k)) = set (runq k) \<union> set ts1" "waitq (woken_up ts1 k) w = ts2" "current (woken_up ts1 k) = current k"
    using ready_fold [OF d U(1)] U by (simp_all add: woken_up_def)
qed

lemma woken_up_waitq:
  fixes k :: "'a kernel_scheme"
  shows "set (waitq (woken_up ts k) w) \<subseteq> set (waitq k w)"
proof -
  have "waitq (fold z_ready_thread ts k') w = waitq k' w" for k' :: "'a kernel_scheme" by (induction ts arbitrary: k') simp_all
  moreover have "set (waitq (fold z_unpend_thread ts k') w) \<subseteq> set (waitq k' w)" for k' :: "'a kernel_scheme"
  proof (induction ts arbitrary: k')
    case (Cons t ts)
    have "set (remove1 t (waitq k' w)) \<subseteq> set (waitq k' w)" by (rule set_remove1_subset)
    then show ?case using Cons.IH [of "z_unpend_thread t k'"] by (simp add: waitq_unpend)
  qed simp
  ultimately show ?thesis by (simp add: woken_up_def z_sched_lock_def)
qed

text \<open>Writers wait only for a full buffer, readers only for an empty one.\<close>

definition pipe_waits :: "k_pipe \<Rightarrow> 'a kernel_scheme \<Rightarrow> bool" where
  "pipe_waits p k \<longleftrightarrow> (waitq k (pp_writers p) \<noteq> [] \<longrightarrow> pp_used p = pp_size p) \<and> (waitq k (pp_readers p) \<noteq> [] \<longrightarrow> pp_used p = 0)"

section \<open>Reading\<close>

lemma drain_other: "t \<notin> set ts \<Longrightarrow> fold (drain data N) ts (num, m, ds) = (num', m', ds') \<Longrightarrow> ds' t = ds t"
  by (induction ts arbitrary: num m ds) (auto simp: Let_def)

lemma drain_full: "fold (drain data N) ts (N, m, ds) = (N, m, ds)"
  by (induction ts) simp_all

lemma drain_writer_eq:
  "drain_writer data N t (num, s) = (case drain data N t (num, pmem s, descs s) of (num', m', ds') \<Rightarrow> (num', s\<lparr>pmem := m', descs := ds'\<rparr>))"
  by (simp add: drain_writer_def pipe_xfer_def Let_def advance_desc_def advance_def)

lemma thread_ready_eq: "F_DUMMY \<notin> tstate (pk s) t \<Longrightarrow> pipe_thread_ready t s = s\<lparr>pk := z_ready_thread t (pk s)\<rparr>"
  by (simp add: pipe_thread_ready_def on_pk_def)

lemma ready_dummy [simp]: "F_DUMMY \<in> tstate (z_ready_thread t k) u \<longleftrightarrow> F_DUMMY \<in> tstate k u"
  by simp

lemma drain_loop_eq:
  assumes "distinct ts" and "num \<le> N" and "\<forall>t\<in>set ts. F_DUMMY \<notin> tstate (pk s) t"
    and "fold (drain data N) ts (num, pmem s, descs s) = (num', m', ds')"
  shows "\<exists>fin rest. ts = fin @ rest \<and> (\<forall>t\<in>set fin. pd_bytes (ds' t) = 0)
    \<and> drain_loop data N ts (num, s) = (rest, num', s\<lparr>pmem := m', descs := ds', pk := fold z_ready_thread fin (pk s)\<rparr>)"
  using assms
proof (induction ts arbitrary: num s)
  case (Cons t ts)
  obtain n1 m1 ds1 where D: "drain data N t (num, pmem s, descs s) = (n1, m1, ds1)" by (rule prod_cases3)
  let ?s = "s\<lparr>pmem := m1, descs := ds1\<rparr>"
  have w: "drain_writer data N t (num, s) = (n1, ?s)" by (simp only: drain_writer_eq D) simp
  have f: "fold (drain data N) ts (n1, m1, ds1) = (num', m', ds')" using Cons.prems(4) D by simp
  consider (none) "num = N" | (full) "num < N" "n1 = N" | (go) "num < N" "n1 < N"
    using Cons.prems(2) D by (fastforce simp: Let_def)
  then show ?case
  proof cases
    case none
    then have "num' = N" "m' = pmem s" "ds' = descs s" using Cons.prems(4) drain_full [of data N "t # ts"] by auto
    with none show ?thesis by (intro exI [of _ "[]"] exI [of _ "t # ts"]) simp
  next
    case full
    then have "num' = N" "m' = m1" "ds' = ds1" using f drain_full [of data N ts] by auto
    with full w show ?thesis by (intro exI [of _ "[]"] exI [of _ "t # ts"]) simp
  next
    case go
    then have z: "pd_bytes (ds1 t) = 0" using D by (auto simp: Let_def advance_def)
    let ?s2 = "?s\<lparr>pk := z_ready_thread t (pk s)\<rparr>"
    have r: "pipe_thread_ready t ?s = ?s2" using Cons.prems(3) by (simp add: thread_ready_eq)
    have "\<forall>u\<in>set ts. F_DUMMY \<notin> tstate (pk ?s2) u" using Cons.prems(3) by simp
    then obtain fin rest where I: "ts = fin @ rest" "\<forall>t\<in>set fin. pd_bytes (ds' t) = 0"
      "drain_loop data N ts (n1, ?s2) = (rest, num', ?s2\<lparr>pmem := m', descs := ds', pk := fold z_ready_thread fin (pk ?s2)\<rparr>)"
      using Cons.IH [of n1 ?s2] Cons.prems(1) go(2) f by auto
    have "ds' t = ds1 t" using drain_other [OF _ f] Cons.prems(1) by simp
    with I z go w r show ?thesis by (intro exI [of _ "t # fin"] exI [of _ rest]) (simp add: Let_def)
  qed
qed simp

lemma pipe_put_0: "pipe_ok p \<Longrightarrow> pipe_buffer_put p src 0 m = (0, p, m)"
proof -
  assume p: "pipe_ok p"
  have "(if pp_write p = pp_size p then 0 else pp_write p) = pp_write p"
  proof (cases "pp_size p = 0")
    case False
    then have "pp_write p < pp_size p" using p by (simp add: pipe_ok_def)
    then show ?thesis by simp
  qed simp
  then have "put_round src 0 (0, p, m) = (0, p, m)" by (cases p) (simp add: put_round_def pipe_xfer_def Let_def split: if_splits)
  then show ?thesis by (simp add: pipe_buffer_put_def)
qed

lemma top_up_done: "pipe_ok p \<Longrightarrow> \<forall>t\<in>set ts. pd_bytes (ds t) = 0 \<Longrightarrow> fold top_up ts (p, m, ds) = (p, m, ds)"
  by (induction ts) (simp_all add: pipe_put_0)

lemma refill_eq:
  "refill t (p, s) = (case top_up t (p, pmem s, descs s) of (p', m', ds') \<Rightarrow> (p', s\<lparr>pmem := m', descs := ds'\<rparr>))"
  by (simp add: refill_def advance_desc_def advance_def split: prod.split)

lemma refill_fold:
  assumes "\<forall>t\<in>set ts. F_DUMMY \<notin> tstate (pk s) t" and "fold top_up ts (p, pmem s, descs s) = (p', m', ds')"
  shows "fold (\<lambda>t st. ready_writer t (refill t st)) ts (p, s) = (p', s\<lparr>pmem := m', descs := ds', pk := fold z_ready_thread ts (pk s)\<rparr>)"
  using assms
proof (induction ts arbitrary: p s)
  case (Cons t ts)
  obtain p1 m1 ds1 where D: "top_up t (p, pmem s, descs s) = (p1, m1, ds1)" by (rule prod_cases3)
  let ?s = "s\<lparr>pmem := m1, descs := ds1, pk := z_ready_thread t (pk s)\<rparr>"
  have "ready_writer t (refill t (p, s)) = (p1, ?s)"
    using Cons.prems(1) D by (simp only: refill_eq D) (simp add: ready_writer_def thread_ready_eq)
  moreover have "\<forall>u\<in>set ts. F_DUMMY \<notin> tstate (pk ?s) u" using Cons.prems(1) by simp
  moreover have "fold top_up ts (p1, pmem ?s, descs ?s) = (p', m', ds')" using Cons.prems(2) D by simp
  ultimately show ?case using Cons.IH [of ?s p1] by simp
qed simp

text \<open>The number of bytes that the first writers keep, when the buffer is full before.\<close>

lemma drain_rest:
  assumes "distinct (ts1 @ ts2)" and "num \<le> N" and "clear_of data N ds (ts1 @ ts2)"
    and "fold (drain data N) (ts1 @ ts2) (num, m, ds) = (num', m', ds')"
  shows "sum_list (map (\<lambda>t. pd_bytes (ds' t)) ts1) = sum_list (map (\<lambda>t. pd_bytes (ds t)) ts1) - (N - num)"
proof -
  obtain n1 m1 ds1 where f: "fold (drain data N) ts1 (num, m, ds) = (n1, m1, ds1)" by (rule prod_cases3)
  have "stream ds1 m1 ts1 = drop (N - num) (stream ds m ts1)" using drain_fold [OF _ assms(2) _ f] assms(1,3) by auto
  from arg_cong [OF this, of length] have "sum_list (map (\<lambda>t. pd_bytes (ds1 t)) ts1) = sum_list (map (\<lambda>t. pd_bytes (ds t)) ts1) - (N - num)"
    by (simp add: stream_len)
  moreover have "ds' t = ds1 t" if "t \<in> set ts1" for t
    using drain_other [of t ts2 data N n1 m1 ds1 num' m' ds'] assms(1,4) f that by auto
  ultimately show ?thesis by (simp cong: map_cong)
qed

lemma top_up_rest:
  assumes "distinct (ts1 @ ts2)" and "pipe_ok p" and "clear_of (pp_buffer p) (pp_size p) ds (ts1 @ ts2)"
    and "fold top_up (ts1 @ ts2) (p, m, ds) = (p', m', ds')"
  shows "sum_list (map (\<lambda>t. pd_bytes (ds' t)) ts1) = sum_list (map (\<lambda>t. pd_bytes (ds t)) ts1) - (pp_size p - pp_used p)"
proof -
  obtain p1 m1 ds1 where f: "fold top_up ts1 (p, m, ds) = (p1, m1, ds1)" by (rule prod_cases3)
  have F: "pipe_ok p1" "same_area p p1" "stream ds1 m1 ts1 = drop (pp_size p - pp_used p) (stream ds m ts1)" "shrunk ds ds1"
    using top_up_fold [OF _ assms(2) _ f] assms(1,3) by auto
  from arg_cong [OF F(3), of length] have "sum_list (map (\<lambda>t. pd_bytes (ds1 t)) ts1) = sum_list (map (\<lambda>t. pd_bytes (ds t)) ts1) - (pp_size p - pp_used p)"
    by (simp add: stream_len)
  moreover have "clear_of (pp_buffer p1) (pp_size p1) ds1 ts2"
    using clear_shrunk [OF F(4), of ts2 "pp_buffer p" "pp_size p"] F(2) assms(3) by (simp add: same_area_def)
  then have "\<forall>t. t \<notin> set ts2 \<longrightarrow> ds' t = ds1 t"
    using top_up_fold [OF _ F(1), of ts2 ds1 m1 p' m' ds'] assms(1,4) f by simp
  then have "ds' t = ds1 t" if "t \<in> set ts1" for t using assms(1) that by auto
  ultimately show ?thesis by (simp cong: map_cong)
qed

text \<open>The three phases of a read, from the buffer, from the writers, and from them into the buffer.\<close>

definition get_phases ::
  "nat \<Rightarrow> nat \<Rightarrow> tid list \<Rightarrow> k_pipe \<times> (nat \<Rightarrow> u8) \<times> (tid \<Rightarrow> k_pipe_desc) \<Rightarrow> nat \<times> k_pipe \<times> (nat \<Rightarrow> u8) \<times> (tid \<Rightarrow> k_pipe_desc)" where
  "get_phases data N L st =
     (case st of (p, m, ds) \<Rightarrow>
      case pipe_buffer_get p data N m of (num, p, m) \<Rightarrow>
      case fold (drain data N) L (num, m, ds) of (num, m, ds) \<Rightarrow> (num, fold top_up L (p, m, ds)))"

text \<open>Where the bytes of the readers and writers lie.\<close>

definition laid_out :: "k_pipe \<Rightarrow> nat \<Rightarrow> nat \<Rightarrow> (tid \<Rightarrow> k_pipe_desc) \<Rightarrow> tid list \<Rightarrow> bool" where
  "laid_out p data N ds ts \<longleftrightarrow> spaced (pp_buffer p) (pp_size p) data N \<and> clear_of data N ds ts \<and> clear_of (pp_buffer p) (pp_size p) ds ts"

lemma laid_outD:
  assumes "laid_out p data N ds ts"
  shows "spaced (pp_buffer p) (pp_size p) data N" and "clear_of data N ds ts" and "clear_of (pp_buffer p) (pp_size p) ds ts"
  using assms by (auto simp: laid_out_def)

lemma laid_out_append [simp]: "laid_out p data N ds (xs @ ys) \<longleftrightarrow> laid_out p data N ds xs \<and> laid_out p data N ds ys"
  by (auto simp: laid_out_def)

lemma get_phases_split:
  assumes "get_phases data N L (p, m, ds) = (n1, p', m', ds')"
  obtains n0 p0 m0 m1 ds1 where "pipe_buffer_get p data N m = (n0, p0, m0)" "fold (drain data N) L (n0, m0, ds) = (n1, m1, ds1)"
    "fold top_up L (p0, m1, ds1) = (p', m', ds')"
  using assms by (auto simp: get_phases_def split: prod.splits)

lemma get_phases_spec:
  assumes ok: "pipe_ok p" and dL: "distinct L" and lo: "laid_out p data N ds L" and ph: "get_phases data N L (p, m, ds) = (n1, p', m', ds')"
  defines "S \<equiv> pipe_contents p m @ stream ds m L"
  shows "n1 = min N (length S) \<and> bytes_at m' data n1 = take N S \<and> pipe_contents p' m' @ stream ds' m' L = drop N S
    \<and> pipe_ok p' \<and> pp_readers p' = pp_readers p \<and> pp_writers p' = pp_writers p \<and> pp_size p' = pp_size p
    \<and> pp_used p' = min (pp_size p) (length S - N) \<and> (\<forall>t. t \<notin> set L \<longrightarrow> ds' t = ds t)
    \<and> (\<forall>x. \<not> (data \<le> x \<and> x < data + N) \<and> \<not> (pp_buffer p \<le> x \<and> x < pp_buffer p + pp_size p) \<longrightarrow> m' x = m x)"
proof -
  obtain n0 p0 m0 m1 ds1 where f: "pipe_buffer_get p data N m = (n0, p0, m0)" "fold (drain data N) L (n0, m0, ds) = (n1, m1, ds1)"
    "fold top_up L (p0, m1, ds1) = (p', m', ds')" by (rule get_phases_split [OF ph])
  note lo = laid_outD [OF lo]
  let ?C = "pipe_contents p m" and ?SL = "stream ds m L"
  have G: "n0 = min N (pp_used p)" "pipe_ok p0" "same_area p p0" "pipe_contents p0 m0 = drop N ?C" "bytes_at m0 data n0 = take N ?C"
    "\<And>a. \<not> (data \<le> a \<and> a < data + N) \<Longrightarrow> m0 a = m a" "pp_readers p0 = pp_readers p" "pp_writers p0 = pp_writers p"
    using pipe_buffer_get_spec [OF ok lo(1), of m] f(1) by auto
  have ar: "pp_buffer p0 = pp_buffer p" "pp_size p0 = pp_size p" "n0 \<le> N" using G(1,3) by (simp_all add: same_area_def)
  have s0: "stream ds m0 L = ?SL" by (rule stream_cong [where a = data and n = N]) (use lo G(6) in auto)
  have D: "n1 = min N (n0 + length ?SL)" "bytes_at m1 data n1 = take N ?C @ take (N - n0) ?SL" "stream ds1 m1 L = drop (N - n0) ?SL"
    "\<forall>x. \<not> (data \<le> x \<and> x < data + N) \<longrightarrow> m1 x = m0 x" "\<forall>t. t \<notin> set L \<longrightarrow> ds1 t = ds t" "shrunk ds ds1"
    using drain_fold [OF dL ar(3) lo(2) f(2), unfolded s0 G(5)] by blast+
  have c0: "pipe_contents p0 m1 = drop N ?C"
    using D(4) lo(1) G(2,4) pipe_contents_cong [of p0 m1 m0] by (auto simp: ar dest: spacedD)
  have T: "pipe_ok p'" "pipe_contents p' m' = drop N ?C @ take (pp_size p - pp_used p0) (drop (N - n0) ?SL)"
    "stream ds' m' L = drop (pp_size p - pp_used p0) (drop (N - n0) ?SL)"
    "\<forall>x. \<not> (pp_buffer p \<le> x \<and> x < pp_buffer p + pp_size p) \<longrightarrow> m' x = m1 x" "\<forall>t. t \<notin> set L \<longrightarrow> ds' t = ds1 t"
    "pp_readers p' = pp_readers p" "pp_writers p' = pp_writers p" "pp_size p' = pp_size p"
    using top_up_fold [OF dL G(2) _ f(3)] clear_shrunk [OF D(6) lo(3)] D(3) c0 G(7,8) by (simp_all add: ar same_area_def)
  have chunk: "n0 = min N (length ?C)" using G(1) by simp
  have cC: "take N ?C = take n0 ?C" "drop N ?C = drop n0 ?C" using chunk by (simp_all add: min_def)
  have "bytes_at m' data n1 = bytes_at m1 data n1"
    using T(4) lo(1) D(1) by (intro bytes_at_cong) (auto simp: spaced_sym dest: spacedD)
  then have "bytes_at m' data n1 = take N S" unfolding S_def take_drop_chunk(1) [OF chunk] D(2) cC by simp
  moreover have r: "pipe_contents p' m' @ stream ds' m' L = drop N S"
    unfolding S_def take_drop_chunk(2) [OF chunk] T(2,3) cC by (simp del: drop_drop)
  moreover have "pp_used p0 = pp_used p - N" using arg_cong [OF G(4), of length] by simp
  then have "pp_used p' = pp_used p - N + min (pp_size p - (pp_used p - N)) (length ?SL - (N - n0))" 
    using arg_cong [OF T(2), of length] by (simp add: min.commute)
  then have "pp_used p' = min (pp_size p) (length S - N)"
    using G(1) pipe_okD(1) [OF ok] unfolding S_def length_append pipe_contents_len by linarith
  moreover have "n1 = min N (length S)" using D(1) G(1) by (simp add: S_def)
  ultimately show ?thesis using T D(4,5) G(6) by simp
qed

lemma get_phases_rest:
  assumes ok: "pipe_ok p" and dL: "distinct (ts1 @ ts2)" and lo: "laid_out p data N ds (ts1 @ ts2)"
    and ph: "get_phases data N (ts1 @ ts2) (p, m, ds) = (n1, p', m', ds')" and full: "pp_used p = pp_size p"
  shows "sum_list (map (\<lambda>t. pd_bytes (ds' t)) ts1) = sum_list (map (\<lambda>t. pd_bytes (ds t)) ts1) - N"
proof -
  obtain n0 p0 m0 m1 ds1 where f: "pipe_buffer_get p data N m = (n0, p0, m0)" "fold (drain data N) (ts1 @ ts2) (n0, m0, ds) = (n1, m1, ds1)"
    "fold top_up (ts1 @ ts2) (p0, m1, ds1) = (p', m', ds')" by (rule get_phases_split [OF ph])
  note lo = laid_outD [OF lo]
  have G: "n0 = min N (pp_used p)" "pipe_ok p0" "same_area p p0" "pipe_contents p0 m0 = drop N (pipe_contents p m)"
    using pipe_buffer_get_spec [OF ok lo(1), of m] f(1) by auto
  have n0: "n0 \<le> N" using G(1) by simp
  have "shrunk ds ds1" using drain_fold [OF dL n0 lo(2) f(2)] by blast
  from clear_shrunk [OF this lo(3)] have "clear_of (pp_buffer p0) (pp_size p0) ds1 (ts1 @ ts2)" using G(3) by (simp add: same_area_def)
  from top_up_rest [OF dL G(2) this f(3)] drain_rest [OF dL n0 lo(2) f(2)]
  have "sum_list (map (\<lambda>t. pd_bytes (ds' t)) ts1) = sum_list (map (\<lambda>t. pd_bytes (ds t)) ts1) - (N - n0) - (pp_size p0 - pp_used p0)" by simp
  moreover have "pp_used p0 = pp_used p - N" using arg_cong [OF G(4), of length] by simp
  ultimately show ?thesis using G(1,3) full n0 by (simp add: same_area_def)
qed

text \<open>The working set \<open>ts1\<close> and the first thread behind it take part; the threads further behind are not touched.\<close>

lemma get_core:
  assumes ok: "pipe_ok p" and tk: "taken ds N ts1 ts2" and dis: "distinct (ts1 @ ts2)"
    and full: "ts1 @ ts2 \<noteq> [] \<longrightarrow> pp_used p = pp_size p" and lo: "laid_out p data N ds (ts1 @ ts2)"
    and ph: "get_phases data N (ts1 @ take 1 ts2) (p, m, ds) = (n1, p', m', ds')"
  defines "S \<equiv> pipe_contents p m @ stream ds m (ts1 @ ts2)"
  shows "n1 = min N (length S)" and "bytes_at m' data n1 = take N S" and "pipe_contents p' m' @ stream ds' m' (ts1 @ ts2) = drop N S"
    and "pipe_ok p'" and "\<forall>t\<in>set ts1. pd_bytes (ds' t) = 0" and "ts2 = t # us \<Longrightarrow> 0 < pd_bytes (ds' t)"
    and "pp_readers p' = pp_readers p" and "pp_writers p' = pp_writers p"
    and "t \<notin> set (ts1 @ take 1 ts2) \<Longrightarrow> ds' t = ds t" and "ts2 \<noteq> [] \<Longrightarrow> pp_used p' = pp_size p" and "pp_size p' = pp_size p"
proof -
  define L where "L = ts1 @ take 1 ts2"
  have tsL: "ts1 @ ts2 = L @ drop 1 ts2" by (simp add: L_def)
  have dL: "distinct L" and out: "\<And>t. t \<in> set (drop 1 ts2) \<Longrightarrow> t \<notin> set L" using dis unfolding tsL by auto
  have lL: "laid_out p data N ds L" and lT: "laid_out p data N ds (drop 1 ts2)" using lo unfolding tsL by simp_all
  let ?S = "pipe_contents p m @ stream ds m L" and ?T = "stream ds m (drop 1 ts2)"
  have P: "n1 = min N (length ?S)" "bytes_at m' data n1 = take N ?S" "pipe_contents p' m' @ stream ds' m' L = drop N ?S"
    "pipe_ok p'" "pp_readers p' = pp_readers p" "pp_writers p' = pp_writers p" "pp_size p' = pp_size p"
    "pp_used p' = min (pp_size p) (length ?S - N)" "\<forall>t. t \<notin> set L \<longrightarrow> ds' t = ds t"
    "\<forall>x. \<not> (data \<le> x \<and> x < data + N) \<and> \<not> (pp_buffer p \<le> x \<and> x < pp_buffer p + pp_size p) \<longrightarrow> m' x = m x"
    using get_phases_spec [OF ok dL lL ph [folded L_def]] by blast+
  show "pipe_ok p'" "pp_readers p' = pp_readers p" "pp_writers p' = pp_writers p" "pp_size p' = pp_size p" by fact+
  show "t \<notin> set (ts1 @ take 1 ts2) \<Longrightarrow> ds' t = ds t" using P(9) by (simp add: L_def)
  have tail: "N < length (stream ds m L)" if "ts2 = t # us" for t us using tk that by (simp add: taken_def L_def stream_len)
  have S: "S = ?S @ ?T" by (simp add: S_def tsL)
  have noT: "?T = [] \<or> N \<le> length ?S" using tail by (cases ts2) (auto simp: less_imp_le trans_le_add2)
  then show "n1 = min N (length S)" "bytes_at m' data n1 = take N S" using P(1,2) by (auto simp: S)
  have "offered ds' m' t = offered ds m t" if "t \<in> set (drop 1 ts2)" for t
    using P(9,10) out that laid_outD(2,3) [OF lT] by (simp add: offered_def) (rule bytes_at_cong; metis spacedD spaced_sym)
  then have "stream ds' m' (drop 1 ts2) = ?T" by (simp add: stream_def cong: map_cong)
  then show "pipe_contents p' m' @ stream ds' m' (ts1 @ ts2) = drop N S" unfolding tsL S using P(3) noT by auto
  have z: "sum_list (map (\<lambda>t. pd_bytes (ds' t)) ts1) = 0" if "pp_used p = pp_size p"
    using get_phases_rest [OF ok dL [unfolded L_def] lL [unfolded L_def] ph that] tk by (simp add: taken_def)
  then show "\<forall>t\<in>set ts1. pd_bytes (ds' t) = 0" using full by (cases "ts1 = []") auto
  show "pp_used p' = pp_size p" if "ts2 \<noteq> []" using P(8) tail full that by (cases ts2) auto
  show "0 < pd_bytes (ds' t)" if t: "ts2 = t # us"
  proof -
    have "pp_used p = pp_size p" using full t by simp
    moreover have "pp_used p' + length (stream ds' m' L) = length ?S - N" using arg_cong [OF P(3), of length] by simp
    ultimately have "0 < length (stream ds' m' L)" using tail [OF t] P(8) unfolding length_append pipe_contents_len by linarith
    then show ?thesis using z full t by (simp add: L_def stream_len)
  qed
qed

abbreviation head_opt :: "'a list \<Rightarrow> 'a option" where
  "head_opt xs \<equiv> (case xs of [] \<Rightarrow> None | x # _ \<Rightarrow> Some x)"

lemma ready_dummies [simp]: "F_DUMMY \<in> tstate (fold z_ready_thread ts k) t \<longleftrightarrow> F_DUMMY \<in> tstate k t"
  by (induction ts arbitrary: k) simp_all

lemma drain_le: "fold (drain data N) ts (num, m, ds) = (num', m', ds') \<Longrightarrow> num \<le> N \<Longrightarrow> num' \<le> N"
proof (induction ts arbitrary: num m ds)
  case (Cons t ts)
  show ?case by (rule Cons.IH [OF Cons.prems(1) [simplified, unfolded Let_def]]) (use Cons.prems(2) in simp)
qed simp

text \<open>The last steps of a transfer whose copies are done; \<open>wq\<close> is the queue to wait in.\<close>

definition pipe_finish :: "wqid \<Rightarrow> nat \<Rightarrow> nat \<Rightarrow> nat \<Rightarrow> int \<Rightarrow> nat \<Rightarrow> k_pipe \<Rightarrow> psys \<Rightarrow> (int \<times> nat) outcome \<times> k_pipe \<times> psys" where
  "pipe_finish wq data N min_xfer timeout num p s =
     (if num = N then (Done (0, num), p, on_pk k_sched_unlock s)
      else if timeout \<noteq> K_NO_WAIT
      then (Blocked, p, on_pk (\<lambda>k. z_pend_curr (Some wq) timeout (z_sched_unlock_no_reschedule k))
              (s\<lparr>descs := (descs s)(current (pk s) := (descs s (current (pk s)))\<lparr>pd_buffer := data + num, pd_bytes := N - num\<rparr>)\<rparr>))
      else (Done (pipe_return_code min_xfer (N - num) N, num), p, on_pk k_sched_unlock s))"

lemma unlock_lists [simp]: "qlists (k_sched_unlock k) = qlists k" "qlists (z_sched_unlock_no_reschedule k) = qlists k"
  "current (z_sched_unlock_no_reschedule k) = current k"
  by (simp_all add: k_sched_unlock_def z_reschedule_def z_sched_unlock_no_reschedule_def)

lemma pend_curr_lists:
  "w' \<noteq> w \<Longrightarrow> current k \<notin> set (waitq k w') \<Longrightarrow> waitq (z_pend_curr (Some w) n k) w' = waitq k w'"
  "x \<in> set (runq k) \<Longrightarrow> x \<noteq> current k \<Longrightarrow> x \<in> set (runq (z_pend_curr (Some w) n k))" "current k \<in> set (waitq (z_pend_curr (Some w) n k) w)"
  by (simp_all add: z_pend_curr_def pend_def Let_def z_is_thread_queued_def remove1_idem set_priq_insert z_swap_def)

lemma pipe_finish_spec:
  assumes "num \<le> N" and "timeout = K_NO_WAIT \<longrightarrow> min_xfer \<le> num" and "wq \<noteq> w" and "current (pk s) \<notin> set (waitq (pk s) w)"
    and "current (pk s) \<notin> set us" and "set us \<subseteq> set (runq (pk s))"
  shows "\<exists>s'. pipe_finish wq data N min_xfer timeout num p s
      = (if num = N then Done (0, N) else if timeout = K_NO_WAIT then Done (0, num) else Blocked, p, s') \<and> pmem s' = pmem s
    \<and> (num = N \<or> timeout = K_NO_WAIT \<longrightarrow> qlists (pk s') = qlists (pk s)) \<and> waitq (pk s') w = waitq (pk s) w \<and> set us \<subseteq> set (runq (pk s')) \<and> (\<forall>t. t \<noteq> current (pk s) \<longrightarrow> descs s' t = descs s t)
    \<and> (num \<noteq> N \<and> timeout \<noteq> K_NO_WAIT \<longrightarrow> current (pk s) \<in> set (waitq (pk s') wq)
        \<and> pd_buffer (descs s' (current (pk s))) = data + num \<and> pd_bytes (descs s' (current (pk s))) = N - num)"
proof -
  let ?k = "z_sched_unlock_no_reschedule (pk s)"
  have "set us \<subseteq> set (runq (z_pend_curr (Some wq) timeout ?k))"
    using assms(5,6) pend_curr_lists(2) [of _ ?k wq timeout] by auto
  moreover have "waitq (z_pend_curr (Some wq) timeout ?k) w = waitq (pk s) w"
    using assms(3,4) pend_curr_lists(1) [of w wq ?k timeout] by simp
  moreover have "current (pk s) \<in> set (waitq (z_pend_curr (Some wq) timeout ?k) wq)"
    using pend_curr_lists(3) [of ?k wq timeout] by simp
  ultimately show ?thesis using assms by (simp add: pipe_finish_def pipe_return_code_def)
qed

lemma k_pipe_get_eq:
  assumes prep: "pipe_xfer_prepare (pp_writers p) (pp_used p) N min_xfer timeout s
      = Some (ts1, wr, on_pk (fold z_unpend_thread ts1) s)"
    and wr: "wr = head_opt ts2" and ok: "pipe_ok p" and ap: "spaced (pp_buffer p) (pp_size p) data N" and dis: "distinct (ts1 @ ts2)"
    and nd: "\<forall>t\<in>set ts1. F_DUMMY \<notin> tstate (z_sched_lock (fold z_unpend_thread ts1 (pk s))) t"
    and ph: "get_phases data N (ts1 @ take 1 ts2) (p, pmem s, descs s) = (n1, p', m', ds')"
  shows "k_pipe_get data N min_xfer timeout p s
    = pipe_finish (pp_readers p') data N min_xfer timeout n1 p' (s\<lparr>pmem := m', descs := ds', pk := woken_up ts1 (pk s)\<rparr>)"
proof -
  obtain n0 p0 m0 m1 ds1 where g: "pipe_buffer_get p data N (pmem s) = (n0, p0, m0)"
    and f1: "fold (drain data N) (ts1 @ take 1 ts2) (n0, m0, descs s) = (n1, m1, ds1)"
    and f2: "fold top_up (ts1 @ take 1 ts2) (p0, m1, ds1) = (p', m', ds')" by (rule get_phases_split [OF ph])
  obtain p2 m2 where "pipe_buffer_get p data N (pmem s) = (min N (pp_used p), p2, m2)" "pipe_ok p2"
    by (rule pipe_buffer_get_spec [OF ok ap, of "pmem s"])
  then have n0: "n0 \<le> N" "pipe_ok p0" using g by auto
  let ?k = "z_sched_lock (fold z_unpend_thread ts1 (pk s))"
  let ?s = "s\<lparr>pk := ?k, pmem := m0\<rparr>"
  obtain na ma dsa where fa: "fold (drain data N) ts1 (n0, m0, descs s) = (na, ma, dsa)" by (rule prod_cases3)
  obtain fin rest where R: "ts1 = fin @ rest" "\<forall>t\<in>set fin. pd_bytes (dsa t) = 0"
    "drain_loop data N ts1 (n0, ?s) = (rest, na, ?s\<lparr>pmem := ma, descs := dsa, pk := fold z_ready_thread fin ?k\<rparr>)"
    using drain_loop_eq [of ts1 n0 N ?s data na ma dsa] dis nd fa n0(1) by auto
  let ?s2 = "?s\<lparr>pmem := ma, descs := dsa, pk := fold z_ready_thread fin ?k\<rparr>"
  let ?s3 = "?s\<lparr>pmem := m1, descs := ds1, pk := fold z_ready_thread fin ?k\<rparr>"
  have fb: "fold (drain data N) (take 1 ts2) (na, ma, dsa) = (n1, m1, ds1)" using f1 fa by simp
  have "na \<le> N" by (rule drain_le [OF fa n0(1)])
  have W: "(case wr of Some t \<Rightarrow> if na < N then drain_writer data N t (na, ?s2) else (na, ?s2) | None \<Rightarrow> (na, ?s2)) = (n1, ?s3)"
  proof (cases ts2)
    case (Cons t us)
    then have d: "drain data N t (na, ma, dsa) = (n1, m1, ds1)" using fb by simp
    show ?thesis
    proof (cases "na < N")
      case False
      then show ?thesis using Cons d \<open>na \<le> N\<close> by (simp add: wr)
    next
      case True
      then show ?thesis using Cons d by (simp add: wr drain_writer_eq del: drain.simps)
    qed
  qed (use fb in \<open>simp add: wr\<close>)
  have "ds1 t = dsa t" if "t \<in> set fin" for t
    using drain_other [OF _ fb, of t] that dis R(1) by (cases ts2) auto
  then have "fold top_up fin (p0, m1, ds1) = (p0, m1, ds1)" using R(2) n0(2) by (intro top_up_done) simp_all
  then have ft: "fold top_up rest (p0, m1, ds1) = (pa, mb, dsb) \<Longrightarrow> fold top_up (take 1 ts2) (pa, mb, dsb) = (p', m', ds')" for pa mb dsb
    using f2 by (simp add: R(1))
  obtain pa mb dsb where fr: "fold top_up rest (p0, m1, ds1) = (pa, mb, dsb)" by (rule prod_cases3)
  let ?k2 = "fold z_ready_thread ts1 ?k"
  have F: "fold (\<lambda>t st. ready_writer t (refill t st)) rest (p0, ?s3) = (pa, ?s3\<lparr>pmem := mb, descs := dsb, pk := ?k2\<rparr>)"
    using refill_fold [of rest ?s3 p0 pa mb dsb] fr nd R(1) by simp
  have H: "(case wr of Some t \<Rightarrow> refill t (pa, ?s3\<lparr>pmem := mb, descs := dsb, pk := ?k2\<rparr>) | None \<Rightarrow> (pa, ?s3\<lparr>pmem := mb, descs := dsb, pk := ?k2\<rparr>))
    = (p', s\<lparr>pmem := m', descs := ds', pk := ?k2\<rparr>)"
    using ft [OF fr] by (cases ts2) (simp_all add: wr refill_eq del: top_up.simps)
  have e1: "on_pk z_sched_lock (on_pk (fold z_unpend_thread ts1) s) = s\<lparr>pk := ?k\<rparr>" by (simp add: on_pk_def)
  have g': "pipe_buffer_get p data N (pmem (s\<lparr>pk := ?k\<rparr>)) = (n0, p0, m0)" using g by simp
  show ?thesis
    by (simp only: k_pipe_get_def prep option.case prod.case Let_def e1 g' R(3) W F H pipe_finish_def woken_up_def)
qed


text \<open>What a transfer of \<open>N\<close> bytes returns when \<open>avail\<close> bytes can be moved at once.\<close>

definition transfer_result :: "nat \<Rightarrow> nat \<Rightarrow> int \<Rightarrow> (int \<times> nat) outcome" where
  "transfer_result N avail timeout =
     (if N \<le> avail then Done (0, N) else if timeout = K_NO_WAIT then Done (0, avail) else Blocked)"

text \<open>The thread that waits in \<open>wq\<close> with the rest of its request.\<close>

definition waits_for_rest :: "wqid \<Rightarrow> tid \<Rightarrow> nat \<Rightarrow> nat \<Rightarrow> psys \<Rightarrow> bool" where
  "waits_for_rest wq t buffer n s \<longleftrightarrow> t \<in> set (waitq (pk s) wq) \<and> pd_buffer (descs s t) = buffer \<and> pd_bytes (descs s t) = n"

lemma transfer_end:
  assumes q: "queues_ok (pk s)" "distinct (timeout_list (pk s))" and w: "waitq (pk s) w = ts1 @ ts2"
    and pend: "\<forall>t\<in>set (ts1 @ ts2). tstate (pk s) t = {F_PENDING}" and wq: "wq \<noteq> w" and cur: "current (pk s) \<notin> set (ts1 @ ts2)"
    and n: "n = min N avail" and nw: "min_xfer \<le> N" "timeout = K_NO_WAIT \<longrightarrow> min_xfer \<le> avail"
  shows "\<exists>s'. pipe_finish wq data N min_xfer timeout n p' (s\<lparr>pmem := m', descs := ds', pk := woken_up ts1 (pk s)\<rparr>)
      = (transfer_result N avail timeout, p', s')
    \<and> pmem s' = m' \<and> waitq (pk s') w = ts2 \<and> set ts1 \<subseteq> set (runq (pk s')) \<and> (\<forall>t\<in>set (ts1 @ ts2). descs s' t = ds' t)
    \<and> (transfer_result N avail timeout = Blocked \<longrightarrow> waits_for_rest wq (current (pk s)) (data + avail) (N - avail) s')
    \<and> (waitq (pk s') wq = [] \<or> waitq (pk s) wq \<noteq> [] \<or> avail < N)"
proof -
  let ?s = "s\<lparr>pmem := m', descs := ds', pk := woken_up ts1 (pk s)\<rparr>"
  have K: "set (runq (pk ?s)) = set (runq (pk s)) \<union> set ts1" "waitq (pk ?s) w = ts2" "current (pk ?s) = current (pk s)"
    using woken_up_state [OF q w] pend by simp_all
  have h: "n \<le> N" "timeout = K_NO_WAIT \<longrightarrow> min_xfer \<le> n" "wq \<noteq> w" "current (pk ?s) \<notin> set (waitq (pk ?s) w)"
    "current (pk ?s) \<notin> set ts1" "set ts1 \<subseteq> set (runq (pk ?s))" using n nw wq cur K by simp_all
  have r: "(if n = N then Done (0, N) else if timeout = K_NO_WAIT then Done (0, n) else Blocked) = transfer_result N avail timeout"
    "transfer_result N avail timeout = Blocked \<longrightarrow> n \<noteq> N \<and> timeout \<noteq> K_NO_WAIT \<and> n = avail"
    using n by (auto simp: transfer_result_def)
  obtain s' where F: "pipe_finish wq data N min_xfer timeout n p' ?s = (transfer_result N avail timeout, p', s')" "pmem s' = m'"
    "waitq (pk s') w = ts2" "set ts1 \<subseteq> set (runq (pk s'))" "\<forall>t. t \<noteq> current (pk s) \<longrightarrow> descs s' t = ds' t"
    "n \<noteq> N \<and> timeout \<noteq> K_NO_WAIT \<longrightarrow> waits_for_rest wq (current (pk s)) (data + n) (N - n) s'"
    "n = N \<or> timeout = K_NO_WAIT \<longrightarrow> qlists (pk s') = qlists (woken_up ts1 (pk s))"
    using pipe_finish_spec [OF h, where data = data and p = p', unfolded r(1)] K by (auto simp: waits_for_rest_def)
  have "waitq (pk s') wq = [] \<or> waitq (pk s) wq \<noteq> [] \<or> avail < N"
    using F(7) woken_up_waitq [of ts1 "pk s" wq] n by (cases "N \<le> avail") auto
  moreover have "\<forall>t\<in>set (ts1 @ ts2). descs s' t = ds' t" using F(5) cur by metis
  ultimately show ?thesis using F(1-4,6) r(2) by blast
qed

lemma others_positive:
  assumes "distinct (ts1 @ ts2)" and "\<And>t. t \<notin> set (ts1 @ take 1 ts2) \<Longrightarrow> ds' t = ds t" and "\<And>t us. ts2 = t # us \<Longrightarrow> 0 < pd_bytes (ds' t)"
    and "\<forall>t\<in>set (ts1 @ ts2). 0 < pd_bytes (ds t)"
  shows "\<forall>t\<in>set ts2. 0 < pd_bytes (ds' t)"
proof (cases ts2)
  case (Cons t us)
  have "ds' u = ds u" if "u \<in> set us" for u using that assms(1) Cons by (intro assms(2)) auto
  then show ?thesis using assms(3) [OF Cons] assms(4) Cons by auto
qed simp

text \<open>
  C26. Reading \<open>N\<close> bytes: with \<open>S\<close> the bytes in the buffer followed by those that the waiting writers offer, the reader gets the first \<open>N\<close>
  bytes of \<open>S\<close>, or all of it, and the rest is what buffer and writers hold afterwards, in the same order. The writers
  \<open>ts1\<close> whose data are gone are made ready, the others wait on with something left to write. A reader that does not get all waits with the rest of its
  request.\<close>

theorem k_pipe_get_reads:
  assumes ok: "pipe_ok p" and q: "queues_ok (pk s)" "distinct (timeout_list (pk s))"
    and w: "waitq (pk s) (pp_writers p) = ts" and rw: "pp_readers p \<noteq> pp_writers p"
    and st: "\<forall>t\<in>set ts. tstate (pk s) t = {F_PENDING}" "\<forall>t\<in>set ts. 0 < pd_bytes (descs s t)" and wt: "pipe_waits p (pk s)"
    and cur: "current (pk s) \<notin> set ts" and lo: "laid_out p data N (descs s) ts"
    and S: "S = pipe_contents p (pmem s) @ stream (descs s) (pmem s) ts"
    and mn: "min_xfer \<le> N" and nw: "timeout = K_NO_WAIT \<longrightarrow> min_xfer \<le> length S"
  shows "\<exists>p' s' ts1 ts2. k_pipe_get data N min_xfer timeout p s = (transfer_result N (length S) timeout, p', s')
    \<and> bytes_at (pmem s') data (min N (length S)) = take N S
    \<and> pipe_contents p' (pmem s') @ stream (descs s') (pmem s') ts = drop N S \<and> pipe_ok p' \<and> pipe_waits p' (pk s')
    \<and> ts = ts1 @ ts2 \<and> waitq (pk s') (pp_writers p) = ts2 \<and> set ts1 \<subseteq> set (runq (pk s'))
    \<and> (\<forall>t\<in>set ts1. pd_bytes (descs s' t) = 0) \<and> (\<forall>t\<in>set ts2. 0 < pd_bytes (descs s' t))
    \<and> (transfer_result N (length S) timeout = Blocked
        \<longrightarrow> waits_for_rest (pp_readers p) (current (pk s)) (data + length S) (N - length S) s')"
proof -
  have full: "ts \<noteq> [] \<longrightarrow> pp_used p = pp_size p" using wt w by (simp add: pipe_waits_def)
  have "min_xfer \<le> count_waiting (descs s) N 0 (waitq (pk s) (pp_writers p)) + pp_used p" if "timeout = K_NO_WAIT"
    using count_waiting_less [of "min_xfer - pp_used p" N "descs s" 0 ts] nw mn that w S by (simp add: stream_len) linarith
  then obtain ts1 ts2 where P: "waitq (pk s) (pp_writers p) = ts1 @ ts2" "taken (descs s) N ts1 ts2"
    "pipe_xfer_prepare (pp_writers p) (pp_used p) N min_xfer timeout s = Some (ts1, head_opt ts2, on_pk (fold z_unpend_thread ts1) s)"
    using pipe_xfer_prepare_spec [of timeout min_xfer s N "pp_writers p" "pp_used p"] by blast
  have ts: "ts = ts1 @ ts2" using P(1) w by simp
  have dis: "distinct (ts1 @ ts2)" using queues_okD(1) [OF q(1), of "WaitQ (pp_writers p)"] P(1) by simp
  obtain n1 p' m' ds' where ph: "get_phases data N (ts1 @ take 1 ts2) (p, pmem s, descs s) = (n1, p', m', ds')" by (rule prod_cases4)
  note C = get_core [OF ok P(2) dis full [unfolded ts] lo [unfolded ts] ph, folded ts, folded S]
  have "\<forall>t\<in>set ts1. F_DUMMY \<notin> tstate (z_sched_lock (fold z_unpend_thread ts1 (pk s))) t"
    using unpend_fold [OF q P(1)] st ts by (auto simp: ready_def2 z_sched_lock_def)
  note E = k_pipe_get_eq [OF P(3) refl ok laid_outD(1) [OF lo] dis this ph, unfolded C(7)]
  obtain s' where F: "pipe_finish (pp_readers p) data N min_xfer timeout n1 p' (s\<lparr>pmem := m', descs := ds', pk := woken_up ts1 (pk s)\<rparr>)
      = (transfer_result N (length S) timeout, p', s')" "pmem s' = m'" "waitq (pk s') (pp_writers p) = ts2" "set ts1 \<subseteq> set (runq (pk s'))"
    "\<forall>t\<in>set ts. descs s' t = ds' t" "transfer_result N (length S) timeout = Blocked
        \<longrightarrow> waits_for_rest (pp_readers p) (current (pk s)) (data + length S) (N - length S) s'"
    "waitq (pk s') (pp_readers p) = [] \<or> waitq (pk s) (pp_readers p) \<noteq> [] \<or> length S < N"
    using transfer_end [OF q P(1) st(1) [unfolded ts] rw cur [unfolded ts] C(1) mn nw, folded ts] by blast
  have rest: "pipe_contents p' (pmem s') @ stream (descs s') (pmem s') ts = drop N S"
    using F(2,5) C(3) by (simp add: stream_def offered_def cong: map_cong)
  have left: "\<forall>t\<in>set ts1. pd_bytes (descs s' t) = 0" "\<forall>t\<in>set ts2. 0 < pd_bytes (descs s' t)"
    using F(5) C(5) others_positive [OF dis C(9,6) st(2) [unfolded ts]] ts by auto
  have len: "pp_used p' + length (stream (descs s') (pmem s') ts) = length S - N" using arg_cong [OF rest, of length] by simp
  have "pp_used p' = 0" if "pp_used p = 0"
    using that full len C(11) pipe_okD(1) [OF C(4)] S by (cases "ts = []") simp_all
  then have "pp_used p' = 0" if "waitq (pk s') (pp_readers p) \<noteq> []"
    using that F(7) wt len by (auto simp: pipe_waits_def)
  then have "pipe_waits p' (pk s')" using F(3) C(7,8,10,11) by (auto simp: pipe_waits_def)
  moreover have "bytes_at (pmem s') data (min N (length S)) = take N S" using C(1,2) F(2) by simp
  ultimately show ?thesis using E [unfolded F(1)] F(3,4,6) C(4) ts rest left
    by (intro exI [of _ p'] exI [of _ s'] exI [of _ ts1] exI [of _ ts2] conjI) assumption+
qed

text \<open>A read that may not wait and cannot get its minimum changes nothing.\<close>

theorem k_pipe_get_refuses:
  assumes "min_xfer \<le> N" and "length (pipe_contents p (pmem s) @ stream (descs s) (pmem s) (waitq (pk s) (pp_writers p))) < min_xfer"
  shows "k_pipe_get data N min_xfer K_NO_WAIT p s = (Done (- EIO, 0), p, s)"
proof -
  have "count_waiting (descs s) N 0 (waitq (pk s) (pp_writers p)) < min_xfer - pp_used p"
    using count_waiting_less [of "min_xfer - pp_used p" N "descs s" 0 "waitq (pk s) (pp_writers p)"] assms by (simp add: stream_len)
  then have "pipe_xfer_prepare (pp_writers p) (pp_used p) N min_xfer K_NO_WAIT s = None"
    by (simp add: pipe_xfer_prepare_def less_diff_conv)
  then show ?thesis by (simp add: k_pipe_get_def)
qed

section \<open>Writing\<close>

text \<open>The bytes that readers have received, in their order.\<close>

definition received :: "(tid \<Rightarrow> k_pipe_desc) \<Rightarrow> (tid \<Rightarrow> k_pipe_desc) \<Rightarrow> (nat \<Rightarrow> u8) \<Rightarrow> tid list \<Rightarrow> u8 list" where
  "received ds ds' m ts = concat (map (\<lambda>t. bytes_at m (pd_buffer (ds t)) (pd_bytes (ds t) - pd_bytes (ds' t))) ts)"

definition separate :: "(tid \<Rightarrow> k_pipe_desc) \<Rightarrow> tid list \<Rightarrow> bool" where
  "separate ds ts \<longleftrightarrow> (\<forall>t\<in>set ts. \<forall>u\<in>set ts. t \<noteq> u \<longrightarrow> spaced (pd_buffer (ds t)) (pd_bytes (ds t)) (pd_buffer (ds u)) (pd_bytes (ds u)))"

definition untouched :: "(tid \<Rightarrow> k_pipe_desc) \<Rightarrow> tid list \<Rightarrow> nat \<Rightarrow> bool" where
  "untouched ds ts x \<longleftrightarrow> (\<forall>t\<in>set ts. \<not> (pd_buffer (ds t) \<le> x \<and> x < pd_buffer (ds t) + pd_bytes (ds t)))"

lemma received_append [simp]: "received ds ds' m (xs @ ys) = received ds ds' m xs @ received ds ds' m ys"
  by (simp add: received_def)

lemma untouched_clear: "clear_of a n ds ts \<Longrightarrow> a \<le> x \<Longrightarrow> x < a + n \<Longrightarrow> untouched ds ts x"
  by (auto simp: untouched_def dest: spacedD)

lemma feed_fold:
  assumes "distinct ts" and "num \<le> N" and "clear_of data N ds ts" and "separate ds ts" and "fold (feed data N) ts (num, m, ds) = (num', m', ds')"
  shows "num' = min N (num + sum_list (map (\<lambda>t. pd_bytes (ds t)) ts)) \<and> received ds ds' m' ts = bytes_at m (data + num) (num' - num)
    \<and> sum_list (map (\<lambda>t. pd_bytes (ds' t)) ts) = sum_list (map (\<lambda>t. pd_bytes (ds t)) ts) - (N - num)
    \<and> (\<forall>x. untouched ds ts x \<longrightarrow> m' x = m x) \<and> (\<forall>t. t \<notin> set ts \<longrightarrow> ds' t = ds t)"
  using assms
proof (induction ts arbitrary: num m ds)
  case (Cons u us)
  define n where "n = min (pd_bytes (ds u)) (N - num)"
  define m1 where "m1 = copy_bytes m (pd_buffer (ds u)) (data + num) n"
  define ds1 where "ds1 = advance u n ds"
  have au: "spaced data N (pd_buffer (ds u)) (pd_bytes (ds u))" using Cons.prems(3) by simp
  have nle: "n \<le> pd_bytes (ds u)" "n \<le> N - num" "num + n \<le> N" using Cons.prems(2) by (simp_all add: n_def)
  have "spaced (pd_buffer (ds u)) n (data + num) n"
    using nle Cons.prems(2) by (intro spaced_sub [OF au [unfolded spaced_sym [of data]]]) auto
  then have f: "fold (feed data N) us (num + n, m1, ds1) = (num', m', ds')"
    using Cons.prems(5) by (simp add: Let_def xfer_loop_copy flip: n_def m1_def ds1_def)
  have d: "distinct us" "u \<notin> set us" using Cons.prems(1) by simp_all
  have eq: "ds1 x = ds x" if "x \<in> set us" for x using that d by (cases "x = u") (simp_all add: ds1_def)
  have h: "clear_of data N ds1 us" "separate ds1 us" using Cons.prems(3,4) eq by (simp_all add: separate_def)
  have un: "untouched ds1 us x = untouched ds us x" for x using eq by (simp add: untouched_def)
  have sm: "map (\<lambda>t. pd_bytes (ds1 t)) us = map (\<lambda>t. pd_bytes (ds t)) us" using eq by simp
  have IH: "num' = min N (num + n + sum_list (map (\<lambda>t. pd_bytes (ds t)) us))" "received ds1 ds' m' us = bytes_at m1 (data + (num + n)) (num' - (num + n))"
    "sum_list (map (\<lambda>t. pd_bytes (ds' t)) us) = sum_list (map (\<lambda>t. pd_bytes (ds t)) us) - (N - (num + n))"
    "\<forall>x. untouched ds us x \<longrightarrow> m' x = m1 x" "\<forall>t. t \<notin> set us \<longrightarrow> ds' t = ds1 t"
    using Cons.IH [OF d(1) nle(3) h f, unfolded un sm] by blast+
  have du: "pd_bytes (ds' u) = pd_bytes (ds u) - n" using IH(5) d by (simp add: ds1_def advance_def)
  have m1: "m1 x = m x" if "\<not> (pd_buffer (ds u) \<le> x \<and> x < pd_buffer (ds u) + pd_bytes (ds u))" for x
    using that nle(1) by (auto simp: m1_def copy_bytes_def)
  have m1d: "m1 x = m x" if "data \<le> x" "x < data + N" for x using m1 spacedD [OF au that] by blast
  have "received ds ds' m' us = received ds1 ds' m' us" using eq by (simp add: received_def cong: map_cong)
  also have "\<dots> = bytes_at m (data + (num + n)) (num' - (num + n))"
    unfolding IH(2) using IH(1) nle by (intro bytes_at_cong m1d) auto
  finally have ru: "received ds ds' m' us = bytes_at m (data + (num + n)) (num' - (num + n))" .
  have "untouched ds us x" if "pd_buffer (ds u) \<le> x" "x < pd_buffer (ds u) + pd_bytes (ds u)" for x
    using that Cons.prems(4) d by (intro untouched_clear [where a = "pd_buffer (ds u)" and n = "pd_bytes (ds u)"]) (auto simp: separate_def)
  then have "bytes_at m' (pd_buffer (ds u)) n = bytes_at m1 (pd_buffer (ds u)) n" using IH(4) nle(1) by (intro bytes_at_cong) auto
  then have bu: "bytes_at m' (pd_buffer (ds u)) n = bytes_at m (data + num) n" by (simp add: m1_def)
  have "num' - num = n + (num' - (num + n))" using IH(1) nle(3) by simp
  then have "received ds ds' m' (u # us) = bytes_at m (data + num) (num' - num)"
    using bu ru du nle(1) by (simp add: received_def bytes_at_append add.assoc)
  moreover have "num' = min N (num + sum_list (map (\<lambda>t. pd_bytes (ds t)) (u # us)))" using IH(1) by (simp add: n_def)
  moreover have "sum_list (map (\<lambda>t. pd_bytes (ds' t)) (u # us)) = sum_list (map (\<lambda>t. pd_bytes (ds t)) (u # us)) - (N - num)"
    unfolding list.map sum_list.Cons IH(3) du n_def by linarith
  moreover have "m' x = m x" if "untouched ds (u # us) x" for x using IH(4) m1 that by (simp add: untouched_def)
  moreover have "ds' t = ds t" if "t \<notin> set (u # us)" for t using IH(5) that by (simp add: ds1_def)
  ultimately show ?case by blast
qed (simp_all add: received_def)

lemma feed_other: "t \<notin> set ts \<Longrightarrow> fold (feed data N) ts (num, m, ds) = (num', m', ds') \<Longrightarrow> ds' t = ds t"
  by (induction ts arbitrary: num m ds) (auto simp: Let_def)

lemma feed_rest:
  assumes "distinct (ts1 @ ts2)" and "num \<le> N" and "clear_of data N ds (ts1 @ ts2)" and "separate ds (ts1 @ ts2)"
    and "fold (feed data N) (ts1 @ ts2) (num, m, ds) = (num', m', ds')"
  shows "sum_list (map (\<lambda>t. pd_bytes (ds' t)) ts1) = sum_list (map (\<lambda>t. pd_bytes (ds t)) ts1) - (N - num)"
proof -
  obtain n1 m1 ds1 where f: "fold (feed data N) ts1 (num, m, ds) = (n1, m1, ds1)" by (rule prod_cases3)
  have "sum_list (map (\<lambda>t. pd_bytes (ds1 t)) ts1) = sum_list (map (\<lambda>t. pd_bytes (ds t)) ts1) - (N - num)"
    using feed_fold [OF _ assms(2) _ _ f] assms(1,3,4) by (auto simp: separate_def)
  moreover have "ds' t = ds1 t" if "t \<in> set ts1" for t
    using feed_other [of t ts2 data N n1 m1 ds1 num' m' ds'] assms(1,5) f that by auto
  ultimately show ?thesis by (simp cong: map_cong)
qed

text \<open>The two phases of a write, to the readers and into the buffer.\<close>

definition put_phases ::
  "nat \<Rightarrow> nat \<Rightarrow> tid list \<Rightarrow> k_pipe \<times> (nat \<Rightarrow> u8) \<times> (tid \<Rightarrow> k_pipe_desc)
     \<Rightarrow> nat \<times> nat \<times> k_pipe \<times> (nat \<Rightarrow> u8) \<times> (tid \<Rightarrow> k_pipe_desc)" where
  "put_phases data N L st =
     (case st of (p, m, ds) \<Rightarrow>
      case fold (feed data N) L (0, m, ds) of (n1, m, ds) \<Rightarrow>
      case pipe_buffer_put p (data + n1) (N - n1) m of (n2, p, m) \<Rightarrow> (n1, n2, p, m, ds))"

lemma received_cong:
  assumes "\<And>x. \<not> (a \<le> x \<and> x < a + n) \<Longrightarrow> m' x = m x" and "clear_of a n ds ts"
  shows "received ds ds' m' ts = received ds ds' m ts"
proof -
  have "bytes_at m' (pd_buffer (ds t)) (pd_bytes (ds t) - k) = bytes_at m (pd_buffer (ds t)) (pd_bytes (ds t) - k)" if t: "t \<in> set ts" for t k
  proof -
    have "spaced (pd_buffer (ds t)) (pd_bytes (ds t)) a n" using assms(2) t by (simp add: spaced_sym)
    then have "m' x = m x" if "pd_buffer (ds t) \<le> x" "x < pd_buffer (ds t) + pd_bytes (ds t)" for x
      using assms(1) spacedD that by blast
    then show ?thesis by (intro bytes_at_cong) auto
  qed
  then show ?thesis by (simp add: received_def cong: map_cong)
qed

lemma put_phases_spec:
  assumes ok: "pipe_ok p" and dL: "distinct L" and lo: "laid_out p data N ds L" and sep: "separate ds L"
    and ph: "put_phases data N L (p, m, ds) = (n1, n2, p', m', ds')"
  defines "R \<equiv> sum_list (map (\<lambda>t. pd_bytes (ds t)) L)"
  shows "n1 = min N R \<and> n2 = min (N - n1) (pp_size p - pp_used p) \<and> received ds ds' m' L = bytes_at m data n1
    \<and> pipe_contents p' m' = pipe_contents p m @ bytes_at m (data + n1) n2 \<and> pipe_ok p'
    \<and> pp_readers p' = pp_readers p \<and> pp_writers p' = pp_writers p \<and> pp_size p' = pp_size p
    \<and> sum_list (map (\<lambda>t. pd_bytes (ds' t)) L) = R - N \<and> (\<forall>t. t \<notin> set L \<longrightarrow> ds' t = ds t)"
proof -
  obtain m1 where f: "fold (feed data N) L (0, m, ds) = (n1, m1, ds')" and b: "pipe_buffer_put p (data + n1) (N - n1) m1 = (n2, p', m')"
    using ph by (auto simp: put_phases_def split: prod.splits)
  note lo = laid_outD [OF lo]
  have F: "n1 = min N R" "received ds ds' m1 L = bytes_at m data n1" "sum_list (map (\<lambda>t. pd_bytes (ds' t)) L) = R - N"
    "\<forall>x. untouched ds L x \<longrightarrow> m1 x = m x" "\<forall>t. t \<notin> set L \<longrightarrow> ds' t = ds t"
    using feed_fold [OF dL le0 lo(2) sep f] by (simp_all add: R_def)
  have c1: "pipe_contents p m1 = pipe_contents p m"
    using F(4) lo(3) by (intro pipe_contents_cong [OF ok]) (auto intro: untouched_clear)
  have "spaced (pp_buffer p) (pp_size p) (data + n1) (N - n1)" using F(1) by (intro spaced_sub [OF lo(1)]) auto
  from pipe_buffer_put_spec [OF ok this, of m1]
  have P: "n2 = min (N - n1) (pp_size p - pp_used p)" "pipe_ok p'" "pipe_contents p' m' = pipe_contents p m @ bytes_at m1 (data + n1) n2"
    "\<And>a. \<not> (pp_buffer p \<le> a \<and> a < pp_buffer p + pp_size p) \<Longrightarrow> m' a = m1 a" "pp_readers p' = pp_readers p" "pp_writers p' = pp_writers p"
    "pp_size p' = pp_size p"
    using b c1 by (auto simp: same_area_def)
  have "m1 x = m x" if "data \<le> x" "x < data + N" for x using F(4) untouched_clear [OF lo(2) that] by simp
  moreover have "n1 + n2 \<le> N" using F(1) P(1) by linarith
  ultimately have "bytes_at m1 (data + n1) n2 = bytes_at m (data + n1) n2" by (intro bytes_at_cong) auto
  then show ?thesis using F P received_cong [OF P(4) lo(3)] by simp
qed

lemma put_core:
  assumes ok: "pipe_ok p" and tk: "taken ds N ts1 ts2" and dis: "distinct (ts1 @ ts2)"
    and em: "ts1 @ ts2 \<noteq> [] \<longrightarrow> pp_used p = 0" and lo: "laid_out p data N ds (ts1 @ ts2)" and sep: "separate ds (ts1 @ ts2)"
    and ph: "put_phases data N (ts1 @ take 1 ts2) (p, m, ds) = (n1, n2, p', m', ds')"
  defines "n \<equiv> min N (sum_list (map (\<lambda>t. pd_bytes (ds t)) (ts1 @ ts2)) + (pp_size p - pp_used p))"
  shows "n1 + n2 = n" and "received ds ds' m' (ts1 @ ts2) @ pipe_contents p' m' = pipe_contents p m @ bytes_at m data n"
    and "pipe_ok p'" and "\<forall>t\<in>set ts1. pd_bytes (ds' t) = 0" and "ts2 = t # us \<Longrightarrow> 0 < pd_bytes (ds' t)"
    and "pp_readers p' = pp_readers p" and "pp_writers p' = pp_writers p" and "t \<notin> set (ts1 @ take 1 ts2) \<Longrightarrow> ds' t = ds t"
    and "pp_size p' = pp_size p" and "pp_used p' = pp_used p + n2" and "ts2 \<noteq> [] \<Longrightarrow> n2 = 0"
    and "n1 + n2 < N \<Longrightarrow> n2 = pp_size p - pp_used p"
proof -
  define L where "L = ts1 @ take 1 ts2"
  have tsL: "ts1 @ ts2 = L @ drop 1 ts2" by (simp add: L_def)
  have h: "distinct L" "laid_out p data N ds L" "separate ds L" using dis lo sep unfolding tsL by (auto simp: separate_def)
  let ?R = "sum_list (map (\<lambda>t. pd_bytes (ds t)) L)"
  have P: "n1 = min N ?R" "n2 = min (N - n1) (pp_size p - pp_used p)" "received ds ds' m' L = bytes_at m data n1"
    "pipe_contents p' m' = pipe_contents p m @ bytes_at m (data + n1) n2" "pipe_ok p'" "pp_readers p' = pp_readers p"
    "pp_writers p' = pp_writers p" "pp_size p' = pp_size p" "sum_list (map (\<lambda>t. pd_bytes (ds' t)) L) = ?R - N"
    "\<forall>t. t \<notin> set L \<longrightarrow> ds' t = ds t"
    using put_phases_spec [OF ok h ph [folded L_def]] by blast+
  show "pipe_ok p'" "pp_readers p' = pp_readers p" "pp_writers p' = pp_writers p" "pp_size p' = pp_size p" by fact+
  show "pp_used p' = pp_used p + n2" using arg_cong [OF P(4), of length] by simp
  show "n2 = pp_size p - pp_used p" if "n1 + n2 < N" using P(2) that by linarith
  show "t \<notin> set (ts1 @ take 1 ts2) \<Longrightarrow> ds' t = ds t" using P(10) by (simp add: L_def)
  have big: "N < ?R" if "ts2 = t # us" for t us using tk that by (simp add: taken_def L_def)
  then show z2: "n2 = 0" if "ts2 \<noteq> []" using that P(1,2) by (cases ts2) auto
  have "sum_list (map (\<lambda>t. pd_bytes (ds t)) (ts1 @ ts2)) = ?R" if "ts2 = []" using that by (simp add: L_def)
  then have "ts2 = [] \<Longrightarrow> n1 + n2 = n" using P(1,2) unfolding n_def by linarith
  moreover have "n1 + n2 = n" if "ts2 = t # us" for t us using P(1) big [OF that] z2 that unfolding n_def tsL by simp
  ultimately show n: "n1 + n2 = n" by (cases ts2) auto
  have "received ds ds' m' (drop 1 ts2) = []"
    using P(10) dis unfolding tsL by (auto simp: received_def)
  then have r: "received ds ds' m' (ts1 @ ts2) = bytes_at m data n1" unfolding tsL using P(3) by simp
  show "received ds ds' m' (ts1 @ ts2) @ pipe_contents p' m' = pipe_contents p m @ bytes_at m data n"
  proof (cases "ts1 @ ts2 = []")
    case True
    then have "n1 = 0" using P(1) by (simp add: L_def)
    with r P(4) n show ?thesis by simp
  next
    case False
    then have "pipe_contents p m = []" using em by (simp add: pipe_contents_def window_def)
    with r P(4) show ?thesis by (simp add: bytes_at_append flip: n)
  qed
  obtain m1 where "fold (feed data N) (ts1 @ take 1 ts2) (0, m, ds) = (n1, m1, ds')"
    using ph by (auto simp: put_phases_def split: prod.splits)
  then have z: "sum_list (map (\<lambda>t. pd_bytes (ds' t)) ts1) = 0"
    using feed_rest [of ts1 "take 1 ts2" 0 N data ds m n1 m1 ds'] h laid_outD(2) [OF h(2)] tk by (simp add: L_def taken_def)
  then show "\<forall>t\<in>set ts1. pd_bytes (ds' t) = 0" by simp
  show "0 < pd_bytes (ds' t)" if "ts2 = t # us" using P(9) big z that by (simp add: L_def)
qed

lemma feed_reader_eq:
  "feed_reader data N t (num, s) = (case feed data N t (num, pmem s, descs s) of (num', m', ds') \<Rightarrow> (num', s\<lparr>pmem := m', descs := ds'\<rparr>))"
  by (simp add: feed_reader_def pipe_xfer_def Let_def advance_desc_def advance_def)

lemma feed_ready_fold:
  assumes "fold (feed data N) ts (num, pmem s, descs s) = (num', m', ds')"
  shows "fold (\<lambda>t st. ready_reader t (feed_reader data N t st)) ts (num, s)
    = (num', s\<lparr>pmem := m', descs := ds', pk := fold z_ready_thread ts (pk s)\<rparr>)"
  using assms
proof (induction ts arbitrary: num s)
  case (Cons t ts)
  obtain n1 m1 ds1 where D: "feed data N t (num, pmem s, descs s) = (n1, m1, ds1)" by (rule prod_cases3)
  let ?s = "s\<lparr>pmem := m1, descs := ds1, pk := z_ready_thread t (pk s)\<rparr>"
  have "ready_reader t (feed_reader data N t (num, s)) = (n1, ?s)"
    by (simp only: feed_reader_eq D) (simp add: ready_reader_def on_pk_def)
  moreover have "fold (feed data N) ts (n1, pmem ?s, descs ?s) = (num', m', ds')" using Cons.prems D by simp
  ultimately show ?case using Cons.IH [of n1 ?s] by simp
qed simp

lemma k_pipe_put_eq:
  assumes prep: "pipe_xfer_prepare (pp_readers p) (pp_size p - pp_used p) N min_xfer timeout s
      = Some (ts1, rd, on_pk (fold z_unpend_thread ts1) s)" and rd: "rd = head_opt ts2"
    and ph: "put_phases data N (ts1 @ take 1 ts2) (p, pmem s, descs s) = (n1, n2, p', m', ds')"
  shows "k_pipe_put data N min_xfer timeout p s
    = pipe_finish (pp_writers p') data N min_xfer timeout (n1 + n2) p' (s\<lparr>pmem := m', descs := ds', pk := woken_up ts1 (pk s)\<rparr>)"
proof -
  obtain m1 where f: "fold (feed data N) (ts1 @ take 1 ts2) (0, pmem s, descs s) = (n1, m1, ds')"
    and b: "pipe_buffer_put p (data + n1) (N - n1) m1 = (n2, p', m')"
    using ph by (auto simp: put_phases_def split: prod.splits)
  let ?k = "z_sched_lock (fold z_unpend_thread ts1 (pk s))"
  let ?s = "s\<lparr>pk := ?k\<rparr>"
  obtain na ma dsa where fa: "fold (feed data N) ts1 (0, pmem s, descs s) = (na, ma, dsa)" by (rule prod_cases3)
  let ?s2 = "?s\<lparr>pmem := ma, descs := dsa, pk := woken_up ts1 (pk s)\<rparr>"
  let ?s3 = "s\<lparr>pmem := m1, descs := ds', pk := woken_up ts1 (pk s)\<rparr>"
  have e1: "on_pk z_sched_lock (on_pk (fold z_unpend_thread ts1) s) = ?s" by (simp add: on_pk_def)
  have F: "fold (\<lambda>t st. ready_reader t (feed_reader data N t st)) ts1 (0, ?s) = (na, ?s2)"
    using feed_ready_fold [of data N ts1 0 ?s na ma dsa] fa by (simp add: woken_up_def)
  have W: "(case rd of None \<Rightarrow> (na, ?s2) | Some t \<Rightarrow> feed_reader data N t (na, ?s2)) = (n1, ?s3)"
    using f fa by (cases ts2) (simp_all add: rd feed_reader_eq del: feed.simps)
  have b': "pipe_buffer_put p (data + n1) (N - n1) (pmem ?s3) = (n2, p', m')" using b by simp
  have e2: "?s3\<lparr>pmem := m'\<rparr> = s\<lparr>pmem := m', descs := ds', pk := woken_up ts1 (pk s)\<rparr>" by (cases s) simp
  show ?thesis
    by (simp only: k_pipe_put_def z_pipe_put_internal_def prep option.case prod.case Let_def e1 F W b' e2 pipe_finish_def)
qed


text \<open>
  C27. Writing \<open>N\<close> bytes: what the waiting readers receive, in their order, followed by the contents of the buffer afterwards is the old
  contents followed by the first \<open>n\<close> bytes of the data, where \<open>n\<close> is what readers and buffer can take. The readers \<open>ts1\<close> that
  have all they asked for are made ready, the others wait on for the rest. A writer that cannot place all its bytes waits with
  the rest.\<close>

theorem k_pipe_put_writes:
  assumes ok: "pipe_ok p" and q: "queues_ok (pk s)" "distinct (timeout_list (pk s))"
    and w: "waitq (pk s) (pp_readers p) = ts" and rw: "pp_readers p \<noteq> pp_writers p"
    and st: "\<forall>t\<in>set ts. tstate (pk s) t = {F_PENDING}" "\<forall>t\<in>set ts. 0 < pd_bytes (descs s t)" and wt: "pipe_waits p (pk s)"
    and cur: "current (pk s) \<notin> set ts" and lo: "laid_out p data N (descs s) ts" and sep: "separate (descs s) ts"
    and room: "room = sum_list (map (\<lambda>t. pd_bytes (descs s t)) ts) + (pp_size p - pp_used p)"
    and mn: "min_xfer \<le> N" and nw: "timeout = K_NO_WAIT \<longrightarrow> min_xfer \<le> room"
  shows "\<exists>p' s' ts1 ts2. k_pipe_put data N min_xfer timeout p s = (transfer_result N room timeout, p', s')
    \<and> received (descs s) (descs s') (pmem s') ts @ pipe_contents p' (pmem s')
        = pipe_contents p (pmem s) @ bytes_at (pmem s) data (min N room) \<and> pipe_ok p' \<and> pipe_waits p' (pk s')
    \<and> ts = ts1 @ ts2 \<and> waitq (pk s') (pp_readers p) = ts2 \<and> set ts1 \<subseteq> set (runq (pk s'))
    \<and> (\<forall>t\<in>set ts1. pd_bytes (descs s' t) = 0) \<and> (\<forall>t\<in>set ts2. 0 < pd_bytes (descs s' t))
    \<and> (transfer_result N room timeout = Blocked
        \<longrightarrow> waits_for_rest (pp_writers p) (current (pk s)) (data + room) (N - room) s')"
proof -
  have em: "ts \<noteq> [] \<longrightarrow> pp_used p = 0" using wt w by (simp add: pipe_waits_def)
  have "min_xfer \<le> count_waiting (descs s) N 0 (waitq (pk s) (pp_readers p)) + (pp_size p - pp_used p)" if "timeout = K_NO_WAIT"
    using count_waiting_less [of "min_xfer - (pp_size p - pp_used p)" N "descs s" 0 ts] nw mn that w room by simp linarith
  then obtain ts1 ts2 where P: "waitq (pk s) (pp_readers p) = ts1 @ ts2" "taken (descs s) N ts1 ts2"
    "pipe_xfer_prepare (pp_readers p) (pp_size p - pp_used p) N min_xfer timeout s = Some (ts1, head_opt ts2, on_pk (fold z_unpend_thread ts1) s)"
    using pipe_xfer_prepare_spec [of timeout min_xfer s N "pp_readers p" "pp_size p - pp_used p"] by blast
  have ts: "ts = ts1 @ ts2" using P(1) w by simp
  have dis: "distinct (ts1 @ ts2)" using queues_okD(1) [OF q(1), of "WaitQ (pp_readers p)"] P(1) by simp
  obtain n1 n2 p' m' ds' where ph: "put_phases data N (ts1 @ take 1 ts2) (p, pmem s, descs s) = (n1, n2, p', m', ds')" by (rule prod_cases5)
  note C = put_core [OF ok P(2) dis em [unfolded ts] lo [unfolded ts] sep [unfolded ts] ph, folded ts, folded room]
  note E = k_pipe_put_eq [OF P(3) refl ph, unfolded C(7)]
  obtain s' where F: "pipe_finish (pp_writers p) data N min_xfer timeout (n1 + n2) p' (s\<lparr>pmem := m', descs := ds', pk := woken_up ts1 (pk s)\<rparr>)
      = (transfer_result N room timeout, p', s')" "pmem s' = m'" "waitq (pk s') (pp_readers p) = ts2" "set ts1 \<subseteq> set (runq (pk s'))"
    "\<forall>t\<in>set ts. descs s' t = ds' t" "transfer_result N room timeout = Blocked
        \<longrightarrow> waits_for_rest (pp_writers p) (current (pk s)) (data + room) (N - room) s'"
    "waitq (pk s') (pp_writers p) = [] \<or> waitq (pk s) (pp_writers p) \<noteq> [] \<or> room < N"
    using transfer_end [OF q P(1) st(1) [unfolded ts] rw [symmetric] cur [unfolded ts] C(1) mn nw, folded ts] by blast
  have moved: "received (descs s) (descs s') (pmem s') ts @ pipe_contents p' (pmem s') = pipe_contents p (pmem s) @ bytes_at (pmem s) data (min N room)"
    using F(2,5) C(2) by (simp add: received_def cong: map_cong)
  have left: "\<forall>t\<in>set ts1. pd_bytes (descs s' t) = 0" "\<forall>t\<in>set ts2. 0 < pd_bytes (descs s' t)"
    using F(5) C(4) others_positive [OF dis C(8,5) st(2) [unfolded ts]] ts by auto
  have "pp_used p' = pp_size p'" if "pp_used p = pp_size p \<or> room < N"
    using that C(1,9,10,12) pipe_okD(1) [OF C(3)] pipe_okD(1) [OF ok] by auto
  then have "pp_used p' = pp_size p'" if "waitq (pk s') (pp_writers p) \<noteq> []"
    using that F(7) wt by (auto simp: pipe_waits_def)
  then have "pipe_waits p' (pk s')" using F(3) em C(6,7,10,11) ts by (auto simp: pipe_waits_def)
  then show ?thesis using E [unfolded F(1)] F(3,4,6) C(3) ts moved left
    by (intro exI [of _ p'] exI [of _ s'] exI [of _ ts1] exI [of _ ts2] conjI) assumption+
qed

section \<open>An example\<close>

text \<open>
  Threads 2 and 3 wait on queue 7, for 3 bytes at 200 and for 5 bytes at 300; thread 4 runs. The bytes of the memory are their addresses modulo 256. The
  pipe has four bytes at 100, full and starting at 102 when they are writers, empty when they are readers.\<close>

definition demo_psys :: psys where
  "demo_psys = \<lparr>pk = demo_kernel,
     descs = (\<lambda>t. \<lparr>pd_buffer = 100 * t, pd_bytes = 2 * t - 1, pd_block = (0, 0), pd_sem = None\<rparr>), pmem = of_nat,
     ppools = (\<lambda>_. \<lparr>kp_base = demo_pool, kp_wait_q = 9\<rparr>), psems = (\<lambda>_. \<lparr>sem_count = 0, sem_limit = 1, sem_wait_q = 10\<rparr>),
     pipe_async_msgs = \<lparr>stk_base = 0, stk_next = 0, stk_top = 10, stk_wait_q = 11, stk_alloc = False\<rparr>, pipe_words = (\<lambda>_. 0)\<rparr>"

definition demo_pipe :: "wqid \<Rightarrow> wqid \<Rightarrow> nat \<Rightarrow> k_pipe" where
  "demo_pipe rq wq n = \<lparr>pp_buffer = 100, pp_size = 4, pp_used = n, pp_read = 2, pp_write = (2 + n) mod 4, pp_alloc = False,
     pp_readers = rq, pp_writers = wq\<rparr>"

lemma demo_psys_facts:
  "queues_ok (pk demo_psys)" "distinct (timeout_list (pk demo_psys))" "waitq (pk demo_psys) 7 = [2, 3]" "waitq (pk demo_psys) 8 = []"
  "current (pk demo_psys) = 4" "tstate (pk demo_psys) 2 = {F_PENDING}" "tstate (pk demo_psys) 3 = {F_PENDING}"
  "descs demo_psys t = \<lparr>pd_buffer = 100 * t, pd_bytes = 2 * t - 1, pd_block = (0, 0), pd_sem = None\<rparr>" "pmem demo_psys = of_nat"
  using demo_queues_ok by (simp_all add: demo_psys_def demo_sel) (simp_all add: demo_kernel_def base_thread_def)

lemma demo_pipe_facts:
  "n \<le> 4 \<Longrightarrow> pipe_ok (demo_pipe rq wq n)" "pp_buffer (demo_pipe rq wq n) = 100" "pp_size (demo_pipe rq wq n) = 4"
  "pp_used (demo_pipe rq wq n) = n" "pp_readers (demo_pipe rq wq n) = rq" "pp_writers (demo_pipe rq wq n) = wq"
  "pp_read (demo_pipe rq wq n) = 2"
  by (simp_all add: demo_pipe_def pipe_ok_def)

theorem k_pipe_get_reads_witness:
  "\<exists>p' s'. k_pipe_get 400 6 6 K_FOREVER (demo_pipe 8 7 4) demo_psys = (Done (0, 6), p', s')
    \<and> bytes_at (pmem s') 400 6 = [102, 103, 100, 101, 200, 201]
    \<and> pipe_contents p' (pmem s') @ stream (descs s') (pmem s') [2, 3] = [202, 44, 45, 46, 47, 48]"
proof -
  define S where "S = pipe_contents (demo_pipe 8 7 4) (pmem demo_psys) @ stream (descs demo_psys) (pmem demo_psys) [2, 3]"
  have e: "S = [102, 103, 100, 101, 200, 201, 202, 44, 45, 46, 47, 48]"
    by (simp add: S_def pipe_contents_def window_def demo_pipe_facts demo_psys_facts stream_def offered_def bytes_at_def upt_rec)
  have S: "length S = 12" "take 6 S = [102, 103, 100, 101, 200, 201]" "drop 6 S = [202, 44, 45, 46, 47, 48]" by (simp_all add: e)
  show ?thesis
    using k_pipe_get_reads [OF _ _ _ _ _ _ _ _ _ _ S_def, where data = 400 and N = 6 and min_xfer = 6 and timeout = K_FOREVER] S
    by (auto simp: demo_psys_facts demo_pipe_facts pipe_waits_def laid_out_def transfer_result_def spaced_def K_FOREVER_def K_NO_WAIT_def)
qed

theorem k_pipe_get_refuses_witness:
  "k_pipe_get 400 6 5 K_NO_WAIT (demo_pipe 7 8 4) demo_psys = (Done (- EIO, 0), demo_pipe 7 8 4, demo_psys)"
  using k_pipe_get_refuses [of 5 6 "demo_pipe 7 8 4" demo_psys 400] by (simp add: demo_psys_facts demo_pipe_facts)

theorem k_pipe_put_writes_witness:
  "\<exists>p' s'. k_pipe_put 400 6 6 K_FOREVER (demo_pipe 7 8 0) demo_psys = (Done (0, 6), p', s')
    \<and> received (descs demo_psys) (descs s') (pmem s') [2, 3] @ pipe_contents p' (pmem s') = [144, 145, 146, 147, 148, 149]"
proof -
  have c: "pipe_contents (demo_pipe 7 8 0) (pmem demo_psys) @ bytes_at (pmem demo_psys) 400 (min 6 12) = [144, 145, 146, 147, 148, 149]"
    by (simp add: pipe_contents_def window_def bytes_at_def upt_rec demo_pipe_facts demo_psys_facts)
  show ?thesis
    using k_pipe_put_writes [of "demo_pipe 7 8 0" demo_psys "[2, 3]" 400 6 12 6 K_FOREVER, unfolded c]
    by (auto simp: demo_psys_facts demo_pipe_facts pipe_waits_def laid_out_def transfer_result_def spaced_def separate_def K_FOREVER_def K_NO_WAIT_def)
qed

end
