(* ===== verification/KPrintk.thy ===== *)
theory KPrintk
  imports Prelude
begin

text \<open>
  The kernel's formatted output, \<^verbatim>\<open>lib/os/printk.c\<close>, without user mode and with \<^verbatim>\<open>CONFIG_LOG_PRINTK\<close> off, its
  default, so that \<^verbatim>\<open>printk\<close> is \<^verbatim>\<open>vprintk\<close>. A format and a string argument are their bytes before the
  NUL. A word on the argument list is an \<^verbatim>\<open>int\<close>, a \<^verbatim>\<open>long\<close>, a pointer or a character; \<^verbatim>\<open>char\<close> is unsigned, as it is on
  RISC-V. An output function works on a state of its own. The decimal loop stays below \<open>2 ^ 32\<close>, so its numbers are natural
  numbers; a width is an \<^verbatim>\<open>int\<close> that wraps. Every conversion is shown to send the same text to every output function.
\<close>

datatype pad_type = PAD_NONE | PAD_ZERO_BEFORE | PAD_SPACE_BEFORE | PAD_SPACE_AFTER

datatype karg = AWord u32 | ADword u64 | AStr "u8 list"

datatype pk_error = Bad_arg | Null_write

type_synonym 's out_func_t = "u32 \<Rightarrow> 's \<Rightarrow> 's"

section \<open>Numbers\<close>

definition print_err :: "'s out_func_t \<Rightarrow> 's \<Rightarrow> 's" where
  "print_err out s = out 82 (out 82 (out 69 s))"

fun out_spaces :: "'s out_func_t \<Rightarrow> nat \<Rightarrow> 's \<Rightarrow> 's" where
  "out_spaces out 0 s = s"
| "out_spaces out (Suc n) s = out_spaces out n (out 32 s)"

function hex_ulong_loop :: "'s out_func_t \<Rightarrow> u64 \<Rightarrow> pad_type \<Rightarrow> int \<Rightarrow> nat \<Rightarrow> bool \<Rightarrow> int \<Rightarrow> int \<Rightarrow> 's \<Rightarrow> int \<times> 's" where
  "hex_ulong_loop out num padding min_width sz found remaining digits s =
     (if sz = 0 then (digits, s)
      else (let nibble = take_bit 4 (drop_bit (4 * (sz - 1)) num)
            in if nibble \<noteq> 0 \<or> found \<or> sz = 1
               then hex_ulong_loop out num padding min_width (sz - 1) True remaining (digits + 1)
                      (out (ucast nibble + (if nibble > 9 then 87 else 48)) s)
               else hex_ulong_loop out num padding min_width (sz - 1) found (remaining - 1) digits
                      (if remaining \<le> min_width
                       then (case padding of PAD_ZERO_BEFORE \<Rightarrow> out 48 s | PAD_SPACE_BEFORE \<Rightarrow> out 32 s | _ \<Rightarrow> s)
                       else s)))"
  by pat_completeness auto
termination by (relation "measure (\<lambda>(out, num, padding, min_width, sz, found, remaining, digits, s). sz)") auto

definition printk_hex_ulong :: "'s out_func_t \<Rightarrow> u64 \<Rightarrow> pad_type \<Rightarrow> int \<Rightarrow> 's \<Rightarrow> 's" where
  "printk_hex_ulong out num padding min_width s =
     (case hex_ulong_loop out num padding min_width 16 False 16 0 s of
        (digits, s) \<Rightarrow> if padding = PAD_SPACE_AFTER then out_spaces out (nat (s32 (min_width * 2 - digits))) s else s)"

function dec_ulong_loop :: "'s out_func_t \<Rightarrow> pad_type \<Rightarrow> int \<Rightarrow> nat \<Rightarrow> nat \<Rightarrow> bool \<Rightarrow> int \<Rightarrow> int \<Rightarrow> 's \<Rightarrow> nat \<times> int \<times> 's" where
  "dec_ulong_loop out padding min_width pos remainder found remaining digits s =
     (if pos < 9 then (remainder, digits, s)
      else if found \<or> remainder > pos
      then dec_ulong_loop out padding min_width (pos div 10) (remainder mod (pos + 1)) True (remaining - 1) (digits + 1)
             (out (of_nat (remainder div (pos + 1) + 48)) s)
      else if remaining \<le> min_width \<and> padding \<noteq> PAD_SPACE_AFTER
      then dec_ulong_loop out padding min_width (pos div 10) (remainder mod (pos + 1)) found (remaining - 1) (digits + 1)
             (out (if padding = PAD_ZERO_BEFORE then 48 else 32) s)
      else dec_ulong_loop out padding min_width (pos div 10) (remainder mod (pos + 1)) found (remaining - 1) digits s)"
  by pat_completeness auto
termination by (relation "measure (\<lambda>(out, padding, min_width, pos, remainder, found, remaining, digits, s). pos)") auto

definition printk_dec_ulong :: "'s out_func_t \<Rightarrow> u32 \<Rightarrow> pad_type \<Rightarrow> int \<Rightarrow> 's \<Rightarrow> 's" where
  "printk_dec_ulong out num padding min_width s =
     (let min_width = (if min_width \<le> 0 then 1 else min_width)
      in case dec_ulong_loop out padding min_width 999999999 (unat num) False 10 1 s of
           (remainder, digits, s) \<Rightarrow>
             let s = out (of_nat (remainder + 48)) s
             in if padding = PAD_SPACE_AFTER then out_spaces out (nat (min_width - digits)) s else s)"

section \<open>Conversions\<close>

definition conv_d :: "'s out_func_t \<Rightarrow> nat \<Rightarrow> pad_type \<Rightarrow> int \<Rightarrow> karg list \<Rightarrow> 's \<Rightarrow> pk_error + karg list \<times> 's" where
  "conv_d out long_ctr padding min_width ap s =
     (let put = (\<lambda>(d :: u32) s.
            if d <s 0 then printk_dec_ulong out (- d) padding (s32 (min_width - 1)) (out 45 s)
            else printk_dec_ulong out d padding min_width s)
      in if long_ctr = 0 then (case ap of AWord d # ap \<Rightarrow> Inr (ap, put d s) | _ \<Rightarrow> Inl Bad_arg)
         else if long_ctr = 1
         then (case ap of AWord ld # ap \<Rightarrow>
                 Inr (ap, if sint ld > 2147483647 \<or> sint ld < - 2147483648 then print_err out s else put ld s)
               | _ \<Rightarrow> Inl Bad_arg)
         else (case ap of ADword lld # ap \<Rightarrow>
                 Inr (ap, if sint lld > 2147483647 \<or> sint lld < - 2147483648 then print_err out s else put (ucast lld) s)
               | _ \<Rightarrow> Inl Bad_arg))"

definition conv_u :: "'s out_func_t \<Rightarrow> nat \<Rightarrow> pad_type \<Rightarrow> int \<Rightarrow> karg list \<Rightarrow> 's \<Rightarrow> pk_error + karg list \<times> 's" where
  "conv_u out long_ctr padding min_width ap s =
     (let put = (\<lambda>u s. printk_dec_ulong out u padding min_width s)
      in if long_ctr = 0 then (case ap of AWord u # ap \<Rightarrow> Inr (ap, put u s) | _ \<Rightarrow> Inl Bad_arg)
         else if long_ctr = 1
         then (case ap of AWord lu # ap \<Rightarrow> Inr (ap, if sint lu > 2147483647 then print_err out s else put lu s) | _ \<Rightarrow> Inl Bad_arg)
         else (case ap of ADword llu # ap \<Rightarrow> Inr (ap, if llu > 2147483647 then print_err out s else put (ucast llu) s)
               | _ \<Rightarrow> Inl Bad_arg))"

definition conv_x :: "'s out_func_t \<Rightarrow> nat \<Rightarrow> pad_type \<Rightarrow> int \<Rightarrow> karg list \<Rightarrow> 's \<Rightarrow> pk_error + karg list \<times> 's" where
  "conv_x out long_ctr padding min_width ap s =
     (if long_ctr < 2 then (case ap of AWord x # ap \<Rightarrow> Inr (ap, printk_hex_ulong out (ucast x) padding min_width s) | _ \<Rightarrow> Inl Bad_arg)
      else (case ap of ADword x # ap \<Rightarrow> Inr (ap, printk_hex_ulong out x padding min_width s) | _ \<Rightarrow> Inl Bad_arg))"

definition conv_s :: "'s out_func_t \<Rightarrow> pad_type \<Rightarrow> int \<Rightarrow> karg list \<Rightarrow> 's \<Rightarrow> pk_error + karg list \<times> 's" where
  "conv_s out padding min_width ap s =
     (case ap of AStr str # ap \<Rightarrow>
        let s = fold (\<lambda>c. out (ucast c)) str s
        in Inr (ap, if padding = PAD_SPACE_AFTER then out_spaces out (nat (s32 (min_width - int (length str)))) s else s)
      | _ \<Rightarrow> Inl Bad_arg)"

definition conv_c :: "'s out_func_t \<Rightarrow> karg list \<Rightarrow> 's \<Rightarrow> pk_error + karg list \<times> 's" where
  "conv_c out ap s = (case ap of AWord c # ap \<Rightarrow> Inr (ap, out c s) | _ \<Rightarrow> Inl Bad_arg)"

section \<open>The format\<close>

text \<open>\<open>spec\<close> is \<open>None\<close> outside a conversion; within one it holds \<^verbatim>\<open>padding\<close>, \<^verbatim>\<open>min_width\<close> and \<^verbatim>\<open>long_ctr\<close>.\<close>

type_synonym fmt_spec = "(pad_type \<times> int \<times> nat) option"

definition next_width :: "int \<Rightarrow> u8 \<Rightarrow> int" where
  "next_width min_width c = (if min_width < 0 then uint c - 48 else s32 (10 * min_width + uint c - 48))"

fun vprintk_loop :: "'s out_func_t \<Rightarrow> u8 list \<Rightarrow> fmt_spec \<Rightarrow> karg list \<Rightarrow> 's \<Rightarrow> pk_error + 's" where
  "vprintk_loop out [] spec ap s = Inr s"
| "vprintk_loop out (c # fmt) None ap s =
     (if c \<noteq> 37 then vprintk_loop out fmt None ap (out (ucast c) s)
      else vprintk_loop out fmt (Some (PAD_NONE, - 1, 0)) ap s)"
| "vprintk_loop out (c # fmt) (Some (padding, min_width, long_ctr)) ap s =
     (let conv = (\<lambda>r. case r of Inl e \<Rightarrow> Inl e | Inr (ap, s) \<Rightarrow> vprintk_loop out fmt None ap s)
      in if c = 45 then vprintk_loop out fmt (Some (PAD_SPACE_AFTER, min_width, long_ctr)) ap s
         else if c = 48 \<and> min_width < 0 \<and> padding = PAD_NONE then vprintk_loop out fmt (Some (PAD_ZERO_BEFORE, min_width, long_ctr)) ap s
         else if 48 \<le> c \<and> c \<le> 57
         then vprintk_loop out fmt (Some (if padding = PAD_NONE then PAD_SPACE_BEFORE else padding, next_width min_width c, long_ctr)) ap s
         else if c = 108 then vprintk_loop out fmt (Some (padding, min_width, long_ctr + 1)) ap s
         else if c = 122 \<or> c = 104 then vprintk_loop out fmt (Some (padding, min_width, long_ctr)) ap s
         else if c = 100 \<or> c = 105 then conv (conv_d out long_ctr padding min_width ap s)
         else if c = 117 then conv (conv_u out long_ctr padding min_width ap s)
         else if c = 112 then conv (conv_x out long_ctr PAD_ZERO_BEFORE 8 ap (out 120 (out 48 s)))
         else if c = 120 \<or> c = 88 then conv (conv_x out long_ctr padding min_width ap s)
         else if c = 115 then conv (conv_s out padding min_width ap s)
         else if c = 99 then conv (conv_c out ap s)
         else if c = 37 then vprintk_loop out fmt None ap (out 37 s)
         else vprintk_loop out fmt None ap (out (ucast c) (out 37 s)))"

definition z_vprintk :: "'s out_func_t \<Rightarrow> 's \<Rightarrow> u8 list \<Rightarrow> karg list \<Rightarrow> pk_error + 's" where
  "z_vprintk out ctx fmt ap = vprintk_loop out fmt None ap ctx"

section \<open>Output functions\<close>

text \<open>\<open>fn\<close> is the routine that the console driver has installed, on a state of its own.\<close>

definition z_arch_printk_char_out :: "'s out_func_t" where
  "z_arch_printk_char_out c s = s"

definition char_out :: "'s out_func_t \<Rightarrow> (nat \<times> 's) out_func_t" where
  "char_out fn c ctx = (fst ctx + 1, fn c (snd ctx))"

definition vprintk :: "'s out_func_t \<Rightarrow> u8 list \<Rightarrow> karg list \<Rightarrow> 's \<Rightarrow> pk_error + 's" where
  "vprintk fn fmt ap s = map_sum id snd (z_vprintk (char_out fn) (0, s) fmt ap)"

definition printk :: "'s out_func_t \<Rightarrow> u8 list \<Rightarrow> karg list \<Rightarrow> 's \<Rightarrow> pk_error + 's" where
  "printk fn fmt ap s = vprintk fn fmt ap s"

fun k_str_out :: "'s out_func_t \<Rightarrow> u8 list \<Rightarrow> nat \<Rightarrow> 's \<Rightarrow> 's" where
  "k_str_out fn cs 0 s = s"
| "k_str_out fn cs (Suc n) s = k_str_out fn (tl cs) n (fn (ucast (hd cs)) s)"

record str_context =
  sc_str :: "(nat \<Rightarrow> u8) option"
  sc_max :: int
  sc_count :: nat

definition str_out :: "str_context out_func_t" where
  "str_out c ctx =
     (case sc_str ctx of
        None \<Rightarrow> ctx\<lparr>sc_count := sc_count ctx + 1\<rparr>
      | Some str \<Rightarrow>
          if int (sc_count ctx) \<ge> sc_max ctx then ctx\<lparr>sc_count := sc_count ctx + 1\<rparr>
          else if int (sc_count ctx) = sc_max ctx - 1
          then ctx\<lparr>sc_str := Some (str(sc_count ctx := 0)), sc_count := sc_count ctx + 1\<rparr>
          else ctx\<lparr>sc_str := Some (str(sc_count ctx := ucast c)), sc_count := sc_count ctx + 1\<rparr>)"

definition vsnprintk :: "(nat \<Rightarrow> u8) option \<Rightarrow> u32 \<Rightarrow> u8 list \<Rightarrow> karg list \<Rightarrow> pk_error + nat \<times> (nat \<Rightarrow> u8) option" where
  "vsnprintk str sz fmt ap =
     (case z_vprintk str_out \<lparr>sc_str = str, sc_max = sint sz, sc_count = 0\<rparr> fmt ap of
        Inl e \<Rightarrow> Inl e
      | Inr ctx \<Rightarrow>
          if int (sc_count ctx) < sc_max ctx
          then (case sc_str ctx of None \<Rightarrow> Inl Null_write | Some str \<Rightarrow> Inr (sc_count ctx, Some (str(sc_count ctx := 0))))
          else Inr (sc_count ctx, sc_str ctx))"

definition snprintk :: "(nat \<Rightarrow> u8) option \<Rightarrow> u32 \<Rightarrow> u8 list \<Rightarrow> karg list \<Rightarrow> pk_error + nat \<times> (nat \<Rightarrow> u8) option" where
  "snprintk str sz fmt ap = vsnprintk str sz fmt ap"

declare hex_ulong_loop.simps [simp del] dec_ulong_loop.simps [simp del]

section \<open>Digits\<close>

text \<open>The digits of a number, and its last \<open>k + 1\<close> digits with leading zeros.\<close>

function num_str :: "nat \<Rightarrow> nat \<Rightarrow> nat list" where
  "num_str b n = (if b < 2 \<or> n < b then [n] else num_str b (n div b) @ [n mod b])"
  by pat_completeness auto
termination by (relation "measure snd") auto

declare num_str.simps [simp del]

fun low_digits :: "nat \<Rightarrow> nat \<Rightarrow> nat \<Rightarrow> nat list" where
  "low_digits b 0 n = [n]"
| "low_digits b (Suc k) n = (n div b ^ Suc k) # low_digits b k (n mod b ^ Suc k)"

lemma num_str_value: "2 \<le> b \<Longrightarrow> foldl (\<lambda>v d. b * v + d) 0 (num_str b n) = n"
proof (induction b n rule: num_str.induct)
  case (1 b n)
  then show ?case by (subst num_str.simps) auto
qed

lemma num_str_hd: "2 \<le> b \<Longrightarrow> 0 < n \<Longrightarrow> hd (num_str b n) \<noteq> 0"
proof (induction b n rule: num_str.induct)
  case (1 b n)
  have ne: "num_str b m \<noteq> []" for m by (subst num_str.simps) simp
  show ?case
  proof (cases "n < b")
    case False
    then have "0 < n div b" using "1.prems" by (simp add: div_greater_zero_iff)
    then show ?thesis using "1.IH" "1.prems" False ne by (subst num_str.simps) simp
  qed (use "1.prems" in \<open>simp add: num_str.simps\<close>)
qed

lemma num_str_digits: "2 \<le> b \<Longrightarrow> d \<in> set (num_str b n) \<Longrightarrow> d < b"
proof (induction b n rule: num_str.induct)
  case (1 b n)
  show ?case
  proof (cases "n < b")
    case True
    then show ?thesis using "1.prems" by (simp add: num_str.simps)
  next
    case False
    then show ?thesis using 1 by (subst (asm) (2) num_str.simps) auto
  qed
qed

lemma low_digits_snoc:
  assumes "0 < b"
  shows "low_digits b (Suc k) n = low_digits b k (n div b) @ [n mod b]"
proof (induction k arbitrary: n)
  case (Suc k)
  have e: "n mod b ^ Suc (Suc k) div b = (n div b) mod b ^ Suc k" "n mod b ^ Suc (Suc k) mod b = n mod b"
    using assms mod_mult2_eq [of n b "b ^ Suc k"] by (simp_all add: mod_mod_cancel)
  have "low_digits b (Suc (Suc k)) n = (n div b ^ Suc (Suc k)) # low_digits b (Suc k) (n mod b ^ Suc (Suc k))" by simp
  also have "\<dots> = (n div b div b ^ Suc k) # low_digits b k (n div b mod b ^ Suc k) @ [n mod b]"
    unfolding Suc.IH e by (simp add: div_mult2_eq)
  finally show ?case by simp
qed simp

lemma low_digits_all: "2 \<le> b \<Longrightarrow> n < b ^ Suc k \<Longrightarrow> k = 0 \<or> b ^ k \<le> n \<Longrightarrow> low_digits b k n = num_str b n \<and> length (num_str b n) = Suc k"
proof (induction k arbitrary: n)
  case (Suc k)
  have "b \<le> b ^ Suc k" using Suc.prems(1) by (simp add: self_le_power)
  then have "\<not> n < b" using Suc.prems(3) by (auto dest: le_less_trans)
  moreover have "n div b < b ^ Suc k" using Suc.prems(1,2) by (simp add: less_mult_imp_div_less mult.commute)
  moreover have "b ^ k \<le> n div b" using Suc.prems(1,3) by (simp add: less_eq_div_iff_mult_less_eq mult.commute)
  ultimately show ?case
    using Suc.IH [of "n div b"] Suc.prems(1) low_digits_snoc [of b k n] by (subst (1 2) num_str.simps) (simp del: low_digits.simps)
qed (simp add: num_str.simps)

lemma num_str_len: "2 \<le> b \<Longrightarrow> n < b ^ Suc k \<Longrightarrow> length (num_str b n) \<le> Suc k"
proof (induction k)
  case (Suc k)
  then show ?case using low_digits_all [of b n "Suc k"] by (cases "n < b ^ Suc k") auto
qed (simp add: num_str.simps)

section \<open>The text of a number\<close>

definition dec_digit :: "nat \<Rightarrow> u32" where "dec_digit d = of_nat (d + 48)"

definition hex_digit :: "nat \<Rightarrow> u32" where "hex_digit d = of_nat d + (if d > 9 then 87 else 48)"

definition dec_chars :: "pad_type \<Rightarrow> nat \<Rightarrow> nat \<Rightarrow> u32 list" where
  "dec_chars padding w n =
     (let ds = map dec_digit (num_str 10 n)
      in if padding = PAD_SPACE_AFTER then ds @ replicate (w - length ds) 32
         else replicate (min 10 w - length ds) (if padding = PAD_ZERO_BEFORE then 48 else 32) @ ds)"

definition pads :: "pad_type \<Rightarrow> nat \<Rightarrow> nat \<Rightarrow> nat" where
  "pads padding m len = (if padding = PAD_SPACE_AFTER then 0 else m - len)"

definition dec_emit :: "'s out_func_t \<Rightarrow> nat \<times> int \<times> 's \<Rightarrow> int \<times> 's" where
  "dec_emit out st = (case st of (r, digits, s) \<Rightarrow> (digits, out (of_nat (r + 48)) s))"

lemma dec_step:
  "dec_ulong_loop out padding w (10 ^ Suc k - 1) r found remaining digits s =
     (if found \<or> 10 ^ Suc k \<le> r
      then dec_ulong_loop out padding w (10 ^ k - 1) (r mod 10 ^ Suc k) True (remaining - 1) (digits + 1) (out (of_nat (r div 10 ^ Suc k + 48)) s)
      else if remaining \<le> w \<and> padding \<noteq> PAD_SPACE_AFTER
      then dec_ulong_loop out padding w (10 ^ k - 1) (r mod 10 ^ Suc k) found (remaining - 1) (digits + 1) (out (if padding = PAD_ZERO_BEFORE then 48 else 32) s)
      else dec_ulong_loop out padding w (10 ^ k - 1) (r mod 10 ^ Suc k) found (remaining - 1) digits s)"
proof -
  obtain m where m: "(10 :: nat) ^ k = Suc m" by (metis gr0_implies_Suc zero_less_numeral zero_less_power)
  have e: "(10 ^ Suc k - 1 < (9 :: nat)) = False" "(10 ^ Suc k - 1) div 10 = (10 ^ k - 1 :: nat)" "10 ^ Suc k - 1 + 1 = (10 ^ Suc k :: nat)"
    "(10 ^ Suc k - 1 < r) = (10 ^ Suc k \<le> r)" by (auto simp: m)
  show ?thesis by (subst dec_ulong_loop.simps) (simp only: e if_False)
qed

lemma dec_loop_found:
  "dec_emit out (dec_ulong_loop out padding w (10 ^ k - 1) r True remaining digits s)
     = (digits + int k, fold out (map dec_digit (low_digits 10 k r)) s)"
proof (induction k arbitrary: r remaining digits s)
  case (Suc k)
  show ?case
    unfolding dec_step by (simp add: Suc.IH dec_digit_def del: power_Suc One_nat_def)
qed (simp add: dec_ulong_loop.simps dec_emit_def dec_digit_def)

lemma dec_loop_text:
  assumes "r < 10 ^ Suc k" and "0 < w"
  shows "dec_emit out (dec_ulong_loop out padding (int w) (10 ^ k - 1) r False (int (Suc k)) digits s)
    = (digits + int (length (num_str 10 r)) - 1 + int (pads padding (min (Suc k) w) (length (num_str 10 r))),
       fold out (replicate (pads padding (min (Suc k) w) (length (num_str 10 r))) (if padding = PAD_ZERO_BEFORE then 48 else 32)
         @ map dec_digit (num_str 10 r)) s)"
  using assms(1) unfolding pads_def
proof (induction k arbitrary: digits s)
  case 0
  then show ?case by (simp add: dec_ulong_loop.simps dec_emit_def dec_digit_def num_str.simps min_def)
next
  case (Suc k)
  let ?L = "length (num_str 10 r)"
  show ?case
  proof (cases "10 ^ Suc k \<le> r")
    case True
    then have L: "low_digits 10 (Suc k) r = num_str 10 r" "?L = Suc (Suc k)" using low_digits_all [of 10 r "Suc k"] Suc.prems by auto
    have "dec_emit out (dec_ulong_loop out padding (int w) (10 ^ Suc k - 1) r False (int (Suc (Suc k))) digits s)
      = dec_emit out (dec_ulong_loop out padding (int w) (10 ^ Suc k - 1) r True (int (Suc (Suc k))) digits s)"
      unfolding dec_step using True by simp
    then show ?thesis by (simp only: dec_loop_found L) simp
  next
    case False
    then have r: "r mod 10 ^ Suc k = r" and L: "?L \<le> Suc k" using num_str_len [of 10 r k] by auto
    have step: "dec_ulong_loop out padding (int w) (10 ^ Suc k - 1) r False (int (Suc (Suc k))) digits s
      = (if Suc (Suc k) \<le> w \<and> padding \<noteq> PAD_SPACE_AFTER
         then dec_ulong_loop out padding (int w) (10 ^ k - 1) r False (int (Suc k)) (digits + 1) (out (if padding = PAD_ZERO_BEFORE then 48 else 32) s)
         else dec_ulong_loop out padding (int w) (10 ^ k - 1) r False (int (Suc k)) digits s)"
      unfolding dec_step r using False by simp
    show ?thesis
    proof (cases "Suc (Suc k) \<le> w \<and> padding \<noteq> PAD_SPACE_AFTER")
      case True
      then have "min (Suc (Suc k)) w - ?L = Suc (min (Suc k) w - ?L)" using L by simp
      then show ?thesis unfolding step using True Suc.IH False by simp
    next
      case F: False
      then have "padding \<noteq> PAD_SPACE_AFTER \<Longrightarrow> min (Suc (Suc k)) w = min (Suc k) w" by simp
      then show ?thesis unfolding step if_not_P [OF F] using Suc.IH False by simp
    qed
  qed
qed

lemma spaces_fold: "out_spaces out n s = fold out (replicate n 32) s"
  by (induction n arbitrary: s) simp_all

lemma printk_dec_text: "printk_dec_ulong out num padding w s = fold out (dec_chars padding (nat (max 1 w)) (unat num)) s"
proof -
  let ?w = "nat (max 1 w)"
  have w: "(if w \<le> 0 then 1 else w) = int ?w" by simp
  have n: "unat num < 10 ^ Suc 9" using unat_u32_less [of num] by (simp del: unat_u32_less)
  have pos: "(999999999 :: nat) = 10 ^ 9 - 1" by simp
  obtain r d t where D: "dec_ulong_loop out padding (int ?w) (10 ^ 9 - 1) (unat num) False (int (Suc 9)) 1 s = (r, d, t)" by (rule prod_cases3)
  note T = dec_loop_text [OF n, where out = out and padding = padding and w = ?w and digits = 1 and s = s, unfolded D dec_emit_def prod.case]
  have "int (Suc 9) = 10" by simp
  note D' = D [unfolded this]
  show ?thesis
    unfolding printk_dec_ulong_def Let_def w pos D' prod.case
    using T by (cases "padding = PAD_SPACE_AFTER") (auto simp: dec_chars_def pads_def spaces_fold Let_def nat_diff_distrib')
qed


definition hex_chars :: "pad_type \<Rightarrow> int \<Rightarrow> nat \<Rightarrow> u32 list" where
  "hex_chars padding w n =
     (let ds = map hex_digit (num_str 16 n)
      in case padding of PAD_SPACE_AFTER \<Rightarrow> ds @ replicate (nat (s32 (w * 2 - int (length ds)))) 32
         | PAD_NONE \<Rightarrow> ds
         | PAD_ZERO_BEFORE \<Rightarrow> replicate (min 16 (nat w) - length ds) 48 @ ds
         | PAD_SPACE_BEFORE \<Rightarrow> replicate (min 16 (nat w) - length ds) 32 @ ds)"

definition hex_pad :: "pad_type \<Rightarrow> nat \<Rightarrow> u32 list" where
  "hex_pad padding n = (case padding of PAD_ZERO_BEFORE \<Rightarrow> replicate n 48 | PAD_SPACE_BEFORE \<Rightarrow> replicate n 32 | _ \<Rightarrow> [])"

lemma nibble:
  fixes num :: u64 and k :: nat
  defines "nib \<equiv> take_bit 4 (drop_bit (4 * k) num)"
  shows "unat nib = unat num div 16 ^ k mod 16" and "nib = 0 \<longleftrightarrow> unat num div 16 ^ k mod 16 = 0"
    and "ucast nib + (if nib > 9 then 87 else 48) = hex_digit (unat num div 16 ^ k mod 16)"
proof -
  have p: "(2 :: nat) ^ (4 * k) = 16 ^ k" by (simp add: power_mult)
  show u: "unat nib = unat num div 16 ^ k mod 16"
    unfolding nib_def unsigned_take_bit_eq unat_drop_bit_eq by (simp add: take_bit_eq_mod drop_bit_eq_div p)
  show "nib = 0 \<longleftrightarrow> unat num div 16 ^ k mod 16 = 0" using u by (simp add: unat_eq_zero [symmetric])
  have "(ucast nib :: u32) = of_nat (unat nib)" by simp
  moreover have "nib > 9 \<longleftrightarrow> unat nib > 9" by (simp add: word_less_nat_alt)
  ultimately show "ucast nib + (if nib > 9 then 87 else 48) = hex_digit (unat num div 16 ^ k mod 16)"
    by (simp add: hex_digit_def u)
qed

lemma hex_step:
  fixes num :: u64 and k :: nat
  defines "d \<equiv> unat num div 16 ^ k mod 16"
  shows "hex_ulong_loop out num padding w (Suc k) found remaining digits s =
     (if d \<noteq> 0 \<or> found \<or> k = 0 then hex_ulong_loop out num padding w k True remaining (digits + 1) (out (hex_digit d) s)
      else hex_ulong_loop out num padding w k found (remaining - 1) digits
             (if remaining \<le> w then fold out (hex_pad padding 1) s else s))"
proof -
  note N = nibble [of k num, folded d_def]
  have "(if remaining \<le> w then (case padding of PAD_ZERO_BEFORE \<Rightarrow> out 48 s | PAD_SPACE_BEFORE \<Rightarrow> out 32 s | _ \<Rightarrow> s) else s)
    = (if remaining \<le> w then fold out (hex_pad padding 1) s else s)"
    by (simp add: hex_pad_def split: pad_type.split)
  then show ?thesis by (subst hex_ulong_loop.simps) (simp only: Let_def N nat.distinct diff_Suc_1 if_False refl, simp)
qed


lemma hex_loop_0 [simp]: "hex_ulong_loop out num padding w 0 found remaining digits s = (digits, s)"
  by (simp add: hex_ulong_loop.simps)

lemma hex_loop_found:
  "hex_ulong_loop out num padding w (Suc k) True remaining digits s
     = (digits + int (Suc k), fold out (map hex_digit (low_digits 16 k (unat num mod 16 ^ Suc k))) s)"
proof (induction k arbitrary: remaining digits s)
  case 0
  show ?case unfolding hex_step by simp
next
  case (Suc k)
  have "unat num mod 16 ^ Suc (Suc k) div 16 ^ Suc k = unat num div 16 ^ Suc k mod 16"
    using mod_mult2_eq [of "unat num" "16 ^ Suc k" 16] by (simp add: mult.commute)
  moreover have "unat num mod 16 ^ Suc (Suc k) mod 16 ^ Suc k = unat num mod 16 ^ Suc k" by (simp add: mod_mod_cancel)
  ultimately show ?case unfolding hex_step [where k = "Suc k"] by (simp add: Suc.IH del: power_Suc)
qed

lemma hex_loop_text:
  assumes "unat num < 16 ^ Suc k"
  shows "hex_ulong_loop out num padding w (Suc k) False (int (Suc k)) digits s
    = (digits + int (length (num_str 16 (unat num))),
       fold out (hex_pad padding (min (Suc k) (nat w) - length (num_str 16 (unat num))) @ map hex_digit (num_str 16 (unat num))) s)"
  using assms
proof (induction k arbitrary: digits s)
  case 0
  then show ?case unfolding hex_step by (simp add: num_str.simps hex_pad_def min_def split: pad_type.split)
next
  case (Suc k)
  let ?n = "unat num" and ?L = "length (num_str 16 (unat num))"
  show ?case
  proof (cases "16 ^ Suc k \<le> ?n")
    case True
    then have L: "low_digits 16 (Suc k) ?n = num_str 16 ?n" "?L = Suc (Suc k)" using low_digits_all [of 16 ?n "Suc k"] Suc.prems by auto
    have "?n div 16 ^ Suc k < 16" using Suc.prems by (simp add: less_mult_imp_div_less)
    moreover have "0 < ?n div 16 ^ Suc k" using True by (simp add: div_greater_zero_iff)
    ultimately have "?n div 16 ^ Suc k mod 16 \<noteq> 0" by simp
    then have "hex_ulong_loop out num padding w (Suc (Suc k)) False (int (Suc (Suc k))) digits s
      = hex_ulong_loop out num padding w (Suc (Suc k)) True (int (Suc (Suc k))) digits s" unfolding hex_step [where k = "Suc k"] by simp
    then show ?thesis using Suc.prems by (simp only: hex_loop_found mod_less L) (simp add: hex_pad_def split: pad_type.split)
  next
    case False
    then have n: "?n < 16 ^ Suc k" "?n div 16 ^ Suc k mod 16 = 0" and L: "?L \<le> Suc k" using num_str_len [of 16 ?n k] by auto
    have step: "hex_ulong_loop out num padding w (Suc (Suc k)) False (int (Suc (Suc k))) digits s
      = hex_ulong_loop out num padding w (Suc k) False (int (Suc k)) digits (if Suc (Suc k) \<le> nat w then fold out (hex_pad padding 1) s else s)"
      unfolding hex_step [where k = "Suc k"] n(2) by auto
    have sp: "hex_pad padding (Suc m) = hex_pad padding 1 @ hex_pad padding m" for m by (simp add: hex_pad_def split: pad_type.split)
    show ?thesis
    proof (cases "Suc (Suc k) \<le> nat w")
      case True
      then have "min (Suc (Suc k)) (nat w) - ?L = Suc (min (Suc k) (nat w) - ?L)" using L by simp
      then show ?thesis unfolding step Suc.IH [OF n(1)] using True sp [of "min (Suc k) (nat w) - ?L"] by simp
    next
      case False
      then have "min (Suc (Suc k)) (nat w) = min (Suc k) (nat w)" by simp
      then show ?thesis unfolding step Suc.IH [OF n(1)] using False by simp
    qed
  qed
qed

lemma printk_hex_text: "printk_hex_ulong out num padding w s = fold out (hex_chars padding w (unat num)) s"
proof -
  have "unat num < 16 ^ Suc 15" using unat_u64_less [of num] by simp
  from hex_loop_text [OF this, of out padding w 0 s]
  have "hex_ulong_loop out num padding w 16 False 16 0 s = (int (length (num_str 16 (unat num))),
       fold out (hex_pad padding (min 16 (nat w) - length (num_str 16 (unat num))) @ map hex_digit (num_str 16 (unat num))) s)"
    by (simp add: eval_nat_numeral)
  then show ?thesis
    by (cases padding) (simp_all add: printk_hex_ulong_def hex_chars_def hex_pad_def spaces_fold Let_def)
qed

text \<open>
  Printing a number in decimal sends its decimal digits, most significant first and without leading zeros, and the padding: in front,
  zeros or spaces up to the width, but not beyond ten characters, or behind, spaces up to the width.\<close>

theorem printk_numbers:
  "printk_dec_ulong out num padding w s = fold out (dec_chars padding (nat (max 1 w)) (unat num)) s
    \<and> foldl (\<lambda>v d. 10 * v + d) 0 (num_str 10 (unat num)) = unat num \<and> (\<forall>d\<in>set (num_str 10 (unat num)). d < 10)
    \<and> (num = 0 \<or> hd (num_str 10 (unat num)) \<noteq> 0)"
  using num_str_hd [of 10 "unat num"] num_str_digits [of 10 _ "unat num"]
  by (cases "num = 0") (auto simp: printk_dec_text num_str_value unat_gt_0)

section \<open>One text for every output\<close>

text \<open>A map from the states of one output function to those of another that respects the output of a character.\<close>

locale out_morphism =
  fixes out1 :: "'a out_func_t" and out2 :: "'b out_func_t" and h :: "'a \<Rightarrow> 'b"
  assumes out_h: "out2 c (h s) = h (out1 c s)"
begin

lemma fold_h: "fold out2 cs (h s) = h (fold out1 cs s)"
  by (induction cs arbitrary: s) (simp_all add: out_h)

lemma str_h: "fold (\<lambda>c. out2 (f c)) cs (h s) = h (fold (\<lambda>c. out1 (f c)) cs s)"
  by (induction cs arbitrary: s) (simp_all add: out_h)

lemma spaces_h: "out_spaces out2 n (h s) = h (out_spaces out1 n s)"
  by (induction n arbitrary: s) (simp_all add: out_h)

lemma conv_h:
  "conv_d out2 l padding w ap (h s) = map_sum (\<lambda>e. e) (map_prod (\<lambda>a. a) h) (conv_d out1 l padding w ap s)"
  "conv_u out2 l padding w ap (h s) = map_sum (\<lambda>e. e) (map_prod (\<lambda>a. a) h) (conv_u out1 l padding w ap s)"
  "conv_x out2 l padding w ap (h s) = map_sum (\<lambda>e. e) (map_prod (\<lambda>a. a) h) (conv_x out1 l padding w ap s)"
  "conv_s out2 padding w ap (h s) = map_sum (\<lambda>e. e) (map_prod (\<lambda>a. a) h) (conv_s out1 padding w ap s)"
  "conv_c out2 ap (h s) = map_sum (\<lambda>e. e) (map_prod (\<lambda>a. a) h) (conv_c out1 ap s)"
  by (simp_all add: conv_d_def conv_u_def conv_x_def conv_s_def conv_c_def Let_def print_err_def printk_dec_text printk_hex_text
      spaces_h fold_h str_h out_h split: list.split karg.split)

lemma vprintk_loop_h: "vprintk_loop out2 fmt spec ap (h s) = map_sum (\<lambda>e. e) h (vprintk_loop out1 fmt spec ap s)"
proof (induction fmt arbitrary: spec ap s)
  case (Cons c fmt)
  have k: "(case map_sum (\<lambda>e. e) (map_prod (\<lambda>a. a) h) r of Inl e \<Rightarrow> Inl e | Inr (ap, s) \<Rightarrow> vprintk_loop out2 fmt None ap s)
    = map_sum (\<lambda>e. e) h (case r of Inl e \<Rightarrow> Inl e | Inr (ap, s) \<Rightarrow> vprintk_loop out1 fmt None ap s)" for r
    by (cases r) (auto simp: Cons.IH)
  show ?case
  proof (cases spec)
    case None
    then show ?thesis by (simp add: Cons.IH out_h)
  next
    case (Some sp)
    obtain padding w l where "sp = (padding, w, l)" by (rule prod_cases3)
    with Some show ?thesis by (simp add: Cons.IH conv_h out_h k Let_def)
  qed
qed simp

end

definition snoc :: "'a \<Rightarrow> 'a list \<Rightarrow> 'a list" where
  "snoc c cs = cs @ [c]"

interpretation to_any: out_morphism snoc out "\<lambda>cs. fold out cs st" for out :: "'s out_func_t" and st
  by unfold_locales (simp add: snoc_def)

text \<open>The text of a format with its arguments.\<close>

definition vprintk_text :: "u8 list \<Rightarrow> karg list \<Rightarrow> pk_error + u32 list" where
  "vprintk_text fmt ap = z_vprintk snoc [] fmt ap"

lemma z_vprintk_text: "z_vprintk out s fmt ap = map_sum id (\<lambda>cs. fold out cs s) (vprintk_text fmt ap)"
  using to_any.vprintk_loop_h [where out = out and st = s and fmt = fmt and spec = None and ap = ap and s = "[]"] by (simp add: z_vprintk_def vprintk_text_def id_def)

lemma char_out_fold: "fold (char_out fn) cs (n, s) = (n + length cs, fold fn cs s)"
  by (induction cs arbitrary: n s) (simp_all add: char_out_def)

section \<open>What a format means\<close>

text \<open>
  A format as the sequence of its parts, with the arguments that they take, and what the C standard prescribes for each: a plain
  character, \<^verbatim>\<open>%%\<close>, a signed or unsigned decimal number without padding or padded with zeros, with spaces in front or with spaces behind, an
  eight-digit hexadecimal number, a pointer, a string as it is or with spaces behind, and a character. What is left out is where \<^verbatim>\<open>printk\<close>
  departs from the standard or from its own documentation, see the theorem \<open>printk_deviations\<close>.
\<close>

datatype fill = Natural | Zeros nat | Spaces nat | After nat

datatype fmt_part = Plain u8 | Percent | Dec bool fill u32 | Uns fill u32 | Hex8 u32 | Ptr u32 | Str "u8 list" | StrAfter nat "u8 list" | Chr u32

definition digit_byte :: "nat \<Rightarrow> u8" where
  "digit_byte d = of_nat (d + 48)"

definition width_fmt :: "nat \<Rightarrow> u8 list" where
  "width_fmt w = map digit_byte (num_str 10 w)"

fun fill_fmt :: "fill \<Rightarrow> u8 list" where
  "fill_fmt Natural = []"
| "fill_fmt (Zeros w) = 48 # width_fmt w"
| "fill_fmt (Spaces w) = width_fmt w"
| "fill_fmt (After w) = 45 # width_fmt w"

fun fmt_of :: "fmt_part \<Rightarrow> u8 list" where
  "fmt_of (Plain c) = [c]"
| "fmt_of Percent = [37, 37]"
| "fmt_of (Dec long f d) = 37 # fill_fmt f @ (if long then [108, 100] else [100])"
| "fmt_of (Uns f u) = 37 # fill_fmt f @ [117]"
| "fmt_of (Hex8 x) = [37, 48, 56, 120]"
| "fmt_of (Ptr x) = [37, 112]"
| "fmt_of (Str cs) = [37, 115]"
| "fmt_of (StrAfter w cs) = 37 # 45 # width_fmt w @ [115]"
| "fmt_of (Chr c) = [37, 99]"

fun args_of :: "fmt_part \<Rightarrow> karg list" where
  "args_of (Dec long f d) = [AWord d]"
| "args_of (Uns f u) = [AWord u]"
| "args_of (Hex8 x) = [AWord x]"
| "args_of (Ptr x) = [AWord x]"
| "args_of (Str cs) = [AStr cs]"
| "args_of (StrAfter w cs) = [AStr cs]"
| "args_of (Chr c) = [AWord c]"
| "args_of _ = []"

text \<open>A sign and digits, filled up to a width.\<close>

fun filled :: "fill \<Rightarrow> u32 list \<Rightarrow> u32 list \<Rightarrow> u32 list" where
  "filled Natural sg ds = sg @ ds"
| "filled (Zeros w) sg ds = sg @ replicate (w - length (sg @ ds)) 48 @ ds"
| "filled (Spaces w) sg ds = replicate (w - length (sg @ ds)) 32 @ sg @ ds"
| "filled (After w) sg ds = sg @ ds @ replicate (w - length (sg @ ds)) 32"

abbreviation kdec_text :: "nat \<Rightarrow> u32 list" where
  "kdec_text n \<equiv> map dec_digit (num_str 10 n)"

abbreviation hex8_text :: "nat \<Rightarrow> u32 list" where
  "hex8_text n \<equiv> filled (Zeros 8) [] (map hex_digit (num_str 16 n))"

fun text_of :: "fmt_part \<Rightarrow> u32 list" where
  "text_of (Plain c) = [ucast c]"
| "text_of Percent = [37]"
| "text_of (Dec long f d) = filled f (if sint d < 0 then [45] else []) (kdec_text (nat \<bar>sint d\<bar>))"
| "text_of (Uns f u) = filled f [] (kdec_text (unat u))"
| "text_of (Hex8 x) = hex8_text (unat x)"
| "text_of (Ptr x) = [48, 120] @ hex8_text (unat x)"
| "text_of (Str cs) = map ucast cs"
| "text_of (StrAfter w cs) = filled (After w) [] (map ucast cs)"
| "text_of (Chr c) = [c]"

text \<open>Padding in front stops at ten characters, and a sign in front of spaces is left out.\<close>

fun fill_ok :: "bool \<Rightarrow> fill \<Rightarrow> bool" where
  "fill_ok neg Natural \<longleftrightarrow> True"
| "fill_ok neg (Zeros w) \<longleftrightarrow> 0 < w \<and> w \<le> 10"
| "fill_ok neg (Spaces w) \<longleftrightarrow> 0 < w \<and> w \<le> 10 \<and> \<not> neg"
| "fill_ok neg (After w) \<longleftrightarrow> 0 < w \<and> w < 2 ^ 31"

fun part_ok :: "fmt_part \<Rightarrow> bool" where
  "part_ok (Plain c) \<longleftrightarrow> c \<noteq> 37"
| "part_ok (Dec long f d) \<longleftrightarrow> fill_ok (sint d < 0) f"
| "part_ok (Uns f u) \<longleftrightarrow> fill_ok False f"
| "part_ok (StrAfter w cs) \<longleftrightarrow> 0 < w \<and> w < 2 ^ 31 \<and> length cs < 2 ^ 31"
| "part_ok _ \<longleftrightarrow> True"


text \<open>Reading the digits of a width.\<close>

lemma digit_byte_bounds:
  assumes "d < 10"
  shows "48 \<le> digit_byte d" and "digit_byte d \<le> 57" and "uint (digit_byte d) = int d + 48" and "digit_byte d = 48 \<longleftrightarrow> d = 0"
    and "digit_byte d \<noteq> 45"
proof -
  have u: "unat (digit_byte d) = d + 48" unfolding digit_byte_def using assms by (subst unat_of_nat) simp
  then show "48 \<le> digit_byte d" "digit_byte d \<le> 57" using assms by (simp_all add: word_le_nat_alt)
  have "uint (digit_byte d) = int (unat (digit_byte d))" by simp
  then show "uint (digit_byte d) = int d + 48" using u by (simp only: of_nat_add of_nat_numeral)
  show "digit_byte d = 48 \<longleftrightarrow> d = 0" "digit_byte d \<noteq> 45" using u by (auto simp: word_unat_eq_iff)
qed

lemma loop_digit:
  assumes "d < 10" and "0 \<le> m \<or> d \<noteq> 0"
  shows "vprintk_loop out (digit_byte d # fmt) (Some (padding, m, l)) ap s
    = vprintk_loop out fmt (Some (if padding = PAD_NONE then PAD_SPACE_BEFORE else padding,
        if m < 0 then int d else s32 (10 * m + int d), l)) ap s"
proof -
  note D = digit_byte_bounds [OF assms(1)]
  have "\<not> (digit_byte d = 48 \<and> m < 0 \<and> padding = PAD_NONE)" using D(4) assms(2) by auto
  then show ?thesis using D(1-3,5) by (auto simp: next_width_def Let_def)
qed

lemma loop_width:
  assumes "0 < w" and "w < 2 ^ 31"
  shows "vprintk_loop out (width_fmt w @ fmt) (Some (padding, - 1, l)) ap s
    = vprintk_loop out fmt (Some (if padding = PAD_NONE then PAD_SPACE_BEFORE else padding, int w, l)) ap s"
  using assms
proof (induction w arbitrary: fmt rule: less_induct)
  case (less w)
  show ?case
  proof (cases "w < 10")
    case True
    then have "width_fmt w = [digit_byte w]" by (simp add: width_fmt_def num_str.simps [of 10 w])
    then show ?thesis using loop_digit [of w "- 1" out fmt padding l ap s] True less.prems by simp
  next
    case False
    have e: "width_fmt w = width_fmt (w div 10) @ [digit_byte (w mod 10)]" using False by (simp add: width_fmt_def num_str.simps [of 10 w])
    have "10 * (w div 10) + w mod 10 = w" by simp
    then have "10 * int (w div 10) + int (w mod 10) = int w" by (metis of_nat_add of_nat_mult of_nat_numeral)
    moreover have "s32 (int w) = int w" using less.prems(2) by (simp add: s32_def signed_take_bit_int_eq_self)
    ultimately have "vprintk_loop out (digit_byte (w mod 10) # fmt) (Some (q, int (w div 10), l)) ap s
        = vprintk_loop out fmt (Some (if q = PAD_NONE then PAD_SPACE_BEFORE else q, int w, l)) ap s" for q
      using loop_digit [of "w mod 10" "int (w div 10)" out fmt q l ap s] by simp
    then show ?thesis
      using less.IH [of "w div 10" "digit_byte (w mod 10) # fmt"] False less.prems unfolding e
      by (simp add: div_greater_zero_iff)
  qed
qed

fun fill_spec :: "fill \<Rightarrow> pad_type \<times> int" where
  "fill_spec Natural = (PAD_NONE, - 1)"
| "fill_spec (Zeros w) = (PAD_ZERO_BEFORE, int w)"
| "fill_spec (Spaces w) = (PAD_SPACE_BEFORE, int w)"
| "fill_spec (After w) = (PAD_SPACE_AFTER, int w)"

lemma loop_fill:
  assumes "fill_ok sg f"
  shows "vprintk_loop out (fill_fmt f @ fmt) (Some (PAD_NONE, - 1, 0)) ap s
    = vprintk_loop out fmt (Some (fst (fill_spec f), snd (fill_spec f), 0)) ap s"
  using assms by (cases f) (simp_all add: loop_width)

lemma num_str_ne: "Suc 0 \<le> length (num_str b n)"
  by (subst num_str.simps) simp

lemma dec_filled:
  assumes "fill_ok False f" and "fill_spec f = (padding, w)"
  shows "printk_dec_ulong out u padding w s = fold out (filled f [] (kdec_text (unat u))) s"
  using assms num_str_ne [of 10 "unat u"] by (cases f) (auto simp: printk_dec_text dec_chars_def Let_def max_def min_def)

lemma dec_filled_neg:
  assumes "fill_ok True f" and "fill_spec f = (padding, w)"
  shows "printk_dec_ulong out u padding (s32 (w - 1)) (out 45 s) = fold out (filled f [45] (kdec_text (unat u))) s"
proof -
  have "s32 (w - 1) = w - 1" using assms by (cases f) (auto simp: s32_def signed_take_bit_int_eq_self)
  then show ?thesis using assms num_str_ne [of 10 "unat u"]
    by (cases f) (auto simp: printk_dec_text dec_chars_def Let_def max_def min_def nat_diff_distrib)
qed

lemma abs_word:
  fixes d :: u32
  shows "sint d < 0 \<Longrightarrow> unat (- d) = nat \<bar>sint d\<bar>" and "\<not> sint d < 0 \<Longrightarrow> unat d = nat \<bar>sint d\<bar>"
    and "sint d \<le> 2147483647" and "- 2147483648 \<le> sint d"
proof -
  show r: "sint d \<le> 2147483647" "- 2147483648 \<le> sint d" using sint_lt [of d] sint_ge [of d] by simp_all
  have w: "word_of_int (sint d) = d" by simp
  have u: "unat (word_of_int x :: u32) = nat x" if "0 \<le> x" "x < 2 ^ 32" for x
    using that by (simp only: unat_eq_nat_uint uint_word_of_int) simp
  show "unat (- d) = nat \<bar>sint d\<bar>" if "sint d < 0" using that r u [of "- sint d"] w by simp
  show "unat d = nat \<bar>sint d\<bar>" if "\<not> sint d < 0" using that r u [of "sint d"] w by simp
qed

lemma conv_d_filled:
  assumes "fill_ok (sint d < 0) f" and "fill_spec f = (padding, w)" and "l < 2"
  shows "conv_d out l padding w (AWord d # ap) s = Inr (ap, fold out (text_of (Dec long f d)) s)"
proof -
  have l: "l = 0 \<or> l = 1" using assms(3) by auto
  have r: "\<not> (sint d > 2147483647 \<or> sint d < - 2147483648)" using abs_word(3,4) [of d] by simp
  show ?thesis
  proof (cases "sint d < 0")
    case True
    then show ?thesis using dec_filled_neg [of f padding w out "- d" s] assms l r
      by (auto simp: conv_d_def Let_def word_sless_alt abs_word(1))
  next
    case False
    then show ?thesis using dec_filled [of f padding w out d s] assms l r
      by (auto simp: conv_d_def Let_def word_sless_alt abs_word(2))
  qed
qed

lemma unat_ucast_64: "unat (ucast x :: u64) = unat x" for x :: u32
  using unat_u32_less [of x] by (simp add: unsigned_ucast_eq take_bit_nat_eq_self del: unat_u32_less)

lemma item_prints:
  assumes "part_ok i"
  shows "vprintk_loop out (fmt_of i @ fmt) None (args_of i @ ap) s = vprintk_loop out fmt None ap (fold out (text_of i) s)"
proof (cases i)
  case (Dec long f d)
  then have ok: "fill_ok (sint d < 0) f" using assms by simp
  obtain padding w where w: "fill_spec f = (padding, w)" by fastforce
  note C = conv_d_filled [OF ok w, of "if long then 1 else 0" out ap s long]
  show ?thesis using C loop_fill [OF ok, of out] w Dec by (cases long) (simp_all del: text_of.simps)
next
  case (Uns f u)
  then have ok: "fill_ok False f" using assms by simp
  obtain padding w where w: "fill_spec f = (padding, w)" by fastforce
  show ?thesis using dec_filled [OF ok w, of out] loop_fill [OF ok, of out] w Uns by (simp add: conv_u_def Let_def)
next
  case (StrAfter w cs)
  then have "s32 (int w - int (length cs)) = int w - int (length cs)" using assms by (simp add: s32_def signed_take_bit_int_eq_self)
  moreover have "nat (int w - int (length cs)) = w - length cs" by simp
  ultimately show ?thesis using StrAfter assms loop_width [of w out "115 # fmt" PAD_SPACE_AFTER 0 "AStr cs # ap" s]
    by (simp add: conv_s_def Let_def spaces_fold fold_map comp_def)
qed (use assms in \<open>simp_all add: conv_x_def conv_s_def conv_c_def next_width_def printk_hex_text hex_chars_def Let_def fold_map comp_def unat_ucast_64\<close>)

lemma items_print:
  assumes "\<forall>i\<in>set items. part_ok i"
  shows "vprintk_loop out (concat (map fmt_of items)) None (concat (map args_of items) @ ap) s
    = Inr (fold out (concat (map text_of items)) s)"
  using assms
proof (induction items arbitrary: s)
  case (Cons i items)
  then show ?case using item_prints [of i out "concat (map fmt_of items)" "concat (map args_of items) @ ap" s] by simp
qed simp


section \<open>Output to a buffer\<close>

lemma str_out_fold:
  assumes "0 < M"
  shows "fold str_out cs \<lparr>sc_str = Some b, sc_max = int M, sc_count = n\<rparr>
    = \<lparr>sc_str = Some (\<lambda>i. if n \<le> i \<and> i < n + length cs \<and> i < M - 1 then ucast (cs ! (i - n))
         else if i = M - 1 \<and> n \<le> i \<and> i < n + length cs then 0 else b i), sc_max = int M, sc_count = n + length cs\<rparr>"
proof (induction cs arbitrary: b n)
  case (Cons c cs)
  let ?b = "if n \<ge> M then b else if n = M - 1 then b(n := 0) else b(n := ucast c)"
  have "str_out c \<lparr>sc_str = Some b, sc_max = int M, sc_count = n\<rparr> = \<lparr>sc_str = Some ?b, sc_max = int M, sc_count = Suc n\<rparr>"
    using assms by (auto simp: str_out_def of_nat_diff)
  moreover have "(if Suc n \<le> i \<and> i < Suc n + length cs \<and> i < M - 1 then ucast (cs ! (i - Suc n))
      else if i = M - 1 \<and> Suc n \<le> i \<and> i < Suc n + length cs then 0 else ?b i)
    = (if n \<le> i \<and> i < n + length (c # cs) \<and> i < M - 1 then ucast ((c # cs) ! (i - n))
       else if i = M - 1 \<and> n \<le> i \<and> i < n + length (c # cs) then 0 else b i)" for i
    using assms by (cases "i = n") (auto simp: nth_Cons')
  ultimately show ?case by (simp only: fold_simps(2) comp_apply Cons.IH) simp
qed (auto simp: fun_eq_iff)

text \<open>
  C37. \<^verbatim>\<open>vsnprintk\<close> writes only within the \<open>sz\<close> bytes of the buffer: the text as far as it fits before a final NUL. It returns the length of the
  whole text.\<close>

theorem vsnprintk_bounded:
  assumes "vprintk_text fmt ap = Inr cs" and "0 < sz" and "unat sz < 2147483648"
  shows "vsnprintk (Some b) sz fmt ap = Inr (length cs,
    Some (\<lambda>i. if i < min (length cs) (unat sz - 1) then ucast (cs ! i) else if i = min (length cs) (unat sz - 1) then 0 else b i))"
proof -
  define M where "M = unat sz"
  have m: "sint sz = int M" "0 < M" unfolding M_def using sint_small [OF assms(3)] assms(2) by (simp_all add: unat_gt_0)
  have f: "fold str_out cs \<lparr>sc_str = Some b, sc_max = int M, sc_count = 0\<rparr>
    = \<lparr>sc_str = Some (\<lambda>i. if i < length cs \<and> i < M - 1 then ucast (cs ! i) else if i = M - 1 \<and> i < length cs then 0 else b i),
       sc_max = int M, sc_count = length cs\<rparr>"
    using str_out_fold [OF m(2), of cs b 0] by (simp only: diff_zero add_0 zero_le simp_thms le0)
  show ?thesis
  proof (cases "length cs < M")
    case True
    then have "\<not> Suc 0 < M \<longrightarrow> cs = []" by (cases cs) auto
    then show ?thesis using True m(2) by (auto simp: vsnprintk_def z_vprintk_text assms(1) m(1) f M_def [symmetric] fun_eq_iff)
  next
    case False
    then show ?thesis using m(2) by (auto simp: vsnprintk_def z_vprintk_text assms(1) m(1) f M_def [symmetric] fun_eq_iff)
  qed
qed


lemma fold_snoc [simp]: "fold snoc cs xs = xs @ cs"
  by (induction cs arbitrary: xs) (simp_all add: snoc_def)

lemma snoc_funpow [simp]: "(snoc c ^^ n) xs = xs @ replicate n c"
  by (induction n arbitrary: xs) (simp_all add: snoc_def replicate_append_same)

lemma replicate_num: "replicate (numeral v) x = x # replicate (pred_numeral v) x"
  by (simp add: numeral_eq_Suc)

lemmas text_eval = replicate_num vprintk_text_def z_vprintk_def conv_d_def conv_u_def conv_x_def conv_s_def conv_c_def print_err_def next_width_def
  printk_dec_text printk_hex_text dec_chars_def hex_chars_def dec_digit_def hex_digit_def num_str.simps snoc_def s32_def Let_def word_sless_alt

lemma demo_text: "vprintk_text [37, 48, 53, 100, 33] [AWord (- 42)] = Inr [45, 48, 48, 52, 50, 33]"
  by (simp add: text_eval)

theorem vsnprintk_bounded_witness:
  "vsnprintk (Some (\<lambda>_. 7)) 4 [37, 48, 53, 100, 33] [AWord (- 42)] = Inr (6, Some ((\<lambda>_. 7)(0 := 45, 1 := 48, 2 := 48, 3 := 0)))"
  using vsnprintk_bounded [OF demo_text, of 4 "\<lambda>_. 7"] by (simp add: fun_eq_iff nth_Cons')

text \<open>
  Where \<^verbatim>\<open>printk\<close> departs from its documentation and from C: hexadecimal numbers are printed without leading zeros and in lower case for \<^verbatim>\<open>%X\<close> too, \<^verbatim>\<open>%-4x\<close> pads to eight
  characters, \<^verbatim>\<open>%llu\<close> of 3000000000 prints \<^verbatim>\<open>ERR\<close>, \<^verbatim>\<open>%5d\<close> of -42 prints spaces between sign and digits, \<^verbatim>\<open>%12d\<close> pads to ten
  characters, and \<^verbatim>\<open>%4s\<close> does not pad.\<close>

theorem printk_deviations:
  "vprintk_text [37, 88] [AWord 171] = Inr [97, 98]
    \<and> vprintk_text [37, 45, 52, 120] [AWord 171] = Inr [97, 98, 32, 32, 32, 32, 32, 32]
    \<and> vprintk_text [37, 108, 108, 117] [ADword 3000000000] = Inr [69, 82, 82]
    \<and> vprintk_text [37, 53, 100] [AWord (- 42)] = Inr [45, 32, 32, 52, 50]
    \<and> vprintk_text [37, 49, 50, 100] [AWord 42] = Inr [32, 32, 32, 32, 32, 32, 32, 32, 52, 50]
    \<and> vprintk_text [37, 52, 115] [AStr [97]] = Inr [97]"
  by (simp add: text_eval)

text \<open>A call with no buffer but a size writes through the null pointer once its text is shorter than the size.\<close>

theorem vsnprintk_null: "vsnprintk None 8 [97] [] = Inl Null_write \<and> vsnprintk None 0 [97] [] = Inr (1, None)"
  by (simp add: vsnprintk_def z_vprintk_def str_out_def)

theorem printk_numbers_witness:
  "printk_dec_ulong snoc 42 PAD_ZERO_BEFORE 5 [] = [48, 48, 48, 52, 50] \<and> hd (num_str 10 (unat (42 :: u32))) \<noteq> 0"
  using printk_numbers [of snoc 42 PAD_ZERO_BEFORE 5 "[]"] by (simp add: text_eval)


end
