(* ===== verification/KDevice.thy ===== *)
theory KDevice
  imports KThread KPrintk
begin

text \<open>
  The devices of the SoC and their start: \<^verbatim>\<open>kernel/device.c\<close>, the interrupt controls of
  \<^verbatim>\<open>soc_common_irq.c\<close>, \<^verbatim>\<open>common/idle.c\<close> and \<^verbatim>\<open>arch/riscv32/arch.h\<close>, the start of the tag checks
  (\<^verbatim>\<open>mte_init.c\<close>) and of the timer's clock (\<^verbatim>\<open>beehive_clock.c\<close>), the UART driver
  \<^verbatim>\<open>uart_beehive.c\<close>, and the console \<^verbatim>\<open>uart_console.c\<close> that \<^verbatim>\<open>printk\<close> writes to.

  The state is the kernel's with the control registers, the bytes stored to the UART's data register in
  order, the \<^verbatim>\<open>driver_api\<close> of every device (0 is NULL, 1 the table of the UART driver) and the hooks that the
  console installs. \<open>bus_fault\<close> records a call through a device that is NULL or has no UART driver.
\<close>

datatype char_hook = Hook_arch | Hook_console

record soc = thkernel +
  irq_stack :: u32
  timeout_q :: "toid list"
  hw_mstatus :: u32
  hw_mie :: u32
  hw_mip :: u32
  hw_tags :: u32
  hw_mtimectrl :: "u32 \<times> u32"
  uart_tx :: "u8 list"
  drv_api :: "nat \<Rightarrow> nat"
  console_dev :: "nat option"
  printk_hook :: char_hook
  stdout_hook :: char_hook
  bus_fault :: bool

section \<open>Interrupt controls\<close>

definition SOC_MSTATUS_IEN :: u32 where "SOC_MSTATUS_IEN = 8"
definition RISCV_MACHINE_TIMER_IRQ :: nat where "RISCV_MACHINE_TIMER_IRQ = 7"
definition RISCV_BEEHIVE_SECURE_MONITOR_PANIC_IRQ :: nat where "RISCV_BEEHIVE_SECURE_MONITOR_PANIC_IRQ = 16"

definition z_arch_irq_lock :: "soc \<Rightarrow> u32 \<times> soc" where
  "z_arch_irq_lock k =
     (hw_mstatus k AND SOC_MSTATUS_IEN, k\<lparr>hw_mstatus := hw_mstatus k AND NOT SOC_MSTATUS_IEN\<rparr>)"

definition z_arch_irq_unlock :: "u32 \<Rightarrow> soc \<Rightarrow> soc" where
  "z_arch_irq_unlock key k = k\<lparr>hw_mstatus := hw_mstatus k OR (key AND SOC_MSTATUS_IEN)\<rparr>"

definition z_arch_irq_enable :: "nat \<Rightarrow> soc \<Rightarrow> soc" where
  "z_arch_irq_enable irq k = k\<lparr>hw_mie := hw_mie k OR push_bit irq 1\<rparr>"

definition z_arch_irq_disable :: "nat \<Rightarrow> soc \<Rightarrow> soc" where
  "z_arch_irq_disable irq k = k\<lparr>hw_mie := hw_mie k AND NOT (push_bit irq 1)\<rparr>"

definition z_arch_irq_is_enabled :: "nat \<Rightarrow> soc \<Rightarrow> bool" where
  "z_arch_irq_is_enabled irq k \<longleftrightarrow> hw_mie k AND push_bit irq 1 \<noteq> 0"

definition soc_interrupt_init :: "soc \<Rightarrow> soc" where
  "soc_interrupt_init k = (snd (z_arch_irq_lock k))\<lparr>hw_mie := 0, hw_mip := 0\<rparr>"

text \<open>The \<^verbatim>\<open>wfi\<close> at the end of \<^verbatim>\<open>riscv_idle\<close> changes no state that software sees.\<close>

definition riscv_idle :: "u32 \<Rightarrow> soc \<Rightarrow> soc" where
  "riscv_idle key k = z_arch_irq_unlock key k"

definition k_cpu_idle :: "soc \<Rightarrow> soc" where
  "k_cpu_idle k = riscv_idle SOC_MSTATUS_IEN k"

definition k_cpu_atomic_idle :: "u32 \<Rightarrow> soc \<Rightarrow> soc" where
  "k_cpu_atomic_idle key k = riscv_idle key k"

section \<open>UART and console\<close>

definition UART_BEEHIVE_API :: nat where "UART_BEEHIVE_API = 1"

definition uart_beehive_poll_out :: "u8 \<Rightarrow> soc \<Rightarrow> soc" where
  "uart_beehive_poll_out c k = k\<lparr>uart_tx := uart_tx k @ [c]\<rparr>"

definition uart_beehive_poll_in :: "u8 \<Rightarrow> soc \<Rightarrow> int \<times> u8 \<times> soc" where
  "uart_beehive_poll_in c k = (0, c, k)"

definition uart_beehive_init :: "soc \<Rightarrow> int \<times> soc" where
  "uart_beehive_init k = (0, k)"

definition uart_poll_out :: "nat option \<Rightarrow> u8 \<Rightarrow> soc \<Rightarrow> soc" where
  "uart_poll_out dev c k =
     (case dev of None \<Rightarrow> k\<lparr>bus_fault := True\<rparr>
      | Some i \<Rightarrow> if drv_api k i = UART_BEEHIVE_API then uart_beehive_poll_out c k else k\<lparr>bus_fault := True\<rparr>)"

definition console_out :: "u32 \<Rightarrow> soc \<Rightarrow> soc" where
  "console_out c k =
     (let k = (if c = 10 then uart_poll_out (console_dev k) 13 k else k)
      in uart_poll_out (console_dev k) (ucast c) k)"

text \<open>The function that \<^verbatim>\<open>_char_out\<close> of \<^verbatim>\<open>printk.c\<close> points to.\<close>

definition printk_char :: "u32 \<Rightarrow> soc \<Rightarrow> soc" where
  "printk_char c k = (case printk_hook k of Hook_arch \<Rightarrow> z_arch_printk_char_out c k | Hook_console \<Rightarrow> console_out c k)"

definition printk_hook_install :: "char_hook \<Rightarrow> soc \<Rightarrow> soc" where
  "printk_hook_install fn k = k\<lparr>printk_hook := fn\<rparr>"

definition stdout_hook_install :: "char_hook \<Rightarrow> soc \<Rightarrow> soc" where
  "stdout_hook_install fn k = k\<lparr>stdout_hook := fn\<rparr>"

definition uart_console_hook_install :: "soc \<Rightarrow> soc" where
  "uart_console_hook_install k = printk_hook_install Hook_console (stdout_hook_install Hook_console k)"

section \<open>Devices\<close>

text \<open>
  A device has its name, by the address of the string, and its init routine. The routines of the SoC are below;
  those of other devices are parameters, by number. \<open>cstr\<close> gives the string at an address.
\<close>

datatype dev_init = Init_mte | Init_clock | Init_uart | Init_console | Init_sys_clock | Init_other nat

record device =
  dv_name :: nat
  dv_init :: dev_init

definition device_get_binding :: "(nat \<Rightarrow> string) \<Rightarrow> device list \<Rightarrow> nat \<Rightarrow> soc \<Rightarrow> nat option" where
  "device_get_binding cstr devs name k =
     (case find (\<lambda>i. drv_api k i \<noteq> 0 \<and> dv_name (devs ! i) = name) [0..<length devs] of Some i \<Rightarrow> Some i
      | None \<Rightarrow> find (\<lambda>i. drv_api k i \<noteq> 0 \<and> cstr name = cstr (dv_name (devs ! i))) [0..<length devs])"

definition beehive_mte_init :: "soc \<Rightarrow> int \<times> soc" where
  "beehive_mte_init k =
     (0, (z_arch_irq_enable RISCV_BEEHIVE_SECURE_MONITOR_PANIC_IRQ k)\<lparr>hw_tags := 1 OR push_bit 3 1\<rparr>)"

definition beehive_clock_init :: "soc \<Rightarrow> int \<times> soc" where
  "beehive_clock_init k = (let freq = (1 :: u64) in (0, k\<lparr>hw_mtimectrl := (ucast freq, ucast (drop_bit 32 freq))\<rparr>))"

definition uart_console_init :: "(nat \<Rightarrow> string) \<Rightarrow> device list \<Rightarrow> nat \<Rightarrow> soc \<Rightarrow> int \<times> soc" where
  "uart_console_init cstr devs con_name k =
     (0, uart_console_hook_install (k\<lparr>console_dev := device_get_binding cstr devs con_name k\<rparr>))"

text \<open>
  The image: the names of the devices, of the console's UART among them, the devices in the order of the linker script with
  the first one of every level and the end, the threads' stacks and entry functions, and the boot banner.
\<close>

record image =
  im_cstr :: "nat \<Rightarrow> string"
  im_con_name :: nat
  im_devs :: "device list"
  im_levels :: "nat list"
  im_main :: tid
  im_idle :: tid
  im_dummy :: tid
  im_main_stack :: u32
  im_main_size :: u32
  im_idle_stack :: u32
  im_idle_size :: u32
  im_isr_stack :: u32
  im_isr_size :: u32
  im_bg_thread_main :: u32
  im_idle_fn :: u32
  im_banner :: "u8 list"
  im_static :: "static_thread list"

text \<open>
  \<open>other n\<close> is the init routine of a device that is not of the SoC. The system clock's routine acts on the timer
  (\<open>KMachineTimer\<close>); here it enables the timer's interrupt.
\<close>

definition device_init :: "(nat \<Rightarrow> soc \<Rightarrow> int \<times> soc) \<Rightarrow> image \<Rightarrow> nat \<Rightarrow> soc \<Rightarrow> int \<times> soc" where
  "device_init other im i k =
     (case dv_init (im_devs im ! i) of
        Init_mte \<Rightarrow> beehive_mte_init k
      | Init_clock \<Rightarrow> beehive_clock_init k
      | Init_uart \<Rightarrow> uart_beehive_init k
      | Init_console \<Rightarrow> uart_console_init (im_cstr im) (im_devs im) (im_con_name im) k
      | Init_sys_clock \<Rightarrow> (0, z_arch_irq_enable RISCV_MACHINE_TIMER_IRQ k)
      | Init_other n \<Rightarrow> other n k)"

definition config_device :: "(nat \<Rightarrow> soc \<Rightarrow> int \<times> soc) \<Rightarrow> image \<Rightarrow> nat \<Rightarrow> soc \<Rightarrow> soc" where
  "config_device other im i k =
     (case device_init other im i k of (retval, k) \<Rightarrow>
        if retval \<noteq> 0 then k\<lparr>drv_api := (drv_api k)(i := 0)\<rparr> else k)"

definition z_sys_device_do_config_level :: "(nat \<Rightarrow> soc \<Rightarrow> int \<times> soc) \<Rightarrow> image \<Rightarrow> nat \<Rightarrow> soc \<Rightarrow> soc" where
  "z_sys_device_do_config_level other im level k =
     fold (config_device other im) [im_levels im ! level ..< im_levels im ! (level + 1)] k"

section \<open>Enabled interrupts\<close>

lemma irq_is_enabled: "z_arch_irq_is_enabled irq k \<longleftrightarrow> bit (hw_mie k) irq"
  by (simp add: z_arch_irq_is_enabled_def and_exp_eq_0_iff_not_bit)

lemma irq_enable_iff: "irq < 32 \<Longrightarrow> z_arch_irq_is_enabled i (z_arch_irq_enable irq k) \<longleftrightarrow> i = irq \<or> z_arch_irq_is_enabled i k"
  by (auto simp: irq_is_enabled z_arch_irq_enable_def bit_or_iff bit_exp_iff)

lemma irq_disable_iff: "z_arch_irq_is_enabled i (z_arch_irq_disable irq k) \<longleftrightarrow> i \<noteq> irq \<and> z_arch_irq_is_enabled i k"
  by (auto simp: irq_is_enabled z_arch_irq_disable_def bit_and_iff bit_not_iff bit_exp_iff dest: bit_imp_le_length)

lemma irq_lock_unlock: "hw_mstatus (z_arch_irq_unlock (fst (z_arch_irq_lock k)) (snd (z_arch_irq_lock k))) = hw_mstatus k"
  by (rule bit_eqI) (auto simp: z_arch_irq_lock_def z_arch_irq_unlock_def bit_or_iff bit_and_iff bit_not_iff impossible_bit)

section \<open>Finding a device\<close>

lemma find_upt:
  "find P [0..<n] = Some i \<Longrightarrow> i < n \<and> P i" "find P [0..<n] = None \<Longrightarrow> \<forall>i<n. \<not> P i"
  by (auto simp: find_Some_iff find_None_iff)

text \<open>
  A lookup by name finds a device exactly when the driver of a device of that name has been set up, whether the
  caller passes the very string of the device or an equal one; what it finds has that name and a driver.\<close>

lemma device_binding:
  "(case device_get_binding cstr devs name k of
      Some i \<Rightarrow> i < length devs \<and> drv_api k i \<noteq> 0 \<and> cstr (dv_name (devs ! i)) = cstr name
    | None \<Rightarrow> \<forall>i<length devs. cstr (dv_name (devs ! i)) = cstr name \<longrightarrow> drv_api k i = 0)"
  by (auto simp: device_get_binding_def split: option.split dest!: find_upt)

section \<open>What is printed\<close>

text \<open>A line feed goes out as carriage return and line feed.\<close>

definition crlf :: "u32 list \<Rightarrow> u8 list" where
  "crlf cs = concat (map (\<lambda>c. if c = 10 then [13, 10] else [ucast c]) cs)"

definition console_ready :: "soc \<Rightarrow> bool" where
  "console_ready k \<longleftrightarrow> printk_hook k = Hook_console \<and> (\<exists>i. console_dev k = Some i \<and> drv_api k i = UART_BEEHIVE_API)"

lemma console_out_ready:
  assumes "console_ready k"
  shows "printk_char c k = k\<lparr>uart_tx := uart_tx k @ crlf [c]\<rparr>"
  using assms by (auto simp: console_ready_def printk_char_def console_out_def uart_poll_out_def uart_beehive_poll_out_def crlf_def)

lemma console_ready_tx [simp]: "console_ready (k\<lparr>uart_tx := b\<rparr>) = console_ready k"
  by (simp add: console_ready_def)

lemma console_out_fold: "console_ready k \<Longrightarrow> fold printk_char cs k = k\<lparr>uart_tx := uart_tx k @ crlf cs\<rparr>"
proof (induction cs arbitrary: k)
  case (Cons c cs)
  then show ?case by (simp add: console_out_ready Cons.IH crlf_def)
qed (simp add: crlf_def)

lemma printk_console:
  assumes "console_ready k"
  shows "printk printk_char fmt ap k = map_sum id (\<lambda>cs. k\<lparr>uart_tx := uart_tx k @ crlf cs\<rparr>) (vprintk_text fmt ap)"
  by (cases "vprintk_text fmt ap") (simp_all add: printk_def vprintk_def z_vprintk_text char_out_fold console_out_fold [OF assms])

lemma vprintk_loop_plain: "37 \<notin> set fmt \<Longrightarrow> vprintk_loop out fmt None ap s = Inr (fold out (map ucast fmt) s)"
  by (induction fmt arbitrary: s) simp_all

lemma printk_plain: "37 \<notin> set fmt \<Longrightarrow> vprintk_text fmt ap = Inr (map ucast fmt)"
  by (simp add: vprintk_text_def z_vprintk_def vprintk_loop_plain fold_snoc)

section \<open>What a level keeps\<close>

lemma fold_keeps:
  assumes "R k" and "set is \<subseteq> J" and "\<And>j k. j \<in> J \<Longrightarrow> R k \<Longrightarrow> R (f j k)"
  shows "R (fold f is k)"
  using assms(1,2)
proof (induction "is" arbitrary: k)
  case (Cons j "is")
  then show ?case using assms(3) [of j k] by simp
qed simp

definition level_devs :: "image \<Rightarrow> nat \<Rightarrow> nat set" where
  "level_devs im level = {im_levels im ! level ..< im_levels im ! (level + 1)}"

lemma level_keeps:
  assumes "P k" and "\<And>i k. i \<in> level_devs im level \<Longrightarrow> P k \<Longrightarrow> P (config_device other im i k)"
  shows "P (z_sys_device_do_config_level other im level k)"
  unfolding z_sys_device_do_config_level_def
  by (rule fold_keeps [where J = "level_devs im level" and R = P]) (use assms in \<open>auto simp: level_devs_def\<close>)

lemma level_reaches:
  assumes i: "i \<in> level_devs im level" and "P k"
    and P: "\<And>j k. j \<in> level_devs im level \<Longrightarrow> P k \<Longrightarrow> P (config_device other im j k)"
    and Q: "\<And>j k. j \<in> level_devs im level \<Longrightarrow> Q k \<Longrightarrow> Q (config_device other im j k)"
    and PQ: "\<And>k. P k \<Longrightarrow> Q (config_device other im i k)"
  shows "Q (z_sys_device_do_config_level other im level k)"
proof -
  let ?lo = "im_levels im ! level" and ?hi = "im_levels im ! (level + 1)" and ?f = "config_device other im"
  have b: "?lo \<le> i" "i < ?hi" using i by (simp_all add: level_devs_def)
  have "P (fold ?f [?lo..<i] k)"
    using b by (intro fold_keeps [where J = "level_devs im level" and R = P] assms(2) P) (auto simp: level_devs_def)
  then have "Q (?f i (fold ?f [?lo..<i] k))" by (rule PQ)
  then have "Q (fold ?f [Suc i..<?hi] (?f i (fold ?f [?lo..<i] k)))"
    by (rule fold_keeps [where J = "level_devs im level" and R = Q]) (use b in \<open>auto simp: level_devs_def intro: Q [unfolded level_devs_def]\<close>)
  moreover have "[?lo..<?hi] = [?lo..<i] @ i # [Suc i..<?hi]"
    using b upt_add_eq_append [OF b(1), of "?hi - i"] by (simp add: upt_conv_Cons)
  ultimately show ?thesis by (simp add: z_sys_device_do_config_level_def)
qed

end
