(* ===== verification/KBoot.thy ===== *)
theory KBoot
  imports KDevice KSystem KMachineTimer
begin

text \<open>
  The start of the kernel and the idle thread: \<^verbatim>\<open>kernel/init.c\<close>, \<^verbatim>\<open>kernel/idle.c\<close>, \<^verbatim>\<open>_PrepC\<close> of
  \<^verbatim>\<open>arch/riscv32/core/prep_c.c\<close> and \<^verbatim>\<open>z_thread_entry\<close>. The configuration is that of the SoC: no logging, no stack
  canaries, no boot delay, no power management, the boot banner printed. What \<^verbatim>\<open>z_bss_zero\<close> and \<^verbatim>\<open>z_data_copy\<close> leave in
  memory is the state that \<^verbatim>\<open>_PrepC\<close> starts from (\<open>loaded\<close>). The kernel that has started is a state that
  \<open>KSystem\<close> calls booted, so its theorems hold of every run of the program from the reset on.
\<close>

section \<open>Threads of the kernel\<close>

definition CONFIG_MAIN_THREAD_PRIORITY :: int where "CONFIG_MAIN_THREAD_PRIORITY = 0"
definition K_LOWEST_THREAD_PRIO :: int where "K_LOWEST_THREAD_PRIO = 15"
definition IDLE_THRESH :: int where "IDLE_THRESH = 3"

definition z_mark_thread_as_started :: "tid \<Rightarrow> 'a kernel_scheme \<Rightarrow> 'a kernel_scheme" where
  "z_mark_thread_as_started t k = z_reset_thread_states t {F_PRESTART} k"

definition init_idle_thread :: "image \<Rightarrow> tid \<Rightarrow> u32 \<Rightarrow> soc \<Rightarrow> soc" where
  "init_idle_thread im thr stack k =
     z_mark_thread_as_started thr
       (z_setup_new_thread thr stack (im_idle_size im) (im_idle_fn im) 0 0 0 K_LOWEST_THREAD_PRIO (ucast K_ESSENTIAL) k)"

text \<open>\<open>timeout_q\<close> is the list of \<^verbatim>\<open>struct z_kernel\<close>; the timeouts are in the list of \<^verbatim>\<open>timeout.c\<close>.\<close>

definition initialize_timeouts :: "soc \<Rightarrow> soc" where
  "initialize_timeouts k = k\<lparr>timeout_q := []\<rparr>"

definition prepare_multithreading :: "image \<Rightarrow> soc \<Rightarrow> soc" where
  "prepare_multithreading im k =
     (let k = upd_thread (im_dummy im) (\<lambda>th. th\<lparr>user_options := K_ESSENTIAL, thread_state := {F_DUMMY}\<rparr>) k;
          k = z_sched_init k;
          k = k\<lparr>ready_cache := im_main im\<rparr>;
          k = z_setup_new_thread (im_main im) (im_main_stack im) (im_main_size im) (im_bg_thread_main im) 0 0 0
                CONFIG_MAIN_THREAD_PRIORITY (ucast K_ESSENTIAL) k;
          k = z_mark_thread_as_started (im_main im) k;
          k = z_ready_thread (im_main im) k;
          k = init_idle_thread im (im_idle im) (im_idle_stack im) k;
          k = k\<lparr>idle_thread := im_idle im\<rparr>
      in initialize_timeouts k)"

definition z_swap_unlocked :: "soc \<Rightarrow> soc" where
  "z_swap_unlocked k = z_swap (snd (z_arch_irq_lock k))"

definition switch_to_main_thread :: "soc \<Rightarrow> soc" where
  "switch_to_main_thread k = z_swap_unlocked k"

definition kernel_arch_init :: "image \<Rightarrow> soc \<Rightarrow> soc" where
  "kernel_arch_init im k = k\<lparr>irq_stack := im_isr_stack im + im_isr_size im\<rparr>"

section \<open>From reset to main\<close>

definition LEVEL_PRE_KERNEL_1 :: nat where "LEVEL_PRE_KERNEL_1 = 0"
definition LEVEL_PRE_KERNEL_2 :: nat where "LEVEL_PRE_KERNEL_2 = 1"
definition LEVEL_POST_KERNEL :: nat where "LEVEL_POST_KERNEL = 2"
definition LEVEL_APPLICATION :: nat where "LEVEL_APPLICATION = 3"

definition zero_thread :: kthread where
  "zero_thread = \<lparr>user_options = 0, prio = 0, sched_locked = 0, thread_state = {}, pended_on = None, swap_retval = 0,
     swap_data = 0\<rparr>"

definition z_cstart :: "(nat \<Rightarrow> soc \<Rightarrow> int \<times> soc) \<Rightarrow> image \<Rightarrow> soc \<Rightarrow> soc" where
  "z_cstart other im k =
     (let k = kernel_arch_init im k;
          k = upd_thread (im_dummy im) (\<lambda>_. zero_thread\<lparr>thread_state := {F_DUMMY}\<rparr>) k;
          k = k\<lparr>current := im_dummy im\<rparr>;
          k = z_sys_device_do_config_level other im LEVEL_PRE_KERNEL_1 k;
          k = z_sys_device_do_config_level other im LEVEL_PRE_KERNEL_2 k;
          k = prepare_multithreading im k
      in switch_to_main_thread k)"

definition prep_c :: "(nat \<Rightarrow> soc \<Rightarrow> int \<times> soc) \<Rightarrow> image \<Rightarrow> soc \<Rightarrow> soc" where
  "prep_c other im k = z_cstart other im (soc_interrupt_init k)"

text \<open>The main thread up to the call of \<^verbatim>\<open>main\<close>, and after its return.\<close>

definition bg_thread_main :: "(nat \<Rightarrow> soc \<Rightarrow> int \<times> soc) \<Rightarrow> image \<Rightarrow> soc \<Rightarrow> pk_error + soc" where
  "bg_thread_main other im k =
     (let k = z_sys_device_do_config_level other im LEVEL_POST_KERNEL k
      in case printk printk_char (im_banner im) [] k of Inl e \<Rightarrow> Inl e
         | Inr k \<Rightarrow> Inr (z_init_static_threads (im_static im) (z_sys_device_do_config_level other im LEVEL_APPLICATION k)))"

definition main_returned :: "image \<Rightarrow> 'a kernel_scheme \<Rightarrow> 'a kernel_scheme" where
  "main_returned im k = upd_thread (im_main im) (\<lambda>th. th\<lparr>user_options := user_options th AND NOT K_ESSENTIAL\<rparr>) k"

definition thread_returned ::
  "(tid \<Rightarrow> 'a thkernel_scheme \<Rightarrow> 'a thkernel_scheme) \<Rightarrow> 'a thkernel_scheme \<Rightarrow> 'a thkernel_scheme" where
  "thread_returned fn_abort k = k_thread_abort fn_abort (current k) k"

section \<open>Idling\<close>

definition sys_power_save_idle :: "soc \<Rightarrow> soc" where
  "sys_power_save_idle k =
     (let ticks = z_get_next_timeout_expiry k;
          k = z_set_timeout_expiry (if ticks < IDLE_THRESH then 1 else ticks) True k
      in k_cpu_idle k)"

text \<open>One round of the loop of \<^verbatim>\<open>idle\<close>; the idle thread is not cooperative, so it does not yield.\<close>

definition idle_round :: "soc \<Rightarrow> soc" where
  "idle_round k = sys_power_save_idle (snd (z_arch_irq_lock k))"

section \<open>The start\<close>

text \<open>
  \<open>sched_part\<close> is what the scheduler works on. \<open>loaded\<close>: after the memory has been set up no thread waits or is
  queued and no timeout runs.
\<close>

definition sched_part :: "'a kernel_scheme \<Rightarrow> (tid \<Rightarrow> kthread) \<times> (lid \<Rightarrow> tid list) \<times> tid \<times> nat \<times> toid list" where
  "sched_part k = (threads k, qlists k, current k, nested k, timeout_list k)"

definition loaded :: "soc \<Rightarrow> bool" where
  "loaded k \<longleftrightarrow> threads k = (\<lambda>_. zero_thread) \<and> (\<forall>w. waitq k w = []) \<and> nested k = 0 \<and> timeout_list k = []"

definition image_ok :: "image \<Rightarrow> bool" where
  "image_ok im \<longleftrightarrow> distinct [im_main im, im_idle im, im_dummy im]
     \<and> STACK_ROUND_DOWN (im_main_stack im + im_main_size im - sizeof_esf)
       \<noteq> STACK_ROUND_DOWN (im_idle_stack im + im_idle_size im - sizeof_esf)"

text \<open>Drivers that start before the kernel leave the scheduler alone.\<close>

definition early_devs_ok :: "(nat \<Rightarrow> soc \<Rightarrow> int \<times> soc) \<Rightarrow> image \<Rightarrow> bool" where
  "early_devs_ok other im \<longleftrightarrow> (\<forall>i\<in>level_devs im 0 \<union> level_devs im 1. \<forall>n k.
     dv_init (im_devs im ! i) = Init_other n \<longrightarrow> sched_part (snd (other n k)) = sched_part k)"

lemmas driver_defs = config_device_def device_init_def beehive_mte_init_def beehive_clock_init_def uart_beehive_init_def
  uart_console_init_def uart_console_hook_install_def printk_hook_install_def stdout_hook_install_def z_arch_irq_enable_def

lemma early_sched_part:
  assumes "early_devs_ok other im" and "i \<in> level_devs im 0 \<union> level_devs im 1"
  shows "sched_part (config_device other im i k) = sched_part k"
proof (cases "dv_init (im_devs im ! i)")
  case (Init_other n)
  then have "sched_part (snd (other n k)) = sched_part k" using assms unfolding early_devs_ok_def by blast
  then show ?thesis using Init_other by (cases "other n k") (simp add: config_device_def device_init_def sched_part_def)
qed (simp_all add: driver_defs sched_part_def Let_def)

lemma early_levels:
  assumes "early_devs_ok other im"
  shows "sched_part (z_sys_device_do_config_level other im 0 k) = sched_part k"
    and "sched_part (z_sys_device_do_config_level other im 1 k) = sched_part k"
  using early_sched_part [OF assms]
  by (auto intro!: level_keeps [where P = "\<lambda>k'. sched_part k' = sched_part k"])


text \<open>The first thread made ready, while the dummy thread runs, is the choice of the scheduler.\<close>

lemma first_ready:
  assumes "runq k = []" and "tstate k t = {}" and "timeout_list k = []" and "F_DUMMY \<in> tstate k (current k)" and "t \<noteq> current k"
  shows "qlists (z_ready_thread t k) = (qlists k)(RunQ := [t])" and "ready_cache (z_ready_thread t k) = t"
    and "threads (z_ready_thread t k) = (threads k)(t := (threads k t)\<lparr>thread_state := {F_QUEUED}\<rparr>)"
proof -
  have r: "z_is_thread_ready k t" using assms by (simp add: ready_def2)
  let ?k = "z_set_thread_states t {F_QUEUED} (z_priq_dumb_add RunQ t k)"
  have "next_up ?k = t" using assms(1)
    by (simp add: next_up_def z_priq_dumb_best_def z_priq_dumb_add_def z_set_thread_states_def)
  moreover have "z_is_thread_prevented_from_running ?k (current ?k)" using assms(4,5)
    by (auto simp: z_is_thread_prevented_from_running_def z_priq_dumb_add_def z_set_thread_states_def)
  ultimately show "ready_cache (z_ready_thread t k) = t" using r
    by (simp add: z_ready_thread_def z_add_thread_to_ready_q_def update_cache_def should_preempt_def Let_def)
qed (use assms in \<open>simp_all add: z_ready_thread_def z_add_thread_to_ready_q_def z_priq_dumb_add_def z_set_thread_states_def ready_def2\<close>)

lemma sched_init_sel:
  "threads (z_sched_init k) = threads k" "qlists (z_sched_init k) = (qlists k)(RunQ := [])"
  "current (z_sched_init k) = current k" "nested (z_sched_init k) = nested k" "timeout_list (z_sched_init k) = timeout_list k"
  by (simp_all add: z_sched_init_def k_sched_time_slice_set_def)

text \<open>The two threads of the kernel, as they are set up.\<close>

definition main_started :: "kthread \<Rightarrow> kthread" where
  "main_started th = th\<lparr>user_options := K_ESSENTIAL, thread_state := {F_QUEUED}, prio := CONFIG_MAIN_THREAD_PRIORITY, sched_locked := 0\<rparr>"

definition idle_started :: "kthread \<Rightarrow> kthread" where
  "idle_started th = th\<lparr>user_options := K_ESSENTIAL, thread_state := {}, prio := K_LOWEST_THREAD_PRIO, sched_locked := 0\<rparr>"

lemma s8_prios: "s8 CONFIG_MAIN_THREAD_PRIORITY = CONFIG_MAIN_THREAD_PRIORITY" "s8 K_LOWEST_THREAD_PRIO = K_LOWEST_THREAD_PRIO"
  by (simp_all add: s8_def CONFIG_MAIN_THREAD_PRIORITY_def K_LOWEST_THREAD_PRIO_def)

lemma essential_cast: "ucast (ucast K_ESSENTIAL :: u32) = K_ESSENTIAL"
  by (simp add: K_ESSENTIAL_def)

lemma ready_same [simp]:
  "current (z_ready_thread t k) = current k" "timeout_list (z_ready_thread t k) = timeout_list k" "nested (z_ready_thread t k) = nested k"
  by (simp_all add: z_ready_thread_def z_add_thread_to_ready_q_def z_set_thread_states_def z_priq_dumb_add_def)

lemma setup_frames:
  "frames (z_setup_new_thread t stk sz e p1 p2 p3 pr opt k) = (frames k)(unat (STACK_ROUND_DOWN (stk + sz - sizeof_esf)) :=
     \<lparr>esf_a0 = e, esf_a1 = p1, esf_a2 = p2, esf_a3 = p3, esf_mepc = entry_wrapper k, esf_mstatus = SOC_MSTATUS_DEF_RESTORE\<rparr>)"
  "x \<noteq> t \<Longrightarrow> tcbs (z_setup_new_thread t stk sz e p1 p2 p3 pr opt k) x = tcbs k x"
  "entry_wrapper (z_setup_new_thread t stk sz e p1 p2 p3 pr opt k) = entry_wrapper k"
  by (simp_all add: z_setup_new_thread_def z_new_thread_def z_new_thread_init_def z_init_thread_base_def Let_def
      upd_tcb_def upd_thread_def)

lemma ready_ext:
  "tcbs (z_ready_thread t k) = tcbs k" "frames (z_ready_thread t k) = frames k" "entry_wrapper (z_ready_thread t k) = entry_wrapper k"
  for k :: "'a thkernel_scheme"
proof -
  have "kernel.more (z_ready_thread t k) = kernel.more k" by simp
  then show "tcbs (z_ready_thread t k) = tcbs k" "frames (z_ready_thread t k) = frames k"
    "entry_wrapper (z_ready_thread t k) = entry_wrapper k" by (cases "z_ready_thread t k", cases k; simp)+
qed

text \<open>The main thread's first stack frame makes it run \<^verbatim>\<open>bg_thread_main\<close> through the common entry point.\<close>

lemma prepared_frame:
  fixes k im
  assumes im: "image_ok im"
  defines "k' \<equiv> prepare_multithreading im k"
  shows "frames k' (unat (saved_sp (tcbs k' (im_main im)))) = \<lparr>esf_a0 = im_bg_thread_main im, esf_a1 = 0, esf_a2 = 0, esf_a3 = 0,
       esf_mepc = entry_wrapper k', esf_mstatus = SOC_MSTATUS_DEF_RESTORE\<rparr>"
  using im unfolding k'_def by (simp add: prepare_multithreading_def init_idle_thread_def initialize_timeouts_def Let_def setup_frames ready_ext
      z_mark_thread_as_started_def z_reset_thread_states_def upd_thread_def image_ok_def
      word_unat_eq_iff [symmetric])

lemma prepared:
  fixes k im
  assumes im: "image_ok im" and cur: "current k = im_dummy im" and to: "timeout_list k = []" and w: "\<And>w. waitq k w = []"
  defines "k' \<equiv> prepare_multithreading im k"
  shows "qlists k' = (\<lambda>_. [])(RunQ := [im_main im])" and "ready_cache k' = im_main im" and "idle_thread k' = im_idle im"
    and "current k' = im_dummy im" and "timeout_list k' = []" and "nested k' = nested k"
    and "threads k' = (threads k)(im_dummy im := (threads k (im_dummy im))\<lparr>user_options := K_ESSENTIAL, thread_state := {F_DUMMY}\<rparr>,
       im_main im := main_started (threads k (im_main im)), im_idle im := idle_started (threads k (im_idle im)))"
proof -
  have ne: "im_main im \<noteq> im_idle im" "im_main im \<noteq> im_dummy im" "im_idle im \<noteq> im_dummy im" using im by (auto simp: image_ok_def)
  define k1 where "k1 = (z_sched_init (upd_thread (im_dummy im)
    (\<lambda>th. th\<lparr>user_options := K_ESSENTIAL, thread_state := {F_DUMMY}\<rparr>) k))\<lparr>ready_cache := im_main im\<rparr>"
  define k2 where "k2 = z_setup_new_thread (im_main im) (im_main_stack im) (im_main_size im) (im_bg_thread_main im) 0 0 0
    CONFIG_MAIN_THREAD_PRIORITY (ucast K_ESSENTIAL) k1"
  define k3 where "k3 = z_mark_thread_as_started (im_main im) k2"
  define k4 where "k4 = z_ready_thread (im_main im) k3"
  define k5 where "k5 = z_setup_new_thread (im_idle im) (im_idle_stack im) (im_idle_size im) (im_idle_fn im) 0 0 0
    K_LOWEST_THREAD_PRIO (ucast K_ESSENTIAL) k4"
  have k': "k' = (z_mark_thread_as_started (im_idle im) k5)\<lparr>idle_thread := im_idle im, timeout_q := []\<rparr>"
    by (simp add: k'_def prepare_multithreading_def init_idle_thread_def initialize_timeouts_def Let_def k5_def k4_def k3_def k2_def k1_def)
  have "qlists k3 = (qlists k)(RunQ := [])" and t3: "threads k3 = (threads k)(im_dummy im := (threads k (im_dummy im))
      \<lparr>user_options := K_ESSENTIAL, thread_state := {F_DUMMY}\<rparr>, im_main im := (main_started (threads k (im_main im)))\<lparr>thread_state := {}\<rparr>)"
    and s3: "current k3 = im_dummy im" "timeout_list k3 = []" "nested k3 = nested k"
    using ne to cur by (simp_all add: k3_def k2_def k1_def z_mark_thread_as_started_def z_reset_thread_states_def sched_init_sel
        main_started_def s8_prios essential_cast fun_eq_iff)
  then have q3: "qlists k3 = (\<lambda>_. [])" using w by (simp add: fun_eq_iff) (metis lid.exhaust)
  note r = first_ready [of k3 "im_main im", folded k4_def]
  have r4: "qlists k4 = (\<lambda>_. [])(RunQ := [im_main im])" "ready_cache k4 = im_main im"
    "threads k4 = (threads k3)(im_main im := (threads k3 (im_main im))\<lparr>thread_state := {F_QUEUED}\<rparr>)"
    using r ne by (simp_all add: q3 t3 s3)
  show "qlists k' = (\<lambda>_. [])(RunQ := [im_main im])" "ready_cache k' = im_main im" "idle_thread k' = im_idle im"
    "current k' = im_dummy im" "timeout_list k' = []" "nested k' = nested k"
    using r4 s3 by (simp_all add: k' k5_def k4_def z_mark_thread_as_started_def z_reset_thread_states_def)
  show "threads k' = (threads k)(im_dummy im := (threads k (im_dummy im))\<lparr>user_options := K_ESSENTIAL, thread_state := {F_DUMMY}\<rparr>,
       im_main im := main_started (threads k (im_main im)), im_idle im := idle_started (threads k (im_idle im)))"
    using ne by (simp add: k' k5_def z_mark_thread_as_started_def z_reset_thread_states_def r4 t3 fun_eq_iff s8_prios essential_cast
        main_started_def idle_started_def)
qed


lemma cstart_prepared:
  assumes im: "image_ok im" and l: "loaded k" and ok: "early_devs_ok other im"
  obtains k' where "prep_c other im k = switch_to_main_thread (prepare_multithreading im k')" and "current k' = im_dummy im"
    and "timeout_list k' = []" and "\<forall>w. waitq k' w = []" and "nested k' = 0"
    and "threads k' = (\<lambda>_. zero_thread)(im_dummy im := zero_thread\<lparr>thread_state := {F_DUMMY}\<rparr>)"
proof -
  define k0 where "k0 = (upd_thread (im_dummy im) (\<lambda>_. zero_thread\<lparr>thread_state := {F_DUMMY}\<rparr>)
    (kernel_arch_init im (soc_interrupt_init k)))\<lparr>current := im_dummy im\<rparr>"
  let ?k = "z_sys_device_do_config_level other im 1 (z_sys_device_do_config_level other im 0 k0)"
  have "sched_part ?k = sched_part k0" using early_levels [OF ok] by simp
  moreover have "current k0 = im_dummy im" "timeout_list k0 = []" "\<And>w. waitq k0 w = []" "nested k0 = 0"
    "threads k0 = (\<lambda>_. zero_thread)(im_dummy im := zero_thread\<lparr>thread_state := {F_DUMMY}\<rparr>)"
    using l by (simp_all add: k0_def loaded_def kernel_arch_init_def soc_interrupt_init_def z_arch_irq_lock_def)
  moreover have "prep_c other im k = switch_to_main_thread (prepare_multithreading im ?k)"
    by (simp add: prep_c_def z_cstart_def Let_def k0_def LEVEL_PRE_KERNEL_1_def LEVEL_PRE_KERNEL_2_def)
  ultimately show thesis by (intro that [of ?k]) (simp_all add: sched_part_def)
qed

text \<open>The system from the moment the main thread runs, with the semaphores that the program defines.\<close>

definition boot_system :: "(nat \<Rightarrow> soc \<Rightarrow> int \<times> soc) \<Rightarrow> image \<Rightarrow> (nat \<Rightarrow> sem) \<Rightarrow> soc \<Rightarrow> system" where
  "boot_system other im ss k = \<lparr>kern = thkernel.truncate (prep_c other im k), sems = ss, made = {im_main im}\<rparr>"

definition sems_defined :: "(nat \<Rightarrow> sem) \<Rightarrow> bool" where
  "sems_defined ss \<longleftrightarrow> (\<forall>i. sem_count (ss i) \<le> sem_limit (ss i)) \<and> inj (\<lambda>i. sem_wait_q (ss i))"

lemma switch_sel:
  "qlists (switch_to_main_thread k) = qlists k" "ready_cache (switch_to_main_thread k) = ready_cache k"
  "idle_thread (switch_to_main_thread k) = idle_thread k" "current (switch_to_main_thread k) = ready_cache k"
  "timeout_list (switch_to_main_thread k) = timeout_list k" "nested (switch_to_main_thread k) = nested k"
  "threads (switch_to_main_thread k) = (threads k)(current k := (threads k (current k))\<lparr>swap_retval := - EAGAIN\<rparr>)"
  "tcbs (switch_to_main_thread k) = tcbs k" "frames (switch_to_main_thread k) = frames k"
  "entry_wrapper (switch_to_main_thread k) = entry_wrapper k"
  by (simp_all add: switch_to_main_thread_def z_swap_unlocked_def z_arch_irq_lock_def z_swap_def upd_thread_def)

lemma boot_booted:
  assumes im: "image_ok im" and l: "loaded k" and ok: "early_devs_ok other im" and ss: "sems_defined ss"
  shows "booted (boot_system other im ss k)"
proof -
  obtain k' where k': "prep_c other im k = switch_to_main_thread (prepare_multithreading im k')" "current k' = im_dummy im"
    "timeout_list k' = []" "\<forall>w. waitq k' w = []" "nested k' = 0"
    "threads k' = (\<lambda>_. zero_thread)(im_dummy im := zero_thread\<lparr>thread_state := {F_DUMMY}\<rparr>)"
    by (rule cstart_prepared [OF im l ok])
  note P = prepared [OF im k'(2,3) spec [OF k'(4)]]
  have ne: "im_main im \<noteq> im_idle im" "im_main im \<noteq> im_dummy im" "im_idle im \<noteq> im_dummy im" using im by (auto simp: image_ok_def)
  show ?thesis using ne ss
    by (auto simp: booted_def boot_system_def Let_def thkernel.truncate_def k'(1) switch_sel P k'(5,6) main_started_def idle_started_def
        zero_thread_def sems_defined_def is_preempt_def preempt_def K_LOWEST_THREAD_PRIO_def)
qed


section \<open>Tag checks and console after the start\<close>

text \<open>
  \<open>dev_part\<close> is what the drivers of the SoC have set up. Init routines of other devices leave the tag register and
  the panic interrupt, the UART and the console alone (\<open>spares_console\<close>). \<open>board_image im m u c\<close>: of the devices of the
  image, \<open>m\<close> starts the tag checks, \<open>u\<close> is the UART, the only one with the console's name, and \<open>c\<close> is the console.
\<close>

definition con_part :: "soc \<Rightarrow> u32 \<times> (nat \<Rightarrow> nat) \<times> nat option \<times> char_hook \<times> u8 list \<times> bool" where
  "con_part k = (hw_tags k, drv_api k, console_dev k, printk_hook k, uart_tx k, bus_fault k)"

definition panic_enabled :: "soc \<Rightarrow> bool" where
  "panic_enabled k = z_arch_irq_is_enabled RISCV_BEEHIVE_SECURE_MONITOR_PANIC_IRQ k"

definition spares_console :: "(nat \<Rightarrow> soc \<Rightarrow> int \<times> soc) \<Rightarrow> bool" where
  "spares_console other \<longleftrightarrow> (\<forall>n k. con_part (snd (other n k)) = con_part k \<and> (panic_enabled k \<longrightarrow> panic_enabled (snd (other n k))))"

definition board_image :: "image \<Rightarrow> nat \<Rightarrow> nat \<Rightarrow> nat \<Rightarrow> bool" where
  "board_image im m u c \<longleftrightarrow> {m, c} \<subseteq> level_devs im 0 \<and> u < length (im_devs im)
     \<and> dv_init (im_devs im ! m) = Init_mte \<and> dv_init (im_devs im ! u) = Init_uart \<and> dv_init (im_devs im ! c) = Init_console
     \<and> (\<forall>i<length (im_devs im). im_cstr im (dv_name (im_devs im ! i)) = im_cstr im (im_con_name im) \<longleftrightarrow> i = u)"

text \<open>What the early level brings about and every init routine keeps.\<close>

definition tags_on :: "soc \<Rightarrow> bool" where
  "tags_on k \<longleftrightarrow> hw_tags k = 9 \<and> panic_enabled k"

definition uart_up :: "nat \<Rightarrow> u8 list \<Rightarrow> soc \<Rightarrow> bool" where
  "uart_up u b k \<longleftrightarrow> drv_api k u = UART_BEEHIVE_API \<and> uart_tx k = b \<and> \<not> bus_fault k"

definition console_up :: "nat \<Rightarrow> u8 list \<Rightarrow> soc \<Rightarrow> bool" where
  "console_up u b k \<longleftrightarrow> uart_up u b k \<and> console_dev k = Some u \<and> printk_hook k = Hook_console"

lemma tags_on_kept:
  assumes "spares_console other" and "tags_on k"
  shows "tags_on (config_device other im i k)"
proof (cases "dv_init (im_devs im ! i)")
  case (Init_other n)
  have "con_part (snd (other n k)) = con_part k" "panic_enabled (snd (other n k))"
    using assms unfolding spares_console_def tags_on_def by blast+
  then show ?thesis using Init_other assms(2)
    by (cases "other n k") (simp add: config_device_def device_init_def con_part_def tags_on_def panic_enabled_def irq_is_enabled)
qed (use assms(2) in \<open>simp_all add: driver_defs tags_on_def panic_enabled_def irq_is_enabled Let_def bit_or_iff\<close>)

lemma tags_on_set:
  assumes "dv_init (im_devs im ! i) = Init_mte"
  shows "tags_on (config_device other im i k)"
  using assms irq_enable_iff [of RISCV_BEEHIVE_SECURE_MONITOR_PANIC_IRQ RISCV_BEEHIVE_SECURE_MONITOR_PANIC_IRQ k]
  by (simp add: config_device_def device_init_def beehive_mte_init_def tags_on_def panic_enabled_def irq_is_enabled
      RISCV_BEEHIVE_SECURE_MONITOR_PANIC_IRQ_def)

lemma uart_up_kept:
  assumes "spares_console other" and "board_image im m u c" and "uart_up u b k"
  shows "uart_up u b (config_device other im i k)"
proof (cases "dv_init (im_devs im ! i)")
  case (Init_other n)
  have "con_part (snd (other n k)) = con_part k" using assms(1) unfolding spares_console_def by blast
  moreover have "i \<noteq> u" using Init_other assms(2) by (auto simp: board_image_def)
  ultimately show ?thesis using Init_other assms(3)
    by (cases "other n k") (simp add: config_device_def device_init_def con_part_def uart_up_def)
qed (use assms(3) in \<open>simp_all add: driver_defs uart_up_def Let_def\<close>)

lemma console_bound:
  assumes "board_image im m u c" and "uart_up u b k"
  shows "device_get_binding (im_cstr im) (im_devs im) (im_con_name im) k = Some u"
proof -
  have u: "u < length (im_devs im)" "drv_api k u \<noteq> 0" "im_cstr im (dv_name (im_devs im ! u)) = im_cstr im (im_con_name im)"
    using assms by (auto simp: board_image_def uart_up_def UART_BEEHIVE_API_def)
  have only: "i = u" if "i < length (im_devs im)" "im_cstr im (dv_name (im_devs im ! i)) = im_cstr im (im_con_name im)" for i
    using assms(1) that by (auto simp: board_image_def)
  note b = device_binding [where cstr = "im_cstr im" and devs = "im_devs im" and name = "im_con_name im" and k = k]
  show ?thesis
  proof (cases "device_get_binding (im_cstr im) (im_devs im) (im_con_name im) k")
    case None
    then show ?thesis using b u by simp
  next
    case (Some i)
    then have "i < length (im_devs im)" "im_cstr im (dv_name (im_devs im ! i)) = im_cstr im (im_con_name im)" using b by simp_all
    then show ?thesis using Some only by simp
  qed
qed

lemma console_up_kept:
  assumes "spares_console other" and "board_image im m u c" and "console_up u b k"
  shows "console_up u b (config_device other im i k)"
proof -
  have "uart_up u b (config_device other im i k)" using assms uart_up_kept by (simp add: console_up_def)
  moreover have "console_dev (config_device other im i k) = Some u \<and> printk_hook (config_device other im i k) = Hook_console"
  proof (cases "dv_init (im_devs im ! i)")
    case (Init_other n)
    have "con_part (snd (other n k)) = con_part k" using assms(1) unfolding spares_console_def by blast
    then show ?thesis using Init_other assms(3)
      by (cases "other n k") (simp add: config_device_def device_init_def con_part_def console_up_def)
  qed (use assms(3) console_bound [OF assms(2)] in \<open>auto simp: driver_defs console_up_def Let_def\<close>)
  ultimately show ?thesis by (simp add: console_up_def)
qed

lemma console_up_set:
  assumes "board_image im m u c" and "uart_up u b k"
  shows "console_up u b (config_device other im c k)"
proof -
  have "dv_init (im_devs im ! c) = Init_console" using assms(1) by (simp add: board_image_def)
  then show ?thesis using assms(2) console_bound [OF assms] by (simp add: driver_defs console_up_def uart_up_def)
qed

text \<open>The kernel's own operations do not touch the devices.\<close>

definition dev_view :: "soc \<Rightarrow> u32 \<times> u32 \<times> (nat \<Rightarrow> nat) \<times> nat option \<times> char_hook \<times> u8 list \<times> bool" where
  "dev_view k = (hw_mie k, con_part k)"

lemma dev_view_more: "kernel.more k = kernel.more k' \<Longrightarrow> dev_view k = dev_view k'"
  by (cases k, cases k') (simp add: dev_view_def con_part_def)

lemma dev_view_setup [simp]: "dev_view (z_setup_new_thread t stk sz e p1 p2 p3 pr opt k) = dev_view k"
  by (simp add: z_setup_new_thread_def z_new_thread_def z_new_thread_init_def z_init_thread_base_def Let_def
      upd_tcb_def upd_thread_def dev_view_def con_part_def)

lemma dev_view_tcb [simp]: "dev_view (upd_tcb t f k) = dev_view k"
  by (simp add: upd_tcb_def dev_view_def con_part_def)

lemma dev_view_upd [simp]:
  "dev_view (upd_thread t g k) = dev_view k" "dev_view (z_ready_thread t k) = dev_view k"
  "dev_view (k\<lparr>ready_cache := x\<rparr>) = dev_view k" "dev_view (k\<lparr>idle_thread := x\<rparr>) = dev_view k" "dev_view (k\<lparr>current := x\<rparr>) = dev_view k"
  "dev_view (z_reset_thread_states t fs k) = dev_view k" "dev_view (z_swap k) = dev_view k" "dev_view (z_sched_init k) = dev_view k"
  "dev_view (schedule_new_thread t d k) = dev_view k" "dev_view (k_sched_lock k) = dev_view k" "dev_view (k_sched_unlock k) = dev_view k"
  by (rule dev_view_more; simp add: z_sched_init_def k_sched_time_slice_set_def set_list_def k_sched_lock_def z_sched_lock_def
      k_sched_unlock_def)+

lemma dev_view_static: "dev_view (z_init_static_threads ds k) = dev_view k"
proof -
  have "dev_view (fold setup_static ds k) = dev_view k" for k
    by (induction ds arbitrary: k) (simp_all add: setup_static_def)
  moreover have "dev_view (fold start_static ds k) = dev_view k" for k
    by (induction ds arbitrary: k) (simp_all add: start_static_def)
  ultimately show ?thesis by (simp add: z_init_static_threads_def)
qed

lemma dev_view_prepare: "dev_view (switch_to_main_thread (prepare_multithreading im k)) = dev_view k"
proof -
  have "dev_view (initialize_timeouts k) = dev_view k" "dev_view (snd (z_arch_irq_lock k)) = dev_view k" for k
    by (simp_all add: initialize_timeouts_def z_arch_irq_lock_def dev_view_def con_part_def)
  then show ?thesis
    by (simp add: switch_to_main_thread_def z_swap_unlocked_def prepare_multithreading_def init_idle_thread_def
        z_mark_thread_as_started_def Let_def)
qed

lemma dev_view_iff:
  assumes "dev_view k = dev_view k'"
  shows "tags_on k \<longleftrightarrow> tags_on k'" and "console_up u b k \<longleftrightarrow> console_up u b k'" and "uart_up u b k \<longleftrightarrow> uart_up u b k'"
  using assms by (auto simp: dev_view_def con_part_def tags_on_def console_up_def uart_up_def panic_enabled_def irq_is_enabled)

lemma early_devices:
  assumes q: "spares_console other" and im: "board_image im m u c" and up: "uart_up u b k"
  shows "tags_on (prep_c other im k)" and "console_up u b (prep_c other im k)"
proof -
  define k0 where "k0 = (upd_thread (im_dummy im) (\<lambda>_. zero_thread\<lparr>thread_state := {F_DUMMY}\<rparr>)
    (kernel_arch_init im (soc_interrupt_init k)))\<lparr>current := im_dummy im\<rparr>"
  let ?k1 = "z_sys_device_do_config_level other im 0 k0"
  let ?k2 = "z_sys_device_do_config_level other im 1 ?k1"
  have mc: "m \<in> level_devs im 0" "c \<in> level_devs im 0" "dv_init (im_devs im ! m) = Init_mte" using im by (auto simp: board_image_def)
  have u0: "uart_up u b k0" using up
    by (simp add: k0_def upd_thread_def kernel_arch_init_def soc_interrupt_init_def z_arch_irq_lock_def uart_up_def)
  have "tags_on ?k1" by (rule level_reaches [where P = "\<lambda>_. True", OF mc(1)]) (auto intro: tags_on_kept [OF q] tags_on_set [OF mc(3)])
  then have t: "tags_on ?k2" by (rule level_keeps) (rule tags_on_kept [OF q])
  have "console_up u b ?k1"
    by (rule level_reaches [where P = "uart_up u b", OF mc(2) u0])
      (auto intro: uart_up_kept [OF q im] console_up_kept [OF q im] console_up_set [OF im])
  then have c: "console_up u b ?k2" by (rule level_keeps) (rule console_up_kept [OF q im])
  have "prep_c other im k = switch_to_main_thread (prepare_multithreading im ?k2)"
    by (simp add: prep_c_def z_cstart_def Let_def k0_def LEVEL_PRE_KERNEL_1_def LEVEL_PRE_KERNEL_2_def)
  then show "tags_on (prep_c other im k)" "console_up u b (prep_c other im k)"
    using t c dev_view_iff [OF dev_view_prepare] by simp_all
qed

text \<open>
  When the program's \<^verbatim>\<open>main\<close> is called the tag checks are on and the interrupt that reports a mismatch is enabled, and
  the console works: the boot banner has gone out through the UART, line ends as carriage return and line feed, and
  nothing else has.\<close>

theorem boot_console:
  assumes "spares_console other" and "board_image im m u c" and "drv_api k u = UART_BEEHIVE_API" and "\<not> bus_fault k" and "37 \<notin> set (im_banner im)"
  shows "\<exists>k'. bg_thread_main other im (prep_c other im k) = Inr k' \<and> hw_tags k' = 9 \<and> panic_enabled k' \<and> console_ready k'
    \<and> \<not> bus_fault k' \<and> uart_tx k' = uart_tx k @ crlf (map ucast (im_banner im))"
proof -
  let ?b = "uart_tx k" and ?k = "z_sys_device_do_config_level other im 2 (prep_c other im k)"
  let ?t = "?k\<lparr>uart_tx := uart_tx ?k @ crlf (map ucast (im_banner im))\<rparr>"
  have "uart_up u ?b k" using assms(3,4) by (simp add: uart_up_def)
  note e = early_devices [OF assms(1,2) this]
  have t: "tags_on ?k" by (rule level_keeps) (rule e(1), rule tags_on_kept [OF assms(1)])
  have c: "console_up u ?b ?k" by (rule level_keeps) (rule e(2), rule console_up_kept [OF assms(1,2)])
  then have "console_ready ?k" by (auto simp: console_up_def console_ready_def uart_up_def)
  then have p: "printk printk_char (im_banner im) [] ?k = Inr ?t" by (simp add: printk_console printk_plain [OF assms(5)])
  have "tags_on ?t" "console_up u (?b @ crlf (map ucast (im_banner im))) ?t"
    using t c by (auto simp: tags_on_def panic_enabled_def irq_is_enabled console_up_def uart_up_def)
  then have l: "tags_on (z_sys_device_do_config_level other im 3 ?t)"
    "console_up u (?b @ crlf (map ucast (im_banner im))) (z_sys_device_do_config_level other im 3 ?t)"
    by (auto intro: level_keeps tags_on_kept [OF assms(1)] console_up_kept [OF assms(1,2)])
  let ?e = "z_init_static_threads (im_static im) (z_sys_device_do_config_level other im 3 ?t)"
  have "tags_on ?e" "console_up u (?b @ crlf (map ucast (im_banner im))) ?e"
    using l dev_view_iff(1,2) [OF dev_view_static] by blast+
  moreover have "bg_thread_main other im (prep_c other im k) = Inr ?e"
    by (simp only: bg_thread_main_def Let_def LEVEL_POST_KERNEL_def LEVEL_APPLICATION_def p sum.case)
  ultimately show ?thesis by (auto simp: tags_on_def console_up_def uart_up_def console_ready_def)
qed

section \<open>Idling\<close>

text \<open>
  The idle thread asks for another wake-up only when the next event is two ticks away, and then with the idle flag,
  which the timer driver ignores: the comparator stays where the kernel has put it.
\<close>

lemma idle_request:
  "hw_timeout (idle_round k) = (if z_get_next_timeout_expiry k = 2 then Some (1, True) else hw_timeout k)"
proof -
  have n: "next_timeout (k\<lparr>hw_mstatus := x\<rparr>) = next_timeout k" for x
    by (simp add: next_timeout_def to_first_def elapsed_def Let_def cong: option.case_cong)
  show ?thesis
    by (auto simp: idle_round_def sys_power_save_idle_def z_arch_irq_lock_def z_get_next_timeout_expiry_def z_set_timeout_expiry_def n
        Let_def k_cpu_idle_def riscv_idle_def z_arch_irq_unlock_def z_clock_set_timeout_def IDLE_THRESH_def K_FOREVER_def)
qed

text \<open>
  A round of the idle loop ends with interrupts enabled, changes no thread, queue or timeout, and leaves the next timer
  interrupt where it is: the timer driver does nothing for the request that the round may make.\<close>

theorem idle_waits:
  "bit (hw_mstatus (idle_round k)) 3 \<and> sched_part (idle_round k) = sched_part k \<and> dev_view (idle_round k) = dev_view k
   \<and> z_get_next_timeout_expiry (idle_round k) = z_get_next_timeout_expiry k
   \<and> (hw_timeout (idle_round k) = hw_timeout k
      \<or> (\<exists>n. hw_timeout (idle_round k) = Some (n, True) \<and> (\<forall>f d. drv_z_clock_set_timeout f n True d = Some d)))"
proof (intro conjI)
  have "bit (8 :: u32) 3" by simp
  then show "bit (hw_mstatus (idle_round k)) 3"
    by (simp add: idle_round_def sys_power_save_idle_def k_cpu_idle_def riscv_idle_def z_arch_irq_unlock_def Let_def bit_or_iff SOC_MSTATUS_IEN_def)
  have e: "dev_view (z_set_timeout_expiry a b k) = dev_view k" for a b k by (rule dev_view_more) simp
  show "sched_part (idle_round k) = sched_part k" "dev_view (idle_round k) = dev_view k"
    using e by (simp_all add: idle_round_def sys_power_save_idle_def k_cpu_idle_def riscv_idle_def z_arch_irq_unlock_def Let_def
        z_arch_irq_lock_def sched_part_def dev_view_def con_part_def)
  show "z_get_next_timeout_expiry (idle_round k) = z_get_next_timeout_expiry k"
    by (simp add: z_get_next_timeout_expiry_def next_timeout_def to_first_def elapsed_def idle_round_def sys_power_save_idle_def k_cpu_idle_def
        riscv_idle_def z_arch_irq_unlock_def z_arch_irq_lock_def Let_def cong: option.case_cong)
  show "hw_timeout (idle_round k) = hw_timeout k
      \<or> (\<exists>n. hw_timeout (idle_round k) = Some (n, True) \<and> (\<forall>f d. drv_z_clock_set_timeout f n True d = Some d))"
    by (simp add: idle_request drv_z_clock_set_timeout_def)
qed

section \<open>An image\<close>

text \<open>Tag checks, UART and console, all in the first level, and a banner of three characters.\<close>

definition demo_image :: image where
  "demo_image = \<lparr>im_cstr = (\<lambda>n. replicate n (CHR ''u'')), im_con_name = 1,
     im_devs = [\<lparr>dv_name = 0, dv_init = Init_mte\<rparr>, \<lparr>dv_name = 1, dv_init = Init_uart\<rparr>, \<lparr>dv_name = 2, dv_init = Init_console\<rparr>],
     im_levels = [0, 3, 3, 3, 3], im_main = 1, im_idle = 2, im_dummy = 3, im_main_stack = 0x1000, im_main_size = 0x400,
     im_idle_stack = 0x2000, im_idle_size = 0x200, im_isr_stack = 0x3000, im_isr_size = 0x400, im_bg_thread_main = 0x100,
     im_idle_fn = 0x200, im_banner = [104, 105, 10], im_static = []\<rparr>"

definition demo_soc :: soc where
  "demo_soc = thkernel.extend (demo_threads\<lparr>threads := \<lambda>_. zero_thread, qlists := \<lambda>_. [], timeout_list := []\<rparr>)
     (soc.fields 0 [] 0 0 0 0 (0, 0) [] (\<lambda>_. 1) None Hook_arch Hook_arch False)"


theorem boot_console_witness:
  "\<exists>k'. bg_thread_main (\<lambda>_ k. (0, k)) demo_image (prep_c (\<lambda>_ k. (0, k)) demo_image demo_soc) = Inr k' \<and> hw_tags k' = 9
    \<and> uart_tx k' = [104, 105, 13, 10]"
proof -
  have "spares_console (\<lambda>_ k. (0, k))" by (simp add: spares_console_def)
  moreover have "board_image demo_image 0 1 2"
    by (auto simp: board_image_def demo_image_def level_devs_def nth_Cons' less_Suc_eq numeral_2_eq_2)
  moreover have "drv_api demo_soc 1 = UART_BEEHIVE_API" "\<not> bus_fault demo_soc" "uart_tx demo_soc = []" "37 \<notin> set (im_banner demo_image)"
      "crlf (map ucast (im_banner demo_image)) = [104, 105, 13, 10]"
    by (simp_all add: demo_soc_def thkernel.defs soc.defs demo_image_def UART_BEEHIVE_API_def crlf_def)
  ultimately show ?thesis using boot_console [of "\<lambda>_ k. (0, k)" demo_image 0 1 2 demo_soc] by auto
qed

end
