(* ===== verification/Spec2Isabelle.thy ===== *)
theory Spec2Isabelle
  imports LibcMemmove LibcPrintf KMutex KMachineTimer KStack KMemSlab KMsgq KQueue KTimer
    KWork KRingBuf KCrc KSystem KBase64 KMbox KPipeIO KPrintk KBoot
begin

text \<open>
  Verification of the system software of the Beehive RISC-V SoC with hardware memory tagging.

  The repository holds the SoC's RTL, simulators, test programs, a small libc for programs on the bare
  machine (\<^verbatim>\<open>bench/tools/libc\<close>) and a copy of the Zephyr kernel with a port to the SoC
  (\<^verbatim>\<open>zephyrproject/zephyr\<close>). This development models the C code of the two software stacks: the libc
  as a whole, and of Zephyr the kernel proper, in the configuration of the SoC.

  \<^bold>\<open>The libc.\<close> A pointer carries a 4-bit tag; the hardware compares it with the tag of the 16-byte granule it
  points to. \<^verbatim>\<open>internals/security.c\<close> chooses tags and tags memory, \<^verbatim>\<open>internals/malloc.c\<close> builds the
  heap on it, \<^verbatim>\<open>internals/os.c\<close> starts both and serves traps.
    \<^item> \<open>TagMachine\<close>: the machine (memory, tag memory, registers), loads and stores that fault on a tag mismatch,
      and the state-and-error type \<open>mach\<close> of the libc's functions. The libc's own diagnostics are kept as the
      list of their format strings.
    \<^item> \<open>LibcString\<close>: \<^verbatim>\<open>string.c\<close>. Loops that run to a NUL byte have fuel; each function is shown equal to its
      effect on byte lists with fuel one above the length of the string, which is enough for every string.
    \<^item> \<open>LibcSecurity\<close>: \<^verbatim>\<open>security.c\<close> and \<^verbatim>\<open>no_security.c\<close>. The locale \<open>heap_security\<close> is what the heap relies
      on and is interpreted for both; \<open>tagging_security\<close> adds different tags for consecutive regions and holds for
      \<^verbatim>\<open>security.c\<close>. The draws of random tags have fuel: a random source that repeats every value within the
      fuel is enough. The loop of the tag generator ends within three rounds.
    \<^item> \<open>LibcMalloc\<close>: \<^verbatim>\<open>malloc.c\<close>. The heap invariant, that \<^verbatim>\<open>malloc\<close> returns fresh blocks, tags exactly them, and refuses what
      does not fit; over runs of allocations and writes from the initialised heap (\<open>heap_run\<close>), that accesses before or past a block
      through its pointer fault; and the size for which the rounding wraps.
    \<^item> \<open>LibcMemmove\<close>: \<^verbatim>\<open>memmove\<close>, which allocates. \<open>LibcMisc\<close>: \<^verbatim>\<open>ctype.c\<close>, \<^verbatim>\<open>strtoul\<close>, \<^verbatim>\<open>__mulsi3\<close>, the end of a
      program. \<open>LibcOs\<close>: handler tables, trap service, the timer, \<^verbatim>\<open>__soc_init\<close>. \<open>TimerRegs\<close>: the access sequences
      to the 64-bit timer registers, shared with Zephyr's driver; reading ends as the counter's upper half changes at
      most once in three accesses.
    \<^item> \<open>LibcPrintf\<close>: \<^verbatim>\<open>printf.c\<close> as the libc builds it, without floating point and \<^verbatim>\<open>long long\<close>. The locale
      \<open>char_sink\<close> is what the console and a caller's function promise about characters; both are interpretations.
      The text of a format is the same for all outputs, \<^verbatim>\<open>snprintf\<close> stays in its buffer, integers print as C
      prescribes within stated limits, and what \<^verbatim>\<open>%d\<close> prints \<^verbatim>\<open>strtoul\<close> reads back.

  \<^bold>\<open>The Zephyr kernel\<close>, for one CPU, list-based run queue and wait queues, time slicing, tickless, without poll and
  user space. A thread, wait queue, timer or queue is a number; linked lists are lists. A function that may
  switch threads is cut at the switch: what it does when its thread runs again is a definition of its own
  (\<open>..._resume\<close>), so an interleaving is a sequence of calls.
    \<^item> \<open>KState\<close>: threads, lists, the CPU, the timeouts. \<open>KTimeout\<close>: the delta list of \<^verbatim>\<open>timeout.c\<close> refines a list
      sorted by expiry time. \<open>KClock\<close>: \<^verbatim>\<open>z_clock_announce\<close>; the locales \<open>bounded_callbacks\<close> and
      \<open>passive_callbacks\<close> say what it needs of callbacks, with fuel above the number of expirations as enough. Callbacks that leave
      the timeouts alone run once each and on time; \<open>KTimer\<close> has the case of a timer that arms itself again.
      \<open>KMachineTimer\<close>: the driver \<^verbatim>\<open>riscv_machine_timer.c\<close>, with the 32-bit and 64-bit arithmetic it does.
    \<^item> \<open>KSched\<close>: \<^verbatim>\<open>sched.c\<close>. The invariant \<open>queues_ok\<close> relates queues, thread states and priorities; the locale
      \<open>wait_queue\<close> is what the kernel objects rely on (wake the first waiter with a value) and is interpreted on the
      scheduler, for return values and for return values with data.
    \<^item> \<open>KSem\<close>, \<open>KMutex\<close>, \<open>KStack\<close>, \<open>KMemSlab\<close>, \<open>KMsgq\<close>, \<open>KQueue\<close>, \<open>KTimer\<close>: the kernel objects. Each has its
      invariant, an abstract view (a counter, a list, a set of blocks), and the operations are shown to act on the
      view as the object promises, on every branch, waiting threads included. \<open>KTimer\<close> puts the timers' callback
      into the locale of \<open>KClock\<close>.
    \<^item> \<open>KDlist\<close>: the pointers of \<^verbatim>\<open>misc/dlist.h\<close> refine lists, the empty one included, which the other theories use. \<open>KThread\<close>:
      \<^verbatim>\<open>thread.c\<close> and \<^verbatim>\<open>thread_abort.c\<close>, creation, suspension and abort of threads keep \<open>queues_ok\<close>; the run queue's
      insertion on the nodes themselves refines the one on lists, with fuel above the length of the queue as
      enough; busy waiting ends once the counter has advanced.
    \<^item> \<open>KWork\<close>: work queues, \<^verbatim>\<open>kernel/work_q.c\<close> and \<^verbatim>\<open>lib/os/work_q.c\<close>, on top of the queues, the timeouts and the
      threads: an item is queued at most once, a countdown can be undone, and what happens to completed items.
    \<^item> \<open>KSystem\<close>: the scheduler, the threads, the semaphores and the timer interrupt together. \<open>sys_step\<close> is a step
      relation with a rule for each call, \<open>run\<close> its sequences of steps; the locale \<open>invariant_system\<close> carries invariants
      and balances along them. No thread is lost, the best thread runs, semaphores keep count. The one call left out of the steps
      although it is documented as legal is \<^verbatim>\<open>k_thread_resume\<close> of a ready thread, which corrupts the run queue (\<open>KThread\<close>); a priority set
      under the scheduler lock and an inner unlock are steps, and can preempt the holder of the lock.
    \<^item> \<open>KDevice\<close>, \<open>KBoot\<close>: interrupt controls, devices, UART and console, and \<^verbatim>\<open>kernel/init.c\<close> and \<^verbatim>\<open>kernel/idle.c\<close> on top of
      them. The kernel starts in a state from which the theorems of \<open>KSystem\<close> hold of every run; when \<^verbatim>\<open>main\<close> is called the tag
      checks are on and the banner has been printed; the idle loop leaves the state and the next timer interrupt alone. Init routines of
      other devices are a parameter.
    \<^item> \<open>KCrc\<close>: the checksum routines of \<^verbatim>\<open>lib/os\<close> equal division by the polynomial bit by bit, by linearity over
      exclusive or; CRC-32 detects bursts of up to 32 bits.
    \<^item> \<open>KMemPool\<close>: the allocator of \<^verbatim>\<open>lib/os/mempool.c\<close>, its free lists and free bits, refines a forest of blocks that
      are free, in use or split in four, for pools whose sizes quarter evenly; blocks in use never overlap, with each other or with a
      node of a free list. The nodes, which the code keeps in the free blocks, are the lists of the model and no part of a memory. \<open>KHeap\<close>: the
      sizing macros, the pools of user-mode code, the kernel's pools and \<^verbatim>\<open>k_malloc\<close> (\<^verbatim>\<open>kernel/mempool.c\<close>); the locale
      \<open>block_header\<close> is what the clients need of the descriptor in a block, and is interpreted for both layouts.
    \<^item> \<open>KMbox\<close>: \<^verbatim>\<open>kernel/mailbox.c\<close>, synchronous and asynchronous: the first compatible message is exchanged with its data, and its sender
      resumes; a sender whose message is kept for later can run too early. \<open>KPipe\<close>, \<open>KPipeIO\<close>: \<^verbatim>\<open>kernel/pipes.c\<close>; the buffer and
      the data of waiting writers are one stream of bytes, of which reads take the beginning and to which writes add at the end;
      writers wait only for a full buffer and readers for an empty one. The loop that collects waiting threads has the length of
      the queue as fuel, which is exact as each round takes one thread.
    \<^item> \<open>KPrintk\<close>: \<^verbatim>\<open>lib/os/printk.c\<close>. The locale \<open>out_morphism\<close> relates output functions; its interpretation shows that every
      output gets the same text. For formats given by their parts the text is the one C prescribes, \<^verbatim>\<open>snprintk\<close> stays in its buffer, and
      where \<^verbatim>\<open>printk\<close> departs from C or its documentation is a theorem of its own.
    \<^item> \<open>KBase64\<close>: \<^verbatim>\<open>lib/os/base64.c\<close>: decoding an encoding gives the data back, results stay within the buffers.
    \<^item> \<open>KRingBuf\<close>: \<^verbatim>\<open>lib/os/ring_buffer.c\<close> in both modes refines a bounded queue of bytes and a queue of items.

  \<^bold>\<open>Not modelled.\<close> Floating point and \<^verbatim>\<open>long long\<close> output, which the build disables, the RTL and its simulators
  (not C, or vendored), the registers and stacks in the assembly of interrupt entry and context switch
  (\<open>z_swap\<close>, \<open>irq_enter\<close> and \<open>irq_exit\<close> are its effect on the kernel's state), kernel code that the configuration leaves out (poll, user space, SMP, the other queue implementations),
  console input, and the drivers and subsystems for other hardware.
  Spin locks are interrupt locks on one CPU: a function is the section its lock protects. Assertions
  (\<^verbatim>\<open>__ASSERT\<close>) are off in the configuration; what they check is a hypothesis where a property needs it.
\<close>

end
